(* ===== verification/Prelude.thy ===== *)
theory Prelude
  imports Main "HOL-Library.Word" "HOL-Library.Sublist"
begin

text \<open>
  Shared by all components: the machine integers of the C++ code at their width, byte
  strings (\<^verbatim>\<open>std::string\<close> and \<^verbatim>\<open>Slice\<close> are both \<open>bytes\<close>), the little-endian image of a word in
  memory, C string literals, and the word and bit lemmas the component proofs use.
  \<open>codec_simps\<close> collects what every encoder and decoder adds to the simplifier: the layout of
  what is appended and that decoding an encoded value gives it back.
\<close>

unbundle bit_operations_syntax

type_synonym byte = "8 word"
type_synonym u32 = "32 word"
type_synonym u64 = "64 word"
type_synonym bytes = "byte list"

named_theorems codec_simps

fun le_bytes :: "nat \<Rightarrow> 'a::len word \<Rightarrow> bytes" where
  "le_bytes 0 w = []"
| "le_bytes (Suc n) w = ucast w # le_bytes n (drop_bit 8 w)"

fun le_word :: "bytes \<Rightarrow> 'a::len word" where
  "le_word [] = 0"
| "le_word (b # bs) = ucast b OR push_bit 8 (le_word bs)"

lemma length_le_bytes [simp]: "length (le_bytes n w) = n"
  by (induction n arbitrary: w) auto

lemma le_word_le_bytes: "le_word (le_bytes n w) = take_bit (8 * n) w"
proof (induction n arbitrary: w)
  case 0
  then show ?case by simp
next
  case (Suc n)
  show ?case
    by (rule bit_word_eqI) (auto simp: Suc.IH bit_simps)
qed

lemma le_bytes_nth:
  "i < n \<Longrightarrow> le_bytes n w ! i = ucast (drop_bit (8 * i) w)"
  by (induction n arbitrary: w i) (auto simp: nth_Cons' drop_bit_drop_bit algebra_simps intro!: arg_cong[where f = "\<lambda>k. ucast (drop_bit k w)" for w])

lemma bit_le_word:
  "bit (le_word bs :: 'a::len word) i \<longleftrightarrow>
     i < LENGTH('a) \<and> i < 8 * length bs \<and> bit (bs ! (i div 8)) (i mod 8)"
proof (induction bs arbitrary: i)
  case Nil
  then show ?case by simp
next
  case (Cons b bs)
  show ?case
  proof (cases "i < 8")
    case True
    then show ?thesis by (auto simp: bit_simps dest: bit_imp_le_length)
  next
    case False
    then obtain j where "i = j + 8" by (metis add.commute le_Suc_ex not_less)
    then have "i div 8 = Suc (j div 8)" and "i mod 8 = j mod 8" by simp_all
    with \<open>i = j + 8\<close> show ?thesis
      by (auto simp: bit_simps Cons.IH dest: bit_imp_le_length)
  qed
qed

lemma le_bytes_le_word:
  assumes "8 * length bs \<le> LENGTH('a::len)"
  shows "le_bytes (length bs) (le_word bs :: 'a word) = bs"
proof (rule nth_equalityI)
  fix i assume "i < length (le_bytes (length bs) (le_word bs :: 'a word))"
  then have i: "i < length bs" by simp
  show "le_bytes (length bs) (le_word bs :: 'a word) ! i = bs ! i"
    using i assms
    by (intro bit_word_eqI) (auto simp: le_bytes_nth bit_simps bit_le_word dest: bit_imp_le_length)
qed simp

lemma bit_127_int [bit_simps]: "bit (127 :: int) n \<longleftrightarrow> n < 7"
proof -
  have "(127 :: int) = mask 7" by (simp add: mask_eq_exp_minus_1)
  then show ?thesis by (simp only: bit_mask_iff) simp
qed

lemma bit_255_int [bit_simps]: "bit (255 :: int) n \<longleftrightarrow> n < 8"
proof -
  have "(255 :: int) = mask 8" by (simp add: mask_eq_exp_minus_1)
  then show ?thesis by (simp only: bit_mask_iff) simp
qed

lemma bit_128_int [bit_simps]: "bit (128 :: int) n \<longleftrightarrow> n = 7"
proof -
  have "(128 :: int) = 2 ^ 7" by simp
  then show ?thesis by (simp only: bit_exp_iff) auto
qed

lemma and_128_eq_0_iff:
  assumes "7 < LENGTH('a::len)"
  shows "(w :: 'a word) AND 128 = 0 \<longleftrightarrow> \<not> bit w 7"
proof
  assume "w AND 128 = 0"
  then have "\<not> bit (w AND 128) 7" by simp
  with assms show "\<not> bit w 7" by (simp add: bit_simps)
next
  assume "\<not> bit w 7"
  then show "w AND 128 = 0" by (intro bit_word_eqI) (auto simp: bit_simps)
qed

lemma bit_word_small:
  assumes "unat (w :: 'a::len word) < 2 ^ k" and "bit w n"
  shows "n < k"
proof -
  from assms(1) have "take_bit k (unat w) = unat w" by (rule take_bit_nat_eq_self)
  moreover from assms(2) have "bit (unat w) n" by (simp add: bit_simps bit_imp_le_length)
  ultimately show ?thesis by (metis bit_take_bit_iff)
qed

lemma ucast_down_up:
  assumes "unat (w :: 'a::len word) < 2 ^ LENGTH('b::len)"
  shows "(ucast (ucast w :: 'b word) :: 'a word) = w"
  by (rule bit_word_eqI) (auto simp: bit_simps dest: bit_word_small [OF assms])

lemma unat_bound: "unat (w :: 'a::len word) < 2 ^ LENGTH('a)"
  by (rule unsigned_less)

lemma unat_ucast_up:
  assumes "LENGTH('a::len) \<le> LENGTH('b::len)"
  shows "unat (ucast (w :: 'a word) :: 'b word) = unat w"
proof -
  have "unat w < 2 ^ LENGTH('b)"
    using unsigned_less [of w] power_increasing [OF assms, of "2 :: nat"]
    by (meson less_le_trans one_le_numeral)
  then show ?thesis by (simp add: unsigned_ucast_eq take_bit_nat_eq_self)
qed

lemma unat_drop_bit_div: "unat (drop_bit k (w :: 'a::len word)) = unat w div 2 ^ k"
  by (subst unat_drop_bit_eq) (simp add: drop_bit_eq_div)

text \<open>A C string literal as bytes.\<close>

definition cstr :: "string \<Rightarrow> bytes" where
  "cstr s = map (\<lambda>c. word_of_nat (of_char c)) s"

lemma cstr_Nil [simp]: "cstr [] = []"
  by (simp add: cstr_def)

lemma cstr_Cons [simp]: "cstr (c # s) = word_of_nat (of_char c) # cstr s"
  by (simp add: cstr_def)


lemma unat_u32: "n < 2 ^ 32 \<Longrightarrow> unat (word_of_nat n :: u32) = n"
  by (simp add: unat_of_nat take_bit_nat_eq_self)

lemma takeWhile_map_cong:
  "(\<And>x. x \<in> set xs \<Longrightarrow> P (f x) = Q x) \<Longrightarrow> takeWhile P (map f xs) = map f (takeWhile Q xs)"
  by (induction xs) auto

lemma dropWhile_map_cong:
  "(\<And>x. x \<in> set xs \<Longrightarrow> P (f x) = Q x) \<Longrightarrow> dropWhile P (map f xs) = map f (dropWhile Q xs)"
  by (induction xs) auto

end
