(* ===== verification/Coding.thy ===== *)
theory Coding
  imports Prelude
begin

text \<open>
  Fixed-width, varint and length-prefixed encodings: \<^verbatim>\<open>util/coding.cc\<close> and \<^verbatim>\<open>util/coding.h\<close>.
  A pointer into a buffer with its limit is the list of bytes left; a decoder returns the
  value with the bytes after it, or \<open>None\<close> where the code returns \<^verbatim>\<open>NULL\<close> or \<^verbatim>\<open>false\<close>. The copy of
  the in-memory image on a little-endian machine is \<open>le_bytes\<close>, the branch for big-endian
  machines is kept and \<open>fixed32_branches\<close> shows that both write the same bytes.
\<close>

definition kLittleEndian :: bool where
  "kLittleEndian = True"

definition EncodeFixed32 :: "u32 \<Rightarrow> bytes" where
  "EncodeFixed32 value =
     (if kLittleEndian then le_bytes 4 value
      else [ucast (value AND 0xff), ucast (drop_bit 8 value AND 0xff),
            ucast (drop_bit 16 value AND 0xff), ucast (drop_bit 24 value AND 0xff)])"

definition EncodeFixed64 :: "u64 \<Rightarrow> bytes" where
  "EncodeFixed64 value =
     (if kLittleEndian then le_bytes 8 value
      else [ucast (value AND 0xff), ucast (drop_bit 8 value AND 0xff),
            ucast (drop_bit 16 value AND 0xff), ucast (drop_bit 24 value AND 0xff),
            ucast (drop_bit 32 value AND 0xff), ucast (drop_bit 40 value AND 0xff),
            ucast (drop_bit 48 value AND 0xff), ucast (drop_bit 56 value AND 0xff)])"

definition PutFixed32 :: "bytes \<Rightarrow> u32 \<Rightarrow> bytes" where
  "PutFixed32 dst value = dst @ EncodeFixed32 value"

definition PutFixed64 :: "bytes \<Rightarrow> u64 \<Rightarrow> bytes" where
  "PutFixed64 dst value = dst @ EncodeFixed64 value"

definition EncodeVarint32 :: "u32 \<Rightarrow> bytes" where
  "EncodeVarint32 v =
     (let B = 128 in
      if v < push_bit 7 1 then [ucast v]
      else if v < push_bit 14 1 then [ucast (v OR B), ucast (drop_bit 7 v)]
      else if v < push_bit 21 1 then
        [ucast (v OR B), ucast (drop_bit 7 v OR B), ucast (drop_bit 14 v)]
      else if v < push_bit 28 1 then
        [ucast (v OR B), ucast (drop_bit 7 v OR B), ucast (drop_bit 14 v OR B),
         ucast (drop_bit 21 v)]
      else
        [ucast (v OR B), ucast (drop_bit 7 v OR B), ucast (drop_bit 14 v OR B),
         ucast (drop_bit 21 v OR B), ucast (drop_bit 28 v)])"

definition PutVarint32 :: "bytes \<Rightarrow> u32 \<Rightarrow> bytes" where
  "PutVarint32 dst v = dst @ EncodeVarint32 v"

lemma unat_drop_bit_7_less:
  "\<not> v < 128 \<Longrightarrow> unat (drop_bit 7 v) < unat (v :: u64)"
  by (simp add: unat_drop_bit_eq drop_bit_eq_div word_less_nat_alt unat_div)

function EncodeVarint64 :: "u64 \<Rightarrow> bytes" where
  "EncodeVarint64 v =
     (if 128 \<le> v then ucast ((v AND 127) OR 128) # EncodeVarint64 (drop_bit 7 v)
      else [ucast v])"
  by pat_completeness auto
termination
  by (relation "measure unat") (auto simp: not_less intro!: unat_drop_bit_7_less)

declare EncodeVarint64.simps [simp del]

definition PutVarint64 :: "bytes \<Rightarrow> u64 \<Rightarrow> bytes" where
  "PutVarint64 dst v = dst @ EncodeVarint64 v"

definition PutLengthPrefixedSlice :: "bytes \<Rightarrow> bytes \<Rightarrow> bytes" where
  "PutLengthPrefixedSlice dst value = PutVarint32 dst (word_of_nat (length value)) @ value"

function VarintLength :: "u64 \<Rightarrow> nat" where
  "VarintLength v = (if 128 \<le> v then Suc (VarintLength (drop_bit 7 v)) else 1)"
  by pat_completeness auto
termination
  by (relation "measure unat") (auto simp: not_less intro!: unat_drop_bit_7_less)

declare VarintLength.simps [simp del]

fun GetVarint32Loop :: "u32 \<Rightarrow> nat \<Rightarrow> bytes \<Rightarrow> (u32 \<times> bytes) option" where
  "GetVarint32Loop result shift [] = None"
| "GetVarint32Loop result shift (b # p) =
     (if shift \<le> 28 then
        let byte = ucast b :: u32 in
        if byte AND 128 \<noteq> 0
        then GetVarint32Loop (result OR push_bit shift (byte AND 127)) (shift + 7) p
        else Some (result OR push_bit shift byte, p)
      else None)"

definition GetVarint32PtrFallback :: "bytes \<Rightarrow> (u32 \<times> bytes) option" where
  "GetVarint32PtrFallback p = GetVarint32Loop 0 0 p"

definition GetVarint32Ptr :: "bytes \<Rightarrow> (u32 \<times> bytes) option" where
  "GetVarint32Ptr p =
     (case p of
        b # q \<Rightarrow> (if (ucast b :: u32) AND 128 = 0 then Some (ucast b, q)
                  else GetVarint32PtrFallback p)
      | [] \<Rightarrow> GetVarint32PtrFallback p)"

definition GetVarint32 :: "bytes \<Rightarrow> (u32 \<times> bytes) option" where
  "GetVarint32 input = GetVarint32Ptr input"

fun GetVarint64Loop :: "u64 \<Rightarrow> nat \<Rightarrow> bytes \<Rightarrow> (u64 \<times> bytes) option" where
  "GetVarint64Loop result shift [] = None"
| "GetVarint64Loop result shift (b # p) =
     (if shift \<le> 63 then
        let byte = ucast b :: u64 in
        if byte AND 128 \<noteq> 0
        then GetVarint64Loop (result OR push_bit shift (byte AND 127)) (shift + 7) p
        else Some (result OR push_bit shift byte, p)
      else None)"

definition GetVarint64Ptr :: "bytes \<Rightarrow> (u64 \<times> bytes) option" where
  "GetVarint64Ptr p = GetVarint64Loop 0 0 p"

definition GetVarint64 :: "bytes \<Rightarrow> (u64 \<times> bytes) option" where
  "GetVarint64 input = GetVarint64Ptr input"

definition GetLengthPrefixedSlicePtr :: "bytes \<Rightarrow> (bytes \<times> bytes) option" where
  "GetLengthPrefixedSlicePtr p =
     (case GetVarint32Ptr p of
        None \<Rightarrow> None
      | Some (len, p) \<Rightarrow>
          if unat len > length p then None
          else Some (take (unat len) p, drop (unat len) p))"

definition GetLengthPrefixedSlice :: "bytes \<Rightarrow> (bytes \<times> bytes) option" where
  "GetLengthPrefixedSlice input =
     (case GetVarint32 input of
        None \<Rightarrow> None
      | Some (len, input) \<Rightarrow>
          if length input \<ge> unat len
          then Some (take (unat len) input, drop (unat len) input) else None)"

definition DecodeFixed32 :: "bytes \<Rightarrow> u32" where
  "DecodeFixed32 ptr =
     (if kLittleEndian then le_word (take 4 ptr)
      else ucast (ptr ! 0) OR push_bit 8 (ucast (ptr ! 1))
           OR push_bit 16 (ucast (ptr ! 2)) OR push_bit 24 (ucast (ptr ! 3)))"

definition DecodeFixed64 :: "bytes \<Rightarrow> u64" where
  "DecodeFixed64 ptr =
     (if kLittleEndian then le_word (take 8 ptr)
      else let lo = ucast (DecodeFixed32 ptr) :: u64;
               hi = ucast (DecodeFixed32 (drop 4 ptr)) :: u64
           in push_bit 32 hi OR lo)"

section \<open>Theorems\<close>

lemma length_EncodeFixed32 [simp]: "length (EncodeFixed32 v) = 4"
  by (simp add: EncodeFixed32_def)

lemma length_EncodeFixed64 [simp]: "length (EncodeFixed64 v) = 8"
  by (simp add: EncodeFixed64_def)

lemma fixed32_branches:
  "le_bytes 4 (v :: u32) = [ucast (v AND 0xff), ucast (drop_bit 8 v AND 0xff),
     ucast (drop_bit 16 v AND 0xff), ucast (drop_bit 24 v AND 0xff)]"
proof -
  have byte: "ucast (x AND 0xff) = (ucast x :: byte)" for x :: u32
    by (rule bit_word_eqI) (auto simp: bit_simps)
  show ?thesis by (simp add: numeral_eq_Suc byte drop_bit_drop_bit)
qed


lemma EncodeVarint64_continuation:
  "ucast ((v AND 127) OR 128 :: u64) = (ucast v OR 128 :: byte)"
  by (rule bit_word_eqI) (auto simp: bit_simps)

lemma GetVarint64Loop_continuation:
  "shift \<le> 63 \<Longrightarrow>
   GetVarint64Loop result shift ((ucast v OR 128) # p) =
     GetVarint64Loop (result OR push_bit shift (v AND 127)) (shift + 7) p"
proof -
  have "(ucast (ucast v OR 128 :: byte) :: u64) AND 127 = v AND 127"
    by (rule bit_word_eqI) (auto simp: bit_simps)
  moreover have "(ucast (ucast v OR 128 :: byte) :: u64) AND 128 \<noteq> 0"
    by (simp add: and_128_eq_0_iff bit_simps)
  ultimately show "shift \<le> 63 \<Longrightarrow> ?thesis" by simp
qed

lemma varint_step:
  "(result OR push_bit shift (v AND 127)) OR push_bit (shift + 7) (drop_bit 7 v) =
   result OR push_bit shift (v :: 'a::len word)"
proof (rule bit_word_eqI)
  fix n assume "n < LENGTH('a)"
  then show "bit ((result OR push_bit shift (v AND 127)) OR push_bit (shift + 7) (drop_bit 7 v)) n
      = bit (result OR push_bit shift v) n"
    by (cases "n < shift + 7") (auto simp: bit_simps)
qed

lemma GetVarint64Loop_EncodeVarint64:
  "\<lbrakk>shift \<le> 63; unat v < 2 ^ (64 - shift)\<rbrakk> \<Longrightarrow>
   GetVarint64Loop result shift (EncodeVarint64 v @ rest) = Some (result OR push_bit shift v, rest)"
proof (induction v arbitrary: result shift rule: EncodeVarint64.induct)
  case (1 v)
  show ?case
  proof (cases "128 \<le> v")
    case True
    from True have ge: "128 \<le> unat v" by (simp add: word_le_nat_alt)
    have "57 > shift"
    proof (rule ccontr)
      assume "\<not> 57 > shift"
      then have "(2::nat) ^ (64 - shift) \<le> 2 ^ 7" by (intro power_increasing) auto
      with ge "1.prems" show False by simp
    qed
    moreover from this have "unat (drop_bit 7 v) < 2 ^ (64 - (shift + 7))"
    proof -
      have "(2::nat) ^ (64 - shift) = 2 ^ 7 * 2 ^ (64 - (shift + 7))"
        using \<open>57 > shift\<close> by (simp only: flip: power_add) simp
      with "1.prems"(2) show ?thesis
        by (simp add: unat_drop_bit_eq drop_bit_eq_div unat_div less_mult_imp_div_less mult.commute)
    qed
    ultimately show ?thesis
      using True "1.prems" "1.IH" [of "shift + 7"]
      by (simp add: EncodeVarint64.simps [of v] EncodeVarint64_continuation
          GetVarint64Loop_continuation varint_step del: GetVarint64Loop.simps push_bit_and)
  next
    case False
    then have "unat v < 128" by (simp add: word_le_nat_alt not_le)
    moreover from this have "\<not> bit v 7" using bit_word_small [of v 7 7] by auto
    ultimately show ?thesis
      using False "1.prems"
      by (simp add: EncodeVarint64.simps [of v] ucast_down_up and_128_eq_0_iff)
  qed
qed


lemma GetVarint64_EncodeVarint64:
  "GetVarint64 (EncodeVarint64 v @ rest) = Some (v, rest)"
  using GetVarint64Loop_EncodeVarint64 [of 0 v 0 rest]
  by (simp add: GetVarint64_def GetVarint64Ptr_def unsigned_less [where 'b = 64, simplified])

lemma ucast_or_128: "ucast (v OR 128) = (ucast v OR 128 :: byte)" for v :: u32
  by (rule bit_word_eqI) (auto simp: bit_simps)

lemma GetVarint32Loop_continuation:
  "shift \<le> 28 \<Longrightarrow>
   GetVarint32Loop result shift ((ucast v OR 128) # p) =
     GetVarint32Loop (result OR push_bit shift (v AND 127)) (shift + 7) p"
proof -
  have "(ucast (ucast v OR 128 :: byte) :: u32) AND 127 = v AND 127"
    by (rule bit_word_eqI) (auto simp: bit_simps)
  moreover have "(ucast (ucast v OR 128 :: byte) :: u32) AND 128 \<noteq> 0"
    by (simp add: and_128_eq_0_iff bit_simps)
  ultimately show "shift \<le> 28 \<Longrightarrow> ?thesis" by simp
qed

lemma GetVarint32Loop_last:
  assumes "shift \<le> 28" and "unat w < 128"
  shows "GetVarint32Loop result shift (ucast w # p) = Some (result OR push_bit shift w, p)"
proof -
  have "\<not> bit w 7" using assms(2) bit_word_small [of w 7 7] by auto
  with assms show ?thesis by (simp add: ucast_down_up and_128_eq_0_iff)
qed

lemma varint_split:
  "push_bit s (drop_bit s v AND 127) OR push_bit (s + 7) (drop_bit (s + 7) v) =
   push_bit s (drop_bit s (v :: 'a::len word))"
  using varint_step [of 0 s "drop_bit s v"] by (simp add: add.commute)

lemma unat_drop_bit_less:
  "unat (v :: 'a::len word) < 2 ^ (k + m) \<Longrightarrow> unat (drop_bit k v) < 2 ^ m"
  by (subst unat_drop_bit_eq)
    (simp add: drop_bit_eq_div less_mult_imp_div_less power_add mult.commute)

lemma GetVarint32PtrFallback_EncodeVarint32:
  "GetVarint32PtrFallback (EncodeVarint32 v @ rest) = Some (v, rest)"
proof -
  have merge: "v AND 127 OR push_bit 7 (drop_bit 7 v) = v"
    "push_bit 7 (drop_bit 7 v AND 127) OR push_bit 14 (drop_bit 14 v) = push_bit 7 (drop_bit 7 v)"
    "push_bit 14 (drop_bit 14 v AND 127) OR push_bit 21 (drop_bit 21 v) = push_bit 14 (drop_bit 14 v)"
    "push_bit 21 (drop_bit 21 v AND 127) OR push_bit 28 (drop_bit 28 v) = push_bit 21 (drop_bit 21 v)"
    using varint_split [of 0 v] varint_split [of 7 v] varint_split [of 14 v] varint_split [of 21 v]
    by (simp_all del: push_bit_and)
  note eval = GetVarint32PtrFallback_def EncodeVarint32_def Let_def ucast_or_128
    GetVarint32Loop_continuation GetVarint32Loop_last or.assoc
  have "unat (drop_bit 28 v) < 2 ^ 4"
    by (rule unat_drop_bit_less) (use unat_bound [of v] in simp)
  consider "v < push_bit 7 1" | "\<not> v < push_bit 7 1" "v < push_bit 14 1"
    | "\<not> v < push_bit 7 1" "\<not> v < push_bit 14 1" "v < push_bit 21 1"
    | "\<not> v < push_bit 7 1" "\<not> v < push_bit 14 1" "\<not> v < push_bit 21 1" "v < push_bit 28 1"
    | "\<not> v < push_bit 7 1" "\<not> v < push_bit 14 1" "\<not> v < push_bit 21 1" "\<not> v < push_bit 28 1"
    by blast
  then show ?thesis
  proof cases
    case 1
    then have "unat v < 128" by (simp add: word_less_nat_alt)
    with 1 show ?thesis by (simp add: eval del: GetVarint32Loop.simps push_bit_and)
  next
    case 2
    then have "unat (drop_bit 7 v) < 128"
      using unat_drop_bit_less [of v 7 7] by (simp add: word_less_nat_alt)
    with 2 show ?thesis by (simp add: eval merge del: GetVarint32Loop.simps push_bit_and)
  next
    case 3
    then have "unat (drop_bit 14 v) < 128"
      using unat_drop_bit_less [of v 14 7] by (simp add: word_less_nat_alt)
    with 3 show ?thesis by (simp add: eval merge del: GetVarint32Loop.simps push_bit_and)
  next
    case 4
    then have "unat (drop_bit 21 v) < 128"
      using unat_drop_bit_less [of v 21 7] by (simp add: word_less_nat_alt)
    with 4 show ?thesis by (simp add: eval merge del: GetVarint32Loop.simps push_bit_and)
  next
    case 5
    with \<open>unat (drop_bit 28 v) < 2 ^ 4\<close> show ?thesis
      by (simp add: eval merge del: GetVarint32Loop.simps push_bit_and)
  qed
qed


lemma GetVarint32Ptr_fast_path: "GetVarint32Ptr p = GetVarint32PtrFallback p"
  by (auto simp: GetVarint32Ptr_def GetVarint32PtrFallback_def Let_def split: list.splits)

lemma EncodeVarint32_EncodeVarint64: "EncodeVarint32 v = EncodeVarint64 (ucast v)"
proof -
  have cont: "ucast ((ucast w AND 127) OR 128 :: u64) = (ucast (w OR 128) :: byte)" for w :: u32
    by (rule bit_word_eqI) (auto simp: bit_simps)
  have last: "ucast (ucast w :: u64) = (ucast w :: byte)" for w :: u32
    by (rule bit_word_eqI) (auto simp: bit_simps)
  have drop: "drop_bit k (ucast w) = (ucast (drop_bit k w) :: u64)" for w :: u32 and k
    by (rule bit_word_eqI) (auto simp: bit_simps dest: bit_imp_le_length)
  have ge: "128 \<le> (ucast w :: u64) \<longleftrightarrow> 128 \<le> unat w" for w :: u32
    by (simp add: word_le_nat_alt unat_ucast_up)
  have div: "128 \<le> unat v div 128 \<longleftrightarrow> 16384 \<le> unat v"
    "128 \<le> unat v div 16384 \<longleftrightarrow> 2097152 \<le> unat v"
    "128 \<le> unat v div 2097152 \<longleftrightarrow> 268435456 \<le> unat v"
    "\<not> 128 \<le> unat v div 268435456"
    using unat_bound [of v] by (simp_all add: less_eq_div_iff_mult_less_eq)
  show ?thesis
    by (simp add: EncodeVarint32_def Let_def EncodeVarint64.simps [of "ucast v"]
      EncodeVarint64.simps [of "ucast (drop_bit 7 v)"] EncodeVarint64.simps [of "ucast (drop_bit 14 v)"]
      EncodeVarint64.simps [of "ucast (drop_bit 21 v)"] EncodeVarint64.simps [of "ucast (drop_bit 28 v)"]
      cont last drop ge unat_drop_bit_div word_less_nat_alt div not_less)
qed

lemma length_EncodeVarint64: "length (EncodeVarint64 v) = VarintLength v"
  by (induction v rule: EncodeVarint64.induct)
    (simp add: EncodeVarint64.simps VarintLength.simps)

lemma VarintLength_bound:
  "unat v < 2 ^ (7 * n) \<Longrightarrow> 0 < n \<Longrightarrow> VarintLength v \<le> n"
proof (induction v arbitrary: n rule: VarintLength.induct)
  case (1 v)
  show ?case
  proof (cases "128 \<le> v")
    case True
    with "1.prems" have "n \<noteq> 1" by (auto simp: word_le_nat_alt)
    with "1.prems" obtain m where n: "n = Suc m" "0 < m" by (cases n) auto
    with "1.prems" have "unat (drop_bit 7 v) < 2 ^ (7 * m)"
      by (intro unat_drop_bit_less) simp
    with "1.IH" [OF True] n True show ?thesis by (simp add: VarintLength.simps [of v])
  next
    case False
    with "1.prems" show ?thesis by (simp add: VarintLength.simps [of v])
  qed
qed

lemma VarintLength_le_10: "VarintLength v \<le> 10"
  using unat_bound [of v] by (intro VarintLength_bound) (auto elim: less_le_trans)

lemma GetVarint32Loop_consumes:
  "GetVarint32Loop r s p = Some (v, q) \<Longrightarrow> \<exists>c. p = c @ q \<and> c \<noteq> []"
proof (induction r s p rule: GetVarint32Loop.induct)
  case (2 result shift b p)
  show ?case
  proof (cases "(ucast b :: u32) AND 128 = 0")
    case True
    with "2.prems" have "p = q" by (auto simp: Let_def split: if_splits)
    then show ?thesis by (intro exI [of _ "[b]"]) simp
  next
    case False
    with "2.prems" have "GetVarint32Loop (result OR push_bit shift (ucast b AND 127)) (shift + 7) p = Some (v, q)"
      and "shift \<le> 28" by (simp_all add: Let_def split: if_splits)
    with "2.IH" False obtain c where "p = c @ q" by blast
    then show ?thesis by (intro exI [of _ "b # c"]) simp
  qed
qed simp

lemma GetVarint32_consumes:
  "GetVarint32 p = Some (v, q) \<Longrightarrow> \<exists>c. p = c @ q \<and> c \<noteq> []"
  by (auto simp: GetVarint32_def GetVarint32Ptr_fast_path GetVarint32PtrFallback_def
      dest: GetVarint32Loop_consumes)

lemma GetLengthPrefixedSlice_consumes:
  "GetLengthPrefixedSlice p = Some (v, q) \<Longrightarrow> \<exists>c. p = c @ v @ q \<and> c \<noteq> []"
  by (auto simp: GetLengthPrefixedSlice_def split: option.splits if_splits dest!: GetVarint32_consumes)

lemma GetVarint32_EncodeVarint32: "GetVarint32 (EncodeVarint32 v @ rest) = Some (v, rest)"
  by (simp add: GetVarint32_def GetVarint32Ptr_fast_path GetVarint32PtrFallback_EncodeVarint32)

lemma GetLengthPrefixedSlice_Encode:
  "length s < 2 ^ 32 \<Longrightarrow>
   GetLengthPrefixedSlice (EncodeVarint32 (word_of_nat (length s)) @ s @ rest) = Some (s, rest)"
  by (simp add: GetLengthPrefixedSlice_def GetVarint32_EncodeVarint32 unat_of_nat take_bit_nat_eq_self)

lemma GetLengthPrefixedSlice_Put:
  "length s < 2 ^ 32 \<Longrightarrow>
   GetLengthPrefixedSlice (PutLengthPrefixedSlice [] s @ rest) = Some (s, rest)"
  by (simp add: PutLengthPrefixedSlice_def PutVarint32_def GetLengthPrefixedSlice_Encode)

lemmas put_simps = PutFixed32_def PutFixed64_def PutVarint32_def PutVarint64_def
  PutLengthPrefixedSlice_def

lemma GetLengthPrefixedSlicePtr_eq: "GetLengthPrefixedSlicePtr p = GetLengthPrefixedSlice p"
  by (auto simp: GetLengthPrefixedSlicePtr_def GetLengthPrefixedSlice_def GetVarint32_def
      split: option.splits)

lemma DecodeFixed32_EncodeFixed32 [simp]: "DecodeFixed32 (EncodeFixed32 v @ rest) = v"
  by (simp add: DecodeFixed32_def EncodeFixed32_def kLittleEndian_def le_word_le_bytes take_bit_word_eq_self)

lemma DecodeFixed64_EncodeFixed64 [simp]: "DecodeFixed64 (EncodeFixed64 v @ rest) = v"
  by (simp add: DecodeFixed64_def EncodeFixed64_def kLittleEndian_def le_word_le_bytes take_bit_word_eq_self)

lemma length_EncodeVarint32: "length (EncodeVarint32 v) \<le> 5"
  by (simp add: EncodeVarint32_def Let_def)

lemma GetVarint64Loop_shorter:
  "GetVarint64Loop r s p = Some (v, q) \<Longrightarrow> length q < length p"
proof (induction r s p rule: GetVarint64Loop.induct)
  case (2 result shift b p)
  then show ?case
    by (cases "(ucast b :: u64) AND 128 = 0") (force simp: Let_def split: if_splits)+
qed simp

lemma GetVarint32_shorter: "GetVarint32 p = Some (v, q) \<Longrightarrow> length q < length p"
  using GetVarint32_consumes by fastforce

lemma GetVarint64_shorter: "GetVarint64 p = Some (v, q) \<Longrightarrow> length q < length p"
  by (simp add: GetVarint64_def GetVarint64Ptr_def GetVarint64Loop_shorter)

lemma GetLengthPrefixedSlice_shorter:
  "GetLengthPrefixedSlice p = Some (v, q) \<Longrightarrow> length q < length p"
  using GetLengthPrefixedSlice_consumes by fastforce

lemmas Get_shorter = GetVarint32_shorter GetVarint64_shorter GetLengthPrefixedSlice_shorter

lemmas codec_facts [codec_simps] = put_simps GetVarint32_EncodeVarint32 GetVarint64_EncodeVarint64
  GetLengthPrefixedSlice_Encode

section \<open>What an encoding promises\<close>

text \<open>
  The contract every format of the system is built on: a decoder gives back the value that
  was encoded and leaves what follows, and it consumes something. From it: no encoding is a
  prefix of another one, and a stream of encoded values can be cut up in one way only.
\<close>

locale codec =
  fixes valid :: "'a \<Rightarrow> bool"
    and encode :: "'a \<Rightarrow> bytes"
    and decode :: "bytes \<Rightarrow> ('a \<times> bytes) option"
  assumes decode_encode: "valid x \<Longrightarrow> decode (encode x @ rest) = Some (x, rest)"
    and decode_shorter: "decode p = Some (x, q) \<Longrightarrow> length q < length p"
begin

lemma encode_not_Nil: "valid x \<Longrightarrow> encode x \<noteq> []"
  using decode_encode [of x "[]"] decode_shorter [of "encode x @ []" x "[]"] by auto

lemma encode_append_inject:
  "valid x \<Longrightarrow> valid y \<Longrightarrow> encode x @ p = encode y @ q \<longleftrightarrow> x = y \<and> p = q"
  using decode_encode by (metis Pair_inject option.inject)

lemma encode_prefix_free: "valid x \<Longrightarrow> valid y \<Longrightarrow> prefix (encode x) (encode y) \<Longrightarrow> x = y"
  by (metis append_Nil2 encode_append_inject prefix_def)

lemma encode_stream_inject:
  "list_all valid xs \<Longrightarrow> list_all valid ys \<Longrightarrow>
   concat (map encode xs) = concat (map encode ys) \<longleftrightarrow> xs = ys"
proof (induction xs arbitrary: ys)
  case Nil
  then show ?case by (cases ys) (auto simp: encode_not_Nil)
next
  case (Cons x xs)
  then show ?case by (cases ys) (auto simp: encode_not_Nil encode_append_inject)
qed

end

interpretation varint32: codec "\<lambda>_. True" EncodeVarint32 GetVarint32
  by unfold_locales (auto simp: GetVarint32_EncodeVarint32 dest: Get_shorter)

interpretation varint64: codec "\<lambda>_. True" EncodeVarint64 GetVarint64
  by unfold_locales (auto simp: GetVarint64_EncodeVarint64 dest: Get_shorter)

interpretation prefixed: codec "\<lambda>s. length s < 2 ^ 32" "PutLengthPrefixedSlice []" GetLengthPrefixedSlice
  by unfold_locales (auto simp: GetLengthPrefixedSlice_Put dest: Get_shorter)

text \<open>
  Decoding does not look beyond what it consumes, so an encoding that was cut is refused.
\<close>

lemma GetVarint32Loop_extend:
  "GetVarint32Loop r s p = Some (v, q) \<Longrightarrow> GetVarint32Loop r s (p @ x) = Some (v, q @ x)"
  by (induction r s p rule: GetVarint32Loop.induct) (auto simp: Let_def split: if_splits)

lemma GetLengthPrefixedSlice_extend:
  "GetLengthPrefixedSlice p = Some (v, q) \<Longrightarrow> GetLengthPrefixedSlice (p @ x) = Some (v, q @ x)"
  by (auto simp: GetLengthPrefixedSlice_def GetVarint32_def GetVarint32Ptr_fast_path GetVarint32PtrFallback_def
      split: option.splits if_splits dest: GetVarint32Loop_extend [where x = x])

lemma GetLengthPrefixedSlice_cut:
  assumes "length k < 2 ^ 32" and "n < length (PutLengthPrefixedSlice [] k)"
  shows "GetLengthPrefixedSlice (take n (PutLengthPrefixedSlice [] k)) = None"
proof (rule ccontr)
  let ?e = "PutLengthPrefixedSlice [] k"
  assume "GetLengthPrefixedSlice (take n ?e) \<noteq> None"
  then obtain v q where "GetLengthPrefixedSlice (take n ?e) = Some (v, q)" by auto
  from GetLengthPrefixedSlice_extend [OF this, of "drop n ?e"] GetLengthPrefixedSlice_Put [OF assms(1), of "[]"]
  have "drop n ?e = []" by simp
  with assms(2) show False by simp
qed

section \<open>Properties\<close>

text \<open>
  C34: decoding a varint gives back the number that was encoded, for every 32-bit and every
  64-bit number and whatever bytes follow; a 32-bit number takes at most 5 bytes, a 64-bit
  number exactly \<open>VarintLength\<close> of it and at most 10, and both encoders agree on 32-bit numbers.
\<close>

theorem varint_round_trip:
  "GetVarint32 (EncodeVarint32 v @ rest) = Some (v, rest) \<and>
   GetVarint64 (EncodeVarint64 u @ rest) = Some (u, rest) \<and>
   EncodeVarint32 v = EncodeVarint64 (ucast v) \<and>
   length (EncodeVarint32 v) \<le> 5 \<and> length (EncodeVarint64 u) = VarintLength u \<and> VarintLength u \<le> 10"
  by (simp add: GetVarint32_EncodeVarint32 GetVarint64_EncodeVarint64 length_EncodeVarint32
      EncodeVarint32_EncodeVarint64 [symmetric] length_EncodeVarint64 VarintLength_le_10)

end
