(* ===== verification/Slices.thy ===== *)
theory Slices
  imports Prelude "HOL-Library.List_Lexorder"
begin

text \<open>
  Slices and comparators: \<^verbatim>\<open>include/leveldb/slice.h\<close>, \<^verbatim>\<open>include/leveldb/comparator.h\<close> and
  \<^verbatim>\<open>util/comparator.cc\<close>. A \<^verbatim>\<open>Slice\<close> (pointer and length) is the list of the bytes it
  refers to. The order of the keys is the lexicographic order of unsigned bytes, which on
  \<^typ>\<open>bytes\<close> is the library's order on lists over the order of words.
\<close>

section \<open>Slice operations\<close>

text \<open>
  \<open>memcmp\<close> of the C library: only the sign of its result is specified, so the model returns
  the sign.
\<close>

fun memcmp :: "bytes \<Rightarrow> bytes \<Rightarrow> nat \<Rightarrow> int" where
  "memcmp (x # xs) (y # ys) (Suc n) =
     (if x < y then -1 else if y < x then 1 else memcmp xs ys n)"
| "memcmp xs ys n = 0"

definition Slice_compare :: "bytes \<Rightarrow> bytes \<Rightarrow> int" where
  "Slice_compare a b =
     (let min_len = (if length a < length b then length a else length b);
          r = memcmp a b min_len
      in if r = 0 then if length a < length b then -1
                       else if length a > length b then 1 else r
         else r)"

text \<open>
  The code keeps \<open>min_len\<close> in an \<^verbatim>\<open>int\<close>, so it narrows the length of the shorter slice to 32
  bits. \<open>Slice_compare_narrowed\<close> writes this out: the length is taken modulo \<open>2 ^ 32\<close>, and a
  length that is negative as an \<^verbatim>\<open>int\<close> is turned back into a huge \<^verbatim>\<open>size_t\<close>, for which \<open>memcmp\<close>
  runs over both slices (in C++ beyond their end). The two agree whenever the shorter slice is
  below \<open>2 ^ 31\<close> bytes (\<open>Slice_compare_narrowed_eq\<close>) and differ beyond
  (\<open>Slice_compare_narrowed_differs\<close>). The development compares keys by \<^term>\<open>Slice_compare\<close>: its
  results are about the code for keys below 2 GB.
\<close>

definition Slice_compare_narrowed :: "bytes \<Rightarrow> bytes \<Rightarrow> int" where
  "Slice_compare_narrowed a b =
     (let min_len = word_of_nat (if length a < length b then length a else length b) :: 32 word;
          r = memcmp a b (if sint min_len < 0 then min (length a) (length b)
                          else nat (sint min_len))
      in if r = 0 then if length a < length b then -1
                       else if length a > length b then 1 else r
         else r)"

definition Slice_starts_with :: "bytes \<Rightarrow> bytes \<Rightarrow> bool" where
  "Slice_starts_with s x \<longleftrightarrow> length s \<ge> length x \<and> memcmp s x (length x) = 0"

definition Slice_eq :: "bytes \<Rightarrow> bytes \<Rightarrow> bool" where
  "Slice_eq x y \<longleftrightarrow> length x = length y \<and> memcmp x y (length x) = 0"

section \<open>The bytewise comparator\<close>

definition Bytewise_Compare :: "bytes \<Rightarrow> bytes \<Rightarrow> int" where
  "Bytewise_Compare a b = Slice_compare a b"

text \<open>The loop that advances \<open>diff_index\<close> over the common prefix.\<close>

function diff_index_loop :: "bytes \<Rightarrow> bytes \<Rightarrow> nat \<Rightarrow> nat \<Rightarrow> nat" where
  "diff_index_loop start limit min_length diff_index =
     (if diff_index < min_length \<and> start ! diff_index = limit ! diff_index
      then diff_index_loop start limit min_length (Suc diff_index) else diff_index)"
  by pat_completeness auto
termination
  by (relation "measure (\<lambda>(s, l, m, d). m - d)") auto

declare diff_index_loop.simps [simp del]

definition Bytewise_FindShortestSeparator :: "bytes \<Rightarrow> bytes \<Rightarrow> bytes" where
  "Bytewise_FindShortestSeparator start limit =
     (let min_length = min (length start) (length limit);
          diff_index = diff_index_loop start limit min_length 0
      in if diff_index \<ge> min_length then start
         else let diff_byte = start ! diff_index in
           if diff_byte < 0xff \<and> unat diff_byte + 1 < unat (limit ! diff_index)
           then take (diff_index + 1) (start[diff_index := start ! diff_index + 1])
           else start)"

text \<open>The loop of \<open>FindShortSuccessor\<close>: \<open>key\<close> is the part not yet looked at.\<close>

fun Bytewise_FindShortSuccessor :: "bytes \<Rightarrow> bytes" where
  "Bytewise_FindShortSuccessor [] = []"
| "Bytewise_FindShortSuccessor (byte # key) =
     (if byte \<noteq> 0xff then [byte + 1] else byte # Bytewise_FindShortSuccessor key)"

section \<open>The interface of comparators\<close>

text \<open>
  What \<^verbatim>\<open>leveldb::Comparator\<close> promises its clients: \<open>Compare\<close> is a three-way total order on
  the keys (\<open>valid\<close> singles out the keys the comparator is meant for), the separator of
  \<open>start < limit\<close> lies in \<open>[start, limit)\<close> and the successor of a key is not below it.
\<close>

locale comparator =
  fixes cmp :: "'k \<Rightarrow> 'k \<Rightarrow> int"
    and sep :: "'k \<Rightarrow> 'k \<Rightarrow> 'k"
    and succ :: "'k \<Rightarrow> 'k"
    and valid :: "'k \<Rightarrow> bool"
  assumes cmp_eq: "valid a \<Longrightarrow> valid b \<Longrightarrow> cmp a b = 0 \<longleftrightarrow> a = b"
    and cmp_anti: "valid a \<Longrightarrow> valid b \<Longrightarrow> cmp a b < 0 \<longleftrightarrow> cmp b a > 0"
    and cmp_trans: "valid a \<Longrightarrow> valid b \<Longrightarrow> valid c \<Longrightarrow> cmp a b < 0 \<Longrightarrow> cmp b c < 0 \<Longrightarrow> cmp a c < 0"
    and sep_valid: "valid a \<Longrightarrow> valid b \<Longrightarrow> valid (sep a b)"
    and sep_ge: "valid a \<Longrightarrow> valid b \<Longrightarrow> cmp a b < 0 \<Longrightarrow> cmp a (sep a b) \<le> 0"
    and sep_less: "valid a \<Longrightarrow> valid b \<Longrightarrow> cmp a b < 0 \<Longrightarrow> cmp (sep a b) b < 0"
    and succ_valid: "valid a \<Longrightarrow> valid (succ a)"
    and succ_ge: "valid a \<Longrightarrow> cmp a (succ a) \<le> 0"
begin

lemma cmp_refl: "valid a \<Longrightarrow> cmp a a = 0"
  by (simp add: cmp_eq)

lemma cmp_total: "valid a \<Longrightarrow> valid b \<Longrightarrow> cmp a b < 0 \<or> a = b \<or> cmp b a < 0"
  using cmp_eq [of a b] cmp_anti [of b a] by linarith

lemma cmp_le_trans:
  "valid a \<Longrightarrow> valid b \<Longrightarrow> valid c \<Longrightarrow> cmp a b \<le> 0 \<Longrightarrow> cmp b c < 0 \<Longrightarrow> cmp a c < 0"
  using cmp_eq [of a b] cmp_trans [of a b c] by force

lemma cmp_trans_le:
  "valid a \<Longrightarrow> valid b \<Longrightarrow> valid c \<Longrightarrow> cmp a b < 0 \<Longrightarrow> cmp b c \<le> 0 \<Longrightarrow> cmp a c < 0"
  using cmp_eq [of b c] cmp_trans [of a b c] by force

text \<open>
  What an index block relies on: the separator put between two neighbouring blocks is at
  or after every key of the first and before every key of the second.
\<close>

lemma sep_between:
  assumes "valid a" "valid b" "valid x" "valid y" "cmp a b < 0"
    and "cmp x a \<le> 0" and "cmp b y \<le> 0"
  shows "cmp x (sep a b) \<le> 0 \<and> cmp (sep a b) y < 0"
proof
  have v: "valid (sep a b)" using assms sep_valid by blast
  show "cmp x (sep a b) \<le> 0"
    using cmp_le_trans [of x a "sep a b"] sep_ge [of a b] cmp_eq [of a "sep a b"] assms v by force
  show "cmp (sep a b) y < 0"
    using cmp_trans_le [of "sep a b" b y] sep_less [of a b] assms v by blast
qed

end

section \<open>Lemmas on slices\<close>

lemma memcmp_swap: "memcmp ys xs n = - memcmp xs ys n"
  by (induction xs ys n rule: memcmp.induct) auto

lemma memcmp_eq_0: "n \<le> length xs \<Longrightarrow> n \<le> length ys \<Longrightarrow> memcmp xs ys n = 0 \<longleftrightarrow> take n xs = take n ys"
  by (induction xs ys n rule: memcmp.induct) (auto simp: take_Cons')

lemma Slice_compare_Nil [simp]:
  "Slice_compare [] b = (if b = [] then 0 else -1)"
  "Slice_compare a [] = (if a = [] then 0 else 1)"
  by (auto simp: Slice_compare_def)

lemma Slice_compare_Cons [simp]:
  "Slice_compare (x # xs) (y # ys) =
     (if x < y then -1 else if y < x then 1 else Slice_compare xs ys)"
  by (auto simp: Slice_compare_def Let_def min_def)

lemma Slice_compare_less: "Slice_compare a b < 0 \<longleftrightarrow> a < b"
proof (induction a arbitrary: b)
  case Nil
  then show ?case by (cases b) auto
next
  case (Cons x a)
  then show ?case by (cases b) auto
qed

lemma Slice_compare_eq: "Slice_compare a b = 0 \<longleftrightarrow> a = b"
proof (induction a arbitrary: b)
  case Nil
  then show ?case by auto
next
  case (Cons x a)
  then show ?case by (cases b) auto
qed

lemma Slice_compare_swap: "Slice_compare b a = - Slice_compare a b"
  by (auto simp: Slice_compare_def Let_def memcmp_swap [of b a])

lemma Slice_compare_greater: "Slice_compare a b > 0 \<longleftrightarrow> b < a"
  using Slice_compare_less [of b a] Slice_compare_swap [of b a] by simp

lemma Slice_compare_le: "Slice_compare a b \<le> 0 \<longleftrightarrow> a \<le> b"
  using Slice_compare_greater [of a b] by auto

lemma Slice_compare_ge: "Slice_compare a b \<ge> 0 \<longleftrightarrow> b \<le> a"
  using Slice_compare_less [of a b] by auto

lemmas Slice_compare_order =
  Slice_compare_less Slice_compare_eq Slice_compare_greater Slice_compare_le Slice_compare_ge

lemma Slice_starts_with_prefix: "Slice_starts_with s x \<longleftrightarrow> prefix x s"
  by (auto simp: Slice_starts_with_def memcmp_eq_0 prefix_def)
     (metis append_take_drop_id)

lemma Slice_eq_iff: "Slice_eq x y \<longleftrightarrow> x = y"
  by (auto simp: Slice_eq_def memcmp_eq_0)

lemma prefix_imp_le: "prefix x (y :: bytes) \<Longrightarrow> x \<le> y"
proof (induction x arbitrary: y)
  case (Cons a x)
  then show ?case by (cases y) auto
qed simp

lemma unat_byte_Suc: "byte \<noteq> 0xff \<Longrightarrow> unat (byte + 1) = unat byte + 1" for byte :: byte
proof -
  assume "byte \<noteq> 0xff"
  then have "1 + byte \<noteq> 0" by (auto simp: add_eq_0_iff)
  then show ?thesis by (simp add: unatSuc add.commute)
qed

lemma byte_less_Suc: "byte \<noteq> 0xff \<Longrightarrow> byte < byte + 1" for byte :: byte
  by (simp add: word_less_nat_alt unat_byte_Suc)

lemma FindShortSuccessor_ge: "key \<le> Bytewise_FindShortSuccessor key"
  by (induction key rule: Bytewise_FindShortSuccessor.induct) (auto simp: byte_less_Suc)

lemma length_FindShortSuccessor: "length (Bytewise_FindShortSuccessor key) \<le> length key"
  by (induction key rule: Bytewise_FindShortSuccessor.induct) auto

lemma diff_index_loop_spec:
  assumes "d \<le> m"
  shows "d \<le> diff_index_loop s l m d \<and> diff_index_loop s l m d \<le> m \<and>
    (\<forall>i. d \<le> i \<and> i < diff_index_loop s l m d \<longrightarrow> s ! i = l ! i) \<and>
    (diff_index_loop s l m d < m \<longrightarrow> s ! diff_index_loop s l m d \<noteq> l ! diff_index_loop s l m d)"
  using assms
proof (induction s l m d rule: diff_index_loop.induct)
  case (1 s l m d)
  show ?case
  proof (cases "d < m \<and> s ! d = l ! d")
    case True
    then have eq: "diff_index_loop s l m d = diff_index_loop s l m (Suc d)"
      by (simp add: diff_index_loop.simps [of s l m d])
    from True "1.IH" have IH: "Suc d \<le> diff_index_loop s l m (Suc d) \<and>
      diff_index_loop s l m (Suc d) \<le> m \<and>
      (\<forall>i. Suc d \<le> i \<and> i < diff_index_loop s l m (Suc d) \<longrightarrow> s ! i = l ! i) \<and>
      (diff_index_loop s l m (Suc d) < m \<longrightarrow>
         s ! diff_index_loop s l m (Suc d) \<noteq> l ! diff_index_loop s l m (Suc d))" by simp
    with True show ?thesis unfolding eq
      by (metis Suc_leD Suc_leI le_neq_implies_less)
  next
    case False
    with "1.prems" show ?thesis by (auto simp: diff_index_loop.simps [of s l m d])
  qed
qed

text \<open>Two lists that agree up to their first difference are ordered by it.\<close>

lemma less_at_first_difference:
  assumes "i < length a" "i < length b" "take i a = take i b" "a ! i < b ! i"
  shows "a < (b :: bytes)"
  using assms
proof (induction i arbitrary: a b)
  case 0
  then show ?case by (cases a; cases b) auto
next
  case (Suc i)
  then show ?case by (cases a; cases b) auto
qed

lemma less_first_difference:
  assumes "i < length a" "i < length b" "take i a = take i b" "a ! i \<noteq> b ! i" "a < (b :: bytes)"
  shows "a ! i < b ! i"
  using assms less_at_first_difference [of i b a]
  by (metis less_asym linorder_less_linear)

lemma FindShortestSeparator_cases:
  obtains (same) "Bytewise_FindShortestSeparator start limit = start"
  | (shorter) i where "i < length start" "i < length limit" "take i start = take i limit"
      "start ! i < 0xff" "unat (start ! i) + 1 < unat (limit ! i)"
      "Bytewise_FindShortestSeparator start limit = take i start @ [start ! i + 1]"
proof -
  let ?m = "min (length start) (length limit)"
  let ?d = "diff_index_loop start limit ?m 0"
  have spec: "?d \<le> ?m" "\<And>i. i < ?d \<Longrightarrow> start ! i = limit ! i"
    using diff_index_loop_spec [of 0 ?m start limit] by auto
  then have agree: "take ?d start = take ?d limit"
    by (auto intro!: nth_equalityI)
  show thesis
  proof (cases "?d < ?m \<and> start ! ?d < 0xff \<and> unat (start ! ?d) + 1 < unat (limit ! ?d)")
    case True
    then have "Bytewise_FindShortestSeparator start limit = take ?d start @ [start ! ?d + 1]"
      by (auto simp: Bytewise_FindShortestSeparator_def Let_def take_Suc_conv_app_nth)
    with True agree show thesis by (intro shorter [of ?d]) auto
  next
    case False
    then have "Bytewise_FindShortestSeparator start limit = start"
      by (auto simp: Bytewise_FindShortestSeparator_def Let_def)
    then show thesis by (rule same)
  qed
qed

lemma FindShortestSeparator_between:
  assumes "start < limit"
  shows "start \<le> Bytewise_FindShortestSeparator start limit \<and>
    Bytewise_FindShortestSeparator start limit < limit \<and>
    length (Bytewise_FindShortestSeparator start limit) \<le> length start"
proof (cases rule: FindShortestSeparator_cases [of start limit])
  case same
  with assms show ?thesis by simp
next
  case (shorter i)
  let ?r = "take i start @ [start ! i + 1]"
  have step: "start ! i < start ! i + 1" "unat (start ! i + 1) = unat (start ! i) + 1"
    using shorter(4) byte_less_Suc [of "start ! i"] unat_byte_Suc [of "start ! i"] by auto
  have "start < ?r"
    by (rule less_at_first_difference [of i]) (use shorter step in \<open>auto simp: nth_append\<close>)
  moreover have "?r < limit"
    by (rule less_at_first_difference [of i])
      (use shorter step in \<open>auto simp: nth_append word_less_nat_alt\<close>)
  ultimately show ?thesis using shorter by auto
qed

interpretation bytewise: comparator Bytewise_Compare Bytewise_FindShortestSeparator
  Bytewise_FindShortSuccessor "\<lambda>_. True"
proof unfold_locales
  fix a b c :: bytes
  show "Bytewise_Compare a b = 0 \<longleftrightarrow> a = b"
    by (simp add: Bytewise_Compare_def Slice_compare_eq)
  show "Bytewise_Compare a b < 0 \<longleftrightarrow> 0 < Bytewise_Compare b a"
    by (simp add: Bytewise_Compare_def Slice_compare_order)
  show "Bytewise_Compare a b < 0 \<Longrightarrow> Bytewise_Compare b c < 0 \<Longrightarrow> Bytewise_Compare a c < 0"
    by (simp add: Bytewise_Compare_def Slice_compare_order)
  show "Bytewise_Compare a b < 0 \<Longrightarrow> Bytewise_Compare a (Bytewise_FindShortestSeparator a b) \<le> 0"
    by (simp add: Bytewise_Compare_def Slice_compare_order FindShortestSeparator_between)
  show "Bytewise_Compare a b < 0 \<Longrightarrow> Bytewise_Compare (Bytewise_FindShortestSeparator a b) b < 0"
    by (simp add: Bytewise_Compare_def Slice_compare_order FindShortestSeparator_between)
  show "Bytewise_Compare a (Bytewise_FindShortSuccessor a) \<le> 0"
    by (simp add: Bytewise_Compare_def Slice_compare_order FindShortSuccessor_ge)
qed auto

section \<open>Properties\<close>

text \<open>
  For two keys in order, the separator that \<^verbatim>\<open>BytewiseComparatorImpl\<close> computes lies at or
  after every key up to the first and before every key from the second on, and it is never
  longer than the first key: an index entry with it directs every lookup to the right block.
\<close>

lemma bytewise_separator:
  assumes "Bytewise_Compare start limit < 0"
    and "Bytewise_Compare x start \<le> 0" and "Bytewise_Compare limit y \<le> 0"
  shows "Bytewise_Compare x (Bytewise_FindShortestSeparator start limit) \<le> 0 \<and>
    Bytewise_Compare (Bytewise_FindShortestSeparator start limit) y < 0 \<and>
    length (Bytewise_FindShortestSeparator start limit) \<le> length start"
  using bytewise.sep_between [of start limit x y] assms FindShortestSeparator_between [of start limit]
  by (simp add: Bytewise_Compare_def Slice_compare_less)

lemma bytewise_separator_example:
  "Bytewise_Compare [97, 98] (Bytewise_FindShortestSeparator [97, 98, 1] [97, 101]) \<le> 0 \<and>
   Bytewise_Compare (Bytewise_FindShortestSeparator [97, 98, 1] [97, 101]) [98] < 0"
  using bytewise_separator [of "[97, 98, 1]" "[97, 101]" "[97, 98]" "[98]"]
  by (simp add: Bytewise_Compare_def Slice_compare_order)

text \<open>
  The 32-bit length of the code: below 2 GB nothing changes; from \<open>2 ^ 32\<close> bytes on the
  first bytes are not looked at, and the longer slice counts as the larger one whatever they are.
\<close>

lemma Slice_compare_narrowed_eq:
  assumes "length a < 2 ^ 31 \<or> length b < 2 ^ 31"
  shows "Slice_compare_narrowed a b = Slice_compare a b"
proof -
  have "nat (sint (word_of_nat n :: 32 word)) = n \<and> \<not> sint (word_of_nat n :: 32 word) < 0"
    if "n < 2 ^ 31" for n
    using that by (simp add: sint_uint uint_nat unat_of_nat take_bit_nat_eq_self signed_take_bit_eq_if_positive bit_iff_odd
        take_bit_int_eq_self)
  moreover have "(if length a < length b then length a else length b) < 2 ^ 31"
    using assms by auto
  ultimately show ?thesis
    unfolding Slice_compare_narrowed_def Slice_compare_def Let_def by presburger
qed

lemma Slice_compare_narrowed_differs:
  "Slice_compare_narrowed (9 # replicate (2 ^ 32 - 1) 0) (1 # replicate (2 ^ 32) 0) < 0 \<and>
   Slice_compare (9 # replicate (2 ^ 32 - 1) 0) (1 # replicate (2 ^ 32) 0) > 0"
  by (simp add: Slice_compare_narrowed_def)

text \<open>
  \<^verbatim>\<open>Slice::compare\<close> is the lexicographic order on unsigned bytes: its sign is that of the
  order, it is zero exactly on equal slices, and a slice starts with every prefix of it.
\<close>

lemma Slice_compare_lexicographic:
  "(Slice_compare a b < 0 \<longleftrightarrow> a < b) \<and> (Slice_compare a b = 0 \<longleftrightarrow> a = b) \<and>
   (Slice_compare a b > 0 \<longleftrightarrow> b < a) \<and> (Slice_eq a b \<longleftrightarrow> a = b) \<and>
   (Slice_starts_with a b \<longleftrightarrow> prefix b a)"
  by (simp add: Slice_compare_order Slice_eq_iff Slice_starts_with_prefix)

end
