(* ===== verification/Logging.thy ===== *)
theory Logging
  imports Slices
begin

text \<open>
  Number printing and parsing: \<^verbatim>\<open>util/logging.cc\<close>. The output of \<^verbatim>\<open>snprintf\<close> with \<^verbatim>\<open>%llu\<close>,
  \<^verbatim>\<open>%06llu\<close> and \<^verbatim>\<open>%02x\<close> is written out as \<open>decimal\<close>, \<open>pad6\<close> and \<open>hex2\<close>.
\<close>

section \<open>Printing\<close>

fun decimal :: "nat \<Rightarrow> bytes" where
  "decimal n = (if n < 10 then [word_of_nat (48 + n)]
                else decimal (n div 10) @ [word_of_nat (48 + n mod 10)])"

declare decimal.simps [simp del]

definition pad6 :: "nat \<Rightarrow> bytes" where
  "pad6 n = replicate (6 - length (decimal n)) 48 @ decimal n"

definition hex_digit :: "nat \<Rightarrow> byte" where
  "hex_digit d = word_of_nat (if d < 10 then 48 + d else 87 + d)"

definition hex2 :: "byte \<Rightarrow> bytes" where
  "hex2 b = [hex_digit (unat b div 16), hex_digit (unat b mod 16)]"

definition AppendNumberTo :: "bytes \<Rightarrow> u64 \<Rightarrow> bytes" where
  "AppendNumberTo str num = str @ decimal (unat num)"

fun AppendEscapedStringTo :: "bytes \<Rightarrow> bytes \<Rightarrow> bytes" where
  "AppendEscapedStringTo str [] = str"
| "AppendEscapedStringTo str (c # value) =
     (if c \<ge> 0x20 \<and> c \<le> 0x7e then AppendEscapedStringTo (str @ [c]) value
      else AppendEscapedStringTo (str @ [0x5c, 0x78] @ hex2 c) value)"

definition NumberToString :: "u64 \<Rightarrow> bytes" where
  "NumberToString num = AppendNumberTo [] num"

definition EscapeString :: "bytes \<Rightarrow> bytes" where
  "EscapeString value = AppendEscapedStringTo [] value"

section \<open>Parsing\<close>

definition ConsumeChar :: "bytes \<Rightarrow> byte \<Rightarrow> bytes option" where
  "ConsumeChar input c = (case input of x # rest \<Rightarrow> if x = c then Some rest else None | [] \<Rightarrow> None)"

definition is_digit :: "byte \<Rightarrow> bool" where
  "is_digit c \<longleftrightarrow> c \<ge> 48 \<and> c \<le> 57"

definition kMaxUint64 :: u64 where
  "kMaxUint64 = NOT 0"

text \<open>
  The loop returns \<open>None\<close> where the code returns false on overflow. The counter \<^verbatim>\<open>int digits\<close> is
  a 32-bit word read as signed: after \<open>2 ^ 31\<close> digits it is negative and the number is refused.
\<close>

fun ConsumeDecimalLoop :: "u64 \<Rightarrow> 32 word \<Rightarrow> bytes \<Rightarrow> (u64 \<times> 32 word \<times> bytes) option" where
  "ConsumeDecimalLoop v digits [] = Some (v, digits, [])"
| "ConsumeDecimalLoop v digits (c # input) =
     (if is_digit c then
        let delta = ucast (c - 48) :: u64 in
        if v > kMaxUint64 div 10 \<or> (v = kMaxUint64 div 10 \<and> delta > kMaxUint64 mod 10)
        then None
        else ConsumeDecimalLoop (v * 10 + delta) (digits + 1) input
      else Some (v, digits, c # input))"

definition ConsumeDecimalNumber :: "bytes \<Rightarrow> (u64 \<times> bytes) option" where
  "ConsumeDecimalNumber input =
     (case ConsumeDecimalLoop 0 0 input of
        None \<Rightarrow> None
      | Some (v, digits, rest) \<Rightarrow> if sint digits > 0 then Some (v, rest) else None)"

section \<open>Lemmas\<close>

text \<open>The number a run of digits stands for, in front of it the number \<open>a\<close>.\<close>

fun digits_value :: "nat \<Rightarrow> bytes \<Rightarrow> nat" where
  "digits_value a [] = a"
| "digits_value a (c # cs) = digits_value (10 * a + unat (c - 48)) cs"

lemma digits_value_append [simp]:
  "digits_value a (xs @ ys) = digits_value (digits_value a xs) ys"
  by (induction xs arbitrary: a) auto

lemma digits_value_ge: "a \<le> digits_value a ds"
proof (induction ds arbitrary: a)
  case (Cons c cs)
  have "a \<le> 10 * a + unat (c - 48)" by simp
  also have "\<dots> \<le> digits_value (10 * a + unat (c - 48)) cs" by (rule Cons.IH)
  finally show ?case by simp
qed simp

lemma unat_digit: "is_digit c \<Longrightarrow> unat (c - 48) < 10"
  unfolding is_digit_def by (auto simp: word_le_nat_alt unat_sub)

lemma digit_step:
  assumes "is_digit c"
  shows "v > kMaxUint64 div 10 \<or> (v = kMaxUint64 div 10 \<and> (ucast (c - 48) :: u64) > kMaxUint64 mod 10)
      \<longleftrightarrow> \<not> 10 * unat v + unat (c - 48) < 2 ^ 64"
    and "10 * unat v + unat (c - 48) < 2 ^ 64 \<Longrightarrow>
      unat (v * 10 + ucast (c - 48)) = 10 * unat v + unat (c - 48)"
proof -
  have k: "unat (kMaxUint64 div 10) = 1844674407370955161" "unat (kMaxUint64 mod 10) = 5"
    "kMaxUint64 div 10 = 1844674407370955161" "kMaxUint64 mod 10 = 5"
    by (simp_all add: kMaxUint64_def unat_div unat_mod)
  show "v > kMaxUint64 div 10 \<or> (v = kMaxUint64 div 10 \<and> (ucast (c - 48) :: u64) > kMaxUint64 mod 10)
      \<longleftrightarrow> \<not> 10 * unat v + unat (c - 48) < 2 ^ 64"
    using unat_digit [OF assms]
    by (auto simp: word_less_nat_alt word_unat_eq_iff k unat_ucast_up)
  show "10 * unat v + unat (c - 48) < 2 ^ 64 \<Longrightarrow>
      unat (v * 10 + ucast (c - 48)) = 10 * unat v + unat (c - 48)"
    by (simp add: unat_word_ariths unat_ucast_up mult.commute)
qed

definition ends_number :: "bytes \<Rightarrow> bool" where
  "ends_number rest \<longleftrightarrow> (case rest of [] \<Rightarrow> True | c # _ \<Rightarrow> \<not> is_digit c)"

lemma ConsumeDecimalLoop_digits:
  assumes "\<forall>c \<in> set ds. is_digit c" and "ends_number rest"
  shows "ConsumeDecimalLoop v k (ds @ rest) =
    (if digits_value (unat v) ds < 2 ^ 64
     then Some (word_of_nat (digits_value (unat v) ds), k + word_of_nat (length ds), rest) else None)"
  using assms(1)
proof (induction ds arbitrary: v k)
  case Nil
  with assms(2) show ?case using unat_bound [of v]
    by (cases rest) (auto simp: ends_number_def)
next
  case (Cons c ds)
  then have c: "is_digit c" by simp
  show ?case
  proof (cases "10 * unat v + unat (c - 48) < 2 ^ 64")
    case True
    with digit_step [OF c, of v] Cons c show ?thesis by (auto simp: Let_def algebra_simps)
  next
    case False
    with digits_value_ge [of "10 * unat v + unat (c - 48)" ds] digit_step(1) [OF c, of v] c
    show ?thesis by (auto simp: Let_def)
  qed
qed

lemma is_digit_print: "d < 10 \<Longrightarrow> is_digit (word_of_nat (48 + d))"
  by (simp add: is_digit_def word_le_nat_alt unat_of_nat take_bit_nat_eq_self del: of_nat_add)

lemma digits_decimal: "\<forall>c \<in> set (decimal n). is_digit c"
proof (induction n rule: decimal.induct)
  case (1 n)
  then show ?case
    by (subst decimal.simps) (auto simp: is_digit_print simp del: of_nat_add)
qed

lemma value_decimal: "digits_value 0 (decimal n) = n"
proof (induction n rule: decimal.induct)
  case (1 n)
  have d: "d < 10 \<Longrightarrow> unat (word_of_nat (48 + d) - 48 :: byte) = d" for d
    by (simp add: unat_of_nat take_bit_nat_eq_self)
  show ?case
    using 1 d [of n] d [of "n mod 10"] by (subst decimal.simps) auto
qed

lemma decimal_not_Nil [simp]: "decimal n \<noteq> []"
  by (subst decimal.simps) simp

lemma digits_value_zeros: "digits_value 0 (replicate k 48 @ ds) = digits_value 0 ds"
  by (induction k) auto

lemma sint_count: "0 < n \<Longrightarrow> n < 2 ^ 31 \<Longrightarrow> sint (word_of_nat n :: 32 word) > 0"
  by (simp add: sint_uint uint_nat unat_of_nat take_bit_nat_eq_self signed_take_bit_eq_if_positive
      bit_iff_odd take_bit_int_eq_self)

lemma length_decimal: "n < 10 ^ m \<Longrightarrow> 0 < m \<Longrightarrow> length (decimal n) \<le> m"
proof (induction n arbitrary: m rule: decimal.induct)
  case (1 n)
  show ?case
  proof (cases "n < 10")
    case False
    then obtain p where "m = Suc p" "0 < p"
      using "1.prems" by (cases m; cases "m - 1") auto
    with 1 False show ?thesis by (subst decimal.simps) (auto simp: less_mult_imp_div_less mult.commute)
  qed (use "1.prems" in \<open>subst decimal.simps, simp\<close>)
qed

lemma ConsumeDecimalNumber_decimal:
  assumes "n < 2 ^ 64" "ends_number rest" "k \<le> 6"
  shows "ConsumeDecimalNumber (replicate k 48 @ decimal n @ rest) = Some (word_of_nat n, rest)"
proof -
  have "\<forall>c \<in> set (replicate k 48 @ decimal n). is_digit c"
    using digits_decimal [of n] by (auto simp: is_digit_def)
  moreover have "sint (word_of_nat (k + length (decimal n)) :: 32 word) > 0"
    using length_decimal [of n 20] assms by (intro sint_count) auto
  ultimately show ?thesis using ConsumeDecimalLoop_digits [OF _ assms(2), of "replicate k 48 @ decimal n" 0 0] assms(1)
    by (simp add: ConsumeDecimalNumber_def digits_value_zeros value_decimal del: digits_value_append)
qed

section \<open>Properties\<close>

text \<open>
  C39: a run of decimal digits followed by something else is read as its value when that
  fits 64 bits and refused otherwise, whatever zeros it starts with, as long as there are
  fewer than \<open>2 ^ 31\<close> digits (the code counts them in an \<^verbatim>\<open>int\<close>); no value that fits is refused
  and none that does not fit wraps around. Where there is no digit, nothing is read.
\<close>

theorem ConsumeDecimalNumber_exact:
  assumes "\<forall>c \<in> set ds. is_digit c" and "length ds < 2 ^ 31" and "ends_number rest"
  shows "ConsumeDecimalNumber (ds @ rest) =
    (if ds \<noteq> [] \<and> digits_value 0 ds < 2 ^ 64
     then Some (word_of_nat (digits_value 0 ds), rest) else None)"
  using ConsumeDecimalLoop_digits [OF assms(1,3), of 0 0] sint_count [of "length ds"] assms(2)
  by (simp add: ConsumeDecimalNumber_def)

theorem ConsumeDecimalNumber_exact_witness:
  "ConsumeDecimalNumber [48, 49, 50, 46] = Some (12, [46])"
  using ConsumeDecimalNumber_exact [of "[48, 49, 50]" "[46]"] by (simp add: is_digit_def ends_number_def)

end
