(* ===== verification/Status_Codes.thy ===== *)
theory Status_Codes
  imports Logging Coding
begin

text \<open>
  \<^verbatim>\<open>leveldb::Status\<close>: \<^verbatim>\<open>include/leveldb/status.h\<close> and \<^verbatim>\<open>util/status.cc\<close>. The state is a
  null pointer for success and otherwise one array: four bytes of message length, the
  code, the message.
\<close>

section \<open>Data\<close>

datatype Code = kOk | kNotFound | kCorruption | kNotSupported | kInvalidArgument | kIOError

fun Code_byte :: "Code \<Rightarrow> byte" where
  "Code_byte kOk = 0"
| "Code_byte kNotFound = 1"
| "Code_byte kCorruption = 2"
| "Code_byte kNotSupported = 3"
| "Code_byte kInvalidArgument = 4"
| "Code_byte kIOError = 5"

definition Code_of :: "byte \<Rightarrow> Code option" where
  "Code_of b = (if b = 0 then Some kOk else if b = 1 then Some kNotFound
     else if b = 2 then Some kCorruption else if b = 3 then Some kNotSupported
     else if b = 4 then Some kInvalidArgument else if b = 5 then Some kIOError else None)"

type_synonym Status = "bytes option"

section \<open>Operations\<close>

abbreviation Status_OK :: Status where
  "Status_OK \<equiv> None"

definition Status_new :: "Code \<Rightarrow> bytes \<Rightarrow> bytes \<Rightarrow> Status" where
  "Status_new code msg msg2 =
     (let len1 = word_of_nat (length msg) :: u32;
          len2 = word_of_nat (length msg2) :: u32;
          size = len1 + (if len2 \<noteq> 0 then 2 + len2 else 0)
      in Some (le_bytes 4 size @ [Code_byte code] @ take (unat len1) msg @
               (if len2 \<noteq> 0 then [0x3a, 0x20] @ take (unat len2) msg2 else [])))"

definition Status_NotFound :: "bytes \<Rightarrow> bytes \<Rightarrow> Status" where
  "Status_NotFound msg msg2 = Status_new kNotFound msg msg2"

definition Status_Corruption :: "bytes \<Rightarrow> bytes \<Rightarrow> Status" where
  "Status_Corruption msg msg2 = Status_new kCorruption msg msg2"

definition Status_NotSupported :: "bytes \<Rightarrow> bytes \<Rightarrow> Status" where
  "Status_NotSupported msg msg2 = Status_new kNotSupported msg msg2"

definition Status_InvalidArgument :: "bytes \<Rightarrow> bytes \<Rightarrow> Status" where
  "Status_InvalidArgument msg msg2 = Status_new kInvalidArgument msg msg2"

definition Status_IOError :: "bytes \<Rightarrow> bytes \<Rightarrow> Status" where
  "Status_IOError msg msg2 = Status_new kIOError msg msg2"

definition Status_ok :: "Status \<Rightarrow> bool" where
  "Status_ok s \<longleftrightarrow> s = None"

text \<open>
  \<^verbatim>\<open>code()\<close> casts the byte to the enumeration; a byte outside it is \<open>Inr\<close>.
\<close>

definition Status_code :: "Status \<Rightarrow> Code + byte" where
  "Status_code s =
     (case s of None \<Rightarrow> Inl kOk
      | Some state \<Rightarrow> (case Code_of (state ! 4) of Some c \<Rightarrow> Inl c | None \<Rightarrow> Inr (state ! 4)))"

definition Status_IsNotFound :: "Status \<Rightarrow> bool" where
  "Status_IsNotFound s \<longleftrightarrow> Status_code s = Inl kNotFound"

definition Status_IsCorruption :: "Status \<Rightarrow> bool" where
  "Status_IsCorruption s \<longleftrightarrow> Status_code s = Inl kCorruption"

definition Status_IsIOError :: "Status \<Rightarrow> bool" where
  "Status_IsIOError s \<longleftrightarrow> Status_code s = Inl kIOError"

text \<open>The copy constructor reads the length and copies that many bytes and five more.\<close>

definition Status_CopyState :: "bytes \<Rightarrow> bytes" where
  "Status_CopyState state =
     (let size = le_word (take 4 state) :: u32 in take (unat (size + 5)) state)"

definition Status_copy :: "Status \<Rightarrow> Status" where
  "Status_copy s = (case s of None \<Rightarrow> None | Some state \<Rightarrow> Some (Status_CopyState state))"

fun Code_type :: "Code \<Rightarrow> bytes" where
  "Code_type kOk = cstr ''OK''"
| "Code_type kNotFound = cstr ''NotFound: ''"
| "Code_type kCorruption = cstr ''Corruption: ''"
| "Code_type kNotSupported = cstr ''Not implemented: ''"
| "Code_type kInvalidArgument = cstr ''Invalid argument: ''"
| "Code_type kIOError = cstr ''IO error: ''"

definition Status_ToString :: "Status \<Rightarrow> bytes" where
  "Status_ToString s =
     (case s of None \<Rightarrow> cstr ''OK''
      | Some state \<Rightarrow>
          (let type = (case Status_code s of
                         Inl c \<Rightarrow> Code_type c
                       | Inr b \<Rightarrow> cstr ''Unknown code('' @ decimal (unat b) @ cstr ''): '');
               len = le_word (take 4 state) :: u32
           in type @ take (unat len) (drop 5 state)))"

section \<open>Lemmas\<close>

lemma Code_of_byte [simp]: "Code_of (Code_byte c) = Some c"
  by (cases c) (simp_all add: Code_of_def)

text \<open>The message a status prints: the two parts joined by a colon and a space.\<close>

definition Status_message :: "bytes \<Rightarrow> bytes \<Rightarrow> bytes" where
  "Status_message msg msg2 = msg @ (if msg2 = [] then [] else [0x3a, 0x20] @ msg2)"

lemma Status_new_layout:
  assumes "length msg + length msg2 + 7 < 2 ^ 32"
  shows "Status_new code msg msg2 =
    Some (le_bytes 4 (word_of_nat (length (Status_message msg msg2)) :: u32) @
          Code_byte code # Status_message msg msg2)"
  using assms
  by (auto simp: Status_new_def Let_def Status_message_def unat_of_nat take_bit_nat_eq_self
      word_of_nat_eq_0_iff dvd_imp_le nat_dvd_not_less)

lemma Status_new_not_ok [simp]: "\<not> Status_ok (Status_new c m m2)"
  by (simp add: Status_ok_def Status_new_def Let_def)

lemma nth_le_bytes_4 [simp]: "(le_bytes 4 w @ b # m) ! 4 = b"
  by (simp add: nth_append)

lemma Status_code_new [simp]: "Status_code (Status_new c m m2) = Inl c"
  by (simp add: Status_code_def Status_new_def Let_def)

lemma Status_ToString_new:
  assumes "length msg + length msg2 + 7 < 2 ^ 32"
  shows "Status_ToString (Status_new c msg msg2) = Code_type c @ Status_message msg msg2"
proof -
  have len: "length (Status_message msg msg2) < 2 ^ 32"
    using assms by (auto simp: Status_message_def)
  have "Status_code (Some (le_bytes 4 w @ Code_byte c # m)) = Inl c" for w :: u32 and m
    by (simp add: Status_code_def)
  then show ?thesis
    using len
    by (simp add: Status_ToString_def Status_new_layout [OF assms] Let_def le_word_le_bytes
        take_bit_word_eq_self unat_of_nat take_bit_nat_eq_self)
qed

lemma Status_copy_new:
  assumes "length msg + length msg2 + 7 < 2 ^ 32"
  shows "Status_copy (Status_new c msg msg2) = Status_new c msg msg2"
proof -
  have "length (Status_message msg msg2) + 5 < 2 ^ 32"
    using assms by (auto simp: Status_message_def)
  then have "unat (word_of_nat (length (Status_message msg msg2)) + 5 :: u32) =
      length (Status_message msg msg2) + 5"
    by (simp add: unat_word_ariths unat_of_nat take_bit_nat_eq_self)
  then show ?thesis
    by (simp add: Status_copy_def Status_new_layout [OF assms] Status_CopyState_def Let_def
        le_word_le_bytes take_bit_word_eq_self)
qed

lemma Status_classes [simp]:
  "\<not> Status_ok (Status_NotFound m m2)" "\<not> Status_ok (Status_Corruption m m2)"
  "\<not> Status_ok (Status_IOError m m2)" "\<not> Status_ok (Status_InvalidArgument m m2)"
  "Status_IsNotFound (Status_NotFound m m2)" "Status_IsCorruption (Status_Corruption m m2)"
  "\<not> Status_IsNotFound (Status_Corruption m m2)" "\<not> Status_IsNotFound (Status_IOError m m2)"
  "\<not> Status_IsNotFound (Status_InvalidArgument m m2)"
  "Status_ok Status_OK" "\<not> Status_IsNotFound Status_OK"
  by (simp_all add: Status_NotFound_def Status_Corruption_def Status_IOError_def
      Status_InvalidArgument_def Status_IsNotFound_def Status_IsCorruption_def
      Status_ok_def [of None] Status_code_def [of None])

section \<open>Properties\<close>

text \<open>
  A status made with an error code and one or two messages is an error of that code,
  prints as the name of the code followed by the messages joined by a colon, and copying it
  gives the same status (messages below 4 GB in all).
\<close>

lemma Status_error_reported:
  assumes "length msg + length msg2 + 7 < 2 ^ 32"
  shows "\<not> Status_ok (Status_new c msg msg2) \<and> Status_code (Status_new c msg msg2) = Inl c \<and>
    Status_ToString (Status_new c msg msg2) = Code_type c @ Status_message msg msg2 \<and>
    Status_copy (Status_new c msg msg2) = Status_new c msg msg2"
  by (simp add: Status_ToString_new [OF assms] Status_copy_new [OF assms])

lemma Status_error_reported_example:
  "Status_ToString (Status_new kCorruption (cstr ''a'') (cstr ''b'')) = Code_type kCorruption @ cstr ''a: b''"
  using Status_error_reported [of "cstr ''a''" "cstr ''b''" kCorruption] by (simp add: Status_message_def)

end
