(* ===== verification/Iterators.thy ===== *)
theory Iterators
  imports Slices Status_Codes
begin

text \<open>
  Iterators: the interface \<^verbatim>\<open>include/leveldb/iterator.h\<close>, the empty iterator of
  \<^verbatim>\<open>table/iterator.cc\<close> and \<^verbatim>\<open>table/two_level_iterator.cc\<close>. An iterator is a state and a record of its
  operations; an operation without a result reads outside its data or does not end.
  \<^verbatim>\<open>IteratorWrapper\<close> only caches \<open>Valid\<close> and \<open>key\<close> and does not show.

  The locale \<open>list_iterator\<close> is what every iterator promises: it is a cursor on a list of keys
  and values, at a position or past its end.
\<close>

section \<open>The interface\<close>

type_synonym kv = "bytes \<times> bytes"

record 's Iterator =
  op_Valid :: "'s \<Rightarrow> bool"
  op_key :: "'s \<Rightarrow> bytes"
  op_value :: "'s \<Rightarrow> bytes"
  op_status :: "'s \<Rightarrow> Status"
  op_SeekToFirst :: "'s \<Rightarrow> 's option"
  op_SeekToLast :: "'s \<Rightarrow> 's option"
  op_Seek :: "bytes \<Rightarrow> 's \<Rightarrow> 's option"
  op_Next :: "'s \<Rightarrow> 's option"
  op_Prev :: "'s \<Rightarrow> 's option"

text \<open>What a loop with \<open>Next\<close> or with \<open>Prev\<close> goes through.\<close>

partial_function (option) op_rest :: "'s Iterator \<Rightarrow> 's \<Rightarrow> kv list option" where
  "op_rest ops s =
     (if op_Valid ops s
      then Option.bind (op_Next ops s) (\<lambda>s'. Option.bind (op_rest ops s') (\<lambda>kvs. Some ((op_key ops s, op_value ops s) # kvs)))
      else Some [])"

partial_function (option) op_back :: "'s Iterator \<Rightarrow> 's \<Rightarrow> kv list option" where
  "op_back ops s =
     (if op_Valid ops s
      then Option.bind (op_Prev ops s) (\<lambda>s'. Option.bind (op_back ops s') (\<lambda>kvs. Some ((op_key ops s, op_value ops s) # kvs)))
      else Some [])"

text \<open>Where \<open>Seek\<close> goes when \<open>lt\<close> holds of the keys before the target.\<close>

definition seek_pos :: "(bytes \<Rightarrow> bool) \<Rightarrow> kv list \<Rightarrow> nat" where
  "seek_pos lt kvs = length (takeWhile (\<lambda>kv. lt (fst kv)) kvs)"

definition seekable :: "(bytes \<Rightarrow> bool) \<Rightarrow> kv list \<Rightarrow> bool" where
  "seekable lt kvs \<longleftrightarrow> sorted_wrt (\<lambda>x y. lt (fst y) \<longrightarrow> lt (fst x)) kvs"

definition before :: "(bytes \<Rightarrow> bytes \<Rightarrow> int) \<Rightarrow> bytes \<Rightarrow> bytes \<Rightarrow> bool" where
  "before cmp target k \<longleftrightarrow> cmp k target < 0"

definition moves :: "('s \<Rightarrow> kv list \<Rightarrow> nat \<Rightarrow> bool) \<Rightarrow> 's option \<Rightarrow> kv list \<Rightarrow> nat \<Rightarrow> bool" where
  "moves rep r kvs i \<longleftrightarrow> (\<exists>s. r = Some s \<and> rep s kvs i)"

lemma movesI: "rep s kvs i \<Longrightarrow> moves rep (Some s) kvs i"
  by (simp add: moves_def)

lemma movesE:
  assumes "moves rep r kvs i"
  obtains s where "r = Some s" "rep s kvs i"
  using assms by (auto simp: moves_def)

lemma seek_pos_le: "seek_pos lt kvs \<le> length kvs"
  by (simp add: seek_pos_def length_takeWhile_le)

lemma seek_pos_append:
  "seek_pos lt (xs @ ys) = (if seek_pos lt xs = length xs then length xs + seek_pos lt ys else seek_pos lt xs)"
proof (cases "\<forall>x \<in> set xs. lt (fst x)")
  case True
  then have "length (takeWhile (\<lambda>kv. lt (fst kv)) xs) = length xs" by (metis takeWhile_eq_all_conv)
  then show ?thesis using True by (simp add: seek_pos_def)
next
  case False
  then have "takeWhile (\<lambda>kv. lt (fst kv)) xs \<noteq> xs" by (metis set_takeWhileD)
  then have "length (takeWhile (\<lambda>kv. lt (fst kv)) xs) \<noteq> length xs"
    by (metis order_refl take_all takeWhile_eq_take)
  with False show ?thesis by (auto simp: seek_pos_def takeWhile_append)
qed

lemma seek_pos_all: "(\<And>x. x \<in> set xs \<Longrightarrow> lt (fst x)) \<Longrightarrow> seek_pos lt xs = length xs"
  by (simp add: seek_pos_def takeWhile_eq_all_conv [THEN iffD2])

lemma seek_pos_none: "(\<And>x. x \<in> set xs \<Longrightarrow> \<not> lt (fst x)) \<Longrightarrow> seek_pos lt xs = 0"
  by (cases xs) (simp_all add: seek_pos_def)

lemma seek_pos_before: "i < seek_pos lt kvs \<Longrightarrow> lt (fst (kvs ! i))"
proof -
  assume i: "i < seek_pos lt kvs"
  then have "takeWhile (\<lambda>kv. lt (fst kv)) kvs ! i \<in> set (takeWhile (\<lambda>kv. lt (fst kv)) kvs)" by (simp add: seek_pos_def)
  then show ?thesis using i by (auto simp: seek_pos_def takeWhile_nth dest: set_takeWhileD)
qed

lemma seek_pos_at: "seek_pos lt kvs < length kvs \<Longrightarrow> \<not> lt (fst (kvs ! seek_pos lt kvs))"
  using nth_length_takeWhile [of "\<lambda>kv. lt (fst kv)" kvs] by (simp add: seek_pos_def)

lemma seek_pos_iff:
  assumes "seekable lt kvs" "i < length kvs"
  shows "lt (fst (kvs ! i)) \<longleftrightarrow> i < seek_pos lt kvs"
proof
  assume lt: "lt (fst (kvs ! i))"
  show "i < seek_pos lt kvs"
  proof (rule ccontr)
    assume "\<not> i < seek_pos lt kvs"
    moreover from this have "\<not> lt (fst (kvs ! seek_pos lt kvs))" using assms(2) by (intro seek_pos_at) simp
    ultimately show False
      using assms lt sorted_wrt_nth_less [of "\<lambda>x y. lt (fst y) \<longrightarrow> lt (fst x)" kvs "seek_pos lt kvs" i]
      by (cases "i = seek_pos lt kvs") (auto simp: seekable_def)
  qed
qed (rule seek_pos_before)

lemma seekable_append: "seekable lt (xs @ ys) \<Longrightarrow> seekable lt xs \<and> seekable lt ys"
  unfolding seekable_def sorted_wrt_append by blast

lemma seek_pos_eqI:
  assumes "i \<le> length kvs" "\<And>j. j < i \<Longrightarrow> lt (fst (kvs ! j))" "i < length kvs \<Longrightarrow> \<not> lt (fst (kvs ! i))"
  shows "seek_pos lt kvs = i"
  using assms seek_pos_before [of i lt kvs] seek_pos_at [of lt kvs] seek_pos_le [of lt kvs]
  by (metis le_neq_implies_less linorder_neqE_nat order_less_le_trans)

locale list_iterator =
  fixes ops :: "'s Iterator" and cmp :: "bytes \<Rightarrow> bytes \<Rightarrow> int" and rep :: "'s \<Rightarrow> kv list \<Rightarrow> nat \<Rightarrow> bool"
  assumes position: "rep s kvs i \<Longrightarrow> i \<le> length kvs"
    and valid: "rep s kvs i \<Longrightarrow> op_Valid ops s \<longleftrightarrow> i < length kvs"
    and current: "rep s kvs i \<Longrightarrow> i < length kvs \<Longrightarrow> (op_key ops s, op_value ops s) = kvs ! i"
    and status: "rep s kvs i \<Longrightarrow> Status_ok (op_status ops s)"
    and first: "rep s kvs i \<Longrightarrow> moves rep (op_SeekToFirst ops s) kvs 0"
    and final: "rep s kvs i \<Longrightarrow> moves rep (op_SeekToLast ops s) kvs (length kvs - 1)"
    and seek: "rep s kvs i \<Longrightarrow> seekable (before cmp target) kvs \<Longrightarrow>
      moves rep (op_Seek ops target s) kvs (seek_pos (before cmp target) kvs)"
    and advance: "rep s kvs i \<Longrightarrow> i < length kvs \<Longrightarrow> moves rep (op_Next ops s) kvs (Suc i)"
    and retreat: "rep s kvs i \<Longrightarrow> i < length kvs \<Longrightarrow> moves rep (op_Prev ops s) kvs (if i = 0 then length kvs else i - 1)"
begin

lemma key_value:
  assumes "rep s kvs i" "i < length kvs"
  shows "op_key ops s = fst (kvs ! i)" "op_value ops s = snd (kvs ! i)"
  using current [OF assms] by (metis fst_conv, metis snd_conv)

lemma rest: "rep s kvs i \<Longrightarrow> op_rest ops s = Some (drop i kvs)"
proof (induction "length kvs - i" arbitrary: i s)
  case 0
  then show ?case using valid by (simp add: op_rest.simps)
next
  case (Suc n)
  then have i: "i < length kvs" by simp
  obtain s' where s': "op_Next ops s = Some s'" "rep s' kvs (Suc i)" by (rule movesE [OF advance [OF Suc.prems i]])
  have "op_rest ops s' = Some (drop (Suc i) kvs)" using Suc.hyps s'(2) by simp
  then show ?case
    using valid [OF Suc.prems] i s'(1) current [OF Suc.prems i] by (simp add: op_rest.simps [of ops s] Cons_nth_drop_Suc)
qed

lemma back_from: "rep s kvs i \<Longrightarrow> i < length kvs \<Longrightarrow> op_back ops s = Some (rev (take (Suc i) kvs))"
proof (induction i arbitrary: s)
  case (0 s)
  obtain s' where s': "op_Prev ops s = Some s'" "rep s' kvs (length kvs)" using movesE [OF retreat [OF 0]] by auto
  then have "op_back ops s' = Some []" using valid by (simp add: op_back.simps [of ops s'])
  then show ?case
    using valid [OF 0(1)] 0 s'(1) current [OF 0] by (simp add: op_back.simps [of ops s] take_Suc_conv_app_nth)
next
  case (Suc i)
  obtain s' where s': "op_Prev ops s = Some s'" "rep s' kvs i" using movesE [OF retreat [OF Suc.prems]] by auto
  then have "op_back ops s' = Some (rev (take (Suc i) kvs))" using Suc by simp
  then show ?case
    using valid [OF Suc.prems(1)] Suc.prems(2) s'(1) current [OF Suc.prems]
    by (simp add: op_back.simps [of ops s] take_Suc_conv_app_nth [of "Suc i"])
qed

text \<open>What the loops over all entries and from a target go through.\<close>

lemma loops:
  assumes "rep s kvs i"
  shows "Option.bind (op_SeekToFirst ops s) (op_rest ops) = Some kvs"
    and "Option.bind (op_SeekToLast ops s) (op_back ops) = Some (rev kvs)"
    and "seekable (before cmp target) kvs \<Longrightarrow>
      Option.bind (op_Seek ops target s) (op_rest ops) = Some (dropWhile (\<lambda>kv. cmp (fst kv) target < 0) kvs)"
proof -
  show "Option.bind (op_SeekToFirst ops s) (op_rest ops) = Some kvs" by (rule movesE [OF first [OF assms]]) (simp add: rest)
  obtain s' where s': "op_SeekToLast ops s = Some s'" "rep s' kvs (length kvs - 1)" by (rule movesE [OF final [OF assms]])
  show "Option.bind (op_SeekToLast ops s) (op_back ops) = Some (rev kvs)"
  proof (cases "kvs = []")
    case True
    then show ?thesis using s' valid [OF s'(2)] by (simp add: op_back.simps [of ops s'])
  next
    case False
    then show ?thesis using s'(1) back_from [OF s'(2)] by simp
  qed
  assume "seekable (before cmp target) kvs"
  from seek [OF assms this] show "Option.bind (op_Seek ops target s) (op_rest ops) = Some (dropWhile (\<lambda>kv. cmp (fst kv) target < 0) kvs)"
    by (rule movesE) (simp add: rest seek_pos_def before_def dropWhile_eq_drop)
qed

end

section \<open>The two-level iterator\<close>

record ('i, 'd) TwoLevelIterator =
  index_iter :: 'i
  data_iter :: "'d option"
  data_block_handle :: bytes
  tl_status :: Status

definition NewTwoLevelIterator :: "'i \<Rightarrow> ('i, 'd) TwoLevelIterator" where
  "NewTwoLevelIterator i = \<lparr>index_iter = i, data_iter = None, data_block_handle = [], tl_status = Status_OK\<rparr>"

definition SaveError :: "Status \<Rightarrow> ('i, 'd) TwoLevelIterator \<Rightarrow> ('i, 'd) TwoLevelIterator" where
  "SaveError s t = (if Status_ok (tl_status t) \<and> \<not> Status_ok s then t\<lparr>tl_status := s\<rparr> else t)"

definition SetDataIterator :: "'d Iterator \<Rightarrow> 'd option \<Rightarrow> ('i, 'd) TwoLevelIterator \<Rightarrow> ('i, 'd) TwoLevelIterator" where
  "SetDataIterator D iter t =
     (let t = (case data_iter t of Some d \<Rightarrow> SaveError (op_status D d) t | None \<Rightarrow> t) in t\<lparr>data_iter := iter\<rparr>)"

definition InitDataBlock ::
    "'i Iterator \<Rightarrow> 'd Iterator \<Rightarrow> (bytes \<Rightarrow> 'd) \<Rightarrow> ('i, 'd) TwoLevelIterator \<Rightarrow> ('i, 'd) TwoLevelIterator" where
  "InitDataBlock I D block_function t =
     (if \<not> op_Valid I (index_iter t) then SetDataIterator D None t
      else
        let handle = op_value I (index_iter t)
        in if data_iter t \<noteq> None \<and> Slice_compare handle (data_block_handle t) = 0 then t
           else SetDataIterator D (Some (block_function handle)) (t\<lparr>data_block_handle := handle\<rparr>))"

text \<open>The call of an operation on the data iterator, when there is one.\<close>

definition on_data :: "('d \<Rightarrow> 'd option) \<Rightarrow> ('i, 'd) TwoLevelIterator \<Rightarrow> ('i, 'd) TwoLevelIterator option" where
  "on_data f t =
     (case data_iter t of
        None \<Rightarrow> Some t
      | Some d \<Rightarrow> (case f d of None \<Rightarrow> None | Some d \<Rightarrow> Some (t\<lparr>data_iter := Some d\<rparr>)))"

definition TwoLevel_Valid :: "'d Iterator \<Rightarrow> ('i, 'd) TwoLevelIterator \<Rightarrow> bool" where
  "TwoLevel_Valid D t = (case data_iter t of None \<Rightarrow> False | Some d \<Rightarrow> op_Valid D d)"

partial_function (option) SkipEmptyDataBlocksForward ::
    "'i Iterator \<Rightarrow> 'd Iterator \<Rightarrow> (bytes \<Rightarrow> 'd) \<Rightarrow> ('i, 'd) TwoLevelIterator \<Rightarrow> ('i, 'd) TwoLevelIterator option" where
  "SkipEmptyDataBlocksForward I D bf t =
     (if TwoLevel_Valid D t then Some t
      else if \<not> op_Valid I (index_iter t) then Some (SetDataIterator D None t)
      else (case op_Next I (index_iter t) of
              None \<Rightarrow> None
            | Some i \<Rightarrow>
                (case on_data (op_SeekToFirst D) (InitDataBlock I D bf (t\<lparr>index_iter := i\<rparr>)) of
                   None \<Rightarrow> None
                 | Some t \<Rightarrow> SkipEmptyDataBlocksForward I D bf t)))"

partial_function (option) SkipEmptyDataBlocksBackward ::
    "'i Iterator \<Rightarrow> 'd Iterator \<Rightarrow> (bytes \<Rightarrow> 'd) \<Rightarrow> ('i, 'd) TwoLevelIterator \<Rightarrow> ('i, 'd) TwoLevelIterator option" where
  "SkipEmptyDataBlocksBackward I D bf t =
     (if TwoLevel_Valid D t then Some t
      else if \<not> op_Valid I (index_iter t) then Some (SetDataIterator D None t)
      else (case op_Prev I (index_iter t) of
              None \<Rightarrow> None
            | Some i \<Rightarrow>
                (case on_data (op_SeekToLast D) (InitDataBlock I D bf (t\<lparr>index_iter := i\<rparr>)) of
                   None \<Rightarrow> None
                 | Some t \<Rightarrow> SkipEmptyDataBlocksBackward I D bf t)))"

definition TwoLevel_Seek ::
    "'i Iterator \<Rightarrow> 'd Iterator \<Rightarrow> (bytes \<Rightarrow> 'd) \<Rightarrow> bytes \<Rightarrow> ('i, 'd) TwoLevelIterator \<Rightarrow> ('i, 'd) TwoLevelIterator option" where
  "TwoLevel_Seek I D bf target t =
     Option.bind (op_Seek I target (index_iter t)) (\<lambda>i.
       Option.bind (on_data (op_Seek D target) (InitDataBlock I D bf (t\<lparr>index_iter := i\<rparr>)))
         (SkipEmptyDataBlocksForward I D bf))"

definition TwoLevel_SeekToFirst ::
    "'i Iterator \<Rightarrow> 'd Iterator \<Rightarrow> (bytes \<Rightarrow> 'd) \<Rightarrow> ('i, 'd) TwoLevelIterator \<Rightarrow> ('i, 'd) TwoLevelIterator option" where
  "TwoLevel_SeekToFirst I D bf t =
     Option.bind (op_SeekToFirst I (index_iter t)) (\<lambda>i.
       Option.bind (on_data (op_SeekToFirst D) (InitDataBlock I D bf (t\<lparr>index_iter := i\<rparr>)))
         (SkipEmptyDataBlocksForward I D bf))"

definition TwoLevel_SeekToLast ::
    "'i Iterator \<Rightarrow> 'd Iterator \<Rightarrow> (bytes \<Rightarrow> 'd) \<Rightarrow> ('i, 'd) TwoLevelIterator \<Rightarrow> ('i, 'd) TwoLevelIterator option" where
  "TwoLevel_SeekToLast I D bf t =
     Option.bind (op_SeekToLast I (index_iter t)) (\<lambda>i.
       Option.bind (on_data (op_SeekToLast D) (InitDataBlock I D bf (t\<lparr>index_iter := i\<rparr>)))
         (SkipEmptyDataBlocksBackward I D bf))"

definition TwoLevel_Next ::
    "'i Iterator \<Rightarrow> 'd Iterator \<Rightarrow> (bytes \<Rightarrow> 'd) \<Rightarrow> ('i, 'd) TwoLevelIterator \<Rightarrow> ('i, 'd) TwoLevelIterator option" where
  "TwoLevel_Next I D bf t = Option.bind (on_data (op_Next D) t) (SkipEmptyDataBlocksForward I D bf)"

definition TwoLevel_Prev ::
    "'i Iterator \<Rightarrow> 'd Iterator \<Rightarrow> (bytes \<Rightarrow> 'd) \<Rightarrow> ('i, 'd) TwoLevelIterator \<Rightarrow> ('i, 'd) TwoLevelIterator option" where
  "TwoLevel_Prev I D bf t = Option.bind (on_data (op_Prev D) t) (SkipEmptyDataBlocksBackward I D bf)"

definition TwoLevel_status :: "'i Iterator \<Rightarrow> 'd Iterator \<Rightarrow> ('i, 'd) TwoLevelIterator \<Rightarrow> Status" where
  "TwoLevel_status I D t =
     (if \<not> Status_ok (op_status I (index_iter t)) then op_status I (index_iter t)
      else (case data_iter t of
              Some d \<Rightarrow> if \<not> Status_ok (op_status D d) then op_status D d else tl_status t
            | None \<Rightarrow> tl_status t))"

definition TwoLevel_ops :: "'i Iterator \<Rightarrow> 'd Iterator \<Rightarrow> (bytes \<Rightarrow> 'd) \<Rightarrow> ('i, 'd) TwoLevelIterator Iterator" where
  "TwoLevel_ops I D bf =
     \<lparr>op_Valid = TwoLevel_Valid D, op_key = \<lambda>t. op_key D (the (data_iter t)), op_value = \<lambda>t. op_value D (the (data_iter t)),
      op_status = TwoLevel_status I D, op_SeekToFirst = TwoLevel_SeekToFirst I D bf, op_SeekToLast = TwoLevel_SeekToLast I D bf,
      op_Seek = TwoLevel_Seek I D bf, op_Next = TwoLevel_Next I D bf, op_Prev = TwoLevel_Prev I D bf\<rparr>"

section \<open>A two-level iterator is a cursor on the concatenation of the blocks\<close>

text \<open>
  \<open>ix\<close> is what the index iterator goes through, \<open>C\<close> the contents of the block of a handle. A key of the
  index is at or after the keys of its block and before the keys of the later blocks.
\<close>

definition separated :: "(bytes \<Rightarrow> bytes \<Rightarrow> int) \<Rightarrow> kv list \<Rightarrow> (bytes \<Rightarrow> kv list) \<Rightarrow> bool" where
  "separated cmp ix C \<longleftrightarrow> (\<forall>target. seekable (before cmp target) ix \<and>
     (\<forall>j < length ix. \<forall>kv \<in> set (C (snd (ix ! j))). before cmp target (fst (ix ! j)) \<longrightarrow> before cmp target (fst kv)) \<and>
     (\<forall>j' < length ix. \<forall>j < j'. \<forall>kv \<in> set (C (snd (ix ! j'))). before cmp target (fst kv) \<longrightarrow> before cmp target (fst (ix ! j))))"

lemma separatedD:
  assumes "separated cmp ix C"
  shows "seekable (before cmp target) ix"
    and "j < length ix \<Longrightarrow> kv \<in> set (C (snd (ix ! j))) \<Longrightarrow> before cmp target (fst (ix ! j)) \<Longrightarrow> before cmp target (fst kv)"
    and "j' < length ix \<Longrightarrow> j < j' \<Longrightarrow> kv \<in> set (C (snd (ix ! j'))) \<Longrightarrow> before cmp target (fst kv) \<Longrightarrow> before cmp target (fst (ix ! j))"
  using assms unfolding separated_def by blast+

definition flat :: "kv list \<Rightarrow> (bytes \<Rightarrow> kv list) \<Rightarrow> kv list" where
  "flat ix C = concat (map (\<lambda>x. C (snd x)) ix)"

lemma flat_take: "j < length ix \<Longrightarrow> flat (take (Suc j) ix) C = flat (take j ix) C @ C (snd (ix ! j))"
  by (simp add: flat_def take_Suc_conv_app_nth)

lemma flat_drop: "j < length ix \<Longrightarrow> flat (drop j ix) C = C (snd (ix ! j)) @ flat (drop (Suc j) ix) C"
  by (simp add: flat_def flip: Cons_nth_drop_Suc)

lemma flat_split: "flat ix C = flat (take j ix) C @ flat (drop j ix) C"
  by (metis append_take_drop_id concat_append flat_def map_append)

lemma flat_nth:
  assumes "j < length ix" "p < length (C (snd (ix ! j)))"
  shows "length (flat (take j ix) C) + p < length (flat ix C)"
    and "flat ix C ! (length (flat (take j ix) C) + p) = C (snd (ix ! j)) ! p"
  using assms by (simp_all add: flat_split [of ix C j] flat_drop nth_append)

lemma set_flat: "set (flat ix C) = (\<Union>x \<in> set ix. set (C (snd x)))"
  by (simp add: flat_def)

lemma flatE:
  assumes "x \<in> set (flat ix C)"
  obtains k where "k < length ix" "x \<in> set (C (snd (ix ! k)))"
  using assms unfolding set_flat by (metis UN_E in_set_conv_nth)

definition data_ok :: "('d \<Rightarrow> kv list \<Rightarrow> nat \<Rightarrow> bool) \<Rightarrow> (bytes \<Rightarrow> kv list) \<Rightarrow> ('i, 'd) TwoLevelIterator \<Rightarrow> bool" where
  "data_ok drep C t \<longleftrightarrow> Status_ok (tl_status t) \<and>
     (\<forall>d. data_iter t = Some d \<longrightarrow> (\<exists>p. drep d (C (data_block_handle t)) p))"

definition at_block ::
    "('i \<Rightarrow> kv list \<Rightarrow> nat \<Rightarrow> bool) \<Rightarrow> ('d \<Rightarrow> kv list \<Rightarrow> nat \<Rightarrow> bool) \<Rightarrow> kv list \<Rightarrow> (bytes \<Rightarrow> kv list) \<Rightarrow>
     ('i, 'd) TwoLevelIterator \<Rightarrow> nat \<Rightarrow> nat \<Rightarrow> bool" where
  "at_block irep drep ix C t j p \<longleftrightarrow> Status_ok (tl_status t) \<and> j < length ix \<and> irep (index_iter t) ix j \<and>
     data_block_handle t = snd (ix ! j) \<and> (\<exists>d. data_iter t = Some d \<and> drep d (C (snd (ix ! j))) p)"

definition past_end :: "('i \<Rightarrow> kv list \<Rightarrow> nat \<Rightarrow> bool) \<Rightarrow> kv list \<Rightarrow> ('i, 'd) TwoLevelIterator \<Rightarrow> bool" where
  "past_end irep ix t \<longleftrightarrow> Status_ok (tl_status t) \<and> data_iter t = None \<and> (\<exists>j. irep (index_iter t) ix j)"

definition two_rep ::
    "('i \<Rightarrow> kv list \<Rightarrow> nat \<Rightarrow> bool) \<Rightarrow> ('d \<Rightarrow> kv list \<Rightarrow> nat \<Rightarrow> bool) \<Rightarrow> (bytes \<Rightarrow> bytes \<Rightarrow> int) \<Rightarrow> (bytes \<Rightarrow> 'd) \<Rightarrow>
     ('i, 'd) TwoLevelIterator \<Rightarrow> kv list \<Rightarrow> nat \<Rightarrow> bool" where
  "two_rep irep drep cmp bf t kvs i \<longleftrightarrow> (\<exists>ix C. kvs = flat ix C \<and> separated cmp ix C \<and>
     (\<forall>x \<in> set ix. \<exists>p. drep (bf (snd x)) (C (snd x)) p) \<and>
     (past_end irep ix t \<and> i = length kvs \<or>
      (\<exists>j p. at_block irep drep ix C t j p \<and> p < length (C (snd (ix ! j))) \<and> i = length (flat (take j ix) C) + p)))"

lemma SetDataIterator_ok:
  assumes "data_ok drep C t" "\<And>d p. drep d (C (data_block_handle t)) p \<Longrightarrow> Status_ok (op_status D d)"
  shows "SetDataIterator D x t = t\<lparr>data_iter := x\<rparr>"
  using assms by (auto simp: SetDataIterator_def SaveError_def data_ok_def Let_def split: option.splits)

locale two_level = I: list_iterator I cmp irep + D: list_iterator D cmp drep
  for I :: "'i Iterator" and cmp :: "bytes \<Rightarrow> bytes \<Rightarrow> int" and irep :: "'i \<Rightarrow> kv list \<Rightarrow> nat \<Rightarrow> bool"
    and D :: "'d Iterator" and drep :: "'d \<Rightarrow> kv list \<Rightarrow> nat \<Rightarrow> bool" +
  fixes bf :: "bytes \<Rightarrow> 'd"
begin

lemma InitDataBlock_ok:
  assumes "\<forall>x \<in> set ix. \<exists>p. drep (bf (snd x)) (C (snd x)) p" "data_ok drep C t" "irep (index_iter t) ix j"
  shows "j = length ix \<Longrightarrow> past_end irep ix (InitDataBlock I D bf t)"
    and "j < length ix \<Longrightarrow> \<exists>p. at_block irep drep ix C (InitDataBlock I D bf t) j p"
proof -
  have set: "SetDataIterator D x t = t\<lparr>data_iter := x\<rparr>" for x by (rule SetDataIterator_ok [OF assms(2)]) (rule D.status)
  show "past_end irep ix (InitDataBlock I D bf t)" if "j = length ix"
    using assms that I.valid [OF assms(3)] by (auto simp: InitDataBlock_def set past_end_def data_ok_def)
  assume j: "j < length ix"
  then have v: "op_Valid I (index_iter t)" "op_value I (index_iter t) = snd (ix ! j)"
    using I.valid [OF assms(3)] I.key_value [OF assms(3)] by simp_all
  show "\<exists>p. at_block irep drep ix C (InitDataBlock I D bf t) j p"
  proof (cases "data_iter t \<noteq> None \<and> snd (ix ! j) = data_block_handle t")
    case True
    then have "InitDataBlock I D bf t = t" using v by (simp add: InitDataBlock_def Slice_compare_eq)
    then show ?thesis using True assms(2,3) j by (auto simp: at_block_def data_ok_def)
  next
    case False
    have "Status_ok (op_status D d)" if "data_iter t = Some d" for d using assms(2) D.status that by (auto simp: data_ok_def)
    then have "SetDataIterator D x (t\<lparr>data_block_handle := h\<rparr>) = t\<lparr>data_iter := x, data_block_handle := h\<rparr>" for x h
      by (auto simp: SetDataIterator_def SaveError_def Let_def split: option.splits)
    then have "InitDataBlock I D bf t = t\<lparr>data_iter := Some (bf (snd (ix ! j))), data_block_handle := snd (ix ! j)\<rparr>"
      using False v by (auto simp: InitDataBlock_def Slice_compare_eq Let_def)
    moreover obtain p where "drep (bf (snd (ix ! j))) (C (snd (ix ! j))) p" using assms(1) nth_mem [OF j] by blast
    ultimately show ?thesis using assms(2,3) j by (auto simp: at_block_def data_ok_def)
  qed
qed

lemma valid_at_block:
  assumes "at_block irep drep ix C t j p"
  shows "TwoLevel_Valid D t \<longleftrightarrow> p < length (C (snd (ix ! j)))"
  using assms D.valid by (auto simp: at_block_def TwoLevel_Valid_def)

lemma data_ok_at_block: "at_block irep drep ix C t j p \<Longrightarrow> data_ok drep C (t\<lparr>index_iter := i\<rparr>)"
  by (auto simp: at_block_def data_ok_def)

lemma data_ok_past_end: "past_end irep ix t \<Longrightarrow> data_ok drep C (t\<lparr>index_iter := i\<rparr>)"
  by (simp add: past_end_def data_ok_def)

lemma on_data_at_block:
  assumes "at_block irep drep ix C t j p" "\<And>d. drep d (C (snd (ix ! j))) p \<Longrightarrow> moves drep (f d) (C (snd (ix ! j))) q"
  obtains t' where "on_data f t = Some t'" "at_block irep drep ix C t' j q"
proof -
  obtain d where d: "data_iter t = Some d" "drep d (C (snd (ix ! j))) p" using assms(1) by (auto simp: at_block_def)
  obtain d' where "f d = Some d'" "drep d' (C (snd (ix ! j))) q" by (rule movesE [OF assms(2) [OF d(2)]])
  then show ?thesis using assms(1) d by (intro that [of "t\<lparr>data_iter := Some d'\<rparr>"]) (auto simp: at_block_def on_data_def)
qed

text \<open>Moving the index iterator and then the data iterator of the new block.\<close>

lemma enter_block:
  assumes bl: "\<forall>x \<in> set ix. \<exists>p. drep (bf (snd x)) (C (snd x)) p" and t: "\<And>i. data_ok drep C (t\<lparr>index_iter := i\<rparr>)"
    and i: "moves irep r ix j"
    and f: "\<And>d p. j < length ix \<Longrightarrow> drep d (C (snd (ix ! j))) p \<Longrightarrow> moves drep (f d) (C (snd (ix ! j))) q"
  obtains i t' where "r = Some i" "on_data f (InitDataBlock I D bf (t\<lparr>index_iter := i\<rparr>)) = Some t'"
    "if j < length ix then at_block irep drep ix C t' j q else past_end irep ix t' \<and> \<not> op_Valid I (index_iter t')"
proof -
  obtain i where i': "r = Some i" "irep i ix j" by (rule movesE [OF i])
  then have "irep (index_iter (t\<lparr>index_iter := i\<rparr>)) ix j" by simp
  note init = InitDataBlock_ok [OF bl t [of i] this]
  show ?thesis
  proof (cases "j < length ix")
    case True
    then obtain p where "at_block irep drep ix C (InitDataBlock I D bf (t\<lparr>index_iter := i\<rparr>)) j p" using init(2) by blast
    then obtain t' where "on_data f (InitDataBlock I D bf (t\<lparr>index_iter := i\<rparr>)) = Some t'" "at_block irep drep ix C t' j q"
      using on_data_at_block f [OF True] by metis
    then show ?thesis using True i'(1) by (intro that) simp_all
  next
    case False
    then have "past_end irep ix (InitDataBlock I D bf (t\<lparr>index_iter := i\<rparr>))" using init(1) I.position [OF i'(2)] by simp
    moreover have "\<not> op_Valid I i" using False I.valid [OF i'(2)] by simp
    then have "\<not> op_Valid I (index_iter (InitDataBlock I D bf (t\<lparr>index_iter := i\<rparr>)))"
      by (auto simp: InitDataBlock_def SetDataIterator_def SaveError_def Let_def split: option.splits)
    ultimately show ?thesis using False i'(1) by (intro that [of i]) (auto simp: on_data_def past_end_def)
  qed
qed

lemma past_end_skip:
  assumes "past_end irep ix t" "\<not> op_Valid I (index_iter t)"
  shows "SkipEmptyDataBlocksForward I D bf t = Some t" "SkipEmptyDataBlocksBackward I D bf t = Some t"
  using assms by (simp_all add: SkipEmptyDataBlocksForward.simps [of _ _ _ t] SkipEmptyDataBlocksBackward.simps [of _ _ _ t]
    TwoLevel_Valid_def SetDataIterator_def past_end_def)

lemma valid_skip:
  assumes "TwoLevel_Valid D t"
  shows "SkipEmptyDataBlocksForward I D bf t = Some t" "SkipEmptyDataBlocksBackward I D bf t = Some t"
  using assms by (simp_all add: SkipEmptyDataBlocksForward.simps [of _ _ _ t] SkipEmptyDataBlocksBackward.simps [of _ _ _ t])

lemma two_repI:
  assumes "kvs = flat ix C" "separated cmp ix C" "\<forall>x \<in> set ix. \<exists>p. drep (bf (snd x)) (C (snd x)) p"
  shows "past_end irep ix t \<Longrightarrow> two_rep irep drep cmp bf t kvs (length kvs)"
    and "at_block irep drep ix C t j p \<Longrightarrow> p < length (C (snd (ix ! j))) \<Longrightarrow>
      two_rep irep drep cmp bf t kvs (length (flat (take j ix) C) + p)"
  unfolding two_rep_def using assms by blast+

lemma skip_forward:
  assumes ix: "kvs = flat ix C" "separated cmp ix C" and bl: "\<forall>x \<in> set ix. \<exists>p. drep (bf (snd x)) (C (snd x)) p"
  shows "at_block irep drep ix C t j p \<Longrightarrow>
    moves (two_rep irep drep cmp bf) (SkipEmptyDataBlocksForward I D bf t) kvs (length (flat (take j ix) C) + p)"
proof (induction "length ix - j" arbitrary: t j p rule: less_induct)
  case less
  note at = less.prems
  have j: "j < length ix" "irep (index_iter t) ix j" using at by (simp_all add: at_block_def)
  show ?case
  proof (cases "p < length (C (snd (ix ! j)))")
    case True
    then show ?thesis
      using two_repI(2) [OF ix bl at] valid_at_block [OF at] valid_skip(1) [of t] by (simp add: moves_def)
  next
    case False
    then have p: "p = length (C (snd (ix ! j)))" using at D.position by (auto simp: at_block_def dest: le_neq_implies_less)
    obtain i t' where t': "op_Next I (index_iter t) = Some i"
      "on_data (op_SeekToFirst D) (InitDataBlock I D bf (t\<lparr>index_iter := i\<rparr>)) = Some t'"
      "if Suc j < length ix then at_block irep drep ix C t' (Suc j) 0 else past_end irep ix t' \<and> \<not> op_Valid I (index_iter t')"
      by (rule enter_block [OF bl data_ok_at_block [OF at] I.advance [OF j(2,1)] D.first])
    then have skip: "SkipEmptyDataBlocksForward I D bf t = SkipEmptyDataBlocksForward I D bf t'"
      using False valid_at_block [OF at] I.valid [OF j(2)] j(1) by (simp add: SkipEmptyDataBlocksForward.simps [of _ _ _ t])
    have pos: "length (flat (take j ix) C) + p = length (flat (take (Suc j) ix) C)" using p j(1) by (simp add: flat_take)
    show ?thesis
    proof (cases "Suc j < length ix")
      case True
      then show ?thesis using less.hyps [of "Suc j" t' 0] t'(3) skip pos j(1) by simp
    next
      case False
      then show ?thesis
        using t'(3) past_end_skip(1) [of ix t'] two_repI(1) [OF ix bl, of t'] skip pos ix(1) by (simp add: moves_def)
    qed
  qed
qed

lemma skip_backward:
  assumes ix: "kvs = flat ix C" "separated cmp ix C" and bl: "\<forall>x \<in> set ix. \<exists>p. drep (bf (snd x)) (C (snd x)) p"
  shows "at_block irep drep ix C t j (length (C (snd (ix ! j)))) \<Longrightarrow>
    moves (two_rep irep drep cmp bf) (SkipEmptyDataBlocksBackward I D bf t) kvs
      (if flat (take j ix) C = [] then length kvs else length (flat (take j ix) C) - 1)"
proof (induction j arbitrary: t rule: less_induct)
  case (less j)
  note at = less.prems
  let ?j = "if j = 0 then length ix else j - 1"
  let ?b = "C (snd (ix ! ?j))"
  have j: "j < length ix" "irep (index_iter t) ix j" using at by (simp_all add: at_block_def)
  obtain i t' where t': "op_Prev I (index_iter t) = Some i"
    "on_data (op_SeekToLast D) (InitDataBlock I D bf (t\<lparr>index_iter := i\<rparr>)) = Some t'"
    "if ?j < length ix then at_block irep drep ix C t' ?j (length ?b - 1) else past_end irep ix t' \<and> \<not> op_Valid I (index_iter t')"
    by (rule enter_block [OF bl data_ok_at_block [OF at] I.retreat [OF j(2,1)] D.final])
  then have skip: "SkipEmptyDataBlocksBackward I D bf t = SkipEmptyDataBlocksBackward I D bf t'"
    using valid_at_block [OF at] I.valid [OF j(2)] j(1) by (simp add: SkipEmptyDataBlocksBackward.simps [of _ _ _ t])
  show ?case
  proof (cases j)
    case 0
    then show ?thesis
      using t'(3) past_end_skip(2) [of ix t'] two_repI(1) [OF ix bl, of t'] skip by (simp add: moves_def flat_def)
  next
    case (Suc k)
    then have at': "at_block irep drep ix C t' k (length ?b - 1)" and k: "k < length ix" "?b = C (snd (ix ! k))" using t'(3) j(1) by simp_all
    have pos: "flat (take j ix) C = flat (take k ix) C @ ?b" using Suc k by (simp add: flat_take)
    show ?thesis
    proof (cases "?b = []")
      case True
      then show ?thesis using less.IH [of k t'] at' Suc k(2) skip pos by (simp split: if_splits)
    next
      case False
      then have "SkipEmptyDataBlocksBackward I D bf t' = Some t'"
        using valid_at_block [OF at'] k(2) by (intro valid_skip) simp
      then show ?thesis
        using two_repI(2) [OF ix bl at'] False skip pos k(2) by (simp add: moves_def Suc_le_eq add_diff_assoc)
    qed
  qed
qed

lemma seek_flat:
  assumes sep: "separated cmp ix C" and j: "j = seek_pos (before cmp target) ix" "j < length ix"
  shows "seek_pos (before cmp target) (flat ix C) = length (flat (take j ix) C) + seek_pos (before cmp target) (C (snd (ix ! j)))"
proof -
  let ?lt = "before cmp target" and ?b = "C (snd (ix ! j))"
  have "?lt (fst x)" if x: "x \<in> set (flat (take j ix) C)" for x
  proof -
    obtain k where "k < j" "x \<in> set (C (snd (ix ! k)))" using flatE [OF x] j(2) by (metis length_take min_less_iff_conj nth_take)
    then show ?thesis using separatedD(2) [OF sep, of k x target] seek_pos_before [of k ?lt ix] j by simp
  qed
  then have pre: "seek_pos ?lt (flat (take j ix) C) = length (flat (take j ix) C)" by (rule seek_pos_all)
  have later: "\<not> ?lt (fst x)" if x: "x \<in> set (flat (drop (Suc j) ix) C)" for x
  proof -
    obtain k where "Suc j + k < length ix" "x \<in> set (C (snd (ix ! (Suc j + k))))"
      using flatE [OF x] j(2) by (metis Suc_leI add.commute length_drop less_diff_conv nth_drop)
    then show ?thesis using separatedD(3) [OF sep, of "Suc j + k" j x target] seek_pos_at [of ?lt ix] j by auto
  qed
  have "seek_pos ?lt (flat (drop (Suc j) ix) C) = 0" by (rule seek_pos_none) (rule later)
  then have "seek_pos ?lt (?b @ flat (drop (Suc j) ix) C) = seek_pos ?lt ?b" by (simp add: seek_pos_append)
  then show ?thesis using pre by (simp add: flat_split [of ix C j] flat_drop [OF j(2)] seek_pos_append)
qed

lemma seek_flat_end:
  assumes sep: "separated cmp ix C" and j: "seek_pos (before cmp target) ix = length ix"
  shows "seek_pos (before cmp target) (flat ix C) = length (flat ix C)"
proof (rule seek_pos_all)
  fix x assume "x \<in> set (flat ix C)"
  then obtain k where "k < length ix" "x \<in> set (C (snd (ix ! k)))" by (rule flatE)
  then show "before cmp target (fst x)" using separatedD(2) [OF sep, of k x target] seek_pos_before [of k "before cmp target" ix] j by simp
qed

lemma two_repE:
  assumes "two_rep irep drep cmp bf t kvs i"
  obtains ix C where "kvs = flat ix C" "separated cmp ix C" "\<forall>x \<in> set ix. \<exists>p. drep (bf (snd x)) (C (snd x)) p"
    "\<And>i. data_ok drep C (t\<lparr>index_iter := i\<rparr>)" "\<exists>k. irep (index_iter t) ix k"
    "past_end irep ix t \<and> i = length kvs \<or>
      (\<exists>j p. at_block irep drep ix C t j p \<and> p < length (C (snd (ix ! j))) \<and> i = length (flat (take j ix) C) + p)"
proof -
  from assms obtain ix C where ix: "kvs = flat ix C" "separated cmp ix C" "\<forall>x \<in> set ix. \<exists>p. drep (bf (snd x)) (C (snd x)) p"
    and at: "past_end irep ix t \<and> i = length kvs \<or>
      (\<exists>j p. at_block irep drep ix C t j p \<and> p < length (C (snd (ix ! j))) \<and> i = length (flat (take j ix) C) + p)"
    unfolding two_rep_def by blast
  have "data_ok drep C (t\<lparr>index_iter := i\<rparr>)" for i using at data_ok_past_end data_ok_at_block by metis
  moreover have "\<exists>k. irep (index_iter t) ix k" using at by (auto simp: past_end_def at_block_def)
  ultimately show ?thesis using that [OF ix] at by blast
qed

text \<open>After the index iterator has gone to block \<open>j\<close> and the data iterator to \<open>q\<close> there.\<close>

lemma enter_forward:
  assumes ix: "kvs = flat ix C" "separated cmp ix C" and bl: "\<forall>x \<in> set ix. \<exists>p. drep (bf (snd x)) (C (snd x)) p"
    and t: "\<And>i. data_ok drep C (t\<lparr>index_iter := i\<rparr>)" and i: "moves irep r ix j"
    and f: "\<And>d p. j < length ix \<Longrightarrow> drep d (C (snd (ix ! j))) p \<Longrightarrow> moves drep (f d) (C (snd (ix ! j))) q"
  shows "moves (two_rep irep drep cmp bf)
    (Option.bind r (\<lambda>i. Option.bind (on_data f (InitDataBlock I D bf (t\<lparr>index_iter := i\<rparr>))) (SkipEmptyDataBlocksForward I D bf)))
    kvs (if j < length ix then length (flat (take j ix) C) + q else length kvs)"
proof -
  obtain i t' where "r = Some i" "on_data f (InitDataBlock I D bf (t\<lparr>index_iter := i\<rparr>)) = Some t'"
    "if j < length ix then at_block irep drep ix C t' j q else past_end irep ix t' \<and> \<not> op_Valid I (index_iter t')"
    by (rule enter_block [OF bl t i f])
  then show ?thesis
    using skip_forward [OF ix bl, of t' j q] past_end_skip(1) [of ix t'] two_repI(1) [OF ix bl, of t']
    by (cases "j < length ix") (simp_all add: moves_def)
qed

lemma two_level_first:
  assumes "two_rep irep drep cmp bf t kvs i"
  shows "moves (two_rep irep drep cmp bf) (TwoLevel_SeekToFirst I D bf t) kvs 0"
proof -
  obtain ix C where ix: "kvs = flat ix C" "separated cmp ix C" "\<forall>x \<in> set ix. \<exists>p. drep (bf (snd x)) (C (snd x)) p"
    and t: "\<And>i. data_ok drep C (t\<lparr>index_iter := i\<rparr>)" "\<exists>k. irep (index_iter t) ix k" by (rule two_repE [OF assms]) (rule that; assumption)
  obtain k where "irep (index_iter t) ix k" using t(2) by blast
  from enter_forward [OF ix t(1) I.first [OF this] D.first] show ?thesis
    by (cases "ix = []") (simp_all add: TwoLevel_SeekToFirst_def ix(1) flat_def)
qed

lemma two_level_seek:
  assumes "two_rep irep drep cmp bf t kvs i" "seekable (before cmp target) kvs"
  shows "moves (two_rep irep drep cmp bf) (TwoLevel_Seek I D bf target t) kvs (seek_pos (before cmp target) kvs)"
proof -
  let ?lt = "before cmp target"
  obtain ix C where ix: "kvs = flat ix C" "separated cmp ix C" "\<forall>x \<in> set ix. \<exists>p. drep (bf (snd x)) (C (snd x)) p"
    and t: "\<And>i. data_ok drep C (t\<lparr>index_iter := i\<rparr>)" "\<exists>k. irep (index_iter t) ix k" by (rule two_repE [OF assms(1)]) (rule that; assumption)
  obtain k where k: "irep (index_iter t) ix k" using t(2) by blast
  define j where "j = seek_pos ?lt ix"
  have f: "moves drep (op_Seek D target d) (C (snd (ix ! j))) (seek_pos ?lt (C (snd (ix ! j))))"
    if "j < length ix" "drep d (C (snd (ix ! j))) p" for d p
  proof (rule D.seek [OF that(2)])
    have "kvs = flat (take j ix) C @ C (snd (ix ! j)) @ flat (drop (Suc j) ix) C"
      using ix(1) flat_split [of ix C j] flat_drop [OF that(1), of C] by metis
    then show "seekable ?lt (C (snd (ix ! j)))" using assms(2) by (metis seekable_append)
  qed
  have "moves irep (op_Seek I target (index_iter t)) ix j" unfolding j_def by (rule I.seek [OF k separatedD(1) [OF ix(2)]])
  from enter_forward [where f = "op_Seek D target", OF ix t(1) this f]
  have fwd: "moves (two_rep irep drep cmp bf) (TwoLevel_Seek I D bf target t) kvs
      (if j < length ix then length (flat (take j ix) C) + seek_pos ?lt (C (snd (ix ! j))) else length kvs)"
    by (simp only: TwoLevel_Seek_def)
  show ?thesis
  proof (cases "j < length ix")
    case True
    then show ?thesis using fwd seek_flat [OF ix(2) j_def] by (simp add: ix(1))
  next
    case False
    then have "seek_pos ?lt ix = length ix" using seek_pos_le [of ?lt ix] by (simp add: j_def)
    from seek_flat_end [OF ix(2) this] show ?thesis using fwd False by (simp add: ix(1))
  qed
qed

lemma two_level_last:
  assumes "two_rep irep drep cmp bf t kvs i"
  shows "moves (two_rep irep drep cmp bf) (TwoLevel_SeekToLast I D bf t) kvs (length kvs - 1)"
proof -
  obtain ix C where ix: "kvs = flat ix C" "separated cmp ix C" "\<forall>x \<in> set ix. \<exists>p. drep (bf (snd x)) (C (snd x)) p"
    and t: "\<And>i. data_ok drep C (t\<lparr>index_iter := i\<rparr>)" "\<exists>k. irep (index_iter t) ix k" by (rule two_repE [OF assms]) (rule that; assumption)
  obtain k where "irep (index_iter t) ix k" using t(2) by blast
  let ?j = "length ix - 1"
  let ?b = "C (snd (ix ! ?j))"
  obtain i' t' where t': "op_SeekToLast I (index_iter t) = Some i'"
    "on_data (op_SeekToLast D) (InitDataBlock I D bf (t\<lparr>index_iter := i'\<rparr>)) = Some t'"
    "if ?j < length ix then at_block irep drep ix C t' ?j (length ?b - 1) else past_end irep ix t' \<and> \<not> op_Valid I (index_iter t')"
    by (rule enter_block [OF ix(3) t(1) I.final [OF \<open>irep _ _ _\<close>] D.final])
  then have eq: "TwoLevel_SeekToLast I D bf t = SkipEmptyDataBlocksBackward I D bf t'" by (simp add: TwoLevel_SeekToLast_def)
  show ?thesis
  proof (cases "ix = []")
    case True
    then show ?thesis
      using t'(3) past_end_skip(2) [of ix t'] two_repI(1) [OF ix, of t'] eq by (simp add: moves_def ix(1) flat_def)
  next
    case False
    then have at: "at_block irep drep ix C t' ?j (length ?b - 1)" and j: "?j < length ix" using t'(3) by simp_all
    have kvs: "kvs = flat (take ?j ix) C @ ?b" using False flat_take [OF j, of C] by (simp add: ix(1))
    show ?thesis
    proof (cases "?b = []")
      case True
      then show ?thesis using skip_backward [OF ix, of t' ?j] at eq kvs by (simp split: if_splits)
    next
      case b: False
      then have "SkipEmptyDataBlocksBackward I D bf t' = Some t'"
        using valid_at_block [OF at] by (intro valid_skip) simp
      then show ?thesis
        using two_repI(2) [OF ix at] b eq kvs by (simp add: moves_def Suc_le_eq add_diff_assoc)
    qed
  qed
qed

lemma two_level_step:
  assumes "two_rep irep drep cmp bf t kvs i" "i < length kvs"
  shows "moves (two_rep irep drep cmp bf) (TwoLevel_Next I D bf t) kvs (Suc i)"
    and "moves (two_rep irep drep cmp bf) (TwoLevel_Prev I D bf t) kvs (if i = 0 then length kvs else i - 1)"
proof -
  obtain ix C where ix: "kvs = flat ix C" "separated cmp ix C" "\<forall>x \<in> set ix. \<exists>p. drep (bf (snd x)) (C (snd x)) p"
    and at: "\<exists>j p. at_block irep drep ix C t j p \<and> p < length (C (snd (ix ! j))) \<and> i = length (flat (take j ix) C) + p"
    using two_repE [OF assms(1)] assms(2) by (metis less_irrefl)
  then obtain j p where j: "at_block irep drep ix C t j p" "p < length (C (snd (ix ! j)))" "i = length (flat (take j ix) C) + p" by blast
  have "moves drep (op_Next D d) (C (snd (ix ! j))) (Suc p)" if "drep d (C (snd (ix ! j))) p" for d by (rule D.advance [OF that j(2)])
  then obtain t' where "on_data (op_Next D) t = Some t'" "at_block irep drep ix C t' j (Suc p)" using on_data_at_block [OF j(1)] by metis
  then show "moves (two_rep irep drep cmp bf) (TwoLevel_Next I D bf t) kvs (Suc i)"
    using skip_forward [OF ix, of t' j "Suc p"] j(3) by (simp add: TwoLevel_Next_def)
  let ?p = "if p = 0 then length (C (snd (ix ! j))) else p - 1"
  have "moves drep (op_Prev D d) (C (snd (ix ! j))) ?p" if "drep d (C (snd (ix ! j))) p" for d by (rule D.retreat [OF that j(2)])
  then obtain t' where t': "on_data (op_Prev D) t = Some t'" "at_block irep drep ix C t' j ?p" using on_data_at_block [OF j(1)] by metis
  show "moves (two_rep irep drep cmp bf) (TwoLevel_Prev I D bf t) kvs (if i = 0 then length kvs else i - 1)"
  proof (cases "p = 0")
    case True
    then show ?thesis using skip_backward [OF ix, of t' j] t' j(3) by (simp add: TwoLevel_Prev_def split: if_splits)
  next
    case False
    then have "SkipEmptyDataBlocksBackward I D bf t' = Some t'"
      using valid_at_block [OF t'(2)] j(2) by (intro valid_skip) simp
    then show ?thesis
      using two_repI(2) [OF ix t'(2)] False t'(1) j(2,3) by (simp add: TwoLevel_Prev_def moves_def Suc_le_eq add_diff_assoc)
  qed
qed

lemma two_level_current:
  assumes "two_rep irep drep cmp bf t kvs i"
  shows "i \<le> length kvs" "op_Valid (TwoLevel_ops I D bf) t \<longleftrightarrow> i < length kvs" "Status_ok (op_status (TwoLevel_ops I D bf) t)"
    and "i < length kvs \<Longrightarrow> (op_key (TwoLevel_ops I D bf) t, op_value (TwoLevel_ops I D bf) t) = kvs ! i"
proof -
  obtain ix C where ix: "kvs = flat ix C" and t: "\<exists>k. irep (index_iter t) ix k" "\<And>i. data_ok drep C (t\<lparr>index_iter := i\<rparr>)"
    and at: "past_end irep ix t \<and> i = length kvs \<or>
      (\<exists>j p. at_block irep drep ix C t j p \<and> p < length (C (snd (ix ! j))) \<and> i = length (flat (take j ix) C) + p)"
    by (rule two_repE [OF assms]) (rule that; assumption)
  have "Status_ok (op_status I (index_iter t))" using t(1) I.status by blast
  moreover have "Status_ok (tl_status t)" "data_iter t = Some d \<Longrightarrow> Status_ok (op_status D d)" for d
    using t(2) [of "index_iter t"] D.status by (auto simp: data_ok_def)
  ultimately show "Status_ok (op_status (TwoLevel_ops I D bf) t)"
    by (auto simp: TwoLevel_ops_def TwoLevel_status_def split: option.splits)
  from at consider (finish) "past_end irep ix t" "i = length kvs"
    | (block) j p d where "at_block irep drep ix C t j p" "p < length (C (snd (ix ! j)))" "i = length (flat (take j ix) C) + p"
        "data_iter t = Some d" "drep d (C (snd (ix ! j))) p"
    by (auto simp: at_block_def)
  then show "i \<le> length kvs" "op_Valid (TwoLevel_ops I D bf) t \<longleftrightarrow> i < length kvs"
    "i < length kvs \<Longrightarrow> (op_key (TwoLevel_ops I D bf) t, op_value (TwoLevel_ops I D bf) t) = kvs ! i"
  proof (atomize (full), cases)
    case finish
    then show "i \<le> length kvs \<and> op_Valid (TwoLevel_ops I D bf) t = (i < length kvs) \<and>
      (i < length kvs \<longrightarrow> (op_key (TwoLevel_ops I D bf) t, op_value (TwoLevel_ops I D bf) t) = kvs ! i)"
      by (simp add: TwoLevel_ops_def TwoLevel_Valid_def past_end_def)
  next
    case block
    then have "j < length ix" by (simp add: at_block_def)
    from flat_nth [of j ix p C, OF this block(2)] show "i \<le> length kvs \<and> op_Valid (TwoLevel_ops I D bf) t = (i < length kvs) \<and>
      (i < length kvs \<longrightarrow> (op_key (TwoLevel_ops I D bf) t, op_value (TwoLevel_ops I D bf) t) = kvs ! i)"
      using block D.current [OF block(5,2)] D.valid [OF block(5)] by (simp add: TwoLevel_ops_def TwoLevel_Valid_def ix)
  qed
qed

end

sublocale two_level \<subseteq> list_iterator "TwoLevel_ops I D bf" cmp "two_rep irep drep cmp bf"
proof
  fix s kvs i target
  assume rep: "two_rep irep drep cmp bf s kvs i"
  note two_level_current [OF rep]
  then show "i \<le> length kvs" "op_Valid (TwoLevel_ops I D bf) s = (i < length kvs)" "Status_ok (op_status (TwoLevel_ops I D bf) s)"
    "i < length kvs \<Longrightarrow> (op_key (TwoLevel_ops I D bf) s, op_value (TwoLevel_ops I D bf) s) = kvs ! i" by blast+
  show "moves (two_rep irep drep cmp bf) (op_SeekToFirst (TwoLevel_ops I D bf) s) kvs 0"
    using two_level_first [OF rep] by (simp add: TwoLevel_ops_def)
  show "moves (two_rep irep drep cmp bf) (op_SeekToLast (TwoLevel_ops I D bf) s) kvs (length kvs - 1)"
    using two_level_last [OF rep] by (simp add: TwoLevel_ops_def)
  show "moves (two_rep irep drep cmp bf) (op_Seek (TwoLevel_ops I D bf) target s) kvs (seek_pos (before cmp target) kvs)"
    if "seekable (before cmp target) kvs"
    using two_level_seek [OF rep that] by (simp add: TwoLevel_ops_def)
  show "moves (two_rep irep drep cmp bf) (op_Next (TwoLevel_ops I D bf) s) kvs (Suc i)"
    "moves (two_rep irep drep cmp bf) (op_Prev (TwoLevel_ops I D bf) s) kvs (if i = 0 then length kvs else i - 1)"
    if "i < length kvs"
    using two_level_step [OF rep that] by (simp_all add: TwoLevel_ops_def)
qed

end
