(* ===== verification/Blocks.thy ===== *)
theory Blocks
  imports Coding Iterators
begin

text \<open>
  The blocks of a table: \<^verbatim>\<open>table/block_builder.cc\<close> and \<^verbatim>\<open>table/block.cc\<close>. Offsets and sizes within a
  block, which the code keeps in 32 bits, are natural numbers: a block is shorter than 4 GiB. The sum
  of two lengths that \<open>DecodeEntry\<close> reads from a block may be larger, and wraps.
\<close>

section \<open>Building a block\<close>

record BlockBuilder =
  bb_buffer :: bytes
  bb_restarts :: "u32 list"
  bb_counter :: nat
  bb_finished :: bool
  bb_last_key :: bytes

definition BlockBuilder_new :: BlockBuilder where
  "BlockBuilder_new = \<lparr>bb_buffer = [], bb_restarts = [0], bb_counter = 0, bb_finished = False, bb_last_key = []\<rparr>"

definition BlockBuilder_Reset :: "BlockBuilder \<Rightarrow> BlockBuilder" where
  "BlockBuilder_Reset b = b\<lparr>bb_buffer := [], bb_restarts := [0], bb_counter := 0, bb_finished := False, bb_last_key := []\<rparr>"

definition CurrentSizeEstimate :: "BlockBuilder \<Rightarrow> nat" where
  "CurrentSizeEstimate b = length (bb_buffer b) + length (bb_restarts b) * 4 + 4"

definition BlockBuilder_empty :: "BlockBuilder \<Rightarrow> bool" where
  "BlockBuilder_empty b \<longleftrightarrow> bb_buffer b = []"

definition BlockBuilder_Finish :: "BlockBuilder \<Rightarrow> bytes \<times> BlockBuilder" where
  "BlockBuilder_Finish b =
     (let buffer = PutFixed32 (fold (\<lambda>r buf. PutFixed32 buf r) (bb_restarts b) (bb_buffer b)) (word_of_nat (length (bb_restarts b)))
      in (buffer, b\<lparr>bb_buffer := buffer, bb_finished := True\<rparr>))"

fun shared_prefix :: "bytes \<Rightarrow> bytes \<Rightarrow> nat" where
  "shared_prefix (a # as) (b # bs) = (if a = b then Suc (shared_prefix as bs) else 0)"
| "shared_prefix _ _ = 0"

definition BlockBuilder_Add :: "nat \<Rightarrow> bytes \<Rightarrow> bytes \<Rightarrow> BlockBuilder \<Rightarrow> BlockBuilder" where
  "BlockBuilder_Add block_restart_interval key val b =
     (let (shared, b) =
            (if bb_counter b < block_restart_interval then (shared_prefix (bb_last_key b) key, b)
             else (0, b\<lparr>bb_restarts := bb_restarts b @ [word_of_nat (length (bb_buffer b))], bb_counter := 0\<rparr>));
          non_shared = length key - shared;
          buffer = PutVarint32 (PutVarint32 (PutVarint32 (bb_buffer b) (word_of_nat shared)) (word_of_nat non_shared))
            (word_of_nat (length val))
      in b\<lparr>bb_buffer := buffer @ drop shared key @ val,
           bb_last_key := take shared (bb_last_key b) @ drop shared key,
           bb_counter := bb_counter b + 1\<rparr>)"

section \<open>Reading a block\<close>

text \<open>A size of 0 marks a block that cannot be read.\<close>

record Block =
  block_data :: bytes
  block_len :: nat
  restart_offset :: nat

definition NumRestarts :: "bytes \<Rightarrow> nat \<Rightarrow> nat" where
  "NumRestarts data n = unat (DecodeFixed32 (drop (n - 4) data))"

definition Block_new :: "bytes \<Rightarrow> Block" where
  "Block_new data =
     (let n = length data in
      if n < 4 then \<lparr>block_data = data, block_len = 0, restart_offset = 0\<rparr>
      else
        let max_restarts_allowed = (n - 4) div 4
        in if NumRestarts data n > max_restarts_allowed then \<lparr>block_data = data, block_len = 0, restart_offset = 0\<rparr>
           else \<lparr>block_data = data, block_len = n, restart_offset = n - (1 + NumRestarts data n) * 4\<rparr>)"

text \<open>
  The entry at offset \<open>p\<close>: the offset of its key delta and the three lengths. The first branch is
  taken when each length is one byte.
\<close>

definition DecodeEntry :: "bytes \<Rightarrow> nat \<Rightarrow> nat \<Rightarrow> (nat \<times> u32 \<times> u32 \<times> u32) option" where
  "DecodeEntry data p limit =
     (if limit - p < 3 then None
      else
        let shared = ucast (data ! p); non_shared = ucast (data ! (p + 1)); value_length = ucast (data ! (p + 2));
            r = (if (shared OR non_shared OR value_length) < 128 then Some (p + 3, shared, non_shared, value_length)
                 else (case GetVarint32Ptr (take (limit - p) (drop p data)) of
                         None \<Rightarrow> None
                       | Some (shared, q) \<Rightarrow>
                           (case GetVarint32Ptr q of
                              None \<Rightarrow> None
                            | Some (non_shared, q) \<Rightarrow>
                                (case GetVarint32Ptr q of
                                   None \<Rightarrow> None
                                 | Some (value_length, q) \<Rightarrow> Some (limit - length q, shared, non_shared, value_length)))))
        in (case r of
              None \<Rightarrow> None
            | Some (p, shared, non_shared, value_length) \<Rightarrow>
                if word_of_nat (limit - p) < non_shared + value_length then None else r))"

text \<open>The value is the offset and the length of a part of the data.\<close>

record Block_Iter =
  bi_data :: bytes
  bi_restarts :: nat
  bi_num_restarts :: nat
  bi_current :: nat
  bi_restart_index :: nat
  bi_key :: bytes
  bi_value :: "nat \<times> nat"
  bi_status :: Status

definition NextEntryOffset :: "Block_Iter \<Rightarrow> nat" where
  "NextEntryOffset it = fst (bi_value it) + snd (bi_value it)"

definition GetRestartPoint :: "Block_Iter \<Rightarrow> nat \<Rightarrow> nat" where
  "GetRestartPoint it index = unat (DecodeFixed32 (drop (bi_restarts it + index * 4) (bi_data it)))"

definition SeekToRestartPoint :: "nat \<Rightarrow> Block_Iter \<Rightarrow> Block_Iter" where
  "SeekToRestartPoint index it = it\<lparr>bi_key := [], bi_restart_index := index, bi_value := (GetRestartPoint it index, 0)\<rparr>"

definition Block_Iter_new :: "bytes \<Rightarrow> nat \<Rightarrow> nat \<Rightarrow> Block_Iter" where
  "Block_Iter_new data restarts num_restarts =
     \<lparr>bi_data = data, bi_restarts = restarts, bi_num_restarts = num_restarts, bi_current = restarts,
      bi_restart_index = num_restarts, bi_key = [], bi_value = (0, 0), bi_status = Status_OK\<rparr>"

definition Block_Iter_Valid :: "Block_Iter \<Rightarrow> bool" where
  "Block_Iter_Valid it \<longleftrightarrow> bi_current it < bi_restarts it"

definition CorruptionError :: "Block_Iter \<Rightarrow> Block_Iter" where
  "CorruptionError it = it\<lparr>bi_current := bi_restarts it, bi_restart_index := bi_num_restarts it,
     bi_status := Status_Corruption (cstr ''bad entry in block'') [], bi_key := [], bi_value := (0, 0)\<rparr>"

function AdvanceRestart :: "Block_Iter \<Rightarrow> nat \<Rightarrow> nat" where
  "AdvanceRestart it i =
     (if i + 1 < bi_num_restarts it \<and> GetRestartPoint it (i + 1) < bi_current it then AdvanceRestart it (i + 1) else i)"
  by pat_completeness auto
termination
  by (relation "measure (\<lambda>(it, i). bi_num_restarts it - i)") auto

declare AdvanceRestart.simps [simp del]

text \<open>No result when the lengths of an entry lead outside the block, which the sum that wraps does not notice.\<close>

definition ParseNextKey :: "Block_Iter \<Rightarrow> (bool \<times> Block_Iter) option" where
  "ParseNextKey it =
     (let it = it\<lparr>bi_current := NextEntryOffset it\<rparr> in
      if bi_current it \<ge> bi_restarts it
      then Some (False, it\<lparr>bi_current := bi_restarts it, bi_restart_index := bi_num_restarts it\<rparr>)
      else (case DecodeEntry (bi_data it) (bi_current it) (bi_restarts it) of
              None \<Rightarrow> Some (False, CorruptionError it)
            | Some (p, shared, non_shared, value_length) \<Rightarrow>
                if length (bi_key it) < unat shared then Some (False, CorruptionError it)
                else if p + unat non_shared + unat value_length > length (bi_data it) then None
                else
                  let it = it\<lparr>bi_key := take (unat shared) (bi_key it) @ take (unat non_shared) (drop p (bi_data it)),
                              bi_value := (p + unat non_shared, unat value_length)\<rparr>
                  in Some (True, it\<lparr>bi_restart_index := AdvanceRestart it (bi_restart_index it)\<rparr>)))"

lemma GetVarint32Ptr_shorter: "GetVarint32Ptr p = Some (v, q) \<Longrightarrow> length q < length p"
  using GetVarint32_shorter [of p v q] by (simp add: GetVarint32_def)

lemma DecodeEntry_after:
  assumes "DecodeEntry data p limit = Some (p', sh, ns, vl)"
  shows "p < p'"
proof -
  from assms have "p + 3 \<le> limit" by (auto simp: DecodeEntry_def split: if_splits)
  then show ?thesis
    using assms by (auto simp: DecodeEntry_def Let_def split: if_splits option.splits prod.splits dest!: GetVarint32Ptr_shorter)
qed

lemma ParseNextKey_progress:
  assumes "ParseNextKey it = Some (True, it')"
  shows "bi_restarts it' = bi_restarts it" "NextEntryOffset it < bi_restarts it" "NextEntryOffset it < NextEntryOffset it'"
proof -
  let ?p = "NextEntryOffset it"
  from assms have p: "?p < bi_restarts it" by (auto simp: ParseNextKey_def Let_def split: if_splits)
  then obtain q sh ns vl where q: "DecodeEntry (bi_data it) ?p (bi_restarts it) = Some (q, sh, ns, vl)"
    "bi_value it' = (q + unat ns, unat vl)" "bi_restarts it' = bi_restarts it"
    using assms by (auto simp: ParseNextKey_def Let_def split: if_splits option.splits)
  then show "bi_restarts it' = bi_restarts it" "NextEntryOffset it < NextEntryOffset it'"
    using DecodeEntry_after [OF q(1)] by (simp_all add: NextEntryOffset_def [of it'])
  show "NextEntryOffset it < bi_restarts it" by (rule p)
qed

text \<open>Parsing keys as long as there is one and \<open>go_on\<close> holds after it.\<close>

function ParseWhile :: "(Block_Iter \<Rightarrow> bool) \<Rightarrow> Block_Iter \<Rightarrow> Block_Iter option" where
  "ParseWhile go_on it =
     (case ParseNextKey it of
        None \<Rightarrow> None
      | Some (ok, it') \<Rightarrow> if ok \<and> go_on it' then ParseWhile go_on it' else Some it')"
  by pat_completeness auto
termination
proof (relation "measure (\<lambda>(go_on, it). bi_restarts it - NextEntryOffset it)")
  fix go_on :: "Block_Iter \<Rightarrow> bool" and it x ok it'
  assume "ParseNextKey it = Some x" "(ok, it') = x" "ok \<and> go_on it'"
  then have "ParseNextKey it = Some (True, it')" by auto
  from ParseNextKey_progress [OF this]
  show "((go_on, it'), go_on, it) \<in> measure (\<lambda>(go_on, it). bi_restarts it - NextEntryOffset it)" by simp
qed simp

declare ParseWhile.simps [simp del]

definition Block_Iter_Next :: "Block_Iter \<Rightarrow> Block_Iter option" where
  "Block_Iter_Next it = map_option snd (ParseNextKey it)"

fun PrevRestart :: "Block_Iter \<Rightarrow> nat \<Rightarrow> nat \<Rightarrow> nat option" where
  "PrevRestart it original i =
     (if GetRestartPoint it i \<ge> original then (case i of 0 \<Rightarrow> None | Suc j \<Rightarrow> PrevRestart it original j) else Some i)"

declare PrevRestart.simps [simp del]

definition Block_Iter_Prev :: "Block_Iter \<Rightarrow> Block_Iter option" where
  "Block_Iter_Prev it =
     (let original = bi_current it
      in (case PrevRestart it original (bi_restart_index it) of
            None \<Rightarrow> Some (it\<lparr>bi_current := bi_restarts it, bi_restart_index := bi_num_restarts it\<rparr>)
          | Some i \<Rightarrow> ParseWhile (\<lambda>it. NextEntryOffset it < original) (SeekToRestartPoint i it)))"

text \<open>The binary search in the restart points: no result outside the block, \<open>Some None\<close> for a corrupted block.\<close>

function SeekRestart :: "(bytes \<Rightarrow> bytes \<Rightarrow> int) \<Rightarrow> Block_Iter \<Rightarrow> bytes \<Rightarrow> nat \<Rightarrow> nat \<Rightarrow> nat option option" where
  "SeekRestart cmp it target left right =
     (if left < right then
        let mid = (left + right + 1) div 2;
            region_offset = GetRestartPoint it mid
        in (case DecodeEntry (bi_data it) region_offset (bi_restarts it) of
              None \<Rightarrow> Some None
            | Some (key_ptr, shared, non_shared, value_length) \<Rightarrow>
                if shared \<noteq> 0 then Some None
                else if key_ptr + unat non_shared > length (bi_data it) then None
                else
                  let mid_key = take (unat non_shared) (drop key_ptr (bi_data it))
                  in if cmp mid_key target < 0 then SeekRestart cmp it target mid right
                     else SeekRestart cmp it target left (mid - 1))
      else Some (Some left))"
  by pat_completeness auto
termination
  by (relation "measure (\<lambda>(cmp, it, target, left, right). right - left)") auto

declare SeekRestart.simps [simp del]

definition Block_Iter_Seek :: "(bytes \<Rightarrow> bytes \<Rightarrow> int) \<Rightarrow> bytes \<Rightarrow> Block_Iter \<Rightarrow> Block_Iter option" where
  "Block_Iter_Seek cmp target it =
     (case SeekRestart cmp it target 0 (bi_num_restarts it - 1) of
        None \<Rightarrow> None
      | Some None \<Rightarrow> Some (CorruptionError it)
      | Some (Some left) \<Rightarrow> ParseWhile (\<lambda>it. cmp (bi_key it) target < 0) (SeekToRestartPoint left it))"

definition Block_Iter_SeekToFirst :: "Block_Iter \<Rightarrow> Block_Iter option" where
  "Block_Iter_SeekToFirst it = map_option snd (ParseNextKey (SeekToRestartPoint 0 it))"

definition Block_Iter_SeekToLast :: "Block_Iter \<Rightarrow> Block_Iter option" where
  "Block_Iter_SeekToLast it =
     ParseWhile (\<lambda>it'. NextEntryOffset it' < bi_restarts it) (SeekToRestartPoint (bi_num_restarts it - 1) it)"

text \<open>The iterators of a block: \<^verbatim>\<open>EmptyIterator\<close> of \<^verbatim>\<open>table/iterator.cc\<close>, with its status, or a \<open>Block_Iter\<close>.\<close>

datatype BlockIterator = EmptyIterator Status | BlockIterator Block_Iter

definition Block_NewIterator :: "Block \<Rightarrow> BlockIterator" where
  "Block_NewIterator b =
     (if block_len b < 4 then EmptyIterator (Status_Corruption (cstr ''bad block contents'') [])
      else
        let num_restarts = NumRestarts (block_data b) (block_len b)
        in if num_restarts = 0 then EmptyIterator Status_OK
           else BlockIterator (Block_Iter_new (block_data b) (restart_offset b) num_restarts))"

fun on_block :: "(Block_Iter \<Rightarrow> Block_Iter option) \<Rightarrow> BlockIterator \<Rightarrow> BlockIterator option" where
  "on_block f (EmptyIterator s) = Some (EmptyIterator s)"
| "on_block f (BlockIterator it) = map_option BlockIterator (f it)"

definition block_ops :: "(bytes \<Rightarrow> bytes \<Rightarrow> int) \<Rightarrow> BlockIterator Iterator" where
  "block_ops cmp =
     \<lparr>op_Valid = case_BlockIterator (\<lambda>_. False) Block_Iter_Valid,
      op_key = case_BlockIterator (\<lambda>_. []) bi_key,
      op_value = case_BlockIterator (\<lambda>_. []) (\<lambda>it. take (snd (bi_value it)) (drop (fst (bi_value it)) (bi_data it))),
      op_status = case_BlockIterator (\<lambda>s. s) bi_status,
      op_SeekToFirst = on_block Block_Iter_SeekToFirst, op_SeekToLast = on_block Block_Iter_SeekToLast,
      op_Seek = \<lambda>target. on_block (Block_Iter_Seek cmp target),
      op_Next = on_block Block_Iter_Next, op_Prev = on_block Block_Iter_Prev\<rparr>"

section \<open>The format of a block\<close>

text \<open>The entries with the number of bytes that their keys share with the key before, and the restarts as indexes.\<close>

type_synonym block_entry = "nat \<times> kv"

fun enc_entry :: "block_entry \<Rightarrow> bytes" where
  "enc_entry (sh, (k, v)) = EncodeVarint32 (word_of_nat sh) @ EncodeVarint32 (word_of_nat (length k - sh)) @
     EncodeVarint32 (word_of_nat (length v)) @ drop sh k @ v"

definition buf :: "block_entry list \<Rightarrow> bytes" where
  "buf es = concat (map enc_entry es)"

definition off :: "block_entry list \<Rightarrow> nat \<Rightarrow> nat" where
  "off es i = length (buf (take i es))"

definition block_bytes :: "block_entry list \<Rightarrow> nat list \<Rightarrow> bytes" where
  "block_bytes es rs = buf es @ concat (map (\<lambda>r. EncodeFixed32 (word_of_nat (off es r))) rs) @ EncodeFixed32 (word_of_nat (length rs))"

fun shared_ok :: "bytes \<Rightarrow> block_entry list \<Rightarrow> bool" where
  "shared_ok prev [] = True"
| "shared_ok prev ((sh, (k, v)) # es) \<longleftrightarrow> sh \<le> length k \<and> sh \<le> length prev \<and> take sh k = take sh prev \<and> shared_ok k es"

definition restarts_ok :: "block_entry list \<Rightarrow> nat list \<Rightarrow> bool" where
  "restarts_ok es rs \<longleftrightarrow> rs \<noteq> [] \<and> hd rs = 0 \<and> sorted_wrt (<) rs \<and> (\<forall>r \<in> set rs. r = 0 \<or> r < length es \<and> fst (es ! r) = 0)"

definition block_ok :: "block_entry list \<Rightarrow> nat list \<Rightarrow> bool" where
  "block_ok es rs \<longleftrightarrow> shared_ok [] es \<and> restarts_ok es rs \<and> length (block_bytes es rs) < 2 ^ 32 \<and>
     (\<forall>e \<in> set es. length (fst (snd e)) < 2 ^ 32)"

section \<open>Offsets\<close>

lemma buf_append [simp]: "buf (xs @ ys) = buf xs @ buf ys"
  by (simp add: buf_def)

lemma buf_simps [simp]: "buf [] = []" "buf (e # es) = enc_entry e @ buf es"
  by (simp_all add: buf_def)

lemma length_enc_entry: "3 \<le> length (enc_entry e)"
proof -
  obtain sh k v where e: "e = (sh, (k, v))" by (metis prod.collapse)
  have "1 \<le> length (EncodeVarint32 w)" for w by (simp add: EncodeVarint32_def Let_def)
  from this [of "word_of_nat sh"] this [of "word_of_nat (length k - sh)"] this [of "word_of_nat (length v)"]
  show ?thesis unfolding e enc_entry.simps length_append by linarith
qed

lemma off_simps [simp]: "off es 0 = 0" "off es (length es) = length (buf es)"
  by (simp_all add: off_def)

lemma off_Suc: "i < length es \<Longrightarrow> off es (Suc i) = off es i + length (enc_entry (es ! i))"
  by (simp add: off_def take_Suc_conv_app_nth)

lemma off_mono: "i < j \<Longrightarrow> j \<le> length es \<Longrightarrow> off es i < off es j"
proof (induction j)
  case (Suc j)
  then have "off es i \<le> off es j" by (cases "i = j") simp_all
  then show ?case using off_Suc [of j es] length_enc_entry [of "es ! j"] Suc.prems by simp
qed simp

lemma off_less_iff: "i \<le> length es \<Longrightarrow> j \<le> length es \<Longrightarrow> off es i < off es j \<longleftrightarrow> i < j"
  using off_mono [of i j es] off_mono [of j i es] by (metis less_irrefl less_not_sym linorder_neqE_nat)

lemma off_le_iff: "i \<le> length es \<Longrightarrow> j \<le> length es \<Longrightarrow> off es i \<le> off es j \<longleftrightarrow> i \<le> j"
  using off_less_iff [of j es i] by (simp add: not_less [symmetric])

lemma off_le: "off es i \<le> length (buf es)"
  by (metis append_take_drop_id buf_append le_add1 length_append off_def)

lemma drop_off: "i < length es \<Longrightarrow> drop (off es i) (buf es) = enc_entry (es ! i) @ buf (drop (Suc i) es)"
proof -
  assume "i < length es"
  then have "buf es = buf (take i es) @ enc_entry (es ! i) @ buf (drop (Suc i) es)" by (metis buf_append buf_simps(2) id_take_nth_drop)
  then show ?thesis by (simp add: off_def)
qed

section \<open>Decoding an entry\<close>

text \<open>The first branch of \<open>DecodeEntry\<close> only saves time.\<close>

lemma GetVarint32Ptr_byte:
  assumes "ucast b < (128 :: u32)"
  shows "GetVarint32Ptr (b # q) = Some (ucast b, q)"
proof -
  have "\<not> bit (ucast b :: u32) 7" using bit_word_small [of "ucast b :: u32" 7 7] assms by (auto simp: word_less_nat_alt)
  then have "(ucast b :: u32) AND 128 = 0" by (simp add: and_128_eq_0_iff)
  then show ?thesis by (simp add: GetVarint32Ptr_def Let_def)
qed

lemma or_less_128:
  assumes "(a OR b) < (128 :: u32)"
  shows "a < 128" "b < 128"
proof -
  have "x \<le> x OR y" for x y :: u32 by (simp add: word_le_def uint_or or_greater_eq)
  from this [of a b] this [of b a] have "a \<le> a OR b" "b \<le> a OR b" by (simp_all add: or.commute)
  then show "a < 128" "b < 128" using assms by simp_all
qed

lemma DecodeEntry_eq:
  assumes "limit \<le> length data"
  shows "DecodeEntry data p limit =
    (if limit - p < 3 then None
     else (case GetVarint32Ptr (take (limit - p) (drop p data)) of
             None \<Rightarrow> None
           | Some (sh, q) \<Rightarrow>
               (case GetVarint32Ptr q of
                  None \<Rightarrow> None
                | Some (ns, q) \<Rightarrow>
                    (case GetVarint32Ptr q of
                       None \<Rightarrow> None
                     | Some (vl, q) \<Rightarrow>
                         if word_of_nat (limit - (limit - length q)) < ns + vl then None else Some (limit - length q, sh, ns, vl)))))"
proof (cases "limit - p < 3")
  case False
  define a b c where abc: "a = data ! p" "b = data ! Suc p" "c = data ! Suc (Suc p)"
  have "take (limit - p) (drop p data) = a # b # c # take (limit - p - 3) (drop (p + 3) data)"
  proof -
    have "drop p data = a # b # c # drop (p + 3) data"
      using False assms by (simp add: abc Cons_nth_drop_Suc numeral_eq_Suc)
    moreover have "limit - p = Suc (Suc (Suc (limit - p - 3)))" using False by simp
    ultimately show ?thesis by (metis take_Suc_Cons)
  qed
  then obtain q where q: "take (limit - p) (drop p data) = a # b # c # q" "limit - length q = p + 3"
    using False assms by simp
  show ?thesis
  proof (cases "((ucast a OR ucast b OR ucast c) :: u32) < 128")
    case True
    then have "ucast a < (128 :: u32)" "ucast b < (128 :: u32)" "ucast c < (128 :: u32)"
      using or_less_128 by blast+
    then show ?thesis
      using False q True unfolding DecodeEntry_def by (simp add: Let_def abc [symmetric] GetVarint32Ptr_byte)
  next
    case slow: False
    then show ?thesis
      using False unfolding DecodeEntry_def
      by (simp add: Let_def abc [symmetric] cong: if_cong split: option.split)
  qed
qed (simp add: DecodeEntry_def)

definition header :: "block_entry \<Rightarrow> nat" where
  "header e = length (enc_entry e) - (length (fst (snd e)) - fst e) - length (snd (snd e))"

lemma GetVarint32Ptr_Encode [simp]: "GetVarint32Ptr (EncodeVarint32 v @ rest) = Some (v, rest)"
  using GetVarint32_EncodeVarint32 [of v rest] by (simp add: GetVarint32_def)

lemma DecodeEntry_enc:
  assumes "drop p data = enc_entry (sh, (k, v)) @ rest" "p + length (enc_entry (sh, (k, v))) \<le> limit" "limit \<le> length data" "limit < 2 ^ 32"
  shows "DecodeEntry data p limit =
      Some (p + header (sh, (k, v)), word_of_nat sh, word_of_nat (length k - sh), word_of_nat (length v))"
    and "drop (p + header (sh, (k, v))) data = drop sh k @ v @ rest"
proof -
  let ?e = "(sh, (k, v))"
  let ?h = "EncodeVarint32 (word_of_nat sh) @ EncodeVarint32 (word_of_nat (length k - sh)) @ EncodeVarint32 (word_of_nat (length v))"
  have h: "header ?e = length ?h" by (simp add: header_def)
  have len: "length (enc_entry ?e) = header ?e + (length k - sh) + length v" by (simp add: h)
  have "drop (p + header ?e) data = drop (header ?e) (drop p data)" by (simp add: add.commute)
  then show rest: "drop (p + header ?e) data = drop sh k @ v @ rest" unfolding assms(1) by (simp add: h)
  define q where "q = take (limit - p - header ?e) (drop sh k @ v @ rest)"
  have take: "take (limit - p) (drop p data) = ?h @ q"
    unfolding assms(1) q_def using assms(2) len h by (simp add: add.assoc)
  have "length (drop (p + header ?e) data) = length data - (p + header ?e)" by simp
  then have "length (drop sh k @ v @ rest) = length data - (p + header ?e)" by (simp only: rest)
  then have q: "length q = limit - p - header ?e"
    unfolding q_def length_take using assms(3) by simp
  then have lim: "limit - length q = p + header ?e" "limit - (limit - length q) = limit - p - header ?e"
    using assms(2) len by simp_all
  have "unat (word_of_nat (length k - sh) + word_of_nat (length v) :: u32) = length k - sh + length v"
    using assms(2,4) len by (simp add: unat_word_ariths unat_of_nat)
  moreover have "unat (word_of_nat (limit - p - header ?e) :: u32) = limit - p - header ?e"
    using assms(4) by (simp add: unat_of_nat)
  ultimately have fit: "\<not> (word_of_nat (limit - (limit - length q)) :: u32) < word_of_nat (length k - sh) + word_of_nat (length v)"
    unfolding lim(2) word_less_nat_alt using assms(2) len by linarith
  have "\<not> limit - p < 3" using assms(2) length_enc_entry [of ?e] by linarith
  then show "DecodeEntry data p limit = Some (p + header ?e, word_of_nat sh, word_of_nat (length k - sh), word_of_nat (length v))"
    unfolding DecodeEntry_eq [OF assms(3)] take append_assoc using fit lim(1) by (simp del: of_nat_diff)
qed

section \<open>Positions of an iterator\<close>

definition prev_key :: "block_entry list \<Rightarrow> nat \<Rightarrow> bytes" where
  "prev_key es i = (if i = 0 then [] else fst (snd (es ! (i - 1))))"

lemma shared_ok_nth:
  assumes "shared_ok p es" "i < length es"
  shows "fst (es ! i) \<le> length (fst (snd (es ! i)))" "fst (es ! i) \<le> length (if i = 0 then p else fst (snd (es ! (i - 1))))"
    "take (fst (es ! i)) (fst (snd (es ! i))) = take (fst (es ! i)) (if i = 0 then p else fst (snd (es ! (i - 1))))"
proof -
  have "fst (es ! i) \<le> length (fst (snd (es ! i))) \<and> fst (es ! i) \<le> length (if i = 0 then p else fst (snd (es ! (i - 1)))) \<and>
    take (fst (es ! i)) (fst (snd (es ! i))) = take (fst (es ! i)) (if i = 0 then p else fst (snd (es ! (i - 1))))"
    using assms
  proof (induction es arbitrary: p i)
    case (Cons e es)
    obtain sh k v where e: "e = (sh, (k, v))" by (metis prod.collapse)
    show ?case
    proof (cases i)
      case (Suc j)
      then show ?thesis using Cons.IH [of k j] Cons.prems e by (cases j) auto
    qed (use Cons.prems e in simp)
  qed simp
  then show "fst (es ! i) \<le> length (fst (snd (es ! i)))" "fst (es ! i) \<le> length (if i = 0 then p else fst (snd (es ! (i - 1))))"
    "take (fst (es ! i)) (fst (snd (es ! i))) = take (fst (es ! i)) (if i = 0 then p else fst (snd (es ! (i - 1))))" by blast+
qed

text \<open>What all positions of an iterator on a block share.\<close>

definition iter_on :: "block_entry list \<Rightarrow> nat list \<Rightarrow> Block_Iter \<Rightarrow> bool" where
  "iter_on es rs it \<longleftrightarrow> bi_data it = block_bytes es rs \<and> bi_restarts it = length (buf es) \<and> bi_num_restarts it = length rs \<and>
     Status_ok (bi_status it)"

definition iter_at :: "block_entry list \<Rightarrow> nat list \<Rightarrow> Block_Iter \<Rightarrow> nat \<Rightarrow> bool" where
  "iter_at es rs it i \<longleftrightarrow> iter_on es rs it \<and> i \<le> length es \<and> bi_current it = off es i \<and>
     (i < length es \<longrightarrow> bi_key it = fst (snd (es ! i)) \<and> NextEntryOffset it = off es (Suc i) \<and>
        snd (bi_value it) = length (snd (snd (es ! i))) \<and>
        bi_restart_index it < length rs \<and> rs ! bi_restart_index it \<le> i \<and>
        (Suc (bi_restart_index it) < length rs \<longrightarrow> i \<le> rs ! Suc (bi_restart_index it)))"

text \<open>The next entry to be parsed is entry \<open>i\<close>.\<close>

definition iter_before :: "block_entry list \<Rightarrow> nat list \<Rightarrow> Block_Iter \<Rightarrow> nat \<Rightarrow> bool" where
  "iter_before es rs it i \<longleftrightarrow> iter_on es rs it \<and> i \<le> length es \<and> NextEntryOffset it = off es i \<and>
     bi_restart_index it < length rs \<and> rs ! bi_restart_index it \<le> i \<and>
     (i < length es \<longrightarrow> fst (es ! i) \<le> length (bi_key it) \<and> take (fst (es ! i)) (bi_key it) = take (fst (es ! i)) (fst (snd (es ! i))))"

lemma restart_index:
  assumes "restarts_ok es rs" "j < length rs"
  shows "rs ! j \<le> length es" "es \<noteq> [] \<Longrightarrow> rs ! j < length es" "rs ! j \<noteq> 0 \<Longrightarrow> fst (es ! (rs ! j)) = 0"
proof -
  have "rs ! j = 0 \<or> rs ! j < length es \<and> fst (es ! (rs ! j)) = 0" using assms unfolding restarts_ok_def by (metis nth_mem)
  then show "rs ! j \<le> length es" "es \<noteq> [] \<Longrightarrow> rs ! j < length es" "rs ! j \<noteq> 0 \<Longrightarrow> fst (es ! (rs ! j)) = 0" by auto
qed

lemma restart_shared:
  assumes "block_ok es rs" "j < length rs" "rs ! j < length es"
  shows "fst (es ! (rs ! j)) = 0"
proof (cases "rs ! j = 0")
  case True
  then show ?thesis using assms shared_ok_nth(2) [of "[]" es 0] by (simp add: block_ok_def)
next
  case False
  then show ?thesis using assms restart_index(3) by (simp add: block_ok_def)
qed

lemma restart_mono: "restarts_ok es rs \<Longrightarrow> i < j \<Longrightarrow> j < length rs \<Longrightarrow> rs ! i < rs ! j"
  by (simp add: restarts_ok_def sorted_wrt_iff_nth_less)

lemma length_restart_array: "length (concat (map (\<lambda>r. EncodeFixed32 (f r)) rs)) = 4 * length rs"
  by (induction rs) simp_all

lemma drop_restart_array:
  "j < length rs \<Longrightarrow> drop (j * 4) (concat (map (\<lambda>r. EncodeFixed32 (f r)) rs) @ ys) =
     EncodeFixed32 (f (rs ! j)) @ drop (Suc j * 4) (concat (map (\<lambda>r. EncodeFixed32 (f r)) rs) @ ys)"
proof (induction rs arbitrary: j)
  case (Cons r rs)
  then show ?case by (cases j) simp_all
qed simp

lemma length_block_bytes: "length (block_bytes es rs) = length (buf es) + 4 * length rs + 4"
  by (simp add: block_bytes_def length_restart_array)

lemma GetRestartPoint_off:
  assumes "block_ok es rs" "iter_on es rs it" "j < length rs"
  shows "GetRestartPoint it j = off es (rs ! j)"
proof -
  have "drop (length (buf es) + j * 4) (block_bytes es rs) =
      drop (j * 4) (concat (map (\<lambda>r. EncodeFixed32 (word_of_nat (off es r))) rs) @ EncodeFixed32 (word_of_nat (length rs)))"
    by (simp add: block_bytes_def)
  moreover have "off es (rs ! j) < 2 ^ 32"
    using assms(1) off_le [of es "rs ! j"] length_block_bytes [of es rs] by (simp add: block_ok_def)
  ultimately show ?thesis
    using assms(2,3) drop_restart_array [OF assms(3), of "\<lambda>r. word_of_nat (off es r)"]
    by (simp add: GetRestartPoint_def iter_on_def unat_of_nat)
qed

lemma AdvanceRestart_ok:
  assumes "block_ok es rs" "iter_on es rs it" "bi_current it = off es i" "i < length es"
  shows "r < length rs \<Longrightarrow> rs ! r \<le> i \<Longrightarrow>
    AdvanceRestart it r < length rs \<and> rs ! AdvanceRestart it r \<le> i \<and>
    (Suc (AdvanceRestart it r) < length rs \<longrightarrow> i \<le> rs ! Suc (AdvanceRestart it r))"
proof (induction "length rs - r" arbitrary: r)
  case 0
  then show ?case by simp
next
  case (Suc d)
  have num: "bi_num_restarts it = length rs" using assms(2) by (simp add: iter_on_def)
  have rp: "GetRestartPoint it (Suc r) < bi_current it \<longleftrightarrow> rs ! Suc r < i" if "Suc r < length rs"
    using GetRestartPoint_off [OF assms(1,2) that] assms(1,3,4) off_less_iff [of "rs ! Suc r" es i] restart_index(1) [OF _ that, of es]
    by (simp add: block_ok_def)
  show ?case
  proof (cases "Suc r < length rs \<and> rs ! Suc r < i")
    case True
    then have "AdvanceRestart it r = AdvanceRestart it (Suc r)" using rp num by (simp add: AdvanceRestart.simps [of it r])
    then show ?thesis using Suc.hyps(1) [of "Suc r"] Suc.hyps(2) True by simp
  next
    case False
    then have "AdvanceRestart it r = r" using rp num by (auto simp: AdvanceRestart.simps [of it r])
    then show ?thesis using False Suc.prems by auto
  qed
qed

lemma parse_end:
  assumes "iter_before es rs it (length es)"
  obtains it' where "ParseNextKey it = Some (False, it')" "iter_at es rs it' (length es)"
  using assms by (auto simp: iter_before_def ParseNextKey_def Let_def iter_at_def iter_on_def)

lemma parse_step:
  assumes ok: "block_ok es rs" and it: "iter_before es rs it i" and i: "i < length es"
  obtains it' where "ParseNextKey it = Some (True, it')" "iter_at es rs it' i" "iter_before es rs it' (Suc i)"
proof -
  obtain sh k v where e: "es ! i = (sh, (k, v))" by (metis prod.collapse)
  have on: "iter_on es rs it" "NextEntryOffset it = off es i" "bi_restart_index it < length rs" "rs ! bi_restart_index it \<le> i"
    "sh \<le> length (bi_key it)" "take sh (bi_key it) = take sh k"
    using it i e by (simp_all add: iter_before_def)
  have sok: "shared_ok [] es" "length k < 2 ^ 32" "length (block_bytes es rs) < 2 ^ 32"
    using ok nth_mem [OF i] e by (auto simp: block_ok_def)
  have sh: "sh \<le> length k" using shared_ok_nth(1) [OF sok(1) i] e by simp
  let ?enc = "enc_entry (sh, (k, v))" and ?h = "header (sh, (k, v))"
  have d: "drop (off es i) (block_bytes es rs) = ?enc @ buf (drop (Suc i) es) @ drop (length (buf es)) (block_bytes es rs)"
    using drop_off [OF i] off_le [of es i] e by (simp add: block_bytes_def)
  have lim: "off es i + length ?enc \<le> length (buf es)" using off_Suc [OF i] off_le [of es "Suc i"] e by simp
  have len: "length (buf es) \<le> length (block_bytes es rs)" "length (buf es) < 2 ^ 32" using sok(3) length_block_bytes [of es rs] by simp_all
  note dec = DecodeEntry_enc [OF d lim len]
  have small: "length k - sh < 2 ^ 32" "length v < 2 ^ 32" "sh < 2 ^ 32" "?h + (length k - sh) + length v = length ?enc"
    using lim len(2) sok(2) sh by (simp_all add: header_def)
  have pos: "off es i < length (buf es)" using off_less_iff [of i es "length es"] i by simp
  let ?it = "it\<lparr>bi_current := off es i, bi_key := k, bi_value := (off es i + ?h + (length k - sh), length v)\<rparr>"
  let ?it' = "?it\<lparr>bi_restart_index := AdvanceRestart ?it (bi_restart_index it)\<rparr>"
  have key: "take sh (bi_key it) @ take (length k - sh) (drop sh k @ v @ buf (drop (Suc i) es) @ drop (length (buf es)) (block_bytes es rs)) = k"
    using on(6) sh by simp
  have "ParseNextKey it = Some (True, ?it')"
    using on(1,2,5) pos dec small lim len key by (simp add: ParseNextKey_def Let_def iter_on_def unat_of_nat)
  moreover have next_off: "NextEntryOffset ?it' = off es (Suc i)"
    using small(4) off_Suc [OF i] e by (simp add: NextEntryOffset_def)
  moreover have "iter_on es rs ?it" "bi_current ?it = off es i" using on(1) by (simp_all add: iter_on_def)
  note adv = AdvanceRestart_ok [OF ok this i on(3,4)]
  moreover have "iter_on es rs ?it'" using on(1) by (simp add: iter_on_def)
  moreover have "Suc i < length es \<Longrightarrow> fst (es ! Suc i) \<le> length k \<and> take (fst (es ! Suc i)) k = take (fst (es ! Suc i)) (fst (snd (es ! Suc i)))"
    using shared_ok_nth(2,3) [OF sok(1), of "Suc i"] e by simp
  ultimately show ?thesis
    using i e by (intro that [of ?it']) (auto simp: iter_at_def iter_before_def le_SucI)
qed

lemma seek_restart:
  assumes "block_ok es rs" "iter_on es rs it" "j < length rs"
  shows "iter_before es rs (SeekToRestartPoint j it) (rs ! j)"
  using assms GetRestartPoint_off [OF assms] restart_index(1) [of es rs j] restart_shared [OF assms(1,3)]
  by (auto simp: iter_before_def SeekToRestartPoint_def iter_on_def NextEntryOffset_def block_ok_def)

lemma parse_while:
  assumes ok: "block_ok es rs"
    and "iter_before es rs it i" "i \<le> m" "m \<le> length es"
    and go: "\<And>j it'. i \<le> j \<Longrightarrow> j < m \<Longrightarrow> iter_at es rs it' j \<Longrightarrow> go_on it'"
    and stop: "\<And>it'. m < length es \<Longrightarrow> iter_at es rs it' m \<Longrightarrow> \<not> go_on it'"
  obtains it' where "ParseWhile go_on it = Some it'" "iter_at es rs it' m"
proof -
  have "\<exists>it'. ParseWhile go_on it = Some it' \<and> iter_at es rs it' m"
    using assms(2-5)
  proof (induction "m - i" arbitrary: i it)
    case 0
    then have i: "i = m" by simp
    show ?case
    proof (cases "m < length es")
      case True
      then obtain it' where "ParseNextKey it = Some (True, it')" "iter_at es rs it' m"
        using parse_step [OF ok] 0(2) i by metis
      then show ?thesis using stop True by (auto simp: ParseWhile.simps [of go_on it])
    next
      case False
      then have "m = length es" using 0 by simp
      then obtain it' where "ParseNextKey it = Some (False, it')" "iter_at es rs it' m"
        using parse_end 0(2) i by metis
      then show ?thesis by (auto simp: ParseWhile.simps [of go_on it])
    qed
  next
    case (Suc d)
    then have i: "i < length es" by simp
    obtain it' where it': "ParseNextKey it = Some (True, it')" "iter_at es rs it' i" "iter_before es rs it' (Suc i)"
      using parse_step [OF ok Suc.prems(1) i] by blast
    moreover have "go_on it'" using Suc.prems(4) [OF order_refl _ it'(2)] Suc.hyps(2) by simp
    moreover have "\<exists>it''. ParseWhile go_on it' = Some it'' \<and> iter_at es rs it'' m"
    proof (rule Suc.hyps(1) [of "Suc i"])
      show "go_on it''" if "Suc i \<le> j" "j < m" "iter_at es rs it'' j" for j it'' by (rule Suc.prems(4) [OF _ that(2,3)]) (use that(1) in simp)
    qed (use Suc.hyps(2) Suc.prems it'(3) in simp_all)
    ultimately show ?case by (auto simp: ParseWhile.simps [of go_on it])
  qed
  then show ?thesis using that by blast
qed

lemma iter_at_on: "iter_at es rs it i \<Longrightarrow> iter_on es rs it"
  by (simp add: iter_at_def)

lemma block_first:
  assumes "block_ok es rs" "iter_on es rs it"
  obtains it' where "Block_Iter_SeekToFirst it = Some it'" "iter_at es rs it' 0"
proof -
  have rs: "0 < length rs" "rs ! 0 = 0" using assms(1) by (auto simp: block_ok_def restarts_ok_def hd_conv_nth)
  then have b: "iter_before es rs (SeekToRestartPoint 0 it) 0" using seek_restart [OF assms rs(1)] by simp
  show ?thesis
  proof (cases "es = []")
    case True
    then show ?thesis using parse_end [of es rs] b that by (metis Block_Iter_SeekToFirst_def list.size(3) option.simps(9) snd_conv)
  next
    case False
    then show ?thesis
      using parse_step [OF assms(1) b] that by (metis Block_Iter_SeekToFirst_def length_greater_0_conv option.simps(9) snd_conv)
  qed
qed

lemma block_last:
  assumes "block_ok es rs" "iter_on es rs it"
  obtains it' where "Block_Iter_SeekToLast it = Some it'" "iter_at es rs it' (length es - 1)"
proof -
  have rs: "length rs - 1 < length rs" using assms(1) by (auto simp: block_ok_def restarts_ok_def)
  note b = seek_restart [OF assms rs]
  have r: "rs ! (length rs - 1) \<le> length es - 1"
    using restart_index(1,2) [OF _ rs, of es] assms(1) by (cases "es = []") (auto simp: block_ok_def)
  have go: "NextEntryOffset it' < bi_restarts it \<longleftrightarrow> Suc j < length es" if "iter_at es rs it' j" "j < length es" for it' j
    using that assms(2) off_less_iff [of "Suc j" es "length es"] by (simp add: iter_at_def iter_on_def)
  show ?thesis
  proof (rule parse_while [OF assms(1) b r, where go_on = "\<lambda>it'. NextEntryOffset it' < bi_restarts it"])
    show "NextEntryOffset it' < bi_restarts it" if "j < length es - 1" "iter_at es rs it' j" for j it' using that go [of it' j] by simp
    show "\<not> NextEntryOffset it' < bi_restarts it" if "length es - 1 < length es" "iter_at es rs it' (length es - 1)" for it'
      using that go [of it' "length es - 1"] by simp
  qed (use that assms(2) in \<open>simp_all add: Block_Iter_SeekToLast_def iter_on_def\<close>)
qed

lemma block_next:
  assumes "block_ok es rs" "iter_at es rs it i" "i < length es"
  obtains it' where "Block_Iter_Next it = Some it'" "iter_at es rs it' (Suc i)"
proof -
  have b: "iter_before es rs it (Suc i)"
    using assms shared_ok_nth(2,3) [of "[]" es "Suc i"] by (auto simp: iter_before_def iter_at_def block_ok_def)
  show ?thesis
  proof (cases "Suc i < length es")
    case True
    then show ?thesis using parse_step [OF assms(1) b] that by (metis Block_Iter_Next_def option.simps(9) snd_conv)
  next
    case False
    then have "Suc i = length es" using assms(3) by simp
    then show ?thesis using parse_end [of es rs it] b that by (metis Block_Iter_Next_def option.simps(9) snd_conv)
  qed
qed

lemma PrevRestart_ok:
  assumes "block_ok es rs" "iter_on es rs it" "i \<le> length es"
  shows "r < length rs \<Longrightarrow>
    (case PrevRestart it (off es i) r of None \<Rightarrow> i = 0 | Some j \<Rightarrow> j < length rs \<and> rs ! j < i)"
proof (induction r)
  case 0
  have "rs ! 0 = 0" using 0 assms(1) by (auto simp: block_ok_def restarts_ok_def hd_conv_nth)
  then show ?case
    using 0 GetRestartPoint_off [OF assms(1,2) 0] off_less_iff [of 0 es i] assms(3) by (auto simp: PrevRestart.simps [of it _ 0])
next
  case (Suc r)
  have "GetRestartPoint it (Suc r) < off es i \<longleftrightarrow> rs ! Suc r < i"
    using GetRestartPoint_off [OF assms(1,2) Suc.prems] off_less_iff [of "rs ! Suc r" es i] restart_index(1) [OF _ Suc.prems, of es] assms
    by (simp add: block_ok_def)
  then show ?case using Suc by (auto simp: PrevRestart.simps [of it _ "Suc r"] split: option.splits)
qed

lemma block_prev:
  assumes "block_ok es rs" "iter_at es rs it i" "i < length es"
  obtains it' where "Block_Iter_Prev it = Some it'" "iter_at es rs it' (if i = 0 then length es else i - 1)"
proof -
  have it: "iter_on es rs it" "bi_current it = off es i" "bi_restart_index it < length rs"
    using assms(2,3) by (simp_all add: iter_at_def)
  note prev = PrevRestart_ok [OF assms(1) it(1) less_imp_le [OF assms(3)] it(3)]
  show ?thesis
  proof (cases "PrevRestart it (off es i) (bi_restart_index it)")
    case None
    then show ?thesis
      using prev it(1,2) by (intro that [of "it\<lparr>bi_current := bi_restarts it, bi_restart_index := bi_num_restarts it\<rparr>"])
        (simp_all add: Block_Iter_Prev_def iter_at_def iter_on_def)
  next
    case (Some j)
    then have j: "j < length rs" "rs ! j < i" using prev by simp_all
    have go: "NextEntryOffset it' < off es i \<longleftrightarrow> Suc k < i" if "iter_at es rs it' k" "k < length es" for it' k
      using that assms(3) off_less_iff [of "Suc k" es i] by (simp add: iter_at_def)
    show ?thesis
    proof (rule parse_while [OF assms(1) seek_restart [OF assms(1) it(1) j(1)], of "i - 1" "\<lambda>it'. NextEntryOffset it' < off es i"])
      show "NextEntryOffset it' < off es i" if "k < i - 1" "iter_at es rs it' k" for k it' using that go [of it' k] assms(3) by simp
      show "\<not> NextEntryOffset it' < off es i" if "iter_at es rs it' (i - 1)" for it' using that go [of it' "i - 1"] assms(3) j(2) by simp
    qed (use that j(2) assms(3) it(2) Some in \<open>simp_all add: Block_Iter_Prev_def\<close>)
  qed
qed

text \<open>The search ends at a restart point whose key is before the target, or at the first one.\<close>

lemma SeekRestart_ok:
  assumes ok: "block_ok es rs" and it: "iter_on es rs it"
  shows "left \<le> right \<Longrightarrow> right < length rs \<Longrightarrow> left = 0 \<or> cmp (fst (snd (es ! (rs ! left)))) target < 0 \<Longrightarrow>
    \<exists>l. SeekRestart cmp it target left right = Some (Some l) \<and> l < length rs \<and> (l = 0 \<or> cmp (fst (snd (es ! (rs ! l)))) target < 0)"
proof (induction "right - left" arbitrary: left right rule: less_induct)
  case less
  show ?case
  proof (cases "left < right")
    case True
    define mid where "mid = (left + right + 1) div 2"
    have mid: "left < mid" "mid \<le> right" "mid < length rs" using True less.prems(2) by (auto simp: mid_def)
    have rok: "restarts_ok es rs" using ok by (simp add: block_ok_def)
    have "rs ! mid \<noteq> 0" using restart_mono [OF rok, of 0 mid] mid by simp
    then have r: "rs ! mid < length es" using restart_index [OF rok mid(3)] by (metis le_neq_implies_less length_0_conv)
    obtain k v where e: "es ! (rs ! mid) = (0, (k, v))" using restart_shared [OF ok mid(3) r] by (metis prod.collapse)
    have d: "drop (off es (rs ! mid)) (block_bytes es rs) =
        enc_entry (0, (k, v)) @ buf (drop (Suc (rs ! mid)) es) @ drop (length (buf es)) (block_bytes es rs)"
      using drop_off [OF r] off_le [of es "rs ! mid"] e by (simp add: block_bytes_def)
    have lim: "off es (rs ! mid) + length (enc_entry (0, (k, v))) \<le> length (buf es)"
      using off_Suc [OF r] off_le [of es "Suc (rs ! mid)"] e by simp
    have len: "length (buf es) \<le> length (block_bytes es rs)" "length (buf es) < 2 ^ 32" "length k < 2 ^ 32"
      using ok length_block_bytes [of es rs] nth_mem [OF r] e by (auto simp: block_ok_def)
    note dec = DecodeEntry_enc [OF d lim len(1,2)]
    have small: "off es (rs ! mid) + header (0, (k, v)) + length k \<le> length (buf es)" using lim by (simp add: header_def)
    have "SeekRestart cmp it target left right =
        (if cmp k target < 0 then SeekRestart cmp it target mid right else SeekRestart cmp it target left (mid - 1))"
      using True dec small len it GetRestartPoint_off [OF ok it mid(3)]
      by (simp add: SeekRestart.simps [of cmp it target left right] Let_def mid_def [symmetric, simplified] iter_on_def unat_of_nat)
    moreover have "right - mid < right - left" "mid - 1 - left < right - left" using mid by auto
    ultimately show ?thesis using less.hyps [of right mid] less.hyps [of "mid - 1" left] less.prems mid e by (cases "cmp k target < 0") simp_all
  next
    case False
    then have "SeekRestart cmp it target left right = Some (Some left)" by (simp add: SeekRestart.simps [of cmp it target left right])
    then show ?thesis using less.prems by auto
  qed
qed

lemma block_seek:
  assumes ok: "block_ok es rs" and it: "iter_on es rs it" and sorted: "seekable (before cmp target) (map snd es)"
  obtains it' where "Block_Iter_Seek cmp target it = Some it'" "iter_at es rs it' (seek_pos (before cmp target) (map snd es))"
proof -
  let ?m = "seek_pos (before cmp target) (map snd es)"
  have rok: "restarts_ok es rs" "0 < length rs" "rs ! 0 = 0" using ok by (auto simp: block_ok_def restarts_ok_def hd_conv_nth)
  have "length rs - 1 < length rs" using rok(2) by simp
  then obtain l where l: "SeekRestart cmp it target 0 (length rs - 1) = Some (Some l)" "l < length rs"
    "l = 0 \<or> cmp (fst (snd (es ! (rs ! l)))) target < 0"
    using SeekRestart_ok [OF ok it, of 0 "length rs - 1" cmp target] by auto
  have iff: "cmp (fst (snd (es ! i))) target < 0 \<longleftrightarrow> i < ?m" if "i < length es" for i
    using seek_pos_iff [OF sorted, of i] that by (simp add: before_def)
  have start: "rs ! l \<le> ?m"
  proof (cases "rs ! l < length es \<and> l \<noteq> 0")
    case True
    then show ?thesis using iff [of "rs ! l"] l(3) by simp
  next
    case False
    then show ?thesis using restart_index(2) [OF rok(1) l(2)] restart_index(1) [OF rok(1) l(2)] rok(3) by (cases "es = []") auto
  qed
  show ?thesis
  proof (rule parse_while [OF ok seek_restart [OF ok it l(2)] start, of "\<lambda>it'. cmp (bi_key it') target < 0"])
    show "?m \<le> length es" using seek_pos_le [of "before cmp target" "map snd es"] by simp
    then show "cmp (bi_key it') target < 0" if "j < ?m" "iter_at es rs it' j" for j it'
      using that iff [of j] by (simp add: iter_at_def)
    show "\<not> cmp (bi_key it') target < 0" if "?m < length es" "iter_at es rs it' ?m" for it'
      using that iff [of ?m] by (simp add: iter_at_def)
  qed (use that l(1) it in \<open>simp_all add: Block_Iter_Seek_def iter_on_def\<close>)
qed

section \<open>A block is a list of keys and values\<close>

definition block_rep :: "BlockIterator \<Rightarrow> kv list \<Rightarrow> nat \<Rightarrow> bool" where
  "block_rep b kvs i \<longleftrightarrow> (case b of
      EmptyIterator s \<Rightarrow> Status_ok s \<and> kvs = [] \<and> i = 0
    | BlockIterator it \<Rightarrow> \<exists>es rs. block_ok es rs \<and> kvs = map snd es \<and> iter_at es rs it i)"

lemma block_moves:
  assumes "block_rep b kvs i" "kvs = [] \<Longrightarrow> j = 0"
    and "\<And>es rs it. block_ok es rs \<Longrightarrow> kvs = map snd es \<Longrightarrow> iter_at es rs it i \<Longrightarrow> \<exists>it'. f it = Some it' \<and> iter_at es rs it' j"
  shows "moves block_rep (on_block f b) kvs j"
proof (cases b)
  case (BlockIterator it)
  then obtain es rs where es: "block_ok es rs" "kvs = map snd es" "iter_at es rs it i" using assms(1) by (auto simp: block_rep_def)
  then obtain it' where "f it = Some it'" "iter_at es rs it' j" using assms(3) by blast
  then show ?thesis using es BlockIterator by (auto simp: moves_def block_rep_def)
qed (use assms(1,2) in \<open>auto simp: moves_def block_rep_def\<close>)

lemma iter_at_value:
  assumes "block_ok es rs" "iter_at es rs it i" "i < length es"
  shows "take (snd (bi_value it)) (drop (fst (bi_value it)) (bi_data it)) = snd (snd (es ! i))"
proof -
  obtain sh k v where e: "es ! i = (sh, (k, v))" by (metis prod.collapse)
  have it: "bi_data it = block_bytes es rs" "NextEntryOffset it = off es (Suc i)" "snd (bi_value it) = length v"
    using assms(2,3) e by (simp_all add: iter_at_def iter_on_def)
  let ?pre = "length (enc_entry (sh, (k, v))) - length v"
  have pos: "fst (bi_value it) = off es i + ?pre" using it(2,3) off_Suc [OF assms(3)] e by (simp add: NextEntryOffset_def)
  have d: "drop (off es i) (block_bytes es rs) = enc_entry (sh, (k, v)) @ buf (drop (Suc i) es) @ drop (length (buf es)) (block_bytes es rs)"
    using drop_off [OF assms(3)] off_le [of es i] e by (simp add: block_bytes_def)
  have "drop (fst (bi_value it)) (block_bytes es rs) = drop ?pre (drop (off es i) (block_bytes es rs))" by (simp add: pos add.commute)
  then have "take (length v) (drop (fst (bi_value it)) (block_bytes es rs)) = v" unfolding d by simp
  then show ?thesis using it e by simp
qed

lemma iter_at_valid: "iter_at es rs it i \<Longrightarrow> Block_Iter_Valid it \<longleftrightarrow> i < length es"
  using off_less_iff [of i es "length es"] by (auto simp: iter_at_def iter_on_def Block_Iter_Valid_def)

lemma iter_at_current:
  assumes "iter_at es rs it i"
  shows "i \<le> length es" "i < length es \<Longrightarrow> bi_key it = fst (snd (es ! i))" "Status_ok (bi_status it)"
  using assms by (simp_all add: iter_at_def iter_on_def)

interpretation block: list_iterator "block_ops cmp" cmp block_rep for cmp
proof
  fix s kvs i target
  assume rep: "block_rep s kvs i"
  show "i \<le> length kvs" "op_Valid (block_ops cmp) s = (i < length kvs)" "Status_ok (op_status (block_ops cmp) s)"
    using rep iter_at_valid iter_at_current by (auto simp: block_rep_def block_ops_def split: BlockIterator.splits)
  show "(op_key (block_ops cmp) s, op_value (block_ops cmp) s) = kvs ! i" if "i < length kvs"
    using rep that iter_at_value iter_at_current(2) by (fastforce simp: block_rep_def block_ops_def split: BlockIterator.splits)
  show "moves block_rep (op_SeekToFirst (block_ops cmp) s) kvs 0"
    unfolding block_ops_def Iterator.select_convs by (rule block_moves [OF rep]) (auto elim: block_first [OF _ iter_at_on])
  show "moves block_rep (op_SeekToLast (block_ops cmp) s) kvs (length kvs - 1)"
    unfolding block_ops_def Iterator.select_convs by (rule block_moves [OF rep]) (auto elim: block_last [OF _ iter_at_on])
  show "moves block_rep (op_Seek (block_ops cmp) target s) kvs (seek_pos (before cmp target) kvs)" if "seekable (before cmp target) kvs"
    unfolding block_ops_def Iterator.select_convs
    by (rule block_moves [OF rep]) (use that in \<open>auto simp: seek_pos_def [of _ "[]"] elim: block_seek [OF _ iter_at_on]\<close>)
  show "moves block_rep (op_Next (block_ops cmp) s) kvs (Suc i)" if "i < length kvs"
    unfolding block_ops_def Iterator.select_convs
    by (rule block_moves [OF rep]) (use that in \<open>auto elim: block_next\<close>)
  show "moves block_rep (op_Prev (block_ops cmp) s) kvs (if i = 0 then length kvs else i - 1)" if "i < length kvs"
    unfolding block_ops_def Iterator.select_convs
    by (rule block_moves [OF rep]) (use that in \<open>auto elim: block_prev\<close>)
qed

section \<open>What the builder writes\<close>

definition builder_rep :: "BlockBuilder \<Rightarrow> block_entry list \<Rightarrow> nat list \<Rightarrow> bool" where
  "builder_rep b es rs \<longleftrightarrow> bb_buffer b = buf es \<and> bb_restarts b = map (\<lambda>r. word_of_nat (off es r)) rs \<and>
     bb_last_key b = prev_key es (length es) \<and> shared_ok [] es \<and> restarts_ok es rs \<and> (es = [] \<longrightarrow> bb_counter b = 0)"

lemma builder_new: "builder_rep BlockBuilder_new [] [0]" "builder_rep (BlockBuilder_Reset b) [] [0]"
  by (simp_all add: builder_rep_def BlockBuilder_new_def BlockBuilder_Reset_def prev_key_def restarts_ok_def)

lemma shared_prefix_take:
  "shared_prefix a b \<le> length a" "shared_prefix a b \<le> length b" "take (shared_prefix a b) a = take (shared_prefix a b) b"
  by (induction a b rule: shared_prefix.induct) simp_all

lemma shared_ok_snoc:
  "shared_ok p (es @ [(sh, (k, v))]) \<longleftrightarrow> shared_ok p es \<and> sh \<le> length k \<and>
     sh \<le> length (if es = [] then p else fst (snd (last es))) \<and> take sh k = take sh (if es = [] then p else fst (snd (last es)))"
  by (induction p es rule: shared_ok.induct) auto

lemma off_snoc: "r \<le> length es \<Longrightarrow> off (es @ [e]) r = off es r"
  by (simp add: off_def)

lemma builder_Add:
  assumes b: "builder_rep b es rs" and "0 < interval"
  obtains sh rs' where "builder_rep (BlockBuilder_Add interval k v b) (es @ [(sh, (k, v))]) rs'"
proof -
  have rs: "restarts_ok es rs" "shared_ok [] es" using b by (simp_all add: builder_rep_def)
  have off: "map (\<lambda>r. word_of_nat (off (es @ [e]) r) :: u32) rs = map (\<lambda>r. word_of_nat (off es r)) rs" for e
    using rs(1) by (intro map_cong refl) (auto simp: restarts_ok_def off_snoc)
  have prev: "prev_key es (length es) = (if es = [] then [] else fst (snd (last es)))" by (simp add: prev_key_def last_conv_nth)
  let ?last = "prev_key es (length es)"
  show ?thesis
  proof (cases "bb_counter b < interval")
    case True
    define sh where "sh = shared_prefix ?last k"
    have sh: "sh \<le> length ?last" "sh \<le> length k" "take sh ?last = take sh k" by (simp_all add: sh_def shared_prefix_take)
    have "restarts_ok (es @ [(sh, (k, v))]) rs" using rs(1) by (auto simp: restarts_ok_def nth_append)
    moreover have "shared_ok [] (es @ [(sh, (k, v))])" using rs(2) sh prev by (simp add: shared_ok_snoc)
    moreover have "take sh ?last @ drop sh k = k" using sh(3) by simp
    ultimately have "builder_rep (BlockBuilder_Add interval k v b) (es @ [(sh, (k, v))]) rs"
      using b True off sh_def by (simp add: builder_rep_def BlockBuilder_Add_def Let_def put_simps prev_key_def nth_append)
    then show ?thesis by (rule that)
  next
    case False
    then have es: "es \<noteq> []" using b assms(2) by (auto simp: builder_rep_def)
    have r: "r < length es" if "r \<in> set rs" for r using rs(1) that es by (auto simp: restarts_ok_def)
    have "restarts_ok (es @ [(0, (k, v))]) (rs @ [length es])"
      using rs(1) r by (auto simp: restarts_ok_def nth_append sorted_wrt_append intro: less_SucI)
    moreover have "shared_ok [] (es @ [(0, (k, v))])" using rs(2) by (simp add: shared_ok_snoc)
    ultimately have "builder_rep (BlockBuilder_Add interval k v b) (es @ [(0, (k, v))]) (rs @ [length es])"
      using b False off by (simp add: builder_rep_def BlockBuilder_Add_def Let_def put_simps prev_key_def nth_append off_snoc)
    then show ?thesis by (rule that)
  qed
qed

lemma builder_Adds:
  assumes "builder_rep b es rs" "0 < interval"
  obtains es' rs' where "builder_rep (fold (\<lambda>(k, v). BlockBuilder_Add interval k v) kvs b) (es @ es') rs'" "map snd es' = kvs"
proof -
  have "\<exists>es' rs'. builder_rep (fold (\<lambda>(k, v). BlockBuilder_Add interval k v) kvs b) (es @ es') rs' \<and> map snd es' = kvs"
    using assms(1)
  proof (induction kvs arbitrary: b es rs)
    case (Cons kv kvs)
    obtain sh rs1 where "builder_rep (BlockBuilder_Add interval (fst kv) (snd kv) b) (es @ [(sh, (fst kv, snd kv))]) rs1"
      using builder_Add [OF Cons.prems assms(2)] by blast
    from Cons.IH [OF this] obtain es' rs' where
      "builder_rep (fold (\<lambda>(k, v). BlockBuilder_Add interval k v) kvs (BlockBuilder_Add interval (fst kv) (snd kv) b))
        ((es @ [(sh, (fst kv, snd kv))]) @ es') rs'" "map snd es' = kvs" by blast
    then show ?case by (intro exI [of _ "(sh, kv) # es'"] exI [of _ rs']) (cases kv, simp)
  qed (use assms(1) in \<open>auto intro: exI [of _ "[]"]\<close>)
  then show ?thesis using that by blast
qed

lemma builder_Finish:
  assumes "builder_rep b es rs"
  shows "fst (BlockBuilder_Finish b) = block_bytes es rs"
proof -
  have "fold (\<lambda>r buf. PutFixed32 buf r) xs ys = ys @ concat (map EncodeFixed32 xs)" for xs ys
    by (induction xs arbitrary: ys) (simp_all add: PutFixed32_def)
  then show ?thesis using assms by (simp add: BlockBuilder_Finish_def builder_rep_def block_bytes_def PutFixed32_def Let_def comp_def)
qed

text \<open>A bound of the size of a block.\<close>

definition kvs_size :: "kv list \<Rightarrow> nat" where
  "kvs_size kvs = (\<Sum>kv \<leftarrow> kvs. length (fst kv) + length (snd kv) + 64)"

lemma length_buf: "length (buf es) + 49 * length es \<le> kvs_size (map snd es)"
proof (induction es)
  case (Cons e es)
  obtain sh k v where e: "e = (sh, (k, v))" by (metis prod.collapse)
  have "length (enc_entry e) \<le> 15 + length k + length v"
    using length_EncodeVarint32 [of "word_of_nat sh"] length_EncodeVarint32 [of "word_of_nat (length k - sh)"]
      length_EncodeVarint32 [of "word_of_nat (length v)"] unfolding e enc_entry.simps length_append length_drop by linarith
  then show ?case using Cons e by (simp add: kvs_size_def)
qed (simp add: kvs_size_def)

lemma length_restarts:
  assumes "restarts_ok es rs" shows "length rs \<le> Suc (length es)"
proof -
  have ne: "length rs - 1 < length rs" using assms by (auto simp: restarts_ok_def)
  have "length rs - 1 \<le> rs ! (length rs - 1)" by (rule sorted_wrt_less_idx [OF _ ne]) (use assms in \<open>simp add: restarts_ok_def\<close>)
  then show ?thesis using restart_index(1) [OF assms ne] by simp
qed

lemma block_length:
  assumes "restarts_ok es rs" shows "length (block_bytes es rs) + 45 * length es \<le> kvs_size (map snd es) + 8"
  using length_buf [of es] length_restarts [OF assms] by (simp add: length_block_bytes)

lemma builder_ok:
  assumes "builder_rep b es rs" "kvs_size (map snd es) < 2 ^ 32 - 8"
  shows "block_ok es rs"
proof -
  have ok: "shared_ok [] es" "restarts_ok es rs" using assms(1) by (simp_all add: builder_rep_def)
  have "length (fst kv) \<le> kvs_size kvs" if "kv \<in> set kvs" for kv kvs
    using that by (induction kvs) (auto simp: kvs_size_def)
  from this [of "snd e" "map snd es" for e] have "\<forall>e \<in> set es. length (fst (snd e)) < 2 ^ 32" using assms(2) by fastforce
  then show ?thesis using ok block_length [OF ok(2)] assms(2) by (simp add: block_ok_def)
qed

lemma Block_iterator:
  assumes "block_ok es rs"
  shows "block_rep (Block_NewIterator (Block_new (block_bytes es rs))) (map snd es) (length es)"
proof -
  have rs: "rs \<noteq> []" "length rs < 2 ^ 32" using assms length_block_bytes [of es rs] by (auto simp: block_ok_def restarts_ok_def)
  have "drop (length (block_bytes es rs) - 4) (block_bytes es rs) = EncodeFixed32 (word_of_nat (length rs)) @ []"
    by (simp add: length_block_bytes) (simp add: block_bytes_def length_restart_array)
  then have num: "NumRestarts (block_bytes es rs) (length (block_bytes es rs)) = length rs"
    using rs(2) DecodeFixed32_EncodeFixed32 [of "word_of_nat (length rs)" "[]"] by (simp add: NumRestarts_def unat_of_nat)
  have "Block_NewIterator (Block_new (block_bytes es rs)) = BlockIterator (Block_Iter_new (block_bytes es rs) (length (buf es)) (length rs))"
    using rs(1) num by (simp add: Block_NewIterator_def Block_new_def Let_def length_block_bytes)
  moreover have "iter_at es rs (Block_Iter_new (block_bytes es rs) (length (buf es)) (length rs)) (length es)"
    by (simp add: iter_at_def iter_on_def Block_Iter_new_def Status_ok_def)
  ultimately show ?thesis using assms unfolding block_rep_def by auto
qed

section \<open>Properties\<close>

definition build_block :: "nat \<Rightarrow> kv list \<Rightarrow> bytes" where
  "build_block interval kvs = fst (BlockBuilder_Finish (fold (\<lambda>(k, v). BlockBuilder_Add interval k v) kvs BlockBuilder_new))"

lemma build_block_rep:
  assumes "0 < interval" "kvs_size kvs < 2 ^ 32 - 8"
  shows "block_rep (Block_NewIterator (Block_new (build_block interval kvs))) kvs (length kvs)"
proof -
  obtain es rs where es: "builder_rep (fold (\<lambda>(k, v). BlockBuilder_Add interval k v) kvs BlockBuilder_new) ([] @ es) rs" "map snd es = kvs"
    by (rule builder_Adds [OF builder_new(1) assms(1)])
  then have "block_ok es rs" "build_block interval kvs = block_bytes es rs"
    using builder_ok [of _ es rs] builder_Finish [of _ es rs] assms(2) by (auto simp: build_block_def)
  then show ?thesis using Block_iterator [of es rs] es(2) by (metis length_map)
qed

text \<open>
  C23: a block gives back what was added to it. An iterator on the block that \<^verbatim>\<open>BlockBuilder\<close> makes of
  some keys and values, with any restart interval, goes forwards through them from \<open>SeekToFirst\<close> and
  backwards from \<open>SeekToLast\<close>, and when they are in the order of the comparator, \<open>Seek\<close> with its binary
  search goes to the first one that is not before the target. The loops end.
\<close>

theorem block_iterator_contents:
  assumes "0 < interval" "kvs_size kvs < 2 ^ 32 - 8"
  shows "let it = Block_NewIterator (Block_new (build_block interval kvs)); ops = block_ops cmp
    in Option.bind (op_SeekToFirst ops it) (op_rest ops) = Some kvs \<and>
       Option.bind (op_SeekToLast ops it) (op_back ops) = Some (rev kvs) \<and>
       (\<forall>target. sorted_wrt (\<lambda>x y. cmp (fst y) target < 0 \<longrightarrow> cmp (fst x) target < 0) kvs \<longrightarrow>
          Option.bind (op_Seek ops target it) (op_rest ops) = Some (dropWhile (\<lambda>kv. cmp (fst kv) target < 0) kvs))"
  using block.loops [OF build_block_rep [OF assms], of cmp] by (simp add: Let_def seekable_def before_def)

theorem block_iterator_contents_witness:
  "Option.bind (op_Seek (block_ops Bytewise_Compare) [1, 1] (Block_NewIterator (Block_new (build_block 2 [([1], [5]), ([1, 2], [6]), ([3], [])]))))
     (op_rest (block_ops Bytewise_Compare)) = Some [([1, 2], [6]), ([3], [])]"
proof -
  let ?kvs = "[([1], [5]), ([1, 2], [6]), ([3], [])] :: kv list"
  have "sorted_wrt (\<lambda>x y. Bytewise_Compare (fst y) [1, 1] < 0 \<longrightarrow> Bytewise_Compare (fst x) [1, 1] < 0) ?kvs" by code_simp
  moreover have "dropWhile (\<lambda>kv. Bytewise_Compare (fst kv) [1, 1] < 0) ?kvs = [([1, 2], [6]), ([3], [])]" by code_simp
  moreover have "(0 :: nat) < 2" "kvs_size ?kvs < 2 ^ 32 - 8" by (simp_all add: kvs_size_def)
  ultimately show ?thesis using block_iterator_contents [of 2 ?kvs Bytewise_Compare] by (simp add: Let_def)
qed

end
