(* ===== verification/DBFormat.thy ===== *)
theory DBFormat
  imports Coding Slices
begin

text \<open>
  Internal keys: \<^verbatim>\<open>db/dbformat.h\<close> and \<^verbatim>\<open>db/dbformat.cc\<close>. An internal key is the user key
  followed by eight bytes that pack a 56-bit sequence number and the value type. The
  functions that the code guards with \<^verbatim>\<open>assert(internal_key.size() >= 8)\<close> are used under
  that precondition, \<open>valid_ikey\<close> below.
\<close>

section \<open>Data\<close>

datatype ValueType = kTypeDeletion | kTypeValue

fun ValueType_code :: "ValueType \<Rightarrow> byte" where
  "ValueType_code kTypeDeletion = 0x0"
| "ValueType_code kTypeValue = 0x1"

definition ValueType_of :: "byte \<Rightarrow> ValueType option" where
  "ValueType_of c = (if c = 0 then Some kTypeDeletion else if c = 1 then Some kTypeValue else None)"

definition kValueTypeForSeek :: ValueType where
  "kValueTypeForSeek = kTypeValue"

definition kMaxSequenceNumber :: u64 where
  "kMaxSequenceNumber = push_bit 56 1 - 1"

record ParsedInternalKey =
  user_key :: bytes
  sequence :: u64
  vtype :: ValueType

section \<open>Operations\<close>

definition InternalKeyEncodingLength :: "ParsedInternalKey \<Rightarrow> nat" where
  "InternalKeyEncodingLength key = length (user_key key) + 8"

definition PackSequenceAndType :: "u64 \<Rightarrow> ValueType \<Rightarrow> u64" where
  "PackSequenceAndType seq t = push_bit 8 seq OR ucast (ValueType_code t)"

definition AppendInternalKey :: "bytes \<Rightarrow> ParsedInternalKey \<Rightarrow> bytes" where
  "AppendInternalKey result key =
     PutFixed64 (result @ user_key key) (PackSequenceAndType (sequence key) (vtype key))"

definition ExtractUserKey :: "bytes \<Rightarrow> bytes" where
  "ExtractUserKey internal_key = take (length internal_key - 8) internal_key"

definition ExtractTag :: "bytes \<Rightarrow> u64" where
  "ExtractTag internal_key = DecodeFixed64 (drop (length internal_key - 8) internal_key)"

definition ExtractValueType :: "bytes \<Rightarrow> ValueType option" where
  "ExtractValueType internal_key = ValueType_of (ucast (ExtractTag internal_key AND 0xff))"

definition ParseInternalKey :: "bytes \<Rightarrow> ParsedInternalKey option" where
  "ParseInternalKey internal_key =
     (let n = length internal_key in
      if n < 8 then None
      else let num = ExtractTag internal_key;
               c = ucast (num AND 0xff) :: byte
           in (case ValueType_of c of
                 None \<Rightarrow> None
               | Some t \<Rightarrow> Some \<lparr>user_key = take (n - 8) internal_key,
                                 sequence = drop_bit 8 num, vtype = t\<rparr>))"

text \<open>
  \<^verbatim>\<open>InternalKeyComparator\<close> holds a pointer to the user comparator; its methods take the
  user comparator's methods as arguments.
\<close>

definition InternalKeyComparator_Compare ::
    "(bytes \<Rightarrow> bytes \<Rightarrow> int) \<Rightarrow> bytes \<Rightarrow> bytes \<Rightarrow> int" where
  "InternalKeyComparator_Compare ucmp akey bkey =
     (let r = ucmp (ExtractUserKey akey) (ExtractUserKey bkey) in
      if r = 0 then
        let anum = ExtractTag akey; bnum = ExtractTag bkey in
        if anum > bnum then -1 else if anum < bnum then 1 else r
      else r)"

definition InternalKeyComparator_FindShortestSeparator ::
    "(bytes \<Rightarrow> bytes \<Rightarrow> int) \<Rightarrow> (bytes \<Rightarrow> bytes \<Rightarrow> bytes) \<Rightarrow> bytes \<Rightarrow> bytes \<Rightarrow> bytes" where
  "InternalKeyComparator_FindShortestSeparator ucmp usep start limit =
     (let user_start = ExtractUserKey start;
          user_limit = ExtractUserKey limit;
          tmp = usep user_start user_limit
      in if length tmp < length user_start \<and> ucmp user_start tmp < 0
         then PutFixed64 tmp (PackSequenceAndType kMaxSequenceNumber kValueTypeForSeek)
         else start)"

definition InternalKeyComparator_FindShortSuccessor ::
    "(bytes \<Rightarrow> bytes \<Rightarrow> int) \<Rightarrow> (bytes \<Rightarrow> bytes) \<Rightarrow> bytes \<Rightarrow> bytes" where
  "InternalKeyComparator_FindShortSuccessor ucmp usucc key =
     (let ukey = ExtractUserKey key;
          tmp = usucc ukey
      in if length tmp < length ukey \<and> ucmp ukey tmp < 0
         then PutFixed64 tmp (PackSequenceAndType kMaxSequenceNumber kValueTypeForSeek)
         else key)"

text \<open>
  \<^verbatim>\<open>class InternalKey\<close>: a wrapper around the encoded string; the empty string marks an
  invalid key.
\<close>

definition InternalKey_new :: "bytes \<Rightarrow> u64 \<Rightarrow> ValueType \<Rightarrow> bytes" where
  "InternalKey_new ukey s t =
     AppendInternalKey [] \<lparr>user_key = ukey, sequence = s, vtype = t\<rparr>"

text \<open>
  \<^verbatim>\<open>class LookupKey\<close>: one buffer holding the length of the internal key, the user key and
  the tag. \<open>lk_kstart\<close> is the offset of \<^verbatim>\<open>kstart_\<close>, and \<open>lk_needed\<close> the number of bytes
  the constructor made room for (the array \<^verbatim>\<open>space_\<close> of 200 bytes, or an allocation of \<open>needed\<close>).
\<close>

record LookupKey =
  lk_buf :: bytes
  lk_kstart :: nat
  lk_room :: nat

definition LookupKey_new :: "bytes \<Rightarrow> u64 \<Rightarrow> LookupKey" where
  "LookupKey_new ukey s =
     (let usize = length ukey;
          needed = usize + 13;
          room = (if needed \<le> 200 then 200 else needed);
          dst = EncodeVarint32 (word_of_nat (usize + 8));
          kstart = length dst;
          dst = dst @ ukey @ EncodeFixed64 (PackSequenceAndType s kValueTypeForSeek)
      in \<lparr>lk_buf = dst, lk_kstart = kstart, lk_room = room\<rparr>)"

definition LookupKey_memtable_key :: "LookupKey \<Rightarrow> bytes" where
  "LookupKey_memtable_key k = lk_buf k"

definition LookupKey_internal_key :: "LookupKey \<Rightarrow> bytes" where
  "LookupKey_internal_key k = drop (lk_kstart k) (lk_buf k)"

definition LookupKey_user_key :: "LookupKey \<Rightarrow> bytes" where
  "LookupKey_user_key k =
     take (length (lk_buf k) - lk_kstart k - 8) (drop (lk_kstart k) (lk_buf k))"

section \<open>Lemmas\<close>

definition valid_ikey :: "bytes \<Rightarrow> bool" where
  "valid_ikey k \<longleftrightarrow> 8 \<le> length k"

definition valid_seq :: "u64 \<Rightarrow> bool" where
  "valid_seq s \<longleftrightarrow> s \<le> kMaxSequenceNumber"

lemma valid_seq_iff: "valid_seq s \<longleftrightarrow> unat s < 2 ^ 56"
  by (simp add: valid_seq_def kMaxSequenceNumber_def word_le_nat_alt less_Suc_eq_le [symmetric])

lemma ValueType_of_code [simp]: "ValueType_of (ValueType_code t) = Some t"
  by (cases t) (simp_all add: ValueType_of_def)

lemma ValueType_code_less: "ValueType_code t < 2"
  by (cases t) simp_all

lemma bit_ValueType_code: "bit (ValueType_code t) n \<longleftrightarrow> n = 0 \<and> t = kTypeValue"
  by (cases t) (auto simp: bit_1_iff)

lemma unat_PackSequenceAndType:
  assumes "valid_seq s"
  shows "unat (PackSequenceAndType s t) = 256 * unat s + unat (ValueType_code t)"
proof -
  have "PackSequenceAndType s t = push_bit 8 s + ucast (ValueType_code t)"
    unfolding PackSequenceAndType_def
    by (rule disjunctive_add_eq_or [symmetric], rule bit_word_eqI)
      (auto simp: bit_simps bit_ValueType_code)
  moreover have "unat s * 256 + unat (ValueType_code t) < 2 ^ 64"
    using assms by (cases t) (auto simp: valid_seq_iff)
  ultimately show ?thesis
    using assms
    by (simp add: push_bit_eq_mult unat_word_ariths unat_ucast_up valid_seq_iff mult.commute)
qed

lemma PackSequenceAndType_fields:
  assumes "valid_seq s"
  shows "drop_bit 8 (PackSequenceAndType s t) = s"
    and "(ucast (PackSequenceAndType s t AND 0xff) :: byte) = ValueType_code t"
proof -
  show "drop_bit 8 (PackSequenceAndType s t) = s"
    using bit_word_small [of s 56] assms
    by (intro bit_word_eqI) (auto simp: PackSequenceAndType_def bit_simps bit_ValueType_code valid_seq_iff)
  show "(ucast (PackSequenceAndType s t AND 0xff) :: byte) = ValueType_code t"
    by (intro bit_word_eqI) (auto simp: PackSequenceAndType_def bit_simps bit_ValueType_code)
qed

lemma Extract_append_tag [simp]:
  "ExtractUserKey (u @ EncodeFixed64 v) = u"
  "ExtractTag (u @ EncodeFixed64 v) = v"
  using DecodeFixed64_EncodeFixed64 [of v "[]"]
  by (simp_all add: ExtractUserKey_def ExtractTag_def del: DecodeFixed64_EncodeFixed64)

lemma Extract_inject:
  assumes "valid_ikey a" "valid_ikey b" "ExtractUserKey a = ExtractUserKey b" "ExtractTag a = ExtractTag b"
  shows "a = b"
proof -
  have tail: "drop (length k - 8) k = EncodeFixed64 (ExtractTag k)" if "valid_ikey k" for k
    using that le_bytes_le_word [where 'a = 64, of "drop (length k - 8) k"]
    by (simp add: valid_ikey_def ExtractTag_def DecodeFixed64_def EncodeFixed64_def kLittleEndian_def)
  then show ?thesis
    using assms append_take_drop_id [of "length a - 8" a] append_take_drop_id [of "length b - 8" b]
    by (simp add: ExtractUserKey_def)
qed

lemma AppendInternalKey_eq:
  "AppendInternalKey r k = r @ user_key k @ EncodeFixed64 (PackSequenceAndType (sequence k) (vtype k))"
  by (simp add: AppendInternalKey_def PutFixed64_def)

lemma ParseInternalKey_AppendInternalKey:
  "valid_seq (sequence k) \<Longrightarrow> ParseInternalKey (AppendInternalKey [] k) = Some k"
  by (simp add: ParseInternalKey_def Let_def AppendInternalKey_eq PackSequenceAndType_fields)

lemma length_AppendInternalKey:
  "length (AppendInternalKey [] k) = InternalKeyEncodingLength k"
  by (simp add: AppendInternalKey_eq InternalKeyEncodingLength_def)

lemma PackSequenceAndType_less_iff:
  assumes "valid_seq s" "valid_seq s'"
  shows "PackSequenceAndType s t < PackSequenceAndType s' t' \<longleftrightarrow>
    s < s' \<or> s = s' \<and> t = kTypeDeletion \<and> t' = kTypeValue"
  by (cases t; cases t') (auto simp: word_less_nat_alt word_unat_eq_iff unat_PackSequenceAndType assms)

text \<open>The tag a seek uses is the largest tag of its sequence number, so it sorts first.\<close>

lemma Pack_max:
  "valid_seq s \<Longrightarrow> PackSequenceAndType s t \<le> PackSequenceAndType kMaxSequenceNumber kValueTypeForSeek"
proof -
  assume s: "valid_seq s"
  have max: "valid_seq kMaxSequenceNumber" by (simp add: valid_seq_def)
  show ?thesis
    unfolding not_less [symmetric] PackSequenceAndType_less_iff [OF max s]
    using s by (auto simp: valid_seq_def kValueTypeForSeek_def)
qed

lemmas ikc_defs = InternalKeyComparator_Compare_def InternalKeyComparator_FindShortestSeparator_def
  InternalKeyComparator_FindShortSuccessor_def Let_def PutFixed64_def

lemma InternalKeyComparator_Compare_less:
  "InternalKeyComparator_Compare ucmp a b < 0 \<longleftrightarrow>
     ucmp (ExtractUserKey a) (ExtractUserKey b) < 0 \<or>
     ucmp (ExtractUserKey a) (ExtractUserKey b) = 0 \<and> ExtractTag b < ExtractTag a"
  by (auto simp: ikc_defs)

lemma InternalKeyComparator_Compare_greater:
  "InternalKeyComparator_Compare ucmp a b > 0 \<longleftrightarrow>
     ucmp (ExtractUserKey a) (ExtractUserKey b) > 0 \<or>
     ucmp (ExtractUserKey a) (ExtractUserKey b) = 0 \<and> ExtractTag a < ExtractTag b"
  by (auto simp: ikc_defs)

lemma InternalKeyComparator_Compare_zero:
  "InternalKeyComparator_Compare ucmp a b = 0 \<longleftrightarrow>
     ucmp (ExtractUserKey a) (ExtractUserKey b) = 0 \<and> ExtractTag a = ExtractTag b"
  by (auto simp: ikc_defs)

section \<open>The internal comparator over a user comparator\<close>

text \<open>
  A user comparator is a comparator on all byte strings. Beyond the documented contract,
  \<^verbatim>\<open>InternalKeyComparator::FindShortestSeparator\<close> relies on one more fact: when two
  neighbouring internal keys have the same user key, it asks for a separator of that user
  key and itself, and the user comparator must not make it longer or larger in that case
  (\<open>sep_self\<close>; the bytewise comparator leaves it as it is).
\<close>

locale user_comparator = comparator cmp sep succ "\<lambda>_. True"
  for cmp :: "bytes \<Rightarrow> bytes \<Rightarrow> int" and sep and succ +
  assumes sep_self: "sep a a = a"
begin

lemma ikc_sep_less:
  assumes "InternalKeyComparator_Compare cmp a b < 0"
  shows "InternalKeyComparator_Compare cmp
    (InternalKeyComparator_FindShortestSeparator cmp sep a b) b < 0"
proof (cases "cmp (ExtractUserKey a) (ExtractUserKey b) < 0")
  case True
  then have "cmp (sep (ExtractUserKey a) (ExtractUserKey b)) (ExtractUserKey b) < 0"
    by (simp add: sep_less)
  with assms True show ?thesis
    by (simp add: InternalKeyComparator_Compare_less) (simp add: ikc_defs)
next
  case False
  with assms have "ExtractUserKey a = ExtractUserKey b"
    by (simp add: InternalKeyComparator_Compare_less cmp_eq)
  with assms show ?thesis
    by (simp add: InternalKeyComparator_FindShortestSeparator_def Let_def sep_self)
qed

end

sublocale user_comparator \<subseteq> ikc: comparator "InternalKeyComparator_Compare cmp"
  "InternalKeyComparator_FindShortestSeparator cmp sep"
  "InternalKeyComparator_FindShortSuccessor cmp succ" valid_ikey
proof unfold_locales
  fix a b c
  let ?u = ExtractUserKey
  let ?C = "InternalKeyComparator_Compare cmp"
  show "valid_ikey a \<Longrightarrow> valid_ikey b \<Longrightarrow> ?C a b = 0 \<longleftrightarrow> a = b"
    using Extract_inject [of a b] by (auto simp: InternalKeyComparator_Compare_zero cmp_eq)
  show "valid_ikey a \<Longrightarrow> valid_ikey b \<Longrightarrow> ?C a b < 0 \<longleftrightarrow> 0 < ?C b a"
    using cmp_anti [of "?u a" "?u b"]
    by (auto simp: InternalKeyComparator_Compare_less InternalKeyComparator_Compare_greater cmp_eq)
  show "?C a c < 0" if "?C a b < 0" "?C b c < 0"
    using that cmp_trans [of "?u a" "?u b" "?u c"]
    by (auto simp: InternalKeyComparator_Compare_less cmp_eq)
  show "valid_ikey (InternalKeyComparator_FindShortestSeparator cmp sep a b)"
    if "valid_ikey a" using that by (auto simp: ikc_defs valid_ikey_def)
  show "valid_ikey (InternalKeyComparator_FindShortSuccessor cmp succ a)"
    if "valid_ikey a" using that by (auto simp: ikc_defs valid_ikey_def)
  show "?C a (InternalKeyComparator_FindShortestSeparator cmp sep a b) \<le> 0"
    by (auto simp: ikc_defs cmp_refl)
  show "?C a (InternalKeyComparator_FindShortSuccessor cmp succ a) \<le> 0"
    by (auto simp: ikc_defs cmp_refl)
  show "?C a b < 0 \<Longrightarrow> ?C (InternalKeyComparator_FindShortestSeparator cmp sep a b) b < 0"
    by (rule ikc_sep_less)
qed

interpretation bytewise_user: user_comparator Bytewise_Compare Bytewise_FindShortestSeparator
  Bytewise_FindShortSuccessor
proof unfold_locales
  fix a :: bytes
  show "Bytewise_FindShortestSeparator a a = a"
    by (cases rule: FindShortestSeparator_cases [of a a]) auto
qed

section \<open>Lookup keys\<close>

lemma LookupKey_parts:
  "LookupKey_internal_key (LookupKey_new u s) = InternalKey_new u s kValueTypeForSeek"
  "LookupKey_user_key (LookupKey_new u s) = u"
  by (simp_all add: LookupKey_internal_key_def LookupKey_user_key_def LookupKey_new_def Let_def
      InternalKey_new_def AppendInternalKey_eq)

lemma LookupKey_memtable_key_prefixed:
  "LookupKey_memtable_key (LookupKey_new u s) =
     PutLengthPrefixedSlice [] (InternalKey_new u s kValueTypeForSeek)"
  by (simp add: LookupKey_memtable_key_def LookupKey_new_def Let_def PutLengthPrefixedSlice_def
      PutVarint32_def InternalKey_new_def AppendInternalKey_eq)

lemma LookupKey_fits: "length (lk_buf (LookupKey_new u s)) \<le> lk_room (LookupKey_new u s)"
  using length_EncodeVarint32 [of "word_of_nat (length u + 8)"]
  by (auto simp: LookupKey_new_def Let_def)

section \<open>The internal key order of the database\<close>

definition ikey_less :: "ParsedInternalKey \<Rightarrow> ParsedInternalKey \<Rightarrow> bool" where
  "ikey_less a b \<longleftrightarrow> user_key a < user_key b \<or>
     user_key a = user_key b \<and>
       (sequence b < sequence a \<or> sequence b = sequence a \<and> vtype b = kTypeDeletion \<and> vtype a = kTypeValue)"

text \<open>The database is opened with the default options, so the user comparator is the bytewise one.\<close>

abbreviation bytewise_ikc :: "bytes \<Rightarrow> bytes \<Rightarrow> int" where
  "bytewise_ikc \<equiv> InternalKeyComparator_Compare Bytewise_Compare"

abbreviation bytewise_isep :: "bytes \<Rightarrow> bytes \<Rightarrow> bytes" where
  "bytewise_isep \<equiv> InternalKeyComparator_FindShortestSeparator Bytewise_Compare Bytewise_FindShortestSeparator"

abbreviation bytewise_isucc :: "bytes \<Rightarrow> bytes" where
  "bytewise_isucc \<equiv> InternalKeyComparator_FindShortSuccessor Bytewise_Compare Bytewise_FindShortSuccessor"

lemma bytewise_ikc_less:
  "valid_seq (sequence a) \<Longrightarrow> valid_seq (sequence b) \<Longrightarrow>
   bytewise_ikc (AppendInternalKey [] a) (AppendInternalKey [] b) < 0 \<longleftrightarrow> ikey_less a b"
  by (simp add: ikey_less_def InternalKeyComparator_Compare_less AppendInternalKey_eq
      PackSequenceAndType_less_iff Bytewise_Compare_def Slice_compare_order)

lemma ikey_less_trans: "ikey_less a b \<Longrightarrow> ikey_less b c \<Longrightarrow> ikey_less a c"
  by (auto simp: ikey_less_def)

lemma ikey_less_irrefl: "\<not> ikey_less a a"
  by (auto simp: ikey_less_def)

lemma ikey_less_total: "ikey_less a b \<or> a = b \<or> ikey_less b a"
  by (cases a; cases b; cases "vtype a"; cases "vtype b") (auto simp: ikey_less_def)

section \<open>Properties\<close>

text \<open>
  C30: internal keys over the bytewise comparator are ordered by increasing user key and,
  for one user key, by decreasing sequence number and then decreasing type: the newest
  version of a key comes first. The shorter of the two user keys is below 2 GB, as the code
  keeps the length it compares in an \<^verbatim>\<open>int\<close>.
\<close>

theorem internal_keys_newest_first:
  assumes "valid_seq (sequence a)" and "valid_seq (sequence b)"
    and "length (user_key a) < 2 ^ 31 \<or> length (user_key b) < 2 ^ 31"
  shows "bytewise_ikc (AppendInternalKey [] a) (AppendInternalKey [] b) < 0 \<longleftrightarrow>
    user_key a < user_key b \<or>
    user_key a = user_key b \<and>
      (sequence b < sequence a \<or>
       sequence b = sequence a \<and> vtype b = kTypeDeletion \<and> vtype a = kTypeValue)"
  using assms by (simp add: bytewise_ikc_less ikey_less_def)

theorem internal_keys_newest_first_witness:
  "bytewise_ikc
     (AppendInternalKey [] \<lparr>user_key = [1], sequence = 9, vtype = kTypeDeletion\<rparr>)
     (AppendInternalKey [] \<lparr>user_key = [1], sequence = 8, vtype = kTypeValue\<rparr>) < 0"
  using internal_keys_newest_first [of "\<lparr>user_key = [1], sequence = 9, vtype = kTypeDeletion\<rparr>"
      "\<lparr>user_key = [1], sequence = 8, vtype = kTypeValue\<rparr>"]
  by (simp add: valid_seq_iff)

text \<open>
  C37: parsing an internal key gives back the user key, sequence number and type it was
  made of, for every sequence number of at most 56 bits.
\<close>

theorem internal_key_round_trip:
  assumes "valid_seq (sequence k)"
  shows "ParseInternalKey (AppendInternalKey [] k) = Some k"
  using assms by (rule ParseInternalKey_AppendInternalKey)

theorem internal_key_round_trip_witness:
  "ParseInternalKey (AppendInternalKey [] \<lparr>user_key = [7, 8], sequence = 300, vtype = kTypeValue\<rparr>) =
     Some \<lparr>user_key = [7, 8], sequence = 300, vtype = kTypeValue\<rparr>"
  by (rule internal_key_round_trip) (simp add: valid_seq_iff)

text \<open>
  C33: the separator of two internal keys in order is an internal key at or after the first
  and before the second, and the successor of an internal key is not before it.
\<close>

theorem internal_key_separator:
  assumes "valid_ikey a" and "valid_ikey b" and "bytewise_ikc a b < 0"
  shows "valid_ikey (bytewise_isep a b) \<and> bytewise_ikc a (bytewise_isep a b) \<le> 0 \<and>
    bytewise_ikc (bytewise_isep a b) b < 0 \<and>
    valid_ikey (bytewise_isucc a) \<and> bytewise_ikc a (bytewise_isucc a) \<le> 0"
  using assms
  by (intro conjI bytewise_user.ikc.sep_valid bytewise_user.ikc.sep_ge bytewise_user.ikc.sep_less
      bytewise_user.ikc.succ_valid bytewise_user.ikc.succ_ge)

theorem internal_key_separator_witness:
  "bytewise_ikc (bytewise_isep [1, 0, 0, 0, 0, 0, 0, 0, 0] [5, 0, 0, 0, 0, 0, 0, 0, 0]) [5, 0, 0, 0, 0, 0, 0, 0, 0] < 0"
proof -
  have "valid_ikey [1, 0, 0, 0, 0, 0, 0, 0, 0]" "valid_ikey [5, 0, 0, 0, 0, 0, 0, 0, 0]"
    by (simp_all add: valid_ikey_def)
  moreover have "bytewise_ikc [1, 0, 0, 0, 0, 0, 0, 0, 0] [5, 0, 0, 0, 0, 0, 0, 0, 0] < 0"
    by (simp add: InternalKeyComparator_Compare_less ExtractUserKey_def Bytewise_Compare_def Slice_compare_order)
  ultimately show ?thesis using internal_key_separator by blast
qed

end
