(* ===== verification/Filters.thy ===== *)
theory Filters
  imports DBFormat
begin

text \<open>
  Hashing and filters: \<^verbatim>\<open>util/hash.cc\<close>, \<^verbatim>\<open>util/bloom.cc\<close>, \<^verbatim>\<open>InternalFilterPolicy\<close> of
  \<^verbatim>\<open>db/dbformat.cc\<close>, \<^verbatim>\<open>table/filter_block.h\<close> and \<^verbatim>\<open>table/filter_block.cc\<close>. A filter policy (an
  abstract class in the code) is a record of its two virtual functions. \<open>Hash\<close> adds the bytes
  of the tail as plain \<^verbatim>\<open>char\<close>, whose sign depends on the platform: the flag \<open>signed_char\<close> is a
  parameter of it and of all that uses it. Sizes are natural numbers: the filters of one
  table are far smaller than the address space.
\<close>

section \<open>Hash\<close>

definition hash_m :: u32 where
  "hash_m = 0xc6a4a793"

fun Hash_words :: "u32 \<Rightarrow> bytes \<Rightarrow> u32 \<times> bytes" where
  "Hash_words h data =
     (if 4 \<le> length data then
        let w = DecodeFixed32 data;
            h = h + w;
            h = h * hash_m;
            h = h XOR drop_bit 16 h
        in Hash_words h (drop 4 data)
      else (h, data))"

declare Hash_words.simps [simp del]

definition char_value :: "bool \<Rightarrow> byte \<Rightarrow> u32" where
  "char_value signed_char b = (if signed_char then scast b else ucast b)"

definition Hash_tail :: "bool \<Rightarrow> u32 \<Rightarrow> bytes \<Rightarrow> u32" where
  "Hash_tail signed_char h data =
     (let h = (if length data = 3 then h + push_bit 16 (char_value signed_char (data ! 2)) else h);
          h = (if length data \<in> {2, 3} then h + push_bit 8 (char_value signed_char (data ! 1)) else h)
      in if length data \<in> {1, 2, 3}
         then let h = h + char_value signed_char (data ! 0); h = h * hash_m in h XOR drop_bit 24 h
         else h)"

definition Hash :: "bool \<Rightarrow> bytes \<Rightarrow> u32 \<Rightarrow> u32" where
  "Hash signed_char data seed =
     (case Hash_words (seed XOR (word_of_nat (length data) * hash_m)) data of
        (h, rest) \<Rightarrow> Hash_tail signed_char h rest)"

section \<open>Filter policies\<close>

record FilterPolicy =
  CreateFilter :: "bytes list \<Rightarrow> bytes \<Rightarrow> bytes"
  KeyMayMatch :: "bytes \<Rightarrow> bytes \<Rightarrow> bool"

subsection \<open>Bloom filters\<close>

definition BloomHash :: "bool \<Rightarrow> bytes \<Rightarrow> u32" where
  "BloomHash signed_char key = Hash signed_char key 0xbc9f1d34"

text \<open>
  The number of probes. The code multiplies by the double 0.69; up to 43 the product is at
  least 1/100 away from the next integer, so rounding down gives the quotient below, and
  from 44 on it is capped at 30.
\<close>

definition bloom_k :: "nat \<Rightarrow> nat" where
  "bloom_k bits_per_key =
     (let k = bits_per_key * 69 div 100; k = (if k < 1 then 1 else k) in if k > 30 then 30 else k)"

definition bloom_delta :: "u32 \<Rightarrow> u32" where
  "bloom_delta h = drop_bit 17 h OR push_bit 15 h"

fun bloom_set :: "nat \<Rightarrow> nat \<Rightarrow> u32 \<Rightarrow> u32 \<Rightarrow> bytes \<Rightarrow> bytes" where
  "bloom_set 0 bits h delta arr = arr"
| "bloom_set (Suc j) bits h delta arr =
     (let bitpos = unat h mod bits
      in bloom_set j bits (h + delta) delta
           (arr[bitpos div 8 := arr ! (bitpos div 8) OR push_bit (bitpos mod 8) 1]))"

definition bloom_add :: "bool \<Rightarrow> nat \<Rightarrow> nat \<Rightarrow> bytes \<Rightarrow> bytes \<Rightarrow> bytes" where
  "bloom_add signed_char k bits arr key =
     (let h = BloomHash signed_char key in bloom_set k bits h (bloom_delta h) arr)"

definition Bloom_CreateFilter :: "bool \<Rightarrow> nat \<Rightarrow> bytes list \<Rightarrow> bytes \<Rightarrow> bytes" where
  "Bloom_CreateFilter signed_char bits_per_key keys dst =
     (let k = bloom_k bits_per_key;
          bits = length keys * bits_per_key;
          bits = (if bits < 64 then 64 else bits);
          nbytes = (bits + 7) div 8;
          bits = nbytes * 8
      in dst @ foldl (bloom_add signed_char k bits) (replicate nbytes 0) keys @ [word_of_nat k])"

fun bloom_test :: "nat \<Rightarrow> nat \<Rightarrow> u32 \<Rightarrow> u32 \<Rightarrow> bytes \<Rightarrow> bool" where
  "bloom_test 0 bits h delta arr = True"
| "bloom_test (Suc j) bits h delta arr =
     (let bitpos = unat h mod bits
      in if arr ! (bitpos div 8) AND push_bit (bitpos mod 8) 1 = 0 then False
         else bloom_test j bits (h + delta) delta arr)"

text \<open>A probe count above 30, also one read as a negative \<^verbatim>\<open>char\<close>, is treated as a match.\<close>

definition Bloom_KeyMayMatch :: "bool \<Rightarrow> bytes \<Rightarrow> bytes \<Rightarrow> bool" where
  "Bloom_KeyMayMatch signed_char key bloom_filter =
     (let len = length bloom_filter in
      if len < 2 then False
      else
        let bits = (len - 1) * 8;
            k = unat (bloom_filter ! (len - 1))
        in if k > 30 then True
           else let h = BloomHash signed_char key in bloom_test k bits h (bloom_delta h) bloom_filter)"

definition NewBloomFilterPolicy :: "bool \<Rightarrow> nat \<Rightarrow> FilterPolicy" where
  "NewBloomFilterPolicy signed_char bits_per_key =
     \<lparr>CreateFilter = Bloom_CreateFilter signed_char bits_per_key,
      KeyMayMatch = Bloom_KeyMayMatch signed_char\<rparr>"

subsection \<open>Filters on internal keys\<close>

definition InternalFilterPolicy :: "FilterPolicy \<Rightarrow> FilterPolicy" where
  "InternalFilterPolicy user_policy =
     \<lparr>CreateFilter = (\<lambda>keys dst. CreateFilter user_policy (map ExtractUserKey keys) dst),
      KeyMayMatch = (\<lambda>key f. KeyMayMatch user_policy (ExtractUserKey key) f)\<rparr>"

section \<open>Filter blocks\<close>

definition kFilterBaseLg :: nat where
  "kFilterBaseLg = 11"

definition kFilterBase :: u64 where
  "kFilterBase = push_bit kFilterBaseLg 1"

record FilterBlockBuilder =
  fb_keys :: bytes
  fb_start :: "nat list"
  fb_result :: bytes
  filter_offsets :: "u32 list"

definition FilterBlockBuilder_new :: FilterBlockBuilder where
  "FilterBlockBuilder_new = \<lparr>fb_keys = [], fb_start = [], fb_result = [], filter_offsets = []\<rparr>"

definition GenerateFilter :: "FilterPolicy \<Rightarrow> FilterBlockBuilder \<Rightarrow> FilterBlockBuilder" where
  "GenerateFilter policy b =
     (let num_keys = length (fb_start b) in
      if num_keys = 0
      then b\<lparr>filter_offsets := filter_offsets b @ [word_of_nat (length (fb_result b))]\<rparr>
      else
        let start = fb_start b @ [length (fb_keys b)];
            tmp_keys = map (\<lambda>i. take (start ! (i + 1) - start ! i) (drop (start ! i) (fb_keys b))) [0..<num_keys]
        in b\<lparr>filter_offsets := filter_offsets b @ [word_of_nat (length (fb_result b))],
             fb_result := CreateFilter policy tmp_keys (fb_result b),
             fb_keys := [], fb_start := []\<rparr>)"

lemma length_GenerateFilter [simp]:
  "length (filter_offsets (GenerateFilter policy b)) = Suc (length (filter_offsets b))"
  by (simp add: GenerateFilter_def Let_def)

function FillFilters :: "FilterPolicy \<Rightarrow> nat \<Rightarrow> FilterBlockBuilder \<Rightarrow> FilterBlockBuilder" where
  "FillFilters policy filter_index b =
     (if filter_index > length (filter_offsets b)
      then FillFilters policy filter_index (GenerateFilter policy b) else b)"
  by pat_completeness auto
termination
  by (relation "measure (\<lambda>(p, n, b). n - length (filter_offsets b))") auto

declare FillFilters.simps [simp del]

definition StartBlock :: "FilterPolicy \<Rightarrow> u64 \<Rightarrow> FilterBlockBuilder \<Rightarrow> FilterBlockBuilder" where
  "StartBlock policy block_offset b = FillFilters policy (unat (block_offset div kFilterBase)) b"

definition AddKey :: "FilterBlockBuilder \<Rightarrow> bytes \<Rightarrow> FilterBlockBuilder" where
  "AddKey b key = b\<lparr>fb_start := fb_start b @ [length (fb_keys b)], fb_keys := fb_keys b @ key\<rparr>"

definition FilterBlock_Finish :: "FilterPolicy \<Rightarrow> FilterBlockBuilder \<Rightarrow> bytes" where
  "FilterBlock_Finish policy b =
     (let b = (if fb_start b \<noteq> [] then GenerateFilter policy b else b);
          array_offset = word_of_nat (length (fb_result b)) :: u32;
          result = foldl PutFixed32 (fb_result b) (filter_offsets b);
          result = PutFixed32 result array_offset
      in result @ [word_of_nat kFilterBaseLg])"

record FilterBlockReader =
  fr_contents :: bytes
  fr_offset :: nat
  fr_num :: nat
  base_lg :: nat

definition FilterBlockReader_new :: "bytes \<Rightarrow> FilterBlockReader" where
  "FilterBlockReader_new contents =
     (let n = length contents;
          r = \<lparr>fr_contents = [], fr_offset = 0, fr_num = 0, base_lg = 0\<rparr>
      in if n < 5 then r
         else
           let r = r\<lparr>base_lg := unat (contents ! (n - 1))\<rparr>;
               last_word = unat (DecodeFixed32 (drop (n - 5) contents))
           in if last_word > n - 5 then r
              else r\<lparr>fr_contents := contents, fr_offset := last_word, fr_num := (n - 5 - last_word) div 4\<rparr>)"

definition FilterBlock_KeyMayMatch :: "FilterPolicy \<Rightarrow> FilterBlockReader \<Rightarrow> u64 \<Rightarrow> bytes \<Rightarrow> bool" where
  "FilterBlock_KeyMayMatch policy r block_offset key =
     (let index = unat (drop_bit (base_lg r) block_offset) in
      if index < fr_num r then
        let start = unat (DecodeFixed32 (drop (fr_offset r + index * 4) (fr_contents r)));
            limit = unat (DecodeFixed32 (drop (fr_offset r + index * 4 + 4) (fr_contents r)))
        in if start \<le> limit \<and> limit \<le> fr_offset r
           then KeyMayMatch policy key (take (limit - start) (drop start (fr_contents r)))
           else if start = limit then False else True
      else True)"

section \<open>Bloom filters have no false negatives\<close>

definition has_bit :: "bytes \<Rightarrow> nat \<Rightarrow> bool" where
  "has_bit arr p \<longleftrightarrow> bit (arr ! (p div 8)) (p mod 8)"

lemma has_bit_update:
  assumes "p div 8 < length arr"
  shows "has_bit (arr[p div 8 := arr ! (p div 8) OR push_bit (p mod 8) 1]) q \<longleftrightarrow> has_bit arr q \<or> q = p"
proof -
  have "p mod 8 < 8" by simp
  moreover have "q = p \<longleftrightarrow> q div 8 = p div 8 \<and> q mod 8 = p mod 8" by (metis div_mult_mod_eq)
  ultimately show ?thesis
    using assms by (cases "q div 8 = p div 8") (auto simp: has_bit_def bit_simps nth_list_update)
qed

lemma bloom_set_bits:
  assumes "bits = 8 * length arr" "arr \<noteq> []"
  shows "length (bloom_set k bits h d arr) = length arr \<and> (\<forall>q. has_bit arr q \<longrightarrow> has_bit (bloom_set k bits h d arr) q)"
  using assms
proof (induction k arbitrary: h arr)
  case (Suc k)
  then have "(unat h mod bits) div 8 < length arr"
    by (metis div_less_iff_less_mult length_greater_0_conv mod_less_divisor mult.commute nat_0_less_mult_iff zero_less_numeral)
  then show ?case
    using Suc.IH [of "arr[unat h mod bits div 8 := arr ! (unat h mod bits div 8) OR push_bit (unat h mod bits mod 8) 1]" "h + d"]
      Suc.prems has_bit_update [of "unat h mod bits" arr]
    by (simp add: Let_def)
qed simp

lemma bloom_test_iff: "bloom_test k bits h d arr \<longleftrightarrow> (\<forall>j < k. has_bit arr (unat (h + of_nat j * d) mod bits))"
proof (induction k arbitrary: h)
  case (Suc k)
  show ?case
    unfolding All_less_Suc2
    by (simp add: Let_def and_exp_eq_0_iff_not_bit has_bit_def Suc algebra_simps)
qed simp

lemma bloom_test_mono:
  assumes "bloom_test k bits h d arr" and "\<forall>q. has_bit arr q \<longrightarrow> has_bit arr' q"
  shows "bloom_test k bits h d arr'"
  using assms by (simp add: bloom_test_iff)

lemma bloom_test_set:
  assumes "bits = 8 * length arr" "arr \<noteq> []"
  shows "bloom_test k bits h d (bloom_set k bits h d arr)"
  using assms
proof (induction k arbitrary: h arr)
  case (Suc k)
  let ?p = "unat h mod bits"
  let ?arr = "arr[?p div 8 := arr ! (?p div 8) OR push_bit (?p mod 8) 1]"
  have "?p div 8 < length arr"
    using Suc.prems by (metis div_less_iff_less_mult length_greater_0_conv mod_less_divisor mult.commute
        nat_0_less_mult_iff zero_less_numeral)
  then have "has_bit ?arr ?p" using has_bit_update by blast
  then have "has_bit (bloom_set k bits (h + d) d ?arr) ?p"
    using bloom_set_bits [of bits ?arr k "h + d" d] Suc.prems by simp
  then show ?case
    using Suc.IH [of ?arr "h + d"] Suc.prems by (simp add: Let_def and_exp_eq_0_iff_not_bit has_bit_def)
qed simp

lemma bloom_add_bits:
  assumes "bits = 8 * length arr" "arr \<noteq> []"
  shows "length (bloom_add sc k bits arr key) = length arr"
    and "has_bit arr q \<Longrightarrow> has_bit (bloom_add sc k bits arr key) q"
  using bloom_set_bits [OF assms] by (simp_all add: bloom_add_def Let_def)

lemma bloom_adds_bits:
  assumes "bits = 8 * length arr" "arr \<noteq> []"
  shows "length (foldl (bloom_add sc k bits) arr keys) = length arr \<and>
    (\<forall>q. has_bit arr q \<longrightarrow> has_bit (foldl (bloom_add sc k bits) arr keys) q)"
  using assms
proof (induction keys arbitrary: arr)
  case (Cons key keys)
  note one = bloom_add_bits [OF Cons.prems, where sc = sc and k = k and key = key]
  have "bloom_add sc k bits arr key \<noteq> []" using one(1) Cons.prems by (metis length_0_conv)
  with Cons.IH [of "bloom_add sc k bits arr key"] one Cons.prems show ?case by simp
qed simp

lemma bloom_test_adds:
  assumes "bits = 8 * length arr" "arr \<noteq> []" "key \<in> set keys"
  shows "bloom_test k bits (BloomHash sc key) (bloom_delta (BloomHash sc key)) (foldl (bloom_add sc k bits) arr keys)"
  using assms
proof (induction keys arbitrary: arr)
  case (Cons x keys)
  let ?arr = "bloom_add sc k bits arr x"
  have l: "length ?arr = length arr" using bloom_add_bits Cons.prems by blast
  then have arr: "bits = 8 * length ?arr" "?arr \<noteq> []" using Cons.prems by (metis length_0_conv)+
  show ?case
  proof (cases "key \<in> set keys")
    case True
    with Cons.IH [OF arr] show ?thesis by simp
  next
    case False
    with Cons.prems have "key = x" by simp
    then have "bloom_test k bits (BloomHash sc key) (bloom_delta (BloomHash sc key)) ?arr"
      using bloom_test_set Cons.prems by (simp add: bloom_add_def Let_def)
    with bloom_adds_bits [OF arr] bloom_test_mono show ?thesis by fastforce
  qed
qed simp

lemma bloom_k_bounds: "1 \<le> bloom_k n \<and> bloom_k n \<le> 30"
  by (simp add: bloom_k_def Let_def)

lemma bloom_test_append:
  "bits = 8 * length arr \<Longrightarrow> arr \<noteq> [] \<Longrightarrow> bloom_test k bits h d (arr @ rest) = bloom_test k bits h d arr"
proof -
  assume *: "bits = 8 * length arr" "arr \<noteq> []"
  have "(n mod bits) div 8 < length arr" for n
    using * by (metis div_less_iff_less_mult length_greater_0_conv mod_less_divisor mult.commute
        nat_0_less_mult_iff zero_less_numeral)
  then show ?thesis by (simp add: bloom_test_iff has_bit_def nth_append)
qed

lemma Bloom_no_false_negative:
  assumes "key \<in> set keys"
  shows "Bloom_KeyMayMatch sc key (Bloom_CreateFilter sc n keys [])"
proof -
  define nb where "nb = ((if length keys * n < 64 then 64 else length keys * n) + 7) div 8"
  define arr where "arr = foldl (bloom_add sc (bloom_k n) (nb * 8)) (replicate nb 0) keys"
  have nb: "8 \<le> nb" by (auto simp: nb_def)
  then have init: "nb * 8 = 8 * length (replicate nb (0 :: byte))" "replicate nb (0 :: byte) \<noteq> []" by auto
  have len: "length arr = nb" using bloom_adds_bits [OF init] by (simp add: arr_def)
  then have arr: "nb * 8 = 8 * length arr" "arr \<noteq> []" using nb by auto
  have f: "Bloom_CreateFilter sc n keys [] = arr @ [word_of_nat (bloom_k n)]"
    by (simp add: Bloom_CreateFilter_def Let_def arr_def nb_def)
  have k: "unat (word_of_nat (bloom_k n) :: byte) = bloom_k n"
    using bloom_k_bounds [of n] by (simp add: unat_of_nat take_bit_nat_eq_self)
  show ?thesis
    using nb len bloom_k_bounds [of n] bloom_test_append [OF arr] bloom_test_adds [OF init assms]
    by (simp add: Bloom_KeyMayMatch_def f k Let_def arr_def nth_append)
qed

lemma length_Bloom_CreateFilter:
  "length (Bloom_CreateFilter sc n keys dst) =
     length dst + ((if length keys * n < 64 then 64 else length keys * n) + 7) div 8 + 1"
proof -
  define nb where "nb = ((if length keys * n < 64 then 64 else length keys * n) + 7) div 8"
  have "0 < nb" by (auto simp: nb_def)
  then have "length (foldl (bloom_add sc (bloom_k n) (nb * 8)) (replicate nb 0) keys) = nb"
    using bloom_adds_bits [of "nb * 8" "replicate nb 0"] by simp
  then show ?thesis by (simp add: Bloom_CreateFilter_def Let_def flip: nb_def)
qed

section \<open>What a filter policy promises\<close>

text \<open>
  The contract of \<^verbatim>\<open>leveldb/filter_policy.h\<close>: \<open>CreateFilter\<close> appends a filter to what is there, and
  a filter matches every key it was made of.
\<close>

locale filter_policy =
  fixes policy :: FilterPolicy
  assumes create_append: "CreateFilter policy keys dst = dst @ CreateFilter policy keys []"
    and no_false_negative: "key \<in> set keys \<Longrightarrow> KeyMayMatch policy key (CreateFilter policy keys [])"
begin

lemma internal_policy: "filter_policy (InternalFilterPolicy policy)"
  by unfold_locales
    (simp_all add: InternalFilterPolicy_def create_append [symmetric] no_false_negative)

end

interpretation bloom: filter_policy "NewBloomFilterPolicy signed_char bits_per_key"
  for signed_char bits_per_key
  by unfold_locales (simp_all add: NewBloomFilterPolicy_def Bloom_no_false_negative,
      simp add: Bloom_CreateFilter_def Let_def)

interpretation bloom_internal: filter_policy "InternalFilterPolicy (NewBloomFilterPolicy signed_char bits_per_key)"
  for signed_char bits_per_key
  by (rule bloom.internal_policy)

section \<open>Filter blocks keep what the policy promises\<close>

text \<open>
  The abstract state of a builder: the keys of every filter generated so far and the keys
  added since.
\<close>

definition filter_bytes :: "FilterPolicy \<Rightarrow> bytes list \<Rightarrow> bytes" where
  "filter_bytes policy ks = (if ks = [] then [] else CreateFilter policy ks [])"

definition filters_size :: "FilterPolicy \<Rightarrow> bytes list list \<Rightarrow> nat" where
  "filters_size policy F = length (concat (map (filter_bytes policy) F))"

definition key_starts :: "bytes list \<Rightarrow> nat list" where
  "key_starts P = map (\<lambda>i. length (concat (take i P))) [0..<length P]"

definition fb_inv :: "FilterPolicy \<Rightarrow> FilterBlockBuilder \<Rightarrow> bytes list list \<Rightarrow> bytes list \<Rightarrow> bool" where
  "fb_inv policy b F P \<longleftrightarrow> fb_keys b = concat P \<and> fb_start b = key_starts P \<and>
     fb_result b = concat (map (filter_bytes policy) F) \<and>
     filter_offsets b = map (\<lambda>i. word_of_nat (filters_size policy (take i F))) [0..<length F]"

definition placed :: "bytes list list \<Rightarrow> bytes list \<Rightarrow> nat \<Rightarrow> bytes \<Rightarrow> bool" where
  "placed F P i k \<longleftrightarrow> i < length F \<and> k \<in> set (F ! i) \<or> i = length F \<and> k \<in> set P"

fun FilterBlock_build :: "FilterPolicy \<Rightarrow> FilterBlockBuilder \<Rightarrow> (u64 \<times> bytes list) list \<Rightarrow> FilterBlockBuilder" where
  "FilterBlock_build policy b [] = b"
| "FilterBlock_build policy b ((off, ks) # blocks) =
     FilterBlock_build policy (foldl AddKey (StartBlock policy off b) ks) blocks"

lemma key_starts_snoc: "key_starts (P @ [k]) = key_starts P @ [length (concat P)]"
  by (simp add: key_starts_def)

lemma key_starts_eq_Nil [simp]: "key_starts P = [] \<longleftrightarrow> P = []"
  by (simp add: key_starts_def)

lemma length_key_starts [simp]: "length (key_starts P) = length P"
  by (simp add: key_starts_def)

lemma concat_take_Suc: "i < length P \<Longrightarrow> concat (take (Suc i) P) = concat (take i P) @ P ! i"
  by (simp add: take_Suc_conv_app_nth)

lemma take_drop_concat:
  assumes "i < length P"
  shows "take (length (concat (take (Suc i) P)) - length (concat (take i P)))
    (drop (length (concat (take i P))) (concat P @ rest)) = P ! i"
proof -
  have "concat P = concat (take i P) @ P ! i @ concat (drop (Suc i) P)"
    by (metis assms concat.simps(2) concat_append id_take_nth_drop)
  then show ?thesis using assms by (simp add: concat_take_Suc)
qed

lemma keys_from_starts:
  "map (\<lambda>i. take ((key_starts P @ [length (concat P)]) ! (i + 1) - (key_starts P @ [length (concat P)]) ! i)
     (drop ((key_starts P @ [length (concat P)]) ! i) (concat P))) [0..<length P] = P"
proof (rule nth_equalityI)
  fix i assume "i < length (map (\<lambda>i. take ((key_starts P @ [length (concat P)]) ! (i + 1) - (key_starts P @ [length (concat P)]) ! i)
     (drop ((key_starts P @ [length (concat P)]) ! i) (concat P))) [0..<length P])"
  then have i: "i < length P" by simp
  have nth: "(key_starts P @ [length (concat P)]) ! j = length (concat (take j P))" if "j \<le> length P" for j
    using that by (cases "j = length P") (simp_all add: key_starts_def nth_append)
  show "map (\<lambda>i. take ((key_starts P @ [length (concat P)]) ! (i + 1) - (key_starts P @ [length (concat P)]) ! i)
     (drop ((key_starts P @ [length (concat P)]) ! i) (concat P))) [0..<length P] ! i = P ! i"
    using i take_drop_concat [OF i, of "[]"] by (simp add: nth del: take_Suc)
qed simp

lemma fb_inv_new: "fb_inv policy FilterBlockBuilder_new [] []"
  by (simp add: fb_inv_def FilterBlockBuilder_new_def key_starts_def)

lemma fb_inv_AddKey: "fb_inv policy b F P \<Longrightarrow> fb_inv policy (AddKey b k) F (P @ [k])"
  by (simp add: fb_inv_def AddKey_def key_starts_snoc)

lemma fb_inv_AddKeys: "fb_inv policy b F P \<Longrightarrow> fb_inv policy (foldl AddKey b ks) F (P @ ks)"
proof (induction ks arbitrary: b P)
  case (Cons k ks)
  from Cons.IH [OF fb_inv_AddKey [OF Cons.prems]] show ?case by simp
qed simp

context filter_policy
begin

lemma fb_inv_GenerateFilter:
  assumes "fb_inv policy b F P"
  shows "fb_inv policy (GenerateFilter policy b) (F @ [P]) []"
  using assms keys_from_starts [of P] create_append [of P "concat (map (filter_bytes policy) F)"]
  by (auto simp: fb_inv_def GenerateFilter_def Let_def filter_bytes_def filters_size_def key_starts_def [of "[]"])

lemma fb_inv_FillFilters:
  assumes "fb_inv policy b F P" "length F \<le> n"
  shows "\<exists>F' P'. fb_inv policy (FillFilters policy n b) F' P' \<and> length F' = n \<and>
    (\<forall>i k. placed F P i k \<longrightarrow> placed F' P' i k)"
  using assms
proof (induction "n - length F" arbitrary: b F P)
  case 0
  then have "length (filter_offsets b) = n" by (simp add: fb_inv_def)
  with 0 show ?case by (subst FillFilters.simps) auto
next
  case (Suc m)
  then have len: "length (filter_offsets b) < n" by (simp add: fb_inv_def)
  have "\<exists>F' P'. fb_inv policy (FillFilters policy n (GenerateFilter policy b)) F' P' \<and> length F' = n \<and>
    (\<forall>i k. placed (F @ [P]) [] i k \<longrightarrow> placed F' P' i k)"
    using Suc fb_inv_GenerateFilter [OF Suc.prems(1)] by (intro Suc.hyps(1)) simp_all
  moreover have "placed F P i k \<Longrightarrow> placed (F @ [P]) [] i k" for i k
    by (auto simp: placed_def nth_append)
  ultimately show ?case using len by (subst FillFilters.simps) (simp, blast)
qed

lemma fb_inv_build:
  assumes "fb_inv policy b F P" "sorted (map (unat \<circ> fst) blocks)"
    and "\<forall>(off, ks) \<in> set blocks. length F \<le> unat (off div kFilterBase)"
  shows "\<exists>F' P'. fb_inv policy (FilterBlock_build policy b blocks) F' P' \<and>
    (\<forall>i k. placed F P i k \<longrightarrow> placed F' P' i k) \<and>
    (\<forall>(off, ks) \<in> set blocks. \<forall>k \<in> set ks. placed F' P' (unat (off div kFilterBase)) k)"
  using assms
proof (induction blocks arbitrary: b F P)
  case Nil
  then show ?case by auto
next
  case (Cons blk blocks)
  obtain off ks where blk: "blk = (off, ks)" by (cases blk)
  obtain F1 P1 where 1: "fb_inv policy (StartBlock policy off b) F1 P1" "length F1 = unat (off div kFilterBase)"
    "\<forall>i k. placed F P i k \<longrightarrow> placed F1 P1 i k"
    using fb_inv_FillFilters [OF Cons.prems(1), of "unat (off div kFilterBase)"] Cons.prems(3)
    unfolding blk StartBlock_def by auto
  have "\<forall>(off', ks) \<in> set blocks. length F1 \<le> unat (off' div kFilterBase)"
    using Cons.prems(2) 1(2) by (auto simp: blk unat_div div_le_mono)
  with Cons.IH [OF fb_inv_AddKeys [OF 1(1), of ks]] Cons.prems(2)
  obtain F' P' where 2: "fb_inv policy (FilterBlock_build policy b (blk # blocks)) F' P'"
    "\<forall>i k. placed F1 (P1 @ ks) i k \<longrightarrow> placed F' P' i k"
    "\<forall>(off, ks) \<in> set blocks. \<forall>k \<in> set ks. placed F' P' (unat (off div kFilterBase)) k"
    by (auto simp: blk)
  have "placed F1 P1 i k \<Longrightarrow> placed F1 (P1 @ ks) i k" for i k by (auto simp: placed_def)
  moreover have "k \<in> set ks \<Longrightarrow> placed F1 (P1 @ ks) (unat (off div kFilterBase)) k" for k
    using 1(2) by (simp add: placed_def)
  ultimately show ?case using 1(3) 2 by (intro exI [of _ F'] exI [of _ P']) (auto simp: blk)
qed

end

text \<open>The bytes of a finished block: the filters, their offsets, the end of the last one, the parameter.\<close>

definition filter_ends :: "FilterPolicy \<Rightarrow> bytes list list \<Rightarrow> u32 list" where
  "filter_ends policy F = map (\<lambda>i. word_of_nat (filters_size policy (take i F))) [0..<Suc (length F)]"

definition filter_block_bytes :: "FilterPolicy \<Rightarrow> bytes list list \<Rightarrow> bytes" where
  "filter_block_bytes policy F = concat (map (filter_bytes policy) F) @
     concat (map EncodeFixed32 (filter_ends policy F)) @ [11]"

lemma length_filter_ends [simp]: "length (filter_ends policy F) = Suc (length F)"
  by (simp add: filter_ends_def)

lemma filter_ends_nth: "i \<le> length F \<Longrightarrow> filter_ends policy F ! i = word_of_nat (filters_size policy (take i F))"
  by (simp add: filter_ends_def less_Suc_eq_le del: upt_Suc)

lemma filter_ends_last: "filter_ends policy F =
    map (\<lambda>i. word_of_nat (filters_size policy (take i F))) [0..<length F] @ [word_of_nat (filters_size policy F)]"
  by (simp add: filter_ends_def)

lemma drop_filter_ends: "drop (length F) (filter_ends policy F) = [word_of_nat (filters_size policy F)]"
  by (simp add: filter_ends_last)

lemma foldl_PutFixed32: "foldl PutFixed32 dst ws = dst @ concat (map EncodeFixed32 ws)"
  by (induction ws arbitrary: dst) (simp_all add: PutFixed32_def)

lemma length_fixed32s [simp]: "length (concat (map EncodeFixed32 ws)) = 4 * length ws"
  by (induction ws) simp_all

lemma drop_fixed32s: "drop (4 * i) (concat (map EncodeFixed32 ws)) = concat (map EncodeFixed32 (drop i ws))"
proof (induction i arbitrary: ws)
  case (Suc i)
  then show ?case by (cases ws) simp_all
qed simp

lemma DecodeFixed32_nth:
  "i < length ws \<Longrightarrow> DecodeFixed32 (drop (length p + 4 * i) (p @ concat (map EncodeFixed32 ws) @ rest)) = ws ! i"
  by (simp add: drop_fixed32s flip: Cons_nth_drop_Suc)

lemma filters_size_take_le: "filters_size policy (take i F) \<le> filters_size policy F"
proof -
  have "filters_size policy F = filters_size policy (take i F) + filters_size policy (drop i F)"
    by (metis append_take_drop_id concat_append filters_size_def length_append map_append)
  then show ?thesis by simp
qed

lemma filter_block_reader:
  assumes "filters_size policy F < 2 ^ 32"
  shows "FilterBlockReader_new (filter_block_bytes policy F) =
    \<lparr>fr_contents = filter_block_bytes policy F, fr_offset = filters_size policy F, fr_num = length F, base_lg = 11\<rparr>"
proof -
  let ?c = "filter_block_bytes policy F"
  have n: "length ?c = filters_size policy F + 4 * length F + 5"
    by (simp add: filter_block_bytes_def filters_size_def)
  have "drop (length ?c - 5) ?c = EncodeFixed32 (word_of_nat (filters_size policy F)) @ [11]"
    unfolding n by (simp add: filter_block_bytes_def filters_size_def [of _ F, symmetric] drop_fixed32s drop_filter_ends)
  then have "unat (DecodeFixed32 (drop (length ?c - 5) ?c)) = filters_size policy F"
    using assms by (simp add: unat_of_nat take_bit_nat_eq_self)
  moreover have "?c ! (length ?c - 1) = 11"
    using n by (simp add: filter_block_bytes_def filters_size_def nth_append)
  ultimately show ?thesis unfolding FilterBlockReader_new_def Let_def n by simp
qed


context filter_policy
begin

lemma fb_inv_Finish:
  assumes "fb_inv policy b F P"
  shows "FilterBlock_Finish policy b = filter_block_bytes policy (if P = [] then F else F @ [P])"
proof -
  have fin: "fb_inv policy b' F' [] \<Longrightarrow>
      PutFixed32 (foldl PutFixed32 (fb_result b') (filter_offsets b')) (word_of_nat (length (fb_result b'))) @ [11] =
      filter_block_bytes policy F'" for b' F'
    by (simp add: fb_inv_def filter_block_bytes_def foldl_PutFixed32 PutFixed32_def filters_size_def filter_ends_last)
  show ?thesis
    using fin [of b F] fin [OF fb_inv_GenerateFilter [OF assms]] assms
    by (auto simp: FilterBlock_Finish_def Let_def kFilterBaseLg_def fb_inv_def)
qed

lemma filter_block_matches:
  assumes "filters_size policy F < 2 ^ 32" "i < length F" "k \<in> set (F ! i)" "i = unat (drop_bit 11 off)"
  shows "FilterBlock_KeyMayMatch policy (FilterBlockReader_new (filter_block_bytes policy F)) off k"
proof -
  let ?c = "filter_block_bytes policy F"
  have dec: "unat (DecodeFixed32 (drop (filters_size policy F + j * 4) ?c)) = filters_size policy (take j F)"
    if "j \<le> length F" for j
    using that assms(1) filters_size_take_le [of policy j F]
      DecodeFixed32_nth [of j "filter_ends policy F" "concat (map (filter_bytes policy) F)" "[11]"]
    by (simp add: filter_block_bytes_def filters_size_def [of _ F] filter_ends_nth mult.commute unat_of_nat
        take_bit_nat_eq_self)
  have "take (filters_size policy (take (Suc i) F) - filters_size policy (take i F))
      (drop (filters_size policy (take i F)) ?c) = filter_bytes policy (F ! i)"
    using take_drop_concat [of i "map (filter_bytes policy) F" "concat (map EncodeFixed32 (filter_ends policy F)) @ [11]"]
      assms(2) unfolding filter_block_bytes_def filters_size_def take_map by simp
  moreover have "filters_size policy (take i F) \<le> filters_size policy (take (Suc i) F)"
    using assms(2) by (simp add: filters_size_def take_Suc_conv_app_nth)
  moreover have "filter_bytes policy (F ! i) = CreateFilter policy (F ! i) []"
    using assms(3) by (auto simp: filter_bytes_def)
  ultimately show ?thesis
    using dec [of i] dec [of "Suc i"] assms filters_size_take_le [of policy "Suc i" F] no_false_negative [OF assms(3)]
    by (simp add: FilterBlock_KeyMayMatch_def filter_block_reader Let_def add.assoc add.commute [of 4])
qed

lemma filter_block_no_false_negative:
  assumes "sorted (map (unat \<circ> fst) blocks)" "(off, ks) \<in> set blocks" "key \<in> set ks"
    and "length (FilterBlock_Finish policy (FilterBlock_build policy FilterBlockBuilder_new blocks)) < 2 ^ 32"
  shows "FilterBlock_KeyMayMatch policy
    (FilterBlockReader_new (FilterBlock_Finish policy (FilterBlock_build policy FilterBlockBuilder_new blocks))) off key"
proof -
  obtain F P where F: "fb_inv policy (FilterBlock_build policy FilterBlockBuilder_new blocks) F P"
    "placed F P (unat (off div kFilterBase)) key"
    using fb_inv_build [OF fb_inv_new assms(1)] assms(2,3) by fastforce
  let ?F = "if P = [] then F else F @ [P]"
  have "unat (off div kFilterBase) = unat (drop_bit 11 off)"
    by (simp add: kFilterBase_def kFilterBaseLg_def unat_div unat_drop_bit_div)
  moreover have "filters_size policy ?F < 2 ^ 32"
    using assms(4) unfolding fb_inv_Finish [OF F(1)] by (simp add: filter_block_bytes_def filters_size_def)
  moreover have "unat (off div kFilterBase) < length ?F \<and> key \<in> set (?F ! unat (off div kFilterBase))"
    using F(2) by (auto simp: placed_def nth_append)
  ultimately show ?thesis
    unfolding fb_inv_Finish [OF F(1)] by (intro filter_block_matches) auto
qed

end


section \<open>Properties\<close>

text \<open>
  C29: a Bloom filter matches every key it was made of, for every number of bits per key
  and on platforms with signed and with unsigned \<^verbatim>\<open>char\<close>; so does the filter on internal keys,
  whatever sequence number the key is looked up with.
\<close>

theorem bloom_filter_no_false_negative:
  assumes "key \<in> set keys"
  shows "Bloom_KeyMayMatch signed_char key (Bloom_CreateFilter signed_char bits_per_key keys []) \<and>
    (\<forall>ikeys ikey. ExtractUserKey ikey \<in> ExtractUserKey ` set ikeys \<longrightarrow>
      KeyMayMatch (InternalFilterPolicy (NewBloomFilterPolicy signed_char bits_per_key)) ikey
        (CreateFilter (InternalFilterPolicy (NewBloomFilterPolicy signed_char bits_per_key)) ikeys []))"
  using Bloom_no_false_negative [OF assms] Bloom_no_false_negative
  by (auto simp: InternalFilterPolicy_def NewBloomFilterPolicy_def)

theorem bloom_filter_no_false_negative_witness:
  "Bloom_KeyMayMatch True [200, 201, 202] (Bloom_CreateFilter True 10 [[1], [200, 201, 202]] [])"
  using bloom_filter_no_false_negative [of "[200, 201, 202]" "[[1], [200, 201, 202]]"] by simp

text \<open>
  C28: in a filter block built over data blocks with increasing offsets, looking up a key at
  the offset of a block that it was added for never answers no, whatever the number of
  blocks and of keys per block, empty filters included (blocks of less than 4 GB).
\<close>

theorem filter_block_finds_keys:
  fixes signed_char bits_per_key
  assumes "sorted (map (unat \<circ> fst) blocks)" and "(off, ks) \<in> set blocks" and "key \<in> set ks"
    and "length (FilterBlock_Finish (InternalFilterPolicy (NewBloomFilterPolicy signed_char bits_per_key))
          (FilterBlock_build (InternalFilterPolicy (NewBloomFilterPolicy signed_char bits_per_key))
            FilterBlockBuilder_new blocks)) < 2 ^ 32"
  shows "FilterBlock_KeyMayMatch (InternalFilterPolicy (NewBloomFilterPolicy signed_char bits_per_key))
    (FilterBlockReader_new
      (FilterBlock_Finish (InternalFilterPolicy (NewBloomFilterPolicy signed_char bits_per_key))
        (FilterBlock_build (InternalFilterPolicy (NewBloomFilterPolicy signed_char bits_per_key))
          FilterBlockBuilder_new blocks))) off key"
  using assms by (rule bloom_internal.filter_block_no_false_negative)

theorem filter_block_finds_keys_witness:
  "FilterBlock_KeyMayMatch (InternalFilterPolicy (NewBloomFilterPolicy False 10))
    (FilterBlockReader_new
      (FilterBlock_Finish (InternalFilterPolicy (NewBloomFilterPolicy False 10))
        (FilterBlock_build (InternalFilterPolicy (NewBloomFilterPolicy False 10))
          FilterBlockBuilder_new [(3000, [[7, 0, 0, 0, 0, 0, 0, 0, 1]])]))) 3000 [7, 0, 0, 0, 0, 0, 0, 0, 1]"
proof (rule filter_block_finds_keys [where ks = "[[7, 0, 0, 0, 0, 0, 0, 0, 1]]"])
  show "length (FilterBlock_Finish (InternalFilterPolicy (NewBloomFilterPolicy False 10))
        (FilterBlock_build (InternalFilterPolicy (NewBloomFilterPolicy False 10))
          FilterBlockBuilder_new [(3000, [[7, 0, 0, 0, 0, 0, 0, 0, 1]])])) < 2 ^ 32"
    by (simp add: FilterBlock_build.simps StartBlock_def FillFilters.simps FilterBlockBuilder_new_def kFilterBase_def
        kFilterBaseLg_def AddKey_def FilterBlock_Finish_def GenerateFilter_def foldl_PutFixed32 PutFixed32_def
        InternalFilterPolicy_def NewBloomFilterPolicy_def length_Bloom_CreateFilter)
qed simp_all

end
