(* ===== verification/Log_Format.thy ===== *)
theory Log_Format
  imports Crc32c Status_Codes Logging
begin

text \<open>
  The write-ahead log: \<^verbatim>\<open>db/log_format.h\<close>, \<^verbatim>\<open>db/log_writer.cc\<close>, \<^verbatim>\<open>db/log_reader.h\<close> and
  \<^verbatim>\<open>db/log_reader.cc\<close>. The log is a sequence of blocks of \<open>kBlockSize\<close> bytes; a record is
  cut into fragments that do not cross blocks. The checksums do not depend on the address
  of the buffer (\<open>Extend_reference\<close>), so the address given to \<open>Extend\<close> here is 0. Types read
  from a file are bytes read as unsigned numbers, as where \<^verbatim>\<open>char\<close> is unsigned.
\<close>

section \<open>Format\<close>

datatype RecordType = kZeroType | kFullType | kFirstType | kMiddleType | kLastType

fun RecordType_code :: "RecordType \<Rightarrow> byte" where
  "RecordType_code kZeroType = 0"
| "RecordType_code kFullType = 1"
| "RecordType_code kFirstType = 2"
| "RecordType_code kMiddleType = 3"
| "RecordType_code kLastType = 4"

definition kMaxRecordType :: u32 where
  "kMaxRecordType = 4"

definition kBlockSize :: nat where
  "kBlockSize = 32768"

definition kHeaderSize :: nat where
  "kHeaderSize = 4 + 1 + 2"

section \<open>Writer\<close>

text \<open>
  The destination file is its contents and the outcomes of the coming calls of \<^verbatim>\<open>Append\<close>
  and \<^verbatim>\<open>Flush\<close>: a status and, for an append that fails, the number of bytes that reached
  the file. With no outcome left a call succeeds.
\<close>

record WritableFile =
  contents :: bytes
  outcomes :: "(Status \<times> nat) list"

definition File_Append :: "WritableFile \<Rightarrow> bytes \<Rightarrow> Status \<times> WritableFile" where
  "File_Append f data =
     (case outcomes f of
        [] \<Rightarrow> (Status_OK, f\<lparr>contents := contents f @ data\<rparr>)
      | (s, n) # os \<Rightarrow>
          (s, f\<lparr>contents := contents f @ (if Status_ok s then data else take n data), outcomes := os\<rparr>))"

definition File_Flush :: "WritableFile \<Rightarrow> Status \<times> WritableFile" where
  "File_Flush f =
     (case outcomes f of [] \<Rightarrow> (Status_OK, f) | (s, n) # os \<Rightarrow> (s, f\<lparr>outcomes := os\<rparr>))"

record Writer =
  dest :: WritableFile
  block_offset :: nat

definition Writer_new :: "WritableFile \<Rightarrow> Writer" where
  "Writer_new f = \<lparr>dest = f, block_offset = 0\<rparr>"

definition type_crc :: "RecordType \<Rightarrow> u32" where
  "type_crc t = Crc_Value 0 [RecordType_code t]"

definition EmitPhysicalRecord :: "Writer \<Rightarrow> RecordType \<Rightarrow> bytes \<Rightarrow> Status \<times> Writer" where
  "EmitPhysicalRecord w t ptr =
     (let n = length ptr;
          crc = Extend 0 (type_crc t) ptr;
          crc = Mask crc;
          buf = EncodeFixed32 crc @ [word_of_nat (n mod 256), word_of_nat (n div 256), RecordType_code t];
          (s, f) = File_Append (dest w) buf;
          (s, f) = (if Status_ok s
                    then (case File_Append f ptr of
                            (s, f) \<Rightarrow> if Status_ok s then File_Flush f else (s, f))
                    else (s, f))
      in (s, w\<lparr>dest := f, block_offset := block_offset w + kHeaderSize + n\<rparr>))"

text \<open>The switch to a new block at the head of the loop; the status of the append is ignored.\<close>

definition SwitchBlock :: "Writer \<Rightarrow> Writer" where
  "SwitchBlock w =
     (let leftover = kBlockSize - block_offset w in
      if leftover < kHeaderSize
      then let w = (if leftover > 0 then w\<lparr>dest := snd (File_Append (dest w) (replicate leftover 0))\<rparr>
                    else w)
           in w\<lparr>block_offset := 0\<rparr>
      else w)"

definition FragmentType :: "bool \<Rightarrow> bool \<Rightarrow> RecordType" where
  "FragmentType begins ends =
     (if begins \<and> ends then kFullType else if begins then kFirstType
      else if ends then kLastType else kMiddleType)"

definition FragmentLength :: "Writer \<Rightarrow> bytes \<Rightarrow> nat" where
  "FragmentLength w ptr =
     (let avail = kBlockSize - block_offset w - kHeaderSize; left = length ptr
      in if left < avail then left else avail)"

lemma block_offset_Emit: "block_offset (snd (EmitPhysicalRecord w t p)) = block_offset w + 7 + length p"
  by (auto simp: EmitPhysicalRecord_def Let_def kHeaderSize_def split: prod.splits)

lemma block_offset_SwitchBlock:
  "block_offset (SwitchBlock w) = (if kBlockSize < block_offset w + 7 then 0 else block_offset w)"
  by (auto simp: SwitchBlock_def Let_def kHeaderSize_def kBlockSize_def)

function AddRecord_loop :: "Writer \<Rightarrow> bytes \<Rightarrow> bool \<Rightarrow> Status \<times> Writer" where
  "AddRecord_loop w ptr begins =
     (let w = SwitchBlock w;
          fragment_length = FragmentLength w ptr;
          ends = (length ptr = fragment_length);
          t = FragmentType begins ends;
          (s, w) = EmitPhysicalRecord w t (take fragment_length ptr);
          ptr = drop fragment_length ptr
      in if Status_ok s \<and> length ptr > 0 then AddRecord_loop w ptr False else (s, w))"
  by pat_completeness auto
termination
proof (relation "measures [\<lambda>(w, ptr, b). length ptr,
    \<lambda>(w, ptr, b). if block_offset (SwitchBlock w) + 7 = kBlockSize then 1 else 0]", goal_cases)
  case (2 w ptr b w1 fl e t res s w2 ptr1)
  then have w2: "block_offset w2 = block_offset w1 + 7 + length (take fl ptr)"
    using block_offset_Emit [of w1 t "take fl ptr"] by (metis prod.collapse snd_conv)
  show ?case
  proof (cases "fl = 0")
    case True
    with 2 have "block_offset w1 + 7 = kBlockSize"
      by (auto simp: FragmentLength_def Let_def kHeaderSize_def block_offset_SwitchBlock kBlockSize_def
          split: if_splits)
    with True 2 w2 show ?thesis by (simp add: block_offset_SwitchBlock kBlockSize_def)
  next
    case False
    with 2 have "fl > 0 \<and> length ptr > 0 \<and> length ptr1 = length ptr - fl" by auto
    then show ?thesis by simp
  qed
qed simp

declare AddRecord_loop.simps [simp del]

definition AddRecord :: "Writer \<Rightarrow> bytes \<Rightarrow> Status \<times> Writer" where
  "AddRecord w rec = AddRecord_loop w rec True"

section \<open>Reader\<close>

text \<open>
  The sequential file is what is left to read and the outcomes of the coming reads (a
  status and, for a read that fails, the number of bytes delivered); with no outcome left
  a read delivers up to \<open>n\<close> bytes. The reporter is the list of its reports, \<open>reporting\<close> tells
  whether there is one.
\<close>

record SequentialFile =
  unread :: bytes
  read_outcomes :: "(Status \<times> nat) list"
  skip_status :: Status

definition File_Read :: "SequentialFile \<Rightarrow> nat \<Rightarrow> Status \<times> bytes \<times> SequentialFile" where
  "File_Read f n =
     (case read_outcomes f of
        [] \<Rightarrow> (Status_OK, take n (unread f), f\<lparr>unread := drop n (unread f)\<rparr>)
      | (s, m) # os \<Rightarrow>
          let k = (if Status_ok s then n else min m n) in
          (s, take k (unread f), f\<lparr>unread := drop k (unread f), read_outcomes := os\<rparr>))"

record Reader =
  rfile :: SequentialFile
  reporting :: bool
  reports :: "(u64 \<times> Status) list"
  checksum :: bool
  buffer :: bytes
  eof :: bool
  last_record_offset :: u64
  end_of_buffer_offset :: u64
  initial_offset :: u64

definition Reader_new :: "SequentialFile \<Rightarrow> bool \<Rightarrow> bool \<Rightarrow> u64 \<Rightarrow> Reader" where
  "Reader_new f rep chk off = \<lparr>rfile = f, reporting = rep, reports = [], checksum = chk, buffer = [],
     eof = False, last_record_offset = 0, end_of_buffer_offset = 0, initial_offset = off\<rparr>"

definition kEof :: u32 where
  "kEof = kMaxRecordType + 1"

definition kBadRecord :: u32 where
  "kBadRecord = kMaxRecordType + 2"

definition ReportDrop :: "Reader \<Rightarrow> u64 \<Rightarrow> Status \<Rightarrow> Reader" where
  "ReportDrop r n reason =
     (if reporting r \<and>
         end_of_buffer_offset r - word_of_nat (length (buffer r)) - n \<ge> initial_offset r
      then r\<lparr>reports := reports r @ [(n, reason)]\<rparr> else r)"

definition ReportCorruption :: "Reader \<Rightarrow> u64 \<Rightarrow> bytes \<Rightarrow> Reader" where
  "ReportCorruption r n reason = ReportDrop r n (Status_Corruption reason [])"

definition SkipToInitialBlock :: "Reader \<Rightarrow> bool \<times> Reader" where
  "SkipToInitialBlock r =
     (let offset_in_block = initial_offset r mod word_of_nat kBlockSize;
          block_start_location = initial_offset r - offset_in_block;
          block_start_location =
            (if offset_in_block > word_of_nat (kBlockSize - 6)
             then block_start_location + word_of_nat kBlockSize else block_start_location);
          r = r\<lparr>end_of_buffer_offset := block_start_location\<rparr>
      in if block_start_location > 0
         then if \<not> Status_ok (skip_status (rfile r))
              then (False, ReportDrop r block_start_location (skip_status (rfile r)))
              else (True, r\<lparr>rfile := (rfile r)\<lparr>unread := drop (unat block_start_location) (unread (rfile r))\<rparr>\<rparr>)
         else (True, r))"

text \<open>The part of \<open>ReadPhysicalRecord\<close> after the buffer is known to hold a header.\<close>

definition ParsePhysicalRecord :: "Reader \<Rightarrow> u32 \<times> bytes \<times> Reader" where
  "ParsePhysicalRecord r =
     (let header = buffer r;
          a = ucast (header ! 4) AND 0xff :: u32;
          b = ucast (header ! 5) AND 0xff :: u32;
          type = ucast (header ! 6) :: u32;
          len = unat (a OR push_bit 8 b)
      in if kHeaderSize + len > length (buffer r) then
           let drop_size = word_of_nat (length (buffer r)); r = r\<lparr>buffer := []\<rparr>
           in (kBadRecord, [], ReportCorruption r drop_size (cstr ''bad record length''))
         else if type = 0 \<and> len = 0 then (kBadRecord, [], r\<lparr>buffer := []\<rparr>)
         else if checksum r \<and>
           Crc_Value 0 (take (1 + len) (drop 6 header)) \<noteq> Unmask (DecodeFixed32 header) then
           let drop_size = word_of_nat (length (buffer r)); r = r\<lparr>buffer := []\<rparr>
           in (kBadRecord, [], ReportCorruption r drop_size (cstr ''checksum mismatch''))
         else
           let r = r\<lparr>buffer := drop (kHeaderSize + len) header\<rparr> in
           if end_of_buffer_offset r - word_of_nat (length (buffer r)) - word_of_nat kHeaderSize
              - word_of_nat len < initial_offset r
           then (kBadRecord, [], r)
           else (type, take len (drop kHeaderSize header), r))"

text \<open>
  \<^verbatim>\<open>continue\<close> after a full read goes straight to the parsing, since a full block holds a header;
  after a short read the loop starts over with \<open>eof\<close> set.
\<close>

function ReadPhysicalRecord :: "Reader \<Rightarrow> u32 \<times> bytes \<times> Reader" where
  "ReadPhysicalRecord r =
     (if length (buffer r) < kHeaderSize then
        if \<not> eof r then
          (case File_Read (rfile r) kBlockSize of (status, data, f) \<Rightarrow>
             let r = r\<lparr>buffer := data, rfile := f,
                       end_of_buffer_offset := end_of_buffer_offset r + word_of_nat (length data)\<rparr>
             in if \<not> Status_ok status then
                  (kEof, [], (ReportDrop (r\<lparr>buffer := []\<rparr>) (word_of_nat kBlockSize) status)\<lparr>eof := True\<rparr>)
                else if length data < kBlockSize then ReadPhysicalRecord (r\<lparr>eof := True\<rparr>)
                else ParsePhysicalRecord r)
        else if length (buffer r) = 0 then (kEof, [], r)
        else
          let drop_size = word_of_nat (length (buffer r)); r = r\<lparr>buffer := []\<rparr>
          in (kEof, [], ReportCorruption r drop_size (cstr ''truncated record at end of file''))
      else ParsePhysicalRecord r)"
  by pat_completeness auto
termination
  by (relation "measure (\<lambda>r. if eof r then 0 else 1)") auto

declare ReadPhysicalRecord.simps [simp del]


lemma ParsePhysicalRecord_shorter:
  assumes "ParsePhysicalRecord r = (t, d, r')" "7 \<le> length (buffer r)"
  shows "length (buffer r') < length (buffer r) \<and> rfile r' = rfile r"
  using assms
  by (auto simp: ParsePhysicalRecord_def Let_def ReportCorruption_def ReportDrop_def kHeaderSize_def
      split: if_splits)

lemma ReadPhysicalRecord_shorter:
  "ReadPhysicalRecord r = (t, d, r') \<Longrightarrow> t \<noteq> kEof \<Longrightarrow>
   length (unread (rfile r')) + length (buffer r') < length (unread (rfile r)) + length (buffer r)"
proof (induction r rule: ReadPhysicalRecord.induct)
  case (1 r)
  show ?case
  proof (cases "length (buffer r) < 7 \<and> \<not> eof r")
    case True
    obtain status data f where rd: "File_Read (rfile r) kBlockSize = (status, data, f)"
      by (metis prod_cases3)
    then have len: "length data + length (unread f) = length (unread (rfile r))"
      by (auto simp: File_Read_def Let_def split: list.splits if_splits)
    let ?r = "r\<lparr>buffer := data, rfile := f,
        end_of_buffer_offset := end_of_buffer_offset r + word_of_nat (length data)\<rparr>"
    have IH: "ReadPhysicalRecord (?r\<lparr>eof := True\<rparr>) = (t, d, r') \<Longrightarrow> Status_ok status \<Longrightarrow>
        length data < kBlockSize \<Longrightarrow>
        length (unread (rfile r')) + length (buffer r') < length (unread f) + length data"
      using "1.IH" "1.prems"(2) True rd by (auto simp add: kHeaderSize_def)
    show ?thesis
      using "1.prems" True rd len ParsePhysicalRecord_shorter [of ?r t d r'] IH
      by (auto simp: ReadPhysicalRecord.simps [of r] kHeaderSize_def kBlockSize_def Let_def split: if_splits)
  next
    case False
    then show ?thesis
      using "1.prems" ParsePhysicalRecord_shorter [of r t d r']
      by (auto simp: ReadPhysicalRecord.simps [of r] kHeaderSize_def Let_def split: if_splits)
  qed
qed


text \<open>
  The state of the loop of \<open>ReadRecord\<close>: the reader, \<^verbatim>\<open>scratch\<close>, \<^verbatim>\<open>in_fragmented_record\<close> and
  \<^verbatim>\<open>prospective_record_offset\<close>. The result is \<^verbatim>\<open>record\<close> where the code returns true.
\<close>

function ReadRecord_loop :: "Reader \<Rightarrow> bytes \<Rightarrow> bool \<Rightarrow> u64 \<Rightarrow> bytes option \<times> Reader" where
  "ReadRecord_loop r scratch in_fragmented_record prospective_record_offset =
     (let physical_record_offset = end_of_buffer_offset r - word_of_nat (length (buffer r)) in
      case ReadPhysicalRecord r of (record_type, fragment, r) \<Rightarrow>
      if record_type = 1 then
        let r = (if in_fragmented_record \<and> scratch \<noteq> []
                 then ReportCorruption r (word_of_nat (length scratch)) (cstr ''partial record without end(1)'')
                 else r)
        in (Some fragment, r\<lparr>last_record_offset := physical_record_offset\<rparr>)
      else if record_type = 2 then
        let r = (if in_fragmented_record \<and> scratch \<noteq> []
                 then ReportCorruption r (word_of_nat (length scratch)) (cstr ''partial record without end(2)'')
                 else r)
        in ReadRecord_loop r fragment True physical_record_offset
      else if record_type = 3 then
        if \<not> in_fragmented_record then
          ReadRecord_loop (ReportCorruption r (word_of_nat (length fragment))
            (cstr ''missing start of fragmented record(1)'')) scratch False prospective_record_offset
        else ReadRecord_loop r (scratch @ fragment) True prospective_record_offset
      else if record_type = 4 then
        if \<not> in_fragmented_record then
          ReadRecord_loop (ReportCorruption r (word_of_nat (length fragment))
            (cstr ''missing start of fragmented record(2)'')) scratch False prospective_record_offset
        else (Some (scratch @ fragment), r\<lparr>last_record_offset := prospective_record_offset\<rparr>)
      else if record_type = kEof then
        (None, if in_fragmented_record
               then ReportCorruption r (word_of_nat (length scratch)) (cstr ''partial record without end(3)'')
               else r)
      else if record_type = kBadRecord then
        if in_fragmented_record then
          ReadRecord_loop (ReportCorruption r (word_of_nat (length scratch))
            (cstr ''error in middle of record'')) [] False prospective_record_offset
        else ReadRecord_loop r scratch False prospective_record_offset
      else
        ReadRecord_loop (ReportCorruption r
            (word_of_nat (length fragment + (if in_fragmented_record then length scratch else 0)))
            (cstr ''unknown record type '' @ decimal (unat record_type)))
          [] False prospective_record_offset)"
  by pat_completeness auto
termination
  by (relation "measure (\<lambda>(r, s, i, p). length (unread (rfile r)) + length (buffer r))")
    (auto simp: ReportCorruption_def ReportDrop_def kEof_def kMaxRecordType_def kBadRecord_def
       dest: ReadPhysicalRecord_shorter [OF sym])

declare ReadRecord_loop.simps [simp del]

definition ReadRecord :: "Reader \<Rightarrow> bytes option \<times> Reader" where
  "ReadRecord r =
     (if last_record_offset r < initial_offset r then
        case SkipToInitialBlock r of (ok, r) \<Rightarrow>
          if \<not> ok then (None, r) else ReadRecord_loop r [] False 0
      else ReadRecord_loop r [] False 0)"

definition LastRecordOffset :: "Reader \<Rightarrow> u64" where
  "LastRecordOffset r = last_record_offset r"

section \<open>Reading what was written\<close>

lemma take_or_push_drop: "take_bit k n OR push_bit k (drop_bit k n) = n" for n :: nat
proof (rule bit_eqI)
  fix i show "bit (take_bit k n OR push_bit k (drop_bit k n)) i = bit n i"
    by (cases "i < k") (auto simp: bit_simps)
qed

lemma ucast_byte_and_255 [simp]: "ucast (b :: byte) AND 255 = (ucast b :: u32)"
  by (rule bit_word_eqI) (auto simp: bit_simps dest: bit_imp_le_length)

lemma header_length:
  assumes "n < 65536"
  shows "unat (ucast (word_of_nat (n mod 256) :: byte) OR
     push_bit 8 (ucast (word_of_nat (n div 256) :: byte)) :: u32) = n"
proof -
  have "unat (ucast (word_of_nat (n mod 256) :: byte) :: u32) = take_bit 8 n"
    by (simp add: unsigned_ucast_eq unat_of_nat take_bit_eq_mod)
  moreover have "unat (push_bit 8 (ucast (word_of_nat (n div 256) :: byte)) :: u32) = push_bit 8 (drop_bit 8 n)"
    unfolding unsigned_push_bit_eq using assms
    by (simp add: unsigned_ucast_eq unat_of_nat take_bit_eq_mod drop_bit_eq_div push_bit_eq_mult)
  ultimately show ?thesis by (simp add: unsigned_or_eq take_or_push_drop)
qed

definition phys :: "RecordType \<Rightarrow> bytes \<Rightarrow> bytes" where
  "phys t d = EncodeFixed32 (Mask (Extend 0 (type_crc t) d)) @
     [word_of_nat (length d mod 256), word_of_nat (length d div 256), RecordType_code t] @ d"

lemma length_phys [simp]: "length (phys t d) = 7 + length d"
  by (simp add: phys_def)

lemma EmitPhysicalRecord_ok:
  assumes "outcomes (dest w) = []"
  shows "EmitPhysicalRecord w t d = (Status_OK, w\<lparr>dest := (dest w)\<lparr>contents := contents (dest w) @ phys t d\<rparr>,
     block_offset := block_offset w + 7 + length d\<rparr>)"
  using assms
  by (simp add: EmitPhysicalRecord_def File_Append_def File_Flush_def Let_def phys_def kHeaderSize_def)

definition reader_at :: "Reader \<Rightarrow> bytes \<Rightarrow> nat \<Rightarrow> bool" where
  "reader_at r C p \<longleftrightarrow> initial_offset r = 0 \<and> read_outcomes (rfile r) = [] \<and>
     (\<exists>E. E mod kBlockSize = 0 \<and> p \<le> E \<and> E \<le> p + kBlockSize \<and>
          buffer r = take (E - p) (drop p C) \<and> unread (rfile r) = drop E C \<and> eof r = (length C < E))"

definition at_end :: "Reader \<Rightarrow> bool" where
  "at_end r \<longleftrightarrow> eof r \<and> buffer r = [] \<and> initial_offset r = 0"

lemma phys_header:
  assumes "length d < 65536"
  shows "unat (ucast (phys t d ! 4) OR push_bit 8 (ucast (phys t d ! 5)) :: u32) = length d"
    and "phys t d ! 6 = RecordType_code t" and "drop 6 (phys t d) = RecordType_code t # d"
    and "DecodeFixed32 (phys t d @ rest) = Mask (Extend 0 (type_crc t) d)"
  using header_length [OF assms] by (simp_all add: phys_def nth_append)

lemma type_crc_extend: "Crc_Value 0 (RecordType_code t # d) = Extend 0 (type_crc t) d"
  using crc_reference_append [of _ "[RecordType_code t]" d]
  by (simp add: Crc_Value_def type_crc_def Extend_reference)

lemma ParsePhysicalRecord_phys:
  assumes buf: "buffer r = phys t d @ rest" and t: "t \<noteq> kZeroType"
    and len: "length d < 65536" and off: "initial_offset r = 0"
  shows "ParsePhysicalRecord r = (ucast (RecordType_code t), d, r\<lparr>buffer := rest\<rparr>)"
proof -
  have "(ucast (RecordType_code t) :: u32) \<noteq> 0" using t by (cases t) auto
  moreover have "take (1 + length d) (drop 6 (phys t d @ rest)) = RecordType_code t # d"
    using phys_header(3) [OF len, of t] by (simp add: take_Cons')
  moreover have "take (length d) (drop 7 (phys t d @ rest)) = d" by (simp add: phys_def)
  ultimately show ?thesis
    using phys_header(1,2) [OF len, of t] phys_header(4) [OF len, of t rest]
    by (simp add: ParsePhysicalRecord_def buf off kHeaderSize_def nth_append type_crc_extend Let_def)
qed

lemma ParsePhysicalRecord_trunc:
  assumes pre: "buffer r = take n (phys t d)" "7 \<le> n" "n < 7 + length d"
    and len: "length d < 65536"
  shows "\<exists>r'. ParsePhysicalRecord r = (kBadRecord, [], r') \<and> buffer r' = [] \<and> eof r' = eof r \<and>
    initial_offset r' = initial_offset r"
  using pre phys_header(1) [OF len, of t]
  by (auto simp: ParsePhysicalRecord_def kHeaderSize_def Let_def ReportCorruption_def ReportDrop_def)


definition skip_trailer :: "nat \<Rightarrow> nat" where
  "skip_trailer p = (if kBlockSize - p mod kBlockSize < 7 then p + (kBlockSize - p mod kBlockSize) else p)"

definition block_rest :: "bytes \<Rightarrow> nat \<Rightarrow> bytes" where
  "block_rest C q = take (kBlockSize - q mod kBlockSize) (drop q C)"

lemma block_ends:
  assumes "E mod kBlockSize = 0" "p \<le> E" "E \<le> p + kBlockSize"
  shows "E = p \<and> p mod kBlockSize = 0 \<or> E = p + (kBlockSize - p mod kBlockSize)"
proof -
  obtain k where k: "E = kBlockSize * k" using assms(1) by (auto simp: mod_eq_0_iff_dvd dvd_def)
  obtain j m where p: "p = kBlockSize * j + m" and m: "m = p mod kBlockSize" "m < kBlockSize"
    using mult_div_mod_eq [of kBlockSize p] by (metis kBlockSize_def mod_less_divisor zero_less_numeral)
  have "k = j \<or> k = Suc j \<or> k = Suc (Suc j) \<and> m = 0"
    using assms(2,3) m(2) unfolding k p kBlockSize_def by arith
  then show ?thesis
    using assms(2,3) m(2) unfolding m(1) [symmetric] unfolding k p kBlockSize_def by auto
qed

lemma skip_trailer_block: "7 \<le> kBlockSize - skip_trailer p mod kBlockSize"
proof -
  have "(p + (kBlockSize - p mod kBlockSize)) mod kBlockSize = 0"
    by (metis kBlockSize_def le_add_diff_inverse mod_add_left_eq mod_less_divisor mod_self
        order_less_imp_le zero_less_numeral)
  then show ?thesis by (auto simp: skip_trailer_def kBlockSize_def)
qed

lemma ReadPhysicalRecord_parse:
  "7 \<le> length (buffer r) \<Longrightarrow> ReadPhysicalRecord r = ParsePhysicalRecord r"
  by (simp add: ReadPhysicalRecord.simps [of r] kHeaderSize_def)

lemma ReadPhysicalRecord_eof:
  assumes "length (buffer r) < 7" "eof r" "initial_offset r = 0"
  shows "\<exists>r'. ReadPhysicalRecord r = (kEof, [], r') \<and> at_end r' \<and> (buffer r = [] \<longrightarrow> reports r' = reports r)"
  using assms by (auto simp: ReadPhysicalRecord.simps [of r] kHeaderSize_def at_end_def Let_def
      ReportCorruption_def ReportDrop_def)

lemma ReadPhysicalRecord_refill:
  assumes "length (buffer r) < 7" "\<not> eof r" "read_outcomes (rfile r) = []" "unread (rfile r) = drop q C"
    "q mod kBlockSize = 0" "q \<le> length C" "initial_offset r = 0"
  shows "\<exists>r1. ReadPhysicalRecord r = ReadPhysicalRecord r1 \<and> buffer r1 = block_rest C q \<and>
      unread (rfile r1) = drop (q + kBlockSize) C \<and> read_outcomes (rfile r1) = [] \<and> 
      eof r1 = (length C < q + kBlockSize) \<and> reports r1 = reports r \<and> initial_offset r1 = 0"
proof -
  let ?data = "take kBlockSize (drop q C)"
  let ?r0 = "r\<lparr>buffer := ?data, rfile := (rfile r)\<lparr>unread := drop kBlockSize (drop q C)\<rparr>,
      end_of_buffer_offset := end_of_buffer_offset r + word_of_nat (length ?data)\<rparr>"
  let ?r1 = "if length C < q + kBlockSize then ?r0\<lparr>eof := True\<rparr> else ?r0"
  have full: "length ?data < kBlockSize \<longleftrightarrow> length C < q + kBlockSize"
    using assms(6) by auto
  have "\<not> length C < q + kBlockSize \<longrightarrow> ReadPhysicalRecord ?r0 = ParsePhysicalRecord ?r0"
    using assms(6) by (simp add: ReadPhysicalRecord_parse kBlockSize_def)
  with full have "ReadPhysicalRecord r = ReadPhysicalRecord ?r1"
    using assms
    by (simp add: ReadPhysicalRecord.simps [of r] kHeaderSize_def File_Read_def Let_def kBlockSize_def
        Status_ok_def del: length_take)
  then show ?thesis
    using assms by (intro exI [of _ ?r1]) (simp add: block_rest_def add.commute)
qed

lemma reader_at_cases:
  assumes at: "reader_at r C p" and p: "p \<le> length C"
  obtains (ready) "skip_trailer p = p" "buffer r = block_rest C p"
      "unread (rfile r) = drop (p + (kBlockSize - p mod kBlockSize)) C"
      "eof r = (length C < p + (kBlockSize - p mod kBlockSize))"
    | (refill) "length (buffer r) < 7" "\<not> eof r" "unread (rfile r) = drop (skip_trailer p) C"
      "skip_trailer p mod kBlockSize = 0" "skip_trailer p \<le> length C"
    | (over) "length (buffer r) < 7" "eof r" "buffer r = [] \<longleftrightarrow> p = length C" "length C < skip_trailer p"
proof -
  obtain E where E: "E mod kBlockSize = 0" "p \<le> E" "E \<le> p + kBlockSize"
    "buffer r = take (E - p) (drop p C)" "unread (rfile r) = drop E C" "eof r = (length C < E)"
    using at unfolding reader_at_def by (elim conjE exE) (rule that)
  show thesis
  proof (cases "E = p")
    case True
    then have "skip_trailer p = p" using E(1) by (simp add: skip_trailer_def kBlockSize_def)
    then show thesis using refill E True p by simp
  next
    case False
    with block_ends [OF E(1-3)] have stop: "E = p + (kBlockSize - p mod kBlockSize)" by simp
    show thesis
    proof (cases "skip_trailer p = p")
      case True
      then show thesis using ready E stop by (simp add: block_rest_def)
    next
      case trailer: False
      with stop have q: "skip_trailer p = E" "E - p < 7" by (auto simp: skip_trailer_def split: if_splits)
      show thesis
      proof (cases "length C < E")
        case True
        with q E p False show thesis by (intro over) auto
      next
        case False
        with q E show thesis by (intro refill) auto
      qed
    qed
  qed
qed

text \<open>What the next physical record is parsed from.\<close>

lemma ReadPhysicalRecord_at:
  assumes at: "reader_at r C p" and p: "p \<le> length C" and full: "7 \<le> length (block_rest C (skip_trailer p))"
  shows "\<exists>r1. ReadPhysicalRecord r = ParsePhysicalRecord r1 \<and> buffer r1 = block_rest C (skip_trailer p) \<and>
     unread (rfile r1) = drop (skip_trailer p + (kBlockSize - skip_trailer p mod kBlockSize)) C \<and>
     eof r1 = (length C < skip_trailer p + (kBlockSize - skip_trailer p mod kBlockSize)) \<and>
     read_outcomes (rfile r1) = [] \<and> reports r1 = reports r \<and> initial_offset r1 = 0"
proof (cases rule: reader_at_cases [OF at p])
  case 1
  with at full show ?thesis
    by (intro exI [of _ r]) (simp add: ReadPhysicalRecord_parse reader_at_def)
next
  case 2
  with at ReadPhysicalRecord_refill [of r "skip_trailer p" C] full show ?thesis
    by (auto simp: ReadPhysicalRecord_parse reader_at_def)
next
  case 3
  with full show ?thesis by (simp add: block_rest_def)
qed

lemma ReadPhysicalRecord_none:
  assumes at: "reader_at r C p" and p: "p \<le> length C" and short: "length (block_rest C (skip_trailer p)) < 7"
  shows "\<exists>r'. ReadPhysicalRecord r = (kEof, [], r') \<and> at_end r' \<and> (p = length C \<longrightarrow> reports r' = reports r)"
proof (cases rule: reader_at_cases [OF at p])
  case 1
  then have "eof r" using short skip_trailer_block [of p] by (auto simp: block_rest_def)
  moreover have "p = length C \<longrightarrow> buffer r = []" using 1 by (simp add: block_rest_def)
  ultimately show ?thesis
    using ReadPhysicalRecord_eof [of r] 1 short at by (auto simp: reader_at_def)
next
  case 2
  then obtain r1 where r1: "ReadPhysicalRecord r = ReadPhysicalRecord r1" "buffer r1 = block_rest C (skip_trailer p)"
    "eof r1 = (length C < skip_trailer p + kBlockSize)" "reports r1 = reports r" "initial_offset r1 = 0"
    using ReadPhysicalRecord_refill [of r "skip_trailer p" C] at by (auto simp: reader_at_def)
  moreover have "eof r1"
    using short 2 r1(3) skip_trailer_block [of p] by (auto simp: block_rest_def)
  moreover have "p = length C \<longrightarrow> buffer r1 = []"
    using r1(2) 2(5) by (auto simp: block_rest_def skip_trailer_def)
  ultimately show ?thesis using ReadPhysicalRecord_eof [of r1] short by auto
next
  case 3
  then show ?thesis using ReadPhysicalRecord_eof [of r] at by (auto simp: reader_at_def)
qed


lemma ReadPhysicalRecord_phys:
  assumes at: "reader_at r C p" and C: "drop q C = phys t d @ rest" and q: "q = skip_trailer p"
    and t: "t \<noteq> kZeroType" and fits: "q mod kBlockSize + 7 + length d \<le> kBlockSize"
  shows "\<exists>r'. ReadPhysicalRecord r = (ucast (RecordType_code t), d, r') \<and>
    reader_at r' C (q + 7 + length d) \<and> reports r' = reports r"
proof -
  have rest: "block_rest C q = phys t d @ take (kBlockSize - q mod kBlockSize - (7 + length d)) rest"
    using fits by (simp add: block_rest_def C)
  have "q \<le> length C" using C by (metis append_is_Nil_conv drop_all length_phys linear list.size(3) add_is_0 zero_neq_numeral)
  then have "p \<le> length C" unfolding q by (auto simp: skip_trailer_def split: if_splits)
  then obtain r1 where r1: "ReadPhysicalRecord r = ParsePhysicalRecord r1" "buffer r1 = block_rest C q"
     "unread (rfile r1) = drop (q + (kBlockSize - q mod kBlockSize)) C"
     "eof r1 = (length C < q + (kBlockSize - q mod kBlockSize))"
     "read_outcomes (rfile r1) = []" "reports r1 = reports r" "initial_offset r1 = 0"
    using ReadPhysicalRecord_at [OF at] rest unfolding q by auto
  let ?r' = "r1\<lparr>buffer := take (kBlockSize - q mod kBlockSize - (7 + length d)) rest\<rparr>"
  let ?E = "q + (kBlockSize - q mod kBlockSize)"
  have "ReadPhysicalRecord r = (ucast (RecordType_code t), d, ?r')"
    using ParsePhysicalRecord_phys [OF _ t, of r1 d] r1 rest fits by (simp add: kBlockSize_def)
  moreover have "drop (q + 7 + length d) C = rest"
    using C by (metis (no_types, lifting) add.assoc add.commute append_eq_conv_conj drop_drop length_phys)
  moreover have "?E mod kBlockSize = 0" using fits
    by (metis add.commute add_lessD1 le_add_diff_inverse mod_add_left_eq mod_self le_add1 le_trans)
  ultimately show ?thesis
    using r1 fits by (intro exI [of _ ?r']) (auto simp: reader_at_def intro!: exI [of _ ?E])
qed

lemma ReadPhysicalRecord_trunc:
  assumes at: "reader_at r C p" and p: "p \<le> length C" and C: "drop q C = take n (phys t d)" and q: "q = skip_trailer p"
    and fits: "q mod kBlockSize + 7 + length d \<le> kBlockSize" and n: "n < 7 + length d"
  shows "\<exists>t r'. ReadPhysicalRecord r = (t, [], r') \<and> (t = kEof \<or> t = kBadRecord) \<and> at_end r'"
proof (cases "7 \<le> length (block_rest C q)")
  case True
  have rest: "block_rest C q = take n (phys t d)" using fits n by (simp add: block_rest_def C)
  obtain r1 where r1: "ReadPhysicalRecord r = ParsePhysicalRecord r1" "buffer r1 = block_rest C q"
     "eof r1 = (length C < q + (kBlockSize - q mod kBlockSize))" "initial_offset r1 = 0"
    using ReadPhysicalRecord_at [OF at p] True unfolding q by auto
  have "length C - q = n" "n \<ge> 7" using C n True rest by (auto dest: arg_cong [where f = length])
  then have "eof r1" using r1(3) fits n by auto
  then show ?thesis
    using ParsePhysicalRecord_trunc [of r1 n t d] r1 rest fits n \<open>n \<ge> 7\<close> by (auto simp: at_end_def kBlockSize_def)
next
  case False
  then show ?thesis using ReadPhysicalRecord_none [OF at p] q by auto
qed

lemma reader_at_last [simp]: "reader_at (r\<lparr>last_record_offset := x\<rparr>) C p = reader_at r C p"
  by (simp add: reader_at_def)

lemma ReadRecord_loop_last:
  assumes "ReadPhysicalRecord r = (ucast (RecordType_code (FragmentType b True)), d, r1)" "b \<longrightarrow> scr = []"
  shows "\<exists>x. ReadRecord_loop r scr (\<not> b) pr = (Some (scr @ d), r1\<lparr>last_record_offset := x\<rparr>)"
  using assms by (cases b) (auto simp: ReadRecord_loop.simps [of r] FragmentType_def)

lemma ReadRecord_loop_more:
  assumes "ReadPhysicalRecord r = (ucast (RecordType_code (FragmentType b False)), d, r1)" "b \<longrightarrow> scr = []"
  shows "\<exists>pr'. ReadRecord_loop r scr (\<not> b) pr = ReadRecord_loop r1 (scr @ d) True pr'"
  using assms by (cases b) (auto simp: ReadRecord_loop.simps [of r] FragmentType_def)

lemma ReadRecord_loop_Eof:
  assumes "ReadPhysicalRecord r = (kEof, d, r1)" "at_end r1"
  shows "\<exists>r'. ReadRecord_loop r scr b pr = (None, r') \<and> at_end r' \<and> (\<not> b \<longrightarrow> reports r' = reports r1)"
  using assms by (auto simp: ReadRecord_loop.simps [of r] kEof_def kMaxRecordType_def ReportCorruption_def
      ReportDrop_def at_end_def)

lemma ReadRecord_loop_at_end:
  assumes "at_end r" shows "\<exists>r'. ReadRecord_loop r scr b pr = (None, r') \<and> at_end r'"
proof -
  have "ReadPhysicalRecord r = (kEof, [], r)"
    using assms by (simp add: ReadPhysicalRecord.simps [of r] at_end_def kHeaderSize_def)
  then show ?thesis using ReadRecord_loop_Eof assms by blast
qed

lemma ReadRecord_loop_stop:
  assumes "ReadPhysicalRecord r = (t, d, r1)" "t = kEof \<or> t = kBadRecord" "at_end r1"
  shows "\<exists>r'. ReadRecord_loop r scr b pr = (None, r') \<and> at_end r'"
proof (cases "t = kEof")
  case True
  then show ?thesis using ReadRecord_loop_Eof assms by blast
next
  case False
  then have "\<exists>r2 scr2. ReadRecord_loop r scr b pr = ReadRecord_loop r2 scr2 False pr \<and> at_end r2"
    using assms by (auto simp: ReadRecord_loop.simps [of r] kEof_def kBadRecord_def kMaxRecordType_def
        ReportCorruption_def ReportDrop_def at_end_def)
  then show ?thesis using ReadRecord_loop_at_end by fastforce
qed

definition wf_writer :: "Writer \<Rightarrow> bool" where
  "wf_writer w \<longleftrightarrow> outcomes (dest w) = [] \<and> block_offset w \<le> kBlockSize \<and>
     length (contents (dest w)) mod kBlockSize = block_offset w mod kBlockSize"

abbreviation written :: "Writer \<Rightarrow> bytes" where
  "written w \<equiv> contents (dest w)"

lemma SwitchBlock_wf:
  assumes "wf_writer w"
  shows "\<exists>zeros. SwitchBlock w = w\<lparr>dest := (dest w)\<lparr>contents := written w @ zeros\<rparr>,
       block_offset := length (written w @ zeros) mod kBlockSize\<rparr> \<and>
     length (written w @ zeros) = skip_trailer (length (written w))"
proof (cases "block_offset w = kBlockSize")
  case True
  then show ?thesis using assms
    by (intro exI [of _ "[]"])
      (auto simp: wf_writer_def SwitchBlock_def Let_def skip_trailer_def kBlockSize_def kHeaderSize_def)
next
  case False
  then have off: "length (written w) mod kBlockSize = block_offset w" "block_offset w < kBlockSize"
    using assms by (auto simp: wf_writer_def)
  show ?thesis
  proof (cases "kBlockSize - block_offset w < 7")
    case True
    have "(length (written w) + (kBlockSize - block_offset w)) mod kBlockSize = 0"
      using off by (metis le_add_diff_inverse less_imp_le mod_add_left_eq mod_self)
    then show ?thesis using True off assms
      by (intro exI [of _ "replicate (kBlockSize - block_offset w) 0"])
        (auto simp: wf_writer_def SwitchBlock_def Let_def skip_trailer_def kHeaderSize_def File_Append_def)
  next
    case False
    then show ?thesis using off assms
      by (intro exI [of _ "[]"]) (auto simp: wf_writer_def SwitchBlock_def Let_def skip_trailer_def kHeaderSize_def)
  qed
qed

inductive fragments :: "bytes \<Rightarrow> bytes \<Rightarrow> bool \<Rightarrow> bytes \<Rightarrow> bool" where
  fragments_last: "length (C @ zeros) = skip_trailer (length C) \<Longrightarrow>
    length (C @ zeros) mod kBlockSize + 7 + length d \<le> kBlockSize \<Longrightarrow>
    fragments C d b (C @ zeros @ phys (FragmentType b True) d)"
| fragments_more: "length (C @ zeros) = skip_trailer (length C) \<Longrightarrow>
    length (C @ zeros) mod kBlockSize + 7 + length d \<le> kBlockSize \<Longrightarrow>
    fragments (C @ zeros @ phys (FragmentType b False) d) ptr False C' \<Longrightarrow>
    fragments C (d @ ptr) b C'"

lemma AddRecord_loop_fragments:
  "AddRecord_loop w ptr b = (s, w') \<Longrightarrow> wf_writer w \<Longrightarrow>
   s = Status_OK \<and> wf_writer w' \<and> fragments (written w) ptr b (written w')"
proof (induction w ptr b rule: AddRecord_loop.induct)
  case (1 w ptr b)
  obtain zeros where z: "SwitchBlock w = w\<lparr>dest := (dest w)\<lparr>contents := written w @ zeros\<rparr>,
       block_offset := length (written w @ zeros) mod kBlockSize\<rparr>"
     "length (written w @ zeros) = skip_trailer (length (written w))"
    using SwitchBlock_wf [OF 1(3)] by blast
  let ?w = "SwitchBlock w"
  define d where "d = take (FragmentLength ?w ptr) ptr"
  let ?t = "FragmentType b (length ptr = length d)"
  let ?w2 = "?w\<lparr>dest := (dest ?w)\<lparr>contents := written ?w @ phys ?t d\<rparr>, block_offset := block_offset ?w + 7 + length d\<rparr>"
  have out: "outcomes (dest ?w) = []" using 1(3) z by (simp add: wf_writer_def)
  have fl: "FragmentLength ?w ptr = length d" by (auto simp: d_def FragmentLength_def Let_def)
  have fit: "length (written w @ zeros) mod kBlockSize + 7 + length d \<le> kBlockSize"
    using z skip_trailer_block [of "length (written w)"] fl
    by (auto simp: FragmentLength_def Let_def kHeaderSize_def split: if_splits)
  have wf2: "wf_writer ?w2"
    using out fit by (simp add: z(1) wf_writer_def mod_simps add.assoc)
  have w2: "written ?w2 = written w @ zeros @ phys ?t d" using z by simp
  have emit: "EmitPhysicalRecord ?w ?t (take (length d) ptr) = (Status_OK, ?w2)"
    using EmitPhysicalRecord_ok [OF out] fl by (simp add: d_def)
  have "length d \<le> length ptr" by (simp add: d_def)
  then have eq: "AddRecord_loop w ptr b =
      (if length ptr = length d then (Status_OK, ?w2) else AddRecord_loop ?w2 (drop (length d) ptr) False)"
    using emit fl \<open>length d \<le> length ptr\<close> by (auto simp: AddRecord_loop.simps [of w] Let_def Status_ok_def)
  show ?case
  proof (cases "length ptr = length d")
    case True
    then have "ptr = d" by (auto simp: d_def)
    with 1(2) eq wf2 w2 fragments_last [OF z(2) fit] True show ?thesis by simp
  next
    case False
    then have "length d < length ptr" by (auto simp: d_def)
    with 1(1) [OF refl refl refl refl refl, of Status_OK ?w2] 1(2) eq wf2 emit fl False
    have "s = Status_OK \<and> wf_writer w' \<and> fragments (written ?w2) (drop (length d) ptr) False (written w')"
      by (simp add: Status_ok_def)
    moreover have "d @ drop (length d) ptr = ptr" using fl by (metis append_take_drop_id d_def)
    ultimately show ?thesis
      using fragments_more [OF z(2) fit, of b "drop (length d) ptr" "written w'"] False w2 by simp
  qed
qed

lemma fragments_extends: "fragments C ptr b C' \<Longrightarrow> \<exists>bs. C' = C @ bs"
  by (induction rule: fragments.induct) auto

lemma FragmentType_not_zero [simp]: "FragmentType b e \<noteq> kZeroType"
  by (simp add: FragmentType_def)

lemma fragments_read:
  assumes "fragments C ptr b C'" "reader_at r (C' @ rest) (length C)" "b \<longrightarrow> scr = []"
  shows "\<exists>r'. ReadRecord_loop r scr (\<not> b) pr = (Some (scr @ ptr), r') \<and>
     reader_at r' (C' @ rest) (length C') \<and> reports r' = reports r"
  using assms
proof (induction C ptr b C' arbitrary: r scr pr rule: fragments.induct)
  case (fragments_last C zeros d b)
  let ?F = "(C @ zeros @ phys (FragmentType b True) d) @ rest"
  have "drop (length (C @ zeros)) ?F = phys (FragmentType b True) d @ rest" by simp
  from ReadPhysicalRecord_phys [OF fragments_last(3) this fragments_last(1) FragmentType_not_zero fragments_last(2)]
  obtain r1 where r1: "ReadPhysicalRecord r = (ucast (RecordType_code (FragmentType b True)), d, r1)"
    "reader_at r1 ?F (length (C @ zeros) + 7 + length d)" "reports r1 = reports r" by blast
  then show ?case
    using ReadRecord_loop_last [OF r1(1) fragments_last(4), of pr] by (auto simp: add_ac)
next
  case (fragments_more C zeros d b ptr C')
  obtain bs where C': "C' = (C @ zeros @ phys (FragmentType b False) d) @ bs"
    using fragments_extends [OF fragments_more(3)] by blast
  then have "drop (length (C @ zeros)) (C' @ rest) = phys (FragmentType b False) d @ bs @ rest" by simp
  note read = ReadPhysicalRecord_phys [OF fragments_more(5) this fragments_more(1) FragmentType_not_zero fragments_more(2)]
  have len: "length (C @ zeros) + 7 + length d = length (C @ zeros @ phys (FragmentType b False) d)" by simp
  from read obtain r1 where r1: "ReadPhysicalRecord r = (ucast (RecordType_code (FragmentType b False)), d, r1)"
    "reader_at r1 (C' @ rest) (length (C @ zeros @ phys (FragmentType b False) d))" "reports r1 = reports r"
    unfolding len by blast
  then show ?case
    using ReadRecord_loop_more [OF r1(1) fragments_more(6), of pr] fragments_more.IH [of r1 "scr @ d"] by auto
qed

lemma fragments_truncated:
  assumes "fragments C ptr b C'" "reader_at r (take n C') (length C)" "b \<longrightarrow> scr = []"
    "length C \<le> n" "n < length C'"
  shows "\<exists>r'. ReadRecord_loop r scr (\<not> b) pr = (None, r') \<and> at_end r'"
  using assms
proof (induction C ptr b C' arbitrary: r scr pr rule: fragments.induct)
  case (fragments_last C zeros d b)
  let ?F = "take n (C @ zeros @ phys (FragmentType b True) d)"
  have "drop (length (C @ zeros)) ?F = take (n - length (C @ zeros)) (phys (FragmentType b True) d)"
    by (subst drop_take) simp
  with ReadPhysicalRecord_trunc [OF fragments_last(3) _ this] fragments_last
  show ?case by (fastforce dest: ReadRecord_loop_stop)
next
  case (fragments_more C zeros d b ptr C')
  let ?C1 = "C @ zeros @ phys (FragmentType b False) d"
  obtain bs where C': "C' = ?C1 @ bs" using fragments_extends [OF fragments_more(3)] by blast
  show ?case
  proof (cases "length ?C1 \<le> n")
    case True
    then have "drop (length (C @ zeros)) (take n C') = phys (FragmentType b False) d @ take (n - length ?C1) bs"
      unfolding C' by (subst drop_take) (simp add: add.assoc)
    note read = ReadPhysicalRecord_phys [OF fragments_more(5) this fragments_more(1) FragmentType_not_zero fragments_more(2)]
    have len: "length (C @ zeros) + 7 + length d = length ?C1" by simp
    from read obtain r1 where r1: "ReadPhysicalRecord r = (ucast (RecordType_code (FragmentType b False)), d, r1)"
      "reader_at r1 (take n C') (length ?C1)" unfolding len by blast
    then show ?thesis
      using ReadRecord_loop_more [OF r1(1) fragments_more(6), of pr] True
        fragments_more.IH [of r1 "scr @ d"] fragments_more.prems(4) by auto
  next
    case False
    then have "drop (length (C @ zeros)) (take n C') = take (n - length (C @ zeros)) (phys (FragmentType b False) d)"
      unfolding C' by (subst drop_take) simp
    with ReadPhysicalRecord_trunc [OF fragments_more(5) _ this] fragments_more(1,2,7,8) False
    show ?thesis by (fastforce dest: ReadRecord_loop_stop)
  qed
qed


section \<open>Logs of several records\<close>

fun AddRecords :: "Writer \<Rightarrow> bytes list \<Rightarrow> Writer" where
  "AddRecords w [] = w"
| "AddRecords w (x # xs) = AddRecords (snd (AddRecord w x)) xs"

fun ReadRecords :: "nat \<Rightarrow> Reader \<Rightarrow> bytes option list \<times> Reader" where
  "ReadRecords 0 r = ([], r)"
| "ReadRecords (Suc n) r = (case ReadRecord r of (x, r) \<Rightarrow> case ReadRecords n r of (xs, r) \<Rightarrow> (x # xs, r))"

lemma AddRecord_fragments:
  "wf_writer w \<Longrightarrow> AddRecord w x = (s, w') \<Longrightarrow>
   s = Status_OK \<and> wf_writer w' \<and> fragments (written w) x True (written w')"
  by (rule AddRecord_loop_fragments) (simp_all add: AddRecord_def)

lemma ReadRecord_loop_start: "initial_offset r = 0 \<Longrightarrow> ReadRecord r = ReadRecord_loop r [] False 0"
  by (simp add: ReadRecord_def)

lemma ReadRecord_at_end: "at_end r \<Longrightarrow> \<exists>r'. ReadRecord r = (None, r') \<and> at_end r'"
  using ReadRecord_loop_at_end by (simp add: at_end_def ReadRecord_loop_start)

lemma ReadRecords_at_end:
  "at_end r \<Longrightarrow> fst (ReadRecords n r) = replicate n None"
proof (induction n arbitrary: r)
  case (Suc n)
  then show ?case using ReadRecord_at_end [OF Suc.prems] by (fastforce split: prod.splits)
qed simp

lemma AddRecords_extends: "wf_writer w \<Longrightarrow> \<exists>bs. written (AddRecords w xs) = written w @ bs"
proof (induction xs arbitrary: w)
  case (Cons x xs)
  obtain s w' where w': "AddRecord w x = (s, w')" by fastforce
  show ?case using Cons.IH [of w'] AddRecord_fragments [OF Cons.prems w'] w' fragments_extends by fastforce
qed simp

lemma ReadRecord_after:
  assumes "wf_writer w" "AddRecord w x = (s, w')" "reader_at r (written w' @ rest) (length (written w))"
  shows "\<exists>r'. ReadRecord r = (Some x, r') \<and> reader_at r' (written w' @ rest) (length (written w')) \<and>
    reports r' = reports r"
  using fragments_read [of "written w" x True "written w'" r rest "[]" 0] AddRecord_fragments [OF assms(1,2)] assms(3)
  by (auto simp: ReadRecord_loop_start reader_at_def)

lemma ReadRecord_end:
  assumes "reader_at r C (length C)"
  shows "\<exists>r'. ReadRecord r = (None, r') \<and> at_end r' \<and> reports r' = reports r"
proof -
  have "length (block_rest C (skip_trailer (length C))) < 7"
    by (auto simp: block_rest_def skip_trailer_def)
  with ReadPhysicalRecord_none [OF assms] ReadRecord_loop_Eof [of r "[]" _ "[]" False 0] assms
  show ?thesis by (fastforce simp: ReadRecord_loop_start reader_at_def)
qed

lemma ReadRecords_AddRecords:
  assumes "wf_writer w" "reader_at r (written (AddRecords w xs)) (length (written w))"
  shows "fst (ReadRecords (Suc (length xs)) r) = map Some xs @ [None] \<and>
    reports (snd (ReadRecords (Suc (length xs)) r)) = reports r"
  using assms
proof (induction xs arbitrary: w r)
  case Nil
  then show ?case using ReadRecord_end [of r "written w"] by auto
next
  case (Cons x xs)
  obtain s w' where w': "AddRecord w x = (s, w')" by fastforce
  note fr = AddRecord_fragments [OF Cons.prems(1) w']
  then obtain rest where "written (AddRecords w' xs) = written w' @ rest" using AddRecords_extends by blast
  with ReadRecord_after [OF Cons.prems(1) w'] Cons.prems(2) w'
  obtain r' where "ReadRecord r = (Some x, r')"
    "reader_at r' (written (AddRecords w' xs)) (length (written w'))" "reports r' = reports r" by auto
  with Cons.IH [of w' r'] fr w' show ?case by (simp add: split_beta)
qed

text \<open>The records of \<open>xs\<close> that are in the first \<open>n\<close> bytes of the log with all their fragments.\<close>

fun complete_records :: "Writer \<Rightarrow> nat \<Rightarrow> bytes list \<Rightarrow> bytes list" where
  "complete_records w n [] = []"
| "complete_records w n (x # xs) =
     (let w = snd (AddRecord w x) in if length (written w) \<le> n then x # complete_records w n xs else [])"

lemma take_pad: "take (k - j) (z # replicate k z) = replicate (k - j) z"
  by (simp add: min_def del: replicate_Suc flip: replicate_Suc)

lemma ReadRecords_None:
  assumes "ReadRecord r = (None, r')" "at_end r'"
  shows "fst (ReadRecords k r) = replicate k None"
  using assms ReadRecords_at_end [of r' "k - 1"] by (cases k) (auto split: prod.splits)

lemma ReadRecords_truncated:
  assumes "wf_writer w" "reader_at r (take n (written (AddRecords w xs))) (length (written w))"
    "length (written w) \<le> n"
  shows "fst (ReadRecords k r) = take k (map Some (complete_records w n xs) @ replicate k None)"
  using assms
proof (induction xs arbitrary: w r k)
  case Nil
  then obtain r' where "ReadRecord r = (None, r')" "at_end r'" using ReadRecord_end [of r "written w"] by auto
  then show ?case using ReadRecords_None by simp
next
  case (Cons x xs)
  obtain s w' where w': "AddRecord w x = (s, w')" by fastforce
  note fr = AddRecord_fragments [OF Cons.prems(1) w']
  then obtain bs where bs: "written (AddRecords w' xs) = written w' @ bs" using AddRecords_extends by blast
  show ?case
  proof (cases "length (written w') \<le> n")
    case True
    then have "take n (written w' @ bs) = written w' @ take (n - length (written w')) bs" by simp
    with ReadRecord_after [OF Cons.prems(1) w'] Cons.prems(2) w' bs
    obtain r' where "ReadRecord r = (Some x, r')"
      "reader_at r' (take n (written (AddRecords w' xs))) (length (written w'))" by auto
    with Cons.IH [of w' r'] fr w' True show ?thesis
      by (cases k) (auto simp: split_beta take_pad)
  next
    case False
    with bs w' Cons.prems(2) have "reader_at r (take n (written w')) (length (written w))" by simp
    with fragments_truncated [of "written w" x True "written w'" r n "[]" 0] fr Cons.prems(3) False
    have "\<exists>r'. ReadRecord r = (None, r') \<and> at_end r'"
      by (auto simp: ReadRecord_loop_start reader_at_def)
    with ReadRecords_None w' False show ?thesis by auto
  qed
qed

lemma wf_writer_new: "outcomes f = [] \<Longrightarrow> contents f = [] \<Longrightarrow> wf_writer (Writer_new f)"
  by (simp add: wf_writer_def Writer_new_def)

lemma reader_at_new:
  "read_outcomes f = [] \<Longrightarrow> unread f = C \<Longrightarrow> reader_at (Reader_new f rep chk 0) C 0"
  by (simp add: reader_at_def Reader_new_def) (rule exI [of _ 0], simp)

abbreviation new_log :: WritableFile where
  "new_log \<equiv> \<lparr>contents = [], outcomes = []\<rparr>"

abbreviation open_log :: "bytes \<Rightarrow> bool \<Rightarrow> bool \<Rightarrow> Reader" where
  "open_log C rep chk \<equiv> Reader_new \<lparr>unread = C, read_outcomes = [], skip_status = Status_OK\<rparr> rep chk 0"

section \<open>Properties\<close>

text \<open>
  C12: records written to a log one after the other, of any length and number, are read
  back in order and unchanged, with or without checksum verification, then the reader
  reports the end of the log; nothing is reported as corrupt. Fragments, block trailers
  and blocks that a record fills to the last byte are covered.
\<close>

theorem log_round_trip:
  "fst (ReadRecords (Suc (length xs)) (open_log (written (AddRecords (Writer_new new_log) xs)) rep chk)) =
     map Some xs @ [None] \<and>
   reports (snd (ReadRecords (Suc (length xs))
     (open_log (written (AddRecords (Writer_new new_log) xs)) rep chk))) = []"
  using ReadRecords_AddRecords [of "Writer_new new_log" "open_log (written (AddRecords (Writer_new new_log) xs)) rep chk" xs]
    wf_writer_new [of new_log] reader_at_new
  by (simp add: Writer_new_def Reader_new_def)

text \<open>
  C13: when only the first \<open>n\<close> bytes of a log survive a crash, the reader returns exactly the
  records that are complete in them, in order, and then the end of the log, however often
  it is asked: no part of a record that was cut off is ever returned.
\<close>

theorem log_crash_prefix:
  "fst (ReadRecords k (open_log (take n (written (AddRecords (Writer_new new_log) xs))) rep chk)) =
     take k (map Some (complete_records (Writer_new new_log) n xs) @ replicate k None)"
  using ReadRecords_truncated [of "Writer_new new_log" _ n xs k] wf_writer_new [of new_log] reader_at_new
  by (simp add: Writer_new_def)

end
