(* ===== verification/Tables.thy ===== *)
theory Tables
  imports Blocks Filters Log_Format
begin

text \<open>
  Tables: \<^verbatim>\<open>table/format.cc\<close>, \<^verbatim>\<open>table/table_builder.cc\<close> and \<^verbatim>\<open>table/table.cc\<close>. The block cache
  only keeps blocks that were read and does not show. \<open>compress\<close> and \<open>uncompress\<close> stand for the Snappy
  library behind \<^verbatim>\<open>port::Snappy_Compress\<close> and \<^verbatim>\<open>port::Snappy_Uncompress\<close>.
\<close>

section \<open>Options\<close>

datatype CompressionType = kNoCompression | kSnappyCompression

fun CompressionType_code :: "CompressionType \<Rightarrow> byte" where
  "CompressionType_code kNoCompression = 0"
| "CompressionType_code kSnappyCompression = 1"

record TableOptions =
  to_cmp :: "bytes \<Rightarrow> bytes \<Rightarrow> int"
  to_sep :: "bytes \<Rightarrow> bytes \<Rightarrow> bytes"
  to_succ :: "bytes \<Rightarrow> bytes"
  to_block_size :: nat
  to_restart_interval :: nat
  to_filter :: "(bytes \<times> FilterPolicy) option"
  to_compression :: CompressionType
  to_compress :: "bytes \<Rightarrow> bytes option"
  to_uncompress :: "bytes \<Rightarrow> bytes option"
  to_verify :: bool

section \<open>Handles and the footer\<close>

record BlockHandle =
  bh_offset :: u64
  bh_size :: u64

definition BlockHandle_new :: BlockHandle where
  "BlockHandle_new = \<lparr>bh_offset = NOT 0, bh_size = NOT 0\<rparr>"

definition BlockHandle_EncodeTo :: "BlockHandle \<Rightarrow> bytes \<Rightarrow> bytes" where
  "BlockHandle_EncodeTo h dst = PutVarint64 (PutVarint64 dst (bh_offset h)) (bh_size h)"

definition BlockHandle_DecodeFrom :: "bytes \<Rightarrow> Status + (BlockHandle \<times> bytes)" where
  "BlockHandle_DecodeFrom input =
     (case GetVarint64 input of
        None \<Rightarrow> Inl (Status_Corruption (cstr ''bad block handle'') [])
      | Some (offset, input) \<Rightarrow>
          (case GetVarint64 input of
             None \<Rightarrow> Inl (Status_Corruption (cstr ''bad block handle'') [])
           | Some (sz, input) \<Rightarrow> Inr (\<lparr>bh_offset = offset, bh_size = sz\<rparr>, input)))"

record Footer =
  metaindex_handle :: BlockHandle
  index_handle :: BlockHandle

definition kTableMagicNumber :: u64 where
  "kTableMagicNumber = 0xdb4775248b80fb57"

definition kEncodedLength :: nat where
  "kEncodedLength = 2 * (10 + 10) + 8"

definition resize :: "nat \<Rightarrow> bytes \<Rightarrow> bytes" where
  "resize n s = take n s @ replicate (n - length s) 0"

definition Footer_EncodeTo :: "Footer \<Rightarrow> bytes \<Rightarrow> bytes" where
  "Footer_EncodeTo f dst =
     (let dst = BlockHandle_EncodeTo (index_handle f) (BlockHandle_EncodeTo (metaindex_handle f) dst);
          dst = resize (2 * (10 + 10)) dst
      in PutFixed32 (PutFixed32 dst (ucast (kTableMagicNumber AND 0xffffffff))) (ucast (drop_bit 32 kTableMagicNumber)))"

definition Footer_DecodeFrom :: "bytes \<Rightarrow> Status + Footer" where
  "Footer_DecodeFrom input =
     (let magic_lo = DecodeFixed32 (drop (kEncodedLength - 8) input);
          magic_hi = DecodeFixed32 (drop (kEncodedLength - 4) input);
          magic = push_bit 32 (ucast magic_hi) OR ucast magic_lo
      in if magic \<noteq> kTableMagicNumber then Inl (Status_InvalidArgument (cstr ''not an sstable (bad magic number)'') [])
         else (case BlockHandle_DecodeFrom input of
                 Inl s \<Rightarrow> Inl s
               | Inr (m, input) \<Rightarrow>
                   (case BlockHandle_DecodeFrom input of
                      Inl s \<Rightarrow> Inl s
                    | Inr (i, input) \<Rightarrow> Inr \<lparr>metaindex_handle = m, index_handle = i\<rparr>)))"

section \<open>Reading a block of a file\<close>

text \<open>
  The two kinds of files of \<^verbatim>\<open>util/env_posix.cc\<close>: \<^verbatim>\<open>PosixRandomAccessFile\<close>, whose read stops at the
  end of the file, and \<^verbatim>\<open>PosixMmapReadableFile\<close>, which refuses to read past it. Calls of \<^verbatim>\<open>pread\<close> do
  not fail here: the branch of \<^verbatim>\<open>PosixRandomAccessFile::Read\<close> that returns \<^verbatim>\<open>errno\<close> is left out.
\<close>

datatype RandomAccessFile = PosixRandomAccessFile bytes | PosixMmapReadableFile bytes bytes

fun RandomAccessFile_Read :: "RandomAccessFile \<Rightarrow> nat \<Rightarrow> nat \<Rightarrow> Status + bytes" where
  "RandomAccessFile_Read (PosixRandomAccessFile data) offset n = Inr (take n (drop offset data))"
| "RandomAccessFile_Read (PosixMmapReadableFile fname data) offset n =
     (if offset + n > length data then Inl (Status_IOError fname (cstr ''Invalid argument''))
      else Inr (take n (drop offset data)))"

definition kBlockTrailerSize :: nat where
  "kBlockTrailerSize = 5"

definition ReadBlock :: "TableOptions \<Rightarrow> RandomAccessFile \<Rightarrow> bool \<Rightarrow> BlockHandle \<Rightarrow> Status + bytes" where
  "ReadBlock opts file verify handle =
     (let n = unat (bh_size handle)
      in (case RandomAccessFile_Read file (unat (bh_offset handle)) (n + kBlockTrailerSize) of
            Inl s \<Rightarrow> Inl s
          | Inr data \<Rightarrow>
              if length data \<noteq> n + kBlockTrailerSize then Inl (Status_Corruption (cstr ''truncated block read'') [])
              else if verify \<and> Crc_Value 0 (take (n + 1) data) \<noteq> Unmask (DecodeFixed32 (drop (n + 1) data))
              then Inl (Status_Corruption (cstr ''block checksum mismatch'') [])
              else if data ! n = CompressionType_code kNoCompression then Inr (take n data)
              else if data ! n = CompressionType_code kSnappyCompression
              then (case to_uncompress opts (take n data) of
                      None \<Rightarrow> Inl (Status_Corruption (cstr ''corrupted compressed block contents'') [])
                    | Some udata \<Rightarrow> Inr udata)
              else Inl (Status_Corruption (cstr ''bad block type'') [])))"

section \<open>Building a table\<close>

record TableBuilder =
  r_options :: TableOptions
  r_file :: WritableFile
  r_offset :: u64
  r_status :: Status
  r_data_block :: BlockBuilder
  r_index_block :: BlockBuilder
  r_last_key :: bytes
  r_num_entries :: nat
  r_closed :: bool
  r_filter_block :: "FilterBlockBuilder option"
  r_pending_index_entry :: bool
  r_pending_handle :: BlockHandle

definition policy_of :: "TableOptions \<Rightarrow> FilterPolicy" where
  "policy_of opts = snd (the (to_filter opts))"

definition TableBuilder_new :: "TableOptions \<Rightarrow> WritableFile \<Rightarrow> TableBuilder" where
  "TableBuilder_new opts file =
     \<lparr>r_options = opts, r_file = file, r_offset = 0, r_status = Status_OK, r_data_block = BlockBuilder_new,
      r_index_block = BlockBuilder_new, r_last_key = [], r_num_entries = 0, r_closed = False,
      r_filter_block = map_option (\<lambda>(name, policy). StartBlock policy 0 FilterBlockBuilder_new) (to_filter opts),
      r_pending_index_entry = False, r_pending_handle = BlockHandle_new\<rparr>"

definition WriteRawBlock :: "bytes \<Rightarrow> CompressionType \<Rightarrow> TableBuilder \<Rightarrow> BlockHandle \<times> TableBuilder" where
  "WriteRawBlock block_contents type r =
     (let handle = \<lparr>bh_offset = r_offset r, bh_size = word_of_nat (length block_contents)\<rparr>;
          (s, f) = File_Append (r_file r) block_contents;
          r = r\<lparr>r_status := s, r_file := f\<rparr>
      in (handle,
          if Status_ok s then
            let crc = Extend 0 (Crc_Value 0 block_contents) [CompressionType_code type];
                trailer = CompressionType_code type # EncodeFixed32 (Mask crc);
                (s, f) = File_Append (r_file r) trailer;
                r = r\<lparr>r_status := s, r_file := f\<rparr>
            in if Status_ok s then r\<lparr>r_offset := r_offset r + word_of_nat (length block_contents + kBlockTrailerSize)\<rparr> else r
          else r))"

definition compress_block :: "TableOptions \<Rightarrow> bytes \<Rightarrow> bytes \<times> CompressionType" where
  "compress_block opts raw =
     (case to_compression opts of
        kNoCompression \<Rightarrow> (raw, kNoCompression)
      | kSnappyCompression \<Rightarrow>
          (case to_compress opts raw of
             Some compressed \<Rightarrow>
               if length compressed < length raw - length raw div 8 then (compressed, kSnappyCompression) else (raw, kNoCompression)
           | None \<Rightarrow> (raw, kNoCompression)))"

definition WriteBlock :: "BlockBuilder \<Rightarrow> TableBuilder \<Rightarrow> BlockHandle \<times> BlockBuilder \<times> TableBuilder" where
  "WriteBlock block r =
     (let (raw, block) = BlockBuilder_Finish block;
          (block_contents, type) = compress_block (r_options r) raw;
          (handle, r) = WriteRawBlock block_contents type r
      in (handle, BlockBuilder_Reset block, r))"

definition TableBuilder_Flush :: "TableBuilder \<Rightarrow> TableBuilder" where
  "TableBuilder_Flush r =
     (if \<not> Status_ok (r_status r) then r
      else if BlockBuilder_empty (r_data_block r) then r
      else
        let (handle, block, r) = WriteBlock (r_data_block r) r;
            r = r\<lparr>r_data_block := block, r_pending_handle := handle\<rparr>;
            r = (if Status_ok (r_status r)
                 then (case File_Flush (r_file r) of (s, f) \<Rightarrow> r\<lparr>r_pending_index_entry := True, r_status := s, r_file := f\<rparr>)
                 else r)
        in r\<lparr>r_filter_block := map_option (StartBlock (policy_of (r_options r)) (r_offset r)) (r_filter_block r)\<rparr>)"

definition AddIndexEntry :: "bytes \<Rightarrow> TableBuilder \<Rightarrow> TableBuilder" where
  "AddIndexEntry key r =
     r\<lparr>r_last_key := key, r_index_block := BlockBuilder_Add 1 key (BlockHandle_EncodeTo (r_pending_handle r) []) (r_index_block r),
       r_pending_index_entry := False\<rparr>"

definition TableBuilder_Add :: "bytes \<Rightarrow> bytes \<Rightarrow> TableBuilder \<Rightarrow> TableBuilder" where
  "TableBuilder_Add key val r =
     (if \<not> Status_ok (r_status r) then r
      else
        let opts = r_options r;
            r = (if r_pending_index_entry r then AddIndexEntry (to_sep opts (r_last_key r) key) r else r);
            r = r\<lparr>r_filter_block := map_option (\<lambda>b. AddKey b key) (r_filter_block r),
                  r_last_key := key, r_num_entries := r_num_entries r + 1,
                  r_data_block := BlockBuilder_Add (to_restart_interval opts) key val (r_data_block r)\<rparr>
        in if CurrentSizeEstimate (r_data_block r) \<ge> to_block_size opts then TableBuilder_Flush r else r)"

text \<open>The steps of \<open>Finish\<close>: the filter block, the metaindex block, the index block and the footer.\<close>

definition Finish_filter :: "TableBuilder \<Rightarrow> BlockHandle \<times> TableBuilder" where
  "Finish_filter r =
     (case r_filter_block r of
        Some b \<Rightarrow> if Status_ok (r_status r) then WriteRawBlock (FilterBlock_Finish (policy_of (r_options r)) b) kNoCompression r
                  else (BlockHandle_new, r)
      | None \<Rightarrow> (BlockHandle_new, r))"

definition Finish_metaindex :: "BlockHandle \<Rightarrow> TableBuilder \<Rightarrow> BlockHandle \<times> TableBuilder" where
  "Finish_metaindex filter_block_handle r =
     (if Status_ok (r_status r) then
        let b = (case to_filter (r_options r) of
                   Some (name, policy) \<Rightarrow>
                     BlockBuilder_Add (to_restart_interval (r_options r)) (cstr ''filter.'' @ name)
                       (BlockHandle_EncodeTo filter_block_handle []) BlockBuilder_new
                 | None \<Rightarrow> BlockBuilder_new);
            (handle, _, r) = WriteBlock b r
        in (handle, r)
      else (BlockHandle_new, r))"

definition Finish_index :: "TableBuilder \<Rightarrow> BlockHandle \<times> TableBuilder" where
  "Finish_index r =
     (if Status_ok (r_status r) then
        let r = (if r_pending_index_entry r then AddIndexEntry (to_succ (r_options r) (r_last_key r)) r else r);
            (handle, block, r) = WriteBlock (r_index_block r) r
        in (handle, r\<lparr>r_index_block := block\<rparr>)
      else (BlockHandle_new, r))"

definition Finish_footer :: "BlockHandle \<Rightarrow> BlockHandle \<Rightarrow> TableBuilder \<Rightarrow> TableBuilder" where
  "Finish_footer metaindex index r =
     (if Status_ok (r_status r) then
        let enc = Footer_EncodeTo \<lparr>metaindex_handle = metaindex, index_handle = index\<rparr> [];
            (s, f) = File_Append (r_file r) enc;
            r = r\<lparr>r_status := s, r_file := f\<rparr>
        in if Status_ok s then r\<lparr>r_offset := r_offset r + word_of_nat (length enc)\<rparr> else r
      else r)"

definition TableBuilder_Finish :: "TableBuilder \<Rightarrow> TableBuilder" where
  "TableBuilder_Finish r =
     (let r = (TableBuilder_Flush r)\<lparr>r_closed := True\<rparr>;
          (filter_block_handle, r) = Finish_filter r;
          (metaindex_block_handle, r) = Finish_metaindex filter_block_handle r;
          (index_block_handle, r) = Finish_index r
      in Finish_footer metaindex_block_handle index_block_handle r)"

definition TableBuilder_FileSize :: "TableBuilder \<Rightarrow> u64" where
  "TableBuilder_FileSize r = r_offset r"

section \<open>Reading a table\<close>

record Table =
  tab_options :: TableOptions
  tab_file :: RandomAccessFile
  tab_metaindex_handle :: BlockHandle
  tab_index_block :: Block
  tab_filter :: "FilterBlockReader option"

definition ReadFilter :: "TableOptions \<Rightarrow> RandomAccessFile \<Rightarrow> bytes \<Rightarrow> FilterBlockReader option" where
  "ReadFilter opts file filter_handle_value =
     (case BlockHandle_DecodeFrom filter_handle_value of
        Inl _ \<Rightarrow> None
      | Inr (h, _) \<Rightarrow>
          (case ReadBlock opts file False h of
             Inl _ \<Rightarrow> None
           | Inr data \<Rightarrow> Some (FilterBlockReader_new data)))"

text \<open>No result when the iterator on the metaindex block reads outside it.\<close>

definition ReadMeta :: "TableOptions \<Rightarrow> RandomAccessFile \<Rightarrow> Footer \<Rightarrow> FilterBlockReader option option" where
  "ReadMeta opts file footer =
     (case to_filter opts of
        None \<Rightarrow> Some None
      | Some (name, policy) \<Rightarrow>
          (case ReadBlock opts file False (metaindex_handle footer) of
             Inl _ \<Rightarrow> Some None
           | Inr data \<Rightarrow>
               let ops = block_ops Bytewise_Compare; key = cstr ''filter.'' @ name
               in (case op_Seek ops key (Block_NewIterator (Block_new data)) of
                     None \<Rightarrow> None
                   | Some iter \<Rightarrow>
                       Some (if op_Valid ops iter \<and> op_key ops iter = key then ReadFilter opts file (op_value ops iter) else None))))"

text \<open>\<open>Open\<close> has no result when fewer bytes than the footer could be read, which the code does not check.\<close>

definition Table_Open :: "TableOptions \<Rightarrow> RandomAccessFile \<Rightarrow> u64 \<Rightarrow> (Status + Table) option" where
  "Table_Open opts file file_size =
     (if unat file_size < kEncodedLength then Some (Inl (Status_InvalidArgument (cstr ''file is too short to be an sstable'') []))
      else (case RandomAccessFile_Read file (unat file_size - kEncodedLength) kEncodedLength of
              Inl s \<Rightarrow> Some (Inl s)
            | Inr footer_input \<Rightarrow>
                if length footer_input < kEncodedLength then None
                else (case Footer_DecodeFrom footer_input of
                        Inl s \<Rightarrow> Some (Inl s)
                      | Inr footer \<Rightarrow>
                          (case ReadBlock opts file False (index_handle footer) of
                             Inl s \<Rightarrow> Some (Inl s)
                           | Inr data \<Rightarrow>
                               (case ReadMeta opts file footer of
                                  None \<Rightarrow> None
                                | Some filt \<Rightarrow>
                                    Some (Inr \<lparr>tab_options = opts, tab_file = file, tab_metaindex_handle = metaindex_handle footer,
                                               tab_index_block = Block_new data, tab_filter = filt\<rparr>))))))"

definition BlockReader :: "Table \<Rightarrow> bytes \<Rightarrow> BlockIterator" where
  "BlockReader table index_value =
     (case BlockHandle_DecodeFrom index_value of
        Inl s \<Rightarrow> EmptyIterator s
      | Inr (handle, _) \<Rightarrow>
          (case ReadBlock (tab_options table) (tab_file table) (to_verify (tab_options table)) handle of
             Inl s \<Rightarrow> EmptyIterator s
           | Inr data \<Rightarrow> Block_NewIterator (Block_new data)))"

type_synonym TableIterator = "(BlockIterator, BlockIterator) TwoLevelIterator"

definition table_iter_ops :: "Table \<Rightarrow> TableIterator Iterator" where
  "table_iter_ops table = (let ops = block_ops (to_cmp (tab_options table)) in TwoLevel_ops ops ops (BlockReader table))"

definition Table_NewIterator :: "Table \<Rightarrow> TableIterator" where
  "Table_NewIterator table = NewTwoLevelIterator (Block_NewIterator (tab_index_block table))"

text \<open>\<open>InternalGet\<close>: the status and the entry handed to the callback.\<close>

definition InternalGet :: "Table \<Rightarrow> bytes \<Rightarrow> (Status \<times> kv option) option" where
  "InternalGet table k =
     (let opts = tab_options table; ops = block_ops (to_cmp opts)
      in Option.bind (op_Seek ops k (Block_NewIterator (tab_index_block table))) (\<lambda>iiter.
           if op_Valid ops iiter then
             let skip = (case tab_filter table of
                           None \<Rightarrow> False
                         | Some filt \<Rightarrow>
                             (case BlockHandle_DecodeFrom (op_value ops iiter) of
                                Inl _ \<Rightarrow> False
                              | Inr (handle, _) \<Rightarrow> \<not> FilterBlock_KeyMayMatch (policy_of opts) filt (bh_offset handle) k))
             in if skip then Some (op_status ops iiter, None)
                else
                  Option.bind (op_Seek ops k (BlockReader table (op_value ops iiter))) (\<lambda>block_iter.
                    let s = op_status ops block_iter
                    in Some (if Status_ok s then op_status ops iiter else s,
                             if op_Valid ops block_iter then Some (op_key ops block_iter, op_value ops block_iter) else None))
           else Some (op_status ops iiter, None)))"

definition Table_ApproximateOffsetOf :: "Table \<Rightarrow> bytes \<Rightarrow> u64 option" where
  "Table_ApproximateOffsetOf table key =
     (let ops = block_ops (to_cmp (tab_options table))
      in Option.bind (op_Seek ops key (Block_NewIterator (tab_index_block table))) (\<lambda>index_iter.
           Some (if op_Valid ops index_iter
                 then (case BlockHandle_DecodeFrom (op_value ops index_iter) of
                         Inl _ \<Rightarrow> bh_offset (tab_metaindex_handle table)
                       | Inr (handle, _) \<Rightarrow> bh_offset handle)
                 else bh_offset (tab_metaindex_handle table))))"

end
