(* ===== verification/Table_Contents.thy ===== *)
theory Table_Contents
  imports Tables
begin

text \<open>
  What a finished table holds: every block can be read back through its handle, the index leads to
  the right block, and the iterator of the table is a cursor on the keys and values that were added.
\<close>

section \<open>Handles and footers\<close>

lemma BlockHandle_round_trip: "BlockHandle_DecodeFrom (BlockHandle_EncodeTo h dst @ rest) = BlockHandle_DecodeFrom (dst @ BlockHandle_EncodeTo h [] @ rest)"
  by (simp add: BlockHandle_EncodeTo_def PutVarint64_def)

lemma BlockHandle_Decode [simp]: "BlockHandle_DecodeFrom (BlockHandle_EncodeTo h [] @ rest) = Inr (h, rest)"
  by (simp add: BlockHandle_EncodeTo_def BlockHandle_DecodeFrom_def codec_simps)

lemma BlockHandle_Decode_end [simp]: "BlockHandle_DecodeFrom (BlockHandle_EncodeTo h []) = Inr (h, [])"
  using BlockHandle_Decode [of h "[]"] by simp

lemma length_handle: "length (BlockHandle_EncodeTo h []) \<le> 20"
proof -
  have "length (EncodeVarint64 v) \<le> 10" for v using VarintLength_le_10 [of v] by (simp add: length_EncodeVarint64)
  from this [of "bh_offset h"] this [of "bh_size h"] show ?thesis by (simp add: BlockHandle_EncodeTo_def PutVarint64_def)
qed

lemma Footer_layout:
  obtains pad where "Footer_EncodeTo f [] = BlockHandle_EncodeTo (metaindex_handle f) [] @ BlockHandle_EncodeTo (index_handle f) [] @ pad @
      EncodeFixed32 (ucast (kTableMagicNumber AND 0xffffffff)) @ EncodeFixed32 (ucast (drop_bit 32 kTableMagicNumber))"
    "length (BlockHandle_EncodeTo (metaindex_handle f) []) + length (BlockHandle_EncodeTo (index_handle f) []) + length pad = 40"
proof -
  let ?m = "BlockHandle_EncodeTo (metaindex_handle f) []" and ?i = "BlockHandle_EncodeTo (index_handle f) []"
  have app: "BlockHandle_EncodeTo h dst = dst @ BlockHandle_EncodeTo h []" for h dst by (simp add: BlockHandle_EncodeTo_def PutVarint64_def)
  have len: "length (?m @ ?i) \<le> 40" using length_handle [of "metaindex_handle f"] length_handle [of "index_handle f"] by simp
  show ?thesis
    by (rule that [of "replicate (40 - length (?m @ ?i)) 0"])
      (use len in \<open>simp_all add: Footer_EncodeTo_def Let_def resize_def put_simps app [of "index_handle f" ?m]\<close>)
qed

lemma length_Footer [simp]: "length (Footer_EncodeTo f []) = kEncodedLength"
  by (rule Footer_layout [of f]) (simp add: kEncodedLength_def)

lemma Footer_round_trip [simp]: "Footer_DecodeFrom (Footer_EncodeTo f []) = Inr f"
proof -
  let ?lo = "EncodeFixed32 (ucast (kTableMagicNumber AND 0xffffffff))" and ?hi = "EncodeFixed32 (ucast (drop_bit 32 kTableMagicNumber))"
  obtain pad where enc: "Footer_EncodeTo f [] = (BlockHandle_EncodeTo (metaindex_handle f) [] @ BlockHandle_EncodeTo (index_handle f) [] @ pad) @ ?lo @ ?hi"
    and len: "length (BlockHandle_EncodeTo (metaindex_handle f) [] @ BlockHandle_EncodeTo (index_handle f) [] @ pad) = 40"
    by (rule Footer_layout [of f]) simp
  have lo: "drop 40 (Footer_EncodeTo f []) = ?lo @ ?hi" unfolding enc using len by simp
  have "drop 44 (Footer_EncodeTo f []) = drop 4 (drop 40 (Footer_EncodeTo f []))" by simp
  then have hi: "drop 44 (Footer_EncodeTo f []) = ?hi @ []" unfolding lo by simp
  have "push_bit 32 (ucast (DecodeFixed32 (drop 44 (Footer_EncodeTo f [])))) OR ucast (DecodeFixed32 (drop 40 (Footer_EncodeTo f []))) = kTableMagicNumber"
    unfolding lo hi DecodeFixed32_EncodeFixed32 by (simp add: kTableMagicNumber_def)
  moreover have "Footer_EncodeTo f [] = BlockHandle_EncodeTo (metaindex_handle f) [] @ BlockHandle_EncodeTo (index_handle f) [] @ pad @ ?lo @ ?hi"
    using enc by simp
  ultimately show ?thesis by (simp add: Footer_DecodeFrom_def Let_def kEncodedLength_def)
qed

section \<open>A block in a file\<close>

definition block_image :: "bytes \<Rightarrow> CompressionType \<Rightarrow> bytes" where
  "block_image data type = data @ CompressionType_code type # EncodeFixed32 (Mask (Extend 0 (Crc_Value 0 data) [CompressionType_code type]))"

definition holds :: "bytes \<Rightarrow> BlockHandle \<Rightarrow> bytes \<Rightarrow> bool" where
  "holds f h img \<longleftrightarrow> length img = unat (bh_size h) + 5 \<and> take (length img) (drop (unat (bh_offset h)) f) = img"

fun file_bytes :: "RandomAccessFile \<Rightarrow> bytes" where
  "file_bytes (PosixRandomAccessFile data) = data"
| "file_bytes (PosixMmapReadableFile fname data) = data"

definition snappy_ok :: "TableOptions \<Rightarrow> bool" where
  "snappy_ok opts \<longleftrightarrow> (\<forall>x y. to_compress opts x = Some y \<longrightarrow> to_uncompress opts y = Some x)"

definition stored_block :: "TableOptions \<Rightarrow> bytes \<Rightarrow> bytes" where
  "stored_block opts raw = (case compress_block opts raw of (data, type) \<Rightarrow> block_image data type)"

lemma length_block_image [simp]: "length (block_image data type) = length data + 5"
  by (simp add: block_image_def)

lemma holds_append: "holds f h img \<Longrightarrow> holds (f @ g) h img"
proof -
  assume h: "holds f h img"
  then have "length (take (length img) (drop (unat (bh_offset h)) f)) = length img" unfolding holds_def by metis
  moreover have "0 < length img" using h by (auto simp: holds_def)
  ultimately have "unat (bh_offset h) + length img \<le> length f" unfolding length_take length_drop by linarith
  then show ?thesis using h by (auto simp: holds_def)
qed

lemma RandomAccessFile_Read_in:
  "offset + n \<le> length (file_bytes rf) \<Longrightarrow> RandomAccessFile_Read rf offset n = Inr (take n (drop offset (file_bytes rf)))"
  by (cases rf rule: file_bytes.cases) simp_all

lemma ReadBlock_holds:
  assumes "holds (file_bytes file) h (block_image data type)"
  shows "ReadBlock opts file verify h =
    (case type of
       kNoCompression \<Rightarrow> Inr data
     | kSnappyCompression \<Rightarrow>
         (case to_uncompress opts data of
            None \<Rightarrow> Inl (Status_Corruption (cstr ''corrupted compressed block contents'') [])
          | Some udata \<Rightarrow> Inr udata))"
proof -
  let ?img = "block_image data type"
  have n: "unat (bh_size h) = length data" and img: "take (length data + 5) (drop (unat (bh_offset h)) (file_bytes file)) = ?img"
    using assms unfolding holds_def by simp_all metis
  have "unat (bh_offset h) + (length data + 5) \<le> length (file_bytes file)"
    using arg_cong [OF img, of length] by simp
  then have read: "RandomAccessFile_Read file (unat (bh_offset h)) (length data + 5) = Inr ?img"
    using img by (simp add: RandomAccessFile_Read_in)
  have "drop (length data + 1) ?img = EncodeFixed32 (Mask (Extend 0 (Crc_Value 0 data) [CompressionType_code type])) @ []"
    by (simp add: block_image_def)
  then have crc: "Unmask (DecodeFixed32 (drop (length data + 1) ?img)) = Extend 0 (Crc_Value 0 data) [CompressionType_code type]"
    by (simp only: DecodeFixed32_EncodeFixed32 Unmask_Mask)
  have "Crc_Value 0 (take (length data + 1) ?img) = Extend 0 (Crc_Value 0 data) [CompressionType_code type]"
    by (simp add: block_image_def Crc_Value_def Extend_reference crc_reference_append)
  with crc have "\<not> (Crc_Value 0 (take (length data + 1) ?img) \<noteq> Unmask (DecodeFixed32 (drop (length data + 1) ?img)))" by simp
  moreover have "take (length data) ?img = data" "?img ! length data = CompressionType_code type" by (simp_all add: block_image_def nth_append)
  ultimately show ?thesis using read n by (cases type) (simp_all add: ReadBlock_def Let_def kBlockTrailerSize_def)
qed

lemma ReadBlock_stored:
  assumes "holds (file_bytes file) h (stored_block opts raw)" "snappy_ok opts"
  shows "ReadBlock opts file verify h = Inr raw"
proof -
  obtain data type where c: "compress_block opts raw = (data, type)" by fastforce
  then have "holds (file_bytes file) h (block_image data type)" using assms(1) by (simp add: stored_block_def)
  from ReadBlock_holds [OF this] show ?thesis
    using c assms(2) by (auto simp: compress_block_def snappy_ok_def split: CompressionType.splits option.splits if_splits)
qed

lemma length_stored: "length (stored_block opts raw) \<le> length raw + 5"
  by (auto simp: stored_block_def compress_block_def split: CompressionType.splits option.splits)

section \<open>The invariant of the builder\<close>

definition writes_to :: "TableBuilder \<Rightarrow> bytes \<Rightarrow> bool" where
  "writes_to r f \<longleftrightarrow> r_status r = Status_OK \<and> r_file r = \<lparr>contents = f, outcomes = []\<rparr> \<and> r_offset r = word_of_nat (length f)"

lemma WriteRawBlock_ok:
  assumes "writes_to r f"
  shows "WriteRawBlock data type r = (\<lparr>bh_offset = word_of_nat (length f), bh_size = word_of_nat (length data)\<rparr>,
    r\<lparr>r_file := \<lparr>contents = f @ block_image data type, outcomes = []\<rparr>, r_offset := word_of_nat (length (f @ block_image data type))\<rparr>)"
  using assms
  by (simp add: WriteRawBlock_def writes_to_def File_Append_def Let_def block_image_def kBlockTrailerSize_def Status_ok_def)

text \<open>The handle of an image at the end of a file leads to it.\<close>

lemma holds_new:
  assumes "length f + length data + 5 < 2 ^ 64"
  shows "holds (f @ block_image data type) \<lparr>bh_offset = word_of_nat (length f), bh_size = word_of_nat (length data)\<rparr> (block_image data type)"
  using assms by (simp add: holds_def unat_of_nat)

definition block_stored :: "TableOptions \<Rightarrow> bytes \<Rightarrow> BlockHandle \<Rightarrow> kv list \<Rightarrow> bool" where
  "block_stored opts f h kvs \<longleftrightarrow> (\<exists>b es rs. builder_rep b es rs \<and> map snd es = kvs \<and> holds f h (stored_block opts (block_bytes es rs)))"

lemma block_stored_append: "block_stored opts f h kvs \<Longrightarrow> block_stored opts (f @ g) h kvs"
  by (auto simp: block_stored_def intro: holds_append)

lemma block_stored_reader:
  assumes "block_stored opts (file_bytes rf) h kvs" "snappy_ok opts" "kvs_size kvs < 2 ^ 32 - 8"
  obtains raw where "ReadBlock opts rf verify h = Inr raw" "block_rep (Block_NewIterator (Block_new raw)) kvs (length kvs)"
proof -
  obtain b es rs where b: "builder_rep b es rs" "map snd es = kvs" "holds (file_bytes rf) h (stored_block opts (block_bytes es rs))"
    using assms(1) by (auto simp: block_stored_def)
  have "block_ok es rs" using builder_ok [OF b(1)] b(2) assms(3) by simp
  from Block_iterator [OF this] show ?thesis
    using that [OF ReadBlock_stored [OF b(3) assms(2)]] b(2) by (metis length_map)
qed

lemma WriteBlock_ok:
  assumes r: "writes_to r f" and b: "builder_rep b es rs" and sz: "length f + kvs_size (map snd es) + 13 < 2 ^ 64"
  obtains h where "WriteBlock b r = (h, BlockBuilder_Reset (snd (BlockBuilder_Finish b)),
      r\<lparr>r_file := \<lparr>contents = f @ stored_block (r_options r) (block_bytes es rs), outcomes = []\<rparr>,
        r_offset := word_of_nat (length (f @ stored_block (r_options r) (block_bytes es rs)))\<rparr>)"
    "block_stored (r_options r) (f @ stored_block (r_options r) (block_bytes es rs)) h (map snd es)"
    "bh_offset h = word_of_nat (length f)"
proof -
  let ?raw = "block_bytes es rs" and ?opts = "r_options r"
  obtain data type where c: "compress_block ?opts ?raw = (data, type)" by fastforce
  then have img: "stored_block ?opts ?raw = block_image data type" by (simp add: stored_block_def)
  have rok: "restarts_ok es rs" using b by (simp add: builder_rep_def)
  have "length data + 5 \<le> length ?raw + 5" using length_stored [of ?opts ?raw] img by simp
  then have "length f + length data + 5 < 2 ^ 64" using block_length [OF rok] sz by linarith
  note new = holds_new [OF this, of type, folded img]
  obtain blk where fin: "BlockBuilder_Finish b = (?raw, blk)" using builder_Finish [OF b] by (metis prod.collapse)
  then have "WriteBlock b r = (\<lparr>bh_offset = word_of_nat (length f), bh_size = word_of_nat (length data)\<rparr>, BlockBuilder_Reset blk,
      r\<lparr>r_file := \<lparr>contents = f @ stored_block ?opts ?raw, outcomes = []\<rparr>, r_offset := word_of_nat (length (f @ stored_block ?opts ?raw))\<rparr>)"
    using c WriteRawBlock_ok [OF r, of data type] img by (simp add: WriteBlock_def)
  then show ?thesis using new b fin by (intro that) (auto simp: block_stored_def)
qed

lemma stored_size:
  assumes "builder_rep b es rs" "es \<noteq> []"
  shows "length (stored_block opts (block_bytes es rs)) \<le> kvs_size (map snd es)"
proof -
  have "0 < length es" using assms(2) by simp
  then show ?thesis
    using length_stored [of opts "block_bytes es rs"] block_length [of es rs] assms(1) unfolding builder_rep_def by linarith
qed

text \<open>
  \<open>f\<close> is the file so far, \<open>bs\<close> the blocks in it with their handles \<open>hs\<close>, \<open>ix\<close> the entries of the index block,
  and \<open>p\<close> what is in the data block. The index has an entry for each block but the last one when it is
  pending.
\<close>

definition collects :: "BlockBuilder \<Rightarrow> kv list \<Rightarrow> bool" where
  "collects b kvs \<longleftrightarrow> (\<exists>es rs. builder_rep b es rs \<and> map snd es = kvs)"

lemma collects_new: "collects BlockBuilder_new []" "collects (BlockBuilder_Reset b) []"
  using builder_new unfolding collects_def by blast+

lemma collects_Add: "collects b kvs \<Longrightarrow> 0 < interval \<Longrightarrow> collects (BlockBuilder_Add interval k v b) (kvs @ [(k, v)])"
  unfolding collects_def by (elim exE conjE, rule builder_Add, assumption+) force

definition index_ok :: "TableOptions \<Rightarrow> kv list list \<Rightarrow> BlockHandle list \<Rightarrow> kv list \<Rightarrow> kv list \<Rightarrow> bool" where
  "index_ok opts bs hs ix p \<longleftrightarrow> (\<forall>j < length ix. snd (ix ! j) = BlockHandle_EncodeTo (hs ! j) [] \<and>
     concat (drop (Suc j) bs) @ p \<noteq> [] \<and>
     fst (ix ! j) = to_sep opts (fst (last (bs ! j))) (fst (hd (concat (drop (Suc j) bs) @ p))))"

definition filter_ok :: "TableOptions \<Rightarrow> bytes \<Rightarrow> kv list list \<Rightarrow> BlockHandle list \<Rightarrow> kv list \<Rightarrow> FilterBlockBuilder option \<Rightarrow> bool" where
  "filter_ok opts f bs hs p fb \<longleftrightarrow> (fb = None \<longleftrightarrow> to_filter opts = None) \<and>
     (\<forall>b. fb = Some b \<longrightarrow> (\<exists>F P. fb_inv (policy_of opts) b F P \<and> length F = unat ((word_of_nat (length f) :: u64) div kFilterBase) \<and>
        (\<forall>j < length bs. \<forall>k \<in> fst ` set (bs ! j). placed F P (unat (bh_offset (hs ! j) div kFilterBase)) k) \<and>
        fst ` set p \<subseteq> set P))"

definition built ::
    "TableBuilder \<Rightarrow> bytes \<Rightarrow> kv list list \<Rightarrow> BlockHandle list \<Rightarrow> kv list \<Rightarrow> kv list \<Rightarrow> bool" where
  "built r f bs hs ix p \<longleftrightarrow> writes_to r f \<and> length f \<le> kvs_size (concat bs) \<and>
     collects (r_data_block r) p \<and> collects (r_index_block r) ix \<and>
     length hs = length bs \<and> (\<forall>j < length bs. bs ! j \<noteq> [] \<and> block_stored (r_options r) f (hs ! j) (bs ! j)) \<and>
     (concat bs @ p \<noteq> [] \<longrightarrow> r_last_key r = fst (last (concat bs @ p))) \<and>
     (if r_pending_index_entry r then p = [] \<and> length bs = Suc (length ix) \<and> r_pending_handle r = last hs else length bs = length ix) \<and>
     index_ok (r_options r) bs hs ix p \<and> filter_ok (r_options r) f bs hs p (r_filter_block r)"

lemma built_new:
  assumes "to_filter opts = None \<or> filter_policy (policy_of opts)"
  shows "built (TableBuilder_new opts \<lparr>contents = [], outcomes = []\<rparr>) [] [] [] [] []"
proof -
  have "filter_ok opts [] [] [] [] (map_option (\<lambda>(name, policy). StartBlock policy 0 FilterBlockBuilder_new) (to_filter opts))"
    using fb_inv_new by (auto simp: filter_ok_def StartBlock_def FillFilters.simps)
  then show ?thesis
    using collects_new(1) by (simp add: built_def TableBuilder_new_def writes_to_def index_ok_def)
qed

lemma filter_ok_next:
  assumes fok: "filter_ok opts f bs hs p fb" and pol: "to_filter opts = None \<or> filter_policy (policy_of opts)"
    and hs: "length hs = length bs" "bh_offset h = word_of_nat (length f)" and len: "length f \<le> length f'" "length f' < 2 ^ 64"
  shows "filter_ok opts f' (bs @ [p]) (hs @ [h]) [] (map_option (StartBlock (policy_of opts) (word_of_nat (length f'))) fb)"
proof (cases fb)
  case None
  then show ?thesis using fok by (simp add: filter_ok_def)
next
  case (Some b)
  then obtain F P where b: "fb_inv (policy_of opts) b F P" "length F = unat ((word_of_nat (length f) :: u64) div kFilterBase)"
    "\<forall>j < length bs. \<forall>k \<in> fst ` set (bs ! j). placed F P (unat (bh_offset (hs ! j) div kFilterBase)) k" "fst ` set p \<subseteq> set P"
    and some: "to_filter opts \<noteq> None"
    using fok by (auto simp: filter_ok_def)
  have law: "filter_policy (policy_of opts)" using pol some by simp
  let ?n = "unat ((word_of_nat (length f') :: u64) div kFilterBase)"
  have "length F \<le> ?n" unfolding b(2) using len by (simp add: unat_div unat_of_nat div_le_mono)
  then obtain F' P' where F': "fb_inv (policy_of opts) (FillFilters (policy_of opts) ?n b) F' P'" "length F' = ?n"
    "\<forall>i k. placed F P i k \<longrightarrow> placed F' P' i k" using filter_policy.fb_inv_FillFilters [OF law b(1)] by blast
  have "placed F P (unat (bh_offset h div kFilterBase)) k" if "k \<in> fst ` set p" for k
    using that b(2,4) hs(2) by (auto simp: placed_def)
  then have "\<forall>j < length (bs @ [p]). \<forall>k \<in> fst ` set ((bs @ [p]) ! j). placed F P (unat (bh_offset ((hs @ [h]) ! j) div kFilterBase)) k"
    using b(3) hs(1) by (auto simp: nth_append less_Suc_eq)
  then have "\<forall>j < length (bs @ [p]). \<forall>k \<in> fst ` set ((bs @ [p]) ! j). placed F' P' (unat (bh_offset ((hs @ [h]) ! j) div kFilterBase)) k"
    using F'(3) by blast
  then show ?thesis using F'(1,2) some Some unfolding filter_ok_def StartBlock_def by auto
qed

lemma built_Flush:
  assumes bt: "built r f bs hs ix p" and p: "p \<noteq> []" and pol: "to_filter (r_options r) = None \<or> filter_policy (policy_of (r_options r))"
    and sz: "kvs_size (concat bs @ p) < 2 ^ 32"
  obtains f' h where "built (TableBuilder_Flush r) f' (bs @ [p]) (hs @ [h]) ix []" "r_pending_index_entry (TableBuilder_Flush r)"
    "r_options (TableBuilder_Flush r) = r_options r"
proof -
  let ?opts = "r_options r"
  obtain es rs where es: "builder_rep (r_data_block r) es rs" "map snd es = p" using bt by (auto simp: built_def collects_def)
  have ne: "es \<noteq> []" using es(2) p by auto
  have w: "writes_to r f" "length f \<le> kvs_size (concat bs)" "length hs = length bs" "length bs = length ix" using bt p by (auto simp: built_def split: if_splits)
  have kvs: "kvs_size (concat bs @ p) = kvs_size (concat bs) + kvs_size p" by (simp add: kvs_size_def)
  let ?img = "stored_block ?opts (block_bytes es rs)"
  obtain h where h: "WriteBlock (r_data_block r) r = (h, BlockBuilder_Reset (snd (BlockBuilder_Finish (r_data_block r))),
      r\<lparr>r_file := \<lparr>contents = f @ ?img, outcomes = []\<rparr>, r_offset := word_of_nat (length (f @ ?img))\<rparr>)"
    "block_stored ?opts (f @ ?img) h p" "bh_offset h = word_of_nat (length f)"
    by (rule WriteBlock_ok [OF w(1) es(1)]) (use w(2) sz kvs es(2) in auto)
  have img: "length (f @ ?img) \<le> kvs_size (concat (bs @ [p]))" using stored_size [OF es(1) ne, of ?opts] w(2) kvs es(2) by simp
  have "\<not> BlockBuilder_empty (r_data_block r)"
    using es(1) ne off_less_iff [of 0 es "length es"] by (auto simp: builder_rep_def BlockBuilder_empty_def)
  then have fl: "TableBuilder_Flush r = r\<lparr>r_file := \<lparr>contents = f @ ?img, outcomes = []\<rparr>, r_offset := word_of_nat (length (f @ ?img)),
      r_data_block := BlockBuilder_Reset (snd (BlockBuilder_Finish (r_data_block r))), r_pending_handle := h,
      r_pending_index_entry := True, r_filter_block := map_option (StartBlock (policy_of ?opts) (word_of_nat (length (f @ ?img)))) (r_filter_block r)\<rparr>"
    using w(1) h(1) by (simp add: TableBuilder_Flush_def writes_to_def Status_ok_def File_Flush_def)
  have fok: "filter_ok ?opts (f @ ?img) (bs @ [p]) (hs @ [h]) [] (map_option (StartBlock (policy_of ?opts) (word_of_nat (length (f @ ?img)))) (r_filter_block r))"
    by (rule filter_ok_next [OF _ pol w(3) h(3)]) (use bt img sz kvs in \<open>auto simp: built_def\<close>)
  have st: "\<forall>j < length (bs @ [p]). (bs @ [p]) ! j \<noteq> [] \<and> block_stored ?opts (f @ ?img) ((hs @ [h]) ! j) ((bs @ [p]) ! j)"
    using bt p h(2) block_stored_append [of ?opts f _ _ ?img] by (auto simp: built_def nth_append less_Suc_eq)
  have iok: "index_ok ?opts (bs @ [p]) (hs @ [h]) ix []"
    using bt w(3,4) by (auto simp: built_def index_ok_def nth_append)
  have "built (TableBuilder_Flush r) (f @ ?img) (bs @ [p]) (hs @ [h]) ix []"
    unfolding built_def fl using bt img st iok fok w collects_new(2) p
    by (auto simp: writes_to_def built_def)
  then show ?thesis by (rule that) (simp_all add: fl)
qed

text \<open>Adding an entry to the data block, after the pending index entry.\<close>

definition add_entry :: "bytes \<Rightarrow> bytes \<Rightarrow> TableBuilder \<Rightarrow> TableBuilder" where
  "add_entry key val r =
     (let opts = r_options r;
          r = (if r_pending_index_entry r then AddIndexEntry (to_sep opts (r_last_key r) key) r else r)
      in r\<lparr>r_filter_block := map_option (\<lambda>b. AddKey b key) (r_filter_block r),
           r_last_key := key, r_num_entries := r_num_entries r + 1,
           r_data_block := BlockBuilder_Add (to_restart_interval opts) key val (r_data_block r)\<rparr>)"

lemma last_nth: "length xs = Suc n \<Longrightarrow> last xs = xs ! n"
  by (cases xs rule: rev_cases) (auto simp: nth_append)

lemma last_concat:
  assumes "xss \<noteq> []" "last xss \<noteq> []" shows "last (concat xss) = last (last xss)"
  using assms by (cases xss rule: rev_cases) simp_all

lemma built_add_entry:
  assumes bt: "built r f bs hs ix p" and int: "0 < to_restart_interval (r_options r)"
  obtains ix' where "built (add_entry k v r) f bs hs ix' (p @ [(k, v)])" "r_options (add_entry k v r) = r_options r"
proof -
  let ?opts = "r_options r"
  have add: "collects (BlockBuilder_Add (to_restart_interval ?opts) k v (r_data_block r)) (p @ [(k, v)])"
    using bt int collects_Add by (simp add: built_def)
  have fok: "filter_ok ?opts f bs hs (p @ [(k, v)]) (map_option (\<lambda>b. AddKey b k) (r_filter_block r))"
  proof (cases "r_filter_block r")
    case (Some b)
    then obtain F P where b: "fb_inv (policy_of ?opts) b F P" "length F = unat ((word_of_nat (length f) :: u64) div kFilterBase)"
      "\<forall>j < length bs. \<forall>k \<in> fst ` set (bs ! j). placed F P (unat (bh_offset (hs ! j) div kFilterBase)) k" "fst ` set p \<subseteq> set P"
      "to_filter ?opts \<noteq> None"
      using bt by (auto simp: built_def filter_ok_def)
    have "placed F P i x \<Longrightarrow> placed F (P @ [k]) i x" for i x by (auto simp: placed_def)
    then show ?thesis
      using b Some fb_inv_AddKey [OF b(1), of k] unfolding filter_ok_def by (auto intro!: exI [of _ F] exI [of _ "P @ [k]"])
  qed (use bt in \<open>simp add: built_def filter_ok_def\<close>)
  show ?thesis
  proof (cases "r_pending_index_entry r")
    case True
    let ?sep = "to_sep ?opts (r_last_key r) k" and ?h = "BlockHandle_EncodeTo (r_pending_handle r) []"
    have pend: "p = []" "length bs = Suc (length ix)" "r_pending_handle r = last hs" "length hs = length bs"
      using bt True by (auto simp: built_def)
    have ixb: "collects (BlockBuilder_Add 1 ?sep ?h (r_index_block r)) (ix @ [(?sep, ?h)])"
      using bt collects_Add by (simp add: built_def)
    have bsl: "bs \<noteq> []" "last bs = bs ! length ix" "last hs = hs ! length ix" using pend by (auto simp: last_nth)
    have "last bs \<noteq> []" using bt pend bsl(2) by (auto simp: built_def)
    then have "concat bs @ p \<noteq> []" "last (concat bs @ p) = last (last bs)"
      using last_concat [OF bsl(1)] bsl(1) pend(1) by (auto simp: concat_eq_Nil_conv)
    then have "r_last_key r = fst (last (bs ! length ix))"
      using bt bsl(2) by (simp add: built_def)
    moreover have "index_ok ?opts bs hs ix p" using bt by (simp add: built_def)
    ultimately have iok: "index_ok ?opts bs hs (ix @ [(?sep, ?h)]) [(k, v)]"
      using pend bsl by (auto simp: index_ok_def nth_append less_Suc_eq hd_append)
    have "built (add_entry k v r) f bs hs (ix @ [(?sep, ?h)]) [(k, v)]"
      using bt pend add iok fok ixb True by (simp add: add_entry_def AddIndexEntry_def built_def writes_to_def Let_def)
    then show ?thesis using pend(1) by (intro that) (simp_all add: add_entry_def AddIndexEntry_def Let_def)
  next
    case False
    have "index_ok ?opts bs hs ix (p @ [(k, v)])"
      using bt by (auto simp: built_def index_ok_def hd_append split: if_splits)
    then have "built (add_entry k v r) f bs hs ix (p @ [(k, v)])"
      using bt add fok False by (simp add: add_entry_def built_def writes_to_def Let_def)
    then show ?thesis using False by (intro that) (simp_all add: add_entry_def Let_def)
  qed
qed

lemma built_Add:
  assumes bt: "built r f bs hs ix p" and int: "0 < to_restart_interval (r_options r)"
    and pol: "to_filter (r_options r) = None \<or> filter_policy (policy_of (r_options r))"
    and sz: "kvs_size (concat bs @ p @ [(k, v)]) < 2 ^ 32"
  obtains f' bs' hs' ix' p' where "built (TableBuilder_Add k v r) f' bs' hs' ix' p'" "concat bs' @ p' = concat bs @ p @ [(k, v)]"
    "r_options (TableBuilder_Add k v r) = r_options r"
proof -
  obtain ix' where add: "built (add_entry k v r) f bs hs ix' (p @ [(k, v)])" "r_options (add_entry k v r) = r_options r"
    by (rule built_add_entry [OF bt int])
  let ?r = "add_entry k v r"
  have "Status_ok (r_status r)" using bt by (simp add: built_def writes_to_def Status_ok_def)
  then have eq: "TableBuilder_Add k v r = (if CurrentSizeEstimate (r_data_block ?r) \<ge> to_block_size (r_options r) then TableBuilder_Flush ?r else ?r)"
    by (simp add: TableBuilder_Add_def add_entry_def Let_def)
  show ?thesis
  proof (cases "CurrentSizeEstimate (r_data_block ?r) \<ge> to_block_size (r_options r)")
    case True
    obtain f' h where "built (TableBuilder_Flush ?r) f' (bs @ [p @ [(k, v)]]) (hs @ [h]) ix' []" "r_options (TableBuilder_Flush ?r) = r_options ?r"
      by (rule built_Flush [OF add(1)]) (use pol sz add(2) in auto)
    then show ?thesis using True eq add(2) by (intro that [of f' "bs @ [p @ [(k, v)]]" "hs @ [h]" ix' "[]"]) simp_all
  next
    case False
    then show ?thesis using eq add by (intro that) simp_all
  qed
qed

lemma built_Adds:
  assumes "0 < to_restart_interval opts" "to_filter opts = None \<or> filter_policy (policy_of opts)" "kvs_size kvs < 2 ^ 32"
  obtains f bs hs ix p where
    "built (fold (\<lambda>(k, v). TableBuilder_Add k v) kvs (TableBuilder_new opts \<lparr>contents = [], outcomes = []\<rparr>)) f bs hs ix p"
    "concat bs @ p = kvs" "r_options (fold (\<lambda>(k, v). TableBuilder_Add k v) kvs (TableBuilder_new opts \<lparr>contents = [], outcomes = []\<rparr>)) = opts"
proof -
  let ?r = "\<lambda>kvs. fold (\<lambda>(k, v). TableBuilder_Add k v) kvs (TableBuilder_new opts \<lparr>contents = [], outcomes = []\<rparr>)"
  have "\<exists>f bs hs ix p. built (?r kvs) f bs hs ix p \<and> concat bs @ p = kvs \<and> r_options (?r kvs) = opts" using assms(3)
  proof (induction kvs rule: rev_induct)
    case Nil
    show ?case using built_new [OF assms(2)] by (auto simp: TableBuilder_new_def intro!: exI [of _ "[]"])
  next
    case (snoc kv kvs)
    obtain k v where kv: "kv = (k, v)" by fastforce
    have "kvs_size kvs < 2 ^ 32" using snoc.prems by (simp add: kvs_size_def)
    then obtain f bs hs ix p where bt: "built (?r kvs) f bs hs ix p" "concat bs @ p = kvs" "r_options (?r kvs) = opts" using snoc.IH by blast
    obtain f' bs' hs' ix' p' where "built (TableBuilder_Add k v (?r kvs)) f' bs' hs' ix' p'" "concat bs' @ p' = concat bs @ p @ [(k, v)]"
      "r_options (TableBuilder_Add k v (?r kvs)) = r_options (?r kvs)"
      by (rule built_Add [OF bt(1)]) (use assms(1,2) bt(2,3) snoc.prems kv in \<open>auto simp flip: append_assoc\<close>)
    moreover have "?r (kvs @ [kv]) = TableBuilder_Add k v (?r kvs)" by (simp add: kv)
    moreover have "concat bs @ p @ [(k, v)] = kvs @ [kv]" using bt(2) kv by simp
    ultimately show ?case using bt(3) by metis
  qed
  then show ?thesis using that by blast
qed

section \<open>The finished table\<close>

definition blocks_stored :: "TableOptions \<Rightarrow> bytes \<Rightarrow> kv list list \<Rightarrow> BlockHandle list \<Rightarrow> bool" where
  "blocks_stored opts f bs hs \<longleftrightarrow> length hs = length bs \<and> (\<forall>j < length bs. bs ! j \<noteq> [] \<and> block_stored opts f (hs ! j) (bs ! j))"

text \<open>The keys of the index: separators of neighbouring blocks, and a successor of the last key.\<close>

definition index_keys :: "TableOptions \<Rightarrow> kv list list \<Rightarrow> BlockHandle list \<Rightarrow> kv list \<Rightarrow> bool" where
  "index_keys opts bs hs ix \<longleftrightarrow> length ix = length bs \<and> (\<forall>j < length bs. snd (ix ! j) = BlockHandle_EncodeTo (hs ! j) [] \<and>
     fst (ix ! j) = (if Suc j < length bs then to_sep opts (fst (last (bs ! j))) (fst (hd (bs ! Suc j))) else to_succ opts (fst (last (bs ! j)))))"

definition filter_stored :: "TableOptions \<Rightarrow> bytes \<Rightarrow> kv list list \<Rightarrow> BlockHandle list \<Rightarrow> BlockHandle \<Rightarrow> bool" where
  "filter_stored opts f bs hs mh \<longleftrightarrow> (\<forall>name policy. to_filter opts = Some (name, policy) \<longrightarrow>
     (\<exists>fh F. block_stored opts f mh [(cstr ''filter.'' @ name, BlockHandle_EncodeTo fh [])] \<and>
        holds f fh (block_image (filter_block_bytes policy F) kNoCompression) \<and>
        (\<forall>j < length bs. \<forall>k \<in> fst ` set (bs ! j). unat (bh_offset (hs ! j) div kFilterBase) < length F \<and>
           k \<in> set (F ! unat (bh_offset (hs ! j) div kFilterBase)))))"

definition table_file :: "TableOptions \<Rightarrow> bytes \<Rightarrow> kv list list \<Rightarrow> BlockHandle list \<Rightarrow> kv list \<Rightarrow> bool" where
  "table_file opts data bs hs ix \<longleftrightarrow> (\<exists>f mh ih. data = f @ Footer_EncodeTo \<lparr>metaindex_handle = mh, index_handle = ih\<rparr> [] \<and>
     blocks_stored opts f bs hs \<and> block_stored opts f ih ix \<and> index_keys opts bs hs ix \<and> filter_stored opts f bs hs mh)"

lemma blocks_stored_append: "blocks_stored opts f bs hs \<Longrightarrow> blocks_stored opts (f @ g) bs hs"
  by (auto simp: blocks_stored_def intro: block_stored_append)

lemma filter_stored_append: "filter_stored opts f bs hs mh \<Longrightarrow> filter_stored opts (f @ g) bs hs mh"
  unfolding filter_stored_def by (meson block_stored_append holds_append)

lemma built_pending:
  assumes "built r f bs hs ix []" "bs \<noteq> []"
  shows "r_pending_index_entry r"
proof (rule ccontr)
  assume "\<not> r_pending_index_entry r"
  then have "length bs = length ix" "index_ok (r_options r) bs hs ix []" using assms(1) by (auto simp: built_def)
  moreover have "length bs - 1 < length bs" using assms(2) by simp
  ultimately show False by (auto simp: index_ok_def)
qed

lemma built_flushed:
  assumes bt: "built r f bs hs ix p" and kvs: "concat bs @ p \<noteq> []" "kvs_size (concat bs @ p) < 2 ^ 32"
    and pol: "to_filter (r_options r) = None \<or> filter_policy (policy_of (r_options r))"
  obtains f' bs' hs' where "built (TableBuilder_Flush r) f' bs' hs' ix []" "concat bs' = concat bs @ p" "bs' \<noteq> []"
    "r_options (TableBuilder_Flush r) = r_options r"
proof (cases "p = []")
  case True
  have bs: "bs \<noteq> []" using kvs(1) True by auto
  obtain es rs where "builder_rep (r_data_block r) es rs" "map snd es = []" using bt True by (auto simp: built_def collects_def)
  then have "BlockBuilder_empty (r_data_block r)" by (simp add: builder_rep_def BlockBuilder_empty_def)
  then have "TableBuilder_Flush r = r" by (simp add: TableBuilder_Flush_def)
  then show ?thesis using that [of f bs hs] bt True bs by simp
next
  case False
  obtain f' h where "built (TableBuilder_Flush r) f' (bs @ [p]) (hs @ [h]) ix []" "r_options (TableBuilder_Flush r) = r_options r"
    by (rule built_Flush [OF bt False pol kvs(2)])
  then show ?thesis by (intro that [of f' "bs @ [p]" "hs @ [h]"]) (simp_all only:, simp_all)
qed

lemma Finish_filter_ok:
  assumes bt: "built r f bs hs ix []" and pol: "to_filter (r_options r) = None \<or> filter_policy (policy_of (r_options r))"
    and r: "Finish_filter (r\<lparr>r_closed := True\<rparr>) = (fh, r')"
  obtains g where "r' = r\<lparr>r_closed := True, r_file := \<lparr>contents = f @ g, outcomes = []\<rparr>, r_offset := word_of_nat (length (f @ g))\<rparr>"
    "to_filter (r_options r) = None \<Longrightarrow> g = []"
    "to_filter (r_options r) \<noteq> None \<Longrightarrow> length (f @ g) < 2 ^ 32 \<Longrightarrow> \<exists>F. holds (f @ g) fh (block_image (filter_block_bytes (policy_of (r_options r)) F) kNoCompression) \<and>
        (\<forall>j < length bs. \<forall>k \<in> fst ` set (bs ! j). unat (bh_offset (hs ! j) div kFilterBase) < length F \<and>
           k \<in> set (F ! unat (bh_offset (hs ! j) div kFilterBase)))"
proof -
  let ?opts = "r_options r" and ?r = "r\<lparr>r_closed := True\<rparr>"
  have w: "writes_to ?r f" using bt by (simp add: built_def writes_to_def)
  have fok: "filter_ok ?opts f bs hs [] (r_filter_block r)" using bt by (simp add: built_def)
  show ?thesis
  proof (cases "r_filter_block r")
    case None
    then have "to_filter ?opts = None" using fok by (simp add: filter_ok_def)
    then show ?thesis using r w None by (intro that [of "[]"]) (simp_all add: Finish_filter_def writes_to_def)
  next
    case (Some b)
    then obtain F P where b: "fb_inv (policy_of ?opts) b F P" "length F = unat ((word_of_nat (length f) :: u64) div kFilterBase)"
      "\<forall>j < length bs. \<forall>k \<in> fst ` set (bs ! j). placed F P (unat (bh_offset (hs ! j) div kFilterBase)) k"
      and some: "to_filter ?opts \<noteq> None" using fok by (auto simp: filter_ok_def)
    have law: "filter_policy (policy_of ?opts)" using pol some by simp
    define F' where "F' = (if P = [] then F else F @ [P])"
    have fin: "FilterBlock_Finish (policy_of ?opts) b = filter_block_bytes (policy_of ?opts) F'"
      using filter_policy.fb_inv_Finish [OF law b(1)] by (simp add: F'_def)
    let ?data = "filter_block_bytes (policy_of ?opts) F'"
    have wr: "fh = \<lparr>bh_offset = word_of_nat (length f), bh_size = word_of_nat (length ?data)\<rparr>"
      "r' = ?r\<lparr>r_file := \<lparr>contents = f @ block_image ?data kNoCompression, outcomes = []\<rparr>,
          r_offset := word_of_nat (length (f @ block_image ?data kNoCompression))\<rparr>"
      using r Some w WriteRawBlock_ok [OF w, of ?data kNoCompression] by (auto simp: Finish_filter_def fin writes_to_def Status_ok_def)
    have "placed F P i k \<Longrightarrow> i < length F' \<and> k \<in> set (F' ! i)" for i k by (auto simp: F'_def placed_def nth_append)
    then have "\<forall>j < length bs. \<forall>k \<in> fst ` set (bs ! j). unat (bh_offset (hs ! j) div kFilterBase) < length F' \<and>
           k \<in> set (F' ! unat (bh_offset (hs ! j) div kFilterBase))" using b(3) by blast
    moreover have "holds (f @ block_image ?data kNoCompression) fh (block_image ?data kNoCompression)"
      if "length (f @ block_image ?data kNoCompression) < 2 ^ 32" unfolding wr(1) by (rule holds_new) (use that in simp)
    ultimately show ?thesis using wr some by (intro that [of "block_image ?data kNoCompression"]) (auto intro: exI [of _ F'])
  qed
qed

lemma Finish_metaindex_ok:
  assumes w: "writes_to r f" and int: "0 < to_restart_interval (r_options r)" and len: "length f < 2 ^ 33"
    and name: "\<And>name policy. to_filter (r_options r) = Some (name, policy) \<Longrightarrow> length name < 2 ^ 32"
  obtains mh g where "Finish_metaindex fh r =
      (mh, r\<lparr>r_file := \<lparr>contents = f @ g, outcomes = []\<rparr>, r_offset := word_of_nat (length (f @ g))\<rparr>)"
    "\<And>name policy. to_filter (r_options r) = Some (name, policy) \<Longrightarrow>
       block_stored (r_options r) (f @ g) mh [(cstr ''filter.'' @ name, BlockHandle_EncodeTo fh [])]"
    "length g < 2 ^ 33 + 13"
proof -
  let ?opts = "r_options r"
  define kvs where "kvs = (case to_filter ?opts of Some (name, policy) \<Rightarrow> [(cstr ''filter.'' @ name, BlockHandle_EncodeTo fh [])] | None \<Rightarrow> [])"
  define b where "b = (case to_filter ?opts of
      Some (name, policy) \<Rightarrow> BlockBuilder_Add (to_restart_interval ?opts) (cstr ''filter.'' @ name) (BlockHandle_EncodeTo fh []) BlockBuilder_new
    | None \<Rightarrow> BlockBuilder_new)"
  have "collects b kvs"
    using collects_new(1) collects_Add [OF collects_new(1) int] by (auto simp: b_def kvs_def split: option.splits)
  then obtain es rs where es: "builder_rep b es rs" "map snd es = kvs" by (auto simp: collects_def)
  have kvs: "kvs_size kvs < 2 ^ 33"
    using name length_handle [of fh] by (cases "to_filter ?opts") (force simp: kvs_def kvs_size_def cstr_def)+
  obtain h where h: "WriteBlock b r = (h, BlockBuilder_Reset (snd (BlockBuilder_Finish b)),
      r\<lparr>r_file := \<lparr>contents = f @ stored_block ?opts (block_bytes es rs), outcomes = []\<rparr>,
        r_offset := word_of_nat (length (f @ stored_block ?opts (block_bytes es rs)))\<rparr>)"
    "block_stored ?opts (f @ stored_block ?opts (block_bytes es rs)) h kvs"
    by (rule WriteBlock_ok [OF w es(1)]) (use len es(2) kvs in auto)
  have "Finish_metaindex fh r = (h, r\<lparr>r_file := \<lparr>contents = f @ stored_block ?opts (block_bytes es rs), outcomes = []\<rparr>,
        r_offset := word_of_nat (length (f @ stored_block ?opts (block_bytes es rs)))\<rparr>)"
    using h(1) w unfolding b_def by (simp add: Finish_metaindex_def writes_to_def Status_ok_def)
  moreover have "block_stored ?opts (f @ stored_block ?opts (block_bytes es rs)) h [(cstr ''filter.'' @ name, BlockHandle_EncodeTo fh [])]"
    if "to_filter ?opts = Some (name, policy)" for name policy using h(2) that by (simp add: kvs_def)
  moreover have "length (stored_block ?opts (block_bytes es rs)) < 2 ^ 33 + 13"
    using block_length [of es rs] length_stored [of ?opts "block_bytes es rs"] es kvs by (auto simp: builder_rep_def)
  ultimately show ?thesis by (rule that)
qed

lemma Finish_index_ok:
  assumes w: "writes_to r f" and ix: "collects (r_index_block r) ix" "r_pending_index_entry r" "r_pending_handle r = last hs"
    "index_ok (r_options r) bs hs ix []" "length bs = Suc (length ix)" "length hs = length bs" "r_last_key r = fst (last (last bs))"
    and bs: "\<And>j. j < length bs \<Longrightarrow> bs ! j \<noteq> []" and len: "length f < 2 ^ 34"
    and size: "kvs_size (ix @ [(to_succ (r_options r) (r_last_key r), BlockHandle_EncodeTo (last hs) [])]) < 2 ^ 33"
  obtains ih r' g where "Finish_index r = (ih, r')" "writes_to r' (f @ g)"
    "index_keys (r_options r) bs hs (ix @ [(to_succ (r_options r) (r_last_key r), BlockHandle_EncodeTo (last hs) [])])"
    "block_stored (r_options r) (f @ g) ih (ix @ [(to_succ (r_options r) (r_last_key r), BlockHandle_EncodeTo (last hs) [])])"
    "length g < 2 ^ 33 + 13"
proof -
  let ?opts = "r_options r" and ?key = "to_succ (r_options r) (r_last_key r)" and ?v = "BlockHandle_EncodeTo (last hs) []"
  let ?ix = "ix @ [(?key, ?v)]" and ?r = "AddIndexEntry (to_succ (r_options r) (r_last_key r)) r"
  have "collects (r_index_block ?r) ?ix" using collects_Add [OF ix(1), of 1] ix(3) by (simp add: AddIndexEntry_def)
  then obtain es rs where es: "builder_rep (r_index_block ?r) es rs" "map snd es = ?ix" by (auto simp: collects_def)
  have wr: "writes_to ?r f" "r_options ?r = ?opts" using w by (simp_all add: writes_to_def AddIndexEntry_def)
  let ?g = "stored_block ?opts (block_bytes es rs)"
  obtain h where h: "WriteBlock (r_index_block ?r) ?r = (h, BlockBuilder_Reset (snd (BlockBuilder_Finish (r_index_block ?r))),
      ?r\<lparr>r_file := \<lparr>contents = f @ ?g, outcomes = []\<rparr>, r_offset := word_of_nat (length (f @ ?g))\<rparr>)"
    "block_stored ?opts (f @ ?g) h ?ix"
    by (rule WriteBlock_ok [OF wr(1) es(1)]) (use len es(2) size wr(2) in auto)
  let ?r' = "?r\<lparr>r_file := \<lparr>contents = f @ ?g, outcomes = []\<rparr>, r_offset := word_of_nat (length (f @ ?g)),
    r_index_block := BlockBuilder_Reset (snd (BlockBuilder_Finish (r_index_block ?r)))\<rparr>"
  have "Finish_index r = (h, ?r')" using h(1) w ix(2) by (simp add: Finish_index_def writes_to_def Status_ok_def Let_def)
  moreover have "writes_to ?r' (f @ ?g)" using wr(1) by (simp add: writes_to_def)
  moreover have "index_keys ?opts bs hs ?ix"
    unfolding index_keys_def
  proof (intro conjI allI impI)
    show "length ?ix = length bs" using ix(5) by simp
    fix j assume j: "j < length bs"
    show "snd (?ix ! j) = BlockHandle_EncodeTo (hs ! j) []"
    proof (cases "j < length ix")
      case False
      then have "j = length ix" using j ix(5) by simp
      then show ?thesis using ix(5,6) by (simp add: last_nth)
    qed (use ix(4) in \<open>simp add: index_ok_def nth_append\<close>)
    show "fst (?ix ! j) = (if Suc j < length bs then to_sep ?opts (fst (last (bs ! j))) (fst (hd (bs ! Suc j))) else to_succ ?opts (fst (last (bs ! j))))"
    proof (cases "j < length ix")
      case True
      then have "Suc j < length bs" using ix(5) by simp
      then have "concat (drop (Suc j) bs) = bs ! Suc j @ concat (drop (Suc (Suc j)) bs)" by (simp flip: Cons_nth_drop_Suc)
      then show ?thesis using ix(4) True bs [OF \<open>Suc j < length bs\<close>] \<open>Suc j < length bs\<close> by (simp add: index_ok_def nth_append)
    next
      case False
      then have "j = length ix" using j ix(5) by simp
      then show ?thesis using ix(5,7) by (simp add: last_nth)
    qed
  qed
  moreover have "length ?g < 2 ^ 33 + 13"
    using block_length [of es rs] length_stored [of ?opts "block_bytes es rs"] es size by (auto simp: builder_rep_def)
  ultimately show ?thesis using h(2) by (intro that [of h ?r' ?g])
qed

lemma kvs_size_append [simp]: "kvs_size (xs @ ys) = kvs_size xs + kvs_size ys"
  by (simp add: kvs_size_def)

text \<open>The index is not much larger than the table when its keys are not longer than those of the table.\<close>

lemma index_size:
  assumes "length xs \<le> length bs" "\<And>j. j < length xs \<Longrightarrow> bs ! j \<noteq> [] \<and> length (fst (xs ! j)) \<le> length (fst (last (bs ! j))) \<and> length (snd (xs ! j)) \<le> 20"
  shows "64 * kvs_size xs \<le> 84 * kvs_size (concat bs)"
  using assms
proof (induction bs arbitrary: xs)
  case (Cons b bs)
  show ?case
  proof (cases xs)
    case Nil
    then show ?thesis by (simp add: kvs_size_def)
  next
    case (Cons x xs')
    have x: "b \<noteq> []" "length (fst x) \<le> length (fst (last b))" "length (snd x) \<le> 20" using Cons.prems(2) [of 0] Cons by simp_all
    have "length (fst kv) + 64 \<le> kvs_size kvs" if "kv \<in> set kvs" for kv kvs using that by (induction kvs) (auto simp: kvs_size_def)
    then have "length (fst (last b)) + 64 \<le> kvs_size b" using x(1) by simp
    moreover have "kvs_size xs = length (fst x) + length (snd x) + 64 + kvs_size xs'" using Cons by (simp add: kvs_size_def)
    ultimately have "64 * kvs_size xs \<le> 84 * kvs_size b + 64 * kvs_size xs'" using x by simp
    moreover have "64 * kvs_size xs' \<le> 84 * kvs_size (concat bs)"
      by (rule Cons.IH) (use Cons.prems(1) Cons.prems(2) [of "Suc _"] Cons in auto)
    ultimately show ?thesis by simp
  qed
qed (simp add: kvs_size_def)

text \<open>What the options must satisfy.\<close>

definition options_ok :: "TableOptions \<Rightarrow> bool" where
  "options_ok opts \<longleftrightarrow> 0 < to_restart_interval opts \<and> snappy_ok opts \<and>
     (\<forall>a b. length (to_sep opts a b) \<le> length a) \<and> (\<forall>a. length (to_succ opts a) \<le> length a) \<and>
     (\<forall>name policy. to_filter opts = Some (name, policy) \<longrightarrow> length name < 2 ^ 31 \<and> filter_policy policy)"

definition Table_build :: "TableOptions \<Rightarrow> kv list \<Rightarrow> TableBuilder" where
  "Table_build opts kvs =
     TableBuilder_Finish (fold (\<lambda>(k, v). TableBuilder_Add k v) kvs (TableBuilder_new opts \<lparr>contents = [], outcomes = []\<rparr>))"

text \<open>Every step of \<open>Finish\<close> appends to the file.\<close>

lemma WriteRawBlock_prefix: "prefix (contents (r_file r)) (contents (r_file (snd (WriteRawBlock data type r))))"
  by (auto simp: WriteRawBlock_def File_Append_def Let_def split: prod.splits list.splits)

lemma WriteBlock_prefix: "prefix (contents (r_file r)) (contents (r_file (snd (snd (WriteBlock b r)))))"
  using WriteRawBlock_prefix by (auto simp: WriteBlock_def split: prod.splits) (metis snd_conv)

lemma Finish_prefix:
  "prefix (contents (r_file r)) (contents (r_file (snd (Finish_metaindex fh r))))"
  "prefix (contents (r_file r)) (contents (r_file (snd (Finish_index r))))"
  "prefix (contents (r_file r)) (contents (r_file (Finish_footer mh ih r)))"
proof -
  show "prefix (contents (r_file r)) (contents (r_file (snd (Finish_metaindex fh r))))"
    using WriteBlock_prefix by (auto simp: Finish_metaindex_def split: prod.splits) (metis snd_conv)
  have "r_file (AddIndexEntry k r) = r_file r" for k by (simp add: AddIndexEntry_def)
  then show "prefix (contents (r_file r)) (contents (r_file (snd (Finish_index r))))"
    using WriteBlock_prefix [of r "r_index_block r"] WriteBlock_prefix [of "AddIndexEntry (to_succ (r_options r) (r_last_key r)) r"
        "r_index_block (AddIndexEntry (to_succ (r_options r) (r_last_key r)) r)"]
    by (auto simp: Finish_index_def Let_def split: prod.splits)
  show "prefix (contents (r_file r)) (contents (r_file (Finish_footer mh ih r)))"
    by (auto simp: Finish_footer_def File_Append_def Let_def split: prod.splits list.splits)
qed

lemma table_built:
  assumes opts: "options_ok opts" and kvs: "kvs \<noteq> []" "kvs_size kvs < 2 ^ 31"
    and filt: "to_filter opts = None \<or> length (contents (r_file (Table_build opts kvs))) < 2 ^ 32"
  obtains bs hs ix where "table_file opts (contents (r_file (Table_build opts kvs))) bs hs ix" "concat bs = kvs"
    "64 * kvs_size ix \<le> 84 * kvs_size kvs" "length (contents (r_file (Table_build opts kvs))) < 2 ^ 35"
    "r_status (Table_build opts kvs) = Status_OK" "TableBuilder_FileSize (Table_build opts kvs) = word_of_nat (length (contents (r_file (Table_build opts kvs))))"
proof -
  let ?r = "fold (\<lambda>(k, v). TableBuilder_Add k v) kvs (TableBuilder_new opts \<lparr>contents = [], outcomes = []\<rparr>)"
  have int: "0 < to_restart_interval opts" using opts by (simp add: options_ok_def)
  have k32: "kvs_size kvs < 2 ^ 32" using kvs(2) by simp
  have pol: "to_filter opts = None \<or> filter_policy (policy_of opts)"
    using opts by (cases "to_filter opts") (auto simp: options_ok_def policy_of_def)
  obtain f0 bs0 hs0 ix p where bt0: "built ?r f0 bs0 hs0 ix p" "concat bs0 @ p = kvs" "r_options ?r = opts"
    by (rule built_Adds [OF int pol k32])
  obtain f bs hs where bt: "built (TableBuilder_Flush ?r) f bs hs ix []" "concat bs = kvs" "bs \<noteq> []" "r_options (TableBuilder_Flush ?r) = opts"
    by (rule built_flushed [OF bt0(1)]) (use kvs(1) k32 bt0(2,3) pol in auto)
  let ?r1 = "TableBuilder_Flush ?r"
  obtain fh r2 where r2: "Finish_filter (?r1\<lparr>r_closed := True\<rparr>) = (fh, r2)" by fastforce
  obtain g where g: "r2 = ?r1\<lparr>r_closed := True, r_file := \<lparr>contents = f @ g, outcomes = []\<rparr>, r_offset := word_of_nat (length (f @ g))\<rparr>"
    "to_filter opts = None \<Longrightarrow> g = []"
    "to_filter opts \<noteq> None \<Longrightarrow> length (f @ g) < 2 ^ 32 \<Longrightarrow> \<exists>F. holds (f @ g) fh (block_image (filter_block_bytes (policy_of opts) F) kNoCompression) \<and>
        (\<forall>j < length bs. \<forall>k \<in> fst ` set (bs ! j). unat (bh_offset (hs ! j) div kFilterBase) < length F \<and>
           k \<in> set (F ! unat (bh_offset (hs ! j) div kFilterBase)))"
    by (rule Finish_filter_ok [OF bt(1) _ r2]) (use pol bt(4) in auto)
  have tb: "Table_build opts kvs =
      (case Finish_metaindex fh r2 of (mh, r3) \<Rightarrow> case Finish_index r3 of (ih, r4) \<Rightarrow> Finish_footer mh ih r4)"
    using r2 by (simp add: Table_build_def TableBuilder_Finish_def Let_def)
  have w2: "writes_to r2 (f @ g)" "r_options r2 = opts" using bt(1,4) g(1) by (simp_all add: built_def writes_to_def)
  have flen: "length f \<le> kvs_size kvs" using bt(1,2) by (simp add: built_def)
  have glen: "length (f @ g) < 2 ^ 32"
  proof (cases "to_filter opts = None")
    case True
    then show ?thesis using g(2) flen kvs(2) by simp
  next
    case False
    obtain mh r3 ih r4 where "Finish_metaindex fh r2 = (mh, r3)" "Finish_index r3 = (ih, r4)" by fastforce
    then have "prefix (f @ g) (contents (r_file (Table_build opts kvs)))"
      using Finish_prefix(1) [of r2 fh] Finish_prefix(2) [of r3] Finish_prefix(3) [of r4 mh ih] w2(1) unfolding tb
      by (auto simp: writes_to_def intro: prefix_order.trans)
    then show ?thesis using filt False prefix_length_le by fastforce
  qed
  obtain mh g2 where mh: "Finish_metaindex fh r2 =
      (mh, r2\<lparr>r_file := \<lparr>contents = (f @ g) @ g2, outcomes = []\<rparr>, r_offset := word_of_nat (length ((f @ g) @ g2))\<rparr>)"
    "\<And>name policy. to_filter opts = Some (name, policy) \<Longrightarrow>
       block_stored opts ((f @ g) @ g2) mh [(cstr ''filter.'' @ name, BlockHandle_EncodeTo fh [])]" "length g2 < 2 ^ 33 + 13"
    by (rule Finish_metaindex_ok [OF w2(1), of fh]) (use w2(2) int glen opts in \<open>auto simp: options_ok_def\<close>)
  let ?r3 = "r2\<lparr>r_file := \<lparr>contents = (f @ g) @ g2, outcomes = []\<rparr>, r_offset := word_of_nat (length ((f @ g) @ g2))\<rparr>"
  have w3: "writes_to ?r3 ((f @ g) @ g2)" "r_options ?r3 = opts" using w2 by (simp_all add: writes_to_def)
  have pend: "r_pending_index_entry ?r1" by (rule built_pending [OF bt(1,3)])
  then have ix: "collects (r_index_block ?r3) ix" "r_pending_index_entry ?r3" "r_pending_handle ?r3 = last hs" "index_ok opts bs hs ix []"
    "length bs = Suc (length ix)" "length hs = length bs" "\<And>j. j < length bs \<Longrightarrow> bs ! j \<noteq> []"
    using bt(1,4) g(1) by (simp_all add: built_def)
  have lastb: "last bs \<noteq> []" "last bs = bs ! length ix" using ix(5,7) by (simp_all add: last_nth)
  then have key: "r_last_key ?r3 = fst (last (last bs))"
    using bt(1-3) kvs(1) g(1) last_concat [OF bt(3)] by (simp add: built_def)
  let ?ix = "ix @ [(to_succ opts (r_last_key ?r3), BlockHandle_EncodeTo (last hs) [])]"
  have size: "64 * kvs_size ?ix \<le> 84 * kvs_size (concat bs)"
  proof (rule index_size)
    show "length ?ix \<le> length bs" using ix(5) by simp
    show "bs ! j \<noteq> [] \<and> length (fst (?ix ! j)) \<le> length (fst (last (bs ! j))) \<and> length (snd (?ix ! j)) \<le> 20" if j: "j < length ?ix" for j
    proof (cases "j < length ix")
      case True
      then show ?thesis using ix(4-7) opts length_handle by (simp add: index_ok_def options_ok_def nth_append)
    next
      case False
      then have "j = length ix" using j by simp
      then show ?thesis using lastb key opts length_handle by (simp add: options_ok_def)
    qed
  qed
  have "length ((f @ g) @ g2) < 2 ^ 34" using glen mh(3) by simp
  moreover have "kvs_size ?ix < 2 ^ 33" using size kvs(2) bt(2) by simp
  ultimately obtain ih r4 g3 where ih: "Finish_index ?r3 = (ih, r4)" "writes_to r4 (((f @ g) @ g2) @ g3)" "index_keys opts bs hs ?ix"
    "block_stored opts (((f @ g) @ g2) @ g3) ih ?ix" "length g3 < 2 ^ 33 + 13"
    using Finish_index_ok [OF w3(1) ix(1-3) _ ix(5,6) key ix(7)] ix(4) unfolding w3(2) by blast
  let ?f = "((f @ g) @ g2) @ g3" and ?foot = "Footer_EncodeTo \<lparr>metaindex_handle = mh, index_handle = ih\<rparr> []"
  have fin: "Table_build opts kvs = r4\<lparr>r_file := \<lparr>contents = ?f @ ?foot, outcomes = []\<rparr>, r_offset := word_of_nat (length (?f @ ?foot))\<rparr>"
    unfolding tb mh(1) using ih(1,2) by (simp add: Finish_footer_def writes_to_def Status_ok_def File_Append_def Let_def)
  have bl: "blocks_stored opts ?f bs hs"
    using bt(1,4) by (intro blocks_stored_append) (auto simp: built_def blocks_stored_def)
  have "filter_stored opts ((f @ g) @ g2) bs hs mh"
    unfolding filter_stored_def
  proof (intro allI impI)
    fix name policy assume some: "to_filter opts = Some (name, policy)"
    then have "policy_of opts = policy" by (simp add: policy_of_def)
    then obtain F where "holds (f @ g) fh (block_image (filter_block_bytes policy F) kNoCompression)"
      "\<forall>j < length bs. \<forall>k \<in> fst ` set (bs ! j). unat (bh_offset (hs ! j) div kFilterBase) < length F \<and>
           k \<in> set (F ! unat (bh_offset (hs ! j) div kFilterBase))"
      using g(3) glen some by auto
    then show "\<exists>fh F. block_stored opts ((f @ g) @ g2) mh [(cstr ''filter.'' @ name, BlockHandle_EncodeTo fh [])] \<and>
        holds ((f @ g) @ g2) fh (block_image (filter_block_bytes policy F) kNoCompression) \<and>
        (\<forall>j < length bs. \<forall>k \<in> fst ` set (bs ! j). unat (bh_offset (hs ! j) div kFilterBase) < length F \<and>
           k \<in> set (F ! unat (bh_offset (hs ! j) div kFilterBase)))"
      using mh(2) [OF some] holds_append by blast
  qed
  then have "filter_stored opts ?f bs hs mh" by (rule filter_stored_append)
  then have "table_file opts (?f @ ?foot) bs hs ?ix" using bl ih(3,4) unfolding table_file_def by blast
  moreover have "length (?f @ ?foot) < 2 ^ 35" using glen mh(3) ih(5) by (simp add: kEncodedLength_def)
  ultimately show ?thesis
    using bt(2) size fin ih(2) by (intro that [of bs hs ?ix]) (simp_all add: TableBuilder_FileSize_def writes_to_def)
qed

end
