(* ===== verification/Table_Reads.thy ===== *)
theory Table_Reads
  imports Table_Contents
begin

text \<open>
  Reading a finished table: \<^verbatim>\<open>Table::Open\<close> finds its index and its filter, the iterator goes through
  the keys and values in order, and \<^verbatim>\<open>InternalGet\<close> finds what is there.
\<close>

section \<open>Opening\<close>

text \<open>What is known of an open table: the index, the blocks behind it, and the filter.\<close>

definition filter_covers :: "TableOptions \<Rightarrow> FilterBlockReader \<Rightarrow> kv list list \<Rightarrow> BlockHandle list \<Rightarrow> bool" where
  "filter_covers opts filt bs hs \<longleftrightarrow>
     (\<forall>j < length bs. \<forall>k \<in> fst ` set (bs ! j). FilterBlock_KeyMayMatch (policy_of opts) filt (bh_offset (hs ! j)) k)"

definition open_table :: "TableOptions \<Rightarrow> Table \<Rightarrow> kv list list \<Rightarrow> BlockHandle list \<Rightarrow> kv list \<Rightarrow> bool" where
  "open_table opts tbl bs hs ix \<longleftrightarrow> tab_options tbl = opts \<and> index_keys opts bs hs ix \<and> (\<forall>j < length bs. bs ! j \<noteq> []) \<and>
     block_rep (Block_NewIterator (tab_index_block tbl)) ix (length ix) \<and>
     (\<forall>j < length bs. block_rep (BlockReader tbl (snd (ix ! j))) (bs ! j) (length (bs ! j))) \<and>
     (\<forall>filt. tab_filter tbl = Some filt \<longrightarrow> filter_covers opts filt bs hs)"

lemma kvs_size_member: "b \<in> set bs \<Longrightarrow> kvs_size b \<le> kvs_size (concat bs)"
  by (induction bs) auto

lemma div_kFilterBase: "unat (x div kFilterBase) = unat (drop_bit 11 x)" for x :: u64
  by (simp add: kFilterBase_def kFilterBaseLg_def unat_div unat_drop_bit_eq drop_bit_eq_div)

lemma ReadMeta_ok:
  assumes opts: "options_ok opts" and f: "filter_stored opts f bs hs (metaindex_handle footer)" "file_bytes rf = f @ g"
    and len: "to_filter opts = None \<or> length (file_bytes rf) < 2 ^ 32"
  obtains filt where "ReadMeta opts rf footer = Some filt" "\<And>x. filt = Some x \<Longrightarrow> filter_covers opts x bs hs"
proof (cases "to_filter opts")
  case None
  then show ?thesis using that [of None] by (simp add: ReadMeta_def)
next
  case (Some np)
  obtain name policy where np: "np = (name, policy)" by fastforce
  then have pol: "policy_of opts = policy" "filter_policy policy" "length name < 2 ^ 31"
    using Some opts by (auto simp: policy_of_def options_ok_def)
  let ?key = "cstr ''filter.'' @ name" and ?ops = "block_ops Bytewise_Compare"
  obtain fh F where fh: "block_stored opts (file_bytes rf) (metaindex_handle footer) [(?key, BlockHandle_EncodeTo fh [])]"
    "holds (file_bytes rf) fh (block_image (filter_block_bytes policy F) kNoCompression)"
    "\<forall>j < length bs. \<forall>k \<in> fst ` set (bs ! j). unat (bh_offset (hs ! j) div kFilterBase) < length F \<and>
           k \<in> set (F ! unat (bh_offset (hs ! j) div kFilterBase))"
    using f Some np block_stored_append holds_append unfolding filter_stored_def by metis
  let ?kvs = "[(?key, BlockHandle_EncodeTo fh [])]"
  have "kvs_size ?kvs < 2 ^ 32 - 8" using pol(3) length_handle [of fh] by (simp add: kvs_size_def cstr_def)
  then obtain raw where raw: "ReadBlock opts rf False (metaindex_handle footer) = Inr raw" "block_rep (Block_NewIterator (Block_new raw)) ?kvs (length ?kvs)"
    using block_stored_reader [OF fh(1)] opts by (auto simp: options_ok_def)
  have "seekable (before Bytewise_Compare ?key) ?kvs" by (simp add: seekable_def)
  from block.seek [OF raw(2) this]
  have "moves block_rep (op_Seek ?ops ?key (Block_NewIterator (Block_new raw))) ?kvs 0"
    by (simp add: seek_pos_def before_def Bytewise_Compare_def Slice_compare_eq [THEN iffD2])
  then obtain it where it: "op_Seek ?ops ?key (Block_NewIterator (Block_new raw)) = Some it" "block_rep it ?kvs 0" by (rule movesE)
  have cur: "op_Valid ?ops it" "op_key ?ops it = ?key" "op_value ?ops it = BlockHandle_EncodeTo fh []"
    using block.valid [OF it(2)] block.key_value [OF it(2)] by simp_all
  have rd: "ReadBlock opts rf False fh = Inr (filter_block_bytes policy F)" using ReadBlock_holds [OF fh(2)] by simp
  have "filters_size policy F \<le> length (filter_block_bytes policy F)" by (simp add: filter_block_bytes_def filters_size_def)
  moreover have "length (filter_block_bytes policy F) \<le> length (file_bytes rf)"
  proof -
    have "length (take (length (block_image (filter_block_bytes policy F) kNoCompression)) (drop (unat (bh_offset fh)) (file_bytes rf))) =
        length (block_image (filter_block_bytes policy F) kNoCompression)" using fh(2) unfolding holds_def by metis
    then show ?thesis unfolding length_take length_drop length_block_image by linarith
  qed
  ultimately have small: "filters_size policy F < 2 ^ 32" using len Some by simp
  have "filter_covers opts (FilterBlockReader_new (filter_block_bytes policy F)) bs hs"
    unfolding filter_covers_def
  proof (intro allI impI ballI)
    fix j k assume "j < length bs" "k \<in> fst ` set (bs ! j)"
    then have "unat (bh_offset (hs ! j) div kFilterBase) < length F" "k \<in> set (F ! unat (bh_offset (hs ! j) div kFilterBase))" using fh(3) by blast+
    from filter_policy.filter_block_matches [OF pol(2) small this div_kFilterBase]
    show "FilterBlock_KeyMayMatch (policy_of opts) (FilterBlockReader_new (filter_block_bytes policy F)) (bh_offset (hs ! j)) k"
      unfolding pol(1) .
  qed
  then show ?thesis
    using that [of "Some (FilterBlockReader_new (filter_block_bytes policy F))"] Some np raw(1) it(1) cur rd
    by (simp add: ReadMeta_def ReadFilter_def Let_def)
qed

lemma Table_Open_ok:
  assumes opts: "options_ok opts" and t: "table_file opts (file_bytes rf) bs hs ix"
    and size: "kvs_size ix < 2 ^ 32 - 8" "kvs_size (concat bs) < 2 ^ 32 - 8" "length (file_bytes rf) < 2 ^ 64"
    and len: "to_filter opts = None \<or> length (file_bytes rf) < 2 ^ 32"
  obtains tbl where "Table_Open opts rf (word_of_nat (length (file_bytes rf))) = Some (Inr tbl)" "open_table opts tbl bs hs ix"
proof -
  obtain f mh ih where f: "file_bytes rf = f @ Footer_EncodeTo \<lparr>metaindex_handle = mh, index_handle = ih\<rparr> []"
    "blocks_stored opts f bs hs" "block_stored opts f ih ix" "index_keys opts bs hs ix" "filter_stored opts f bs hs mh"
    using t by (auto simp: table_file_def)
  let ?footer = "\<lparr>metaindex_handle = mh, index_handle = ih\<rparr>"
  have snappy: "snappy_ok opts" using opts by (simp add: options_ok_def)
  have n: "unat (word_of_nat (length (file_bytes rf)) :: u64) = length (file_bytes rf)" using size(3) by (simp add: unat_of_nat)
  have n2: "length (file_bytes rf) = length f + kEncodedLength" using f(1) by simp
  have rd: "RandomAccessFile_Read rf (length f) kEncodedLength = Inr (Footer_EncodeTo ?footer [])"
    using RandomAccessFile_Read_in [of "length f" kEncodedLength rf] n2 f(1) by simp
  obtain raw where raw: "ReadBlock opts rf False ih = Inr raw" "block_rep (Block_NewIterator (Block_new raw)) ix (length ix)"
    using block_stored_reader [OF _ snappy size(1)] block_stored_append [OF f(3)] f(1) by metis
  obtain filt where filt: "ReadMeta opts rf ?footer = Some filt" "\<And>x. filt = Some x \<Longrightarrow> filter_covers opts x bs hs"
    by (rule ReadMeta_ok [OF opts _ f(1) len, of bs hs ?footer]) (use f(5) in simp_all)
  define tbl where "tbl = \<lparr>tab_options = opts, tab_file = rf, tab_metaindex_handle = mh, tab_index_block = Block_new raw, tab_filter = filt\<rparr>"
  have blocks: "block_rep (BlockReader tbl (snd (ix ! j))) (bs ! j) (length (bs ! j))" if j: "j < length bs" for j
  proof -
    have "block_stored opts (file_bytes rf) (hs ! j) (bs ! j)" using f(1,2) j block_stored_append by (simp add: blocks_stored_def)
    moreover have "kvs_size (bs ! j) < 2 ^ 32 - 8" using kvs_size_member [OF nth_mem [OF j]] size(2) by simp
    ultimately obtain b where "ReadBlock opts rf (to_verify opts) (hs ! j) = Inr b"
      "block_rep (Block_NewIterator (Block_new b)) (bs ! j) (length (bs ! j))" using block_stored_reader [OF _ snappy] by metis
    then show ?thesis using f(4) j by (simp add: BlockReader_def tbl_def index_keys_def)
  qed
  have "open_table opts tbl bs hs ix"
    using f(2,4) raw(2) filt(2) blocks by (simp add: open_table_def tbl_def blocks_stored_def)
  moreover have "Table_Open opts rf (word_of_nat (length (file_bytes rf))) = Some (Inr tbl)"
    using rd raw(1) filt(1) unfolding Table_Open_def n unfolding n2 by (simp add: tbl_def)
  ultimately show ?thesis using that by blast
qed

section \<open>The iterator\<close>

interpretation table: two_level "block_ops cmp" cmp block_rep "block_ops cmp" block_rep bf for cmp bf
  by unfold_locales

text \<open>The order of the keys, also against a target that is no valid key.\<close>

definition key_order :: "TableOptions \<Rightarrow> (bytes \<Rightarrow> bool) \<Rightarrow> bool" where
  "key_order opts valid \<longleftrightarrow> comparator (to_cmp opts) (to_sep opts) (to_succ opts) valid \<and>
     (\<forall>a b t. valid a \<longrightarrow> valid b \<longrightarrow> to_cmp opts a b < 0 \<longrightarrow> to_cmp opts b t < 0 \<longrightarrow> to_cmp opts a t < 0)"

definition keys_ok :: "TableOptions \<Rightarrow> (bytes \<Rightarrow> bool) \<Rightarrow> kv list \<Rightarrow> bool" where
  "keys_ok opts valid kvs \<longleftrightarrow> (\<forall>x \<in> set kvs. valid (fst x)) \<and> sorted_wrt (\<lambda>x y. to_cmp opts (fst x) (fst y) < 0) kvs"

lemma key_orderD:
  assumes "key_order opts valid"
  shows "comparator (to_cmp opts) (to_sep opts) (to_succ opts) valid"
    and "valid a \<Longrightarrow> valid b \<Longrightarrow> to_cmp opts a b < 0 \<Longrightarrow> to_cmp opts b t < 0 \<Longrightarrow> to_cmp opts a t < 0"
    and "valid a \<Longrightarrow> valid b \<Longrightarrow> to_cmp opts a b \<le> 0 \<Longrightarrow> to_cmp opts b t < 0 \<Longrightarrow> to_cmp opts a t < 0"
proof -
  show cmp: "comparator (to_cmp opts) (to_sep opts) (to_succ opts) valid"
    and tr: "valid a \<Longrightarrow> valid b \<Longrightarrow> to_cmp opts a b < 0 \<Longrightarrow> to_cmp opts b t < 0 \<Longrightarrow> to_cmp opts a t < 0" for a b t
    using assms unfolding key_order_def by blast+
  show "valid a \<Longrightarrow> valid b \<Longrightarrow> to_cmp opts a b \<le> 0 \<Longrightarrow> to_cmp opts b t < 0 \<Longrightarrow> to_cmp opts a t < 0"
    using tr [of a b t] comparator.cmp_eq [OF cmp, of a b] by (cases "to_cmp opts a b = 0") auto
qed

lemma keys_ok_append:
  "keys_ok opts valid (xs @ ys) \<longleftrightarrow> keys_ok opts valid xs \<and> keys_ok opts valid ys \<and> (\<forall>x \<in> set xs. \<forall>y \<in> set ys. to_cmp opts (fst x) (fst y) < 0)"
  by (auto simp: keys_ok_def sorted_wrt_append)

lemma keys_ok_blocks:
  assumes "keys_ok opts valid (concat bs)"
  shows "j < length bs \<Longrightarrow> keys_ok opts valid (bs ! j)"
    and "i < j \<Longrightarrow> j < length bs \<Longrightarrow> x \<in> set (bs ! i) \<Longrightarrow> y \<in> set (bs ! j) \<Longrightarrow> to_cmp opts (fst x) (fst y) < 0"
proof -
  have split: "keys_ok opts valid (concat (take j bs) @ concat (drop j bs))" for j
    using assms by (metis append_take_drop_id concat_append)
  show "keys_ok opts valid (bs ! j)" if "j < length bs"
    using split [of j] that by (simp add: keys_ok_append flip: Cons_nth_drop_Suc)
  assume ij: "i < j" "j < length bs" and xy: "x \<in> set (bs ! i)" "y \<in> set (bs ! j)"
  have "take j bs ! i \<in> set (take j bs)" "drop j bs ! 0 \<in> set (drop j bs)" using ij by (intro nth_mem; simp)+
  then have "x \<in> set (concat (take j bs))" "y \<in> set (concat (drop j bs))" using ij xy by auto
  then show "to_cmp opts (fst x) (fst y) < 0" using split [of j] unfolding keys_ok_append by blast
qed

lemma keys_ok_last:
  assumes "key_order opts valid" "keys_ok opts valid b" "x \<in> set b"
  shows "to_cmp opts (fst x) (fst (last b)) \<le> 0" "to_cmp opts (fst (hd b)) (fst x) \<le> 0"
proof -
  note cmp = key_orderD(1) [OF assms(1)]
  have v: "valid (fst x)" if "x \<in> set b" for x using assms(2) that by (simp add: keys_ok_def)
  have "b \<noteq> []" using assms(3) by auto
  then obtain y ys z zs where b: "b = y # ys" "b = zs @ [z]" by (metis neq_Nil_conv rev_exhaust)
  show "to_cmp opts (fst x) (fst (last b)) \<le> 0"
  proof (cases "x = z")
    case True
    then show ?thesis using comparator.cmp_refl [OF cmp v [OF assms(3)]] b(2) by simp
  next
    case False
    then have "x \<in> set zs" using assms(3) b(2) by auto
    then show ?thesis using assms(2) b(2) by (auto simp: keys_ok_def sorted_wrt_append)
  qed
  show "to_cmp opts (fst (hd b)) (fst x) \<le> 0"
  proof (cases "x = y")
    case True
    then show ?thesis using comparator.cmp_refl [OF cmp v [OF assms(3)]] b(1) by simp
  next
    case False
    then have "x \<in> set ys" using assms(3) b(1) by auto
    then show ?thesis using assms(2) b(1) by (auto simp: keys_ok_def)
  qed
qed

text \<open>Where the keys of the index lie.\<close>

lemma index_between:
  assumes ord: "key_order opts valid" and ks: "keys_ok opts valid (concat bs)" and ix: "index_keys opts bs hs ix"
    and ne': "\<forall>j < length bs. bs ! j \<noteq> []"
  shows "j < length bs \<Longrightarrow> valid (fst (ix ! j))"
    and "j < length bs \<Longrightarrow> kv \<in> set (bs ! j) \<Longrightarrow> to_cmp opts (fst kv) (fst (ix ! j)) \<le> 0"
    and "i < j \<Longrightarrow> j < length bs \<Longrightarrow> kv \<in> set (bs ! j) \<Longrightarrow> to_cmp opts (fst (ix ! i)) (fst kv) < 0"
proof -
  note cmp = key_orderD(1) [OF ord]
  have ne: "bs ! j \<noteq> []" if "j < length bs" for j using ne' that by blast
  have v: "valid (fst x)" if "j < length bs" "x \<in> set (bs ! j)" for x j using keys_ok_blocks(1) [OF ks that(1)] that(2) by (simp add: keys_ok_def)
  have hl: "valid (fst (hd (bs ! j)))" "valid (fst (last (bs ! j)))" if "j < length bs" for j using v [OF that] ne [OF that] by simp_all
  have step: "to_cmp opts (fst (last (bs ! j))) (fst (hd (bs ! Suc j))) < 0" if "Suc j < length bs" for j
    using keys_ok_blocks(2) [OF ks _ that, of j "last (bs ! j)" "hd (bs ! Suc j)"] that ne by simp
  have key: "fst (ix ! j) = (if Suc j < length bs then to_sep opts (fst (last (bs ! j))) (fst (hd (bs ! Suc j))) else to_succ opts (fst (last (bs ! j))))"
    if "j < length bs" for j using ix that by (simp add: index_keys_def)
  show val: "valid (fst (ix ! j))" if "j < length bs" for j
    using key [OF that] hl that comparator.sep_valid [OF cmp] comparator.succ_valid [OF cmp] by auto
  show "to_cmp opts (fst kv) (fst (ix ! j)) \<le> 0" if j: "j < length bs" "kv \<in> set (bs ! j)" for j kv
  proof -
    have "to_cmp opts (fst (last (bs ! j))) (fst (ix ! j)) \<le> 0"
      using key [OF j(1)] hl j(1) step comparator.sep_ge [OF cmp] comparator.succ_ge [OF cmp] by auto
    moreover have "to_cmp opts (fst kv) (fst (last (bs ! j))) \<le> 0" by (rule keys_ok_last(1) [OF ord keys_ok_blocks(1) [OF ks j(1)] j(2)])
    ultimately show ?thesis
      using comparator.cmp_eq [OF cmp v [OF j] hl(2) [OF j(1)]] comparator.cmp_trans [OF cmp v [OF j] hl(2) [OF j(1)] val [OF j(1)]]
        comparator.cmp_eq [OF cmp hl(2) [OF j(1)] val [OF j(1)]] by (cases "to_cmp opts (fst kv) (fst (last (bs ! j))) = 0"; cases "to_cmp opts (fst (last (bs ! j))) (fst (ix ! j)) = 0") auto
  qed
  show "to_cmp opts (fst (ix ! i)) (fst kv) < 0" if ij: "i < j" "j < length bs" "kv \<in> set (bs ! j)" for i j kv
  proof -
    have i: "Suc i < length bs" using ij by simp
    have "to_cmp opts (fst (ix ! i)) (fst (hd (bs ! Suc i))) < 0"
      using key [of i] i hl step comparator.sep_less [OF cmp] by simp
    moreover have "to_cmp opts (fst (hd (bs ! Suc i))) (fst kv) \<le> 0"
    proof (cases "Suc i = j")
      case True
      then show ?thesis using keys_ok_last(2) [OF ord keys_ok_blocks(1) [OF ks ij(2)] ij(3)] by simp
    next
      case False
      then show ?thesis using keys_ok_blocks(2) [OF ks _ ij(2) _ ij(3), of "Suc i" "hd (bs ! Suc i)"] ij(1) ne [OF i] by simp
    qed
    ultimately show ?thesis
      using comparator.cmp_eq [OF cmp hl(1) [OF i] v [OF ij(2,3)]] key_orderD(2) [OF ord val hl(1) [OF i], of i "fst kv"] i
      by (cases "to_cmp opts (fst (hd (bs ! Suc i))) (fst kv) = 0") auto
  qed
qed

lemma keys_seekable:
  assumes "key_order opts valid" "keys_ok opts valid kvs"
  shows "seekable (before (to_cmp opts) target) kvs"
  unfolding seekable_def before_def
proof (rule sorted_wrt_mono_rel)
  show "sorted_wrt (\<lambda>x y. to_cmp opts (fst x) (fst y) < 0) kvs" using assms(2) by (simp add: keys_ok_def)
  show "to_cmp opts (fst y) target < 0 \<longrightarrow> to_cmp opts (fst x) target < 0"
    if "x \<in> set kvs" "y \<in> set kvs" "to_cmp opts (fst x) (fst y) < 0" for x y
    using key_orderD(2) [OF assms(1)] assms(2) that by (auto simp: keys_ok_def)
qed

lemma index_separated:
  assumes ord: "key_order opts valid" and ks: "keys_ok opts valid (concat bs)" and ix: "index_keys opts bs hs ix"
    and ne: "\<forall>j < length bs. bs ! j \<noteq> []" and C: "\<forall>j < length bs. C (snd (ix ! j)) = bs ! j"
  shows "separated (to_cmp opts) ix C"
proof -
  note btw = index_between [OF ord ks ix ne]
  have len: "length ix = length bs" using ix by (simp add: index_keys_def)
  have v: "valid (fst x)" if "j < length bs" "x \<in> set (bs ! j)" for x j using keys_ok_blocks(1) [OF ks that(1)] that(2) by (simp add: keys_ok_def)
  have "keys_ok opts valid ix"
    unfolding keys_ok_def sorted_wrt_iff_nth_less
  proof (intro conjI allI impI ballI)
    show "valid (fst x)" if "x \<in> set ix" for x using that btw(1) len by (auto simp: in_set_conv_nth)
    fix i j assume ij: "i < j" "j < length ix"
    then have b: "hd (bs ! j) \<in> set (bs ! j)" "j < length bs" using ne len by simp_all
    show "to_cmp opts (fst (ix ! i)) (fst (ix ! j)) < 0"
      using btw(2) [OF b(2,1)] btw(3) [OF ij(1) b(2,1)] key_orderD(2) [OF ord btw(1) v [OF b(2,1)], of i "fst (ix ! j)"]
        comparator.cmp_eq [OF key_orderD(1) [OF ord] v [OF b(2,1)] btw(1) [OF b(2)]] ij len
      by (cases "to_cmp opts (fst (hd (bs ! j))) (fst (ix ! j)) = 0") auto
  qed
  note sk = keys_seekable [OF ord this]
  show ?thesis
    unfolding separated_def len
  proof (intro allI conjI impI ballI)
    fix target j kv
    show "seekable (before (to_cmp opts) target) ix" by (rule sk)
    assume j: "j < length bs" "kv \<in> set (C (snd (ix ! j)))"
    then have kv: "kv \<in> set (bs ! j)" using C by simp
    show "before (to_cmp opts) target (fst kv)" if "before (to_cmp opts) target (fst (ix ! j))"
      using key_orderD(3) [OF ord v [OF j(1) kv] btw(1) [OF j(1)] btw(2) [OF j(1) kv]] that by (simp add: before_def)
    show "before (to_cmp opts) target (fst (ix ! i))" if "i < j" "before (to_cmp opts) target (fst kv)" for i
      using key_orderD(2) [OF ord btw(1) v [OF j(1) kv], of i target] btw(3) [OF that(1) j(1) kv] that j(1) by (simp add: before_def)
  qed
qed

lemma table_iterator_rep:
  assumes t: "open_table opts tbl bs hs ix" and ord: "key_order opts valid" "keys_ok opts valid (concat bs)"
  shows "two_rep block_rep block_rep (to_cmp opts) (BlockReader tbl) (Table_NewIterator tbl) (concat bs) (length (concat bs))"
proof -
  let ?ops = "block_ops (to_cmp opts)"
  define C where "C h = the (Option.bind (op_SeekToFirst ?ops (BlockReader tbl h)) (op_rest ?ops))" for h
  have ix: "index_keys opts bs hs ix" "\<forall>j < length bs. bs ! j \<noteq> []"
    and rep: "block_rep (Block_NewIterator (tab_index_block tbl)) ix (length ix)"
    and blk: "\<And>j. j < length bs \<Longrightarrow> block_rep (BlockReader tbl (snd (ix ! j))) (bs ! j) (length (bs ! j))"
    using t unfolding open_table_def by blast+
  have len: "length ix = length bs" using ix(1) by (simp add: index_keys_def)
  have C: "C (snd (ix ! j)) = bs ! j" if "j < length bs" for j
    using block.loops(1) [OF blk [OF that], of "to_cmp opts"] by (simp add: C_def)
  have "map (\<lambda>x. C (snd x)) ix = bs" using C len by (intro nth_equalityI) simp_all
  then have flat: "concat bs = flat ix C" by (simp add: flat_def)
  have "\<exists>p. block_rep (BlockReader tbl (snd x)) (C (snd x)) p" if "x \<in> set ix" for x
    using that blk C len by (metis in_set_conv_nth)
  moreover have "past_end block_rep ix (Table_NewIterator tbl)"
    using rep by (auto simp: past_end_def Table_NewIterator_def NewTwoLevelIterator_def)
  ultimately show ?thesis
    unfolding two_rep_def using flat index_separated [OF ord ix(1,2), of C] C by blast
qed

section \<open>Looking up a key\<close>

lemma seek_pos_end: "seek_pos lt kvs = length kvs \<Longrightarrow> x \<in> set kvs \<Longrightarrow> lt (fst x)"
  using seek_pos_before [of _ lt kvs] by (metis in_set_conv_nth)

lemma op_status_OK: "block_rep it kvs i \<Longrightarrow> op_status (block_ops cmp) it = Status_OK"
  using block.status by (simp add: Status_ok_def)

text \<open>
  \<open>InternalGet\<close> looks into one block only. What it finds is the first entry of the table at or after the
  key; when it finds nothing, all entries are before the key, or all entries of the block are, or the
  filter has ruled the block out.
\<close>

lemma InternalGet_ok:
  assumes t: "open_table opts tbl bs hs ix" and ord: "key_order opts valid" "keys_ok opts valid (concat bs)"
  obtains (found) j where "InternalGet tbl k = Some (Status_OK, Some (bs ! j ! seek_pos (before (to_cmp opts) k) (bs ! j)))"
      "j < length bs" "seek_pos (before (to_cmp opts) k) (bs ! j) < length (bs ! j)"
      "seek_pos (before (to_cmp opts) k) (concat bs) = length (concat (take j bs)) + seek_pos (before (to_cmp opts) k) (bs ! j)"
    | (none) "InternalGet tbl k = Some (Status_OK, None)" "\<And>x. x \<in> set (concat bs) \<Longrightarrow> to_cmp opts (fst x) k < 0"
    | (gap) j where "InternalGet tbl k = Some (Status_OK, None)" "j < length bs" "\<not> to_cmp opts (fst (ix ! j)) k < 0"
      "\<And>i. i < j \<Longrightarrow> to_cmp opts (fst (ix ! i)) k < 0"
      "(\<forall>x \<in> set (bs ! j). to_cmp opts (fst x) k < 0) \<or>
       (\<exists>filt. tab_filter tbl = Some filt \<and> filter_covers opts filt bs hs \<and> \<not> FilterBlock_KeyMayMatch (policy_of opts) filt (bh_offset (hs ! j)) k)"
proof -
  let ?ops = "block_ops (to_cmp opts)" and ?lt = "before (to_cmp opts) k"
  have ix: "index_keys opts bs hs ix" "\<forall>j < length bs. bs ! j \<noteq> []" "tab_options tbl = opts"
    and rep: "block_rep (Block_NewIterator (tab_index_block tbl)) ix (length ix)"
    and blk: "\<And>j. j < length bs \<Longrightarrow> block_rep (BlockReader tbl (snd (ix ! j))) (bs ! j) (length (bs ! j))"
    and filt: "\<And>filt. tab_filter tbl = Some filt \<Longrightarrow> filter_covers opts filt bs hs"
    using t unfolding open_table_def by blast+
  have len: "length ix = length bs" using ix(1) by (simp add: index_keys_def)
  define C where "C h = the (Option.bind (op_SeekToFirst ?ops (BlockReader tbl h)) (op_rest ?ops))" for h
  have C: "C (snd (ix ! j)) = bs ! j" if "j < length bs" for j
    using block.loops(1) [OF blk [OF that], of "to_cmp opts"] by (simp add: C_def)
  have sep: "separated (to_cmp opts) ix C" using index_separated [OF ord ix(1,2)] C by blast
  have take: "flat (take j ix) C = concat (take j bs)" if "j \<le> length bs" for j
  proof -
    have "map (\<lambda>x. C (snd x)) (take j ix) = take j bs" using C len that by (intro nth_equalityI) simp_all
    then show ?thesis by (simp add: flat_def)
  qed
  have flat: "flat ix C = concat bs" using take [of "length bs"] len by simp
  define j where "j = seek_pos ?lt ix"
  obtain it where it: "op_Seek ?ops k (Block_NewIterator (tab_index_block tbl)) = Some it" "block_rep it ix j"
    using movesE [OF block.seek [OF rep separatedD(1) [OF sep]]] by (metis j_def)
  have stat: "op_status ?ops it = Status_OK" by (rule op_status_OK [OF it(2)])
  show ?thesis
  proof (cases "j < length bs")
    case False
    then have all: "seek_pos ?lt ix = length ix" using seek_pos_le [of ?lt ix] len by (simp add: j_def)
    have "InternalGet tbl k = Some (Status_OK, None)"
      using it(1) block.valid [OF it(2), of "to_cmp opts"] False len stat by (simp add: InternalGet_def ix(3) Let_def)
    moreover have "to_cmp opts (fst x) k < 0" if x: "x \<in> set (concat bs)" for x
      using seek_pos_end [OF _ x, of ?lt] table.seek_flat_end [OF sep all] flat by (simp add: before_def)
    ultimately show ?thesis by (rule none)
  next
    case True
    let ?q = "seek_pos ?lt (bs ! j)"
    have val: "op_Valid ?ops it" "op_value ?ops it = BlockHandle_EncodeTo (hs ! j) []" "snd (ix ! j) = BlockHandle_EncodeTo (hs ! j) []"
      using block.valid [OF it(2)] block.key_value [OF it(2)] True len ix(1) by (simp_all add: index_keys_def)
    have at: "\<not> to_cmp opts (fst (ix ! j)) k < 0" "\<And>i. i < j \<Longrightarrow> to_cmp opts (fst (ix ! i)) k < 0"
      using seek_pos_at [of ?lt ix] seek_pos_before [of _ ?lt ix] True len by (simp_all add: j_def before_def)
    define skip where "skip \<longleftrightarrow> (\<exists>filt. tab_filter tbl = Some filt \<and> \<not> FilterBlock_KeyMayMatch (policy_of opts) filt (bh_offset (hs ! j)) k)"
    have "seekable ?lt (bs ! j)" by (rule keys_seekable [OF ord(1) keys_ok_blocks(1) [OF ord(2) True]])
    from block.seek [OF blk [OF True] this] obtain b where
      b: "op_Seek ?ops k (BlockReader tbl (BlockHandle_EncodeTo (hs ! j) [])) = Some b" "block_rep b (bs ! j) ?q"
      unfolding val(3) by (rule movesE)
    have get: "InternalGet tbl k = Some (Status_OK, if skip then None else if ?q < length (bs ! j) then Some (bs ! j ! ?q) else None)"
      using it(1) val(1,2) stat b(1) op_status_OK [OF b(2)] block.valid [OF b(2)] block.current [OF b(2)]
      by (cases "tab_filter tbl") (simp_all add: InternalGet_def ix(3) Let_def skip_def)
    show ?thesis
    proof (cases "\<not> skip \<and> ?q < length (bs ! j)")
      case True
      then show ?thesis
        using get \<open>j < length bs\<close> table.seek_flat [OF sep j_def] flat take [of j] C len
        by (intro found [of j]) simp_all
    next
      case False
      have "(\<forall>x \<in> set (bs ! j). to_cmp opts (fst x) k < 0) \<or>
         (\<exists>filt. tab_filter tbl = Some filt \<and> filter_covers opts filt bs hs \<and> \<not> FilterBlock_KeyMayMatch (policy_of opts) filt (bh_offset (hs ! j)) k)"
      proof (cases skip)
        case True
        then show ?thesis using filt by (auto simp: skip_def)
      next
        case no: False
        then have "?q = length (bs ! j)" using False seek_pos_le [of ?lt "bs ! j"] by simp
        then show ?thesis using seek_pos_end [of ?lt "bs ! j"] unfolding before_def by blast
      qed
      moreover have "InternalGet tbl k = Some (Status_OK, None)" using get False by auto
      ultimately show ?thesis using at True by (intro gap [of j])
    qed
  qed
qed

section \<open>Properties\<close>

definition table_bytes :: "TableOptions \<Rightarrow> kv list \<Rightarrow> bytes" where
  "table_bytes opts kvs = contents (r_file (Table_build opts kvs))"

lemma table_opens:
  assumes opts: "options_ok opts" and ord: "key_order opts valid" "keys_ok opts valid kvs" and kvs: "kvs \<noteq> []" "kvs_size kvs < 2 ^ 31"
    and len: "to_filter opts = None \<or> length (table_bytes opts kvs) < 2 ^ 32" and rf: "file_bytes rf = table_bytes opts kvs"
  obtains tbl bs hs ix where "r_status (Table_build opts kvs) = Status_OK"
    "Table_Open opts rf (TableBuilder_FileSize (Table_build opts kvs)) = Some (Inr tbl)" "open_table opts tbl bs hs ix" "concat bs = kvs"
    "TableBuilder_FileSize (Table_build opts kvs) = word_of_nat (length (table_bytes opts kvs))"
proof -
  obtain bs hs ix where t: "table_file opts (table_bytes opts kvs) bs hs ix" "concat bs = kvs" "64 * kvs_size ix \<le> 84 * kvs_size kvs"
    "length (table_bytes opts kvs) < 2 ^ 35" "r_status (Table_build opts kvs) = Status_OK" "TableBuilder_FileSize (Table_build opts kvs) = word_of_nat (length (table_bytes opts kvs))"
    by (rule table_built [OF opts kvs]) (use len in \<open>simp_all add: table_bytes_def\<close>)
  have "kvs_size ix < 2 ^ 32 - 8" "kvs_size (concat bs) < 2 ^ 32 - 8" "length (file_bytes rf) < 2 ^ 64"
    "to_filter opts = None \<or> length (file_bytes rf) < 2 ^ 32"
    using t(2-4) kvs(2) len rf by auto
  from Table_Open_ok [OF opts t(1) [folded rf] this] show ?thesis using that t rf by metis
qed

text \<open>
  C22: a table gives back what was added to it. \<^verbatim>\<open>TableBuilder\<close> finishes without an error when the file
  takes all appends, \<^verbatim>\<open>Table::Open\<close> succeeds on the file, and the two-level iterator of the table goes
  forwards and backwards through the keys and values, and seeks to the first key that is not before
  the target, for every target. The comparator has to meet its contract; a compressed block has to
  uncompress to what it was.
\<close>

theorem table_iterator_contents:
  assumes "options_ok opts" "key_order opts valid" "keys_ok opts valid kvs" "kvs \<noteq> []" "kvs_size kvs < 2 ^ 31"
    and "to_filter opts = None \<or> length (table_bytes opts kvs) < 2 ^ 32" "file_bytes rf = table_bytes opts kvs"
  shows "r_status (Table_build opts kvs) = Status_OK \<and>
    (\<exists>tbl. Table_Open opts rf (TableBuilder_FileSize (Table_build opts kvs)) = Some (Inr tbl) \<and>
       (let it = Table_NewIterator tbl; ops = table_iter_ops tbl
        in Option.bind (op_SeekToFirst ops it) (op_rest ops) = Some kvs \<and>
           Option.bind (op_SeekToLast ops it) (op_back ops) = Some (rev kvs) \<and>
           (\<forall>target. Option.bind (op_Seek ops target it) (op_rest ops) = Some (dropWhile (\<lambda>kv. to_cmp opts (fst kv) target < 0) kvs))))"
proof -
  obtain tbl bs hs ix where t: "r_status (Table_build opts kvs) = Status_OK"
    "Table_Open opts rf (TableBuilder_FileSize (Table_build opts kvs)) = Some (Inr tbl)" "open_table opts tbl bs hs ix" "concat bs = kvs"
    by (rule table_opens [OF assms])
  have "two_rep block_rep block_rep (to_cmp opts) (BlockReader tbl) (Table_NewIterator tbl) kvs (length kvs)"
    using table_iterator_rep [OF t(3) assms(2)] assms(3) t(4) by simp
  moreover have "table_iter_ops tbl = TwoLevel_ops (block_ops (to_cmp opts)) (block_ops (to_cmp opts)) (BlockReader tbl)"
    using t(3) by (simp add: table_iter_ops_def open_table_def Let_def)
  ultimately show ?thesis
    using t(1,2) table.loops [of "to_cmp opts" "BlockReader tbl" "Table_NewIterator tbl" kvs] keys_seekable [OF assms(2,3)] by simp
qed

text \<open>
  The options of the tables of a database: the defaults of \<^verbatim>\<open>util/options.cc\<close> with the comparator and the
  block size that \<^verbatim>\<open>SanitizeOptions\<close> puts in.
\<close>

definition leveldb_options :: "nat \<Rightarrow> (bytes \<Rightarrow> bytes option) \<Rightarrow> (bytes \<Rightarrow> bytes option) \<Rightarrow> TableOptions" where
  "leveldb_options block_size compress uncompress =
     \<lparr>to_cmp = bytewise_ikc, to_sep = bytewise_isep, to_succ = bytewise_isucc, to_block_size = block_size, to_restart_interval = 16,
      to_filter = None, to_compression = kSnappyCompression, to_compress = compress, to_uncompress = uncompress, to_verify = False\<rparr>"

lemma length_isep: "length (bytewise_isep a b) \<le> length a"
  by (auto simp: ikc_defs ExtractUserKey_def min_def)

lemma length_isucc: "length (bytewise_isucc a) \<le> length a"
proof -
  have "length t + 8 \<le> length a" if "length t < length (ExtractUserKey a)" for t :: bytes
    using that unfolding ExtractUserKey_def length_take by linarith
  then show ?thesis by (simp add: ikc_defs)
qed

lemma leveldb_options_ok:
  assumes "\<And>x y. compress x = Some y \<Longrightarrow> uncompress y = Some x"
  shows "options_ok (leveldb_options block_size compress uncompress)"
  using assms by (simp add: options_ok_def leveldb_options_def snappy_ok_def length_isep length_isucc)

lemma bytewise_ikc_trans: "bytewise_ikc a b < 0 \<Longrightarrow> bytewise_ikc b c < 0 \<Longrightarrow> bytewise_ikc a c < 0"
  using bytewise.cmp_trans [of "ExtractUserKey a" "ExtractUserKey b" "ExtractUserKey c"]
  by (auto simp: InternalKeyComparator_Compare_less bytewise.cmp_eq)

lemma leveldb_key_order: "key_order (leveldb_options block_size compress uncompress) valid_ikey"
  using bytewise_user.ikc.comparator_axioms bytewise_ikc_trans by (auto simp: key_order_def leveldb_options_def)

theorem table_iterator_contents_witness:
  "\<exists>tbl. Table_Open (leveldb_options 4096 Some Some)
      (PosixRandomAccessFile (table_bytes (leveldb_options 4096 Some Some) [(InternalKey_new [1] 7 kTypeValue, [5]), (InternalKey_new [2] 6 kTypeValue, [])]))
      (TableBuilder_FileSize (Table_build (leveldb_options 4096 Some Some) [(InternalKey_new [1] 7 kTypeValue, [5]), (InternalKey_new [2] 6 kTypeValue, [])])) =
        Some (Inr tbl) \<and>
     Option.bind (op_SeekToFirst (table_iter_ops tbl) (Table_NewIterator tbl)) (op_rest (table_iter_ops tbl)) =
       Some [(InternalKey_new [1] 7 kTypeValue, [5]), (InternalKey_new [2] 6 kTypeValue, [])]"
proof -
  let ?opts = "leveldb_options 4096 Some Some" and ?kvs = "[(InternalKey_new [1] 7 kTypeValue, [5]), (InternalKey_new [2] 6 kTypeValue, [])] :: kv list"
  have "bytewise_ikc (InternalKey_new [1] 7 kTypeValue) (InternalKey_new [2] 6 kTypeValue) < 0" by code_simp
  then have "keys_ok ?opts valid_ikey ?kvs"
    by (simp add: keys_ok_def leveldb_options_def InternalKey_new_def AppendInternalKey_eq valid_ikey_def)
  moreover have "options_ok ?opts" by (rule leveldb_options_ok) simp
  moreover have "to_filter ?opts = None \<or> length (table_bytes ?opts ?kvs) < 2 ^ 32" by (simp add: leveldb_options_def)
  ultimately show ?thesis
    using table_iterator_contents [OF _ leveldb_key_order, of 4096 Some Some ?kvs "PosixRandomAccessFile (table_bytes ?opts ?kvs)"]
    by (simp add: Let_def kvs_size_def InternalKey_new_def AppendInternalKey_eq) blast
qed

end
