(* ===== verification/Write_Batch.thy ===== *)
theory Write_Batch
  imports DBFormat Status_Codes
begin

text \<open>
  Write batches: \<^verbatim>\<open>include/leveldb/write_batch.h\<close>, \<^verbatim>\<open>db/write_batch_internal.h\<close> and
  \<^verbatim>\<open>db/write_batch.cc\<close>. A batch is its representation \<^verbatim>\<open>rep_\<close>, a byte string: eight bytes of
  sequence number, four bytes of count, and the records. The model of the batches as lists
  of updates, \<open>batch_rep\<close>, is the abstract specification that the operations implement.
\<close>

section \<open>Operations\<close>

type_synonym WriteBatch = bytes

definition kHeader :: nat where
  "kHeader = 12"

definition WriteBatch_Clear :: "WriteBatch \<Rightarrow> WriteBatch" where
  "WriteBatch_Clear b = replicate kHeader 0"

definition WriteBatch_new :: WriteBatch where
  "WriteBatch_new = WriteBatch_Clear []"

definition WriteBatch_Count :: "WriteBatch \<Rightarrow> u32" where
  "WriteBatch_Count b = DecodeFixed32 (drop 8 b)"

definition WriteBatch_SetCount :: "WriteBatch \<Rightarrow> u32 \<Rightarrow> WriteBatch" where
  "WriteBatch_SetCount b n = take 8 b @ EncodeFixed32 n @ drop 12 b"

definition WriteBatch_Sequence :: "WriteBatch \<Rightarrow> u64" where
  "WriteBatch_Sequence b = DecodeFixed64 b"

definition WriteBatch_SetSequence :: "WriteBatch \<Rightarrow> u64 \<Rightarrow> WriteBatch" where
  "WriteBatch_SetSequence b sq = EncodeFixed64 sq @ drop 8 b"

definition WriteBatch_Put :: "WriteBatch \<Rightarrow> bytes \<Rightarrow> bytes \<Rightarrow> WriteBatch" where
  "WriteBatch_Put b key val =
     (let b = WriteBatch_SetCount b (WriteBatch_Count b + 1);
          b = b @ [ValueType_code kTypeValue];
          b = PutLengthPrefixedSlice b key
      in PutLengthPrefixedSlice b val)"

definition WriteBatch_Delete :: "WriteBatch \<Rightarrow> bytes \<Rightarrow> WriteBatch" where
  "WriteBatch_Delete b key =
     (let b = WriteBatch_SetCount b (WriteBatch_Count b + 1);
          b = b @ [ValueType_code kTypeDeletion]
      in PutLengthPrefixedSlice b key)"

definition WriteBatch_SetContents :: "WriteBatch \<Rightarrow> bytes \<Rightarrow> WriteBatch" where
  "WriteBatch_SetContents b contents = contents"

definition WriteBatch_ByteSize :: "WriteBatch \<Rightarrow> nat" where
  "WriteBatch_ByteSize b = length b"

definition WriteBatch_Append :: "WriteBatch \<Rightarrow> WriteBatch \<Rightarrow> WriteBatch" where
  "WriteBatch_Append dst src =
     (let dst = WriteBatch_SetCount dst (WriteBatch_Count dst + WriteBatch_Count src)
      in dst @ drop kHeader src)"

text \<open>
  \<^verbatim>\<open>WriteBatch::Handler\<close> is the pair of its two methods over the handler's own state.
\<close>

record 's Handler =
  handler_Put :: "bytes \<Rightarrow> bytes \<Rightarrow> 's \<Rightarrow> 's"
  handler_Delete :: "bytes \<Rightarrow> 's \<Rightarrow> 's"

text \<open>The loop of \<open>Iterate\<close>: \<open>Inl\<close> the error, or the number of records found.\<close>

function Iterate_loop :: "'s Handler \<Rightarrow> nat \<Rightarrow> bytes \<Rightarrow> 's \<Rightarrow> (Status + nat) \<times> 's" where
  "Iterate_loop h found input s =
     (case input of
        [] \<Rightarrow> (Inr found, s)
      | tag # input \<Rightarrow>
          if tag = ValueType_code kTypeValue then
            (case GetLengthPrefixedSlice input of
               Some (key, input) \<Rightarrow>
                 (case GetLengthPrefixedSlice input of
                    Some (val, input) \<Rightarrow> Iterate_loop h (found + 1) input (handler_Put h key val s)
                  | None \<Rightarrow> (Inl (Status_Corruption (cstr ''bad WriteBatch Put'') []), s))
             | None \<Rightarrow> (Inl (Status_Corruption (cstr ''bad WriteBatch Put'') []), s))
          else if tag = ValueType_code kTypeDeletion then
            (case GetLengthPrefixedSlice input of
               Some (key, input) \<Rightarrow> Iterate_loop h (found + 1) input (handler_Delete h key s)
             | None \<Rightarrow> (Inl (Status_Corruption (cstr ''bad WriteBatch Delete'') []), s))
          else (Inl (Status_Corruption (cstr ''unknown WriteBatch tag'') []), s))"
  by pat_completeness auto
termination
  by (relation "measure (\<lambda>(h, found, input, s). length input)")
    (auto dest!: GetLengthPrefixedSlice_shorter)

declare Iterate_loop.simps [simp del]

definition WriteBatch_Iterate :: "'s Handler \<Rightarrow> WriteBatch \<Rightarrow> 's \<Rightarrow> Status \<times> 's" where
  "WriteBatch_Iterate h b s =
     (if length b < kHeader
      then (Status_Corruption (cstr ''malformed WriteBatch (too small)'') [], s)
      else (case Iterate_loop h 0 (drop kHeader b) s of
              (Inl e, s) \<Rightarrow> (e, s)
            | (Inr found, s) \<Rightarrow>
                if word_of_nat found \<noteq> WriteBatch_Count b
                then (Status_Corruption (cstr ''WriteBatch has wrong count'') [], s)
                else (Status_OK, s)))"

section \<open>Specification: a batch is a list of updates\<close>

datatype update = UPut bytes bytes | UDelete bytes

fun update_rep :: "update \<Rightarrow> bytes" where
  "update_rep (UPut k v) =
     ValueType_code kTypeValue # PutLengthPrefixedSlice [] k @ PutLengthPrefixedSlice [] v"
| "update_rep (UDelete k) = ValueType_code kTypeDeletion # PutLengthPrefixedSlice [] k"

fun valid_update :: "update \<Rightarrow> bool" where
  "valid_update (UPut k v) \<longleftrightarrow> length k < 2 ^ 32 \<and> length v < 2 ^ 32"
| "valid_update (UDelete k) \<longleftrightarrow> length k < 2 ^ 32"

fun handle :: "'s Handler \<Rightarrow> 's \<Rightarrow> update \<Rightarrow> 's" where
  "handle h s (UPut k v) = handler_Put h k v s"
| "handle h s (UDelete k) = handler_Delete h k s"

definition batch_rep :: "u64 \<Rightarrow> update list \<Rightarrow> WriteBatch" where
  "batch_rep sq us =
     EncodeFixed64 sq @ EncodeFixed32 (word_of_nat (length us)) @ concat (map update_rep us)"

section \<open>Lemmas\<close>

lemma Iterate_loop_Nil [simp]: "Iterate_loop h found [] s = (Inr found, s)"
  by (subst Iterate_loop.simps) simp

lemma Iterate_loop_update:
  "valid_update u \<Longrightarrow>
   Iterate_loop h found (update_rep u @ input) s = Iterate_loop h (found + 1) input (handle h s u)"
  by (cases u; subst Iterate_loop.simps)
    (simp_all add: put_simps GetLengthPrefixedSlice_Encode)

lemma Iterate_loop_updates:
  "list_all valid_update us \<Longrightarrow>
   Iterate_loop h found (concat (map update_rep us)) s = (Inr (found + length us), foldl (handle h) s us)"
  by (induction us arbitrary: found s) (simp_all add: Iterate_loop_update)

lemma batch_fields [simp]:
  "WriteBatch_Count (batch_rep sq us) = word_of_nat (length us)"
  "WriteBatch_Sequence (batch_rep sq us) = sq"
  "drop 12 (batch_rep sq us) = concat (map update_rep us)"
  "12 \<le> length (batch_rep sq us)"
  by (simp_all add: WriteBatch_Count_def WriteBatch_Sequence_def batch_rep_def)

lemma WriteBatch_Iterate_batch_rep:
  "list_all valid_update us \<Longrightarrow>
   WriteBatch_Iterate h (batch_rep sq us) s = (Status_OK, foldl (handle h) s us)"
  by (simp add: WriteBatch_Iterate_def kHeader_def Iterate_loop_updates leD [OF batch_fields(4)])

lemma SetCount_batch_rep:
  "WriteBatch_SetCount (batch_rep sq us) n = EncodeFixed64 sq @ EncodeFixed32 n @ concat (map update_rep us)"
  by (simp add: WriteBatch_SetCount_def) (simp add: batch_rep_def)

lemma WriteBatch_refines:
  "WriteBatch_new = batch_rep 0 []"
  "WriteBatch_Clear b = batch_rep 0 []"
  "WriteBatch_Put (batch_rep sq us) k v = batch_rep sq (us @ [UPut k v])"
  "WriteBatch_Delete (batch_rep sq us) k = batch_rep sq (us @ [UDelete k])"
  "WriteBatch_SetSequence (batch_rep sq us) sq' = batch_rep sq' us"
  "WriteBatch_Append (batch_rep sq us) (batch_rep sq' us') = batch_rep sq (us @ us')"
proof -
  have zeros: "replicate 12 (0 :: byte) = EncodeFixed64 0 @ EncodeFixed32 0"
    by (simp add: EncodeFixed64_def EncodeFixed32_def kLittleEndian_def numeral_eq_Suc)
  show "WriteBatch_new = batch_rep 0 []" "WriteBatch_Clear b = batch_rep 0 []"
    by (simp_all add: WriteBatch_new_def WriteBatch_Clear_def kHeader_def batch_rep_def zeros)
  show "WriteBatch_Put (batch_rep sq us) k v = batch_rep sq (us @ [UPut k v])"
    "WriteBatch_Delete (batch_rep sq us) k = batch_rep sq (us @ [UDelete k])"
    "WriteBatch_Append (batch_rep sq us) (batch_rep sq' us') = batch_rep sq (us @ us')"
    by (simp_all add: WriteBatch_Put_def WriteBatch_Delete_def WriteBatch_Append_def Let_def
        SetCount_batch_rep kHeader_def) (simp_all add: batch_rep_def put_simps add.commute)
  show "WriteBatch_SetSequence (batch_rep sq us) sq' = batch_rep sq' us"
    by (simp add: WriteBatch_SetSequence_def batch_rep_def)
qed

lemma Iterate_loop_error:
  "Iterate_loop h found input s = (Inl e, s') \<Longrightarrow> Status_IsCorruption e"
proof (induction h found input s rule: Iterate_loop.induct)
  case (1 h found input s)
  show ?case
  proof (cases input)
    case Nil
    with "1.prems" show ?thesis by simp
  next
    case (Cons tag rest)
    with "1.prems" "1.IH" [OF Cons] show ?thesis
      by (auto simp: Iterate_loop.simps [of h found "tag # rest" s] split: option.splits if_splits)
  qed
qed

text \<open>
  The updates of a list that lie completely in the first \<open>n\<close> bytes of their representation, and
  what the loop does with a representation that is cut there.
\<close>

fun complete_updates :: "nat \<Rightarrow> update list \<Rightarrow> update list" where
  "complete_updates n [] = []"
| "complete_updates n (u # us) =
     (if length (update_rep u) \<le> n then u # complete_updates (n - length (update_rep u)) us else [])"

lemma update_rep_not_Nil [simp]: "update_rep u \<noteq> []"
  by (cases u) simp_all

lemma Iterate_loop_cut_update:
  assumes "valid_update u" and "0 < n" and "n < length (update_rep u)"
  shows "\<exists>e. Iterate_loop h found (take n (update_rep u)) s = (Inl e, s)"
proof (cases u)
  case (UDelete k)
  with assms GetLengthPrefixedSlice_cut [of k "n - 1"] show ?thesis
    by (subst Iterate_loop.simps) (cases n, auto)
next
  case (UPut k v)
  let ?k = "PutLengthPrefixedSlice [] k"
  have "n - 1 < length ?k \<or> (n - 1 \<ge> length ?k \<and> n - 1 - length ?k < length (PutLengthPrefixedSlice [] v))"
    using assms UPut by auto
  then show ?thesis
  proof (elim disjE conjE)
    assume "n - 1 < length ?k"
    with assms UPut GetLengthPrefixedSlice_cut [of k "n - 1"] show ?thesis
      by (subst Iterate_loop.simps) (cases n, auto)
  next
    assume "n - 1 \<ge> length ?k" "n - 1 - length ?k < length (PutLengthPrefixedSlice [] v)"
    with assms UPut GetLengthPrefixedSlice_cut [of v "n - 1 - length ?k"] GetLengthPrefixedSlice_Put [of k] show ?thesis
      by (subst Iterate_loop.simps) (cases n, auto)
  qed
qed

lemma Iterate_loop_cut:
  "list_all valid_update us \<Longrightarrow> n < length (concat (map update_rep us)) \<Longrightarrow>
   (\<exists>e. Iterate_loop h found (take n (concat (map update_rep us))) s =
      (Inl e, foldl (handle h) s (complete_updates n us))) \<or>
   (\<exists>m < length us. Iterate_loop h found (take n (concat (map update_rep us))) s =
      (Inr (found + m), foldl (handle h) s (complete_updates n us)))"
proof (induction us arbitrary: n found s)
  case (Cons u us)
  consider "n = 0" | "0 < n" "n < length (update_rep u)" | "length (update_rep u) \<le> n" by linarith
  then show ?case
  proof cases
    case 1
    then show ?thesis by auto
  next
    case 2
    with Iterate_loop_cut_update [of u n h found s] Cons.prems show ?thesis by simp
  next
    case 3
    let ?n = "n - length (update_rep u)"
    have "?n < length (concat (map update_rep us))" using 3 Cons.prems by simp
    with Cons.IH [of ?n "found + 1" "handle h s u"] Cons.prems 3 show ?thesis
      by (auto simp: Iterate_loop_update intro: exI [of _ "Suc _"])
  qed
qed simp

lemma complete_updates_0 [simp]: "complete_updates 0 us = []"
  by (cases us) simp_all

lemma WriteBatch_Iterate_cut:
  assumes "list_all valid_update us" and "length us < 2 ^ 32" and "n < length (batch_rep sq us)"
  shows "Status_IsCorruption (fst (WriteBatch_Iterate h (take n (batch_rep sq us)) s)) \<and>
    snd (WriteBatch_Iterate h (take n (batch_rep sq us)) s) = foldl (handle h) s (complete_updates (n - kHeader) us)"
proof (cases "n < kHeader")
  case True
  then show ?thesis using complete_updates_0 [of us] assms(3) by (simp add: WriteBatch_Iterate_def)
next
  case False
  let ?b = "take n (batch_rep sq us)"
  have b: "drop kHeader ?b = take (n - kHeader) (concat (map update_rep us))" "\<not> length ?b < kHeader"
    using False assms(3) by (simp_all add: kHeader_def drop_take)
  have count: "WriteBatch_Count ?b = word_of_nat (length us)"
    using False by (simp add: WriteBatch_Count_def kHeader_def drop_take batch_rep_def)
  have len: "n - kHeader < length (concat (map update_rep us))"
    using assms(3) False by (simp add: batch_rep_def kHeader_def)
  from Iterate_loop_cut [OF assms(1) len, of h 0 s] show ?thesis
  proof (elim disjE exE conjE)
    fix e
    assume r: "Iterate_loop h 0 (take (n - kHeader) (concat (map update_rep us))) s =
      (Inl e, foldl (handle h) s (complete_updates (n - kHeader) us))"
    with Iterate_loop_error [OF r] b show ?thesis by (simp add: WriteBatch_Iterate_def)
  next
    fix m
    assume m: "m < length us" and r: "Iterate_loop h 0 (take (n - kHeader) (concat (map update_rep us))) s =
      (Inr (0 + m), foldl (handle h) s (complete_updates (n - kHeader) us))"
    have "(word_of_nat m :: u32) \<noteq> word_of_nat (length us)"
      using m assms(2) by (simp add: word_unat_eq_iff unat_of_nat take_bit_nat_eq_self)
    with r b count show ?thesis by (simp add: WriteBatch_Iterate_def)
  qed
qed

lemma WriteBatch_Iterate_bad_tag:
  assumes "list_all valid_update us" and "tag \<notin> {ValueType_code kTypeValue, ValueType_code kTypeDeletion}"
  shows "WriteBatch_Iterate h (batch_rep sq us @ tag # rest) s =
    (Status_Corruption (cstr ''unknown WriteBatch tag'') [], foldl (handle h) s us)"
proof -
  have "Iterate_loop h found (concat (map update_rep us) @ tag # rest) s =
      (Inl (Status_Corruption (cstr ''unknown WriteBatch tag'') []), foldl (handle h) s us)" for found
    using assms(1)
  proof (induction us arbitrary: found s)
    case Nil
    then show ?case using assms(2) by (subst Iterate_loop.simps) simp
  qed (simp add: Iterate_loop_update)
  then show ?thesis by (simp add: WriteBatch_Iterate_def kHeader_def) (simp add: batch_rep_def)
qed

section \<open>Properties\<close>

text \<open>
  C15: the byte string of a batch is exactly its list of updates: the constructor and \<^verbatim>\<open>Clear\<close>
  give the empty list, \<^verbatim>\<open>Put\<close> and \<^verbatim>\<open>Delete\<close> add one update at the end, \<^verbatim>\<open>Append\<close> joins the lists,
  and \<^verbatim>\<open>SetSequence\<close> changes the sequence number alone.
\<close>

theorem WriteBatch_operations:
  "WriteBatch_new = batch_rep 0 [] \<and> WriteBatch_Clear b = batch_rep 0 [] \<and>
   WriteBatch_Put (batch_rep sq us) k v = batch_rep sq (us @ [UPut k v]) \<and>
   WriteBatch_Delete (batch_rep sq us) k = batch_rep sq (us @ [UDelete k]) \<and>
   WriteBatch_SetSequence (batch_rep sq us) sq' = batch_rep sq' us \<and>
   WriteBatch_Append (batch_rep sq us) (batch_rep sq' us') = batch_rep sq (us @ us')"
  by (simp add: WriteBatch_refines)

text \<open>
  C14: iterating over a batch hands its updates to the handler one by one, in the order
  they were added, and reports success (keys and values below 4 GB).
\<close>

theorem WriteBatch_Iterate_in_order:
  assumes "list_all valid_update us"
  shows "WriteBatch_Iterate h (batch_rep sq us) s = (Status_OK, foldl (handle h) s us)"
  using assms by (rule WriteBatch_Iterate_batch_rep)

theorem WriteBatch_Iterate_in_order_witness:
  "WriteBatch_Iterate \<lparr>handler_Put = (\<lambda>k v s. s @ [(k, Some v)]), handler_Delete = (\<lambda>k s. s @ [(k, None)])\<rparr>
     (batch_rep 5 [UPut [1] [2], UDelete [3]]) [] = (Status_OK, [([1], Some [2]), ([3], None)])"
  by (simp add: WriteBatch_Iterate_in_order)

text \<open>
  C38: a batch that lost its tail is never taken for a whole one. Cut after any number of
  bytes before its end (shorter than the header included), iterating over it reports corruption,
  and the handler has seen exactly the updates that lie completely before the cut; a batch with
  further bytes after its updates that start with an unknown tag is refused too, after all its updates.
\<close>

theorem WriteBatch_Iterate_truncated:
  assumes "list_all valid_update us" and "length us < 2 ^ 32"
  shows "(n < length (batch_rep sq us) \<longrightarrow>
      Status_IsCorruption (fst (WriteBatch_Iterate h (take n (batch_rep sq us)) s)) \<and>
      snd (WriteBatch_Iterate h (take n (batch_rep sq us)) s) =
        foldl (handle h) s (complete_updates (n - kHeader) us)) \<and>
    (tag \<notin> {ValueType_code kTypeValue, ValueType_code kTypeDeletion} \<longrightarrow>
      WriteBatch_Iterate h (batch_rep sq us @ tag # rest) s =
        (Status_Corruption (cstr ''unknown WriteBatch tag'') [], foldl (handle h) s us))"
  by (intro conjI impI WriteBatch_Iterate_cut [OF assms, THEN conjunct1] WriteBatch_Iterate_cut [OF assms, THEN conjunct2]
      WriteBatch_Iterate_bad_tag [OF assms(1)])

theorem WriteBatch_Iterate_truncated_witness:
  "snd (WriteBatch_Iterate \<lparr>handler_Put = (\<lambda>k v s. s @ [(k, Some v)]), handler_Delete = (\<lambda>k s. s @ [(k, None)])\<rparr>
     (take 18 (batch_rep 5 [UPut [1] [2], UDelete [3]])) []) = [([1], Some [2])]"
  (is "snd (WriteBatch_Iterate ?h _ _) = _")
proof -
  have "length (batch_rep 5 [UPut [1] [2], UDelete [3]]) = 20"
    by (simp add: batch_rep_def put_simps EncodeVarint32_def)
  then show ?thesis
    using WriteBatch_Iterate_truncated [of "[UPut [1] [2], UDelete [3]]" 18 5 ?h "[]"]
    by (simp add: kHeader_def put_simps EncodeVarint32_def)
qed

end
