(* ===== verification/Mem_Table.thy ===== *)
theory Mem_Table
  imports Write_Batch
begin

text \<open>
  The memtable: \<^verbatim>\<open>db/memtable.h\<close>, \<^verbatim>\<open>db/memtable.cc\<close> and the inserter of \<^verbatim>\<open>db/write_batch.cc\<close>. The skip
  list that holds the entries is taken by its contract, an ordered list of entries: its
  towers are shortcuts that do not show in what it returns. An entry is the byte string the
  code builds in the arena. The abstract state is the sorted list of parsed internal keys
  with their values.
\<close>

section \<open>Entries\<close>

text \<open>\<^verbatim>\<open>GetLengthPrefixedSlice\<close> of this file trusts the length and looks at five bytes of it at most.\<close>

definition MemVarint32 :: "bytes \<Rightarrow> (u32 \<times> bytes) option" where
  "MemVarint32 p =
     (case GetVarint32Ptr (take 5 p) of
        None \<Rightarrow> None
      | Some (len, q) \<Rightarrow> Some (len, drop (length (take 5 p) - length q) p))"

definition MemGetLengthPrefixedSlice :: "bytes \<Rightarrow> bytes" where
  "MemGetLengthPrefixedSlice data =
     (case MemVarint32 data of None \<Rightarrow> [] | Some (len, p) \<Rightarrow> take (unat len) p)"

definition KeyComparator :: "(bytes \<Rightarrow> bytes \<Rightarrow> int) \<Rightarrow> bytes \<Rightarrow> bytes \<Rightarrow> int" where
  "KeyComparator ucmp aptr bptr =
     (let a = MemGetLengthPrefixedSlice aptr; b = MemGetLengthPrefixedSlice bptr
      in InternalKeyComparator_Compare ucmp a b)"

definition EncodeKey :: "bytes \<Rightarrow> bytes" where
  "EncodeKey target = PutVarint32 [] (word_of_nat (length target)) @ target"

type_synonym MemTable = "bytes list"

definition SkipList_Insert :: "(bytes \<Rightarrow> bytes \<Rightarrow> int) \<Rightarrow> bytes \<Rightarrow> bytes list \<Rightarrow> bytes list" where
  "SkipList_Insert cmp key xs = takeWhile (\<lambda>x. cmp x key < 0) xs @ key # dropWhile (\<lambda>x. cmp x key < 0) xs"

definition SkipList_Seek :: "(bytes \<Rightarrow> bytes \<Rightarrow> int) \<Rightarrow> bytes \<Rightarrow> bytes list \<Rightarrow> nat" where
  "SkipList_Seek cmp target xs = length (takeWhile (\<lambda>x. cmp x target < 0) xs)"

definition MemTable_new :: MemTable where
  "MemTable_new = []"

definition MemTable_Add ::
    "(bytes \<Rightarrow> bytes \<Rightarrow> int) \<Rightarrow> u64 \<Rightarrow> ValueType \<Rightarrow> bytes \<Rightarrow> bytes \<Rightarrow> MemTable \<Rightarrow> MemTable" where
  "MemTable_Add ucmp s type key val mem =
     (let key_size = length key;
          val_size = length val;
          internal_key_size = key_size + 8;
          buf = EncodeVarint32 (word_of_nat internal_key_size) @ key @
                EncodeFixed64 (push_bit 8 s OR ucast (ValueType_code type)) @
                EncodeVarint32 (word_of_nat val_size) @ val
      in SkipList_Insert (KeyComparator ucmp) buf mem)"

text \<open>The result of \<open>Get\<close>: nothing for this key here, or what to return for it.\<close>

definition MemTable_Get :: "(bytes \<Rightarrow> bytes \<Rightarrow> int) \<Rightarrow> LookupKey \<Rightarrow> MemTable \<Rightarrow> (Status + bytes) option" where
  "MemTable_Get ucmp key mem =
     (let memkey = LookupKey_memtable_key key;
          iter = SkipList_Seek (KeyComparator ucmp) memkey mem
      in if iter < length mem then
           let entry = mem ! iter in
           (case MemVarint32 entry of
              None \<Rightarrow> None
            | Some (key_length, key_ptr) \<Rightarrow>
                if ucmp (take (unat (key_length - 8)) key_ptr) (LookupKey_user_key key) = 0 then
                  let tag = DecodeFixed64 (drop (unat (key_length - 8)) key_ptr) in
                  (case ValueType_of (ucast (tag AND 0xff)) of
                     Some kTypeValue \<Rightarrow> Some (Inr (MemGetLengthPrefixedSlice (drop (unat key_length) key_ptr)))
                   | Some kTypeDeletion \<Rightarrow> Some (Inl (Status_NotFound [] []))
                   | None \<Rightarrow> None)
                else None)
         else None)"

section \<open>Iterating\<close>

definition MemTableIterator_key :: "MemTable \<Rightarrow> nat \<Rightarrow> bytes" where
  "MemTableIterator_key mem i = MemGetLengthPrefixedSlice (mem ! i)"

definition MemTableIterator_value :: "MemTable \<Rightarrow> nat \<Rightarrow> bytes" where
  "MemTableIterator_value mem i =
     (case MemVarint32 (mem ! i) of
        None \<Rightarrow> []
      | Some (len, p) \<Rightarrow> MemGetLengthPrefixedSlice (drop (unat len) p))"

definition MemTableIterator_Seek :: "(bytes \<Rightarrow> bytes \<Rightarrow> int) \<Rightarrow> MemTable \<Rightarrow> bytes \<Rightarrow> nat" where
  "MemTableIterator_Seek ucmp mem k = SkipList_Seek (KeyComparator ucmp) (EncodeKey k) mem"

section \<open>Applying a batch\<close>

text \<open>The state of \<^verbatim>\<open>MemTableInserter\<close> is the next sequence number and the memtable.\<close>

definition MemTableInserter :: "(bytes \<Rightarrow> bytes \<Rightarrow> int) \<Rightarrow> (u64 \<times> MemTable) Handler" where
  "MemTableInserter ucmp =
     \<lparr>handler_Put = (\<lambda>key val (sq, mem). (sq + 1, MemTable_Add ucmp sq kTypeValue key val mem)),
      handler_Delete = (\<lambda>key (sq, mem). (sq + 1, MemTable_Add ucmp sq kTypeDeletion key [] mem))\<rparr>"

definition InsertInto :: "(bytes \<Rightarrow> bytes \<Rightarrow> int) \<Rightarrow> WriteBatch \<Rightarrow> MemTable \<Rightarrow> Status \<times> MemTable" where
  "InsertInto ucmp b mem =
     (case WriteBatch_Iterate (MemTableInserter ucmp) b (WriteBatch_Sequence b, mem) of
        (status, (sq, mem)) \<Rightarrow> (status, mem))"

section \<open>The abstract memtable\<close>

type_synonym entry = "ParsedInternalKey \<times> bytes"

definition entry_less :: "entry \<Rightarrow> entry \<Rightarrow> bool" where
  "entry_less x y \<longleftrightarrow> ikey_less (fst x) (fst y)"

definition insert_entry :: "entry \<Rightarrow> entry list \<Rightarrow> entry list" where
  "insert_entry e es = takeWhile (\<lambda>x. entry_less x e) es @ e # dropWhile (\<lambda>x. entry_less x e) es"

definition entry_ok :: "entry \<Rightarrow> bool" where
  "entry_ok e \<longleftrightarrow> valid_seq (sequence (fst e)) \<and> length (user_key (fst e)) + 8 < 2 ^ 32 \<and> length (snd e) < 2 ^ 32"

definition entry_bytes :: "entry \<Rightarrow> bytes" where
  "entry_bytes e = PutLengthPrefixedSlice [] (AppendInternalKey [] (fst e)) @ PutLengthPrefixedSlice [] (snd e)"

text \<open>The newest entry of a user key at or before a sequence number.\<close>

definition newest :: "entry list \<Rightarrow> u64 \<Rightarrow> bytes \<Rightarrow> entry option" where
  "newest es S uk = find (\<lambda>e. user_key (fst e) = uk \<and> sequence (fst e) \<le> S) es"

definition entry_value :: "entry \<Rightarrow> bytes option" where
  "entry_value e = (case vtype (fst e) of kTypeValue \<Rightarrow> Some (snd e) | kTypeDeletion \<Rightarrow> None)"

definition update_entry :: "u64 \<Rightarrow> update \<Rightarrow> entry" where
  "update_entry sq u =
     (case u of
        UPut k v \<Rightarrow> (\<lparr>user_key = k, sequence = sq, vtype = kTypeValue\<rparr>, v)
      | UDelete k \<Rightarrow> (\<lparr>user_key = k, sequence = sq, vtype = kTypeDeletion\<rparr>, []))"

section \<open>The memtable implements it\<close>

lemma MemVarint32_Encode [simp]: "MemVarint32 (EncodeVarint32 v @ rest) = Some (v, rest)"
proof -
  have *: "take 5 (EncodeVarint32 v @ rest) = EncodeVarint32 v @ take (5 - length (EncodeVarint32 v)) rest"
    using length_EncodeVarint32 [of v] by simp
  then have "GetVarint32Ptr (take 5 (EncodeVarint32 v @ rest)) = Some (v, take (5 - length (EncodeVarint32 v)) rest)"
    using GetVarint32_EncodeVarint32 by (simp add: GetVarint32_def)
  moreover have "length (take 5 (EncodeVarint32 v @ rest)) - length (take (5 - length (EncodeVarint32 v)) rest) =
      length (EncodeVarint32 v)" unfolding * by simp
  ultimately show ?thesis unfolding MemVarint32_def by (simp del: take_append)
qed

lemma MemGet_prefixed [simp]:
  "length s < 2 ^ 32 \<Longrightarrow> MemGetLengthPrefixedSlice (PutLengthPrefixedSlice [] s @ rest) = s"
  by (simp add: MemGetLengthPrefixedSlice_def put_simps unat_of_nat take_bit_nat_eq_self)

lemma MemGet_prefixed_end [simp]:
  "length s < 2 ^ 32 \<Longrightarrow> MemGetLengthPrefixedSlice (PutLengthPrefixedSlice [] s) = s"
  using MemGet_prefixed [of s "[]"] by simp

lemma length_ikey [simp]: "length (AppendInternalKey [] k) = length (user_key k) + 8"
  by (simp add: AppendInternalKey_eq)

lemma KeyComparator_entries:
  assumes "entry_ok a" "entry_ok b"
  shows "KeyComparator Bytewise_Compare (entry_bytes a) (entry_bytes b) < 0 \<longleftrightarrow> entry_less a b"
  using assms by (simp add: KeyComparator_def entry_bytes_def entry_ok_def entry_less_def bytewise_ikc_less)

lemma MemTable_Add_insert_entry:
  assumes "list_all entry_ok es" "entry_ok (\<lparr>user_key = key, sequence = s, vtype = type\<rparr>, val)"
  shows "MemTable_Add Bytewise_Compare s type key val (map entry_bytes es) =
    map entry_bytes (insert_entry (\<lparr>user_key = key, sequence = s, vtype = type\<rparr>, val) es)"
proof -
  let ?e = "(\<lparr>user_key = key, sequence = s, vtype = type\<rparr>, val)"
  have buf: "MemTable_Add Bytewise_Compare s type key val mem =
      SkipList_Insert (KeyComparator Bytewise_Compare) (entry_bytes ?e) mem" for mem
    by (simp add: MemTable_Add_def Let_def entry_bytes_def put_simps AppendInternalKey_eq PackSequenceAndType_def)
  have less: "\<forall>x \<in> set es. KeyComparator Bytewise_Compare (entry_bytes x) (entry_bytes ?e) < 0 \<longleftrightarrow> entry_less x ?e"
    using assms KeyComparator_entries by (auto simp: list_all_iff)
  have "takeWhile (\<lambda>x. KeyComparator Bytewise_Compare x (entry_bytes ?e) < 0) (map entry_bytes es) =
      map entry_bytes (takeWhile (\<lambda>x. entry_less x ?e) es)"
    using less by (intro takeWhile_map_cong) simp
  moreover have "dropWhile (\<lambda>x. KeyComparator Bytewise_Compare x (entry_bytes ?e) < 0) (map entry_bytes es) =
      map entry_bytes (dropWhile (\<lambda>x. entry_less x ?e) es)"
    using less by (intro dropWhile_map_cong) simp
  ultimately show ?thesis by (simp add: buf SkipList_Insert_def insert_entry_def)
qed

abbreviation seek_key :: "bytes \<Rightarrow> u64 \<Rightarrow> ParsedInternalKey" where
  "seek_key uk S \<equiv> \<lparr>user_key = uk, sequence = S, vtype = kTypeValue\<rparr>"

lemma before_seek_key: "ikey_less k (seek_key uk S) \<longleftrightarrow> user_key k < uk \<or> user_key k = uk \<and> S < sequence k"
  by (auto simp: ikey_less_def)

lemma newest_seek:
  assumes "sorted_wrt entry_less es"
  shows "newest es S uk =
    (let i = length (takeWhile (\<lambda>x. ikey_less (fst x) (seek_key uk S)) es)
     in if i < length es \<and> user_key (fst (es ! i)) = uk then Some (es ! i) else None)"
  using assms
proof (induction es)
  case (Cons x es)
  show ?case
  proof (cases "ikey_less (fst x) (seek_key uk S)")
    case True
    with Cons show ?thesis by (auto simp: newest_def before_seek_key Let_def)
  next
    case False
    show ?thesis
    proof (cases "user_key (fst x) = uk")
      case True
      moreover have "sequence (fst x) \<le> S" using True False by (simp add: before_seek_key not_less)
      ultimately show ?thesis using False by (simp add: newest_def)
    next
      case ne: False
      with False have "uk < user_key (fst x)" by (auto simp: before_seek_key)
      then have "\<forall>y \<in> set es. user_key (fst y) \<noteq> uk"
        using Cons.prems by (auto simp: entry_less_def ikey_less_def)
      then have "newest es S uk = None" by (auto simp: newest_def find_None_iff)
      with False ne show ?thesis by (simp add: newest_def)
    qed
  qed
qed (simp add: newest_def)

lemma entry_fields:
  assumes "entry_ok e"
  obtains kl kp where "MemVarint32 (entry_bytes e) = Some (kl, kp)"
    "take (unat (kl - 8)) kp = user_key (fst e)"
    "DecodeFixed64 (drop (unat (kl - 8)) kp) = PackSequenceAndType (sequence (fst e)) (vtype (fst e))"
    "MemGetLengthPrefixedSlice (drop (unat kl) kp) = snd e"
    "unat kl = length (user_key (fst e)) + 8"
proof -
  define n where "n = length (user_key (fst e))"
  have n: "n + 8 < 2 ^ 32" using assms by (simp add: entry_ok_def n_def)
  define kl :: u32 where "kl = word_of_nat (n + 8)"
  have kl: "unat kl = n + 8" using unat_u32 [OF n] by (simp add: kl_def)
  have "kl - 8 = word_of_nat n" by (simp add: kl_def)
  then have kl8: "unat (kl - 8) = n" using unat_u32 [of n] n by simp
  let ?kp = "user_key (fst e) @ EncodeFixed64 (PackSequenceAndType (sequence (fst e)) (vtype (fst e))) @
      PutLengthPrefixedSlice [] (snd e)"
  have "entry_bytes e = EncodeVarint32 kl @ ?kp"
    by (simp add: entry_bytes_def put_simps AppendInternalKey_eq kl_def n_def)
  then have "MemVarint32 (entry_bytes e) = Some (kl, ?kp)" by simp
  then show thesis
    using that [of kl ?kp] assms by (simp add: kl kl8) (simp add: n_def entry_ok_def)
qed

lemma MemTable_Get_newest:
  assumes es: "list_all entry_ok es" "sorted_wrt entry_less es"
    and uk: "length uk + 8 < 2 ^ 32" "valid_seq S"
  shows "MemTable_Get Bytewise_Compare (LookupKey_new uk S) (map entry_bytes es) =
    map_option (\<lambda>e. case entry_value e of Some v \<Rightarrow> Inr v | None \<Rightarrow> Inl (Status_NotFound [] [])) (newest es S uk)"
proof -
  let ?mk = "LookupKey_memtable_key (LookupKey_new uk S)"
  have mk: "?mk = PutLengthPrefixedSlice [] (AppendInternalKey [] (seek_key uk S))"
    by (simp add: LookupKey_memtable_key_prefixed InternalKey_new_def kValueTypeForSeek_def)
  have "KeyComparator Bytewise_Compare (entry_bytes x) ?mk < 0 \<longleftrightarrow> ikey_less (fst x) (seek_key uk S)" if "entry_ok x" for x
    using that uk bytewise_ikc_less [of "fst x" "seek_key uk S"]
    by (simp add: mk KeyComparator_def entry_bytes_def entry_ok_def)
  then have "takeWhile (\<lambda>x. KeyComparator Bytewise_Compare x ?mk < 0) (map entry_bytes es) =
      map entry_bytes (takeWhile (\<lambda>x. ikey_less (fst x) (seek_key uk S)) es)"
    using es(1) by (intro takeWhile_map_cong) (simp add: list_all_iff)
  then have i: "SkipList_Seek (KeyComparator Bytewise_Compare) ?mk (map entry_bytes es) =
      length (takeWhile (\<lambda>x. ikey_less (fst x) (seek_key uk S)) es)" (is "_ = ?i")
    by (simp add: SkipList_Seek_def)
  show ?thesis
  proof (cases "?i < length es")
    case False
    then show ?thesis using newest_seek [OF es(2)] i by (simp add: MemTable_Get_def)
  next
    case True
    let ?e = "es ! ?i"
    have ok: "entry_ok ?e" using es(1) True by (simp add: list_all_length)
    obtain kl kp where "MemVarint32 (entry_bytes ?e) = Some (kl, kp)"
      "take (unat (kl - 8)) kp = user_key (fst ?e)"
      "DecodeFixed64 (drop (unat (kl - 8)) kp) = PackSequenceAndType (sequence (fst ?e)) (vtype (fst ?e))"
      "MemGetLengthPrefixedSlice (drop (unat kl) kp) = snd ?e"
      by (rule entry_fields [OF ok])
    moreover have "ValueType_of (ucast (PackSequenceAndType (sequence (fst ?e)) (vtype (fst ?e)) AND 255)) = Some (vtype (fst ?e))"
      using ok by (simp add: entry_ok_def PackSequenceAndType_fields)
    ultimately have "MemTable_Get Bytewise_Compare (LookupKey_new uk S) (map entry_bytes es) =
        (if user_key (fst ?e) = uk
         then Some (case vtype (fst ?e) of
                kTypeValue \<Rightarrow> Inr (snd ?e) | kTypeDeletion \<Rightarrow> Inl (Status_NotFound [] []))
         else None)"
      using True
      by (simp add: MemTable_Get_def Let_def i LookupKey_parts Bytewise_Compare_def Slice_compare_eq split: ValueType.split)
    then show ?thesis
      using True newest_seek [OF es(2), of S uk] by (simp add: Let_def entry_value_def split: ValueType.split)
  qed
qed

section \<open>Adding entries\<close>

definition visible :: "entry list \<Rightarrow> u64 \<Rightarrow> bytes \<rightharpoonup> bytes" where
  "visible es S uk = Option.bind (newest es S uk) entry_value"

text \<open>All sequence numbers of a list are below a bound.\<close>

definition seqs_below :: "nat \<Rightarrow> entry list \<Rightarrow> bool" where
  "seqs_below n es \<longleftrightarrow> (\<forall>e \<in> set es. unat (sequence (fst e)) < n)"

definition wf_entries :: "entry list \<Rightarrow> bool" where
  "wf_entries es \<longleftrightarrow> list_all entry_ok es \<and> sorted_wrt entry_less es"

fun apply_updates :: "u64 \<Rightarrow> update list \<Rightarrow> entry list \<Rightarrow> entry list" where
  "apply_updates sq [] es = es"
| "apply_updates sq (u # us) es = apply_updates (sq + 1) us (insert_entry (update_entry sq u) es)"

fun apply_update :: "(bytes \<rightharpoonup> bytes) \<Rightarrow> update \<Rightarrow> bytes \<rightharpoonup> bytes" where
  "apply_update m (UPut k v) = m(k \<mapsto> v)"
| "apply_update m (UDelete k) = m(k := None)"

lemma entry_less_trans: "entry_less a b \<Longrightarrow> entry_less b c \<Longrightarrow> entry_less a c"
  using ikey_less_trans by (simp add: entry_less_def)

lemma set_insert_entry [simp]: "set (insert_entry e es) = insert e (set es)"
proof -
  have "set es = set (takeWhile (\<lambda>x. entry_less x e) es) \<union> set (dropWhile (\<lambda>x. entry_less x e) es)"
    by (metis set_append takeWhile_dropWhile_id)
  then show ?thesis by (simp add: insert_entry_def)
qed

lemma sorted_wrt_middle:
  "sorted_wrt R xs \<Longrightarrow> sorted_wrt R ys \<Longrightarrow> \<forall>x \<in> set xs. \<forall>y \<in> set ys. R x y \<Longrightarrow>
   \<forall>x \<in> set xs. R x e \<Longrightarrow> \<forall>y \<in> set ys. R e y \<Longrightarrow> sorted_wrt R (xs @ e # ys)"
  by (simp add: sorted_wrt_append)

lemma sorted_insert_entry:
  assumes "sorted_wrt entry_less es" "fst e \<notin> fst ` set es"
  shows "sorted_wrt entry_less (insert_entry e es)"
proof -
  let ?t = "takeWhile (\<lambda>x. entry_less x e) es" and ?d = "dropWhile (\<lambda>x. entry_less x e) es"
  have t: "\<forall>x \<in> set ?t. entry_less x e" by (auto dest: set_takeWhileD)
  have td: "sorted_wrt entry_less (?t @ ?d)" using assms(1) by simp
  have d: "\<forall>y \<in> set ?d. entry_less e y"
  proof (cases ?d)
    case (Cons z zs)
    then have "\<not> entry_less z e" using hd_dropWhile [of "\<lambda>x. entry_less x e" es] by (metis list.discI list.sel(1))
    moreover have "z \<in> set es" using Cons by (metis list.set_intros(1) set_dropWhileD)
    then have "fst z \<noteq> fst e" using assms(2) by (metis imageI)
    ultimately have "entry_less e z" using ikey_less_total by (auto simp: entry_less_def)
    moreover have "\<forall>y \<in> set zs. entry_less z y" using td Cons by (simp add: sorted_wrt_append)
    ultimately show ?thesis using Cons entry_less_trans by auto
  next
    case Nil
    show ?thesis unfolding Nil by simp
  qed
  from td have parts: "sorted_wrt entry_less ?t" "sorted_wrt entry_less ?d" "\<forall>x \<in> set ?t. \<forall>y \<in> set ?d. entry_less x y"
    unfolding sorted_wrt_append by blast+
  show ?thesis
    unfolding insert_entry_def using parts t d by (intro sorted_wrt_middle)
qed

lemma newest_insert:
  assumes "seqs_below (unat (sequence (fst e))) es"
  shows "newest (insert_entry e es) S uk =
    (if user_key (fst e) = uk \<and> sequence (fst e) \<le> S then Some e else newest es S uk)"
proof -
  let ?P = "\<lambda>x. user_key (fst x) = uk \<and> sequence (fst x) \<le> S"
  let ?t = "takeWhile (\<lambda>x. entry_less x e) es" and ?d = "dropWhile (\<lambda>x. entry_less x e) es"
  have app: "find ?P (xs @ ys) = (case find ?P xs of None \<Rightarrow> find ?P ys | r \<Rightarrow> r)" for xs ys
    by (induction xs) auto
  have "newest es S uk = find ?P (?t @ ?d)" by (simp add: newest_def)
  moreover have "find ?P ?t = None" if "user_key (fst e) = uk"
  proof -
    have "user_key (fst x) \<noteq> uk" if "x \<in> set ?t" for x
    proof -
      from that have "x \<in> set es" "entry_less x e" by (auto dest: set_takeWhileD)
      then have "sequence (fst x) < sequence (fst e)" "ikey_less (fst x) (fst e)"
        using assms by (auto simp: seqs_below_def entry_less_def word_less_nat_alt)
      then show ?thesis using \<open>user_key (fst e) = uk\<close> by (auto simp: ikey_less_def)
    qed
    then show ?thesis unfolding find_None_iff by blast
  qed
  ultimately show ?thesis unfolding newest_def insert_entry_def app by (auto split: option.splits)
qed

lemma newest_le:
  assumes "seqs_below n es" "n \<le> Suc (unat s)" "n \<le> Suc (unat S)"
  shows "newest es S uk = newest es s uk"
  using assms unfolding newest_def
  by (intro find_cong) (fastforce simp: seqs_below_def word_le_nat_alt)+

lemma visible_insert:
  assumes "seqs_below (unat sq) es" "unat sq \<le> unat S"
  shows "visible (insert_entry (update_entry sq u) es) S = apply_update (visible es S) u"
  using assms newest_insert [of "update_entry sq u" es S]
  by (cases u) (auto simp: visible_def update_entry_def entry_value_def word_le_nat_alt fun_eq_iff)

lemma update_entry_sequence [simp]: "sequence (fst (update_entry sq u)) = sq"
  by (cases u) (simp_all add: update_entry_def)

fun update_fits :: "update \<Rightarrow> bool" where
  "update_fits (UPut k v) \<longleftrightarrow> length k + 8 < 2 ^ 32 \<and> length v < 2 ^ 32"
| "update_fits (UDelete k) \<longleftrightarrow> length k + 8 < 2 ^ 32"

lemma update_fits_valid: "update_fits u \<Longrightarrow> valid_update u"
  by (cases u) simp_all

lemma entry_ok_update: "update_fits u \<Longrightarrow> valid_seq sq \<Longrightarrow> entry_ok (update_entry sq u)"
  by (cases u) (simp_all add: update_entry_def entry_ok_def)

lemma wf_insert_entry:
  assumes "wf_entries es" "seqs_below (unat (sequence (fst e))) es" "entry_ok e"
  shows "wf_entries (insert_entry e es)"
proof -
  have "fst e \<notin> fst ` set es" using assms(2) by (auto simp: seqs_below_def)
  with assms sorted_insert_entry show ?thesis by (simp add: wf_entries_def list_all_iff)
qed

lemma apply_updates_ok:
  assumes "wf_entries es" "seqs_below (unat sq) es" "list_all update_fits us" "unat sq + length us \<le> 2 ^ 56"
  shows "wf_entries (apply_updates sq us es) \<and> seqs_below (unat sq + length us) (apply_updates sq us es) \<and>
    (\<forall>S. unat sq + length us \<le> Suc (unat S) \<longrightarrow> visible (apply_updates sq us es) S = foldl apply_update (visible es S) us)"
  using assms
proof (induction us arbitrary: sq es)
  case (Cons u us)
  have sq: "valid_seq sq" "unat (sq + 1) = Suc (unat sq)"
    using Cons.prems(4) by (simp_all add: valid_seq_iff unat_word_ariths)
  let ?es = "insert_entry (update_entry sq u) es"
  have "wf_entries ?es"
    using Cons.prems wf_insert_entry entry_ok_update sq(1) by simp
  moreover have "seqs_below (unat (sq + 1)) ?es"
    using Cons.prems(2) by (auto simp: sq(2) seqs_below_def less_Suc_eq)
  ultimately show ?case
    using Cons.IH [of ?es "sq + 1"] Cons.prems visible_insert [OF Cons.prems(2)] by (auto simp: sq(2))
qed simp

fun update_key :: "update \<Rightarrow> bytes" where
  "update_key (UPut k v) = k"
| "update_key (UDelete k) = k"

text \<open>After a batch, the keys with an entry are those of the batch and those that had one before.\<close>

lemma newest_apply_updates:
  assumes "wf_entries es" "seqs_below (unat sq) es" "list_all update_fits us" "unat sq + length us \<le> 2 ^ 56"
    and "unat sq + length us \<le> Suc (unat S)"
  shows "newest (apply_updates sq us es) S uk = None \<longleftrightarrow> uk \<notin> update_key ` set us \<and> newest es S uk = None"
  using assms
proof (induction us arbitrary: sq es)
  case (Cons u us)
  have sq: "valid_seq sq" "unat (sq + 1) = Suc (unat sq)"
    using Cons.prems(4) by (simp_all add: valid_seq_iff unat_word_ariths)
  let ?es = "insert_entry (update_entry sq u) es"
  have "wf_entries ?es" using Cons.prems wf_insert_entry entry_ok_update sq(1) by simp
  moreover have "seqs_below (unat (sq + 1)) ?es"
    using Cons.prems(2) by (auto simp: sq(2) seqs_below_def less_Suc_eq)
  moreover have "newest ?es S uk = None \<longleftrightarrow> uk \<noteq> update_key u \<and> newest es S uk = None"
    using newest_insert [of "update_entry sq u" es S uk] Cons.prems(2,5)
    by (cases u) (auto simp: update_entry_def word_le_nat_alt)
  ultimately show ?case
    using Cons.IH [of ?es "sq + 1"] Cons.prems by (auto simp: sq(2))
qed simp

lemma MemTable_Add_update:
  assumes "wf_entries es" "entry_ok (update_entry sq u)"
  shows "handle (MemTableInserter Bytewise_Compare) (sq, map entry_bytes es) u =
    (sq + 1, map entry_bytes (insert_entry (update_entry sq u) es))"
  using assms by (cases u) (simp_all add: MemTableInserter_def MemTable_Add_insert_entry update_entry_def wf_entries_def)

lemma handle_updates:
  assumes "wf_entries es" "seqs_below (unat sq) es" "list_all update_fits us" "unat sq + length us \<le> 2 ^ 56"
  shows "foldl (handle (MemTableInserter Bytewise_Compare)) (sq, map entry_bytes es) us =
    (sq + word_of_nat (length us), map entry_bytes (apply_updates sq us es))"
  using assms
proof (induction us arbitrary: sq es)
  case (Cons u us)
  have sq: "valid_seq sq" "unat (sq + 1) = Suc (unat sq)"
    using Cons.prems(4) by (simp_all add: valid_seq_iff unat_word_ariths)
  let ?es = "insert_entry (update_entry sq u) es"
  have ok: "entry_ok (update_entry sq u)" using Cons.prems(3) sq(1) entry_ok_update by simp
  have "wf_entries ?es" using Cons.prems wf_insert_entry ok by simp
  moreover have "seqs_below (unat (sq + 1)) ?es"
    using Cons.prems(2) by (auto simp: sq(2) seqs_below_def less_Suc_eq)
  ultimately show ?case
    using Cons.IH [of ?es "sq + 1"] Cons.prems MemTable_Add_update [OF Cons.prems(1) ok] by (simp add: sq(2))
qed simp

lemma InsertInto_apply_updates:
  assumes "wf_entries es" "seqs_below (unat sq) es" "list_all update_fits us" "unat sq + length us \<le> 2 ^ 56"
  shows "InsertInto Bytewise_Compare (batch_rep sq us) (map entry_bytes es) =
    (Status_OK, map entry_bytes (apply_updates sq us es))"
proof -
  have "list_all valid_update us" using assms(3) update_fits_valid by (auto simp: list_all_iff)
  then show ?thesis
    by (simp add: InsertInto_def WriteBatch_Iterate_batch_rep handle_updates [OF assms])
qed

lemma MemTable_Get_visible:
  assumes "wf_entries es" "length uk + 8 < 2 ^ 32" "valid_seq S"
  shows "MemTable_Get Bytewise_Compare (LookupKey_new uk S) (map entry_bytes es) = Some (Inr v) \<longleftrightarrow>
    visible es S uk = Some v"
  using MemTable_Get_newest [of es uk S] assms
  by (cases "newest es S uk") (auto simp: wf_entries_def visible_def split: option.splits)

section \<open>Properties\<close>

text \<open>
  C18: applying a batch to a memtable makes exactly the updates of the batch visible: the
  insertion succeeds, and a lookup at a sequence number at or after the last one of the
  batch finds the value that the map of the old contents, changed by the updates in order,
  gives the key. A key without a value is found as deleted when the batch or the old memtable
  has an entry of it, so that the lookup does not go on to an older table, and it is not
  found here exactly when neither has one.
\<close>

theorem memtable_get_after_batch:
  assumes "wf_entries es" "seqs_below (unat sq) es" "list_all update_fits us" "unat sq + length us \<le> 2 ^ 56"
    and "unat sq + length us \<le> Suc (unat S)" "valid_seq S" "length uk + 8 < 2 ^ 32"
  shows "case InsertInto Bytewise_Compare (batch_rep sq us) (map entry_bytes es) of (st, mem) \<Rightarrow>
    Status_ok st \<and>
    MemTable_Get Bytewise_Compare (LookupKey_new uk S) mem =
      (case foldl apply_update (visible es S) us uk of
         Some v \<Rightarrow> Some (Inr v)
       | None \<Rightarrow> if uk \<in> update_key ` set us \<or> newest es S uk \<noteq> None
                 then Some (Inl (Status_NotFound [] [])) else None)"
proof -
  note ok = apply_updates_ok [OF assms(1-4)]
  then have es': "list_all entry_ok (apply_updates sq us es)" "sorted_wrt entry_less (apply_updates sq us es)"
    by (simp_all add: wf_entries_def)
  have "foldl apply_update (visible es S) us = visible (apply_updates sq us es) S"
    using ok assms(5) by simp
  then show ?thesis
    using MemTable_Get_newest [OF es' assms(7,6)] newest_apply_updates [OF assms(1-5), of uk]
    by (cases "newest (apply_updates sq us es) S uk")
      (auto simp: InsertInto_apply_updates [OF assms(1-4)] visible_def Status_ok_def split: option.splits)
qed

theorem memtable_get_after_batch_witness:
  "case InsertInto Bytewise_Compare (batch_rep 1 [UPut [7] [1, 2], UDelete [8]]) [] of (st, mem) \<Rightarrow>
     Status_ok st \<and>
     MemTable_Get Bytewise_Compare (LookupKey_new [7] 2) mem = Some (Inr [1, 2]) \<and>
     MemTable_Get Bytewise_Compare (LookupKey_new [8] 2) mem = Some (Inl (Status_NotFound [] [])) \<and>
     MemTable_Get Bytewise_Compare (LookupKey_new [9] 2) mem = None"
proof -
  let ?us = "[UPut [7] [1, 2], UDelete [8]]"
  have wf: "wf_entries []" "seqs_below (unat (1 :: u64)) []" by (simp_all add: wf_entries_def seqs_below_def)
  have none: "newest [] 2 uk = None" "visible [] 2 uk = None" for uk
    by (simp_all add: newest_def visible_def)
  show ?thesis
    using memtable_get_after_batch [OF wf, of ?us 2 "[7]"] memtable_get_after_batch [OF wf, of ?us 2 "[8]"]
      memtable_get_after_batch [OF wf, of ?us 2 "[9]"]
    by (simp add: none valid_seq_iff split: prod.splits)
qed

end
