(* ===== verification/Version_Edit.thy ===== *)
theory Version_Edit
  imports DBFormat Status_Codes "HOL-Library.Product_Lexorder"
begin

text \<open>
  The records of the manifest: \<^verbatim>\<open>db/version_edit.h\<close> and \<^verbatim>\<open>db/version_edit.cc\<close>. Levels are
  natural numbers (the code's \<^verbatim>\<open>int\<close> levels run from 0 to \<open>kNumLevels - 1\<close>); the set of
  deleted files, a \<^verbatim>\<open>std::set\<close>, is the list of its elements in increasing order.
\<close>

section \<open>Data\<close>

definition kNumLevels :: nat where
  "kNumLevels = 7"

record FileMetaData =
  refs :: int
  allowed_seeks :: int
  number :: u64
  file_size :: u64
  smallest :: bytes
  largest :: bytes

record VersionEdit =
  comparator_name :: bytes
  log_number :: u64
  prev_log_number :: u64
  next_file_number :: u64
  last_sequence :: u64
  has_comparator :: bool
  has_log_number :: bool
  has_prev_log_number :: bool
  has_next_file_number :: bool
  has_last_sequence :: bool
  compact_pointers :: "(nat \<times> bytes) list"
  deleted_files :: "(nat \<times> u64) list"
  new_files :: "(nat \<times> FileMetaData) list"

datatype Tag = kComparator | kLogNumber | kNextFileNumber | kLastSequence | kCompactPointer
  | kDeletedFile | kNewFile | kPrevLogNumber

fun Tag_code :: "Tag \<Rightarrow> u32" where
  "Tag_code kComparator = 1"
| "Tag_code kLogNumber = 2"
| "Tag_code kNextFileNumber = 3"
| "Tag_code kLastSequence = 4"
| "Tag_code kCompactPointer = 5"
| "Tag_code kDeletedFile = 6"
| "Tag_code kNewFile = 7"
| "Tag_code kPrevLogNumber = 9"

section \<open>Building an edit\<close>

definition VersionEdit_Clear :: "VersionEdit \<Rightarrow> VersionEdit" where
  "VersionEdit_Clear e = e\<lparr>comparator_name := [], log_number := 0, prev_log_number := 0,
     last_sequence := 0, next_file_number := 0, has_comparator := False, has_log_number := False,
     has_prev_log_number := False, has_next_file_number := False, has_last_sequence := False,
     deleted_files := [], new_files := []\<rparr>"

definition VersionEdit_new :: VersionEdit where
  "VersionEdit_new = \<lparr>comparator_name = [], log_number = 0, prev_log_number = 0,
     next_file_number = 0, last_sequence = 0, has_comparator = False, has_log_number = False,
     has_prev_log_number = False, has_next_file_number = False, has_last_sequence = False,
     compact_pointers = [], deleted_files = [], new_files = []\<rparr>"

definition SetComparatorName :: "bytes \<Rightarrow> VersionEdit \<Rightarrow> VersionEdit" where
  "SetComparatorName name e = e\<lparr>has_comparator := True, comparator_name := name\<rparr>"

definition SetLogNumber :: "u64 \<Rightarrow> VersionEdit \<Rightarrow> VersionEdit" where
  "SetLogNumber num e = e\<lparr>has_log_number := True, log_number := num\<rparr>"

definition SetPrevLogNumber :: "u64 \<Rightarrow> VersionEdit \<Rightarrow> VersionEdit" where
  "SetPrevLogNumber num e = e\<lparr>has_prev_log_number := True, prev_log_number := num\<rparr>"

definition SetNextFile :: "u64 \<Rightarrow> VersionEdit \<Rightarrow> VersionEdit" where
  "SetNextFile num e = e\<lparr>has_next_file_number := True, next_file_number := num\<rparr>"

definition SetLastSequence :: "u64 \<Rightarrow> VersionEdit \<Rightarrow> VersionEdit" where
  "SetLastSequence sq e = e\<lparr>has_last_sequence := True, last_sequence := sq\<rparr>"

definition SetCompactPointer :: "nat \<Rightarrow> bytes \<Rightarrow> VersionEdit \<Rightarrow> VersionEdit" where
  "SetCompactPointer level key e = e\<lparr>compact_pointers := compact_pointers e @ [(level, key)]\<rparr>"

text \<open>The defaults of a \<^verbatim>\<open>FileMetaData\<close>: no references, \<open>1 << 30\<close> allowed seeks.\<close>

definition new_FileMetaData :: "u64 \<Rightarrow> u64 \<Rightarrow> bytes \<Rightarrow> bytes \<Rightarrow> FileMetaData" where
  "new_FileMetaData num fsize sm la = \<lparr>refs = 0, allowed_seeks = 2 ^ 30, number = num,
     file_size = fsize, smallest = sm, largest = la\<rparr>"

definition AddFile :: "nat \<Rightarrow> u64 \<Rightarrow> u64 \<Rightarrow> bytes \<Rightarrow> bytes \<Rightarrow> VersionEdit \<Rightarrow> VersionEdit" where
  "AddFile level file fsize sm la e =
     e\<lparr>new_files := new_files e @ [(level, new_FileMetaData file fsize sm la)]\<rparr>"

text \<open>\<^verbatim>\<open>std::set::insert\<close> on the ordered list of the elements.\<close>

definition set_insert :: "'a::linorder \<Rightarrow> 'a list \<Rightarrow> 'a list" where
  "set_insert x xs = (if x \<in> set xs then xs else insort x xs)"

definition DeleteFile :: "nat \<Rightarrow> u64 \<Rightarrow> VersionEdit \<Rightarrow> VersionEdit" where
  "DeleteFile level file e = e\<lparr>deleted_files := set_insert (level, file) (deleted_files e)\<rparr>"

section \<open>Encoding\<close>

fun Encode_compact_pointers :: "bytes \<Rightarrow> (nat \<times> bytes) list \<Rightarrow> bytes" where
  "Encode_compact_pointers dst [] = dst"
| "Encode_compact_pointers dst ((level, key) # cs) =
     Encode_compact_pointers
       (PutLengthPrefixedSlice (PutVarint32 (PutVarint32 dst (Tag_code kCompactPointer))
          (word_of_nat level)) key) cs"

fun Encode_deleted_files :: "bytes \<Rightarrow> (nat \<times> u64) list \<Rightarrow> bytes" where
  "Encode_deleted_files dst [] = dst"
| "Encode_deleted_files dst ((level, file) # ds) =
     Encode_deleted_files
       (PutVarint64 (PutVarint32 (PutVarint32 dst (Tag_code kDeletedFile))
          (word_of_nat level)) file) ds"

fun Encode_new_files :: "bytes \<Rightarrow> (nat \<times> FileMetaData) list \<Rightarrow> bytes" where
  "Encode_new_files dst [] = dst"
| "Encode_new_files dst ((level, f) # fs) =
     Encode_new_files
       (PutLengthPrefixedSlice (PutLengthPrefixedSlice
          (PutVarint64 (PutVarint64
             (PutVarint32 (PutVarint32 dst (Tag_code kNewFile)) (word_of_nat level))
             (number f)) (file_size f)) (smallest f)) (largest f)) fs"

definition VersionEdit_EncodeTo :: "VersionEdit \<Rightarrow> bytes \<Rightarrow> bytes" where
  "VersionEdit_EncodeTo e dst =
     (let dst = (if has_comparator e
                 then PutLengthPrefixedSlice (PutVarint32 dst (Tag_code kComparator)) (comparator_name e)
                 else dst);
          dst = (if has_log_number e
                 then PutVarint64 (PutVarint32 dst (Tag_code kLogNumber)) (log_number e) else dst);
          dst = (if has_prev_log_number e
                 then PutVarint64 (PutVarint32 dst (Tag_code kPrevLogNumber)) (prev_log_number e)
                 else dst);
          dst = (if has_next_file_number e
                 then PutVarint64 (PutVarint32 dst (Tag_code kNextFileNumber)) (next_file_number e)
                 else dst);
          dst = (if has_last_sequence e
                 then PutVarint64 (PutVarint32 dst (Tag_code kLastSequence)) (last_sequence e)
                 else dst);
          dst = Encode_compact_pointers dst (compact_pointers e);
          dst = Encode_deleted_files dst (deleted_files e)
      in Encode_new_files dst (new_files e))"

section \<open>Decoding\<close>

definition GetInternalKey :: "bytes \<Rightarrow> (bytes \<times> bytes) option" where
  "GetInternalKey input = GetLengthPrefixedSlice input"

definition GetLevel :: "bytes \<Rightarrow> (nat \<times> bytes) option" where
  "GetLevel input =
     (case GetVarint32 input of
        Some (v, input) \<Rightarrow> if unat v < kNumLevels then Some (unat v, input) else None
      | None \<Rightarrow> None)"

text \<open>
  One round of the loop, after the tag: \<open>Inl\<close> the error message, or the updated edit and
  the rest of the input.
\<close>

definition DecodeField :: "VersionEdit \<Rightarrow> u32 \<Rightarrow> bytes \<Rightarrow> bytes + VersionEdit \<times> bytes" where
  "DecodeField e tag input =
     (if tag = Tag_code kComparator then
        (case GetLengthPrefixedSlice input of
           Some (str, input) \<Rightarrow> Inr (e\<lparr>comparator_name := str, has_comparator := True\<rparr>, input)
         | None \<Rightarrow> Inl (cstr ''comparator name''))
      else if tag = Tag_code kLogNumber then
        (case GetVarint64 input of
           Some (n, input) \<Rightarrow> Inr (e\<lparr>log_number := n, has_log_number := True\<rparr>, input)
         | None \<Rightarrow> Inl (cstr ''log number''))
      else if tag = Tag_code kPrevLogNumber then
        (case GetVarint64 input of
           Some (n, input) \<Rightarrow> Inr (e\<lparr>prev_log_number := n, has_prev_log_number := True\<rparr>, input)
         | None \<Rightarrow> Inl (cstr ''previous log number''))
      else if tag = Tag_code kNextFileNumber then
        (case GetVarint64 input of
           Some (n, input) \<Rightarrow> Inr (e\<lparr>next_file_number := n, has_next_file_number := True\<rparr>, input)
         | None \<Rightarrow> Inl (cstr ''next file number''))
      else if tag = Tag_code kLastSequence then
        (case GetVarint64 input of
           Some (n, input) \<Rightarrow> Inr (e\<lparr>last_sequence := n, has_last_sequence := True\<rparr>, input)
         | None \<Rightarrow> Inl (cstr ''last sequence number''))
      else if tag = Tag_code kCompactPointer then
        (case GetLevel input of
           Some (level, input) \<Rightarrow>
             (case GetInternalKey input of
                Some (key, input) \<Rightarrow>
                  Inr (e\<lparr>compact_pointers := compact_pointers e @ [(level, key)]\<rparr>, input)
              | None \<Rightarrow> Inl (cstr ''compaction pointer''))
         | None \<Rightarrow> Inl (cstr ''compaction pointer''))
      else if tag = Tag_code kDeletedFile then
        (case GetLevel input of
           Some (level, input) \<Rightarrow>
             (case GetVarint64 input of
                Some (n, input) \<Rightarrow>
                  Inr (e\<lparr>deleted_files := set_insert (level, n) (deleted_files e)\<rparr>, input)
              | None \<Rightarrow> Inl (cstr ''deleted file''))
         | None \<Rightarrow> Inl (cstr ''deleted file''))
      else if tag = Tag_code kNewFile then
        (case GetLevel input of
           Some (level, input) \<Rightarrow>
             (case GetVarint64 input of
                Some (n, input) \<Rightarrow>
                  (case GetVarint64 input of
                     Some (fsize, input) \<Rightarrow>
                       (case GetInternalKey input of
                          Some (sm, input) \<Rightarrow>
                            (case GetInternalKey input of
                               Some (la, input) \<Rightarrow>
                                 Inr (e\<lparr>new_files := new_files e @
                                        [(level, new_FileMetaData n fsize sm la)]\<rparr>, input)
                             | None \<Rightarrow> Inl (cstr ''new-file entry''))
                        | None \<Rightarrow> Inl (cstr ''new-file entry''))
                   | None \<Rightarrow> Inl (cstr ''new-file entry''))
              | None \<Rightarrow> Inl (cstr ''new-file entry''))
         | None \<Rightarrow> Inl (cstr ''new-file entry''))
      else Inl (cstr ''unknown tag''))"


lemma GetLevel_shorter: "GetLevel p = Some (v, q) \<Longrightarrow> length q < length p"
  by (auto simp: GetLevel_def split: option.splits if_splits dest: GetVarint32_shorter)

lemma DecodeField_shorter:
  "DecodeField e tag p = Inr (e', q) \<Longrightarrow> length q < length p"
  by (auto simp: DecodeField_def GetInternalKey_def
      split: option.splits if_splits dest!: Get_shorter GetLevel_shorter)

function DecodeLoop :: "VersionEdit \<Rightarrow> bytes \<Rightarrow> bytes option \<times> VersionEdit \<times> bytes" where
  "DecodeLoop e input =
     (case GetVarint32 input of
        None \<Rightarrow> (None, e, input)
      | Some (tag, input) \<Rightarrow>
          (case DecodeField e tag input of
             Inl msg \<Rightarrow> (Some msg, e, input)
           | Inr (e, input) \<Rightarrow> DecodeLoop e input))"
  by pat_completeness auto
termination
  by (relation "measure (\<lambda>(e, input). length input)")
    (auto dest!: GetVarint32_shorter DecodeField_shorter)

declare DecodeLoop.simps [simp del]

definition VersionEdit_DecodeFrom :: "VersionEdit \<Rightarrow> bytes \<Rightarrow> Status \<times> VersionEdit" where
  "VersionEdit_DecodeFrom e src =
     (let (msg, e, input) = DecodeLoop (VersionEdit_Clear e) src;
          msg = (if msg = None \<and> input \<noteq> [] then Some (cstr ''invalid tag'') else msg)
      in (case msg of
            None \<Rightarrow> (Status_OK, e)
          | Some m \<Rightarrow> (Status_Corruption (cstr ''VersionEdit'') m, e)))"

section \<open>Lemmas\<close>

text \<open>What \<open>EncodeTo\<close> can represent: slices shorter than 4 GB, levels below \<open>kNumLevels\<close>, files
  as \<open>AddFile\<close> makes them, the deleted files in the order of the set, and default values
  where no value is set.\<close>

definition encodable :: "VersionEdit \<Rightarrow> bool" where
  "encodable e \<longleftrightarrow>
     length (comparator_name e) < 2 ^ 32 \<and>
     (\<not> has_comparator e \<longrightarrow> comparator_name e = []) \<and>
     (\<not> has_log_number e \<longrightarrow> log_number e = 0) \<and>
     (\<not> has_prev_log_number e \<longrightarrow> prev_log_number e = 0) \<and>
     (\<not> has_next_file_number e \<longrightarrow> next_file_number e = 0) \<and>
     (\<not> has_last_sequence e \<longrightarrow> last_sequence e = 0) \<and>
     list_all (\<lambda>(l, k). l < kNumLevels \<and> length k < 2 ^ 32) (compact_pointers e) \<and>
     sorted_wrt (<) (deleted_files e) \<and> list_all (\<lambda>(l, n). l < kNumLevels) (deleted_files e) \<and>
     list_all (\<lambda>(l, f). l < kNumLevels \<and> length (smallest f) < 2 ^ 32 \<and> length (largest f) < 2 ^ 32
        \<and> refs f = 0 \<and> allowed_seeks f = 2 ^ 30) (new_files e)"

lemma DecodeLoop_tag:
  "DecodeLoop e (EncodeVarint32 t @ p) =
     (case DecodeField e t p of Inl msg \<Rightarrow> (Some msg, e, p) | Inr (e, q) \<Rightarrow> DecodeLoop e q)"
  by (subst DecodeLoop.simps) (simp add: GetVarint32_EncodeVarint32)

lemma DecodeLoop_Nil: "DecodeLoop e [] = (None, e, [])"
  by (subst DecodeLoop.simps)
    (simp add: GetVarint32_def GetVarint32Ptr_def GetVarint32PtrFallback_def)

lemma GetLevel_Put: "l < kNumLevels \<Longrightarrow> GetLevel (EncodeVarint32 (word_of_nat l) @ p) = Some (l, p)"
  by (simp add: GetLevel_def GetVarint32_EncodeVarint32 kNumLevels_def unat_of_nat take_bit_nat_eq_self)

lemma set_insert_last: "sorted_wrt (<) (xs @ [x]) \<Longrightarrow> set_insert x xs = xs @ [x]"
  by (induction xs) (auto simp: set_insert_def sorted_wrt_append)

lemmas decode_simps = put_simps DecodeLoop_tag DecodeField_def GetLevel_Put GetInternalKey_def
  GetLengthPrefixedSlice_Encode GetVarint64_EncodeVarint64

lemma Encode_compact_pointers_append:
  "Encode_compact_pointers dst cs = dst @ Encode_compact_pointers [] cs"
proof (induction cs arbitrary: dst)
  case (Cons c cs)
  obtain l k where c: "c = (l, k)" by (cases c)
  show ?case
    by (simp add: c) (subst (1 2) Cons.IH, simp add: put_simps)
qed simp

lemma DecodeLoop_compact_pointers:
  "list_all (\<lambda>(l, k). l < kNumLevels \<and> length k < 2 ^ 32) cs \<Longrightarrow>
   DecodeLoop e (Encode_compact_pointers [] cs @ p) =
   DecodeLoop (e\<lparr>compact_pointers := compact_pointers e @ cs\<rparr>) p"
proof (induction cs arbitrary: e)
  case (Cons c cs)
  obtain l k where c: "c = (l, k)" by (cases c)
  from Cons show ?case
    by (simp add: c, subst Encode_compact_pointers_append) (simp add: decode_simps)
qed simp

lemma Encode_deleted_files_append:
  "Encode_deleted_files dst ds = dst @ Encode_deleted_files [] ds"
proof (induction ds arbitrary: dst)
  case (Cons d ds)
  obtain l n where d: "d = (l, n)" by (cases d)
  show ?case
    by (simp add: d) (subst (1 2) Cons.IH, simp add: put_simps)
qed simp

lemma DecodeLoop_deleted_files:
  "list_all (\<lambda>(l, n). l < kNumLevels) ds \<Longrightarrow> sorted_wrt (<) (deleted_files e @ ds) \<Longrightarrow>
   DecodeLoop e (Encode_deleted_files [] ds @ p) =
   DecodeLoop (e\<lparr>deleted_files := deleted_files e @ ds\<rparr>) p"
proof (induction ds arbitrary: e)
  case (Cons d ds)
  obtain l n where d: "d = (l, n)" by (cases d)
  have "sorted_wrt (<) (deleted_files e @ [(l, n)])"
    using Cons.prems(2) by (simp add: d sorted_wrt_append)
  with Cons show ?case
    by (simp add: d, subst Encode_deleted_files_append) (simp add: decode_simps set_insert_last)
qed simp

lemma Encode_new_files_append:
  "Encode_new_files dst fs = dst @ Encode_new_files [] fs"
proof (induction fs arbitrary: dst)
  case (Cons f fs)
  obtain l m where f: "f = (l, m)" by (cases f)
  show ?case
    by (simp add: f) (subst (1 2) Cons.IH, simp add: put_simps)
qed simp

lemma DecodeLoop_new_files:
  "list_all (\<lambda>(l, f). l < kNumLevels \<and> length (smallest f) < 2 ^ 32 \<and> length (largest f) < 2 ^ 32
      \<and> refs f = 0 \<and> allowed_seeks f = 2 ^ 30) fs \<Longrightarrow>
   DecodeLoop e (Encode_new_files [] fs @ p) =
   DecodeLoop (e\<lparr>new_files := new_files e @ fs\<rparr>) p"
proof (induction fs arbitrary: e)
  case (Cons f fs)
  obtain l m where f: "f = (l, m)" by (cases f)
  have "new_FileMetaData (number m) (file_size m) (smallest m) (largest m) = m"
    using Cons.prems by (simp add: f new_FileMetaData_def)
  with Cons show ?case
    by (simp add: f, subst Encode_new_files_append) (simp add: decode_simps)
qed simp

text \<open>An optional field is one segment of the encoding; decoding it sets the field if present.\<close>

definition segment :: "bool \<Rightarrow> bytes \<Rightarrow> bytes" where
  "segment b s = (if b then s else [])"

lemma VersionEdit_EncodeTo_segments:
  "VersionEdit_EncodeTo e [] =
     segment (has_comparator e)
       (EncodeVarint32 1 @ EncodeVarint32 (word_of_nat (length (comparator_name e))) @ comparator_name e) @
     segment (has_log_number e) (EncodeVarint32 2 @ EncodeVarint64 (log_number e)) @
     segment (has_prev_log_number e) (EncodeVarint32 9 @ EncodeVarint64 (prev_log_number e)) @
     segment (has_next_file_number e) (EncodeVarint32 3 @ EncodeVarint64 (next_file_number e)) @
     segment (has_last_sequence e) (EncodeVarint32 4 @ EncodeVarint64 (last_sequence e)) @
     Encode_compact_pointers [] (compact_pointers e) @
     Encode_deleted_files [] (deleted_files e) @ Encode_new_files [] (new_files e)"
  unfolding VersionEdit_EncodeTo_def Let_def segment_def
  by (subst Encode_new_files_append, subst Encode_deleted_files_append,
      subst Encode_compact_pointers_append) (simp add: put_simps)

lemma DecodeLoop_segments:
  "length c < 2 ^ 32 \<Longrightarrow>
   DecodeLoop e (segment b (EncodeVarint32 1 @ EncodeVarint32 (word_of_nat (length c)) @ c) @ p) =
     DecodeLoop (e\<lparr>comparator_name := if b then c else comparator_name e, has_comparator := b \<or> has_comparator e\<rparr>) p"
  "DecodeLoop e (segment b (EncodeVarint32 2 @ EncodeVarint64 n) @ p) =
     DecodeLoop (e\<lparr>log_number := if b then n else log_number e, has_log_number := b \<or> has_log_number e\<rparr>) p"
  "DecodeLoop e (segment b (EncodeVarint32 9 @ EncodeVarint64 n) @ p) =
     DecodeLoop (e\<lparr>prev_log_number := if b then n else prev_log_number e, has_prev_log_number := b \<or> has_prev_log_number e\<rparr>) p"
  "DecodeLoop e (segment b (EncodeVarint32 3 @ EncodeVarint64 n) @ p) =
     DecodeLoop (e\<lparr>next_file_number := if b then n else next_file_number e, has_next_file_number := b \<or> has_next_file_number e\<rparr>) p"
  "DecodeLoop e (segment b (EncodeVarint32 4 @ EncodeVarint64 n) @ p) =
     DecodeLoop (e\<lparr>last_sequence := if b then n else last_sequence e, has_last_sequence := b \<or> has_last_sequence e\<rparr>) p"
  by (cases e; simp add: segment_def decode_simps)+

lemma VersionEdit_DecodeFrom_EncodeTo:
  assumes "encodable e"
  shows "VersionEdit_DecodeFrom e0 (VersionEdit_EncodeTo e []) =
    (Status_OK, e\<lparr>compact_pointers := compact_pointers e0 @ compact_pointers e\<rparr>)"
proof -
  have lists: "list_all (\<lambda>(l, k). l < kNumLevels \<and> length k < 2 ^ 32) (compact_pointers e)"
    "list_all (\<lambda>(l, n). l < kNumLevels) (deleted_files e)" "sorted_wrt (<) (deleted_files e)"
    "list_all (\<lambda>(l, f). l < kNumLevels \<and> length (smallest f) < 2 ^ 32 \<and> length (largest f) < 2 ^ 32
      \<and> refs f = 0 \<and> allowed_seeks f = 2 ^ 30) (new_files e)"
    "length (comparator_name e) < 2 ^ 32"
    using assms by (simp_all add: encodable_def)
  let ?cs = "compact_pointers e0 @ compact_pointers e"
  let ?e1 = "e\<lparr>compact_pointers := ?cs, deleted_files := [], new_files := []\<rparr>"
  have "DecodeLoop (VersionEdit_Clear e0) (VersionEdit_EncodeTo e [] @ []) =
      DecodeLoop ?e1 (Encode_deleted_files [] (deleted_files e) @ Encode_new_files [] (new_files e) @ [])"
    unfolding VersionEdit_EncodeTo_segments append_assoc
      DecodeLoop_segments(1) [OF lists(5)] DecodeLoop_segments(2-5)
      DecodeLoop_compact_pointers [OF lists(1)]
    by (rule arg_cong [where f = "\<lambda>x. DecodeLoop x _"], rule VersionEdit.equality)
      (use assms in \<open>simp_all add: encodable_def VersionEdit_Clear_def\<close>)
  also have "\<dots> = DecodeLoop (?e1\<lparr>deleted_files := deleted_files e\<rparr>) (Encode_new_files [] (new_files e) @ [])"
    using lists by (simp add: DecodeLoop_deleted_files del: append_Nil2)
  also have "\<dots> = (None, e\<lparr>compact_pointers := ?cs\<rparr>, [])"
    using lists by (subst DecodeLoop_new_files) (simp_all add: DecodeLoop_Nil)
  finally show ?thesis by (simp add: VersionEdit_DecodeFrom_def Let_def)
qed

text \<open>Every edit that the setters build, within the bounds of the format, can be encoded.\<close>

lemma sorted_set_insert: "sorted_wrt (<) xs \<Longrightarrow> sorted_wrt (<) (set_insert x xs)" for xs :: "'a::linorder list"
  by (auto simp: set_insert_def strict_sorted_iff sorted_insort distinct_insort)

lemma set_set_insert: "set (set_insert x xs) = insert x (set xs)"
  by (auto simp: set_insert_def set_insort_key)

lemma encodable_new: "encodable VersionEdit_new"
  by (simp add: encodable_def VersionEdit_new_def)

lemma encodable_setters:
  assumes "encodable e"
  shows "length name < 2 ^ 32 \<Longrightarrow> encodable (SetComparatorName name e)"
    and "encodable (SetLogNumber n e)" and "encodable (SetPrevLogNumber n e)"
    and "encodable (SetNextFile n e)" and "encodable (SetLastSequence n e)"
    and "level < kNumLevels \<Longrightarrow> length key < 2 ^ 32 \<Longrightarrow> encodable (SetCompactPointer level key e)"
    and "level < kNumLevels \<Longrightarrow> encodable (DeleteFile level n e)"
    and "level < kNumLevels \<Longrightarrow> length sm < 2 ^ 32 \<Longrightarrow> length la < 2 ^ 32 \<Longrightarrow>
      encodable (AddFile level n fsize sm la e)"
  using assms
  by (simp_all add: encodable_def SetComparatorName_def SetLogNumber_def SetPrevLogNumber_def SetNextFile_def
      SetLastSequence_def SetCompactPointer_def DeleteFile_def AddFile_def new_FileMetaData_def
      sorted_set_insert list_all_iff set_set_insert)

section \<open>Properties\<close>

text \<open>
  C31: decoding what \<^verbatim>\<open>EncodeTo\<close> wrote into a fresh edit gives the edit back, and decoding it
  into an edit that was in use before gives the same edit except that the compaction
  pointers of the old one stay in front: \<^verbatim>\<open>Clear\<close> does not clear them.
\<close>

theorem VersionEdit_round_trip:
  assumes "encodable e"
  shows "VersionEdit_DecodeFrom VersionEdit_new (VersionEdit_EncodeTo e []) = (Status_OK, e) \<and>
    VersionEdit_DecodeFrom e0 (VersionEdit_EncodeTo e []) =
      (Status_OK, e\<lparr>compact_pointers := compact_pointers e0 @ compact_pointers e\<rparr>)"
  using VersionEdit_DecodeFrom_EncodeTo [OF assms]
  by (simp add: VersionEdit_new_def VersionEdit_Clear_def)

theorem VersionEdit_round_trip_witness:
  "VersionEdit_DecodeFrom VersionEdit_new
     (VersionEdit_EncodeTo (DeleteFile 2 9 (AddFile 1 5 100 [1] [2] (SetLogNumber 3 VersionEdit_new))) []) =
   (Status_OK, DeleteFile 2 9 (AddFile 1 5 100 [1] [2] (SetLogNumber 3 VersionEdit_new)))"
  by (rule conjunct1 [OF VersionEdit_round_trip])
    (simp add: encodable_setters encodable_new kNumLevels_def)

end
