(* ===== verification/Versions.thy ===== *)
theory Versions
  imports Complex_Main Mem_Table Version_Edit
begin

text \<open>
  Versions, the sets of table files of the database: the part of \<^verbatim>\<open>db/version_set.cc\<close> that searches
  them. A version is the list of its seven levels. Tables are read through \<open>tget\<close>, which stands for
  \<^verbatim>\<open>TableCache::Get\<close>: the status and the entry handed to the callback, if any. The counts
  that trigger compactions by seeks (\<^verbatim>\<open>allowed_seeks\<close>) are kept in the \<open>FileMetaData\<close> of the version.
\<close>

section \<open>Files\<close>

type_synonym files = "FileMetaData list"

definition kL0_CompactionTrigger :: nat where
  "kL0_CompactionTrigger = 4"

definition kL0_SlowdownWritesTrigger :: nat where
  "kL0_SlowdownWritesTrigger = 8"

definition kL0_StopWritesTrigger :: nat where
  "kL0_StopWritesTrigger = 12"

definition kMaxMemCompactLevel :: nat where
  "kMaxMemCompactLevel = 2"

definition kTargetFileSize :: int where
  "kTargetFileSize = 2 * 1048576"

definition kMaxGrandParentOverlapBytes :: int where
  "kMaxGrandParentOverlapBytes = 10 * kTargetFileSize"

text \<open>The sum of 64-bit sizes, read as a signed number.\<close>

definition TotalFileSize :: "files \<Rightarrow> int" where
  "TotalFileSize fs = sint (sum_list (map file_size fs))"

text \<open>The binary search; \<^verbatim>\<open>left\<close> and \<^verbatim>\<open>right\<close> are far below the bound of their 32-bit type.\<close>

function FindFile_loop :: "(bytes \<Rightarrow> bytes \<Rightarrow> int) \<Rightarrow> files \<Rightarrow> bytes \<Rightarrow> nat \<Rightarrow> nat \<Rightarrow> nat" where
  "FindFile_loop ucmp fs key left right =
     (if left < right then
        let mid = (left + right) div 2; f = fs ! mid in
        if InternalKeyComparator_Compare ucmp (largest f) key < 0
        then FindFile_loop ucmp fs key (mid + 1) right
        else FindFile_loop ucmp fs key left mid
      else right)"
  by pat_completeness auto
termination
  by (relation "measure (\<lambda>(ucmp, fs, key, left, right). right - left)") auto

declare FindFile_loop.simps [simp del]

definition FindFile :: "(bytes \<Rightarrow> bytes \<Rightarrow> int) \<Rightarrow> files \<Rightarrow> bytes \<Rightarrow> nat" where
  "FindFile ucmp fs key = FindFile_loop ucmp fs key 0 (length fs)"

definition AfterFile :: "(bytes \<Rightarrow> bytes \<Rightarrow> int) \<Rightarrow> bytes option \<Rightarrow> FileMetaData \<Rightarrow> bool" where
  "AfterFile ucmp ukey f =
     (case ukey of None \<Rightarrow> False | Some k \<Rightarrow> ucmp k (ExtractUserKey (largest f)) > 0)"

definition BeforeFile :: "(bytes \<Rightarrow> bytes \<Rightarrow> int) \<Rightarrow> bytes option \<Rightarrow> FileMetaData \<Rightarrow> bool" where
  "BeforeFile ucmp ukey f =
     (case ukey of None \<Rightarrow> False | Some k \<Rightarrow> ucmp k (ExtractUserKey (smallest f)) < 0)"

definition SomeFileOverlapsRange ::
    "(bytes \<Rightarrow> bytes \<Rightarrow> int) \<Rightarrow> bool \<Rightarrow> files \<Rightarrow> bytes option \<Rightarrow> bytes option \<Rightarrow> bool" where
  "SomeFileOverlapsRange ucmp disjoint_sorted_files fs smallest_user_key largest_user_key =
     (if \<not> disjoint_sorted_files then
        list_ex (\<lambda>f. \<not> (AfterFile ucmp smallest_user_key f \<or> BeforeFile ucmp largest_user_key f)) fs
      else
        let index = (case smallest_user_key of
                       None \<Rightarrow> 0
                     | Some k \<Rightarrow> FindFile ucmp fs (InternalKey_new k kMaxSequenceNumber kValueTypeForSeek))
        in if index \<ge> length fs then False
           else \<not> BeforeFile ucmp largest_user_key (fs ! index))"

section \<open>Versions\<close>

record Version =
  vfiles :: "files list"
  file_to_compact :: "(nat \<times> u64) option"
  compaction_score :: rat
  compaction_level :: int

abbreviation level_files :: "Version \<Rightarrow> nat \<Rightarrow> files" where
  "level_files v level \<equiv> vfiles v ! level"

definition Version_new :: Version where
  "Version_new = \<lparr>vfiles = replicate kNumLevels [], file_to_compact = None,
     compaction_score = -1, compaction_level = -1\<rparr>"

text \<open>
  Sizes and scores are \<^verbatim>\<open>double\<close> in the code; here they are exact. A score is at least 1 in the code
  exactly when it is here, since the limits and 1 are represented exactly.
\<close>

fun MaxBytesForLevel :: "nat \<Rightarrow> rat" where
  "MaxBytesForLevel level = (if level > 1 then MaxBytesForLevel (level - 1) * 10 else 10 * 1048576)"

declare MaxBytesForLevel.simps [simp del]

definition level_score :: "Version \<Rightarrow> nat \<Rightarrow> rat" where
  "level_score v level =
     (if level = 0 then of_nat (length (level_files v level)) / of_nat kL0_CompactionTrigger
      else of_nat (unat (sum_list (map file_size (level_files v level)))) / MaxBytesForLevel level)"

fun Finalize_loop :: "Version \<Rightarrow> nat list \<Rightarrow> int \<times> rat \<Rightarrow> int \<times> rat" where
  "Finalize_loop v [] best = best"
| "Finalize_loop v (level # levels) (best_level, best_score) =
     (let score = level_score v level in
      Finalize_loop v levels (if score > best_score then (int level, score) else (best_level, best_score)))"

definition Finalize :: "Version \<Rightarrow> Version" where
  "Finalize v = (case Finalize_loop v [0..<kNumLevels - 1] (-1, -1) of
     (best_level, best_score) \<Rightarrow> v\<lparr>compaction_level := best_level, compaction_score := best_score\<rparr>)"

definition NumLevelFiles :: "Version \<Rightarrow> nat \<Rightarrow> nat" where
  "NumLevelFiles v level = length (level_files v level)"

datatype SaverState = kNotFound | kFound | kDeleted | kCorrupt

text \<open>The callback: the state and the value of the saver after one call.\<close>

definition SaveValue :: "(bytes \<Rightarrow> bytes \<Rightarrow> int) \<Rightarrow> bytes \<Rightarrow> bytes \<Rightarrow> bytes \<Rightarrow> SaverState \<times> bytes" where
  "SaveValue ucmp ukey ikey v =
     (case ParseInternalKey ikey of
        None \<Rightarrow> (kCorrupt, [])
      | Some parsed_key \<Rightarrow>
          if ucmp (user_key parsed_key) ukey = 0
          then (if vtype parsed_key = kTypeValue then (kFound, v) else (kDeleted, []))
          else (kNotFound, []))"

type_synonym table_get = "u64 \<Rightarrow> u64 \<Rightarrow> bytes \<Rightarrow> Status \<times> (bytes \<times> bytes) option"

text \<open>The files to search in one level, newest first for level 0.\<close>

definition Get_candidates :: "(bytes \<Rightarrow> bytes \<Rightarrow> int) \<Rightarrow> bytes \<Rightarrow> bytes \<Rightarrow> nat \<Rightarrow> files \<Rightarrow> files" where
  "Get_candidates ucmp ikey ukey level fs =
     (if level = 0 then
        rev (sort_key number
          (filter (\<lambda>f. ucmp ukey (ExtractUserKey (smallest f)) \<ge> 0 \<and>
                       ucmp ukey (ExtractUserKey (largest f)) \<le> 0) fs))
      else
        let index = FindFile ucmp fs ikey in
        if index \<ge> length fs then []
        else if ucmp ukey (ExtractUserKey (smallest (fs ! index))) < 0 then []
        else [fs ! index])"

text \<open>
  \<^verbatim>\<open>GetStats\<close>: the first file read when more than one was. \<open>last_file_read\<close> is carried along.
\<close>

record GetStats =
  seek_file :: "(nat \<times> u64) option"
  last_file_read :: "(nat \<times> u64) option"

fun Get_files ::
    "table_get \<Rightarrow> (bytes \<Rightarrow> bytes \<Rightarrow> int) \<Rightarrow> bytes \<Rightarrow> bytes \<Rightarrow> nat \<Rightarrow> files \<Rightarrow> GetStats \<Rightarrow>
     (Status \<times> bytes) option \<times> GetStats" where
  "Get_files tget ucmp ikey ukey level [] st = (None, st)"
| "Get_files tget ucmp ikey ukey level (f # fs) st =
     (let st = (if last_file_read st \<noteq> None \<and> seek_file st = None
                then st\<lparr>seek_file := last_file_read st\<rparr> else st);
          st = st\<lparr>last_file_read := Some (level, number f)\<rparr>;
          (s, found) = tget (number f) (file_size f) ikey
      in if \<not> Status_ok s then (Some (s, []), st)
         else (case (case found of None \<Rightarrow> (kNotFound, []) | Some (k, v) \<Rightarrow> SaveValue ucmp ukey k v) of
                 (kNotFound, _) \<Rightarrow> Get_files tget ucmp ikey ukey level fs st
               | (kFound, v) \<Rightarrow> (Some (s, v), st)
               | (kDeleted, _) \<Rightarrow> (Some (Status_NotFound [] [], []), st)
               | (kCorrupt, _) \<Rightarrow> (Some (Status_Corruption (cstr ''corrupted key for '') ukey, []), st)))"

fun Get_levels ::
    "table_get \<Rightarrow> (bytes \<Rightarrow> bytes \<Rightarrow> int) \<Rightarrow> bytes \<Rightarrow> bytes \<Rightarrow> nat \<Rightarrow> files list \<Rightarrow> GetStats \<Rightarrow>
     (Status \<times> bytes) \<times> GetStats" where
  "Get_levels tget ucmp ikey ukey level [] st = ((Status_NotFound [] [], []), st)"
| "Get_levels tget ucmp ikey ukey level (fs # levels) st =
     (case Get_files tget ucmp ikey ukey level (Get_candidates ucmp ikey ukey level fs) st of
        (Some r, st) \<Rightarrow> (r, st)
      | (None, st) \<Rightarrow> Get_levels tget ucmp ikey ukey (level + 1) levels st)"

definition Version_Get ::
    "table_get \<Rightarrow> (bytes \<Rightarrow> bytes \<Rightarrow> int) \<Rightarrow> Version \<Rightarrow> LookupKey \<Rightarrow> (Status \<times> bytes) \<times> GetStats" where
  "Version_Get tget ucmp v k =
     Get_levels tget ucmp (LookupKey_internal_key k) (LookupKey_user_key k) 0 (vfiles v)
       \<lparr>seek_file = None, last_file_read = None\<rparr>"

text \<open>\<open>UpdateStats\<close> changes the count of one file, in place.\<close>

definition UpdateStats :: "Version \<Rightarrow> GetStats \<Rightarrow> bool \<times> Version" where
  "UpdateStats v st =
     (case seek_file st of
        None \<Rightarrow> (False, v)
      | Some (level, n) \<Rightarrow>
          let v = v\<lparr>vfiles := (vfiles v)[level := map (\<lambda>f. if number f = n then f\<lparr>allowed_seeks := allowed_seeks f - 1\<rparr> else f)
                                              (level_files v level)]\<rparr>
          in if list_ex (\<lambda>f. number f = n \<and> allowed_seeks f \<le> 0) (level_files v level) \<and> file_to_compact v = None
             then (True, v\<lparr>file_to_compact := Some (level, n)\<rparr>)
             else (False, v))"

text \<open>
  \<open>ForEachOverlapping\<close> calls \<open>func\<close> on the files that can hold the key, newest data first, until
  it returns false.
\<close>

fun ForEach_calls :: "('s \<Rightarrow> nat \<Rightarrow> FileMetaData \<Rightarrow> 's \<times> bool) \<Rightarrow> 's \<Rightarrow> (nat \<times> FileMetaData) list \<Rightarrow> 's" where
  "ForEach_calls func arg [] = arg"
| "ForEach_calls func arg ((level, f) # calls) =
     (case func arg level f of (arg, go) \<Rightarrow> if go then ForEach_calls func arg calls else arg)"

definition ForEachOverlapping ::
    "(bytes \<Rightarrow> bytes \<Rightarrow> int) \<Rightarrow> Version \<Rightarrow> bytes \<Rightarrow> bytes \<Rightarrow> 's \<Rightarrow> ('s \<Rightarrow> nat \<Rightarrow> FileMetaData \<Rightarrow> 's \<times> bool) \<Rightarrow> 's" where
  "ForEachOverlapping ucmp v ukey internal_key arg func =
     ForEach_calls func arg
       (concat (map (\<lambda>level. map (Pair level) (Get_candidates ucmp internal_key ukey level (level_files v level)))
         [0..<kNumLevels]))"

definition Match :: "GetStats \<times> nat \<Rightarrow> nat \<Rightarrow> FileMetaData \<Rightarrow> (GetStats \<times> nat) \<times> bool" where
  "Match state level f =
     (case state of (stats, matches) \<Rightarrow>
        let matches = matches + 1;
            stats = (if matches = 1 then stats\<lparr>seek_file := Some (level, number f)\<rparr> else stats)
        in ((stats, matches), matches < 2))"

definition RecordReadSample :: "(bytes \<Rightarrow> bytes \<Rightarrow> int) \<Rightarrow> Version \<Rightarrow> bytes \<Rightarrow> bool \<times> Version" where
  "RecordReadSample ucmp v internal_key =
     (case ParseInternalKey internal_key of
        None \<Rightarrow> (False, v)
      | Some ikey \<Rightarrow>
          let (stats, matches) = ForEachOverlapping ucmp v (user_key ikey) internal_key
                (\<lparr>seek_file = None, last_file_read = None\<rparr>, 0) Match
          in if matches \<ge> 2 then UpdateStats v stats else (False, v))"

section \<open>Overlaps\<close>

definition OverlapInLevel :: "(bytes \<Rightarrow> bytes \<Rightarrow> int) \<Rightarrow> Version \<Rightarrow> nat \<Rightarrow> bytes option \<Rightarrow> bytes option \<Rightarrow> bool" where
  "OverlapInLevel ucmp v level smallest_user_key largest_user_key =
     SomeFileOverlapsRange ucmp (level > 0) (level_files v level) smallest_user_key largest_user_key"

text \<open>
  The loop of \<open>GetOverlappingInputs\<close>, over the bytewise comparator: it starts over with a
  wider range when a file of level 0 reaches out of the range.
\<close>

function Overlapping_loop ::
    "nat \<Rightarrow> files \<Rightarrow> bytes option \<Rightarrow> bytes option \<Rightarrow> nat \<Rightarrow> files \<Rightarrow> files" where
  "Overlapping_loop level fs user_begin user_end i inputs =
     (if i < length fs then
        let f = fs ! i;
            file_start = ExtractUserKey (smallest f);
            file_limit = ExtractUserKey (largest f)
        in if (case user_begin of None \<Rightarrow> False | Some b \<Rightarrow> Bytewise_Compare file_limit b < 0)
           then Overlapping_loop level fs user_begin user_end (i + 1) inputs
           else if (case user_end of None \<Rightarrow> False | Some e \<Rightarrow> Bytewise_Compare file_start e > 0)
           then Overlapping_loop level fs user_begin user_end (i + 1) inputs
           else if level = 0 \<and> (case user_begin of None \<Rightarrow> False | Some b \<Rightarrow> Bytewise_Compare file_start b < 0)
           then Overlapping_loop level fs (Some file_start) user_end 0 []
           else if level = 0 \<and> (case user_end of None \<Rightarrow> False | Some e \<Rightarrow> Bytewise_Compare file_limit e > 0)
           then Overlapping_loop level fs user_begin (Some file_limit) 0 []
           else Overlapping_loop level fs user_begin user_end (i + 1) (inputs @ [f])
      else inputs)"
  by pat_completeness auto

text \<open>How many ends of files are still out of the range.\<close>

definition out_of_range :: "files \<Rightarrow> bytes option \<Rightarrow> bytes option \<Rightarrow> nat" where
  "out_of_range fs b e =
     length (filter (\<lambda>f. case b of None \<Rightarrow> False | Some b \<Rightarrow> ExtractUserKey (smallest f) < b) fs) +
     length (filter (\<lambda>f. case e of None \<Rightarrow> False | Some e \<Rightarrow> e < ExtractUserKey (largest f)) fs)"

lemma length_filter_subset:
  assumes "\<And>x. Q x \<Longrightarrow> P x" "x \<in> set xs" "P x" "\<not> Q x"
  shows "length (filter Q xs) < length (filter P xs)"
proof -
  have "filter Q xs = filter Q (filter P xs)" using assms(1) by (auto intro: filter_cong)
  moreover have "x \<in> set (filter P xs)" using assms(2,3) by simp
  ultimately show ?thesis using assms(4) by (metis length_filter_less)
qed

termination Overlapping_loop
proof (relation "measures [\<lambda>(level, fs, b, e, i, inputs). out_of_range fs b e,
    \<lambda>(level, fs, b, e, i, inputs). length fs - i]", goal_cases)
  case (4 level fs b e i inputs f file_start file_limit)
  then obtain b0 where b0: "b = Some b0" "ExtractUserKey (smallest f) < b0" "f \<in> set fs"
    by (auto simp: Bytewise_Compare_def Slice_compare_order split: option.splits)
  then have "length (filter (\<lambda>g. ExtractUserKey (smallest g) < ExtractUserKey (smallest f)) fs) <
      length (filter (\<lambda>g. ExtractUserKey (smallest g) < b0) fs)"
    by (intro length_filter_subset [of _ _ f]) auto
  then show ?case using 4 b0 by (simp add: out_of_range_def)
next
  case (5 level fs b e i inputs f file_start file_limit)
  then obtain e0 where e0: "e = Some e0" "e0 < ExtractUserKey (largest f)" "f \<in> set fs"
    by (auto simp: Bytewise_Compare_def Slice_compare_order split: option.splits)
  then have "length (filter (\<lambda>g. ExtractUserKey (largest f) < ExtractUserKey (largest g)) fs) <
      length (filter (\<lambda>g. e0 < ExtractUserKey (largest g)) fs)"
    by (intro length_filter_subset [of _ _ f]) auto
  then show ?case using 5 e0 by (simp add: out_of_range_def)
qed auto

declare Overlapping_loop.simps [simp del]

definition GetOverlappingInputs :: "Version \<Rightarrow> nat \<Rightarrow> bytes option \<Rightarrow> bytes option \<Rightarrow> files" where
  "GetOverlappingInputs v level begins ends =
     Overlapping_loop level (level_files v level) (map_option ExtractUserKey begins) (map_option ExtractUserKey ends) 0 []"

function PickLevel_loop :: "Version \<Rightarrow> bytes \<Rightarrow> bytes \<Rightarrow> nat \<Rightarrow> nat" where
  "PickLevel_loop v smallest_user_key largest_user_key level =
     (if level < kMaxMemCompactLevel then
        if OverlapInLevel Bytewise_Compare v (level + 1) (Some smallest_user_key) (Some largest_user_key) then level
        else if level + 2 < kNumLevels \<and>
          TotalFileSize (GetOverlappingInputs v (level + 2)
            (Some (InternalKey_new smallest_user_key kMaxSequenceNumber kValueTypeForSeek))
            (Some (InternalKey_new largest_user_key 0 kTypeDeletion))) > kMaxGrandParentOverlapBytes
        then level
        else PickLevel_loop v smallest_user_key largest_user_key (level + 1)
      else level)"
  by pat_completeness auto
termination
  by (relation "measure (\<lambda>(v, s, l, level). kMaxMemCompactLevel - level)") auto

declare PickLevel_loop.simps [simp del]

definition PickLevelForMemTableOutput :: "Version \<Rightarrow> bytes \<Rightarrow> bytes \<Rightarrow> nat" where
  "PickLevelForMemTableOutput v smallest_user_key largest_user_key =
     (if \<not> OverlapInLevel Bytewise_Compare v 0 (Some smallest_user_key) (Some largest_user_key)
      then PickLevel_loop v smallest_user_key largest_user_key 0
      else 0)"

section \<open>Binary search\<close>

lemma FindFile_loop_eq:
  assumes down: "\<And>i j. i \<le> j \<Longrightarrow> j < length fs \<Longrightarrow> InternalKeyComparator_Compare ucmp (largest (fs ! j)) key < 0 \<Longrightarrow>
      InternalKeyComparator_Compare ucmp (largest (fs ! i)) key < 0"
  shows "left \<le> right \<Longrightarrow> right \<le> length fs \<Longrightarrow>
    (\<forall>i < left. InternalKeyComparator_Compare ucmp (largest (fs ! i)) key < 0) \<Longrightarrow>
    (\<forall>i. right \<le> i \<and> i < length fs \<longrightarrow> \<not> InternalKeyComparator_Compare ucmp (largest (fs ! i)) key < 0) \<Longrightarrow>
    FindFile_loop ucmp fs key left right =
      length (takeWhile (\<lambda>f. InternalKeyComparator_Compare ucmp (largest f) key < 0) fs)"
proof (induction "right - left" arbitrary: left right rule: less_induct)
  case less
  let ?P = "\<lambda>f. InternalKeyComparator_Compare ucmp (largest f) key < 0"
  show ?case
  proof (cases "left < right")
    case False
    then have eq: "left = right" using less by simp
    have "takeWhile ?P fs = take right fs"
    proof (rule takeWhile_eq_take_P_nth)
      show "?P (fs ! i)" if "i < right" for i using less(4) eq that by simp
      show "right < length fs \<Longrightarrow> \<not> ?P (fs ! right)" using less(5) by simp
    qed
    then show ?thesis using eq less(3) by (simp add: FindFile_loop.simps)
  next
    case True
    define mid where "mid = (left + right) div 2"
    have mid: "left \<le> mid" "mid < right" using True by (auto simp: mid_def)
    show ?thesis
    proof (cases "?P (fs ! mid)")
      case True
      have "FindFile_loop ucmp fs key left right = FindFile_loop ucmp fs key (mid + 1) right"
        using \<open>left < right\<close> True by (subst FindFile_loop.simps) (simp add: Let_def mid_def)
      also have "\<dots> = length (takeWhile ?P fs)"
      proof (rule less(1))
        show "\<forall>i < mid + 1. ?P (fs ! i)"
        proof (intro allI impI)
          fix i assume "i < mid + 1"
          then show "?P (fs ! i)" using mid less(3) True by (intro down [of i mid]) auto
        qed
      qed (use mid less(3,5) in auto)
      finally show ?thesis .
    next
      case False
      have "FindFile_loop ucmp fs key left right = FindFile_loop ucmp fs key left mid"
        using \<open>left < right\<close> False by (subst FindFile_loop.simps) (simp add: Let_def mid_def)
      also have "\<dots> = length (takeWhile ?P fs)"
      proof (rule less(1))
        show "\<forall>i. mid \<le> i \<and> i < length fs \<longrightarrow> \<not> ?P (fs ! i)" using down [of mid] False by blast
      qed (use mid less(3,4) in auto)
      finally show ?thesis .
    qed
  qed
qed

lemma FindFile_eq:
  assumes "\<And>i j. i \<le> j \<Longrightarrow> j < length fs \<Longrightarrow> InternalKeyComparator_Compare ucmp (largest (fs ! j)) key < 0 \<Longrightarrow>
      InternalKeyComparator_Compare ucmp (largest (fs ! i)) key < 0"
  shows "FindFile ucmp fs key = length (takeWhile (\<lambda>f. InternalKeyComparator_Compare ucmp (largest f) key < 0) fs)"
  unfolding FindFile_def by (rule FindFile_loop_eq [OF assms]) auto

section \<open>Runs\<close>

text \<open>
  The contents of the database is a list of runs, each a sorted list of entries: the
  memtables, the tables of level 0 from the newest to the oldest, and the other levels.
  For every user key a run has newer entries than the runs after it.
\<close>

definition newer_run :: "entry list \<Rightarrow> entry list \<Rightarrow> bool" where
  "newer_run r r' \<longleftrightarrow> (\<forall>e \<in> set r. \<forall>e' \<in> set r'. user_key (fst e) = user_key (fst e') \<longrightarrow> sequence (fst e') < sequence (fst e))"

definition runs_ok :: "entry list list \<Rightarrow> bool" where
  "runs_ok rs \<longleftrightarrow> list_all wf_entries rs \<and> sorted_wrt newer_run rs"

text \<open>A search that stops at the first run with an entry for the key.\<close>

fun newest_run :: "entry list list \<Rightarrow> u64 \<Rightarrow> bytes \<Rightarrow> entry option" where
  "newest_run [] S uk = None"
| "newest_run (r # rs) S uk = (case newest r S uk of None \<Rightarrow> newest_run rs S uk | Some e \<Rightarrow> Some e)"

text \<open>All entries in one sorted list, what the merging iterator goes through.\<close>

definition merge_runs :: "entry list list \<Rightarrow> entry list" where
  "merge_runs rs = foldr insert_entry (concat rs) []"

lemma newest_run_append:
  "newest_run (rs @ rs') S uk = (case newest_run rs S uk of None \<Rightarrow> newest_run rs' S uk | Some e \<Rightarrow> Some e)"
  by (induction rs) (auto split: option.splits)

lemma newest_Some_iff:
  assumes "sorted_wrt entry_less es"
  shows "newest es S uk = Some e \<longleftrightarrow> e \<in> set es \<and> user_key (fst e) = uk \<and> sequence (fst e) \<le> S \<and>
    (\<forall>x \<in> set es. user_key (fst x) = uk \<and> sequence (fst x) \<le> S \<longrightarrow> \<not> entry_less x e)"
  using assms
proof (induction es)
  case (Cons y es)
  let ?P = "\<lambda>x. user_key (fst x) = uk \<and> sequence (fst x) \<le> S"
  have tail: "newest (y # es) S uk = (if ?P y then Some y else newest es S uk)" by (simp add: newest_def)
  have lt: "\<forall>x \<in> set es. entry_less y x" using Cons.prems by simp
  have irr: "\<not> entry_less x x" for x by (simp add: entry_less_def ikey_less_irrefl)
  have asym: "entry_less y x \<Longrightarrow> \<not> entry_less x y" for x using entry_less_trans irr by blast
  show ?case
  proof (cases "?P y")
    case True
    have "y = e \<longleftrightarrow> e \<in> set (y # es) \<and> (\<forall>x \<in> set (y # es). ?P x \<longrightarrow> \<not> entry_less x e)" if "?P e"
      using True that lt irr asym by (metis list.set_intros(1) set_ConsD)
    with True show ?thesis unfolding tail by (metis (mono_tags, lifting) option.inject)
  next
    case False
    then show ?thesis using Cons by (auto simp: tail)
  qed
qed (simp add: newest_def)

lemma newest_None_iff: "newest es S uk = None \<longleftrightarrow> (\<forall>x \<in> set es. \<not> (user_key (fst x) = uk \<and> sequence (fst x) \<le> S))"
  by (auto simp: newest_def find_None_iff)

lemma set_foldr_insert: "set (foldr insert_entry es acc) = set es \<union> set acc"
  by (induction es) auto

lemma set_merge_runs: "set (merge_runs rs) = (\<Union>r \<in> set rs. set r)"
  by (simp add: merge_runs_def set_foldr_insert)

lemma sorted_foldr_insert:
  "distinct (map fst (es @ acc)) \<Longrightarrow> sorted_wrt entry_less acc \<Longrightarrow> sorted_wrt entry_less (foldr insert_entry es acc)"
proof (induction es)
  case (Cons e es)
  have "fst e \<notin> fst ` set (foldr insert_entry es acc)" using Cons.prems(1) by (auto simp: set_foldr_insert image_Un)
  with Cons show ?case by (simp add: sorted_insert_entry)
qed simp

lemma runs_ok_Cons: "runs_ok (r # rs) \<longleftrightarrow> wf_entries r \<and> (\<forall>r' \<in> set rs. newer_run r r') \<and> runs_ok rs"
  by (auto simp: runs_ok_def)

lemma sorted_entries_distinct: "sorted_wrt entry_less es \<Longrightarrow> distinct (map fst es)"
  by (induction es) (auto simp: entry_less_def ikey_less_irrefl)

lemma runs_distinct: "runs_ok rs \<Longrightarrow> distinct (map fst (concat rs))"
proof (induction rs)
  case (Cons r rs)
  then have "distinct (map fst r)" "distinct (map fst (concat rs))"
    by (auto simp: runs_ok_Cons wf_entries_def sorted_entries_distinct)
  moreover have "fst e \<noteq> fst e'" if e: "e \<in> set r" "e' \<in> set (concat rs)" for e e'
  proof
    assume eq: "fst e = fst e'"
    obtain r' where "r' \<in> set rs" "e' \<in> set r'" using e(2) by auto
    then have "newer_run r r'" using Cons.prems by (simp add: runs_ok_Cons)
    then show False using e(1) \<open>e' \<in> set r'\<close> eq unfolding newer_run_def by (metis less_irrefl)
  qed
  then have "fst ` set r \<inter> fst ` set (concat rs) = {}" unfolding disjoint_iff image_iff by metis
  ultimately show ?case by (simp add: image_UN)
qed simp

lemma wf_merge_runs: "runs_ok rs \<Longrightarrow> wf_entries (merge_runs rs)"
  using runs_distinct sorted_foldr_insert [of "concat rs" "[]"]
  by (auto simp: wf_entries_def set_merge_runs list_all_iff runs_ok_def merge_runs_def set_foldr_insert)

lemma newest_run_Some:
  "runs_ok rs \<Longrightarrow> newest_run rs S uk = Some e \<Longrightarrow>
   e \<in> set (concat rs) \<and> user_key (fst e) = uk \<and> sequence (fst e) \<le> S \<and>
   (\<forall>x \<in> set (concat rs). user_key (fst x) = uk \<and> sequence (fst x) \<le> S \<longrightarrow> \<not> entry_less x e)"
proof (induction rs)
  case (Cons r rs)
  have r: "sorted_wrt entry_less r" using Cons.prems(1) by (simp add: runs_ok_Cons wf_entries_def)
  show ?case
  proof (cases "newest r S uk")
    case None
    then have "newest_run rs S uk = Some e" "runs_ok rs" using Cons.prems by (simp_all add: runs_ok_Cons)
    then show ?thesis using Cons.IH None unfolding newest_None_iff by (auto simp del: split_paired_All)
  next
    case (Some e')
    then have "newest r S uk = Some e" using Cons.prems(2) by simp
    note e = this [unfolded newest_Some_iff [OF r]]
    moreover have "\<not> entry_less x e" if "x \<in> set (concat rs)" "user_key (fst x) = uk" for x
    proof -
      have "sequence (fst x) < sequence (fst e)"
        using that e Cons.prems(1) unfolding runs_ok_Cons newer_run_def by (metis UN_E set_concat)
      then show ?thesis using that e by (auto simp: entry_less_def ikey_less_def)
    qed
    ultimately show ?thesis by auto
  qed
qed simp

lemma newest_run_None: "newest_run rs S uk = None \<longleftrightarrow> (\<forall>x \<in> set (concat rs). \<not> (user_key (fst x) = uk \<and> sequence (fst x) \<le> S))"
proof (induction rs)
  case (Cons r rs)
  then show ?case
  proof (cases "newest r S uk")
    case None
    then have "\<forall>x \<in> set r. \<not> (user_key (fst x) = uk \<and> sequence (fst x) \<le> S)" unfolding newest_None_iff .
    with None show ?thesis using Cons by (simp add: ball_Un)
  next
    case (Some e)
    then have "\<not> (\<forall>x \<in> set r. \<not> (user_key (fst x) = uk \<and> sequence (fst x) \<le> S))"
      by (metis newest_None_iff option.discI)
    then show ?thesis using Some by (simp add: ball_Un)
  qed
qed simp

lemma newest_merge_runs:
  assumes "runs_ok rs" shows "newest (merge_runs rs) S uk = newest_run rs S uk"
proof (cases "newest_run rs S uk")
  case None
  then have "newest (merge_runs rs) S uk = None" unfolding newest_None_iff newest_run_None by (simp add: set_merge_runs)
  with None show ?thesis by simp
next
  case (Some e)
  have "sorted_wrt entry_less (merge_runs rs)" using wf_merge_runs [OF assms] by (simp add: wf_entries_def)
  then show ?thesis
    using newest_run_Some [OF assms Some] Some by (simp add: newest_Some_iff set_merge_runs)
qed

section \<open>Searching a version\<close>

text \<open>\<open>T\<close> gives the entries of every table by its number.\<close>

abbreviation ikey :: "entry \<Rightarrow> bytes" where
  "ikey e \<equiv> AppendInternalKey [] (fst e)"

definition file_ok :: "(u64 \<Rightarrow> entry list) \<Rightarrow> FileMetaData \<Rightarrow> bool" where
  "file_ok T f \<longleftrightarrow> T (number f) \<noteq> [] \<and> wf_entries (T (number f)) \<and>
     smallest f = ikey (hd (T (number f))) \<and> largest f = ikey (last (T (number f)))"

definition run_of :: "(u64 \<Rightarrow> entry list) \<Rightarrow> files \<Rightarrow> entry list" where
  "run_of T fs = concat (map (\<lambda>f. T (number f)) fs)"

definition level0_runs :: "(u64 \<Rightarrow> entry list) \<Rightarrow> files \<Rightarrow> entry list list" where
  "level0_runs T fs = map (\<lambda>f. T (number f)) (rev (sort_key number fs))"

definition version_runs :: "(u64 \<Rightarrow> entry list) \<Rightarrow> Version \<Rightarrow> entry list list" where
  "version_runs T v = level0_runs T (hd (vfiles v)) @ map (run_of T) (tl (vfiles v))"

definition version_ok :: "(u64 \<Rightarrow> entry list) \<Rightarrow> Version \<Rightarrow> bool" where
  "version_ok T v \<longleftrightarrow> length (vfiles v) = kNumLevels \<and> list_all (list_all (file_ok T)) (vfiles v) \<and>
     runs_ok (version_runs T v)"

text \<open>
  What \<^verbatim>\<open>TableCache::Get\<close> promises: it succeeds and hands the first entry at or after the key to
  the callback, or nothing when the table has no entry for the user key (there may be no such
  entry in the block it looks into, and a filter may say so).
\<close>

definition table_seek :: "entry list \<Rightarrow> u64 \<Rightarrow> bytes \<Rightarrow> entry option" where
  "table_seek es S uk = find (\<lambda>e. \<not> ikey_less (fst e) (seek_key uk S)) es"

definition tget_file_ok :: "(u64 \<Rightarrow> entry list) \<Rightarrow> table_get \<Rightarrow> FileMetaData \<Rightarrow> bool" where
  "tget_file_ok T tget f \<longleftrightarrow> (\<forall>uk S. valid_seq S \<longrightarrow>
     tget (number f) (file_size f) (AppendInternalKey [] (seek_key uk S)) =
       (Status_OK, map_option (\<lambda>e. (ikey e, snd e)) (table_seek (T (number f)) S uk)) \<or>
     tget (number f) (file_size f) (AppendInternalKey [] (seek_key uk S)) = (Status_OK, None) \<and>
     newest (T (number f)) S uk = None)"

definition tget_ok :: "(u64 \<Rightarrow> entry list) \<Rightarrow> table_get \<Rightarrow> Version \<Rightarrow> bool" where
  "tget_ok T tget v \<longleftrightarrow> list_all (list_all (tget_file_ok T tget)) (vfiles v)"

definition get_outcome :: "entry \<Rightarrow> Status \<times> bytes" where
  "get_outcome e = (case entry_value e of Some v \<Rightarrow> (Status_OK, v) | None \<Rightarrow> (Status_NotFound [] [], []))"

lemma newest_table_seek:
  assumes "sorted_wrt entry_less es"
  shows "newest es S uk = (case table_seek es S uk of
     Some e \<Rightarrow> if user_key (fst e) = uk then Some e else None | None \<Rightarrow> None)"
  using assms
proof (induction es)
  case (Cons x es)
  show ?case
  proof (cases "ikey_less (fst x) (seek_key uk S)")
    case True
    then have "\<not> (user_key (fst x) = uk \<and> sequence (fst x) \<le> S)" by (auto simp: before_seek_key)
    with True Cons show ?thesis by (auto simp: newest_def table_seek_def)
  next
    case False
    show ?thesis
    proof (cases "user_key (fst x) = uk")
      case True
      then show ?thesis using False by (simp add: newest_def table_seek_def before_seek_key not_less)
    next
      case ne: False
      with False have "uk < user_key (fst x)" by (auto simp: before_seek_key)
      then have "newest (x # es) S uk = None"
        using Cons.prems by (fastforce simp: newest_None_iff entry_less_def ikey_less_def)
      with False ne show ?thesis by (simp add: table_seek_def)
    qed
  qed
qed (simp add: newest_def table_seek_def)

lemma table_seek_mem: "table_seek es S uk = Some e \<Longrightarrow> e \<in> set es"
  by (auto simp: table_seek_def find_Some_iff)

lemma SaveValue_entry:
  assumes "entry_ok e"
  shows "SaveValue Bytewise_Compare uk (ikey e) (snd e) =
    (if user_key (fst e) = uk
     then (case entry_value e of Some v \<Rightarrow> (kFound, v) | None \<Rightarrow> (kDeleted, [])) else (kNotFound, []))"
  using assms
  by (auto simp: SaveValue_def entry_ok_def ParseInternalKey_AppendInternalKey entry_value_def Bytewise_Compare_def
      Slice_compare_eq split: ValueType.splits)

lemma Get_files_eq:
  assumes "list_all (tget_file_ok T tget) fs" "list_all (file_ok T) fs" "valid_seq S"
  shows "fst (Get_files tget Bytewise_Compare (AppendInternalKey [] (seek_key uk S)) uk level fs st) =
    map_option get_outcome (newest_run (map (\<lambda>f. T (number f)) fs) S uk)"
  using assms(1,2)
proof (induction fs arbitrary: st)
  case (Cons f fs)
  let ?es = "T (number f)"
  have wf: "wf_entries ?es" using Cons.prems by (simp add: file_ok_def)
  then have new: "newest ?es S uk = (case table_seek ?es S uk of
     Some e \<Rightarrow> if user_key (fst e) = uk then Some e else None | None \<Rightarrow> None)"
    by (simp add: newest_table_seek wf_entries_def)
  have "tget_file_ok T tget f" using Cons.prems(1) by simp
  from this [unfolded tget_file_ok_def, rule_format, OF assms(3), of uk] consider
    (seek) "tget (number f) (file_size f) (AppendInternalKey [] (seek_key uk S)) =
       (Status_OK, map_option (\<lambda>e. (ikey e, snd e)) (table_seek ?es S uk))"
    | (none) "tget (number f) (file_size f) (AppendInternalKey [] (seek_key uk S)) = (Status_OK, None)" "newest ?es S uk = None"
    by (elim disjE conjE) (rule that, assumption)+
  then show ?case
  proof cases
    case none
    then show ?thesis using Cons by (simp add: Let_def Status_ok_def)
  next
    case seek
    show ?thesis
    proof (cases "table_seek ?es S uk")
      case None
      then show ?thesis using seek Cons new by (simp add: Let_def Status_ok_def)
    next
      case (Some e)
      then have "entry_ok e" using table_seek_mem wf by (auto simp: wf_entries_def list_all_iff)
      then show ?thesis
        using seek Cons new Some
        by (cases "user_key (fst e) = uk"; cases "entry_value e")
          (simp_all add: Let_def Status_ok_def SaveValue_entry get_outcome_def)
    qed
  qed
qed simp

lemma newest_out_of_file:
  assumes "file_ok T f" "uk < ExtractUserKey (smallest f) \<or> ExtractUserKey (largest f) < uk"
  shows "newest (T (number f)) S uk = None"
proof -
  let ?es = "T (number f)"
  have wf: "sorted_wrt entry_less ?es" and ne: "?es \<noteq> []" and keys: "smallest f = ikey (hd ?es)" "largest f = ikey (last ?es)"
    using assms(1) by (simp_all add: file_ok_def wf_entries_def)
  have "user_key (fst (hd ?es)) \<le> user_key (fst x) \<and> user_key (fst x) \<le> user_key (fst (last ?es))" if x: "x \<in> set ?es" for x
  proof -
    from x obtain i where i: "i < length ?es" "x = ?es ! i" unfolding in_set_conv_nth by blast
    have le: "user_key (fst (?es ! a)) \<le> user_key (fst (?es ! b))" if "a \<le> b" "b < length ?es" for a b
    proof (cases "a = b")
      case False
      then have "entry_less (?es ! a) (?es ! b)" using that by (intro sorted_wrt_nth_less [OF wf]) auto
      then show ?thesis by (auto simp: entry_less_def ikey_less_def)
    qed simp
    show ?thesis
      using le [of 0 i] le [of i "length ?es - 1"] i ne by (simp add: hd_conv_nth last_conv_nth)
  qed
  then show ?thesis using assms(2) unfolding newest_None_iff keys AppendInternalKey_eq
    by (metis Extract_append_tag(1) append_Nil leD)
qed

lemma newest_run_filter:
  assumes "\<And>f. f \<in> set fs \<Longrightarrow> \<not> P f \<Longrightarrow> newest (T (number f)) S uk = None"
  shows "newest_run (map (\<lambda>f. T (number f)) (filter P fs)) S uk = newest_run (map (\<lambda>f. T (number f)) fs) S uk"
  using assms
proof (induction fs)
  case (Cons f fs)
  then have "newest_run (map (\<lambda>f. T (number f)) (filter P fs)) S uk = newest_run (map (\<lambda>f. T (number f)) fs) S uk"
    by simp
  then show ?case using Cons.prems [of f] by (cases "newest (T (number f)) S uk") auto
qed simp

lemma newest_concat: "newest (concat rs) S uk = newest_run rs S uk"
proof (induction rs)
  case (Cons r rs)
  have "newest (r @ es) S uk = (case newest r S uk of None \<Rightarrow> newest es S uk | Some e \<Rightarrow> Some e)" for es
    by (induction r) (auto simp: newest_def)
  then show ?case using Cons by (cases "newest r S uk") simp_all
qed (simp add: newest_def)

text \<open>In a level above 0 the files are in the order of their keys.\<close>

lemma run_of_split:
  "j < length fs \<Longrightarrow> run_of T fs = run_of T (take j fs) @ T (number (fs ! j)) @ run_of T (drop (Suc j) fs)"
  by (subst id_take_nth_drop [of j fs]) (simp_all add: run_of_def)

lemma set_run_of: "set (run_of T fs) = (\<Union>f \<in> set fs. set (T (number f)))"
  by (simp add: run_of_def)

lemma run_of_less:
  assumes "wf_entries (run_of T fs)" "i < j" "j < length fs"
    "a \<in> set (T (number (fs ! i)))" "b \<in> set (T (number (fs ! j)))"
  shows "entry_less a b"
proof -
  have "fs ! i \<in> set (take j fs)" using assms(2,3) by (metis in_set_conv_nth length_take min.absorb4 nth_take)
  then have "a \<in> set (run_of T (take j fs))" using assms(4) unfolding set_run_of by blast
  then show ?thesis
    using assms(1,5) unfolding run_of_split [OF assms(3)] wf_entries_def sorted_wrt_append by simp
qed

lemma last_greatest: "sorted_wrt entry_less es \<Longrightarrow> x \<in> set es \<Longrightarrow> x = last es \<or> entry_less x (last es)"
  by (induction es) auto

lemma file_ok_last:
  assumes "file_ok T f"
  shows "last (T (number f)) \<in> set (T (number f))" "entry_ok (last (T (number f)))" "hd (T (number f)) \<in> set (T (number f))"
    "entry_ok (hd (T (number f)))"
  using assms by (auto simp: file_ok_def wf_entries_def list_all_iff)

lemma FindFile_level:
  assumes wf: "wf_entries (run_of T fs)" and fs: "list_all (file_ok T) fs" and S: "valid_seq S"
  shows "FindFile Bytewise_Compare fs (AppendInternalKey [] (seek_key uk S)) =
    length (takeWhile (\<lambda>f. ikey_less (fst (last (T (number f)))) (seek_key uk S)) fs)"
proof -
  let ?k = "AppendInternalKey [] (seek_key uk S)"
  have cmp: "bytewise_ikc (largest f) ?k < 0 \<longleftrightarrow> ikey_less (fst (last (T (number f)))) (seek_key uk S)" if "f \<in> set fs" for f
  proof -
    have ok: "file_ok T f" using fs that by (simp add: list_all_iff)
    then have "entry_ok (last (T (number f)))" by (auto simp: file_ok_def wf_entries_def list_all_iff)
    then show ?thesis using ok S by (simp add: file_ok_def entry_ok_def bytewise_ikc_less)
  qed
  have "FindFile Bytewise_Compare fs ?k = length (takeWhile (\<lambda>f. bytewise_ikc (largest f) ?k < 0) fs)"
  proof (rule FindFile_eq)
    fix i j assume ij: "i \<le> j" "j < length fs" and less: "bytewise_ikc (largest (fs ! j)) ?k < 0"
    show "bytewise_ikc (largest (fs ! i)) ?k < 0"
    proof (cases "i = j")
      case False
      have "last (T (number (fs ! i))) \<in> set (T (number (fs ! i)))" "last (T (number (fs ! j))) \<in> set (T (number (fs ! j)))"
        using fs ij by (auto simp: list_all_length file_ok_def)
      then have "entry_less (last (T (number (fs ! i)))) (last (T (number (fs ! j))))"
        using run_of_less [OF wf, of i j] ij False by simp
      then show ?thesis using less cmp ij ikey_less_trans by (auto simp: entry_less_def)
    qed (use less in simp)
  qed
  also have "takeWhile (\<lambda>f. bytewise_ikc (largest f) ?k < 0) fs =
      takeWhile (\<lambda>f. ikey_less (fst (last (T (number f)))) (seek_key uk S)) fs"
    using cmp by (intro takeWhile_cong) auto
  finally show ?thesis .
qed

lemma level_newest:
  assumes wf: "wf_entries (run_of T fs)" and fs: "list_all (file_ok T) fs" and S: "valid_seq S"
  shows "newest (run_of T fs) S uk =
    (let i = FindFile Bytewise_Compare fs (AppendInternalKey [] (seek_key uk S))
     in if i < length fs then newest (T (number (fs ! i))) S uk else None)"
proof -
  define i where "i = length (takeWhile (\<lambda>f. ikey_less (fst (last (T (number f)))) (seek_key uk S)) fs)"
  have none: "newest (T (number f)) S uk = None" if "f \<in> set (take i fs)" for f
  proof -
    have "f \<in> set (takeWhile (\<lambda>f. ikey_less (fst (last (T (number f)))) (seek_key uk S)) fs)"
      using that unfolding i_def by (simp add: takeWhile_eq_take [symmetric])
    then have last: "ikey_less (fst (last (T (number f)))) (seek_key uk S)" and f: "file_ok T f"
      using fs by (auto dest: set_takeWhileD simp: list_all_iff)
    have "ikey_less (fst x) (seek_key uk S)" if "x \<in> set (T (number f))" for x
      using last_greatest [of "T (number f)" x] that last f ikey_less_trans
      by (auto simp: file_ok_def wf_entries_def entry_less_def)
    then show ?thesis unfolding newest_None_iff by (fastforce simp: before_seek_key)
  qed
  have "newest (run_of T (take i fs)) S uk = None" using none unfolding newest_None_iff set_run_of by blast
  then have cut: "newest (run_of T fs) S uk = newest (run_of T (drop i fs)) S uk"
    using newest_concat [of "[run_of T (take i fs), run_of T (drop i fs)]" S uk]
    by (cases "newest (run_of T (drop i fs)) S uk") (simp_all add: run_of_def flip: concat_append map_append)
  have eq: "FindFile Bytewise_Compare fs (AppendInternalKey [] (seek_key uk S)) = i"
    using FindFile_level [OF assms] by (simp add: i_def)
  show ?thesis
  proof (cases "i < length fs")
    case False
    then show ?thesis unfolding eq cut by (simp add: run_of_def newest_def)
  next
    case True
    let ?es = "T (number (fs ! i))" and ?rest = "run_of T (drop (Suc i) fs)"
    have drop: "run_of T (drop i fs) = ?es @ ?rest" using True by (simp add: run_of_def flip: Cons_nth_drop_Suc)
    have "newest ?rest S uk = None" if nn: "newest ?es S uk = None"
    proof -
      have f: "file_ok T (fs ! i)" using fs True by (simp add: list_all_length)
      have "\<not> ikey_less (fst (last ?es)) (seek_key uk S)"
        using nth_length_takeWhile [of "\<lambda>f. ikey_less (fst (last (T (number f)))) (seek_key uk S)" fs] True
        unfolding i_def by simp
      moreover have "\<not> (user_key (fst (last ?es)) = uk \<and> sequence (fst (last ?es)) \<le> S)"
        using nn file_ok_last(1) [OF f] unfolding newest_None_iff by blast
      ultimately have big: "uk < user_key (fst (last ?es))" by (auto simp: before_seek_key not_less)
      have "user_key (fst x) \<noteq> uk" if x: "x \<in> set ?rest" for x
      proof -
        from x obtain g where "g \<in> set (drop (Suc i) fs)" "x \<in> set (T (number g))" unfolding set_run_of by blast
        then obtain j where j: "i < j" "j < length fs" "x \<in> set (T (number (fs ! j)))"
          unfolding in_set_conv_nth by (auto simp: less_diff_conv) (metis add.commute add_Suc less_add_Suc1)
        then have "entry_less (last ?es) x" using run_of_less [OF wf j(1,2) file_ok_last(1) [OF f]] by blast
        then show ?thesis using big by (auto simp: entry_less_def ikey_less_def)
      qed
      then show ?thesis unfolding newest_None_iff by blast
    qed
    then show ?thesis
      using True newest_concat [of "[?es, ?rest]" S uk]
      unfolding eq cut drop Let_def by (cases "newest ?es S uk") (simp_all del: newest_None_iff)
  qed
qed

lemma Get_candidates_level:
  assumes "wf_entries (run_of T fs)" "list_all (file_ok T) fs" "valid_seq S" "level \<noteq> 0"
  shows "newest_run (map (\<lambda>f. T (number f))
      (Get_candidates Bytewise_Compare (AppendInternalKey [] (seek_key uk S)) uk level fs)) S uk =
    newest (run_of T fs) S uk"
proof -
  let ?i = "FindFile Bytewise_Compare fs (AppendInternalKey [] (seek_key uk S))"
  have "newest (T (number (fs ! ?i))) S uk = None" if "?i < length fs" "uk < ExtractUserKey (smallest (fs ! ?i))"
    using newest_out_of_file [of T "fs ! ?i" uk S] assms(2) that by (simp add: list_all_length)
  then show ?thesis
    unfolding level_newest [OF assms(1-3)] using assms(4)
    by (auto simp: Get_candidates_def Let_def Bytewise_Compare_def Slice_compare_order split: option.split)
qed

lemma Get_candidates_level0:
  assumes "list_all (file_ok T) fs"
  shows "newest_run (map (\<lambda>f. T (number f)) (Get_candidates Bytewise_Compare ik uk 0 fs)) S uk =
    newest_run (level0_runs T fs) S uk"
proof -
  let ?P = "\<lambda>f. Bytewise_Compare uk (ExtractUserKey (smallest f)) \<ge> 0 \<and> Bytewise_Compare uk (ExtractUserKey (largest f)) \<le> 0"
  have "rev (sort_key number (filter ?P fs)) = filter ?P (rev (sort_key number fs))"
    by (simp only: rev_filter [symmetric] filter_sort)
  moreover have "newest (T (number f)) S uk = None" if "f \<in> set fs" "\<not> ?P f" for f
    using newest_out_of_file [of T f uk S] assms that
    by (auto simp: list_all_iff Bytewise_Compare_def Slice_compare_order not_le)
  ultimately show ?thesis
    unfolding Get_candidates_def level0_runs_def by simp (rule newest_run_filter, auto)
qed

lemma list_all_candidates:
  "list_all P fs \<Longrightarrow> list_all P (Get_candidates ucmp ik uk level fs)"
  by (auto simp: Get_candidates_def list_all_iff Let_def)

lemma Get_levels_eq:
  assumes S: "valid_seq S"
    and fs: "list_all (list_all (file_ok T)) levels" "list_all wf_entries (map (run_of T) levels)" "level \<noteq> 0"
      "list_all (list_all (tget_file_ok T tget)) levels"
  shows "fst (Get_levels tget Bytewise_Compare (AppendInternalKey [] (seek_key uk S)) uk level levels st) =
    (case newest_run (map (run_of T) levels) S uk of Some e \<Rightarrow> get_outcome e | None \<Rightarrow> (Status_NotFound [] [], []))"
  using fs
proof (induction levels arbitrary: level st)
  case (Cons fs levels)
  let ?ik = "AppendInternalKey [] (seek_key uk S)"
  let ?c = "Get_candidates Bytewise_Compare ?ik uk level fs"
  obtain r st' where get: "Get_files tget Bytewise_Compare ?ik uk level ?c st = (r, st')" by fastforce
  have "r = map_option get_outcome (newest_run (map (\<lambda>f. T (number f)) ?c) S uk)"
    using Get_files_eq [of T tget ?c S uk level st] Cons.prems(1,4) get S by (simp add: list_all_candidates)
  then have "r = map_option get_outcome (newest (run_of T fs) S uk)"
    using Get_candidates_level [of T fs S level uk] Cons.prems S by simp
  then show ?case
    using get Cons.IH [of "level + 1" st'] Cons.prems by (cases "newest (run_of T fs) S uk") simp_all
qed simp

lemma Version_Get_newest:
  assumes "version_ok T v" "tget_ok T tget v" "valid_seq S"
  shows "fst (Version_Get tget Bytewise_Compare v (LookupKey_new uk S)) =
    (case newest_run (version_runs T v) S uk of Some e \<Rightarrow> get_outcome e | None \<Rightarrow> (Status_NotFound [] [], []))"
proof -
  let ?ik = "AppendInternalKey [] (seek_key uk S)" and ?st = "\<lparr>seek_file = None, last_file_read = None\<rparr>"
  obtain f0 fs where v: "vfiles v = f0 # fs"
    using assms(1) by (cases "vfiles v") (auto simp: version_ok_def kNumLevels_def)
  have ok: "list_all (file_ok T) f0" "list_all (list_all (file_ok T)) fs" "list_all wf_entries (map (run_of T) fs)"
    using assms(1) by (simp_all add: version_ok_def v version_runs_def runs_ok_def)
  have tg: "list_all (tget_file_ok T tget) f0" "list_all (list_all (tget_file_ok T tget)) fs"
    using assms(2) by (simp_all add: tget_ok_def v)
  let ?c = "Get_candidates Bytewise_Compare ?ik uk 0 f0"
  obtain r st' where get: "Get_files tget Bytewise_Compare ?ik uk 0 ?c ?st = (r, st')" by fastforce
  have "r = map_option get_outcome (newest_run (level0_runs T f0) S uk)"
    using Get_files_eq [of T tget ?c S uk 0 ?st] ok(1) tg(1) get assms(3)
    by (simp add: list_all_candidates Get_candidates_level0)
  moreover have "Version_Get tget Bytewise_Compare v (LookupKey_new uk S) =
      (case r of Some r \<Rightarrow> (r, st') | None \<Rightarrow> Get_levels tget Bytewise_Compare ?ik uk 1 fs st')"
    using get by (cases r) (simp_all add: Version_Get_def LookupKey_parts InternalKey_new_def kValueTypeForSeek_def v)
  ultimately show ?thesis
    using Get_levels_eq [OF assms(3) ok(2,3) _ tg(2), of 1 uk st']
    by (cases "newest_run (level0_runs T f0) S uk") (simp_all add: version_runs_def v newest_run_append)
qed

section \<open>Choosing a level\<close>

definition overlaps :: "(u64 \<Rightarrow> entry list) \<Rightarrow> FileMetaData \<Rightarrow> bytes \<Rightarrow> bytes \<Rightarrow> bool" where
  "overlaps T f a z \<longleftrightarrow> a \<le> ExtractUserKey (largest f) \<and> ExtractUserKey (smallest f) \<le> z"

lemma no_overlap_keys:
  assumes "file_ok T f" "\<not> overlaps T f a z" "x \<in> set (T (number f))"
  shows "\<not> (a \<le> user_key (fst x) \<and> user_key (fst x) \<le> z)"
proof
  assume k: "a \<le> user_key (fst x) \<and> user_key (fst x) \<le> z"
  from assms(2) have "ExtractUserKey (largest f) < a \<or> z < ExtractUserKey (smallest f)" by (auto simp: overlaps_def not_le)
  then have "user_key (fst x) < ExtractUserKey (smallest f) \<or> ExtractUserKey (largest f) < user_key (fst x)" using k by auto
  from newest_out_of_file [OF assms(1) this] show False
    using assms(3) unfolding newest_None_iff by blast
qed

lemma SomeFileOverlapsRange_level0:
  "SomeFileOverlapsRange Bytewise_Compare False fs (Some a) (Some z) \<longleftrightarrow> (\<exists>f \<in> set fs. overlaps T f a z)"
  by (auto simp: SomeFileOverlapsRange_def list_ex_iff AfterFile_def BeforeFile_def overlaps_def
      Bytewise_Compare_def Slice_compare_order not_less)

lemma SomeFileOverlapsRange_level:
  assumes wf: "wf_entries (run_of T fs)" and fs: "list_all (file_ok T) fs" and az: "a \<le> z"
  shows "SomeFileOverlapsRange Bytewise_Compare True fs (Some a) (Some z) \<longleftrightarrow> (\<exists>f \<in> set fs. overlaps T f a z)"
proof -
  define i where "i = length (takeWhile (\<lambda>f. ikey_less (fst (last (T (number f)))) (seek_key a kMaxSequenceNumber)) fs)"
  have key: "ikey_less (fst (last (T (number f)))) (seek_key a kMaxSequenceNumber) \<longleftrightarrow> ExtractUserKey (largest f) < a"
    if "f \<in> set fs" for f
  proof -
    have "file_ok T f" using fs that by (simp add: list_all_iff)
    then show ?thesis
      using file_ok_last(2) [of T f]
      by (auto simp: before_seek_key file_ok_def AppendInternalKey_eq entry_ok_def valid_seq_def not_less)
  qed
  have i: "FindFile Bytewise_Compare fs (InternalKey_new a kMaxSequenceNumber kValueTypeForSeek) = i"
    using FindFile_level [OF wf fs, of kMaxSequenceNumber a]
    by (simp add: i_def InternalKey_new_def kValueTypeForSeek_def valid_seq_def)
  have before: "\<not> overlaps T (fs ! j) a z" if "j < i" for j
  proof -
    have "j < length fs" using that length_takeWhile_le unfolding i_def by (rule less_le_trans)
    then show ?thesis
      using that key [of "fs ! j"] nth_mem [of j "takeWhile (\<lambda>f. ikey_less (fst (last (T (number f)))) (seek_key a kMaxSequenceNumber)) fs"]
      by (auto simp: i_def takeWhile_nth overlaps_def dest!: set_takeWhileD)
  qed
  have after: "ExtractUserKey (smallest (fs ! i)) \<le> ExtractUserKey (smallest (fs ! j))" if j: "i < j" "j < length fs" for j
  proof -
    have f: "file_ok T (fs ! i)" "file_ok T (fs ! j)" using fs j by (simp_all add: list_all_length)
    have "entry_less (hd (T (number (fs ! i)))) (hd (T (number (fs ! j))))"
      using run_of_less [OF wf j] file_ok_last(3) f by blast
    then show ?thesis using f by (auto simp: entry_less_def ikey_less_def file_ok_def AppendInternalKey_eq)
  qed
  have largest: "a \<le> ExtractUserKey (largest (fs ! i))" if "i < length fs"
    using nth_length_takeWhile [of "\<lambda>f. ikey_less (fst (last (T (number f)))) (seek_key a kMaxSequenceNumber)" fs] that key [of "fs ! i"]
    by (simp add: i_def not_less)
  have "(\<exists>f \<in> set fs. overlaps T f a z) \<longleftrightarrow> i < length fs \<and> ExtractUserKey (smallest (fs ! i)) \<le> z"
  proof
    assume "\<exists>f \<in> set fs. overlaps T f a z"
    then obtain j where j: "j < length fs" "overlaps T (fs ! j) a z" by (metis in_set_conv_nth)
    then have "i \<le> j" using before by (metis not_le)
    then show "i < length fs \<and> ExtractUserKey (smallest (fs ! i)) \<le> z"
      using after [of j] j by (cases "i = j") (auto simp: overlaps_def)
  next
    assume "i < length fs \<and> ExtractUserKey (smallest (fs ! i)) \<le> z"
    then show "\<exists>f \<in> set fs. overlaps T f a z" using largest nth_mem by (metis overlaps_def)
  qed
  then show ?thesis
    by (auto simp: SomeFileOverlapsRange_def i BeforeFile_def Bytewise_Compare_def Slice_compare_order not_less)
qed

lemma OverlapInLevel_eq:
  assumes "version_ok T v" "level < kNumLevels" "a \<le> z"
  shows "OverlapInLevel Bytewise_Compare v level (Some a) (Some z) \<longleftrightarrow> (\<exists>f \<in> set (level_files v level). overlaps T f a z)"
proof (cases "level = 0")
  case True
  then show ?thesis by (simp add: OverlapInLevel_def SomeFileOverlapsRange_level0)
next
  case False
  have "length (vfiles v) = kNumLevels" using assms(1) by (simp add: version_ok_def)
  then have "level_files v level \<in> set (tl (vfiles v))" "list_all (file_ok T) (level_files v level)"
    using False assms(1,2) by (auto simp: version_ok_def list_all_length in_set_conv_nth nth_tl intro!: exI [of _ "level - 1"])
  then have "wf_entries (run_of T (level_files v level))" "list_all (file_ok T) (level_files v level)"
    using assms(1) by (auto simp: version_ok_def runs_ok_def version_runs_def list_all_iff)
  then show ?thesis
    using SomeFileOverlapsRange_level [OF _ _ assms(3)] False by (simp add: OverlapInLevel_def)
qed

lemma PickLevel_loop_range:
  assumes "version_ok T v" "a \<le> z" "level \<le> kMaxMemCompactLevel"
    "\<forall>l \<le> level. \<forall>f \<in> set (level_files v l). \<not> overlaps T f a z"
  shows "PickLevel_loop v a z level \<le> kMaxMemCompactLevel \<and>
    (\<forall>l \<le> PickLevel_loop v a z level. \<forall>f \<in> set (level_files v l). \<not> overlaps T f a z)"
  using assms(3,4)
proof (induction "kMaxMemCompactLevel - level" arbitrary: level rule: less_induct)
  case less
  show ?case
  proof (cases "level < kMaxMemCompactLevel \<and> \<not> OverlapInLevel Bytewise_Compare v (level + 1) (Some a) (Some z)")
    case False
    then show ?thesis using less(2,3) by (auto simp: PickLevel_loop.simps [of v a z level])
  next
    case True
    then have "\<forall>f \<in> set (level_files v (level + 1)). \<not> overlaps T f a z"
      using OverlapInLevel_eq [OF assms(1) _ assms(2), of "level + 1"] by (simp add: kMaxMemCompactLevel_def kNumLevels_def)
    then have up: "\<forall>l \<le> level + 1. \<forall>f \<in> set (level_files v l). \<not> overlaps T f a z"
      using less(3) by (metis Suc_eq_plus1 le_Suc_eq)
    show ?thesis
    proof (cases "PickLevel_loop v a z level = level")
      case True
      then show ?thesis using less(2,3) by simp
    next
      case False
      then have "PickLevel_loop v a z level = PickLevel_loop v a z (level + 1)"
        using PickLevel_loop.simps [of v a z level] by (metis (full_types))
      moreover have "kMaxMemCompactLevel - (level + 1) < kMaxMemCompactLevel - level" "level + 1 \<le> kMaxMemCompactLevel"
        using \<open>level < kMaxMemCompactLevel \<and> _\<close> by linarith+
      ultimately show ?thesis using less(1) up by metis
    qed
  qed
qed

lemma PickLevel_no_overlap:
  assumes "version_ok T v" "a \<le> z" and l: "l = PickLevelForMemTableOutput v a z"
  shows "l \<le> kMaxMemCompactLevel \<and> (0 < l \<longrightarrow> (\<forall>j \<le> l. \<forall>f \<in> set (level_files v j). \<not> overlaps T f a z))"
proof (cases "OverlapInLevel Bytewise_Compare v 0 (Some a) (Some z)")
  case True
  then show ?thesis using l by (simp add: PickLevelForMemTableOutput_def)
next
  case False
  then have "\<forall>f \<in> set (level_files v 0). \<not> overlaps T f a z"
    using OverlapInLevel_eq [OF assms(1) _ assms(2), of 0] by (simp add: kNumLevels_def)
  then have "\<forall>l \<le> 0. \<forall>f \<in> set (level_files v l). \<not> overlaps T f a z" by blast
  from PickLevel_loop_range [OF assms(1,2) le0 this] show ?thesis
    using False unfolding l PickLevelForMemTableOutput_def by presburger
qed

section \<open>Overlapping files\<close>

definition in_range :: "bytes option \<Rightarrow> bytes option \<Rightarrow> FileMetaData \<Rightarrow> bool" where
  "in_range b e f \<longleftrightarrow> (case b of None \<Rightarrow> True | Some b \<Rightarrow> b \<le> ExtractUserKey (largest f)) \<and>
     (case e of None \<Rightarrow> True | Some e \<Rightarrow> ExtractUserKey (smallest f) \<le> e)"

definition inside_range :: "bytes option \<Rightarrow> bytes option \<Rightarrow> FileMetaData \<Rightarrow> bool" where
  "inside_range b e f \<longleftrightarrow> (case b of None \<Rightarrow> True | Some b \<Rightarrow> b \<le> ExtractUserKey (smallest f)) \<and>
     (case e of None \<Rightarrow> True | Some e \<Rightarrow> ExtractUserKey (largest f) \<le> e)"

definition wider :: "bytes option \<Rightarrow> bytes option \<Rightarrow> bytes option \<Rightarrow> bytes option \<Rightarrow> bool" where
  "wider b e b' e' \<longleftrightarrow> (case b of None \<Rightarrow> b' = None | Some x \<Rightarrow> \<exists>y. b' = Some y \<and> y \<le> x) \<and>
     (case e of None \<Rightarrow> e' = None | Some x \<Rightarrow> \<exists>y. e' = Some y \<and> x \<le> y)"

lemma wider_refl [simp]: "wider b e b e"
  by (simp add: wider_def split: option.splits)

lemma wider_trans: "wider b e b1 e1 \<Longrightarrow> wider b1 e1 b2 e2 \<Longrightarrow> wider b e b2 e2"
  by (force simp: wider_def split: option.splits)

text \<open>\<open>r\<close> is the list of the files that overlap some range around \<open>b\<close> and \<open>e\<close>.\<close>

definition closed_inputs :: "nat \<Rightarrow> files \<Rightarrow> bytes option \<Rightarrow> bytes option \<Rightarrow> files \<Rightarrow> bool" where
  "closed_inputs level fs b e r \<longleftrightarrow> (\<exists>b' e'. wider b e b' e' \<and> r = filter (in_range b' e') fs \<and>
     (if level = 0 then list_all (inside_range b' e') r else b' = b \<and> e' = e))"

lemma closed_inputs_wider:
  "wider b e b1 e1 \<Longrightarrow> closed_inputs 0 fs b1 e1 r \<Longrightarrow> closed_inputs 0 fs b e r"
  unfolding closed_inputs_def using wider_trans by (metis (full_types))

lemmas overlap_simps = in_range_def inside_range_def wider_def Bytewise_Compare_def Slice_compare_order not_less leD

lemma Overlapping_loop_eq:
  assumes "i \<le> length fs" "inputs = filter (in_range b e) (take i fs)" "level = 0 \<longrightarrow> list_all (inside_range b e) inputs"
  shows "closed_inputs level fs b e (Overlapping_loop level fs b e i inputs)"
  using assms
proof (induction level fs b e i inputs rule: Overlapping_loop.induct)
  case (1 level fs b e i inputs)
  note eq = Overlapping_loop.simps [of level fs b e i inputs]
  show ?case
  proof (cases "i < length fs")
    case False
    then have "inputs = filter (in_range b e) fs" using "1.prems" by simp
    moreover have "Overlapping_loop level fs b e i inputs = inputs" using False by (simp add: eq)
    ultimately show ?thesis using "1.prems"(3) wider_refl [of b e] unfolding closed_inputs_def by metis
  next
    case True
    let ?f = "fs ! i"
    let ?s = "ExtractUserKey (smallest ?f)" and ?l = "ExtractUserKey (largest ?f)"
    let ?before = "case b of None \<Rightarrow> False | Some b \<Rightarrow> Bytewise_Compare ?l b < 0"
    let ?after = "case e of None \<Rightarrow> False | Some e \<Rightarrow> Bytewise_Compare ?s e > 0"
    let ?start = "level = 0 \<and> (case b of None \<Rightarrow> False | Some b \<Rightarrow> Bytewise_Compare ?s b < 0)"
    let ?limit = "level = 0 \<and> (case e of None \<Rightarrow> False | Some e \<Rightarrow> Bytewise_Compare ?l e > 0)"
    have take: "take (i + 1) fs = take i fs @ [?f]" using True by (simp add: take_Suc_conv_app_nth)
    note IH = "1.IH" [OF True refl refl refl]
    show ?thesis
    proof (cases "?before \<or> ?after")
      case out: True
      then have "\<not> in_range b e ?f" by (auto simp: overlap_simps split: option.splits)
      then have "closed_inputs level fs b e (Overlapping_loop level fs b e (i + 1) inputs)"
        using IH(1,2) out True "1.prems" take by (cases ?before) simp_all
      moreover have "Overlapping_loop level fs b e i inputs = Overlapping_loop level fs b e (i + 1) inputs"
        using out True by (auto simp: eq Let_def)
      ultimately show ?thesis by simp
    next
      case False
      then have ir: "in_range b e ?f" by (auto simp: overlap_simps split: option.splits)
      consider (start) "?start" | (limit) "\<not> ?start" "?limit" | (add) "\<not> ?start" "\<not> ?limit" by blast
      then show ?thesis
      proof cases
        case start
        then have "closed_inputs 0 fs (Some ?s) e (Overlapping_loop level fs (Some ?s) e 0 [])"
          using IH(3) False by simp
        moreover have "wider b e (Some ?s) e" using start by (auto simp: overlap_simps split: option.splits)
        moreover have "Overlapping_loop level fs b e i inputs = Overlapping_loop level fs (Some ?s) e 0 []"
          using start False True by (subst eq) (simp add: Let_def)
        ultimately show ?thesis using closed_inputs_wider start by metis
      next
        case limit
        then have "closed_inputs 0 fs b (Some ?l) (Overlapping_loop level fs b (Some ?l) 0 [])"
          using IH(4) False by simp
        moreover have "wider b e b (Some ?l)" using limit by (auto simp: overlap_simps split: option.splits)
        moreover have "Overlapping_loop level fs b e i inputs = Overlapping_loop level fs b (Some ?l) 0 []"
          using limit False True by (subst eq) (auto simp: Let_def)
        ultimately show ?thesis using closed_inputs_wider limit by metis
      next
        case add
        have "level = 0 \<longrightarrow> inside_range b e ?f" using add by (auto simp: overlap_simps split: option.splits)
        then have "closed_inputs level fs b e (Overlapping_loop level fs b e (i + 1) (inputs @ [?f]))"
          using IH(5) add False True "1.prems" take ir by simp
        moreover have "Overlapping_loop level fs b e i inputs = Overlapping_loop level fs b e (i + 1) (inputs @ [?f])"
          using add False True by (subst eq) (auto simp: Let_def)
        ultimately show ?thesis by simp
      qed
    qed
  qed
qed

section \<open>Properties\<close>

text \<open>
  C19: in a version whose levels are in order, \<^verbatim>\<open>Version::Get\<close> finds the newest entry of the user key
  that is not newer than the snapshot, over all files of all levels: its value, or not found
  for a deletion or when there is no entry. \<open>tget_ok\<close> is what \<^verbatim>\<open>TableCache::Get\<close>
  promises for the files of the version.
\<close>

theorem Version_Get_returns_newest:
  assumes "version_ok T v" "tget_ok T tget v" "valid_seq S"
  shows "fst (Version_Get tget Bytewise_Compare v (LookupKey_new uk S)) =
    (case visible (merge_runs (version_runs T v)) S uk of
       Some val \<Rightarrow> (Status_OK, val) | None \<Rightarrow> (Status_NotFound [] [], []))"
proof -
  have "runs_ok (version_runs T v)" using assms(1) by (simp add: version_ok_def)
  then show ?thesis
    using Version_Get_newest [OF assms] newest_merge_runs [of "version_runs T v" S uk]
    by (cases "newest_run (version_runs T v) S uk") (auto simp: visible_def get_outcome_def split: option.splits)
qed

definition example_entry :: entry where
  "example_entry = (\<lparr>user_key = [5], sequence = 2, vtype = kTypeValue\<rparr>, [9])"

definition example_version :: Version where
  "example_version = Version_new\<lparr>vfiles := [new_FileMetaData 4 1 (ikey example_entry) (ikey example_entry)] #
     replicate 6 []\<rparr>"

definition table_get_of :: "(u64 \<Rightarrow> entry list) \<Rightarrow> table_get" where
  "table_get_of T n fsize ik =
     (case ParseInternalKey ik of
        None \<Rightarrow> (Status_OK, None)
      | Some p \<Rightarrow> (Status_OK, map_option (\<lambda>e. (ikey e, snd e)) (table_seek (T n) (sequence p) (user_key p))))"

lemma example_entry_ok: "wf_entries [example_entry]"
  by (simp add: wf_entries_def entry_ok_def example_entry_def valid_seq_iff)

lemma example_version_ok: "version_ok (\<lambda>_. [example_entry]) example_version"
proof -
  have empty: "run_of T [] = []" "wf_entries []" "newer_run r []" for T r
    by (simp_all add: run_of_def wf_entries_def newer_run_def)
  have six: "replicate 6 x = [x, x, x, x, x, x]" for x :: 'a by (simp add: numeral_eq_Suc)
  show ?thesis
    using example_entry_ok
    by (simp add: version_ok_def example_version_def kNumLevels_def file_ok_def new_FileMetaData_def
        runs_ok_def version_runs_def level0_runs_def six empty)
qed

lemma tget_ok_table_get_of: "tget_ok T (table_get_of T) v"
  by (simp add: tget_ok_def list_all_iff tget_file_ok_def table_get_of_def ParseInternalKey_AppendInternalKey)

theorem Version_Get_returns_newest_witness:
  "fst (Version_Get (table_get_of (\<lambda>_. [example_entry])) Bytewise_Compare example_version (LookupKey_new [5] 7)) =
    (case visible (merge_runs (version_runs (\<lambda>_. [example_entry]) example_version)) 7 [5] of
       Some val \<Rightarrow> (Status_OK, val) | None \<Rightarrow> (Status_NotFound [] [], []))"
  by (rule Version_Get_returns_newest) (simp_all add: example_version_ok tget_ok_table_get_of valid_seq_iff)

text \<open>
  C20: \<^verbatim>\<open>GetOverlappingInputs\<close> returns, in their order, exactly the files of the level that overlap a
  range which contains the range asked for: that range itself in the levels above 0, and in
  level 0 a range that contains every file returned, so that no other file of the level
  shares a key with them.
\<close>

theorem GetOverlappingInputs_closed:
  "\<exists>b e. wider (map_option ExtractUserKey begins) (map_option ExtractUserKey ends) b e \<and>
     GetOverlappingInputs v level begins ends = filter (in_range b e) (level_files v level) \<and>
     (if level = 0 then list_all (inside_range b e) (GetOverlappingInputs v level begins ends)
      else b = map_option ExtractUserKey begins \<and> e = map_option ExtractUserKey ends)"
  using Overlapping_loop_eq [of 0 "level_files v level" "[]" "map_option ExtractUserKey begins"
      "map_option ExtractUserKey ends" level]
  unfolding GetOverlappingInputs_def closed_inputs_def by simp

text \<open>
  C21: the level chosen for the table of a memtable is at most 2, and when it is not level 0, no
  file of that level or of a level above it holds an entry with a key in the range of the
  memtable: the entries of the new table stay newer than what the search finds before them.
\<close>

theorem PickLevel_keeps_order:
  assumes "version_ok T v" and "a \<le> z"
  shows "PickLevelForMemTableOutput v a z \<le> kMaxMemCompactLevel \<and>
    (0 < PickLevelForMemTableOutput v a z \<longrightarrow>
      (\<forall>j \<le> PickLevelForMemTableOutput v a z. \<forall>f \<in> set (level_files v j). \<forall>x \<in> set (T (number f)).
        \<not> (a \<le> user_key (fst x) \<and> user_key (fst x) \<le> z)))"
proof (intro conjI impI allI ballI)
  let ?l = "PickLevelForMemTableOutput v a z"
  note pick = PickLevel_no_overlap [OF assms refl]
  then show l: "?l \<le> kMaxMemCompactLevel" by blast
  fix j f x
  assume f: "0 < ?l" "j \<le> ?l" "f \<in> set (level_files v j)" and x: "x \<in> set (T (number f))"
  have "j < length (vfiles v)" using assms(1) f(2) l by (simp add: version_ok_def kNumLevels_def kMaxMemCompactLevel_def)
  then have "file_ok T f" using assms(1) f(3) unfolding version_ok_def list_all_iff by (metis nth_mem)
  moreover have "\<not> overlaps T f a z" using pick f by blast
  ultimately show "\<not> (a \<le> user_key (fst x) \<and> user_key (fst x) \<le> z)" using no_overlap_keys x by blast
qed

theorem PickLevel_keeps_order_witness:
  "PickLevelForMemTableOutput example_version [6] [7] = 2 \<and>
   \<not> ([6 :: byte] \<le> user_key (fst example_entry) \<and> user_key (fst example_entry) \<le> [7])"
proof -
  let ?T = "\<lambda>_ :: u64. [example_entry]" and ?f = "new_FileMetaData 4 1 (ikey example_entry) (ikey example_entry)"
  have pick: "PickLevelForMemTableOutput example_version [6] [7] = 2"
    by (simp add: PickLevelForMemTableOutput_def OverlapInLevel_def SomeFileOverlapsRange_def example_version_def
        AfterFile_def new_FileMetaData_def example_entry_def AppendInternalKey_eq Bytewise_Compare_def Slice_compare_order
        PickLevel_loop.simps [of _ _ _ 0] PickLevel_loop.simps [of _ _ _ "Suc 0"] PickLevel_loop.simps [of _ _ _ "Suc (Suc 0)"]
        kMaxMemCompactLevel_def kNumLevels_def FindFile_def FindFile_loop.simps GetOverlappingInputs_def
        Overlapping_loop.simps TotalFileSize_def kMaxGrandParentOverlapBytes_def kTargetFileSize_def nth_Cons' Extract_append_tag(1) [of "[5]", simplified])
  have "?f \<in> set (level_files example_version 0)" by (simp add: example_version_def)
  moreover have "[6 :: byte] \<le> [7]" by simp
  ultimately show ?thesis
    using PickLevel_keeps_order [OF example_version_ok, of "[6]" "[7]"] pick by auto
qed

end
