(* ===== verification/File_Names.thy ===== *)
theory File_Names
  imports Status_Codes "HOL-Library.AList"
begin

text \<open>
  Names of database files and the switch of the \<^verbatim>\<open>CURRENT\<close> file: \<^verbatim>\<open>db/filename.h\<close>,
  \<^verbatim>\<open>db/filename.cc\<close> and \<^verbatim>\<open>DoWriteStringToFile\<close> of \<^verbatim>\<open>util/env.cc\<close>.
\<close>

section \<open>Names\<close>

datatype FileType = kLogFile | kDBLockFile | kTableFile | kDescriptorFile | kCurrentFile
  | kTempFile | kInfoLogFile

definition MakeFileName :: "bytes \<Rightarrow> u64 \<Rightarrow> bytes \<Rightarrow> bytes" where
  "MakeFileName name number suff = name @ cstr ''/'' @ pad6 (unat number) @ cstr ''.'' @ suff"

definition LogFileName :: "bytes \<Rightarrow> u64 \<Rightarrow> bytes" where
  "LogFileName name number = MakeFileName name number (cstr ''log'')"

definition TableFileName :: "bytes \<Rightarrow> u64 \<Rightarrow> bytes" where
  "TableFileName name number = MakeFileName name number (cstr ''ldb'')"

definition SSTTableFileName :: "bytes \<Rightarrow> u64 \<Rightarrow> bytes" where
  "SSTTableFileName name number = MakeFileName name number (cstr ''sst'')"

definition DescriptorFileName :: "bytes \<Rightarrow> u64 \<Rightarrow> bytes" where
  "DescriptorFileName dbname number = dbname @ cstr ''/MANIFEST-'' @ pad6 (unat number)"

definition CurrentFileName :: "bytes \<Rightarrow> bytes" where
  "CurrentFileName dbname = dbname @ cstr ''/CURRENT''"

definition LockFileName :: "bytes \<Rightarrow> bytes" where
  "LockFileName dbname = dbname @ cstr ''/LOCK''"

definition TempFileName :: "bytes \<Rightarrow> u64 \<Rightarrow> bytes" where
  "TempFileName dbname number = MakeFileName dbname number (cstr ''dbtmp'')"

definition InfoLogFileName :: "bytes \<Rightarrow> bytes" where
  "InfoLogFileName dbname = dbname @ cstr ''/LOG''"

definition OldInfoLogFileName :: "bytes \<Rightarrow> bytes" where
  "OldInfoLogFileName dbname = dbname @ cstr ''/LOG.old''"

definition ParseFileName :: "bytes \<Rightarrow> (u64 \<times> FileType) option" where
  "ParseFileName fname =
     (let rest = fname in
      if Slice_eq rest (cstr ''CURRENT'') then Some (0, kCurrentFile)
      else if Slice_eq rest (cstr ''LOCK'') then Some (0, kDBLockFile)
      else if Slice_eq rest (cstr ''LOG'') \<or> Slice_eq rest (cstr ''LOG.old'') then Some (0, kInfoLogFile)
      else if Slice_starts_with rest (cstr ''MANIFEST-'') then
        (case ConsumeDecimalNumber (drop (length (cstr ''MANIFEST-'')) rest) of
           None \<Rightarrow> None
         | Some (num, rest) \<Rightarrow> if rest \<noteq> [] then None else Some (num, kDescriptorFile))
      else
        (case ConsumeDecimalNumber rest of
           None \<Rightarrow> None
         | Some (num, suff) \<Rightarrow>
             if Slice_eq suff (cstr ''.log'') then Some (num, kLogFile)
             else if Slice_eq suff (cstr ''.sst'') \<or> Slice_eq suff (cstr ''.ldb'')
             then Some (num, kTableFile)
             else if Slice_eq suff (cstr ''.dbtmp'') then Some (num, kTempFile)
             else None))"

section \<open>Switching the CURRENT file\<close>

text \<open>
  The files of the environment are the list of their names with their contents. The calls of the
  environment that can fail get their outcome from a parameter, \<open>env_outcomes\<close>: the status
  each returns and, for a failed append, how many bytes reached the file. Creating a
  writable file truncates it, renaming replaces the target, deleting removes the file. A file
  may be deleted twice: \<open>cleanup_status\<close> is the outcome of the call of \<open>DeleteFile\<close> in
  \<open>DoWriteStringToFile\<close>, \<open>delete_status\<close> of the one in \<open>SetCurrentFile\<close>; a call that fails
  leaves the file, and the code ignores both statuses.
\<close>

type_synonym file_system = "(bytes \<times> bytes) list"

lemmas file_system_simps [simp] = update_conv' delete_conv'

definition GetChildren :: "file_system \<Rightarrow> bytes \<Rightarrow> bytes list" where
  "GetChildren fs dir = map (drop (length dir + 1)) (filter (prefix (dir @ cstr ''/'')) (remdups (map fst fs)))"

record env_outcomes =
  new_status :: Status
  append_status :: Status
  append_written :: nat
  sync_status :: Status
  close_status :: Status
  rename_status :: Status
  cleanup_status :: Status
  delete_status :: Status

definition Env_DeleteFile :: "Status \<Rightarrow> file_system \<Rightarrow> bytes \<Rightarrow> file_system" where
  "Env_DeleteFile s fs fname = (if Status_ok s then AList.delete fname fs else fs)"

definition DoWriteStringToFile ::
    "env_outcomes \<Rightarrow> file_system \<Rightarrow> bytes \<Rightarrow> bytes \<Rightarrow> bool \<Rightarrow> Status \<times> file_system" where
  "DoWriteStringToFile env fs data fname should_sync =
     (if \<not> Status_ok (new_status env) then (new_status env, fs)
      else
        let fs = AList.update fname [] fs;
            s = append_status env;
            fs = AList.update fname (if Status_ok s then data else take (append_written env) data) fs;
            s = (if Status_ok s \<and> should_sync then sync_status env else s);
            s = (if Status_ok s then close_status env else s);
            fs = (if \<not> Status_ok s then Env_DeleteFile (cleanup_status env) fs fname else fs)
        in (s, fs))"

definition RenameFile :: "env_outcomes \<Rightarrow> file_system \<Rightarrow> bytes \<Rightarrow> bytes \<Rightarrow> Status \<times> file_system" where
  "RenameFile env fs src target =
     (if Status_ok (rename_status env)
      then (case map_of fs src of
              None \<Rightarrow> (Status_IOError src (cstr ''No such file or directory''), fs)
            | Some data \<Rightarrow> (rename_status env, AList.update target data (AList.delete src fs)))
      else (rename_status env, fs))"

definition SetCurrentFile ::
    "env_outcomes \<Rightarrow> file_system \<Rightarrow> bytes \<Rightarrow> u64 \<Rightarrow> Status \<times> file_system" where
  "SetCurrentFile env fs dbname descriptor_number =
     (let manifest = DescriptorFileName dbname descriptor_number;
          contents = drop (length dbname + 1) manifest;
          tmp = TempFileName dbname descriptor_number;
          (s, fs) = DoWriteStringToFile env fs (contents @ [0x0a]) tmp True;
          (s, fs) = (if Status_ok s then RenameFile env fs tmp (CurrentFileName dbname) else (s, fs));
          fs = (if \<not> Status_ok s then Env_DeleteFile (delete_status env) fs tmp else fs)
      in (s, fs))"

section \<open>Lemmas\<close>

lemma ends_number_suffix: "ends_number (46 # s)"
  by (simp add: ends_number_def is_digit_def)

lemma pad6_digits: "\<forall>c \<in> set (pad6 n). is_digit c"
  using digits_decimal [of n] by (auto simp: pad6_def is_digit_def)

lemma ConsumeDecimalNumber_pad6:
  "ends_number rest \<Longrightarrow> ConsumeDecimalNumber (pad6 (unat n) @ rest) = Some (n, rest)" for n :: u64
  using ConsumeDecimalNumber_decimal [of "unat n" rest] unat_bound [of n] by (simp add: pad6_def)

lemma pad6_Cons: obtains c cs where "pad6 n = c # cs" "is_digit c"
  using pad6_digits [of n]
  by (metis append_is_Nil_conv decimal_not_Nil list.set_intros(1) neq_Nil_conv pad6_def)

lemma is_digit_not_letter: "is_digit c \<Longrightarrow> c \<noteq> 67 \<and> c \<noteq> 76 \<and> c \<noteq> 77"
  by (auto simp: is_digit_def)

lemma ParseFileName_number:
  fixes n :: u64
  assumes "suff \<in> {cstr ''.log'', cstr ''.sst'', cstr ''.ldb'', cstr ''.dbtmp''}"
  shows "ParseFileName (pad6 (unat n) @ suff) =
    Some (n, if suff = cstr ''.log'' then kLogFile
             else if suff = cstr ''.dbtmp'' then kTempFile else kTableFile)"
proof -
  obtain c cs where c: "pad6 (unat n) = c # cs" "is_digit c" by (rule pad6_Cons)
  have "ends_number suff" using assms by (auto simp: ends_number_suffix)
  then have parse: "ConsumeDecimalNumber (pad6 (unat n) @ suff) = Some (n, suff)"
    by (rule ConsumeDecimalNumber_pad6)
  have head: "\<not> Slice_eq (pad6 (unat n) @ suff) (cstr ''CURRENT'')"
    "\<not> Slice_eq (pad6 (unat n) @ suff) (cstr ''LOCK'')"
    "\<not> Slice_eq (pad6 (unat n) @ suff) (cstr ''LOG'')"
    "\<not> Slice_eq (pad6 (unat n) @ suff) (cstr ''LOG.old'')"
    "\<not> Slice_starts_with (pad6 (unat n) @ suff) (cstr ''MANIFEST-'')"
    using c(1) is_digit_not_letter [OF c(2)] by (simp_all add: Slice_eq_iff Slice_starts_with_prefix)
  have "ParseFileName (pad6 (unat n) @ suff) =
      (if suff = cstr ''.log'' then Some (n, kLogFile)
       else if suff = cstr ''.sst'' \<or> suff = cstr ''.ldb'' then Some (n, kTableFile)
       else if suff = cstr ''.dbtmp'' then Some (n, kTempFile) else None)"
    using head parse by (simp add: ParseFileName_def Let_def Slice_eq_iff del: cstr_Cons)
  then show ?thesis using assms by (elim insertE emptyE) simp_all
qed

lemma ParseFileName_descriptor:
  "ParseFileName (cstr ''MANIFEST-'' @ pad6 (unat n)) = Some (n, kDescriptorFile)" for n :: u64
  using ConsumeDecimalNumber_pad6 [of "[]" n]
  by (simp add: ParseFileName_def Let_def Slice_eq_iff Slice_starts_with_prefix ends_number_def)

lemma ParseFileName_fixed:
  "ParseFileName (cstr ''CURRENT'') = Some (0, kCurrentFile)"
  "ParseFileName (cstr ''LOCK'') = Some (0, kDBLockFile)"
  "ParseFileName (cstr ''LOG'') = Some (0, kInfoLogFile)"
  "ParseFileName (cstr ''LOG.old'') = Some (0, kInfoLogFile)"
  by (simp_all add: ParseFileName_def Let_def Slice_eq_iff)

lemma file_names_parse:
  "ParseFileName (drop (length dbname + 1) (LogFileName dbname n)) = Some (n, kLogFile)"
  "ParseFileName (drop (length dbname + 1) (TableFileName dbname n)) = Some (n, kTableFile)"
  "ParseFileName (drop (length dbname + 1) (SSTTableFileName dbname n)) = Some (n, kTableFile)"
  "ParseFileName (drop (length dbname + 1) (TempFileName dbname n)) = Some (n, kTempFile)"
  "ParseFileName (drop (length dbname + 1) (DescriptorFileName dbname n)) = Some (n, kDescriptorFile)"
  "ParseFileName (drop (length dbname + 1) (CurrentFileName dbname)) = Some (0, kCurrentFile)"
  "ParseFileName (drop (length dbname + 1) (LockFileName dbname)) = Some (0, kDBLockFile)"
  "ParseFileName (drop (length dbname + 1) (InfoLogFileName dbname)) = Some (0, kInfoLogFile)"
  "ParseFileName (drop (length dbname + 1) (OldInfoLogFileName dbname)) = Some (0, kInfoLogFile)"
  using ParseFileName_number [of "cstr ''.log''" n] ParseFileName_number [of "cstr ''.ldb''" n]
    ParseFileName_number [of "cstr ''.sst''" n] ParseFileName_number [of "cstr ''.dbtmp''" n]
    ParseFileName_descriptor [of n] ParseFileName_fixed
  by (simp_all add: LogFileName_def TableFileName_def SSTTableFileName_def TempFileName_def MakeFileName_def
      DescriptorFileName_def CurrentFileName_def LockFileName_def InfoLogFileName_def OldInfoLogFileName_def)

text \<open>Files of different kinds, or with different numbers, have different names.\<close>

lemma file_names_neq [simp]:
  "LogFileName db n \<noteq> DescriptorFileName db m" "DescriptorFileName db m \<noteq> LogFileName db n"
  "LogFileName db n \<noteq> TableFileName db m" "TableFileName db m \<noteq> LogFileName db n"
  "LogFileName db n \<noteq> TempFileName db m" "TempFileName db m \<noteq> LogFileName db n"
  "LogFileName db n \<noteq> CurrentFileName db" "CurrentFileName db \<noteq> LogFileName db n"
  "DescriptorFileName db n \<noteq> TableFileName db m" "TableFileName db m \<noteq> DescriptorFileName db n"
  "DescriptorFileName db n \<noteq> TempFileName db m" "TempFileName db m \<noteq> DescriptorFileName db n"
  "DescriptorFileName db n \<noteq> CurrentFileName db" "CurrentFileName db \<noteq> DescriptorFileName db n"
  "TableFileName db n \<noteq> TempFileName db m" "TempFileName db m \<noteq> TableFileName db n"
  "TableFileName db n \<noteq> CurrentFileName db" "CurrentFileName db \<noteq> TableFileName db n"
  "TempFileName db n \<noteq> CurrentFileName db" "CurrentFileName db \<noteq> TempFileName db n"
  using file_names_parse [of db] by (metis FileType.distinct option.inject prod.inject)+

lemma file_names_inject [simp]:
  "LogFileName db n = LogFileName db m \<longleftrightarrow> n = m"
  "TableFileName db n = TableFileName db m \<longleftrightarrow> n = m"
  "TempFileName db n = TempFileName db m \<longleftrightarrow> n = m"
  "DescriptorFileName db n = DescriptorFileName db m \<longleftrightarrow> n = m"
  using file_names_parse [of db] by (metis option.inject prod.inject)+

lemma SetCurrentFile_atomic:
  assumes "SetCurrentFile env fs db n = (s, fs')"
  shows "map_of fs' (CurrentFileName db) =
      (if Status_ok s then Some (cstr ''MANIFEST-'' @ pad6 (unat n) @ [0x0a])
       else map_of fs (CurrentFileName db)) \<and>
    (Status_ok s \<or> Status_ok (delete_status env) \<longrightarrow> map_of fs' (TempFileName db n) = None) \<and>
    (\<forall>f. f \<noteq> CurrentFileName db \<and> f \<noteq> TempFileName db n \<longrightarrow> map_of fs' f = map_of fs f)"
  using assms
  by (auto simp: SetCurrentFile_def Let_def DoWriteStringToFile_def RenameFile_def
      Env_DeleteFile_def DescriptorFileName_def split: if_splits)

section \<open>Properties\<close>

text \<open>
  C36: the names the database gives to its files parse back to their number and type: the
  log, table (both suffixes), temporary and descriptor file of every 64-bit number, and the
  files with a fixed name.
\<close>

theorem file_names_parse_back:
  "ParseFileName (drop (length dbname + 1) (LogFileName dbname n)) = Some (n, kLogFile) \<and>
   ParseFileName (drop (length dbname + 1) (TableFileName dbname n)) = Some (n, kTableFile) \<and>
   ParseFileName (drop (length dbname + 1) (SSTTableFileName dbname n)) = Some (n, kTableFile) \<and>
   ParseFileName (drop (length dbname + 1) (TempFileName dbname n)) = Some (n, kTempFile) \<and>
   ParseFileName (drop (length dbname + 1) (DescriptorFileName dbname n)) = Some (n, kDescriptorFile) \<and>
   ParseFileName (drop (length dbname + 1) (CurrentFileName dbname)) = Some (0, kCurrentFile) \<and>
   ParseFileName (drop (length dbname + 1) (LockFileName dbname)) = Some (0, kDBLockFile) \<and>
   ParseFileName (drop (length dbname + 1) (InfoLogFileName dbname)) = Some (0, kInfoLogFile) \<and>
   ParseFileName (drop (length dbname + 1) (OldInfoLogFileName dbname)) = Some (0, kInfoLogFile)"
  by (intro conjI file_names_parse)

text \<open>
  C35: however the calls of the environment fail, after \<^verbatim>\<open>SetCurrentFile\<close> the \<^verbatim>\<open>CURRENT\<close> file holds
  the name of the new descriptor and a newline when it reports success, and what it held
  before otherwise. The temporary file is gone when it reports success or when the deletion it
  tries on a failure succeeds (the code ignores whether it does), and no other file has changed.
\<close>

theorem SetCurrentFile_all_or_nothing:
  assumes "SetCurrentFile env fs dbname n = (s, fs')"
  shows "map_of fs' (CurrentFileName dbname) =
      (if Status_ok s then Some (drop (length dbname + 1) (DescriptorFileName dbname n) @ [0x0a])
       else map_of fs (CurrentFileName dbname)) \<and>
    (Status_ok s \<or> Status_ok (delete_status env) \<longrightarrow> map_of fs' (TempFileName dbname n) = None) \<and>
    (\<forall>f. f \<notin> {CurrentFileName dbname, TempFileName dbname n} \<longrightarrow> map_of fs' f = map_of fs f)"
  using SetCurrentFile_atomic [OF assms] by (simp add: DescriptorFileName_def)

theorem SetCurrentFile_all_or_nothing_witness:
  "map_of (snd (SetCurrentFile \<lparr>new_status = Status_OK, append_status = Status_OK, append_written = 0,
      sync_status = Status_IOError [] [], close_status = Status_OK, rename_status = Status_OK,
      cleanup_status = Status_IOError [] [], delete_status = Status_IOError [] []\<rparr>
      [(CurrentFileName [], [1])] [] 7)) (CurrentFileName []) = Some [1]"
proof -
  define env where "env = \<lparr>new_status = Status_OK, append_status = Status_OK, append_written = 0,
      sync_status = Status_IOError [] [], close_status = Status_OK, rename_status = Status_OK,
      cleanup_status = Status_IOError [] [], delete_status = Status_IOError [] []\<rparr>"
  obtain s fs' where r: "SetCurrentFile env [(CurrentFileName [], [1])] [] 7 = (s, fs')" by fastforce
  then have "\<not> Status_ok s"
    by (auto simp: SetCurrentFile_def Let_def DoWriteStringToFile_def env_def)
  then have "map_of fs' (CurrentFileName []) = Some [1]"
    using SetCurrentFile_all_or_nothing [OF r] by simp
  with r show ?thesis by (simp add: env_def)
qed

end
