(* ===== verification/Env_Files.thy ===== *)
theory Env_Files
  imports Log_Format File_Names
begin

text \<open>
  Reading files of the environment from the start: the opening of a sequential file as
  \<^verbatim>\<open>util/env_posix.cc\<close> does it, \<^verbatim>\<open>ReadFileToString\<close> of \<^verbatim>\<open>util/env.cc\<close>, and the fact that a loop over
  \<open>ReadRecord\<close> ends. Which calls fail is given by \<open>read_env\<close>: the status of opening a file that
  exists, and the outcomes of the reads of each file.
\<close>

record read_env =
  open_status :: "bytes \<Rightarrow> Status"
  file_outcomes :: "bytes \<Rightarrow> (Status \<times> nat) list"

definition no_read_failures :: read_env where
  "no_read_failures = \<lparr>open_status = \<lambda>_. Status_OK, file_outcomes = \<lambda>_. []\<rparr>"

definition NewSequentialFile :: "read_env \<Rightarrow> file_system \<Rightarrow> bytes \<Rightarrow> Status + SequentialFile" where
  "NewSequentialFile env fs fname =
     (case map_of fs fname of
        None \<Rightarrow> Inl (Status_IOError fname (cstr ''No such file or directory''))
      | Some data \<Rightarrow>
          if Status_ok (open_status env fname)
          then Inr \<lparr>unread = data, read_outcomes = file_outcomes env fname, skip_status = Status_OK\<rparr>
          else Inl (open_status env fname))"

function ReadFile_loop :: "SequentialFile \<Rightarrow> bytes \<Rightarrow> Status \<times> bytes" where
  "ReadFile_loop f data =
     (case File_Read f 8192 of (s, fragment, f') \<Rightarrow>
        if \<not> Status_ok s then (s, data)
        else if fragment = [] then (s, data)
        else ReadFile_loop f' (data @ fragment))"
  by pat_completeness auto
termination
  by (relation "measure (\<lambda>(f, data). length (unread f))")
    (auto simp: File_Read_def Let_def split: list.splits if_splits)

declare ReadFile_loop.simps [simp del]

definition ReadFileToString :: "read_env \<Rightarrow> file_system \<Rightarrow> bytes \<Rightarrow> Status \<times> bytes" where
  "ReadFileToString env fs fname =
     (case NewSequentialFile env fs fname of Inl s \<Rightarrow> (s, []) | Inr f \<Rightarrow> ReadFile_loop f [])"

lemma ReadFile_loop_all: "read_outcomes f = [] \<Longrightarrow> ReadFile_loop f data = (Status_OK, data @ unread f)"
proof (induction f data rule: ReadFile_loop.induct)
  case (1 f data)
  show ?case
  proof (cases "take 8192 (unread f) = []")
    case True
    then show ?thesis using "1.prems" by (simp add: ReadFile_loop.simps [of f] File_Read_def)
  next
    case False
    then have "ReadFile_loop (f\<lparr>unread := drop 8192 (unread f)\<rparr>) (data @ take 8192 (unread f)) =
        (Status_OK, (data @ take 8192 (unread f)) @ drop 8192 (unread f))"
      using "1.IH" "1.prems" by (auto simp: File_Read_def)
    then show ?thesis using False "1.prems" by (simp add: ReadFile_loop.simps [of f data] File_Read_def)
  qed
qed

text \<open>With no failures a file is read back whole.\<close>

lemma ReadFileToString_present:
  "map_of fs fname = Some data \<Longrightarrow> ReadFileToString no_read_failures fs fname = (Status_OK, data)"
  by (simp add: ReadFileToString_def NewSequentialFile_def no_read_failures_def ReadFile_loop_all)

section \<open>Loops over the records of a log\<close>

definition reader_left :: "Reader \<Rightarrow> nat" where
  "reader_left r = length (unread (rfile r)) + length (buffer r)"

lemma ReportCorruption_left [simp]:
  "reader_left (ReportCorruption r n m) = reader_left r" "reader_left (r\<lparr>last_record_offset := x\<rparr>) = reader_left r"
  by (simp_all add: reader_left_def ReportCorruption_def ReportDrop_def)

lemma ReadRecord_loop_left:
  "ReadRecord_loop r scr b pr = (Some x, r') \<Longrightarrow> reader_left r' < reader_left r"
proof (induction "reader_left r" arbitrary: r scr b pr rule: less_induct)
  case less
  obtain t d r1 where phys: "ReadPhysicalRecord r = (t, d, r1)" by (metis prod_cases3)
  have step: "t \<noteq> kEof \<Longrightarrow> reader_left r1 < reader_left r"
    using ReadPhysicalRecord_shorter [OF phys] by (simp add: reader_left_def)
  have IH: "t \<noteq> kEof \<Longrightarrow> reader_left r2 = reader_left r1 \<Longrightarrow> ReadRecord_loop r2 scr b pr = (Some x, r') \<Longrightarrow>
      reader_left r' < reader_left r" for r2 scr b pr
    using less.hyps [of r2 scr b pr] step by simp
  consider "t = 1" | "t = 2" | "t = 3" | "t = 4" | "t = kEof" | "t \<notin> {1, 2, 3, 4, kEof}" by blast
  then show ?case
    using less.prems step
    by cases (auto simp: ReadRecord_loop.simps [of r scr b pr] phys Let_def kEof_def kBadRecord_def kMaxRecordType_def
        split: if_splits dest!: IH [unfolded kEof_def kMaxRecordType_def, rotated 2])
qed

lemma ReadRecord_left: "ReadRecord r = (Some x, r') \<Longrightarrow> reader_left r' < reader_left r"
  by (fastforce simp: ReadRecord_def SkipToInitialBlock_def Let_def reader_left_def ReportDrop_def
      split: if_splits dest!: ReadRecord_loop_left)

end
