(* ===== verification/Version_Set.thy ===== *)
theory Version_Set
  imports Versions Env_Files
begin

text \<open>
  The set of versions and its manifest: \<^verbatim>\<open>VersionSet\<close> and \<^verbatim>\<open>VersionSet::Builder\<close> of
  \<^verbatim>\<open>db/version_set.cc\<close>, over the bytewise comparator. Every change of the version is an edit
  appended to the manifest, a log file; recovery reads them back. The list of old versions
  and the reference counts, which only govern when memory and files are freed, are left out;
  the count of a file is what it is while one version holds it.
\<close>

section \<open>Builder\<close>

abbreviation icmp :: "bytes \<Rightarrow> bytes \<Rightarrow> int" where
  "icmp \<equiv> InternalKeyComparator_Compare Bytewise_Compare"

definition BySmallestKey :: "FileMetaData \<Rightarrow> FileMetaData \<Rightarrow> bool" where
  "BySmallestKey f1 f2 =
     (let r = icmp (smallest f1) (smallest f2) in if r \<noteq> 0 then r < 0 else number f1 < number f2)"

text \<open>A \<^verbatim>\<open>std::set\<close> ordered by \<open>BySmallestKey\<close>, as the list of its elements in order.\<close>

fun FileSet_insert :: "FileMetaData \<Rightarrow> files \<Rightarrow> files" where
  "FileSet_insert f [] = [f]"
| "FileSet_insert f (g # gs) =
     (if BySmallestKey f g then f # g # gs
      else if BySmallestKey g f then g # FileSet_insert f gs
      else g # gs)"

record LevelState =
  level_deleted :: "u64 list"
  level_added :: files

record Builder =
  base :: Version
  levels :: "LevelState list"

definition Builder_new :: "Version \<Rightarrow> Builder" where
  "Builder_new v = \<lparr>base = v, levels = replicate kNumLevels \<lparr>level_deleted = [], level_added = []\<rparr>\<rparr>"

text \<open>The number of seeks is a 32-bit \<^verbatim>\<open>int\<close>.\<close>

definition initial_seeks :: "u64 \<Rightarrow> int" where
  "initial_seeks fsize = (let n = sint (ucast (fsize div 16384) :: u32) in if n < 100 then 100 else n)"

definition Apply_deleted :: "nat \<times> u64 \<Rightarrow> LevelState list \<Rightarrow> LevelState list" where
  "Apply_deleted d ls = (case d of (level, n) \<Rightarrow>
     ls[level := (ls ! level)\<lparr>level_deleted := set_insert n (level_deleted (ls ! level))\<rparr>])"

definition Apply_new :: "nat \<times> FileMetaData \<Rightarrow> LevelState list \<Rightarrow> LevelState list" where
  "Apply_new nf ls = (case nf of (level, f) \<Rightarrow>
     let f = f\<lparr>refs := 1, allowed_seeks := initial_seeks (file_size f)\<rparr> in
     ls[level := (ls ! level)\<lparr>level_deleted := remove1 (number f) (level_deleted (ls ! level)),
                             level_added := FileSet_insert f (level_added (ls ! level))\<rparr>])"

definition Builder_Apply :: "VersionEdit \<Rightarrow> Builder \<Rightarrow> bytes list \<Rightarrow> Builder \<times> bytes list" where
  "Builder_Apply edit b compact_pointer =
     (let compact_pointer = fold (\<lambda>(level, key) cp. cp[level := key]) (compact_pointers edit) compact_pointer;
          ls = fold Apply_deleted (deleted_files edit) (levels b);
          ls = fold Apply_new (new_files edit) ls
      in (b\<lparr>levels := ls\<rparr>, compact_pointer))"

text \<open>
  The merge of one level: before each added file come the files of the base up to
  \<^verbatim>\<open>std::upper_bound\<close>; \<open>MaybeAddFile\<close> drops the deleted ones. The assertion of \<open>MaybeAddFile\<close> is
  compiled out of a release build.
\<close>

definition MaybeAddFile :: "u64 list \<Rightarrow> FileMetaData \<Rightarrow> files \<Rightarrow> files" where
  "MaybeAddFile deleted f fs = (if number f \<in> set deleted then fs else fs @ [f])"

fun SaveLevel :: "u64 list \<Rightarrow> files \<Rightarrow> files \<Rightarrow> files \<Rightarrow> files" where
  "SaveLevel deleted base_files [] fs = fold (MaybeAddFile deleted) base_files fs"
| "SaveLevel deleted base_files (a # added) fs =
     (let fs = fold (MaybeAddFile deleted) (takeWhile (\<lambda>f. \<not> BySmallestKey a f) base_files) fs;
          base_files = dropWhile (\<lambda>f. \<not> BySmallestKey a f) base_files;
          fs = MaybeAddFile deleted a fs
      in SaveLevel deleted base_files added fs)"

definition SaveTo :: "Builder \<Rightarrow> Version \<Rightarrow> Version" where
  "SaveTo b v = v\<lparr>vfiles := map (\<lambda>level. SaveLevel (level_deleted (levels b ! level)) (level_files (base b) level)
     (level_added (levels b ! level)) (level_files v level)) [0..<kNumLevels]\<rparr>"

section \<open>The set of versions\<close>

record VersionSet =
  vs_dbname :: bytes
  vs_next_file :: u64
  vs_manifest :: u64
  vs_last_sequence :: u64
  vs_log_number :: u64
  vs_prev_log :: u64
  vs_descriptor_log :: "Writer option"
  vs_compact_pointer :: "bytes list"
  vs_current :: Version

definition VersionSet_new :: "bytes \<Rightarrow> VersionSet" where
  "VersionSet_new dbname = \<lparr>vs_dbname = dbname, vs_next_file = 2, vs_manifest = 0, vs_last_sequence = 0,
     vs_log_number = 0, vs_prev_log = 0, vs_descriptor_log = None,
     vs_compact_pointer = replicate kNumLevels [], vs_current = Version_new\<rparr>"

definition AppendVersion :: "Version \<Rightarrow> VersionSet \<Rightarrow> VersionSet" where
  "AppendVersion v vs = vs\<lparr>vs_current := v\<rparr>"

definition NewFileNumber :: "VersionSet \<Rightarrow> u64 \<times> VersionSet" where
  "NewFileNumber vs = (vs_next_file vs, vs\<lparr>vs_next_file := vs_next_file vs + 1\<rparr>)"

definition ReuseFileNumber :: "u64 \<Rightarrow> VersionSet \<Rightarrow> VersionSet" where
  "ReuseFileNumber n vs = (if vs_next_file vs = n + 1 then vs\<lparr>vs_next_file := n\<rparr> else vs)"

definition MarkFileNumberUsed :: "u64 \<Rightarrow> VersionSet \<Rightarrow> VersionSet" where
  "MarkFileNumberUsed n vs = (if vs_next_file vs \<le> n then vs\<lparr>vs_next_file := n + 1\<rparr> else vs)"

definition comparator_Name :: bytes where
  "comparator_Name = cstr ''leveldb.BytewiseComparator''"

definition Snapshot_pointers :: "bytes list \<Rightarrow> VersionEdit \<Rightarrow> VersionEdit" where
  "Snapshot_pointers cps edit =
     fold (\<lambda>level e. if cps ! level = [] then e else SetCompactPointer level (cps ! level) e) [0..<kNumLevels] edit"

definition Snapshot_files :: "Version \<Rightarrow> VersionEdit \<Rightarrow> VersionEdit" where
  "Snapshot_files v edit =
     fold (\<lambda>level. fold (\<lambda>f. AddFile level (number f) (file_size f) (smallest f) (largest f)) (level_files v level))
       [0..<kNumLevels] edit"

definition WriteSnapshot :: "VersionSet \<Rightarrow> Writer \<Rightarrow> Status \<times> Writer" where
  "WriteSnapshot vs lg =
     (let edit = SetComparatorName comparator_Name VersionEdit_new;
          edit = Snapshot_pointers (vs_compact_pointer vs) edit;
          edit = Snapshot_files (vs_current vs) edit
      in AddRecord lg (VersionEdit_EncodeTo edit []))"

function Contains_loop :: "Reader \<Rightarrow> bytes \<Rightarrow> bool" where
  "Contains_loop r rec =
     (case ReadRecord r of
        (None, r) \<Rightarrow> False
      | (Some x, r) \<Rightarrow> if x = rec then True else Contains_loop r rec)"
  by pat_completeness auto
termination
  by (relation "measure (\<lambda>(r, rec). reader_left r)") (auto dest: ReadRecord_left [OF sym])

declare Contains_loop.simps [simp del]

definition ManifestContains :: "read_env \<Rightarrow> file_system \<Rightarrow> VersionSet \<Rightarrow> bytes \<Rightarrow> bool" where
  "ManifestContains env fs vs rec =
     (case NewSequentialFile env fs (DescriptorFileName (vs_dbname vs) (vs_manifest vs)) of
        Inl s \<Rightarrow> False
      | Inr file \<Rightarrow> Contains_loop (Reader_new file False True 0) rec)"

text \<open>
  The calls of the environment in one \<open>LogAndApply\<close>: the status of creating a manifest, the
  outcomes of the appends and flushes, the status of \<^verbatim>\<open>Sync\<close>, the reads of \<open>ManifestContains\<close> and
  the calls of \<open>SetCurrentFile\<close>.
\<close>

record manifest_env =
  manifest_new :: Status
  manifest_outcomes :: "(Status \<times> nat) list"
  manifest_sync :: Status
  manifest_reads :: read_env
  current_env :: env_outcomes

definition set_outcomes :: "(Status \<times> nat) list \<Rightarrow> Writer \<Rightarrow> Writer" where
  "set_outcomes os w = w\<lparr>dest := (dest w)\<lparr>outcomes := os\<rparr>\<rparr>"

definition CompleteEdit :: "VersionSet \<Rightarrow> VersionEdit \<Rightarrow> VersionEdit" where
  "CompleteEdit vs edit =
     (let edit = (if has_log_number edit then edit else SetLogNumber (vs_log_number vs) edit);
          edit = (if has_prev_log_number edit then edit else SetPrevLogNumber (vs_prev_log vs) edit)
      in SetLastSequence (vs_last_sequence vs) (SetNextFile (vs_next_file vs) edit))"

definition OpenManifest :: "manifest_env \<Rightarrow> file_system \<Rightarrow> VersionSet \<Rightarrow> Status \<times> Writer option \<times> file_system" where
  "OpenManifest env fs vs =
     (case vs_descriptor_log vs of
        Some lg \<Rightarrow> (Status_OK, Some (set_outcomes (manifest_outcomes env) lg), fs)
      | None \<Rightarrow>
          if \<not> Status_ok (manifest_new env) then (manifest_new env, None, fs)
          else
            let (s, lg) = WriteSnapshot vs (Writer_new \<lparr>contents = [], outcomes = manifest_outcomes env\<rparr>)
            in (s, Some lg, AList.update (DescriptorFileName (vs_dbname vs) (vs_manifest vs)) (written lg) fs))"

definition AppendManifest ::
    "manifest_env \<Rightarrow> file_system \<Rightarrow> VersionSet \<Rightarrow> Writer \<Rightarrow> VersionEdit \<Rightarrow> Status \<times> Writer \<times> file_system" where
  "AppendManifest env fs vs lg edit =
     (let rec = VersionEdit_EncodeTo edit [];
          (s, lg) = AddRecord lg rec;
          s = (if Status_ok s then manifest_sync env else s);
          fs = AList.update (DescriptorFileName (vs_dbname vs) (vs_manifest vs)) (written lg) fs;
          s = (if \<not> Status_ok s \<and> ManifestContains (manifest_reads env) fs vs rec then Status_OK else s)
      in (s, lg, fs))"

definition LogAndApply ::
    "manifest_env \<Rightarrow> file_system \<Rightarrow> VersionSet \<Rightarrow> VersionEdit \<Rightarrow> Status \<times> VersionSet \<times> file_system" where
  "LogAndApply env fs vs edit =
     (let edit = CompleteEdit vs edit;
          (b, cps) = Builder_Apply edit (Builder_new (vs_current vs)) (vs_compact_pointer vs);
          v = Finalize (SaveTo b Version_new);
          vs = vs\<lparr>vs_compact_pointer := cps\<rparr>;
          creates = (vs_descriptor_log vs = None);
          (s, lg, fs) = OpenManifest env fs vs;
          (s, lg, fs) =
            (case lg of
               None \<Rightarrow> (s, lg, fs)
             | Some w \<Rightarrow>
                 if Status_ok s
                 then (case AppendManifest env fs vs w edit of (s, w, fs) \<Rightarrow> (s, Some w, fs))
                 else (s, lg, fs));
          (s, fs) = (if Status_ok s \<and> creates
                     then SetCurrentFile (current_env env) fs (vs_dbname vs) (vs_manifest vs) else (s, fs));
          lg = map_option (set_outcomes []) lg
      in if Status_ok s then
           (s, (AppendVersion v vs)\<lparr>vs_log_number := log_number edit, vs_prev_log := prev_log_number edit,
                                   vs_descriptor_log := lg\<rparr>, fs)
         else if creates then
           (s, vs\<lparr>vs_descriptor_log := None\<rparr>,
            AList.delete (DescriptorFileName (vs_dbname vs) (vs_manifest vs)) fs)
         else (s, vs\<lparr>vs_descriptor_log := lg\<rparr>, fs))"

section \<open>Recovery\<close>

text \<open>A number read from the manifest, with its flag \<^verbatim>\<open>have_...\<close>, is an option.\<close>

record RecoverState =
  rec_builder :: Builder
  rec_pointers :: "bytes list"
  rec_log :: "u64 option"
  rec_prev_log :: "u64 option"
  rec_next_file :: "u64 option"
  rec_last_sequence :: "u64 option"

text \<open>The reporter keeps the first error.\<close>

definition LogReporter :: "Status \<Rightarrow> (u64 \<times> Status) list \<Rightarrow> Status" where
  "LogReporter s rs = fold (\<lambda>(n, e) s. if Status_ok s then e else s) rs s"

definition Recover_record :: "bytes \<Rightarrow> RecoverState \<Rightarrow> Status \<times> RecoverState" where
  "Recover_record rec st =
     (let (s, edit) = VersionEdit_DecodeFrom VersionEdit_new rec;
          s = (if Status_ok s \<and> has_comparator edit \<and> comparator_name edit \<noteq> comparator_Name
               then Status_InvalidArgument
                 (comparator_name edit @ cstr '' does not match existing comparator '') comparator_Name
               else s);
          st = (if Status_ok s
                then (case Builder_Apply edit (rec_builder st) (rec_pointers st) of
                        (b, cps) \<Rightarrow> st\<lparr>rec_builder := b, rec_pointers := cps\<rparr>)
                else st);
          st = (if has_log_number edit then st\<lparr>rec_log := Some (log_number edit)\<rparr> else st);
          st = (if has_prev_log_number edit then st\<lparr>rec_prev_log := Some (prev_log_number edit)\<rparr> else st);
          st = (if has_next_file_number edit then st\<lparr>rec_next_file := Some (next_file_number edit)\<rparr> else st);
          st = (if has_last_sequence edit then st\<lparr>rec_last_sequence := Some (last_sequence edit)\<rparr> else st)
      in (s, st))"

function Recover_loop :: "Reader \<Rightarrow> Status \<Rightarrow> RecoverState \<Rightarrow> Status \<times> RecoverState" where
  "Recover_loop r s st =
     (case ReadRecord r of (rec, r') \<Rightarrow>
        let s = LogReporter s (drop (length (reports r)) (reports r')) in
        case rec of
          None \<Rightarrow> (s, st)
        | Some x \<Rightarrow> if Status_ok s then (case Recover_record x st of (s, st) \<Rightarrow> Recover_loop r' s st) else (s, st))"
  by pat_completeness auto
termination
  by (relation "measure (\<lambda>(r, s, st). reader_left r)") (auto dest: ReadRecord_left [OF sym])

declare Recover_loop.simps [simp del]

definition Recover_check :: "RecoverState \<Rightarrow> Status" where
  "Recover_check st =
     (if rec_next_file st = None then Status_Corruption (cstr ''no meta-nextfile entry in descriptor'') []
      else if rec_log st = None then Status_Corruption (cstr ''no meta-lognumber entry in descriptor'') []
      else if rec_last_sequence st = None
      then Status_Corruption (cstr ''no last-sequence-number entry in descriptor'') []
      else Status_OK)"

definition value_or_0 :: "u64 option \<Rightarrow> u64" where
  "value_or_0 x = (case x of None \<Rightarrow> 0 | Some n \<Rightarrow> n)"

definition Recover_manifest :: "VersionSet \<Rightarrow> SequentialFile \<Rightarrow> Status \<times> VersionSet" where
  "Recover_manifest vs file =
     (let (s, st) = Recover_loop (Reader_new file True True 0) Status_OK
            \<lparr>rec_builder = Builder_new (vs_current vs), rec_pointers = vs_compact_pointer vs,
             rec_log = None, rec_prev_log = None, rec_next_file = None, rec_last_sequence = None\<rparr>;
          vs = vs\<lparr>vs_compact_pointer := rec_pointers st\<rparr>
      in if \<not> Status_ok s then (s, vs)
         else
           let s = Recover_check st;
               vs = MarkFileNumberUsed (value_or_0 (rec_prev_log st)) vs;
               vs = MarkFileNumberUsed (value_or_0 (rec_log st)) vs
           in if \<not> Status_ok s then (s, vs)
              else
                let v = Finalize (SaveTo (rec_builder st) Version_new)
                in (s, (AppendVersion v vs)\<lparr>vs_manifest := value_or_0 (rec_next_file st),
                     vs_next_file := value_or_0 (rec_next_file st) + 1,
                     vs_last_sequence := value_or_0 (rec_last_sequence st),
                     vs_log_number := value_or_0 (rec_log st),
                     vs_prev_log := value_or_0 (rec_prev_log st)\<rparr>))"

definition Recover :: "read_env \<Rightarrow> file_system \<Rightarrow> VersionSet \<Rightarrow> Status \<times> VersionSet" where
  "Recover env fs vs =
     (case ReadFileToString env fs (CurrentFileName (vs_dbname vs)) of (s, current) \<Rightarrow>
        if \<not> Status_ok s then (s, vs)
        else if current = [] \<or> last current \<noteq> 0x0a
        then (Status_Corruption (cstr ''CURRENT file does not end with newline'') [], vs)
        else
          let current = butlast current;
              dscname = vs_dbname vs @ cstr ''/'' @ current
          in (case NewSequentialFile env fs dscname of
                Inl s \<Rightarrow> (s, vs)
              | Inr file \<Rightarrow> Recover_manifest vs file))"

text \<open>The files that a version still in use needs; \<open>old\<close> are the versions kept by readers.\<close>

definition AddLiveFiles :: "Version list \<Rightarrow> VersionSet \<Rightarrow> u64 set \<Rightarrow> u64 set" where
  "AddLiveFiles old vs live =
     live \<union> set (concat (map (\<lambda>v. map number (concat (take kNumLevels (vfiles v)))) (old @ [vs_current vs])))"

section \<open>Lemmas on the builder\<close>

text \<open>The order of files, as a key.\<close>

definition file_rank :: "FileMetaData \<Rightarrow> bytes \<times> int \<times> u64" where
  "file_rank f = (ExtractUserKey (smallest f), - uint (ExtractTag (smallest f)), number f)"

lemma BySmallestKey_rank: "BySmallestKey f g \<longleftrightarrow> file_rank f < file_rank g"
  by (auto simp: BySmallestKey_def file_rank_def less_prod_def' Let_def InternalKeyComparator_Compare_less
      InternalKeyComparator_Compare_zero Bytewise_Compare_def Slice_compare_order word_less_def not_less word_uint_eq_iff)

lemma sorted_files_unique:
  assumes "sorted_wrt BySmallestKey xs" "sorted_wrt BySmallestKey ys" "set xs = set ys"
  shows "xs = ys"
proof -
  have s: "sorted_wrt (<) (map file_rank xs)" "sorted_wrt (<) (map file_rank ys)"
    using assms(1,2) by (simp_all add: sorted_wrt_map BySmallestKey_rank [abs_def])
  then have "inj_on file_rank (set xs \<union> set ys)" using assms(3) by (simp add: strict_sorted_iff distinct_map)
  then show ?thesis
    using s assms(3) map_sorted_distinct_set_unique [of file_rank xs ys] by (auto simp: strict_sorted_iff)
qed

lemma FileSet_insert_sorted: "sorted_wrt BySmallestKey fs \<Longrightarrow> sorted_wrt BySmallestKey (FileSet_insert f fs)"
  and set_FileSet_insert: "file_rank f \<notin> file_rank ` set fs \<Longrightarrow> set (FileSet_insert f fs) = insert f (set fs)"
  and set_FileSet_insert_subset: "set (FileSet_insert f fs) \<subseteq> insert f (set fs)"
proof (induction fs)
  case (Cons g gs)
  { case 1 then show ?case using Cons.IH(3) Cons.IH(1) by (auto simp: BySmallestKey_rank) }
  { case 2 then show ?case using Cons.IH(2) by (auto simp: BySmallestKey_rank) }
  { case 3 then show ?case using Cons.IH(3) by auto }
qed simp_all

lemma FileSet_insert_last:
  "sorted_wrt BySmallestKey (fs @ [f]) \<Longrightarrow> FileSet_insert f fs = fs @ [f]"
  by (induction fs) (auto simp: BySmallestKey_rank)

lemma sorted_fold_FileSet_insert: "sorted_wrt BySmallestKey s \<Longrightarrow> sorted_wrt BySmallestKey (fold FileSet_insert fs s)"
  by (induction fs arbitrary: s) (auto simp: FileSet_insert_sorted)

lemma rank_number: "file_rank f = file_rank g \<Longrightarrow> number f = number g"
  by (simp add: file_rank_def)

lemma set_fold_FileSet_insert:
  "distinct (map number fs) \<Longrightarrow> number ` set fs \<inter> number ` set s = {} \<Longrightarrow>
   set (fold FileSet_insert fs s) = set fs \<union> set s"
proof (induction fs arbitrary: s)
  case (Cons f fs)
  then have "number f \<notin> number ` set s" by auto
  then have "file_rank f \<notin> file_rank ` set s" using rank_number by (metis imageE imageI)
  then have eq: "set (FileSet_insert f s) = insert f (set s)" by (rule set_FileSet_insert)
  have "set (fold FileSet_insert fs (FileSet_insert f s)) = set fs \<union> set (FileSet_insert f s)"
    using Cons.prems by (intro Cons.IH) (auto simp: eq)
  then show ?case by (auto simp: eq)
qed simp

lemma fold_FileSet_insert_sorted:
  "sorted_wrt BySmallestKey (s @ fs) \<Longrightarrow> fold FileSet_insert fs s = s @ fs"
proof (induction fs arbitrary: s)
  case (Cons f fs)
  have "FileSet_insert f s = s @ [f]" using Cons.prems by (intro FileSet_insert_last) (simp add: sorted_wrt_append)
  then show ?case using Cons.IH [of "s @ [f]"] Cons.prems by simp
qed simp

fun merge_files :: "files \<Rightarrow> files \<Rightarrow> files" where
  "merge_files bs [] = bs"
| "merge_files bs (a # as) =
     takeWhile (\<lambda>f. \<not> BySmallestKey a f) bs @ a # merge_files (dropWhile (\<lambda>f. \<not> BySmallestKey a f) bs) as"

lemma fold_MaybeAddFile: "fold (MaybeAddFile del) xs fs = fs @ filter (\<lambda>f. number f \<notin> set del) xs"
  by (induction xs arbitrary: fs) (simp_all add: MaybeAddFile_def)

lemma SaveLevel_eq: "SaveLevel del bs as fs = fs @ filter (\<lambda>f. number f \<notin> set del) (merge_files bs as)"
  by (induction as arbitrary: bs fs) (simp_all add: fold_MaybeAddFile MaybeAddFile_def Let_def)

lemma merge_files_Nil [simp]: "merge_files [] as = as"
  by (induction as) simp_all

lemma set_merge_files: "set (merge_files bs as) = set bs \<union> set as"
proof (induction as arbitrary: bs)
  case (Cons a as)
  have "set (takeWhile (\<lambda>f. \<not> BySmallestKey a f) bs) \<union> set (dropWhile (\<lambda>f. \<not> BySmallestKey a f) bs) = set bs"
    by (metis set_append takeWhile_dropWhile_id)
  with Cons show ?case by auto
qed simp

lemma dropWhile_after: 
  assumes "sorted_wrt BySmallestKey bs" "x \<in> set (dropWhile (\<lambda>f. \<not> BySmallestKey a f) bs)"
  shows "BySmallestKey a x"
  using assms by (induction bs) (auto simp: BySmallestKey_rank split: if_splits)

lemma sorted_merge_files:
  "sorted_wrt BySmallestKey bs \<Longrightarrow> sorted_wrt BySmallestKey as \<Longrightarrow> file_rank ` set bs \<inter> file_rank ` set as = {} \<Longrightarrow>
   sorted_wrt BySmallestKey (merge_files bs as)"
proof (induction as arbitrary: bs)
  case (Cons a as)
  let ?t = "takeWhile (\<lambda>f. \<not> BySmallestKey a f) bs" and ?d = "dropWhile (\<lambda>f. \<not> BySmallestKey a f) bs"
  have split: "bs = ?t @ ?d" by simp
  then have sorted: "sorted_wrt BySmallestKey ?t" "sorted_wrt BySmallestKey ?d" "\<forall>x \<in> set ?t. \<forall>y \<in> set ?d. BySmallestKey x y"
    using Cons.prems(1) sorted_wrt_append by metis+
  have sub: "set ?t \<subseteq> set bs" "set ?d \<subseteq> set bs" by (auto dest: set_takeWhileD set_dropWhileD)
  have before: "BySmallestKey x a" if "x \<in> set ?t" for x
  proof -
    have "\<not> BySmallestKey a x" using that by (auto dest: set_takeWhileD)
    moreover have "file_rank a \<notin> file_rank ` set bs" using Cons.prems(3) by auto
    moreover have "file_rank x \<in> file_rank ` set bs" using that sub(1) by (intro imageI) (rule subsetD)
    ultimately show ?thesis unfolding BySmallestKey_rank by (metis linorder_neqE)
  qed
  have "file_rank ` set ?d \<inter> file_rank ` set as = {}"
    using Cons.prems(3) image_mono [OF sub(2), of file_rank] by auto
  then have IH: "sorted_wrt BySmallestKey (merge_files ?d as)"
    using Cons.prems(2) sorted(2) by (intro Cons.IH) simp_all
  have after: "BySmallestKey a y" if "y \<in> set (merge_files ?d as)" for y
  proof -
    have "y \<in> set ?d \<or> y \<in> set as" using that by (simp add: set_merge_files)
    then show ?thesis using dropWhile_after [OF Cons.prems(1), of y a] Cons.prems(2) by (elim disjE) simp_all
  qed
  have "BySmallestKey x y" if "x \<in> set ?t" "y \<in> set (merge_files ?d as)" for x y
    using before [OF that(1)] after [OF that(2)] unfolding BySmallestKey_rank by (rule less_trans)
  then show ?case
    using sorted(1) before IH after unfolding merge_files.simps sorted_wrt_append sorted_wrt.simps list.set by blast
qed simp

text \<open>What an edit does to one level.\<close>

definition at_level :: "nat \<Rightarrow> (nat \<times> 'a) list \<Rightarrow> 'a list" where
  "at_level l xs = map snd (filter (\<lambda>p. fst p = l) xs)"

definition refresh :: "FileMetaData \<Rightarrow> FileMetaData" where
  "refresh f = f\<lparr>refs := 1, allowed_seeks := initial_seeks (file_size f)\<rparr>"

lemma refresh_simps [simp]:
  "number (refresh f) = number f" "smallest (refresh f) = smallest f" "largest (refresh f) = largest f"
  "file_size (refresh f) = file_size f" "refresh (refresh f) = refresh f" "file_rank (refresh f) = file_rank f"
  "BySmallestKey (refresh f) (refresh g) = BySmallestKey f g"
  by (simp_all add: refresh_def file_rank_def BySmallestKey_rank)

lemma Apply_deleted_level:
  "l < length ls \<Longrightarrow> fold Apply_deleted ds ls ! l =
     (ls ! l)\<lparr>level_deleted := fold set_insert (at_level l ds) (level_deleted (ls ! l))\<rparr>"
  "length (fold Apply_deleted ds ls) = length ls"
  by (induction ds arbitrary: ls) (auto simp: Apply_deleted_def nth_list_update at_level_def)

lemma Apply_new_level:
  "l < length ls \<Longrightarrow> fold Apply_new nfs ls ! l =
     (ls ! l)\<lparr>level_deleted := fold remove1 (map number (at_level l nfs)) (level_deleted (ls ! l)),
             level_added := fold FileSet_insert (map refresh (at_level l nfs)) (level_added (ls ! l))\<rparr>"
  "length (fold Apply_new nfs ls) = length ls"
  by (induction nfs arbitrary: ls) (auto simp: Apply_new_def nth_list_update refresh_def Let_def at_level_def)

lemma distinct_set_insert: "distinct xs \<Longrightarrow> distinct (set_insert x xs)"
  by (simp add: set_insert_def distinct_insort)

lemma fold_set_insert:
  "distinct xs \<Longrightarrow> distinct (fold set_insert ys xs) \<and> set (fold set_insert ys xs) = set ys \<union> set xs"
  by (induction ys arbitrary: xs) (auto simp: distinct_set_insert set_set_insert)

lemma fold_remove1:
  "distinct xs \<Longrightarrow> distinct (fold remove1 ys xs) \<and> set (fold remove1 ys xs) = set xs - set ys"
  by (induction ys arbitrary: xs) auto

section \<open>Edits one by one and all at once\<close>

definition level_state_ok :: "LevelState \<Rightarrow> bool" where
  "level_state_ok ls \<longleftrightarrow> distinct (level_deleted ls) \<and> sorted_wrt BySmallestKey (level_added ls) \<and>
     distinct (map number (level_added ls))"

definition level_result :: "LevelState \<Rightarrow> files" where
  "level_result ls = filter (\<lambda>f. number f \<notin> set (level_deleted ls)) (level_added ls)"

text \<open>The version after one edit, as \<open>LogAndApply\<close> computes it.\<close>

definition apply_edit :: "VersionEdit \<Rightarrow> Version \<Rightarrow> Version" where
  "apply_edit e v = SaveTo (fst (Builder_Apply e (Builder_new v) [])) Version_new"

text \<open>The files an edit adds to a level have numbers that the level has not seen before.\<close>

definition fresh_at :: "VersionEdit \<Rightarrow> nat \<Rightarrow> u64 set \<Rightarrow> bool" where
  "fresh_at e l ns \<longleftrightarrow> distinct (map number (at_level l (new_files e))) \<and>
     number ` set (at_level l (new_files e)) \<inter> ns = {}"

definition apply_level :: "VersionEdit \<Rightarrow> nat \<Rightarrow> LevelState \<Rightarrow> LevelState" where
  "apply_level e l ls = ls
     \<lparr>level_deleted := fold remove1 (map number (at_level l (new_files e)))
        (fold set_insert (at_level l (deleted_files e)) (level_deleted ls)),
      level_added := fold FileSet_insert (map refresh (at_level l (new_files e))) (level_added ls)\<rparr>"

lemma Builder_Apply_level:
  "length (levels b) = kNumLevels \<Longrightarrow> l < kNumLevels \<Longrightarrow>
   levels (fst (Builder_Apply e b cps)) ! l = apply_level e l (levels b ! l)"
  "length (levels (fst (Builder_Apply e b cps))) = length (levels b)"
  "base (fst (Builder_Apply e b cps)) = base b"
  by (simp_all add: Builder_Apply_def apply_level_def Apply_new_level Apply_deleted_level Let_def)

lemma distinct_numbers_insert:
  "distinct (map number s) \<Longrightarrow> number f \<notin> number ` set s \<Longrightarrow> distinct (map number (FileSet_insert f s))"
proof (induction s)
  case (Cons g gs)
  then show ?case using set_FileSet_insert_subset [of f gs] by (auto simp: image_iff)
qed simp

lemma disjoint_insert: "X \<subseteq> insert a Y \<Longrightarrow> a \<notin> A \<Longrightarrow> A \<inter> Y = {} \<Longrightarrow> A \<inter> X = {}"
  by blast

lemma distinct_numbers_fold:
  "distinct (map number s) \<Longrightarrow> distinct (map number fs) \<Longrightarrow> number ` set fs \<inter> number ` set s = {} \<Longrightarrow>
   distinct (map number (fold FileSet_insert fs s))"
proof (induction fs arbitrary: s)
  case (Cons f fs)
  have f: "number f \<notin> number ` set s" "number f \<notin> number ` set fs" "number ` set fs \<inter> number ` set s = {}"
    using Cons.prems by simp_all
  have "number ` set (FileSet_insert f s) \<subseteq> insert (number f) (number ` set s)"
    using image_mono [OF set_FileSet_insert_subset [of f s], of number] by simp
  from disjoint_insert [OF this f(2,3)] show ?case
    using Cons.prems(1,2) f(1) by (simp add: Cons.IH distinct_numbers_insert)
qed simp

lemma apply_level_ok:
  assumes "level_state_ok ls" "fresh_at e l (number ` set (level_added ls))"
  shows "level_state_ok (apply_level e l ls)"
    and "set (level_deleted (apply_level e l ls)) =
      (set (at_level l (deleted_files e)) \<union> set (level_deleted ls)) - number ` set (at_level l (new_files e))"
    and "set (level_added (apply_level e l ls)) = refresh ` set (at_level l (new_files e)) \<union> set (level_added ls)"
proof -
  let ?new = "at_level l (new_files e)"
  note ok = assms(1) [unfolded level_state_ok_def] and fresh = assms(2) [unfolded fresh_at_def]
  note d1 = fold_set_insert [of "level_deleted ls" "at_level l (deleted_files e)"]
  note d2 = fold_remove1 [of "fold set_insert (at_level l (deleted_files e)) (level_deleted ls)" "map number ?new"]
  have numbers: "map number (map refresh ?new) = map number ?new" by simp
  have new: "distinct (map number (map refresh ?new))" "number ` set (map refresh ?new) \<inter> number ` set (level_added ls) = {}"
    using fresh unfolding numbers by (simp_all add: image_image)
  show "level_state_ok (apply_level e l ls)"
    unfolding level_state_ok_def
    using ok d1 d2 sorted_fold_FileSet_insert distinct_numbers_fold [OF _ new] by (simp add: apply_level_def)
  show "set (level_deleted (apply_level e l ls)) =
      (set (at_level l (deleted_files e)) \<union> set (level_deleted ls)) - number ` set ?new"
    using ok d1 d2 by (simp add: apply_level_def)
  show "set (level_added (apply_level e l ls)) = refresh ` set ?new \<union> set (level_added ls)"
    using set_fold_FileSet_insert [OF new] by (simp add: apply_level_def)
qed

lemma map_refresh_sorted: "sorted_wrt BySmallestKey (map refresh fs) \<longleftrightarrow> sorted_wrt BySmallestKey fs"
  by (simp add: sorted_wrt_map)

text \<open>The files of a level after one edit.\<close>

lemma apply_edit_level:
  assumes "l < kNumLevels"
  shows "level_files (apply_edit e v) l =
    filter (\<lambda>f. number f \<notin> set (level_deleted (apply_level e l \<lparr>level_deleted = [], level_added = []\<rparr>)))
      (merge_files (level_files v l) (level_added (apply_level e l \<lparr>level_deleted = [], level_added = []\<rparr>)))"
  using assms
  by (simp add: apply_edit_def SaveTo_def SaveLevel_eq Builder_Apply_level Builder_new_def Version_new_def)

lemma set_apply_edit:
  assumes "l < kNumLevels" "fresh_at e l ns"
  shows "set (level_files (apply_edit e v) l) =
    {f \<in> set (level_files v l) \<union> refresh ` set (at_level l (new_files e)).
       number f \<notin> set (at_level l (deleted_files e)) - number ` set (at_level l (new_files e))}"
proof -
  have "fresh_at e l (number ` set (level_added \<lparr>level_deleted = [], level_added = []\<rparr>))"
    using assms(2) by (simp add: fresh_at_def)
  note ok = apply_level_ok [OF _ this]
  show ?thesis
    unfolding apply_edit_level [OF assms(1)] set_filter set_merge_files
    by (subst ok, simp add: level_state_ok_def) (subst ok, auto simp: level_state_ok_def)
qed

lemma sorted_apply_edit:
  assumes "l < kNumLevels" "fresh_at e l (number ` set (level_files v l))" "sorted_wrt BySmallestKey (level_files v l)"
  shows "sorted_wrt BySmallestKey (level_files (apply_edit e v) l)"
proof -
  let ?ls = "\<lparr>level_deleted = [], level_added = []\<rparr>"
  have "fresh_at e l (number ` set (level_added ?ls))" using assms(2) by (simp add: fresh_at_def)
  note ok = apply_level_ok [OF _ this]
  have "sorted_wrt BySmallestKey (level_added (apply_level e l ?ls))"
    using ok(1) by (simp add: level_state_ok_def)
  moreover have "file_rank x \<noteq> file_rank y"
    if "x \<in> set (level_files v l)" "y \<in> set (level_added (apply_level e l ?ls))" for x y
  proof -
    have "y \<in> refresh ` set (at_level l (new_files e))"
      using that(2) by (subst (asm) ok) (simp_all add: level_state_ok_def)
    then have "number y \<in> number ` set (at_level l (new_files e))" by force
    then have "number x \<noteq> number y" using assms(2) that(1) unfolding fresh_at_def by (metis IntI empty_iff imageI)
    then show ?thesis using rank_number by blast
  qed
  ultimately show ?thesis
    unfolding apply_edit_level [OF assms(1)]
    by (intro sorted_wrt_filter sorted_merge_files [OF assms(3)]) blast+
qed

text \<open>
  A builder that went through all edits of a manifest has the same files as the version to
  which the edits were applied one by one.
\<close>

lemma apply_level_result:
  assumes l: "l < kNumLevels" and ok: "level_state_ok ls" and eq: "map refresh (level_files v l) = level_result ls"
    and fresh: "fresh_at e l (number ` set (level_added ls))"
  shows "map refresh (level_files (apply_edit e v) l) = level_result (apply_level e l ls)"
proof (rule sorted_files_unique)
  let ?new = "at_level l (new_files e)"
  have sub: "refresh ` set (level_files v l) = {f \<in> set (level_added ls). number f \<notin> set (level_deleted ls)}"
    using arg_cong [OF eq, of set] by (simp add: level_result_def)
  then have "number ` set (level_files v l) \<subseteq> number ` set (level_added ls)"
    by (metis (no_types, lifting) image_eqI mem_Collect_eq image_subsetI refresh_simps(1))
  then have fresh': "fresh_at e l (number ` set (level_files v l))" using fresh by (auto simp: fresh_at_def)
  have "sorted_wrt BySmallestKey (level_files v l)"
    using ok eq by (metis level_result_def level_state_ok_def map_refresh_sorted sorted_wrt_filter)
  then show "sorted_wrt BySmallestKey (map refresh (level_files (apply_edit e v) l))"
    using sorted_apply_edit [OF l fresh'] by (simp add: map_refresh_sorted)
  show "sorted_wrt BySmallestKey (level_result (apply_level e l ls))"
    using apply_level_ok(1) [OF ok fresh] by (simp add: level_state_ok_def level_result_def sorted_wrt_filter)
  have disjoint: "number f \<notin> number ` set ?new" if "f \<in> set (level_added ls)" for f
    using that fresh by (auto simp: fresh_at_def)
  let ?dead = "set (at_level l (deleted_files e)) - number ` set ?new"
  have "set (map refresh (level_files (apply_edit e v) l)) =
      {f \<in> refresh ` set (level_files v l) \<union> refresh ` set ?new. number f \<notin> ?dead}"
    unfolding set_map set_apply_edit [OF l fresh] by (auto simp: image_iff) (metis refresh_simps(1,5))+
  also have "\<dots> = {f \<in> refresh ` set ?new \<union> set (level_added ls).
      number f \<notin> (set (at_level l (deleted_files e)) \<union> set (level_deleted ls)) - number ` set ?new}"
    unfolding sub using disjoint by auto
  finally show "set (map refresh (level_files (apply_edit e v) l)) = set (level_result (apply_level e l ls))"
    unfolding level_result_def set_filter apply_level_ok(2,3) [OF ok fresh] .
qed


section \<open>Reading a manifest\<close>

abbreviation encode_edit :: "VersionEdit \<Rightarrow> bytes" where
  "encode_edit e \<equiv> VersionEdit_EncodeTo e []"

abbreviation manifest_log :: "VersionEdit list \<Rightarrow> Writer" where
  "manifest_log es \<equiv> AddRecords (Writer_new new_log) (map encode_edit es)"

definition edit_ok :: "VersionEdit \<Rightarrow> bool" where
  "edit_ok e \<longleftrightarrow> encodable e \<and> (has_comparator e \<longrightarrow> comparator_name e = comparator_Name)"

definition apply_builder :: "VersionEdit \<Rightarrow> Builder \<Rightarrow> Builder" where
  "apply_builder e b = fst (Builder_Apply e b [])"

definition set_pointers :: "VersionEdit \<Rightarrow> bytes list \<Rightarrow> bytes list" where
  "set_pointers e cps = fold (\<lambda>(level, key) cp. cp[level := key]) (compact_pointers e) cps"

lemma Builder_Apply_eq: "Builder_Apply e b cps = (apply_builder e b, set_pointers e cps)"
  by (simp add: Builder_Apply_def apply_builder_def set_pointers_def Let_def)

definition absorb :: "VersionEdit \<Rightarrow> RecoverState \<Rightarrow> RecoverState" where
  "absorb e st = st
     \<lparr>rec_builder := apply_builder e (rec_builder st),
      rec_pointers := set_pointers e (rec_pointers st),
      rec_log := (if has_log_number e then Some (log_number e) else rec_log st),
      rec_prev_log := (if has_prev_log_number e then Some (prev_log_number e) else rec_prev_log st),
      rec_next_file := (if has_next_file_number e then Some (next_file_number e) else rec_next_file st),
      rec_last_sequence := (if has_last_sequence e then Some (last_sequence e) else rec_last_sequence st)\<rparr>"

lemma Recover_record_ok:
  assumes "edit_ok e"
  shows "Recover_record (encode_edit e) st = (Status_OK, absorb e st)"
proof -
  have "VersionEdit_DecodeFrom VersionEdit_new (encode_edit e) = (Status_OK, e)"
    using VersionEdit_DecodeFrom_EncodeTo [of e VersionEdit_new] assms
    by (simp add: edit_ok_def VersionEdit_new_def)
  then show ?thesis
    using assms [unfolded edit_ok_def]
    by (cases "has_log_number e"; cases "has_prev_log_number e"; cases "has_next_file_number e";
        cases "has_last_sequence e"; cases "has_comparator e") (simp_all add: Recover_record_def absorb_def Builder_Apply_eq)
qed

lemma Recover_loop_log:
  assumes "wf_writer w" "reader_at r (written (AddRecords w (map encode_edit es))) (length (written w))"
    and "list_all edit_ok es"
  shows "Recover_loop r Status_OK st = (Status_OK, fold absorb es st)"
  using assms
proof (induction es arbitrary: w r st)
  case Nil
  then obtain r' where "ReadRecord r = (None, r')" "reports r' = reports r"
    using ReadRecord_end [of r "written w"] by auto
  then show ?case by (subst Recover_loop.simps) (simp add: LogReporter_def)
next
  case (Cons e es)
  obtain s w' where w': "AddRecord w (encode_edit e) = (s, w')" by fastforce
  note fr = AddRecord_fragments [OF Cons.prems(1) w']
  then obtain rest where "written (AddRecords w' (map encode_edit es)) = written w' @ rest"
    using AddRecords_extends by blast
  with ReadRecord_after [OF Cons.prems(1) w'] Cons.prems(2) w'
  obtain r' where "ReadRecord r = (Some (encode_edit e), r')"
    "reader_at r' (written (AddRecords w' (map encode_edit es))) (length (written w'))" "reports r' = reports r"
    by auto
  then show ?case using Cons.IH [of w' r'] Cons.prems(3) fr
    by (subst Recover_loop.simps) (simp add: LogReporter_def Recover_record_ok)
qed

definition replay :: "VersionEdit list \<Rightarrow> Builder" where
  "replay es = fold apply_builder es (Builder_new Version_new)"

definition replay_pointers :: "VersionEdit list \<Rightarrow> bytes list" where
  "replay_pointers es = fold set_pointers es (replicate kNumLevels [])"

lemma fold_absorb:
  "rec_builder (fold absorb es st) = fold apply_builder es (rec_builder st)"
  "rec_pointers (fold absorb es st) =
     fold set_pointers es (rec_pointers st)"
  by (induction es arbitrary: st) (simp_all add: absorb_def)

lemma replay_levels:
  "length (levels (replay es)) = kNumLevels" "base (replay es) = Version_new"
  "l < kNumLevels \<Longrightarrow> levels (replay es) ! l = fold (\<lambda>e. apply_level e l) es \<lparr>level_deleted = [], level_added = []\<rparr>"
proof -
  have "length (levels (fold apply_builder es b)) = length (levels b) \<and>
      base (fold apply_builder es b) = base b \<and>
      (length (levels b) = kNumLevels \<longrightarrow> l < kNumLevels \<longrightarrow> levels (fold apply_builder es b) ! l =
        fold (\<lambda>e. apply_level e l) es (levels b ! l))" for b
    by (induction es arbitrary: b) (simp_all add: Builder_Apply_level apply_builder_def)
  from this [of "Builder_new Version_new"] show "length (levels (replay es)) = kNumLevels" "base (replay es) = Version_new"
    "l < kNumLevels \<Longrightarrow> levels (replay es) ! l = fold (\<lambda>e. apply_level e l) es \<lparr>level_deleted = [], level_added = []\<rparr>"
    by (simp_all add: replay_def Builder_new_def)
qed

text \<open>The version that recovery installs.\<close>

lemma SaveTo_replay: "vfiles (SaveTo (replay es) Version_new) = map (\<lambda>l. level_result (levels (replay es) ! l)) [0..<kNumLevels]"
  by (simp add: SaveTo_def SaveLevel_eq replay_levels(2) level_result_def Version_new_def)


text \<open>
  The state of the set of versions and of the file system agree: the open manifest holds the
  edits \<open>es\<close>, \<open>CURRENT\<close> names it, the last edit has the numbers of the set and all edits together
  give the current version.
\<close>

definition logged :: "VersionSet \<Rightarrow> VersionEdit \<Rightarrow> bool" where
  "logged vs e \<longleftrightarrow> has_log_number e \<and> has_prev_log_number e \<and> has_next_file_number e \<and> has_last_sequence e \<and>
     log_number e = vs_log_number vs \<and> prev_log_number e = vs_prev_log vs \<and>
     next_file_number e \<le> vs_next_file vs \<and> last_sequence e \<le> vs_last_sequence vs"

definition levels_ok :: "Version \<Rightarrow> VersionEdit list \<Rightarrow> bool" where
  "levels_ok v es \<longleftrightarrow> length (vfiles v) = kNumLevels \<and>
     (\<forall>l < kNumLevels. level_state_ok (levels (replay es) ! l) \<and>
        map refresh (level_files v l) = level_result (levels (replay es) ! l))"

definition current_names :: "file_system \<Rightarrow> bytes \<Rightarrow> u64 \<Rightarrow> bool" where
  "current_names fs db n \<longleftrightarrow>
     map_of fs (CurrentFileName db) = Some (cstr ''MANIFEST-'' @ pad6 (unat n) @ [0x0a])"

definition manifest_ok :: "file_system \<Rightarrow> VersionSet \<Rightarrow> VersionEdit list \<Rightarrow> bool" where
  "manifest_ok fs vs es \<longleftrightarrow>
     vs_descriptor_log vs = Some (manifest_log es) \<and>
     map_of fs (DescriptorFileName (vs_dbname vs) (vs_manifest vs)) = Some (written (manifest_log es)) \<and>
     current_names fs (vs_dbname vs) (vs_manifest vs) \<and>
     list_all edit_ok es \<and> es \<noteq> [] \<and> logged vs (last es) \<and> levels_ok (vs_current vs) es \<and>
     vs_compact_pointer vs = replay_pointers es"

text \<open>What recovery gives for the edits of a manifest.\<close>

definition recovered :: "bytes \<Rightarrow> VersionEdit list \<Rightarrow> files list \<Rightarrow> VersionSet" where
  "recovered db es fss = \<lparr>vs_dbname = db, vs_next_file = next_file_number (last es) + 1,
     vs_manifest = next_file_number (last es), vs_last_sequence = last_sequence (last es),
     vs_log_number = log_number (last es), vs_prev_log = prev_log_number (last es), vs_descriptor_log = None,
     vs_compact_pointer = replay_pointers es,
     vs_current = Finalize (Version_new\<lparr>vfiles := fss\<rparr>)\<rparr>"

lemma wf_new_log: "wf_writer (Writer_new new_log)"
  by (simp add: wf_writer_new)

lemma levels_ok_files:
  assumes "levels_ok v es"
  shows "map (\<lambda>l. level_result (levels (replay es) ! l)) [0..<kNumLevels] = map (map refresh) (vfiles v)"
  using assms by (auto simp: levels_ok_def intro!: nth_equalityI)

lemma Recover_edits:
  assumes dsc: "map_of fs (DescriptorFileName db n) = Some (written (manifest_log es))"
    and cur: "current_names fs db n" and es: "list_all edit_ok es" "es \<noteq> []"
    and last: "has_log_number (last es)" "has_prev_log_number (last es) \<or> length es = 1 \<and> prev_log_number (last es) = 0"
      "has_next_file_number (last es)" "has_last_sequence (last es)"
    and lv: "levels_ok v es"
  shows "Recover no_read_failures fs (VersionSet_new db) = (Status_OK, recovered db es (map (map refresh) (vfiles v)))"
proof -
  define st where "st = fold absorb es \<lparr>rec_builder = Builder_new Version_new, rec_pointers = replicate kNumLevels [],
             rec_log = None, rec_prev_log = None, rec_next_file = None, rec_last_sequence = None\<rparr>"
  have loop: "Recover_loop (open_log (written (manifest_log es)) True True) Status_OK
      \<lparr>rec_builder = Builder_new Version_new, rec_pointers = replicate kNumLevels [],
             rec_log = None, rec_prev_log = None, rec_next_file = None, rec_last_sequence = None\<rparr> = (Status_OK, st)"
    unfolding st_def
    by (intro Recover_loop_log [OF wf_new_log _ es(1)]) (simp add: Writer_new_def reader_at_new)
  have parts: "rec_builder st = replay es" "rec_pointers st = replay_pointers es"
    by (simp_all add: st_def fold_absorb replay_def replay_pointers_def)
  obtain es' e where "es = es' @ [e]" using es(2) by (metis rev_exhaust)
  then have nums: "rec_log st = Some (log_number (last es))" "value_or_0 (rec_prev_log st) = prev_log_number (last es)"
    "rec_next_file st = Some (next_file_number (last es))" "rec_last_sequence st = Some (last_sequence (last es))"
    using last by (auto simp: st_def absorb_def value_or_0_def)
  have "ReadFileToString no_read_failures fs (CurrentFileName db) =
      (Status_OK, cstr ''MANIFEST-'' @ pad6 (unat n) @ [0x0a])"
    using cur by (intro ReadFileToString_present) (simp add: current_names_def)
  moreover have "db @ cstr ''/'' @ butlast (cstr ''MANIFEST-'' @ pad6 (unat n) @ [0x0a]) = DescriptorFileName db n"
    by (simp add: DescriptorFileName_def butlast_append)
  moreover have "NewSequentialFile no_read_failures fs (DescriptorFileName db n) =
      Inr \<lparr>unread = written (manifest_log es), read_outcomes = [], skip_status = Status_OK\<rparr>"
    using dsc by (simp add: NewSequentialFile_def no_read_failures_def)
  ultimately have "Recover no_read_failures fs (VersionSet_new db) = Recover_manifest (VersionSet_new db)
      \<lparr>unread = written (manifest_log es), read_outcomes = [], skip_status = Status_OK\<rparr>"
    by (simp add: Recover_def VersionSet_new_def)
  also have "\<dots> = (Status_OK, recovered db es (map (map refresh) (vfiles v)))"
  proof -
    have "vfiles (SaveTo (replay es) Version_new) = map (map refresh) (vfiles v)"
      by (simp add: SaveTo_replay levels_ok_files [OF lv])
    then have "SaveTo (replay es) Version_new = Version_new\<lparr>vfiles := map (map refresh) (vfiles v)\<rparr>"
      by (simp add: SaveTo_def)
    then show ?thesis
      using loop nums parts
      by (simp add: Recover_manifest_def VersionSet_new_def recovered_def AppendVersion_def MarkFileNumberUsed_def
          Recover_check_def value_or_0_def [of "Some _"] Let_def)
  qed
  finally show ?thesis .
qed


section \<open>Writing a manifest\<close>

lemma AddRecords_snoc: "AddRecords w (xs @ [x]) = snd (AddRecord (AddRecords w xs) x)"
  by (induction xs arbitrary: w) simp_all

lemma wf_AddRecords: "wf_writer w \<Longrightarrow> wf_writer (AddRecords w xs)"
  by (induction xs arbitrary: w) (auto simp: AddRecord_fragments [OF _ prod.collapse [symmetric]])

lemma AddRecord_manifest: "AddRecord (manifest_log es) (encode_edit e) = (Status_OK, manifest_log (es @ [e]))"
  using AddRecord_fragments [OF wf_AddRecords [OF wf_new_log] prod.collapse [symmetric]]
  by (simp add: AddRecords_snoc prod_eq_iff)

lemma set_outcomes_manifest [simp]:
  "set_outcomes [] (AddRecords (Writer_new new_log) xs) = AddRecords (Writer_new new_log) xs"
  using wf_AddRecords [OF wf_new_log, of xs] by (simp add: wf_writer_def set_outcomes_def)

lemma CompleteEdit_fields [simp]:
  "new_files (CompleteEdit vs e) = new_files e" "deleted_files (CompleteEdit vs e) = deleted_files e"
  "compact_pointers (CompleteEdit vs e) = compact_pointers e"
  "has_comparator (CompleteEdit vs e) = has_comparator e" "comparator_name (CompleteEdit vs e) = comparator_name e"
  "has_log_number (CompleteEdit vs e)" "has_prev_log_number (CompleteEdit vs e)"
  "has_next_file_number (CompleteEdit vs e)" "has_last_sequence (CompleteEdit vs e)"
  "next_file_number (CompleteEdit vs e) = vs_next_file vs" "last_sequence (CompleteEdit vs e) = vs_last_sequence vs"
  by (simp_all add: CompleteEdit_def SetLogNumber_def SetPrevLogNumber_def SetNextFile_def SetLastSequence_def Let_def)

lemma edit_ok_Complete: "edit_ok e \<Longrightarrow> edit_ok (CompleteEdit vs e)"
proof -
  assume ok: "edit_ok e"
  then have "encodable (CompleteEdit vs e)"
    by (simp add: edit_ok_def CompleteEdit_def Let_def encodable_setters)
  with ok show ?thesis by (simp add: edit_ok_def)
qed

lemma apply_level_Complete [simp]: "apply_level (CompleteEdit vs e) l ls = apply_level e l ls"
  "fresh_at (CompleteEdit vs e) l ns = fresh_at e l ns" "set_pointers (CompleteEdit vs e) cps = set_pointers e cps"
  by (simp_all add: apply_level_def fresh_at_def set_pointers_def)

lemma apply_edit_Complete [simp]: "apply_edit (CompleteEdit vs e) v = apply_edit e v"
  by (simp add: apply_edit_def Builder_Apply_def Let_def)

text \<open>The numbers that a level has seen in the edits of a manifest.\<close>

definition used_numbers :: "VersionEdit list \<Rightarrow> nat \<Rightarrow> u64 set" where
  "used_numbers es l = number ` set (level_added (levels (replay es) ! l))"

definition fresh_edit :: "VersionEdit list \<Rightarrow> VersionEdit \<Rightarrow> bool" where
  "fresh_edit es e \<longleftrightarrow> (\<forall>l < kNumLevels. fresh_at e l (used_numbers es l))"

lemma replay_snoc: "l < kNumLevels \<Longrightarrow> levels (replay (es @ [e])) ! l = apply_level e l (levels (replay es) ! l)"
  by (simp add: replay_levels)

lemma length_apply_edit [simp]: "length (vfiles (apply_edit e v)) = kNumLevels"
  by (simp add: apply_edit_def SaveTo_def)

lemma levels_ok_snoc:
  "levels_ok v es \<Longrightarrow> fresh_edit es e \<Longrightarrow> levels_ok (apply_edit e v) (es @ [e])"
  using apply_level_result apply_level_ok(1)
  by (simp add: levels_ok_def replay_snoc fresh_edit_def used_numbers_def)

lemma levels_ok_cong: "vfiles v = vfiles v' \<Longrightarrow> levels_ok v es = levels_ok v' es"
  by (simp add: levels_ok_def)

lemma vfiles_Finalize [simp]: "vfiles (Finalize v) = vfiles v"
  by (simp add: Finalize_def split: prod.splits)

lemma used_numbers_snoc:
  assumes "levels_ok v es" "fresh_edit es e" "l < kNumLevels"
  shows "used_numbers (es @ [e]) l = number ` set (at_level l (new_files e)) \<union> used_numbers es l"
  using apply_level_ok(3) [of "levels (replay es) ! l" e l] assms
  by (simp add: used_numbers_def replay_snoc levels_ok_def fresh_edit_def image_Un image_image)

lemma replay_pointers_snoc: "replay_pointers (es @ [e]) = set_pointers e (replay_pointers es)"
  by (simp add: replay_pointers_def)

lemma AppendManifest_eq:
  "\<exists>s. AppendManifest env fs vs (manifest_log es) e =
     (s, manifest_log (es @ [e]),
      AList.update (DescriptorFileName (vs_dbname vs) (vs_manifest vs)) (written (manifest_log (es @ [e]))) fs) \<and>
     (Status_ok (manifest_sync env) \<longrightarrow> Status_ok s)"
  by (simp add: AppendManifest_def AddRecord_manifest Let_def)

text \<open>
  A call with an open manifest. Whether it reports success or not, the record is in the
  manifest when no append fails.
\<close>

lemma LogAndApply_open:
  assumes ok: "manifest_ok fs vs es" and env: "manifest_outcomes env = []"
    and e: "edit_ok e" "fresh_edit es e" and r: "LogAndApply env fs vs e = (s, vs', fs')"
  shows "fs' = AList.update (DescriptorFileName (vs_dbname vs) (vs_manifest vs))
      (written (manifest_log (es @ [CompleteEdit vs e]))) fs \<and>
    vs' = vs\<lparr>vs_compact_pointer := set_pointers e (vs_compact_pointer vs),
      vs_descriptor_log := Some (manifest_log (es @ [CompleteEdit vs e])),
      vs_current := (if Status_ok s then Finalize (apply_edit e (vs_current vs)) else vs_current vs),
      vs_log_number := (if Status_ok s then log_number (CompleteEdit vs e) else vs_log_number vs),
      vs_prev_log := (if Status_ok s then prev_log_number (CompleteEdit vs e) else vs_prev_log vs)\<rparr> \<and>
    (Status_ok (manifest_sync env) \<longrightarrow> Status_ok s)"
proof -
  have dl: "vs_descriptor_log vs = Some (manifest_log es)" using ok by (simp add: manifest_ok_def)
  let ?vs = "vs\<lparr>vs_compact_pointer := set_pointers e (vs_compact_pointer vs)\<rparr>"
  obtain s1 where "AppendManifest env fs ?vs (manifest_log es) (CompleteEdit vs e) =
      (s1, manifest_log (es @ [CompleteEdit vs e]),
       AList.update (DescriptorFileName (vs_dbname vs) (vs_manifest vs)) (written (manifest_log (es @ [CompleteEdit vs e]))) fs)"
      "Status_ok (manifest_sync env) \<longrightarrow> Status_ok s1"
    using AppendManifest_eq [of env fs ?vs es "CompleteEdit vs e"] by auto
  moreover have "SaveTo (apply_builder (CompleteEdit vs e) (Builder_new (vs_current vs))) Version_new =
      apply_edit e (vs_current vs)"
    by (simp add: apply_builder_def flip: apply_edit_def)
  ultimately show ?thesis
    using r dl env
    by (auto simp: LogAndApply_def Builder_Apply_eq OpenManifest_def AppendVersion_def Let_def split: if_splits)
qed


section \<open>A new manifest\<close>

definition snapshot_edit :: "VersionSet \<Rightarrow> VersionEdit" where
  "snapshot_edit vs =
     Snapshot_files (vs_current vs)
       (Snapshot_pointers (vs_compact_pointer vs) (SetComparatorName comparator_Name VersionEdit_new))"

text \<open>What a snapshot can hold.\<close>

definition version_storable :: "Version \<Rightarrow> bool" where
  "version_storable v \<longleftrightarrow> length (vfiles v) = kNumLevels \<and>
     (\<forall>fs \<in> set (vfiles v). sorted_wrt BySmallestKey fs \<and> distinct (map number fs) \<and>
        list_all (\<lambda>f. length (smallest f) < 2 ^ 32 \<and> length (largest f) < 2 ^ 32) fs)"

definition pointers_storable :: "bytes list \<Rightarrow> bool" where
  "pointers_storable cps \<longleftrightarrow> length cps = kNumLevels \<and> list_all (\<lambda>k. length k < 2 ^ 32) cps"

lemma fold_keeps: "P s \<Longrightarrow> (\<And>x s. x \<in> set xs \<Longrightarrow> P s \<Longrightarrow> P (f x s)) \<Longrightarrow> P (fold f xs s)"
  by (induction xs arbitrary: s) auto

lemma encodable_snapshot:
  assumes "version_storable (vs_current vs)" "pointers_storable (vs_compact_pointer vs)"
  shows "encodable (snapshot_edit vs)"
proof -
  let ?e0 = "SetComparatorName comparator_Name VersionEdit_new"
  have "encodable ?e0" by (intro encodable_setters encodable_new) (simp add: comparator_Name_def)
  then have "encodable (Snapshot_pointers (vs_compact_pointer vs) ?e0)"
    unfolding Snapshot_pointers_def
    by (rule fold_keeps) (use assms(2) in \<open>auto simp: pointers_storable_def list_all_length intro: encodable_setters\<close>)
  then show ?thesis
    unfolding snapshot_edit_def Snapshot_files_def
  proof (rule fold_keeps)
    fix l e
    assume l: "l \<in> set [0..<kNumLevels]" and e: "encodable e"
    then have "level_files (vs_current vs) l \<in> set (vfiles (vs_current vs))"
      using assms(1) by (simp add: version_storable_def)
    then have "list_all (\<lambda>f. length (smallest f) < 2 ^ 32 \<and> length (largest f) < 2 ^ 32) (level_files (vs_current vs) l)"
      using assms(1) by (simp add: version_storable_def)
    then show "encodable (fold (\<lambda>f. AddFile l (number f) (file_size f) (smallest f) (largest f))
        (level_files (vs_current vs) l) e)"
      using l by (intro fold_keeps [where P = encodable, OF e]) (auto simp: list_all_iff intro: encodable_setters)
  qed
qed

text \<open>The fields of a snapshot.\<close>

lemma Snapshot_files_eq:
  "Snapshot_files v e = e\<lparr>new_files := new_files e @
     concat (map (\<lambda>l. map (\<lambda>f. (l, new_FileMetaData (number f) (file_size f) (smallest f) (largest f))) (level_files v l))
       [0..<kNumLevels])\<rparr>"
proof -
  have one: "fold (\<lambda>f. AddFile l (number f) (file_size f) (smallest f) (largest f)) fs e =
      e\<lparr>new_files := new_files e @ map (\<lambda>f. (l, new_FileMetaData (number f) (file_size f) (smallest f) (largest f))) fs\<rparr>"
    for l fs e
    by (induction fs arbitrary: e) (simp_all add: AddFile_def)
  have "fold (\<lambda>l. fold (\<lambda>f. AddFile l (number f) (file_size f) (smallest f) (largest f)) (level_files v l)) ls e =
      e\<lparr>new_files := new_files e @ concat (map (\<lambda>l. map (\<lambda>f. (l, new_FileMetaData (number f) (file_size f)
        (smallest f) (largest f))) (level_files v l)) ls)\<rparr>" for ls
    by (induction ls arbitrary: e) (simp_all add: one)
  then show ?thesis by (simp add: Snapshot_files_def)
qed

lemma Snapshot_pointers_eq:
  "Snapshot_pointers cps e = e\<lparr>compact_pointers :=
     compact_pointers e @ map (\<lambda>l. (l, cps ! l)) (filter (\<lambda>l. cps ! l \<noteq> []) [0..<kNumLevels])\<rparr>"
proof -
  have "fold (\<lambda>level e. if cps ! level = [] then e else SetCompactPointer level (cps ! level) e) ls e =
      e\<lparr>compact_pointers := compact_pointers e @ map (\<lambda>l. (l, cps ! l)) (filter (\<lambda>l. cps ! l \<noteq> []) ls)\<rparr>" for ls
    by (induction ls arbitrary: e) (simp_all add: SetCompactPointer_def)
  then show ?thesis by (simp add: Snapshot_pointers_def)
qed

lemmas snapshot_defs = snapshot_edit_def Snapshot_files_eq Snapshot_pointers_eq SetComparatorName_def VersionEdit_new_def

lemma at_level_levels:
  "distinct ks \<Longrightarrow> at_level l (concat (map (\<lambda>k. map (\<lambda>x. (k, g x)) (f k)) ks)) = (if l \<in> set ks then map g (f l) else [])"
proof (induction ks)
  case (Cons k ks)
  then show ?case by (cases "k = l") (auto simp: at_level_def filter_map comp_def)
qed (simp add: at_level_def)

lemma filter_only: "distinct xs \<Longrightarrow> l \<in> set xs \<Longrightarrow> filter (\<lambda>k. k = l) (filter P xs) = (if P l then [l] else [])"
  by (induction xs) (auto simp: filter_empty_conv)

lemma snapshot_fields:
  assumes "l < kNumLevels"
  shows "at_level l (new_files (snapshot_edit vs)) =
      map (\<lambda>f. new_FileMetaData (number f) (file_size f) (smallest f) (largest f)) (level_files (vs_current vs) l)"
    and "at_level l (compact_pointers (snapshot_edit vs)) =
      (if vs_compact_pointer vs ! l = [] then [] else [vs_compact_pointer vs ! l])"
    and "deleted_files (snapshot_edit vs) = []" "has_comparator (snapshot_edit vs)"
    and "comparator_name (snapshot_edit vs) = comparator_Name"
proof -
  show "at_level l (new_files (snapshot_edit vs)) =
      map (\<lambda>f. new_FileMetaData (number f) (file_size f) (smallest f) (largest f)) (level_files (vs_current vs) l)"
    using assms by (simp add: snapshot_defs at_level_levels)
  have "filter (\<lambda>k. k = l) (filter (\<lambda>l. cps ! l \<noteq> []) [0..<kNumLevels]) = (if cps ! l = [] then [] else [l])" for cps :: "bytes list"
    using assms filter_only [of "[0..<kNumLevels]" l "\<lambda>l. cps ! l \<noteq> []"] by simp
  then show "at_level l (compact_pointers (snapshot_edit vs)) =
      (if vs_compact_pointer vs ! l = [] then [] else [vs_compact_pointer vs ! l])"
    by (simp add: snapshot_defs at_level_def filter_map comp_def)
qed (simp_all add: snapshot_defs)


lemma refresh_stored:
  "refresh (new_FileMetaData (number f) (file_size f) (smallest f) (largest f)) = refresh f"
  by (simp add: refresh_def new_FileMetaData_def)

lemma apply_snapshot:
  assumes "l < kNumLevels" "version_storable (vs_current vs)"
  shows "apply_level (snapshot_edit vs) l \<lparr>level_deleted = [], level_added = []\<rparr> =
    \<lparr>level_deleted = [], level_added = map refresh (level_files (vs_current vs) l)\<rparr>"
proof -
  have "sorted_wrt BySmallestKey (level_files (vs_current vs) l)"
    using assms by (simp add: version_storable_def)
  then have "fold FileSet_insert (map refresh (level_files (vs_current vs) l)) [] = map refresh (level_files (vs_current vs) l)"
    using fold_FileSet_insert_sorted [of "[]" "map refresh (level_files (vs_current vs) l)"]
    by (simp add: map_refresh_sorted)
  moreover have "fold remove1 ns [] = []" for ns :: "u64 list" by (induction ns) simp_all
  ultimately show ?thesis
    using assms(1) by (simp add: apply_level_def snapshot_fields refresh_stored comp_def at_level_def [of l "[]"])
qed

lemma levels_ok_snapshot:
  assumes "version_storable (vs_current vs)"
  shows "levels_ok (vs_current vs) [snapshot_edit vs]"
proof -
  have "levels (replay [snapshot_edit vs]) ! l =
      \<lparr>level_deleted = [], level_added = map refresh (level_files (vs_current vs) l)\<rparr>" if "l < kNumLevels" for l
    using replay_levels(3) [OF that, of "[snapshot_edit vs]"] apply_snapshot [OF that assms] by simp
  then show ?thesis
    using assms
    by (simp add: levels_ok_def version_storable_def level_state_ok_def level_result_def map_refresh_sorted comp_def)
qed

lemma used_numbers_snapshot:
  "l < kNumLevels \<Longrightarrow> version_storable (vs_current vs) \<Longrightarrow>
   used_numbers [snapshot_edit vs] l = number ` set (level_files (vs_current vs) l)"
  using replay_levels(3) [of l "[snapshot_edit vs]"]
  by (simp add: used_numbers_def apply_snapshot image_image)

text \<open>The last pointer of a level wins.\<close>

lemma set_pointers_nth:
  assumes "l < length cps"
  shows "set_pointers e cps ! l = (if at_level l (compact_pointers e) = [] then cps ! l else last (at_level l (compact_pointers e)))"
proof -
  have "fold (\<lambda>(level, key) cp. cp[level := key]) ps cps ! l = (if at_level l ps = [] then cps ! l else last (at_level l ps))" for ps
    using assms by (induction ps arbitrary: cps) (auto simp: at_level_def nth_list_update)
  then show ?thesis by (simp add: set_pointers_def)
qed

lemma length_set_pointers [simp]: "length (set_pointers e cps) = length cps"
proof -
  have "length (fold (\<lambda>(level, key) cp. cp[level := key]) ps cps) = length cps" for ps
    by (induction ps arbitrary: cps) (auto split: prod.splits)
  then show ?thesis by (simp add: set_pointers_def)
qed

lemma set_pointers_twice: "set_pointers e (set_pointers e cps) = set_pointers e cps"
  by (rule nth_equalityI) (simp_all add: set_pointers_nth)

lemma replay_pointers_snapshot:
  "length (vs_compact_pointer vs) = kNumLevels \<Longrightarrow> replay_pointers [snapshot_edit vs] = vs_compact_pointer vs"
  by (rule nth_equalityI) (auto simp: replay_pointers_def set_pointers_nth snapshot_fields)

lemma pointers_storable_set:
  assumes "pointers_storable cps" "encodable e"
  shows "pointers_storable (set_pointers e cps)"
proof -
  have short: "list_all (\<lambda>k. length k < 2 ^ 32) (at_level l (compact_pointers e))" for l
    using assms(2) by (auto simp: encodable_def list_all_iff at_level_def)
  then have "length (set_pointers e cps ! l) < 2 ^ 32" if "l < length cps" for l
    using assms(1) that short [of l]
    by (auto simp: set_pointers_nth pointers_storable_def list_all_iff dest: last_in_set)
  then show ?thesis using assms(1) by (simp add: pointers_storable_def list_all_length)
qed


lemma manifest_ok_intro:
  assumes "map_of fs (DescriptorFileName (vs_dbname vs) (vs_manifest vs)) = Some (written (manifest_log (es @ [CompleteEdit vs0 e])))"
    and "current_names fs (vs_dbname vs) (vs_manifest vs)" "list_all edit_ok es" "edit_ok e" "levels_ok v es" "fresh_edit es e"
    and "vs = vs0\<lparr>vs_compact_pointer := set_pointers e (replay_pointers es),
      vs_descriptor_log := Some (manifest_log (es @ [CompleteEdit vs0 e])), vs_current := Finalize (apply_edit e v),
      vs_log_number := log_number (CompleteEdit vs0 e), vs_prev_log := prev_log_number (CompleteEdit vs0 e)\<rparr>"
  shows "manifest_ok fs vs (es @ [CompleteEdit vs0 e])"
proof -
  have "fresh_edit es (CompleteEdit vs0 e)" using assms(6) by (simp add: fresh_edit_def)
  then have "levels_ok (apply_edit e v) (es @ [CompleteEdit vs0 e])"
    using levels_ok_snoc [OF assms(5), of "CompleteEdit vs0 e"] by simp
  then have "levels_ok (vs_current vs) (es @ [CompleteEdit vs0 e])"
    using levels_ok_cong [of "vs_current vs" "apply_edit e v"] assms(7) by simp
  then show ?thesis
    using assms(1-4,7) by (simp add: manifest_ok_def replay_pointers_snoc logged_def edit_ok_Complete)
qed

lemma LogAndApply_keeps:
  assumes ok: "manifest_ok fs vs es" and env: "manifest_outcomes env = []"
    and e: "edit_ok e" "fresh_edit es e" and r: "LogAndApply env fs vs e = (s, vs', fs')" "Status_ok s"
  shows "manifest_ok fs' vs' (es @ [CompleteEdit vs e])"
proof -
  note res = LogAndApply_open [OF ok env e r(1)]
  show ?thesis
    by (rule manifest_ok_intro) (use ok e r(2) res in \<open>auto simp: manifest_ok_def current_names_def\<close>)
qed

lemma LogAndApply_create_eq:
  fixes vs e
  defines "vs1 \<equiv> vs\<lparr>vs_compact_pointer := set_pointers e (vs_compact_pointer vs)\<rparr>" and "e' \<equiv> CompleteEdit vs e"
    and "dsc \<equiv> DescriptorFileName (vs_dbname vs) (vs_manifest vs)"
  defines "es \<equiv> [snapshot_edit vs1, e']"
  assumes new: "vs_descriptor_log vs = None" and env: "manifest_outcomes env = []"
    and r: "LogAndApply env fs vs e = (s, vs', fs')"
  shows "\<exists>fs2 s3 fs3. SetCurrentFile (current_env env) fs2 (vs_dbname vs) (vs_manifest vs) = (s3, fs3) \<and>
      map_of fs2 = (map_of fs)(dsc \<mapsto> written (manifest_log es)) \<and>
      (Status_ok (manifest_new env) \<and> Status_ok (manifest_sync env) \<and> Status_ok s3 \<longrightarrow> Status_ok s) \<and>
      (Status_ok s \<longrightarrow> s = s3 \<and> fs' = fs3 \<and>
         vs' = vs1\<lparr>vs_current := Finalize (apply_edit e (vs_current vs)), vs_log_number := log_number e',
              vs_prev_log := prev_log_number e', vs_descriptor_log := Some (manifest_log es)\<rparr>)"
proof -
  let ?es = "[snapshot_edit vs1]"
  have snap: "WriteSnapshot vs1 (Writer_new new_log) = (Status_OK, manifest_log ?es)"
    using AddRecord_manifest [of "[]" "snapshot_edit vs1"] by (simp add: WriteSnapshot_def snapshot_edit_def Let_def)
  obtain s1 where app: "AppendManifest env (AList.update dsc (written (manifest_log ?es)) fs) vs1 (manifest_log ?es) e' =
      (s1, manifest_log es, AList.update dsc (written (manifest_log es)) (AList.update dsc (written (manifest_log ?es)) fs))"
      "Status_ok (manifest_sync env) \<longrightarrow> Status_ok s1"
    using AppendManifest_eq [of env "AList.update dsc (written (manifest_log ?es)) fs" vs1 ?es e']
    by (auto simp: vs1_def es_def dsc_def)
  define fs2 where "fs2 = AList.update dsc (written (manifest_log es)) (AList.update dsc (written (manifest_log ?es)) fs)"
  have save: "SaveTo (apply_builder e' (Builder_new (vs_current vs))) Version_new = apply_edit e (vs_current vs)"
    by (simp add: apply_builder_def e'_def flip: apply_edit_def)
  obtain s3 fs3 where cur: "SetCurrentFile (current_env env) fs2 (vs_dbname vs) (vs_manifest vs) = (s3, fs3)" by fastforce
  have "LogAndApply env fs vs e =
      (if \<not> Status_ok (manifest_new env) then (manifest_new env, vs1\<lparr>vs_descriptor_log := None\<rparr>, AList.delete dsc fs)
       else if \<not> Status_ok s1 then (s1, vs1\<lparr>vs_descriptor_log := None\<rparr>, AList.delete dsc fs2)
       else if \<not> Status_ok s3 then (s3, vs1\<lparr>vs_descriptor_log := None\<rparr>, AList.delete dsc fs3)
       else (s3, vs1\<lparr>vs_current := Finalize (apply_edit e (vs_current vs)), vs_log_number := log_number e',
              vs_prev_log := prev_log_number e', vs_descriptor_log := Some (manifest_log es)\<rparr>, fs3))"
    using new env snap app(1) cur save set_outcomes_manifest [of "map encode_edit es"]
    by (simp add: LogAndApply_def OpenManifest_def Builder_Apply_eq AppendVersion_def Let_def vs1_def e'_def fs2_def
        dsc_def es_def)
  then show ?thesis
    using r cur app(2) by (intro exI [of _ fs2] exI [of _ s3] exI [of _ fs3]) (auto simp: fs2_def split: if_splits)
qed

lemma LogAndApply_create:
  assumes new: "vs_descriptor_log vs = None" and env: "manifest_outcomes env = []"
    and v: "version_storable (vs_current vs)" "pointers_storable (vs_compact_pointer vs)"
    and e: "edit_ok e" "\<And>l. l < kNumLevels \<Longrightarrow> fresh_at e l (number ` set (level_files (vs_current vs) l))"
    and r: "LogAndApply env fs vs e = (s, vs', fs')" "Status_ok s"
  shows "\<exists>es. manifest_ok fs' vs' es \<and> vs_current vs' = Finalize (apply_edit e (vs_current vs)) \<and>
    vs_dbname vs' = vs_dbname vs \<and> vs_next_file vs' = vs_next_file vs \<and> vs_manifest vs' = vs_manifest vs \<and>
    vs_last_sequence vs' = vs_last_sequence vs \<and> vs_log_number vs' = log_number (CompleteEdit vs e) \<and>
    vs_prev_log vs' = prev_log_number (CompleteEdit vs e) \<and>
    (\<forall>l < kNumLevels. used_numbers es l =
       number ` set (at_level l (new_files e)) \<union> number ` set (level_files (vs_current vs) l)) \<and>
    (\<forall>f. f \<notin> {DescriptorFileName (vs_dbname vs) (vs_manifest vs), CurrentFileName (vs_dbname vs),
        TempFileName (vs_dbname vs) (vs_manifest vs)} \<longrightarrow> map_of fs' f = map_of fs f) \<and>
    next_file_number (last es) = vs_next_file vs \<and> last_sequence (last es) = vs_last_sequence vs"
proof -
  define vs1 where "vs1 = vs\<lparr>vs_compact_pointer := set_pointers e (vs_compact_pointer vs)\<rparr>"
  let ?es = "[snapshot_edit vs1]"
  have cps: "pointers_storable (vs_compact_pointer vs1)"
    using pointers_storable_set [OF v(2)] e(1) by (simp add: vs1_def edit_ok_def)
  have storable: "version_storable (vs_current vs1)" using v(1) by (simp add: vs1_def)
  have snap_ok: "edit_ok (snapshot_edit vs1)"
    using encodable_snapshot [OF storable cps] snapshot_fields(4,5) [of 0 vs1] by (simp add: edit_ok_def kNumLevels_def)
  have fresh: "fresh_edit ?es e"
    using e(2) used_numbers_snapshot [OF _ storable] by (simp add: fresh_edit_def vs1_def)
  obtain fs2 s3 where cur: "SetCurrentFile (current_env env) fs2 (vs_dbname vs) (vs_manifest vs) = (s3, fs')"
      "map_of fs2 = (map_of fs)(DescriptorFileName (vs_dbname vs) (vs_manifest vs) \<mapsto>
        written (manifest_log (?es @ [CompleteEdit vs e])))" "s = s3"
    and vs': "vs' = vs1\<lparr>vs_current := Finalize (apply_edit e (vs_current vs)), vs_log_number := log_number (CompleteEdit vs e),
      vs_prev_log := prev_log_number (CompleteEdit vs e), vs_descriptor_log := Some (manifest_log (?es @ [CompleteEdit vs e]))\<rparr>"
    using LogAndApply_create_eq [OF new env r(1)] r(2) by (auto simp: vs1_def)
  note current = SetCurrentFile_atomic [OF cur(1)]
  have ok: "manifest_ok fs' vs' (?es @ [CompleteEdit vs e])"
  proof (rule manifest_ok_intro [where v = "vs_current vs"])
    show "vs' = vs\<lparr>vs_compact_pointer := set_pointers e (replay_pointers ?es),
      vs_descriptor_log := Some (manifest_log (?es @ [CompleteEdit vs e])), vs_current := Finalize (apply_edit e (vs_current vs)),
      vs_log_number := log_number (CompleteEdit vs e), vs_prev_log := prev_log_number (CompleteEdit vs e)\<rparr>"
      using vs' cps by (simp add: replay_pointers_snapshot pointers_storable_def vs1_def set_pointers_twice)
    show "levels_ok (vs_current vs) ?es" using levels_ok_snapshot [OF storable] by (simp add: vs1_def)
  qed (use vs' current cur(2,3) r(2) snap_ok e(1) fresh in \<open>auto simp: vs1_def current_names_def\<close>)
  moreover have "used_numbers (?es @ [CompleteEdit vs e]) l =
      number ` set (at_level l (new_files e)) \<union> number ` set (level_files (vs_current vs) l)" if "l < kNumLevels" for l
    using used_numbers_snoc [OF levels_ok_snapshot [OF storable], of "CompleteEdit vs e" l] fresh that
      used_numbers_snapshot [OF that storable] by (simp add: fresh_edit_def vs1_def)
  moreover have "\<forall>f. f \<notin> {DescriptorFileName (vs_dbname vs) (vs_manifest vs), CurrentFileName (vs_dbname vs),
      TempFileName (vs_dbname vs) (vs_manifest vs)} \<longrightarrow> map_of fs' f = map_of fs f"
    using current cur(2) by auto
  ultimately show ?thesis
    using vs' by (intro exI [of _ "?es @ [CompleteEdit vs e]"]) (simp add: vs1_def)
qed

text \<open>With no failures the call succeeds.\<close>

definition no_env_failures :: env_outcomes where
  "no_env_failures = \<lparr>new_status = Status_OK, append_status = Status_OK, append_written = 0, sync_status = Status_OK,
     close_status = Status_OK, rename_status = Status_OK, cleanup_status = Status_OK, delete_status = Status_OK\<rparr>"

definition no_manifest_failures :: manifest_env where
  "no_manifest_failures = \<lparr>manifest_new = Status_OK, manifest_outcomes = [], manifest_sync = Status_OK,
     manifest_reads = no_read_failures, current_env = no_env_failures\<rparr>"

lemma SetCurrentFile_succeeds: "fst (SetCurrentFile no_env_failures fs db n) = Status_OK"
  by (simp add: SetCurrentFile_def Let_def DoWriteStringToFile_def RenameFile_def no_env_failures_def)

lemma LogAndApply_create_succeeds:
  assumes "vs_descriptor_log vs = None"
  shows "Status_ok (fst (LogAndApply no_manifest_failures fs vs e))"
proof -
  have nf: "manifest_outcomes no_manifest_failures = []" by (simp add: no_manifest_failures_def)
  obtain s vs' fs' where r: "LogAndApply no_manifest_failures fs vs e = (s, vs', fs')" by (metis prod_cases3)
  obtain fs2 s3 fs3 where
    "SetCurrentFile (current_env no_manifest_failures) fs2 (vs_dbname vs) (vs_manifest vs) = (s3, fs3)"
    "Status_ok (manifest_new no_manifest_failures) \<and> Status_ok (manifest_sync no_manifest_failures) \<and> Status_ok s3 \<longrightarrow>
     Status_ok s"
    using LogAndApply_create_eq [OF assms nf r] by blast
  then show ?thesis using SetCurrentFile_succeeds [of fs2 "vs_dbname vs" "vs_manifest vs"] r
    by (simp add: no_manifest_failures_def)
qed

lemma LogAndApply_open_succeeds:
  assumes "manifest_ok fs vs es" "edit_ok e" "fresh_edit es e"
  shows "Status_ok (fst (LogAndApply no_manifest_failures fs vs e))"
proof -
  have nf: "manifest_outcomes no_manifest_failures = []" by (simp add: no_manifest_failures_def)
  obtain s vs' fs' where r: "LogAndApply no_manifest_failures fs vs e = (s, vs', fs')" by (metis prod_cases3)
  then show ?thesis using LogAndApply_open [OF assms(1) nf assms(2,3) r] by (simp add: no_manifest_failures_def)
qed


section \<open>Properties\<close>

text \<open>
  C25: the version that \<^verbatim>\<open>VersionSet::Builder\<close> makes of a version and an edit with new file numbers
  has, in every level, exactly the files of the old version and of the edit less the deleted
  ones, in the order of their smallest keys.
\<close>

theorem builder_merges_edit:
  assumes "l < kNumLevels" "sorted_wrt BySmallestKey (level_files v l)"
    and "fresh_at e l (number ` set (level_files v l))" "fst (Builder_Apply e (Builder_new v) cps) = b"
  shows "sorted_wrt BySmallestKey (level_files (SaveTo b Version_new) l) \<and>
    set (level_files (SaveTo b Version_new) l) =
      {f \<in> set (level_files v l) \<union> refresh ` set (at_level l (new_files e)).
         number f \<notin> set (at_level l (deleted_files e)) - number ` set (at_level l (new_files e))}"
proof -
  have "SaveTo b Version_new = apply_edit e v"
    unfolding apply_edit_def assms(4) [symmetric] by (simp add: Builder_Apply_eq)
  then show ?thesis using sorted_apply_edit [OF assms(1,3,2)] set_apply_edit [OF assms(1,3)] by simp
qed

definition example_edit :: VersionEdit where
  "example_edit = AddFile 0 7 100 [1, 1, 0, 0, 0, 0, 0, 0, 0] [2, 1, 0, 0, 0, 0, 0, 0, 0] VersionEdit_new"

lemma example_edit_fresh: "fresh_at example_edit l {}"
  by (simp add: fresh_at_def example_edit_def AddFile_def VersionEdit_new_def at_level_def)

lemma example_edit_ok: "edit_ok example_edit"
proof -
  have "encodable example_edit"
    unfolding example_edit_def by (intro encodable_setters encodable_new) (simp_all add: kNumLevels_def)
  then show ?thesis by (simp add: edit_ok_def example_edit_def AddFile_def VersionEdit_new_def)
qed

theorem builder_merges_edit_witness:
  "map number (level_files (SaveTo (fst (Builder_Apply example_edit (Builder_new Version_new) [])) Version_new) 0) = [7]"
proof -
  let ?fs = "level_files (SaveTo (fst (Builder_Apply example_edit (Builder_new Version_new) [])) Version_new) 0"
  have "sorted_wrt BySmallestKey ?fs \<and> set ?fs =
      {f \<in> set (level_files Version_new 0) \<union> refresh ` set (at_level 0 (new_files example_edit)).
         number f \<notin> set (at_level 0 (deleted_files example_edit)) - number ` set (at_level 0 (new_files example_edit))}"
    by (rule builder_merges_edit) (simp_all add: kNumLevels_def Version_new_def example_edit_fresh)
  then have "sorted_wrt BySmallestKey ?fs" "set ?fs = {refresh (new_FileMetaData 7 100 [1, 1, 0, 0, 0, 0, 0, 0, 0] [2, 1, 0, 0, 0, 0, 0, 0, 0])}"
    by (auto simp: Version_new_def kNumLevels_def example_edit_def AddFile_def VersionEdit_new_def at_level_def)
  then have "?fs = [refresh (new_FileMetaData 7 100 [1, 1, 0, 0, 0, 0, 0, 0, 0] [2, 1, 0, 0, 0, 0, 0, 0, 0])]"
    by (intro sorted_files_unique) simp_all
  then show ?thesis by (simp add: new_FileMetaData_def)
qed

text \<open>
  C24: after \<^verbatim>\<open>LogAndApply\<close> on a set whose
  manifest is in order, with files under new numbers, opening the database again recovers
  exactly the files of the new version, its log numbers and the sequence number, in one pass
  over all edits; when the call reports success, this is the version in memory and the
  manifest is in order again. (No append fails; syncing may.)
\<close>

theorem LogAndApply_recovered:
  assumes "manifest_ok fs vs es" "manifest_outcomes env = []" "edit_ok e" "fresh_edit es e"
    and "LogAndApply env fs vs e = (s, vs', fs')"
  shows "(Status_ok s \<longrightarrow> manifest_ok fs' vs' (es @ [CompleteEdit vs e]) \<and>
      vfiles (vs_current vs') = vfiles (apply_edit e (vs_current vs))) \<and>
    (\<exists>vs2. Recover no_read_failures fs' (VersionSet_new (vs_dbname vs)) = (Status_OK, vs2) \<and>
       vfiles (vs_current vs2) = map (map refresh) (vfiles (apply_edit e (vs_current vs))) \<and>
       vs_log_number vs2 = log_number (CompleteEdit vs e) \<and> vs_prev_log vs2 = prev_log_number (CompleteEdit vs e) \<and>
       vs_last_sequence vs2 = vs_last_sequence vs \<and> vs_next_file vs2 = vs_next_file vs + 1 \<and>
       vs_compact_pointer vs2 = vs_compact_pointer vs')"
proof -
  let ?es = "es @ [CompleteEdit vs e]"
  note res = LogAndApply_open [OF assms]
  have fs': "map_of fs' (DescriptorFileName (vs_dbname vs) (vs_manifest vs)) = Some (written (manifest_log ?es))"
    "current_names fs' (vs_dbname vs) (vs_manifest vs)"
    using res assms(1) by (simp_all add: manifest_ok_def current_names_def)
  have "fresh_edit es (CompleteEdit vs e)" using assms(4) by (simp add: fresh_edit_def)
  then have "levels_ok (apply_edit e (vs_current vs)) ?es"
    using levels_ok_snoc [of "vs_current vs" es "CompleteEdit vs e"] assms(1) by (simp add: manifest_ok_def)
  then have "Recover no_read_failures fs' (VersionSet_new (vs_dbname vs)) =
      (Status_OK, recovered (vs_dbname vs) ?es (map (map refresh) (vfiles (apply_edit e (vs_current vs)))))"
    using assms(1,3) by (intro Recover_edits [OF fs']) (simp_all add: manifest_ok_def edit_ok_Complete)
  then show ?thesis
    using LogAndApply_keeps [OF assms] res assms(1)
    by (auto simp: recovered_def replay_pointers_snoc manifest_ok_def)
qed

theorem LogAndApply_recovered_witness:
  "\<exists>fs vs vs2. Recover no_read_failures (snd (snd (LogAndApply no_manifest_failures fs vs example_edit)))
     (VersionSet_new (vs_dbname vs)) = (Status_OK, vs2) \<and> vs_next_file vs2 = 3"
proof -
  have nf: "manifest_outcomes no_manifest_failures = []" by (simp add: no_manifest_failures_def)
  have e0: "edit_ok VersionEdit_new" "fresh_at VersionEdit_new l ns" for l ns
    by (simp_all add: edit_ok_def encodable_new fresh_at_def) (simp_all add: VersionEdit_new_def at_level_def)
  have v0: "vs_descriptor_log (VersionSet_new []) = None" "version_storable (vs_current (VersionSet_new []))"
    "pointers_storable (vs_compact_pointer (VersionSet_new []))"
    by (simp_all add: VersionSet_new_def version_storable_def pointers_storable_def Version_new_def list_all_iff)
  obtain s fs vs where r: "LogAndApply no_manifest_failures [] (VersionSet_new []) VersionEdit_new = (s, vs, fs)"
    by (metis prod_cases3)
  then have "Status_ok s" using LogAndApply_create_succeeds [OF v0(1), of "[]" VersionEdit_new] by simp
  from LogAndApply_create [OF v0(1) nf v0(2,3) e0 r this]
  obtain es where es: "manifest_ok fs vs es" "vs_next_file vs = 2" "\<forall>l < kNumLevels. used_numbers es l = {}"
    by (fastforce simp: VersionSet_new_def Version_new_def VersionEdit_new_def at_level_def)
  then have "fresh_edit es example_edit" using example_edit_fresh by (simp add: fresh_edit_def)
  moreover obtain s' vs' fs' where "LogAndApply no_manifest_failures fs vs example_edit = (s', vs', fs')"
    by (metis prod_cases3)
  ultimately show ?thesis
    using LogAndApply_recovered [OF es(1) nf example_edit_ok] es(2) by (metis add.commute one_plus_numeral semiring_norm(3) snd_conv)
qed

end
