(* ===== verification/Version_Layout.thy ===== *)
theory Version_Layout
  imports Version_Set
begin

text \<open>
  How the tables of a version are laid out over its levels: the invariant of the versions that
  \<^verbatim>\<open>db/version_set.cc\<close> and \<^verbatim>\<open>db/db_impl.cc\<close> rely on, and what the two kinds of change do to it: a new
  table made from a memtable, and a merge of tables of two levels.
\<close>

section \<open>The layout\<close>

abbreviation low_key :: "FileMetaData \<Rightarrow> bytes" where
  "low_key f \<equiv> ExtractUserKey (smallest f)"

abbreviation high_key :: "FileMetaData \<Rightarrow> bytes" where
  "high_key f \<equiv> ExtractUserKey (largest f)"

definition apart :: "FileMetaData \<Rightarrow> FileMetaData \<Rightarrow> bool" where
  "apart f g \<longleftrightarrow> high_key f < low_key g \<or> high_key g < low_key f"

definition file_entries :: "(u64 \<Rightarrow> entry list) \<Rightarrow> FileMetaData set \<Rightarrow> entry set" where
  "file_entries T F = (\<Union>f \<in> F. set (T (number f)))"

definition newer :: "entry set \<Rightarrow> entry set \<Rightarrow> bool" where
  "newer A B \<longleftrightarrow> (\<forall>x \<in> A. \<forall>y \<in> B. user_key (fst x) = user_key (fst y) \<longrightarrow> sequence (fst y) < sequence (fst x))"

abbreviation files_at :: "Version \<Rightarrow> nat \<Rightarrow> FileMetaData set" where
  "files_at v l \<equiv> set (level_files v l)"

definition layout :: "(u64 \<Rightarrow> entry list) \<Rightarrow> Version \<Rightarrow> bool" where
  "layout T v \<longleftrightarrow> length (vfiles v) = kNumLevels \<and>
     (\<forall>l < kNumLevels. sorted_wrt BySmallestKey (level_files v l) \<and> distinct (map number (level_files v l)) \<and>
        (\<forall>f \<in> files_at v l. file_ok T f)) \<and>
     (\<forall>f \<in> files_at v 0. \<forall>g \<in> files_at v 0. number g < number f \<longrightarrow> newer (set (T (number f))) (set (T (number g)))) \<and>
     (\<forall>l < kNumLevels. \<forall>l' < l. newer (file_entries T (files_at v l')) (file_entries T (files_at v l))) \<and>
     (\<forall>l < kNumLevels. 0 < l \<longrightarrow> (\<forall>f \<in> files_at v l. \<forall>g \<in> files_at v l. number f \<noteq> number g \<longrightarrow> apart f g))"

lemma layoutD:
  assumes "layout T v"
  shows "length (vfiles v) = kNumLevels"
    and "l < kNumLevels \<Longrightarrow> sorted_wrt BySmallestKey (level_files v l)"
    and "l < kNumLevels \<Longrightarrow> distinct (map number (level_files v l))"
    and "l < kNumLevels \<Longrightarrow> f \<in> files_at v l \<Longrightarrow> file_ok T f"
    and "f \<in> files_at v 0 \<Longrightarrow> g \<in> files_at v 0 \<Longrightarrow> number g < number f \<Longrightarrow>
      newer (set (T (number f))) (set (T (number g)))"
    and "l < kNumLevels \<Longrightarrow> l' < l \<Longrightarrow> newer (file_entries T (files_at v l')) (file_entries T (files_at v l))"
    and "l < kNumLevels \<Longrightarrow> 0 < l \<Longrightarrow> f \<in> files_at v l \<Longrightarrow> g \<in> files_at v l \<Longrightarrow> number f \<noteq> number g \<Longrightarrow> apart f g"
  using assms unfolding layout_def by blast+

lemma newer_mono: "newer A B \<Longrightarrow> A' \<subseteq> A \<Longrightarrow> B' \<subseteq> B \<Longrightarrow> newer A' B'"
  unfolding newer_def by blast

lemma newer_Un: "newer (A \<union> A') B \<longleftrightarrow> newer A B \<and> newer A' B" "newer A (B \<union> B') \<longleftrightarrow> newer A B \<and> newer A B'"
  unfolding newer_def by blast+

lemma newer_empty [simp]: "newer {} B" "newer A {}"
  by (simp_all add: newer_def)

lemma newer_disjoint: "(\<And>x y. x \<in> A \<Longrightarrow> y \<in> B \<Longrightarrow> user_key (fst x) \<noteq> user_key (fst y)) \<Longrightarrow> newer A B"
  unfolding newer_def by blast

lemma file_entries_mono: "F \<subseteq> G \<Longrightarrow> file_entries T F \<subseteq> file_entries T G"
  unfolding file_entries_def by blast

lemma file_entries_Un: "file_entries T (F \<union> G) = file_entries T F \<union> file_entries T G"
  unfolding file_entries_def by blast

lemma file_keys:
  assumes "file_ok T f"
  shows "low_key f \<le> high_key f" and "x \<in> set (T (number f)) \<Longrightarrow> low_key f \<le> user_key (fst x) \<and> user_key (fst x) \<le> high_key f"
    and "low_key f = user_key (fst (hd (T (number f))))" "high_key f = user_key (fst (last (T (number f))))"
proof -
  show ends: "low_key f = user_key (fst (hd (T (number f))))" "high_key f = user_key (fst (last (T (number f))))"
    using assms by (simp_all add: file_ok_def AppendInternalKey_eq Extract_append_tag)
  show within: "low_key f \<le> user_key (fst x) \<and> user_key (fst x) \<le> high_key f" if "x \<in> set (T (number f))" for x
  proof -
    have "newest (T (number f)) (sequence (fst x)) (user_key (fst x)) \<noteq> None"
      using that unfolding newest_None_iff by blast
    then show ?thesis using newest_out_of_file [OF assms] by (metis leI)
  qed
  show "low_key f \<le> high_key f" using within [OF file_ok_last(1) [OF assms]] order_trans by blast
qed

lemma apart_keys:
  assumes "apart f g" "file_ok T f" "file_ok T g" "x \<in> set (T (number f))" "y \<in> set (T (number g))"
  shows "user_key (fst x) \<noteq> user_key (fst y)"
  using assms file_keys(2) [OF assms(2,4)] file_keys(2) [OF assms(3,5)] by (auto simp: apart_def)

lemma apart_sym: "apart f g \<longleftrightarrow> apart g f"
  by (auto simp: apart_def)

text \<open>Files that are apart and in the order of their smallest keys make one sorted run.\<close>

lemma BySmallestKey_apart:
  assumes "BySmallestKey f g" "apart f g" "low_key f \<le> high_key f" "low_key g \<le> high_key g"
  shows "high_key f < low_key g"
proof (rule ccontr)
  assume "\<not> ?thesis"
  then have "low_key g < low_key f" using assms(2-4) by (auto simp: apart_def)
  then show False using assms(1) by (auto simp: BySmallestKey_rank file_rank_def less_prod_def)
qed

lemma run_of_sorted:
  assumes "sorted_wrt BySmallestKey fs" "distinct (map number fs)" "\<And>f. f \<in> set fs \<Longrightarrow> file_ok T f"
    and "\<And>f g. f \<in> set fs \<Longrightarrow> g \<in> set fs \<Longrightarrow> number f \<noteq> number g \<Longrightarrow> apart f g"
  shows "wf_entries (run_of T fs)"
  using assms
proof (induction fs)
  case Nil
  then show ?case by (simp add: run_of_def wf_entries_def)
next
  case (Cons f fs)
  have IH: "wf_entries (run_of T fs)" using Cons by simp
  have f: "wf_entries (T (number f))" "file_ok T f" using Cons.prems(3) [of f] by (simp_all add: file_ok_def)
  have "entry_less x y" if x: "x \<in> set (T (number f))" and y: "y \<in> set (run_of T fs)" for x y
  proof -
    from y obtain g where g: "g \<in> set fs" "y \<in> set (T (number g))" by (auto simp: set_run_of)
    have ok: "file_ok T g" using g Cons.prems(3) by simp
    have "number f \<noteq> number g" using Cons.prems(2) g by auto
    then have "apart f g" using Cons.prems(4) [of f g] g by simp
    moreover have "BySmallestKey f g" using Cons.prems(1) g by simp
    ultimately have "high_key f < low_key g" using BySmallestKey_apart file_keys(1) f(2) ok by blast
    then have "user_key (fst x) < user_key (fst y)"
      using file_keys(2) [OF f(2) x] file_keys(2) [OF ok g(2)] by auto
    then show ?thesis by (simp add: entry_less_def ikey_less_def)
  qed
  then show ?case using IH f(1) by (auto simp: run_of_def wf_entries_def sorted_wrt_append)
qed

lemma level0_runs_ok:
  assumes "distinct (map number fs)" "\<And>f. f \<in> set fs \<Longrightarrow> file_ok T f"
    and "\<And>f g. f \<in> set fs \<Longrightarrow> g \<in> set fs \<Longrightarrow> number g < number f \<Longrightarrow> newer (set (T (number f))) (set (T (number g)))"
  shows "runs_ok (level0_runs T fs)"
proof -
  let ?s = "rev (sort_key number fs)"
  have "sorted (map number (sort_key number fs))" "distinct (map number (sort_key number fs))"
    using assms(1) by (simp_all add: distinct_map)
  then have "sorted_wrt (<) (map number (sort_key number fs))" by (simp add: strict_sorted_iff)
  then have sorted: "sorted_wrt (\<lambda>f g. number g < number f) ?s" by (simp add: sorted_wrt_rev sorted_wrt_map)
  have "sorted_wrt (\<lambda>f g. newer_run (T (number f)) (T (number g))) ?s"
    using sorted_wrt_mono_rel [OF _ sorted] assms(3) by (simp add: newer_def newer_run_def)
  then show ?thesis
    using assms(2) by (auto simp: runs_ok_def level0_runs_def sorted_wrt_map list_all_iff file_ok_def)
qed

text \<open>The layout is enough for a search that stops at the first entry it finds.\<close>

lemma runs_ok_append:
  "runs_ok (rs @ rs') \<longleftrightarrow> runs_ok rs \<and> runs_ok rs' \<and> (\<forall>r \<in> set rs. \<forall>r' \<in> set rs'. newer_run r r')"
  by (auto simp: runs_ok_def sorted_wrt_append)

lemma newer_newer_run: "newer_run r r' \<longleftrightarrow> newer (set r) (set r')"
  by (simp add: newer_run_def newer_def)

lemma layout_version_ok:
  assumes "layout T v"
  shows "version_ok T v"
proof -
  note lay = layoutD [OF assms]
  note len = lay(1)
  then obtain f0 fss where v: "vfiles v = f0 # fss" by (cases "vfiles v") (auto simp: kNumLevels_def)
  have at: "level_files v 0 = f0" "\<And>i. i < length fss \<Longrightarrow> level_files v (Suc i) = fss ! i" by (simp_all add: v)
  have ok: "list_all (list_all (file_ok T)) (vfiles v)"
    using lay(4) len by (simp add: list_all_length)
  have runs0: "runs_ok (level0_runs T f0)"
    using lay(3) [of 0] lay(4) [of 0] lay(5) at(1) by (intro level0_runs_ok) (simp_all add: kNumLevels_def)
  have run: "wf_entries (run_of T (fss ! i))" if "i < length fss" for i
    using lay(2,3,4,7) [of "Suc i"] at(2) [OF that] len that by (intro run_of_sorted) (simp_all add: v)
  have newer_levels: "newer_run (run_of T (fss ! i)) (run_of T (fss ! j))" if "i < j" "j < length fss" for i j
    using lay(6) [of "Suc j" "Suc i"] at(2) [of i] at(2) [of j] len that
    by (simp add: newer_newer_run set_run_of file_entries_def v)
  have runs: "runs_ok (map (run_of T) fss)"
    using run newer_levels by (auto simp: runs_ok_def list_all_length sorted_wrt_map sorted_wrt_iff_nth_less)
  have "newer_run r (run_of T (fss ! j))" if r: "r \<in> set (level0_runs T f0)" and j: "j < length fss" for r j
  proof -
    have "set r \<subseteq> file_entries T (files_at v 0)" using r at(1) by (auto simp: level0_runs_def file_entries_def)
    moreover have "newer (file_entries T (files_at v 0)) (file_entries T (files_at v (Suc j)))"
      using lay(6) [of "Suc j" 0] len j v by simp
    ultimately show ?thesis
      using at(2) [OF j] newer_mono by (auto simp: newer_newer_run set_run_of file_entries_def)
  qed
  then have "\<forall>r \<in> set (level0_runs T f0). \<forall>r' \<in> set (map (run_of T) fss). newer_run r r'"
    by (metis in_set_conv_nth imageE list.set_map)
  then show ?thesis
    using len ok runs0 runs by (simp add: version_ok_def version_runs_def v runs_ok_append)
qed

text \<open>All entries of a version.\<close>

definition version_entries :: "(u64 \<Rightarrow> entry list) \<Rightarrow> Version \<Rightarrow> entry set" where
  "version_entries T v = (\<Union>l < kNumLevels. file_entries T (files_at v l))"

lemma set_version_runs:
  assumes "length (vfiles v) = kNumLevels"
  shows "(\<Union>r \<in> set (version_runs T v). set r) = version_entries T v"
proof -
  obtain f0 fss where v: "vfiles v = f0 # fss" using assms by (cases "vfiles v") (auto simp: kNumLevels_def)
  have "(\<Union>r \<in> set (version_runs T v). set r) = (\<Union>fs \<in> set (vfiles v). file_entries T (set fs))"
    by (auto simp: version_runs_def v level0_runs_def set_run_of file_entries_def)
  also have "\<dots> = (\<Union>l < kNumLevels. file_entries T (files_at v l))"
    using assms by (simp add: set_conv_nth) blast
  finally show ?thesis by (simp add: version_entries_def)
qed


section \<open>Changing the layout\<close>

text \<open>The files of a level after an edit whose files have new numbers.\<close>

lemma apply_edit_files:
  assumes "l < kNumLevels" "fresh_at e l (number ` files_at v l)"
    "sorted_wrt BySmallestKey (level_files v l)" "distinct (map number (level_files v l))"
  shows "files_at (apply_edit e v) l =
      {f \<in> files_at v l. number f \<notin> set (at_level l (deleted_files e))} \<union> refresh ` set (at_level l (new_files e))"
    and "sorted_wrt BySmallestKey (level_files (apply_edit e v) l)"
    and "distinct (map number (level_files (apply_edit e v) l))"
proof -
  let ?new = "at_level l (new_files e)"
  have new: "distinct (map number ?new)" "number f \<notin> number ` set ?new" if "f \<in> files_at v l" for f
    using assms(2) that by (auto simp: fresh_at_def)
  then show set_eq: "files_at (apply_edit e v) l =
      {f \<in> files_at v l. number f \<notin> set (at_level l (deleted_files e))} \<union> refresh ` set ?new"
    unfolding set_apply_edit [OF assms(1,2)] by auto
  show sorted: "sorted_wrt BySmallestKey (level_files (apply_edit e v) l)" by (rule sorted_apply_edit [OF assms(1-3)])
  have "distinct (map number ?new)" using assms(2) by (simp add: fresh_at_def)
  then have "inj_on number (set ?new)" by (simp add: distinct_map)
  then have "inj_on number (refresh ` set ?new)" by (auto simp: inj_on_def)
  moreover have "inj_on number (files_at v l)" using assms(4) by (simp add: distinct_map)
  moreover have "number f \<noteq> number g" if "f \<in> files_at v l" "g \<in> refresh ` set ?new" for f g
    using that new(2) [OF that(1)] by force
  ultimately have "inj_on number (files_at (apply_edit e v) l)"
    unfolding set_eq inj_on_def by (metis (no_types, lifting) Un_iff mem_Collect_eq)
  moreover have "distinct (level_files (apply_edit e v) l)"
  proof -
    have "distinct (map file_rank (level_files (apply_edit e v) l))"
      using sorted by (simp add: sorted_wrt_map BySmallestKey_rank [abs_def] strict_sorted_iff flip: sorted_wrt_map)
    then show ?thesis by (simp add: distinct_map)
  qed
  ultimately show "distinct (map number (level_files (apply_edit e v) l))" by (simp add: distinct_map)
qed

lemma file_ok_cong: "T (number f) = T' (number f) \<Longrightarrow> file_ok T f \<longleftrightarrow> file_ok T' f"
  by (simp add: file_ok_def)

lemma file_ok_refresh [simp]: "file_ok T (refresh f) = file_ok T f"
  by (simp add: file_ok_def)

lemma apart_refresh [simp]: "apart (refresh f) g = apart f g" "apart f (refresh g) = apart f g"
  by (simp_all add: apart_def)

lemma file_entries_cong: "(\<And>f. f \<in> F \<Longrightarrow> T (number f) = T' (number f)) \<Longrightarrow> file_entries T F = file_entries T' F"
  by (auto simp: file_entries_def)

lemma file_entries_refresh [simp]: "file_entries T (refresh ` F) = file_entries T F"
  by (simp add: file_entries_def)

text \<open>The order of the levels when some entries move from level \<open>L\<close> to the next one.\<close>

lemma newer_levels:
  assumes newE: "\<And>l l'. l < n \<Longrightarrow> l' < l \<Longrightarrow> newer (E l') (E l)" and L: "Suc L < n"
    and Eo: "\<And>l. l < n \<Longrightarrow> l \<noteq> L \<Longrightarrow> l \<noteq> Suc L \<Longrightarrow> E' l = E l"
    and EL: "E' L \<subseteq> E L" and ES: "E' (Suc L) \<subseteq> M \<union> E (Suc L)" "M \<subseteq> E L" and M: "newer (E' L) M"
    and l: "l < n" "l' < l"
  shows "newer (E' l') (E' l)"
proof -
  have ES': "E' (Suc L) \<subseteq> E L \<union> E (Suc L)" using ES by blast
  consider "l' = L" "l = Suc L" | "l' = L" "l > Suc L" | "l' = Suc L" | "l = L" | "l = Suc L" "l' < L"
    | "l \<noteq> L" "l \<noteq> Suc L" "l' \<noteq> L" "l' \<noteq> Suc L" using l by linarith
  then show ?thesis
  proof cases
    case 1
    have "newer (E' L) (E (Suc L))" using newE [of "Suc L" L] L EL newer_mono by blast
    then show ?thesis using M ES(1) 1 newer_Un(2) newer_mono by blast
  next
    case 2
    then show ?thesis using newE [of l L] Eo [of l] l EL newer_mono by (metis nat_neq_iff order_refl less_SucI)
  next
    case 3
    then have "newer (E L \<union> E (Suc L)) (E' l)" using newE [of l L] newE [of l "Suc L"] Eo [of l] l newer_Un(1) by simp
    then show ?thesis using 3 ES' newer_mono by blast
  next
    case 4
    then show ?thesis using newE [of L l'] Eo [of l'] l L EL newer_mono by auto
  next
    case 5
    then have "newer (E' l') (E L \<union> E (Suc L))" using newE [of L l'] newE [of "Suc L" l'] Eo [of l'] L l newer_Un(2) by simp
    then show ?thesis using 5 ES' newer_mono by blast
  next
    case 6
    then show ?thesis using newE Eo l by simp
  qed
qed

text \<open>
  A merge: the files \<open>I0\<close> of level \<open>L\<close> and \<open>I1\<close> of the next level are replaced by files \<open>Out\<close> of the next
  level that hold some of their entries.
\<close>

lemma layout_merge:
  assumes lay: "layout T v" and L: "Suc L < kNumLevels" and len: "length (vfiles v') = kNumLevels"
    and sorted: "\<And>l. l < kNumLevels \<Longrightarrow> sorted_wrt BySmallestKey (level_files v' l)"
    and dist: "\<And>l. l < kNumLevels \<Longrightarrow> distinct (map number (level_files v' l))"
    and I: "I0 \<subseteq> files_at v L" "I1 \<subseteq> files_at v (Suc L)"
    and same: "\<And>l. l < kNumLevels \<Longrightarrow> l \<noteq> L \<Longrightarrow> l \<noteq> Suc L \<Longrightarrow> files_at v' l = files_at v l"
    and atL: "files_at v' L = files_at v L - I0" and atS: "files_at v' (Suc L) = (files_at v (Suc L) - I1) \<union> Out"
    and T': "\<And>l f. l < kNumLevels \<Longrightarrow> f \<in> files_at v l \<Longrightarrow> T' (number f) = T (number f)"
    and ok: "\<And>f. f \<in> Out \<Longrightarrow> file_ok T' f"
    and sub: "file_entries T' Out \<subseteq> file_entries T I0 \<union> file_entries T I1"
    and apart_out: "\<And>f g. f \<in> Out \<Longrightarrow> g \<in> Out \<Longrightarrow> number f \<noteq> number g \<Longrightarrow> apart f g"
    and apart_rest: "\<And>f g. f \<in> files_at v (Suc L) - I1 \<Longrightarrow> g \<in> Out \<Longrightarrow> apart f g"
    and other: "\<And>f g. f \<in> files_at v L - I0 \<Longrightarrow> g \<in> I0 \<Longrightarrow> apart f g"
  shows "layout T' v'"
proof -
  note lay = layoutD [OF lay]
  define E where "E l = file_entries T (files_at v l)" for l
  define E' where "E' l = file_entries T' (files_at v' l)" for l
  have old: "file_entries T' F = file_entries T F" if "F \<subseteq> files_at v l" "l < kNumLevels" for F l
    using T' that by (intro file_entries_cong) auto
  have Eo: "E' l = E l" if "l < kNumLevels" "l \<noteq> L" "l \<noteq> Suc L" for l
    using same [OF that] old [of "files_at v l" l] that by (simp add: E_def E'_def)
  have EL: "E' L = file_entries T (files_at v L - I0)"
    using atL old [of "files_at v L - I0" L] L by (simp add: E'_def)
  have I0E: "file_entries T I0 \<subseteq> E L" "file_entries T I1 \<subseteq> E (Suc L)"
    using I by (simp_all add: E_def file_entries_mono)
  have ES: "E' (Suc L) \<subseteq> file_entries T I0 \<union> E (Suc L)"
  proof -
    have "E' (Suc L) = file_entries T (files_at v (Suc L) - I1) \<union> file_entries T' Out"
      using atS old [of "files_at v (Suc L) - I1" "Suc L"] L by (simp add: E'_def file_entries_Un)
    moreover have "file_entries T (files_at v (Suc L) - I1) \<subseteq> E (Suc L)"
      unfolding E_def by (intro file_entries_mono) blast
    ultimately show ?thesis using sub I0E(2) by blast
  qed
  have newI0: "newer (E' L) (file_entries T I0)"
    unfolding EL
  proof (rule newer_disjoint)
    fix x y assume "x \<in> file_entries T (files_at v L - I0)" "y \<in> file_entries T I0"
    then obtain f g where "f \<in> files_at v L - I0" "x \<in> set (T (number f))" "g \<in> I0" "y \<in> set (T (number g))"
      by (auto simp: file_entries_def)
    then show "user_key (fst x) \<noteq> user_key (fst y)"
      using apart_keys [OF other, of f g T x y] lay(4) [of L] I(1) L by auto
  qed
  have "E' L \<subseteq> E L" unfolding EL E_def by (intro file_entries_mono) blast
  from newer_levels [OF _ L Eo this ES I0E(1) newI0]
  have newer': "newer (E' l') (E' l)" if "l < kNumLevels" "l' < l" for l l'
    using lay(6) that unfolding E_def by blast
  have fok: "file_ok T' f" if "l < kNumLevels" "f \<in> files_at v l" for l f
    using lay(4) [OF that] T' [OF that] file_ok_cong by metis
  have sub_level: "f \<in> files_at v l \<or> l = Suc L \<and> f \<in> Out" if "l < kNumLevels" "f \<in> files_at v' l" for l f
    using that same [of l] atL atS by (cases "l = L"; cases "l = Suc L") auto
  show ?thesis
    unfolding layout_def
  proof (intro conjI allI impI ballI)
    show "newer (file_entries T' (files_at v' l')) (file_entries T' (files_at v' l))" if "l < kNumLevels" "l' < l" for l l'
      using newer' [OF that] by (simp add: E'_def)
    show "file_ok T' f" if "l < kNumLevels" "f \<in> files_at v' l" for l f
      using sub_level [OF that] fok ok that(1) by blast
    show "newer (set (T' (number f))) (set (T' (number g)))"
      if "f \<in> files_at v' 0" "g \<in> files_at v' 0" "number g < number f" for f g
      using sub_level [of 0 f] sub_level [of 0 g] that lay(5) [of f g] T' [of 0 f] T' [of 0 g] by (simp add: kNumLevels_def)
    show "apart f g" if l: "l < kNumLevels" "0 < l" and fg: "f \<in> files_at v' l" "g \<in> files_at v' l" "number f \<noteq> number g" for l f g
    proof (cases "l = Suc L")
      case True
      then show ?thesis using fg atS lay(7) [of l f g] l apart_out [of f g] apart_rest [of f g] apart_rest [of g f] apart_sym
        by auto
    next
      case False
      then show ?thesis using sub_level [of l f] sub_level [of l g] fg l lay(7) by blast
    qed
  qed (use sorted dist len in auto)
qed


text \<open>A new table with entries that are newer than all others of the version, in a level where it fits.\<close>

lemma layout_add:
  assumes lay: "layout T v" and l: "l < kNumLevels" and len: "length (vfiles v') = kNumLevels"
    and sorted: "\<And>k. k < kNumLevels \<Longrightarrow> sorted_wrt BySmallestKey (level_files v' k)"
    and dist: "\<And>k. k < kNumLevels \<Longrightarrow> distinct (map number (level_files v' k))"
    and same: "\<And>k. k < kNumLevels \<Longrightarrow> k \<noteq> l \<Longrightarrow> files_at v' k = files_at v k"
    and at_l: "files_at v' l = insert f (files_at v l)"
    and T': "\<And>k g. k < kNumLevels \<Longrightarrow> g \<in> files_at v k \<Longrightarrow> T' (number g) = T (number g)"
    and ok: "file_ok T' f" and new: "newer (set (T' (number f))) (version_entries T v)"
    and num: "\<And>g. g \<in> files_at v 0 \<Longrightarrow> number g < number f"
    and fits: "\<And>k g. 0 < l \<Longrightarrow> k \<le> l \<Longrightarrow> g \<in> files_at v k \<Longrightarrow> apart g f"
  shows "layout T' v'"
proof -
  note lay = layoutD [OF lay]
  have old: "file_entries T' (files_at v k) = file_entries T (files_at v k)" if "k < kNumLevels" for k
    using T' that by (intro file_entries_cong) auto
  have ent: "file_entries T' (files_at v' k) =
      (if k = l then set (T' (number f)) else {}) \<union> file_entries T (files_at v k)" if "k < kNumLevels" for k
    using same [OF that] at_l old [OF that] by (auto simp: file_entries_def)
  have fok: "file_ok T' g" if "k < kNumLevels" "g \<in> files_at v k" for k g
    using lay(4) [OF that] T' [OF that] file_ok_cong by metis
  have newf: "newer (set (T' (number f))) (file_entries T (files_at v k))" if "k < kNumLevels" for k
    using newer_mono [OF new order_refl, of "file_entries T (files_at v k)"] that by (auto simp: version_entries_def)
  have before: "newer (file_entries T (files_at v k)) (set (T' (number f)))" if "k < l" for k
  proof (rule newer_disjoint)
    fix x y assume "x \<in> file_entries T (files_at v k)" and y: "y \<in> set (T' (number f))"
    then obtain g where g: "g \<in> files_at v k" "x \<in> set (T (number g))" by (auto simp: file_entries_def)
    have "x \<in> set (T' (number g))" using T' [of k g] g that l by simp
    then show "user_key (fst x) \<noteq> user_key (fst y)"
      using apart_keys [OF fits fok ok _ y, of k g k x] g that l by auto
  qed
  have newer': "newer (file_entries T' (files_at v' k')) (file_entries T' (files_at v' k))" if k: "k < kNumLevels" "k' < k" for k k'
    using ent [of k] ent [of k'] k lay(6) [OF k] newf [of k] before [of k'] by (auto simp: newer_Un)
  have mem: "g = f \<and> k = l \<or> g \<in> files_at v k" if "k < kNumLevels" "g \<in> files_at v' k" for k g
    using that same [of k] at_l by (cases "k = l") auto
  show ?thesis
    unfolding layout_def
  proof (intro conjI allI impI ballI)
    show "newer (file_entries T' (files_at v' k')) (file_entries T' (files_at v' k))" if "k < kNumLevels" "k' < k" for k k'
      by (rule newer' [OF that])
    show "file_ok T' g" if "k < kNumLevels" "g \<in> files_at v' k" for k g
      using mem [OF that] fok ok that(1) by blast
    show "newer (set (T' (number g))) (set (T' (number h)))"
      if gh: "g \<in> files_at v' 0" "h \<in> files_at v' 0" "number h < number g" for g h
    proof -
      have z: "0 < kNumLevels" by (simp add: kNumLevels_def)
      from mem [OF z gh(2)] have h: "h \<in> files_at v 0" using mem [OF z gh(1)] gh(3) num by force
      then have "set (T (number h)) \<subseteq> file_entries T (files_at v 0)" by (auto simp: file_entries_def)
      from newer_mono [OF newf [OF z] order_refl this] have f: "newer (set (T' (number f))) (set (T' (number h)))"
        using T' [OF z h] by simp
      from mem [OF z gh(1)] show ?thesis
      proof
        assume "g \<in> files_at v 0"
        then show ?thesis using lay(5) [OF _ h gh(3)] T' [OF z] h by simp
      qed (use f in simp)
    qed
    show "apart g h" if k: "k < kNumLevels" "0 < k" and gh: "g \<in> files_at v' k" "h \<in> files_at v' k" "number g \<noteq> number h" for k g h
      using mem [OF k(1) gh(1)] mem [OF k(1) gh(2)] lay(7) [OF k] fits [of k] k(2) gh(3) apart_sym by blast
  qed (use sorted dist len in auto)
qed

section \<open>An example\<close>

lemma example_layout: "layout (\<lambda>_. [example_entry]) example_version"
proof -
  let ?f = "new_FileMetaData 4 1 (ikey example_entry) (ikey example_entry)"
  have at: "level_files example_version l = (if l = 0 then [?f] else [])" if "l < kNumLevels" for l
    using that by (simp add: example_version_def kNumLevels_def nth_Cons' nth_replicate)
  have ok: "file_ok (\<lambda>_. [example_entry]) ?f" using example_entry_ok by (simp add: file_ok_def new_FileMetaData_def)
  have "length (vfiles example_version) = kNumLevels" by (simp add: example_version_def kNumLevels_def)
  then show ?thesis using ok at [of 0] by (auto simp: layout_def at file_entries_def kNumLevels_def)
qed

end
