(* ===== verification/Compactions.thy ===== *)
theory Compactions
  imports Version_Layout
begin

text \<open>
  Compactions of table files: which files to merge (\<^verbatim>\<open>PickCompaction\<close>, \<^verbatim>\<open>SetupOtherInputs\<close> and the
  class \<^verbatim>\<open>Compaction\<close> of \<^verbatim>\<open>db/version_set.cc\<close>) and the merging itself (\<^verbatim>\<open>DoCompactionWork\<close> of
  \<^verbatim>\<open>db/db_impl.cc\<close>), over the bytewise comparator. The work runs with no memtable waiting to be
  compacted: the block at the top of the loop that writes one out when \<^verbatim>\<open>has_imm_\<close> is set
  (\<^verbatim>\<open>db_impl.cc\<close>, lines 884 to 893) is not part of \<open>CompactionWork_loop\<close>. \<open>BackgroundCompaction\<close> starts a
  compaction only when no memtable waits, and in this development a background call is one step, in
  which no writer switches memtables. Sums of file
  sizes are unbounded integers where the code adds in \<^verbatim>\<open>int64_t\<close>.
\<close>

section \<open>Choosing the inputs\<close>

definition kExpandedCompactionByteSizeLimit :: int where
  "kExpandedCompactionByteSizeLimit = 25 * kTargetFileSize"

definition MaxFileSizeForLevel :: "nat \<Rightarrow> u64" where
  "MaxFileSizeForLevel level = word_of_int kTargetFileSize"

record Compaction =
  clevel :: nat
  max_output_file_size :: u64
  input_version :: Version
  cedit :: VersionEdit
  inputs0 :: files
  inputs1 :: files
  grandparents :: files
  grandparent_index :: nat
  seen_key :: bool
  overlapped_bytes :: int
  level_ptrs :: "nat list"

definition Compaction_new :: "nat \<Rightarrow> Version \<Rightarrow> Compaction" where
  "Compaction_new level v = \<lparr>clevel = level, max_output_file_size = MaxFileSizeForLevel level,
     input_version = v, cedit = VersionEdit_new, inputs0 = [], inputs1 = [], grandparents = [],
     grandparent_index = 0, seen_key = False, overlapped_bytes = 0, level_ptrs = replicate kNumLevels 0\<rparr>"

definition GetRange :: "files \<Rightarrow> bytes \<times> bytes" where
  "GetRange inputs =
     (case inputs of
        [] \<Rightarrow> ([], [])
      | f # fs \<Rightarrow>
          fold (\<lambda>f (s, l). (if icmp (smallest f) s < 0 then smallest f else s,
                          if icmp (largest f) l > 0 then largest f else l)) fs (smallest f, largest f))"

definition GetRange2 :: "files \<Rightarrow> files \<Rightarrow> bytes \<times> bytes" where
  "GetRange2 in1 in2 = GetRange (in1 @ in2)"

text \<open>\<open>SetupOtherInputs\<close> up to the inputs: the files of both levels and the whole range.\<close>

definition ExpandInputs :: "Version \<Rightarrow> nat \<Rightarrow> files \<Rightarrow> files \<times> files \<times> bytes \<times> bytes \<times> bytes" where
  "ExpandInputs v level in0 =
     (let (small, large) = GetRange in0;
          in1 = GetOverlappingInputs v (level + 1) (Some small) (Some large);
          (all_start, all_limit) = GetRange2 in0 in1
      in if in1 \<noteq> [] then
           let expanded0 = GetOverlappingInputs v level (Some all_start) (Some all_limit);
               inputs1_size = TotalFileSize in1;
               expanded0_size = TotalFileSize expanded0
           in if length expanded0 > length in0 \<and>
                 inputs1_size + expanded0_size < kExpandedCompactionByteSizeLimit then
                let (new_start, new_limit) = GetRange expanded0;
                    expanded1 = GetOverlappingInputs v (level + 1) (Some new_start) (Some new_limit)
                in if length expanded1 = length in1 then
                     let (all_start, all_limit) = GetRange2 expanded0 expanded1
                     in (expanded0, expanded1, new_limit, all_start, all_limit)
                   else (in0, in1, large, all_start, all_limit)
              else (in0, in1, large, all_start, all_limit)
         else (in0, in1, large, all_start, all_limit))"

definition SetupOtherInputs :: "VersionSet \<Rightarrow> Compaction \<Rightarrow> Compaction \<times> VersionSet" where
  "SetupOtherInputs vs c =
     (let level = clevel c;
          (in0, in1, large, all_start, all_limit) = ExpandInputs (vs_current vs) level (inputs0 c);
          gp = (if level + 2 < kNumLevels
                then GetOverlappingInputs (vs_current vs) (level + 2) (Some all_start) (Some all_limit)
                else grandparents c)
      in (c\<lparr>inputs0 := in0, inputs1 := in1, grandparents := gp, cedit := SetCompactPointer level large (cedit c)\<rparr>,
          vs\<lparr>vs_compact_pointer := (vs_compact_pointer vs)[level := large]\<rparr>))"

text \<open>The first file after the compaction pointer, or the first of all.\<close>

definition PickFile :: "VersionSet \<Rightarrow> nat \<Rightarrow> files" where
  "PickFile vs level =
     (let fs = level_files (vs_current vs) level; ptr = vs_compact_pointer vs ! level in
      case find (\<lambda>f. ptr = [] \<or> icmp (largest f) ptr > 0) fs of
        Some f \<Rightarrow> [f]
      | None \<Rightarrow> take 1 fs)"

definition PickCompaction :: "VersionSet \<Rightarrow> Compaction option \<times> VersionSet" where
  "PickCompaction vs =
     (let v = vs_current vs;
          size_compaction = (compaction_score v \<ge> 1);
          picked =
            (if size_compaction then Some (nat (compaction_level v), PickFile vs (nat (compaction_level v)))
             else (case file_to_compact v of
                     Some (level, n) \<Rightarrow> Some (level, filter (\<lambda>f. number f = n) (level_files v level))
                   | None \<Rightarrow> None))
      in (case picked of
            None \<Rightarrow> (None, vs)
          | Some (level, in0) \<Rightarrow>
              let in0 = (if level = 0
                         then (case GetRange in0 of
                                 (small, large) \<Rightarrow> GetOverlappingInputs v 0 (Some small) (Some large))
                         else in0);
                  (c, vs) = SetupOtherInputs vs ((Compaction_new level v)\<lparr>inputs0 := in0\<rparr>)
              in (Some c, vs)))"

text \<open>The cut of the inputs of a manual compaction: up to the file that reaches the limit.\<close>

fun LimitInputs :: "u64 \<Rightarrow> u64 \<Rightarrow> files \<Rightarrow> files" where
  "LimitInputs limit sofar [] = []"
| "LimitInputs limit sofar (f # fs) =
     (let sofar = sofar + file_size f in if sofar \<ge> limit then [f] else f # LimitInputs limit sofar fs)"

definition CompactRange :: "VersionSet \<Rightarrow> nat \<Rightarrow> bytes option \<Rightarrow> bytes option \<Rightarrow> Compaction option \<times> VersionSet" where
  "CompactRange vs level begins ends =
     (let v = vs_current vs;
          inputs = GetOverlappingInputs v level begins ends
      in if inputs = [] then (None, vs)
         else
           let inputs = (if level > 0 then LimitInputs (MaxFileSizeForLevel level) 0 inputs else inputs);
               (c, vs) = SetupOtherInputs vs ((Compaction_new level v)\<lparr>inputs0 := inputs\<rparr>)
           in (Some c, vs))"

definition IsTrivialMove :: "Compaction \<Rightarrow> bool" where
  "IsTrivialMove c \<longleftrightarrow> length (inputs0 c) = 1 \<and> length (inputs1 c) = 0 \<and>
     TotalFileSize (grandparents c) \<le> kMaxGrandParentOverlapBytes"

definition AddInputDeletions :: "Compaction \<Rightarrow> VersionEdit \<Rightarrow> VersionEdit" where
  "AddInputDeletions c e =
     fold (\<lambda>f. DeleteFile (clevel c + 1) (number f)) (inputs1 c)
       (fold (\<lambda>f. DeleteFile (clevel c) (number f)) (inputs0 c) e)"

text \<open>One level of \<open>IsBaseLevelForKey\<close>: the new pointer and whether the key is in the range of a file.\<close>

function BaseLevel_loop :: "files \<Rightarrow> bytes \<Rightarrow> nat \<Rightarrow> nat \<times> bool" where
  "BaseLevel_loop fs ukey i =
     (if i < length fs then
        let f = fs ! i in
        if Bytewise_Compare ukey (ExtractUserKey (largest f)) \<le> 0
        then (i, Bytewise_Compare ukey (ExtractUserKey (smallest f)) \<ge> 0)
        else BaseLevel_loop fs ukey (i + 1)
      else (i, False))"
  by pat_completeness auto
termination
  by (relation "measure (\<lambda>(fs, ukey, i). length fs - i)") auto

declare BaseLevel_loop.simps [simp del]

fun BaseLevel_levels :: "Version \<Rightarrow> bytes \<Rightarrow> nat list \<Rightarrow> nat list \<Rightarrow> bool \<times> nat list" where
  "BaseLevel_levels v ukey [] ptrs = (True, ptrs)"
| "BaseLevel_levels v ukey (lvl # lvls) ptrs =
     (case BaseLevel_loop (level_files v lvl) ukey (ptrs ! lvl) of (i, inside) \<Rightarrow>
        if inside then (False, ptrs[lvl := i]) else BaseLevel_levels v ukey lvls (ptrs[lvl := i]))"

definition IsBaseLevelForKey :: "Compaction \<Rightarrow> bytes \<Rightarrow> bool \<times> Compaction" where
  "IsBaseLevelForKey c ukey =
     (case BaseLevel_levels (input_version c) ukey [clevel c + 2..<kNumLevels] (level_ptrs c) of
        (r, ptrs) \<Rightarrow> (r, c\<lparr>level_ptrs := ptrs\<rparr>))"

function Grandparent_loop :: "files \<Rightarrow> bytes \<Rightarrow> bool \<Rightarrow> nat \<Rightarrow> int \<Rightarrow> nat \<times> int" where
  "Grandparent_loop gps internal_key seen i overlapped =
     (if i < length gps \<and> icmp internal_key (largest (gps ! i)) > 0
      then Grandparent_loop gps internal_key seen (i + 1)
             (if seen then sint (word_of_int overlapped + file_size (gps ! i)) else overlapped)
      else (i, overlapped))"
  by pat_completeness auto
termination
  by (relation "measure (\<lambda>(gps, k, seen, i, ov). length gps - i)") auto

declare Grandparent_loop.simps [simp del]

definition ShouldStopBefore :: "Compaction \<Rightarrow> bytes \<Rightarrow> bool \<times> Compaction" where
  "ShouldStopBefore c internal_key =
     (case Grandparent_loop (grandparents c) internal_key (seen_key c) (grandparent_index c) (overlapped_bytes c) of
        (i, overlapped) \<Rightarrow>
          let c = c\<lparr>grandparent_index := i, overlapped_bytes := overlapped, seen_key := True\<rparr> in
          if overlapped > kMaxGrandParentOverlapBytes then (True, c\<lparr>overlapped_bytes := 0\<rparr>) else (False, c))"

section \<open>The work\<close>

text \<open>
  Keys and values go through as byte strings. \<open>table_ops\<close> is the interface of the table code: the
  size \<^verbatim>\<open>TableBuilder::FileSize\<close> gives after the entries added so far, the contents of the finished
  file, and the entries that an iterator over such a file goes through.
\<close>

type_synonym raw = "bytes \<times> bytes"

record table_ops =
  tb_FileSize :: "raw list \<Rightarrow> u64"
  tb_Finish :: "raw list \<Rightarrow> bytes"
  tb_Entries :: "bytes \<Rightarrow> entry list"

text \<open>The outcomes of the calls of the environment for one output file, by its number.\<close>

record output_env =
  out_new :: "u64 \<Rightarrow> Status"
  out_finish :: "u64 \<Rightarrow> Status"

record Output =
  out_number :: u64
  out_size :: u64
  out_smallest :: bytes
  out_largest :: bytes

record CompactionState =
  compaction :: Compaction
  smallest_snapshot :: u64
  outputs :: "Output list"
  builder :: "raw list option"
  total_bytes :: u64
  current_user_key :: "bytes option"
  last_sequence_for_key :: u64
  cfiles :: file_system
  cversions :: VersionSet

definition OpenCompactionOutputFile :: "output_env \<Rightarrow> CompactionState \<Rightarrow> Status \<times> CompactionState" where
  "OpenCompactionOutputFile env st =
     (let (file_number, vs) = NewFileNumber (cversions st);
          out = \<lparr>out_number = file_number, out_size = 0, out_smallest = [], out_largest = []\<rparr>;
          st = st\<lparr>cversions := vs, outputs := outputs st @ [out]\<rparr>;
          s = out_new env file_number
      in if Status_ok s
         then (s, st\<lparr>builder := Some [], cfiles := AList.update (TableFileName (vs_dbname vs) file_number) [] (cfiles st)\<rparr>)
         else (s, st))"

text \<open>
  \<open>out_finish\<close> is the first error of the input, \<^verbatim>\<open>Finish\<close>, \<^verbatim>\<open>Sync\<close>, \<^verbatim>\<open>Close\<close> and the check that the table can be opened.
  When the input has an error the code calls \<^verbatim>\<open>Abandon\<close> and the file keeps the bytes flushed so far; here the whole
  table is written in every case. After an error the compaction is given up, and no version ever names the file.
\<close>

definition FinishCompactionOutputFile :: "table_ops \<Rightarrow> output_env \<Rightarrow> CompactionState \<Rightarrow> Status \<times> CompactionState" where
  "FinishCompactionOutputFile ops env st =
     (let out = last (outputs st);
          data = tb_Finish ops (case builder st of None \<Rightarrow> [] | Some es \<Rightarrow> es);
          current_bytes = word_of_nat (length data)
      in (out_finish env (out_number out),
          st\<lparr>outputs := butlast (outputs st) @ [out\<lparr>out_size := current_bytes\<rparr>],
             total_bytes := total_bytes st + current_bytes,
             builder := None,
             cfiles := AList.update (TableFileName (vs_dbname (cversions st)) (out_number out)) data (cfiles st)\<rparr>))"

text \<open>Whether an entry is dropped.\<close>

definition DropEntry :: "bytes \<Rightarrow> CompactionState \<Rightarrow> bool \<times> CompactionState" where
  "DropEntry key st =
     (case ParseInternalKey key of
        None \<Rightarrow> (False, st\<lparr>current_user_key := None, last_sequence_for_key := kMaxSequenceNumber\<rparr>)
      | Some pk \<Rightarrow>
          let st = (if (case current_user_key st of
                          None \<Rightarrow> True | Some k \<Rightarrow> Bytewise_Compare (user_key pk) k \<noteq> 0)
                    then st\<lparr>current_user_key := Some (user_key pk), last_sequence_for_key := kMaxSequenceNumber\<rparr>
                    else st);
              (dropped, st) =
                (if last_sequence_for_key st \<le> smallest_snapshot st then (True, st)
                 else if vtype pk = kTypeDeletion \<and> sequence pk \<le> smallest_snapshot st
                 then (case IsBaseLevelForKey (compaction st) (user_key pk) of
                         (isbase, c) \<Rightarrow> (isbase, st\<lparr>compaction := c\<rparr>))
                 else (False, st))
          in (dropped, st\<lparr>last_sequence_for_key := sequence pk\<rparr>))"

text \<open>Adding an entry to the open table, and closing the table when it is big enough.\<close>

definition AddEntry :: "table_ops \<Rightarrow> output_env \<Rightarrow> bytes \<Rightarrow> bytes \<Rightarrow> CompactionState \<Rightarrow> Status \<times> CompactionState" where
  "AddEntry ops env key val st =
     (case (case builder st of None \<Rightarrow> OpenCompactionOutputFile env st | Some es \<Rightarrow> (Status_OK, st)) of
        (s, st) \<Rightarrow>
          if \<not> Status_ok s then (s, st)
          else
            let es = (case builder st of None \<Rightarrow> [] | Some es \<Rightarrow> es);
                out = last (outputs st);
                out = (if es = [] then out\<lparr>out_smallest := key\<rparr> else out);
                out = out\<lparr>out_largest := key\<rparr>;
                es = es @ [(key, val)];
                st = st\<lparr>outputs := butlast (outputs st) @ [out], builder := Some es\<rparr>
            in if tb_FileSize ops es \<ge> max_output_file_size (compaction st)
               then FinishCompactionOutputFile ops env st
               else (Status_OK, st))"

definition CompactEntry :: "table_ops \<Rightarrow> output_env \<Rightarrow> bytes \<Rightarrow> bytes \<Rightarrow> CompactionState \<Rightarrow> Status \<times> CompactionState" where
  "CompactEntry ops env key val st =
     (let (stop, c) = ShouldStopBefore (compaction st) key;
          st = st\<lparr>compaction := c\<rparr>;
          (s, st) = (if stop \<and> builder st \<noteq> None then FinishCompactionOutputFile ops env st else (Status_OK, st))
      in if \<not> Status_ok s then (s, st)
         else (case DropEntry key st of
                 (dropped, st) \<Rightarrow> if dropped then (Status_OK, st) else AddEntry ops env key val st))"

fun CompactionWork_loop :: "table_ops \<Rightarrow> output_env \<Rightarrow> raw list \<Rightarrow> CompactionState \<Rightarrow> Status \<times> CompactionState" where
  "CompactionWork_loop ops env [] st = (Status_OK, st)"
| "CompactionWork_loop ops env ((key, val) # input) st =
     (case CompactEntry ops env key val st of
        (s, st) \<Rightarrow> if Status_ok s then CompactionWork_loop ops env input st else (s, st))"

definition InstallCompactionResults ::
    "manifest_env \<Rightarrow> CompactionState \<Rightarrow> Status \<times> CompactionState" where
  "InstallCompactionResults menv st =
     (let c = compaction st;
          edit = AddInputDeletions c (cedit c);
          edit = fold (\<lambda>out. AddFile (clevel c + 1) (out_number out) (out_size out) (out_smallest out) (out_largest out))
                   (outputs st) edit;
          (s, vs, fs) = LogAndApply menv (cfiles st) (cversions st) edit
      in (s, st\<lparr>cversions := vs, cfiles := fs\<rparr>))"

text \<open>The runs below the merging iterator over the inputs: level-0 files one by one, the files of another level in a row.\<close>

definition MakeInputIterator :: "(u64 \<Rightarrow> entry list) \<Rightarrow> Compaction \<Rightarrow> entry list list" where
  "MakeInputIterator T c =
     (if inputs0 c = [] then []
      else if clevel c = 0 then map (\<lambda>f. T (number f)) (inputs0 c) else [run_of T (inputs0 c)]) @
     (if inputs1 c = [] then [] else [run_of T (inputs1 c)])"

text \<open>
  \<open>input\<close> is what the merging iterator over the inputs goes through and \<open>input_status\<close> its status at
  the end; \<open>shutdown\<close> is the number of entries after which the loop sees that the database is
  being closed, if it is.
\<close>

definition DoCompactionWork ::
    "table_ops \<Rightarrow> output_env \<Rightarrow> manifest_env \<Rightarrow> raw list \<Rightarrow> Status \<Rightarrow> nat option \<Rightarrow> u64 list \<Rightarrow> file_system \<Rightarrow>
     VersionSet \<Rightarrow> Compaction \<Rightarrow> Status \<times> CompactionState" where
  "DoCompactionWork ops env menv input input_status shutdown snapshots fs vs c =
     (let st = \<lparr>compaction = c,
                smallest_snapshot = (case snapshots of [] \<Rightarrow> vs_last_sequence vs | s # _ \<Rightarrow> s),
                outputs = [], builder = None, total_bytes = 0, current_user_key = None,
                last_sequence_for_key = kMaxSequenceNumber, cfiles = fs, cversions = vs\<rparr>;
          (s, st) = CompactionWork_loop ops env (case shutdown of None \<Rightarrow> input | Some n \<Rightarrow> take n input) st;
          s = (if Status_ok s \<and> shutdown \<noteq> None then Status_IOError (cstr ''Deleting DB during compaction'') [] else s);
          (s, st) = (if Status_ok s \<and> builder st \<noteq> None then FinishCompactionOutputFile ops env st else (s, st));
          s = (if Status_ok s then input_status else s)
      in if Status_ok s then InstallCompactionResults menv st else (s, st))"


section \<open>Which entries are kept\<close>

text \<open>
  The loop drops an entry when a newer entry of the same key is already visible at the oldest
  snapshot, and a deletion marker that hides nothing. \<open>p\<close> is the entry before the list.
\<close>

definition hidden_by :: "u64 \<Rightarrow> entry option \<Rightarrow> entry \<Rightarrow> bool" where
  "hidden_by snap p e \<longleftrightarrow>
     (case p of None \<Rightarrow> False | Some q \<Rightarrow> user_key (fst q) = user_key (fst e) \<and> sequence (fst q) \<le> snap)"

definition obsolete_deletion :: "u64 \<Rightarrow> (bytes \<Rightarrow> bool) \<Rightarrow> entry \<Rightarrow> bool" where
  "obsolete_deletion snap isbase e \<longleftrightarrow>
     vtype (fst e) = kTypeDeletion \<and> sequence (fst e) \<le> snap \<and> isbase (user_key (fst e))"

fun keep :: "u64 \<Rightarrow> (bytes \<Rightarrow> bool) \<Rightarrow> entry option \<Rightarrow> entry list \<Rightarrow> entry list" where
  "keep snap isbase p [] = []"
| "keep snap isbase p (e # es) =
     (if hidden_by snap p e \<or> obsolete_deletion snap isbase e then keep snap isbase (Some e) es
      else e # keep snap isbase (Some e) es)"

lemma set_keep: "set (keep snap isbase p es) \<subseteq> set es"
  by (induction es arbitrary: p) auto

lemma sorted_keep: "sorted_wrt entry_less es \<Longrightarrow> sorted_wrt entry_less (keep snap isbase p es)"
proof (induction es arbitrary: p)
  case (Cons e es)
  then show ?case using set_keep [of snap isbase "Some e" es] by auto
qed simp

lemma entry_less_same_key:
  "user_key (fst a) = user_key (fst b) \<Longrightarrow> entry_less a b \<Longrightarrow> sequence (fst b) \<le> sequence (fst a)"
  by (auto simp: entry_less_def ikey_less_def)

lemma entry_less_key: "entry_less a b \<Longrightarrow> user_key (fst a) \<le> user_key (fst b)"
  by (auto simp: entry_less_def ikey_less_def)

lemma entry_less_irrefl [simp]: "\<not> entry_less a a"
  by (simp add: entry_less_def ikey_less_irrefl)

text \<open>A kept entry has no newer entry of its key at or below the snapshot.\<close>

lemma kept_not_hidden:
  assumes "sorted_wrt entry_less ((case p of None \<Rightarrow> [] | Some q \<Rightarrow> [q]) @ es)" "x \<in> set (keep snap isbase p es)"
    and "e \<in> set ((case p of None \<Rightarrow> [] | Some q \<Rightarrow> [q]) @ es)" "user_key (fst e) = user_key (fst x)" "entry_less e x"
  shows "snap < sequence (fst e)"
  using assms
proof (induction es arbitrary: p e)
  case (Cons y es)
  have sorted: "sorted_wrt entry_less ([y] @ es)" using Cons.prems(1) by (auto simp: sorted_wrt_append)
  note IH = Cons.IH [of "Some y", simplified, OF sorted [simplified]]
  show ?case
  proof (cases "x = y \<and> \<not> (hidden_by snap p y \<or> obsolete_deletion snap isbase y)")
    case True
    have "\<not> entry_less e y" if "e \<in> set es" using that sorted entry_less_trans [of e y e] by auto
    then have "e \<notin> set (y # es)" using Cons.prems(5) True by auto
    then obtain q where "p = Some q" "e = q" using Cons.prems(3) by (cases p) auto
    then show ?thesis using True Cons.prems(4) by (auto simp: hidden_by_def)
  next
    case False
    then have x: "x \<in> set (keep snap isbase (Some y) es)" using Cons.prems(2) by (auto split: if_splits)
    show ?thesis
    proof (cases "e \<in> set (y # es)")
      case True
      then show ?thesis using IH x Cons.prems(4,5) by auto
    next
      case no: False
      then obtain q where q: "p = Some q" "e = q" using Cons.prems(3) by (cases p) auto
      have "x \<in> set es" using x set_keep by blast
      then have "entry_less e y" "entry_less y x" using Cons.prems(1) q sorted by auto
      moreover from this have k: "user_key (fst y) = user_key (fst x)"
        using entry_less_key [of e y] entry_less_key [of y x] Cons.prems(4) by simp
      ultimately show ?thesis
        using IH [OF x, of y] entry_less_same_key [of e y] Cons.prems(4) by auto
    qed
  qed
qed simp

lemma dropped_reason:
  assumes "sorted_wrt entry_less ((case p of None \<Rightarrow> [] | Some q \<Rightarrow> [q]) @ es)"
    and "x \<in> set es" "x \<notin> set (keep snap isbase p es)"
  shows "(\<exists>e \<in> set ((case p of None \<Rightarrow> [] | Some q \<Rightarrow> [q]) @ es). user_key (fst e) = user_key (fst x) \<and>
      entry_less e x \<and> sequence (fst e) \<le> snap) \<or> obsolete_deletion snap isbase x"
  using assms
proof (induction es arbitrary: p)
  case (Cons y es)
  show ?case
  proof (cases "x \<in> set es \<and> x \<noteq> y")
    case True
    moreover have "x \<notin> set (keep snap isbase (Some y) es)" using Cons.prems(3) by (auto split: if_splits)
    moreover have "sorted_wrt entry_less ([y] @ es)" using Cons.prems(1) by (auto simp: sorted_wrt_append)
    ultimately show ?thesis using Cons.IH [of "Some y"] by auto
  next
    case False
    then have "x = y" using Cons.prems(2) by auto
    then have "hidden_by snap p x \<or> obsolete_deletion snap isbase x" using Cons.prems(3) by (auto split: if_splits)
    then show ?thesis using Cons.prems(1) \<open>x = y\<close> by (auto simp: hidden_by_def split: option.splits)
  qed
qed simp

lemma sorted_entries_total:
  "sorted_wrt entry_less es \<Longrightarrow> x \<in> set es \<Longrightarrow> y \<in> set es \<Longrightarrow> x = y \<or> entry_less x y \<or> entry_less y x"
  by (induction es) auto

text \<open>Dropping these entries changes nothing for a reader at the snapshot or later.\<close>

lemma visible_keep:
  assumes runs: "runs_ok rs" "runs_ok rs'" and es: "wf_entries es" "set es \<subseteq> (\<Union>r \<in> set rs. set r)"
    and new: "(\<Union>r \<in> set rs'. set r) = ((\<Union>r \<in> set rs. set r) - set es) \<union> set (keep snap isbase None es)"
    and S: "snap \<le> S"
    and hide: "\<And>e x. e \<in> set es \<Longrightarrow> isbase (user_key (fst e)) \<Longrightarrow> x \<in> (\<Union>r \<in> set rs. set r) - set es \<Longrightarrow>
      user_key (fst x) = user_key (fst e) \<Longrightarrow> sequence (fst e) < sequence (fst x)"
  shows "visible (merge_runs rs') S uk = visible (merge_runs rs) S uk"
proof -
  let ?E = "set (merge_runs rs)" and ?E' = "set (merge_runs rs')"
  have E': "?E' = (?E - set es) \<union> set (keep snap isbase None es)" and es': "set es \<subseteq> ?E"
    using new es(2) by (simp_all add: set_merge_runs)
  have sub: "?E' \<subseteq> ?E" using E' es' set_keep [of snap isbase None es] by blast
  have sorted: "sorted_wrt entry_less (merge_runs rs)" "sorted_wrt entry_less (merge_runs rs')" "sorted_wrt entry_less es"
    using wf_merge_runs runs es(1) by (simp_all add: wf_entries_def)
  show ?thesis
  proof (cases "newest (merge_runs rs) S uk")
    case None
    then have "newest (merge_runs rs') S uk = None" using sub unfolding newest_None_iff by blast
    with None show ?thesis by (simp add: visible_def)
  next
    case (Some e)
    note e = Some [unfolded newest_Some_iff [OF sorted(1)]]
    show ?thesis
    proof (cases "e \<in> ?E'")
      case True
      then have "newest (merge_runs rs') S uk = Some e"
        using e sub unfolding newest_Some_iff [OF sorted(2)] by blast
      with Some show ?thesis by (simp add: visible_def)
    next
      case False
      then have dropped: "e \<in> set es" "e \<notin> set (keep snap isbase None es)" using e E' by blast+
      have no_hide: "\<not> (\<exists>d \<in> set es. user_key (fst d) = user_key (fst e) \<and> entry_less d e \<and> sequence (fst d) \<le> snap)"
      proof
        assume "\<exists>d \<in> set es. user_key (fst d) = user_key (fst e) \<and> entry_less d e \<and> sequence (fst d) \<le> snap"
        then obtain d where d: "d \<in> set es" "user_key (fst d) = user_key (fst e)" "entry_less d e" "sequence (fst d) \<le> snap"
          by blast
        then have "d \<in> ?E" "sequence (fst d) \<le> S" using es' S by auto
        then show False using e d by blast
      qed
      then have del: "obsolete_deletion snap isbase e"
        using dropped_reason [of None es e snap isbase] sorted(3) dropped by auto
      have "newest (merge_runs rs') S uk = None"
      proof (rule ccontr)
        assume "\<not> ?thesis"
        then obtain x where "newest (merge_runs rs') S uk = Some x" by auto
        note x = this [unfolded newest_Some_iff [OF sorted(2)]]
        have "x \<noteq> e" using False x by blast
        moreover have "\<not> entry_less x e" using e x sub by blast
        moreover have xE: "x \<in> ?E" using x sub by blast
        ultimately have less: "entry_less e x" using sorted_entries_total [OF sorted(1)] e by blast
        show False
        proof (cases "x \<in> set es")
          case True
          then have "x \<in> set (keep snap isbase None es)" using x E' by blast
          then show False
            using kept_not_hidden [of None es x snap isbase e] sorted(3) dropped(1) e x less del
            by (auto simp: obsolete_deletion_def)
        next
          case False
          then have "x \<in> (\<Union>r \<in> set rs. set r) - set es" using xE by (simp add: set_merge_runs)
          then have "sequence (fst e) < sequence (fst x)"
            using hide [OF dropped(1) _ _ , of x] del x e by (simp add: obsolete_deletion_def)
          then show False using entry_less_same_key [OF _ less] e x by simp
        qed
      qed
      moreover have "entry_value e = None" using del by (simp add: obsolete_deletion_def entry_value_def)
      ultimately show ?thesis using Some by (simp add: visible_def)
    qed
  qed
qed


section \<open>The levels below\<close>

definition base_level :: "Version \<Rightarrow> nat \<Rightarrow> bytes \<Rightarrow> bool" where
  "base_level v level uk \<longleftrightarrow> (\<forall>l. level + 2 \<le> l \<and> l < kNumLevels \<longrightarrow>
     (\<forall>f \<in> files_at v l. \<not> (low_key f \<le> uk \<and> uk \<le> high_key f)))"

text \<open>The pointers have passed only files that end before the key.\<close>

definition ptrs_ok :: "Version \<Rightarrow> nat \<Rightarrow> bytes \<Rightarrow> nat list \<Rightarrow> bool" where
  "ptrs_ok v level uk ptrs \<longleftrightarrow> length ptrs = kNumLevels \<and>
     (\<forall>l. level + 2 \<le> l \<and> l < kNumLevels \<longrightarrow> ptrs ! l \<le> length (level_files v l) \<and>
        (\<forall>i < ptrs ! l. high_key (level_files v l ! i) < uk))"

lemma ptrs_ok_mono: "ptrs_ok v level uk ptrs \<Longrightarrow> uk \<le> uk' \<Longrightarrow> ptrs_ok v level uk' ptrs"
  unfolding ptrs_ok_def using less_le_trans by blast

lemma layout_level_order:
  assumes "layout T v" "0 < l" "l < kNumLevels" "i < j" "j < length (level_files v l)"
  shows "high_key (level_files v l ! i) < low_key (level_files v l ! j)"
proof -
  let ?f = "level_files v l ! i" and ?g = "level_files v l ! j"
  note lay = layoutD [OF assms(1)]
  have mem: "?f \<in> files_at v l" "?g \<in> files_at v l" using assms(4,5) by simp_all
  have "BySmallestKey ?f ?g" using lay(2) [OF assms(3)] assms(4,5) sorted_wrt_nth_less by blast
  moreover have "number ?f \<noteq> number ?g"
    using lay(3) [OF assms(3)] assms(4,5) by (auto simp: distinct_conv_nth)
  then have "apart ?f ?g" using lay(7) assms(2,3) mem by blast
  ultimately show ?thesis using BySmallestKey_apart file_keys(1) lay(4) [OF assms(3)] mem by blast
qed

lemma BaseLevel_loop_spec:
  assumes "\<And>i j. i < j \<Longrightarrow> j < length fs \<Longrightarrow> high_key (fs ! i) < low_key (fs ! j)"
    and "BaseLevel_loop fs uk i = (j, b)" "\<forall>k < i. high_key (fs ! k) < uk" "i \<le> length fs"
  shows "(\<forall>k < j. high_key (fs ! k) < uk) \<and> j \<le> length fs \<and> (b \<longleftrightarrow> (\<exists>f \<in> set fs. low_key f \<le> uk \<and> uk \<le> high_key f))"
  using assms
proof (induction fs uk i rule: BaseLevel_loop.induct)
  case (1 fs uk i)
  note loop = BaseLevel_loop.simps [of fs uk i]
  show ?case
  proof (cases "i < length fs \<and> \<not> uk \<le> high_key (fs ! i)")
    case True
    then have cmp: "\<not> Bytewise_Compare uk (high_key (fs ! i)) \<le> 0" by (simp add: Bytewise_Compare_def Slice_compare_order)
    have "\<forall>k < i + 1. high_key (fs ! k) < uk" using True "1.prems"(3) by (auto simp: less_Suc_eq)
    then show ?thesis
      using "1.IH" [OF _ refl cmp] "1.prems"(1,2) True cmp loop by (simp add: Let_def)
  next
    case False
    have past: "\<not> (low_key f \<le> uk \<and> uk \<le> high_key f)" if "f \<in> set (take i fs)" for f
    proof -
      from that obtain k where "k < i" "f = fs ! k" by (auto simp: in_set_conv_nth)
      then show ?thesis using "1.prems"(3) by auto
    qed
    show ?thesis
    proof (cases "i < length fs")
      case True
      have later: "\<not> (low_key f \<le> uk \<and> uk \<le> high_key f)" if "f \<in> set (drop (Suc i) fs)" for f
      proof -
        from that obtain k where "i < k" "k < length fs" "f = fs ! k"
          by (auto simp: in_set_conv_nth) (metis less_add_Suc1 less_diff_conv add.commute add_Suc_right)
        then show ?thesis using "1.prems"(1) [of i k] True False by auto
      qed
      have "set fs = set (take i fs) \<union> {fs ! i} \<union> set (drop (Suc i) fs)"
        using True by (metis id_take_nth_drop list.simps(15) set_append sup_assoc insert_is_Un)
      then have "(\<exists>f \<in> set fs. low_key f \<le> uk \<and> uk \<le> high_key f) \<longleftrightarrow> low_key (fs ! i) \<le> uk \<and> uk \<le> high_key (fs ! i)"
        using past later by blast
      then show ?thesis
        using True False "1.prems"(2-4) loop by (auto simp: Bytewise_Compare_def Slice_compare_order)
    next
      case no: False
      then have "take i fs = fs" by simp
      then show ?thesis using past no "1.prems"(2-4) loop by auto
    qed
  qed
qed

lemma BaseLevel_levels_spec:
  assumes lay: "layout T v" and "ptrs_ok v level uk ptrs" "\<And>l. l \<in> set lvls \<Longrightarrow> level + 2 \<le> l \<and> l < kNumLevels"
  shows "ptrs_ok v level uk (snd (BaseLevel_levels v uk lvls ptrs)) \<and>
    (fst (BaseLevel_levels v uk lvls ptrs) \<longleftrightarrow>
       (\<forall>l \<in> set lvls. \<forall>f \<in> files_at v l. \<not> (low_key f \<le> uk \<and> uk \<le> high_key f)))"
  using assms(2-)
proof (induction lvls arbitrary: ptrs)
  case (Cons l lvls)
  have l: "level + 2 \<le> l" "l < kNumLevels" using Cons.prems(2) by auto
  obtain j b where loop: "BaseLevel_loop (level_files v l) uk (ptrs ! l) = (j, b)" by fastforce
  have spec: "(\<forall>k < j. high_key (level_files v l ! k) < uk) \<and> j \<le> length (level_files v l) \<and>
      (b \<longleftrightarrow> (\<exists>f \<in> files_at v l. low_key f \<le> uk \<and> uk \<le> high_key f))"
    using BaseLevel_loop_spec [OF _ loop] layout_level_order [OF lay, of l] l Cons.prems(1) by (auto simp: ptrs_ok_def)
  then have ptrs: "ptrs_ok v level uk (ptrs[l := j])"
    using Cons.prems(1) l by (auto simp: ptrs_ok_def nth_list_update)
  show ?case using Cons.IH [OF ptrs] Cons.prems(2) loop spec ptrs by (cases b) auto
qed simp

lemma IsBaseLevelForKey_spec:
  assumes "layout T (input_version c)" "ptrs_ok (input_version c) (clevel c) uk (level_ptrs c)"
  obtains ptrs where "IsBaseLevelForKey c uk = (base_level (input_version c) (clevel c) uk, c\<lparr>level_ptrs := ptrs\<rparr>)"
    "ptrs_ok (input_version c) (clevel c) uk ptrs"
proof -
  let ?r = "BaseLevel_levels (input_version c) uk [clevel c + 2..<kNumLevels] (level_ptrs c)"
  have "ptrs_ok (input_version c) (clevel c) uk (snd ?r) \<and>
      (fst ?r \<longleftrightarrow> (\<forall>l \<in> set [clevel c + 2..<kNumLevels]. \<forall>f \<in> files_at (input_version c) l.
         \<not> (low_key f \<le> uk \<and> uk \<le> high_key f)))"
    by (rule BaseLevel_levels_spec [OF assms]) simp
  moreover from this have "fst ?r = base_level (input_version c) (clevel c) uk" unfolding base_level_def by auto
  ultimately show ?thesis using that [of "snd ?r"] by (simp add: IsBaseLevelForKey_def split_beta)
qed

end
