(* ===== verification/Compaction_Inputs.thy ===== *)
theory Compaction_Inputs
  imports Compactions
begin

text \<open>
  The inputs that \<^verbatim>\<open>VersionSet::PickCompaction\<close> and \<^verbatim>\<open>VersionSet::CompactRange\<close> choose are closed:
  no other file of the level shares a user key with the inputs of the level, and no other file of
  the next level reaches into the range of all inputs.
\<close>

section \<open>Ranges\<close>

lemma icmp_user:
  "icmp a b < 0 \<Longrightarrow> ExtractUserKey a \<le> ExtractUserKey b" "\<not> icmp a b < 0 \<Longrightarrow> ExtractUserKey b \<le> ExtractUserKey a"
  "icmp a b > 0 \<Longrightarrow> ExtractUserKey b \<le> ExtractUserKey a" "\<not> icmp a b > 0 \<Longrightarrow> ExtractUserKey a \<le> ExtractUserKey b"
  by (auto simp: InternalKeyComparator_Compare_less InternalKeyComparator_Compare_greater Bytewise_Compare_def Slice_compare_order)

text \<open>The range of some files covers each of them and ends at keys of them.\<close>

definition covers :: "files \<Rightarrow> bytes \<times> bytes \<Rightarrow> bool" where
  "covers fs r \<longleftrightarrow> (\<forall>f \<in> set fs. ExtractUserKey (fst r) \<le> low_key f \<and> high_key f \<le> ExtractUserKey (snd r))"

definition range_step :: "FileMetaData \<Rightarrow> bytes \<times> bytes \<Rightarrow> bytes \<times> bytes" where
  "range_step f r = (if icmp (smallest f) (fst r) < 0 then smallest f else fst r,
                     if icmp (largest f) (snd r) > 0 then largest f else snd r)"

lemma GetRange_fold: "GetRange (f # fs) = fold range_step fs (smallest f, largest f)"
proof -
  have "(\<lambda>f (s, l). (if icmp (smallest f) s < 0 then smallest f else s, if icmp (largest f) l > 0 then largest f else l)) =
      range_step" by (intro ext) (simp add: range_step_def split: prod.splits)
  then show ?thesis by (simp add: GetRange_def)
qed

lemma range_step_covers: "covers fs r \<Longrightarrow> covers (f # fs) (range_step f r)"
  using icmp_user(1,2) [of "smallest f" "fst r"] icmp_user(3,4) [of "largest f" "snd r"]
  by (auto simp: covers_def range_step_def dest: order_trans)

lemma range_step_ends:
  "fst r \<in> smallest ` F \<Longrightarrow> snd r \<in> largest ` F \<Longrightarrow> fst (range_step f r) \<in> smallest ` insert f F \<and> snd (range_step f r) \<in> largest ` insert f F"
  by (auto simp: range_step_def)

lemma GetRange_covers: "fs \<noteq> [] \<Longrightarrow> covers fs (GetRange fs)"
  and GetRange_ends: "fs \<noteq> [] \<Longrightarrow> fst (GetRange fs) \<in> smallest ` set fs \<and> snd (GetRange fs) \<in> largest ` set fs"
proof -
  have gen: "covers (done @ fs) (fold range_step fs r) \<and> fst (fold range_step fs r) \<in> smallest ` (D \<union> set fs) \<and>
      snd (fold range_step fs r) \<in> largest ` (D \<union> set fs)"
    if "covers done r" "fst r \<in> smallest ` D" "snd r \<in> largest ` D" for "done" r D fs
    using that
  proof (induction fs arbitrary: r "done" D)
    case (Cons f fs)
    have "covers (f # done) (range_step f r)" by (rule range_step_covers [OF Cons.prems(1)])
    with Cons.IH [OF this, of "insert f D"] range_step_ends [OF Cons.prems(2,3), of f] show ?case
      by (auto simp: covers_def)
  qed simp
  assume "fs \<noteq> []"
  then obtain f gs where fs: "fs = f # gs" by (cases fs) auto
  have "covers [f] (smallest f, largest f)" by (simp add: covers_def)
  from gen [OF this, of "{f}" gs] show "covers fs (GetRange fs)"
    "fst (GetRange fs) \<in> smallest ` set fs \<and> snd (GetRange fs) \<in> largest ` set fs"
    by (simp_all add: fs GetRange_fold)
qed


section \<open>Closed inputs\<close>

definition isolated :: "Version \<Rightarrow> nat \<Rightarrow> files \<Rightarrow> bool" where
  "isolated v l fs \<longleftrightarrow> set fs \<subseteq> files_at v l \<and> sorted_wrt BySmallestKey fs \<and> (\<forall>f \<in> files_at v l - set fs. \<forall>g \<in> set fs. apart f g)"

definition beside :: "FileMetaData \<Rightarrow> FileMetaData set \<Rightarrow> bool" where
  "beside f G \<longleftrightarrow> (\<forall>g \<in> G. high_key f < low_key g) \<or> (\<forall>g \<in> G. high_key g < low_key f)"

definition closed_compaction :: "Version \<Rightarrow> nat \<Rightarrow> files \<Rightarrow> files \<Rightarrow> bool" where
  "closed_compaction v l in0 in1 \<longleftrightarrow> in0 \<noteq> [] \<and> isolated v l in0 \<and> set in1 \<subseteq> files_at v (Suc l) \<and> sorted_wrt BySmallestKey in1 \<and>
     (\<forall>f \<in> files_at v (Suc l) - set in1. beside f (set in0 \<union> set in1))"

lemma Overlapping_filter:
  obtains b e where "wider (map_option ExtractUserKey begins) (map_option ExtractUserKey ends) b e"
    "GetOverlappingInputs v level begins ends = filter (in_range b e) (level_files v level)"
    "if level = 0 then list_all (inside_range b e) (GetOverlappingInputs v level begins ends)
      else b = map_option ExtractUserKey begins \<and> e = map_option ExtractUserKey ends"
  using Overlapping_loop_eq [of 0 "level_files v level" "[]" "map_option ExtractUserKey begins"
      "map_option ExtractUserKey ends" level]
  unfolding GetOverlappingInputs_def closed_inputs_def by auto

lemma isolated_level:
  assumes "layout T v" "0 < l" "l < kNumLevels" "set fs \<subseteq> files_at v l" "sorted_wrt BySmallestKey fs"
  shows "isolated v l fs"
proof -
  note lay = layoutD [OF assms(1)]
  have "apart f g" if f: "f \<in> files_at v l - set fs" and g: "g \<in> set fs" for f g
  proof -
    have "f \<noteq> g" "f \<in> files_at v l" "g \<in> files_at v l" using f g assms(4) by auto
    moreover have "inj_on number (files_at v l)" using lay(3) [OF assms(3)] by (simp add: distinct_map)
    ultimately have "number f \<noteq> number g" unfolding inj_on_def by blast
    then show ?thesis using lay(7) assms(2,3) f g assms(4) by blast
  qed
  then show ?thesis using assms(4,5) by (simp add: isolated_def)
qed

lemma isolated_Overlapping:
  assumes "layout T v" "l < kNumLevels"
  shows "isolated v l (GetOverlappingInputs v l begins ends)"
proof (cases "l = 0")
  case True
  obtain b e where be: "GetOverlappingInputs v l begins ends = filter (in_range b e) (level_files v l)"
    "list_all (inside_range b e) (GetOverlappingInputs v l begins ends)"
    using Overlapping_filter [of begins ends v l] True by metis
  have "apart f g" if "f \<in> files_at v l" "\<not> in_range b e f" "g \<in> files_at v l" "in_range b e g" for f g
  proof -
    have g: "inside_range b e g" using be that(3,4) by (simp add: list_all_iff)
    have "low_key f \<le> high_key f" "low_key g \<le> high_key g"
      using file_keys(1) layoutD(4) [OF assms(1)] assms(2) that(1,3) by blast+
    with that(2) g show ?thesis by (auto simp: in_range_def inside_range_def apart_def split: option.splits)
  qed
  then show ?thesis using layoutD(2) [OF assms] by (auto simp: isolated_def be(1) sorted_wrt_filter)
next
  case False
  obtain b e where "GetOverlappingInputs v l begins ends = filter (in_range b e) (level_files v l)"
    using Overlapping_filter [of begins ends v l] by metis
  then show ?thesis using isolated_level [OF assms(1) _ assms(2)] layoutD(2) [OF assms] False by (simp add: sorted_wrt_filter)
qed

text \<open>The files of the next level that overlap the range of the inputs close the choice.\<close>

lemma closed_Overlapping:
  assumes lay: "layout T v" and l: "Suc l < kNumLevels" and in0: "in0 \<noteq> []" "isolated v l in0"
    and in1: "in1 = GetOverlappingInputs v (Suc l) (Some (fst (GetRange in0))) (Some (snd (GetRange in0)))"
  shows "closed_compaction v l in0 in1"
proof -
  let ?a = "ExtractUserKey (fst (GetRange in0))" and ?b = "ExtractUserKey (snd (GetRange in0))"
  have ab: "in1 = filter (in_range (Some ?a) (Some ?b)) (level_files v (Suc l))"
    unfolding in1 using Overlapping_filter [of "Some (fst (GetRange in0))" "Some (snd (GetRange in0))" v "Suc l"]
    by (metis option.simps(9) nat.distinct(1))
  have cov: "?a \<le> low_key g \<and> high_key g \<le> ?b" if "g \<in> set in0" for g
    using GetRange_covers [OF in0(1)] that by (simp add: covers_def)
  have ok: "low_key f \<le> high_key f" if "f \<in> files_at v (Suc l)" for f
    using file_keys(1) layoutD(4) [OF lay l that] by blast
  have ap: "apart f g" if "f \<in> files_at v (Suc l) - set in1" "g \<in> set in1" for f g
    using isolated_level [OF lay _ l, of in1] layoutD(2) [OF lay l] that by (auto simp: ab isolated_def sorted_wrt_filter)
  have "beside f (set in0 \<union> set in1)" if f: "f \<in> files_at v (Suc l) - set in1" for f
  proof (cases "high_key f < ?a")
    case True
    have "high_key f < low_key g" if "g \<in> set in1" for g
      using ap [OF f that] that True ok [of g] ok [of f] f by (auto simp: ab apart_def in_range_def)
    moreover have "high_key f < low_key g" if "g \<in> set in0" for g
      using cov [OF that] True by (meson less_le_trans)
    ultimately show ?thesis by (auto simp: beside_def)
  next
    case False
    then have b: "?b < low_key f" using f by (auto simp: ab in_range_def)
    have "high_key g < low_key f" if "g \<in> set in1" for g
      using ap [OF f that] that b ok [of g] ok [of f] f by (auto simp: ab apart_def in_range_def)
    moreover have "high_key g < low_key f" if "g \<in> set in0" for g
      using cov [OF that] b by (meson le_less_trans)
    ultimately show ?thesis by (auto simp: beside_def)
  qed
  then show ?thesis using in0 layoutD(2) [OF lay l] by (auto simp: closed_compaction_def ab sorted_wrt_filter)
qed

lemma ExpandInputs_closed:
  assumes lay: "layout T v" and l: "Suc l < kNumLevels" and in0: "in0 \<noteq> []" "isolated v l in0"
    and r: "ExpandInputs v l in0 = (i0, i1, large, all_start, all_limit)"
  shows "closed_compaction v l i0 i1"
proof -
  let ?goi = "\<lambda>l in0. GetOverlappingInputs v l (Some (fst (GetRange in0))) (Some (snd (GetRange in0)))"
  let ?in1 = "?goi (Suc l) in0"
  let ?exp0 = "?goi l (in0 @ ?in1)"
  have "(i0, i1) = (in0, ?in1) \<or> (i0, i1) = (?exp0, ?goi (Suc l) ?exp0) \<and> length in0 < length ?exp0"
    using r by (auto simp: ExpandInputs_def GetRange2_def Let_def split_beta split: if_splits)
  then consider "i0 = in0" "i1 = ?in1" | "i0 = ?exp0" "i1 = ?goi (Suc l) ?exp0" "length in0 < length ?exp0" by blast
  then show ?thesis
  proof cases
    case 1
    then show ?thesis using closed_Overlapping [OF lay l in0] by simp
  next
    case 2
    have "isolated v l ?exp0" using isolated_Overlapping [OF lay] l by simp
    from closed_Overlapping [OF lay l _ this refl] 2 show ?thesis by fastforce
  qed
qed

text \<open>What the choice of a compaction gives.\<close>

definition compaction_of :: "VersionSet \<Rightarrow> Compaction \<Rightarrow> VersionSet \<Rightarrow> bool" where
  "compaction_of vs c vs' \<longleftrightarrow> (\<exists>large.
     input_version c = vs_current vs \<and> closed_compaction (vs_current vs) (clevel c) (inputs0 c) (inputs1 c) \<and>
     large \<in> largest ` set (inputs0 c) \<and> cedit c = SetCompactPointer (clevel c) large VersionEdit_new \<and>
     level_ptrs c = replicate kNumLevels 0 \<and>
     vs' = vs\<lparr>vs_compact_pointer := (vs_compact_pointer vs)[clevel c := large]\<rparr>)"

lemma SetupOtherInputs_of:
  assumes lay: "layout T (vs_current vs)" and l: "Suc l < kNumLevels" and in0: "in0 \<noteq> []" "isolated (vs_current vs) l in0"
    and r: "SetupOtherInputs vs ((Compaction_new l (vs_current vs))\<lparr>inputs0 := in0\<rparr>) = (c, vs')"
  shows "compaction_of vs c vs'" "clevel c = l"
proof -
  obtain i0 i1 large s e where ex: "ExpandInputs (vs_current vs) l in0 = (i0, i1, large, s, e)" by (metis prod_cases5)
  have c: "clevel c = l" "inputs0 c = i0" "inputs1 c = i1" "input_version c = vs_current vs" "level_ptrs c = replicate kNumLevels 0"
      "cedit c = SetCompactPointer l large VersionEdit_new" "vs' = vs\<lparr>vs_compact_pointer := (vs_compact_pointer vs)[l := large]\<rparr>"
    using r ex by (auto simp: SetupOtherInputs_def Compaction_new_def Let_def)
  have closed: "closed_compaction (vs_current vs) l i0 i1" by (rule ExpandInputs_closed [OF lay l in0 ex])
  have "large = snd (GetRange i0)"
    using ex by (auto simp: ExpandInputs_def Let_def split_beta split: if_splits)
  then have "large \<in> largest ` set i0" using GetRange_ends [of i0] closed by (simp add: closed_compaction_def)
  then show "compaction_of vs c vs'" "clevel c = l" using c closed by (auto simp: compaction_of_def)
qed

lemma PickFile_files: "set (PickFile vs l) \<subseteq> files_at (vs_current vs) l"
  and PickFile_some: "level_files (vs_current vs) l \<noteq> [] \<Longrightarrow> PickFile vs l \<noteq> []"
  and PickFile_sorted: "sorted_wrt BySmallestKey (level_files (vs_current vs) l) \<Longrightarrow> sorted_wrt BySmallestKey (PickFile vs l)"
  by (auto simp: PickFile_def Let_def find_Some_iff sorted_wrt_take split: option.splits dest: in_set_takeD)

lemma isolated_inputs:
  assumes lay: "layout T v" and l: "l < kNumLevels" and fs: "fs \<noteq> []" "set fs \<subseteq> files_at v l" "sorted_wrt BySmallestKey fs"
  defines "in0 \<equiv> (if l = 0 then (case GetRange fs of (small, large) \<Rightarrow> GetOverlappingInputs v 0 (Some small) (Some large)) else fs)"
  shows "in0 \<noteq> [] \<and> isolated v l in0"
proof (cases "l = 0")
  case True
  obtain small large where r: "GetRange fs = (small, large)" by fastforce
  obtain b e where be: "wider (Some (ExtractUserKey small)) (Some (ExtractUserKey large)) b e"
      "GetOverlappingInputs v 0 (Some small) (Some large) = filter (in_range b e) (level_files v 0)"
    using Overlapping_filter [of "Some small" "Some large" v 0] by (metis option.simps(9))
  obtain f where f: "f \<in> set fs" using fs(1) by (cases fs) auto
  have "low_key f \<le> high_key f" using file_keys(1) layoutD(4) [OF lay l] f fs(2) by blast
  then have "in_range b e f"
    using GetRange_covers [OF fs(1)] f be(1) r by (auto simp: covers_def wider_def in_range_def dest: order_trans split: option.splits)
  then have "in0 \<noteq> []" using True f fs(2) r be(2) by (auto simp: in0_def filter_empty_conv)
  then show ?thesis using True r isolated_Overlapping [OF lay, of 0] by (simp add: in0_def kNumLevels_def)
next
  case False
  then show ?thesis using isolated_level [OF lay _ l fs(2,3)] fs(1) by (simp add: in0_def)
qed

text \<open>What \<open>PickCompaction\<close> relies on: the level it is asked to compact has a file, and a level below it.\<close>

definition pickable :: "Version \<Rightarrow> bool" where
  "pickable v \<longleftrightarrow>
     (compaction_score v \<ge> 1 \<longrightarrow> compaction_level v \<ge> 0 \<and> Suc (nat (compaction_level v)) < kNumLevels \<and>
        level_files v (nat (compaction_level v)) \<noteq> []) \<and>
     (\<forall>l n. file_to_compact v = Some (l, n) \<longrightarrow> Suc l < kNumLevels \<and> (\<exists>f \<in> files_at v l. number f = n))"

lemma PickCompaction_of:
  assumes lay: "layout T (vs_current vs)" and pick: "pickable (vs_current vs)"
    and r: "PickCompaction vs = (Some c, vs')"
  shows "compaction_of vs c vs' \<and> Suc (clevel c) < kNumLevels"
proof -
  let ?v = "vs_current vs"
  obtain l fs where p: "SetupOtherInputs vs ((Compaction_new l ?v)\<lparr>inputs0 := (if l = 0
      then (case GetRange fs of (small, large) \<Rightarrow> GetOverlappingInputs ?v 0 (Some small) (Some large)) else fs)\<rparr>) = (c, vs')"
    "Suc l < kNumLevels" "fs \<noteq> []" "set fs \<subseteq> files_at ?v l" "sorted_wrt BySmallestKey fs"
  proof (cases "compaction_score ?v \<ge> 1")
    case True
    then show ?thesis
      using that [of "nat (compaction_level ?v)" "PickFile vs (nat (compaction_level ?v))"] r pick PickFile_files PickFile_some PickFile_sorted layoutD(2) [OF lay]
      by (simp add: PickCompaction_def pickable_def Let_def split: prod.splits)
  next
    case False
    then obtain l n where ln: "file_to_compact ?v = Some (l, n)"
      using r by (cases "file_to_compact ?v") (auto simp: PickCompaction_def Let_def)
    moreover from this have "Suc l < kNumLevels" "\<exists>f \<in> files_at ?v l. number f = n" using pick by (simp_all add: pickable_def)
    ultimately show ?thesis
      using that [of l "filter (\<lambda>f. number f = n) (level_files ?v l)"] r False layoutD(2) [OF lay, of l]
      by (auto simp: PickCompaction_def Let_def filter_empty_conv sorted_wrt_filter split: prod.splits)
  qed
  have "l < kNumLevels" using p(2) by simp
  from isolated_inputs [OF lay this p(3-5)] SetupOtherInputs_of [OF lay p(2) _ _ p(1)] p(2) show ?thesis by simp
qed

lemma LimitInputs_take: "\<exists>n. LimitInputs limit sofar fs = take n fs"
proof (induction fs arbitrary: sofar)
  case (Cons f fs)
  show ?case
  proof (cases "sofar + file_size f \<ge> limit")
    case True
    then have "LimitInputs limit sofar (f # fs) = take 1 (f # fs)" by simp
    then show ?thesis by blast
  next
    case False
    obtain n where "LimitInputs limit (sofar + file_size f) fs = take n fs" using Cons.IH by blast
    then have "LimitInputs limit sofar (f # fs) = take (Suc n) (f # fs)" using False by simp
    then show ?thesis by blast
  qed
qed simp

lemma LimitInputs_some: "fs \<noteq> [] \<Longrightarrow> LimitInputs limit sofar fs \<noteq> []"
  by (cases fs) (simp_all add: Let_def)

lemma CompactRange_of:
  assumes lay: "layout T (vs_current vs)" and l: "Suc l < kNumLevels" and r: "CompactRange vs l begins ends = (Some c, vs')"
  shows "compaction_of vs c vs' \<and> clevel c = l"
proof -
  let ?v = "vs_current vs" and ?in = "GetOverlappingInputs (vs_current vs) l begins ends"
  let ?lim = "LimitInputs (MaxFileSizeForLevel l) 0 ?in"
  have iso: "isolated ?v l ?in" using isolated_Overlapping [OF lay] l by simp
  have ne: "?in \<noteq> []" using r by (auto simp: CompactRange_def Let_def)
  have lim: "isolated ?v l ?lim" if "0 < l"
  proof -
    obtain n where "?lim = take n ?in" using LimitInputs_take by blast
    then show ?thesis
      using iso set_take_subset [of n ?in] l by (intro isolated_level [OF lay that]) (auto simp: isolated_def sorted_wrt_take)
  qed
  show ?thesis
    using r ne SetupOtherInputs_of [OF lay l LimitInputs_some [OF ne] lim] SetupOtherInputs_of [OF lay l ne iso]
    by (cases "0 < l") (auto simp: CompactRange_def Let_def split: prod.splits)
qed

section \<open>Properties\<close>

text \<open>
  C27: the inputs that \<^verbatim>\<open>PickCompaction\<close> chooses are closed. There is a next level, the inputs are
  files of the two levels and there is at least one; no other file of the level shares a user
  key with the inputs of the level, and every other file of the next level lies entirely before
  or entirely after all the inputs, so that the merged output fits between its neighbours.
\<close>

theorem PickCompaction_closed:
  assumes "layout T (vs_current vs)" "pickable (vs_current vs)" "PickCompaction vs = (Some c, vs')"
  shows "Suc (clevel c) < kNumLevels \<and> inputs0 c \<noteq> [] \<and>
    set (inputs0 c) \<subseteq> set (level_files (vs_current vs) (clevel c)) \<and>
    set (inputs1 c) \<subseteq> set (level_files (vs_current vs) (Suc (clevel c))) \<and>
    (\<forall>f \<in> set (level_files (vs_current vs) (clevel c)) - set (inputs0 c). \<forall>g \<in> set (inputs0 c). apart f g) \<and>
    (\<forall>f \<in> set (level_files (vs_current vs) (Suc (clevel c))) - set (inputs1 c). beside f (set (inputs0 c) \<union> set (inputs1 c)))"
  using PickCompaction_of [OF assms] by (auto simp: compaction_of_def closed_compaction_def isolated_def)

definition example_seek :: VersionSet where
  "example_seek = (VersionSet_new [])\<lparr>vs_current := example_version\<lparr>file_to_compact := Some (0, 4)\<rparr>\<rparr>"

theorem PickCompaction_closed_witness:
  "\<exists>c vs'. PickCompaction example_seek = (Some c, vs') \<and> inputs0 c \<noteq> []"
proof -
  have lay: "layout (\<lambda>_. [example_entry]) (vs_current example_seek)"
    using example_layout by (simp add: example_seek_def layout_def)
  have pick: "pickable (vs_current example_seek)"
    by (simp add: pickable_def example_seek_def example_version_def Version_new_def kNumLevels_def new_FileMetaData_def)
  have score: "\<not> compaction_score (vs_current example_seek) \<ge> 1"
    by (simp add: example_seek_def example_version_def Version_new_def)
  have "\<exists>c vs'. PickCompaction example_seek = (Some c, vs')"
    using score by (simp add: PickCompaction_def Let_def split_beta) (simp add: example_seek_def split_beta Let_def)
  then obtain c vs' where r: "PickCompaction example_seek = (Some c, vs')" by blast
  from PickCompaction_closed [OF lay pick r] r show ?thesis by blast
qed

end
