(* ===== verification/Compaction_Work.thy ===== *)
theory Compaction_Work
  imports Compactions
begin

text \<open>
  What a compaction does to the contents of the database: the loop of \<^verbatim>\<open>DoCompactionWork\<close> keeps
  exactly the entries that a reader at the oldest snapshot or later can see, cuts them into
  tables, and the new version shows the same contents as the old one.
\<close>

section \<open>The loop\<close>

abbreviation raw_entry :: "entry \<Rightarrow> raw" where
  "raw_entry e \<equiv> (ikey e, snd e)"

definition seen :: "entry option \<Rightarrow> CompactionState \<Rightarrow> bool" where
  "seen p st \<longleftrightarrow> (case p of None \<Rightarrow> current_user_key st = None
     | Some q \<Rightarrow> current_user_key st = Some (user_key (fst q)) \<and> last_sequence_for_key st = sequence (fst q))"

lemma DropEntry_spec:
  assumes e: "entry_ok e" and p: "seen p st" and snap: "smallest_snapshot st < kMaxSequenceNumber"
    and c: "layout T (input_version (compaction st))"
      "ptrs_ok (input_version (compaction st)) (clevel (compaction st)) (user_key (fst e)) (level_ptrs (compaction st))"
  obtains ptrs where "DropEntry (ikey e) st =
      (hidden_by (smallest_snapshot st) p e \<or>
       obsolete_deletion (smallest_snapshot st) (base_level (input_version (compaction st)) (clevel (compaction st))) e,
       st\<lparr>compaction := (compaction st)\<lparr>level_ptrs := ptrs\<rparr>, current_user_key := Some (user_key (fst e)),
         last_sequence_for_key := sequence (fst e)\<rparr>)"
    "ptrs_ok (input_version (compaction st)) (clevel (compaction st)) (user_key (fst e)) ptrs"
proof -
  let ?c = "compaction st" and ?uk = "user_key (fst e)"
  have parse: "ParseInternalKey (ikey e) = Some (fst e)"
    using e by (simp add: entry_ok_def ParseInternalKey_AppendInternalKey)
  obtain ptrs where base: "IsBaseLevelForKey ?c ?uk = (base_level (input_version ?c) (clevel ?c) ?uk, ?c\<lparr>level_ptrs := ptrs\<rparr>)"
      "ptrs_ok (input_version ?c) (clevel ?c) ?uk ptrs"
    using IsBaseLevelForKey_spec [OF c] by blast
  obtain ls where ls: "(if (case current_user_key st of None \<Rightarrow> True | Some k \<Rightarrow> Bytewise_Compare ?uk k \<noteq> 0)
      then st\<lparr>current_user_key := Some ?uk, last_sequence_for_key := kMaxSequenceNumber\<rparr> else st) =
      st\<lparr>current_user_key := Some ?uk, last_sequence_for_key := ls\<rparr>"
    "(ls \<le> smallest_snapshot st) = hidden_by (smallest_snapshot st) p e"
  proof (cases "\<exists>q. p = Some q \<and> user_key (fst q) = ?uk")
    case True
    then show ?thesis
      using p by (intro that [of "last_sequence_for_key st"]) (auto simp: seen_def hidden_by_def Bytewise_Compare_def Slice_compare_order)
  next
    case False
    then show ?thesis
      using p snap by (intro that [of kMaxSequenceNumber])
        (auto simp: seen_def hidden_by_def Bytewise_Compare_def Slice_compare_order split: option.splits)
  qed
  let ?del = "\<not> hidden_by (smallest_snapshot st) p e \<and> vtype (fst e) = kTypeDeletion \<and> sequence (fst e) \<le> smallest_snapshot st"
  have drop: "DropEntry (ikey e) st =
      (let (dropped, st) = (if hidden_by (smallest_snapshot st) p e then (True, st) else if ?del then
          (case IsBaseLevelForKey ?c ?uk of (isbase, c) \<Rightarrow> (isbase, st\<lparr>compaction := c\<rparr>)) else (False, st))
       in (dropped, st\<lparr>current_user_key := Some ?uk, last_sequence_for_key := sequence (fst e)\<rparr>))"
    using ls(2) by (simp add: DropEntry_def parse ls(1) base Let_def)
  show ?thesis
  proof (cases ?del)
    case True
    show ?thesis by (rule that [OF _ base(2)]) (use drop True base(1) in \<open>simp add: obsolete_deletion_def\<close>)
  next
    case False
    show ?thesis by (rule that [OF _ c(2)]) (use drop False in \<open>auto simp: obsolete_deletion_def\<close>)
  qed
qed


text \<open>The tables built so far, the last of them perhaps still open.\<close>

definition out_of :: "table_ops \<Rightarrow> u64 \<times> raw list \<Rightarrow> Output" where
  "out_of ops t = \<lparr>out_number = fst t, out_size = word_of_nat (length (tb_Finish ops (snd t))),
     out_smallest = fst (hd (snd t)), out_largest = fst (last (snd t))\<rparr>"

definition stored :: "table_ops \<Rightarrow> bytes \<Rightarrow> file_system \<Rightarrow> (u64 \<times> raw list) list \<Rightarrow> bool" where
  "stored ops db fs tabs \<longleftrightarrow> (\<forall>t \<in> set tabs. map_of fs (TableFileName db (fst t)) = Some (tb_Finish ops (snd t)))"

definition table_numbers :: "VersionSet \<Rightarrow> nat \<Rightarrow> u64 list" where
  "table_numbers vs n = map (\<lambda>i. vs_next_file vs + word_of_nat i) [0..<n]"

definition work_inv :: "table_ops \<Rightarrow> file_system \<Rightarrow> VersionSet \<Rightarrow> CompactionState \<Rightarrow> (u64 \<times> raw list) list \<Rightarrow> bool" where
  "work_inv ops fs vs st tabs \<longleftrightarrow>
     unat (vs_next_file vs) + length tabs < 2 ^ 64 \<and> (\<forall>t \<in> set tabs. snd t \<noteq> []) \<and>
     map fst tabs = table_numbers vs (length tabs) \<and>
     cversions st = vs\<lparr>vs_next_file := vs_next_file vs + word_of_nat (length tabs)\<rparr> \<and>
     (case builder st of
        None \<Rightarrow> outputs st = map (out_of ops) tabs \<and> stored ops (vs_dbname vs) (cfiles st) tabs
      | Some es \<Rightarrow> tabs \<noteq> [] \<and> snd (last tabs) = es \<and>
          outputs st = map (out_of ops) (butlast tabs) @ [(out_of ops (last tabs))\<lparr>out_size := 0\<rparr>] \<and>
          stored ops (vs_dbname vs) (cfiles st) (butlast tabs)) \<and>
     (\<forall>f. (\<forall>t \<in> set tabs. f \<noteq> TableFileName (vs_dbname vs) (fst t)) \<longrightarrow> map_of (cfiles st) f = map_of fs f)"

lemma distinct_table_numbers: "unat (vs_next_file vs) + n < 2 ^ 64 \<Longrightarrow> distinct (table_numbers vs n)"
proof -
  assume n: "unat (vs_next_file vs) + n < 2 ^ 64"
  have "unat (vs_next_file vs + word_of_nat i) = unat (vs_next_file vs) + i" if "i < n" for i
    using that n by (simp add: unat_word_ariths unat_of_nat)
  then show ?thesis
    by (auto simp: table_numbers_def distinct_map inj_on_def) (metis add_left_cancel)
qed

text \<open>A step of the loop that adds \<open>kvs\<close> to the tables and leaves the rest of the state as it was.\<close>

definition same_rest :: "CompactionState \<Rightarrow> CompactionState \<Rightarrow> bool" where
  "same_rest st st' \<longleftrightarrow> compaction st' = compaction st \<and> smallest_snapshot st' = smallest_snapshot st \<and>
     current_user_key st' = current_user_key st \<and> last_sequence_for_key st' = last_sequence_for_key st"

definition adds :: "table_ops \<Rightarrow> file_system \<Rightarrow> VersionSet \<Rightarrow> CompactionState \<Rightarrow> (u64 \<times> raw list) list \<Rightarrow> raw list \<Rightarrow>
    Status \<times> CompactionState \<Rightarrow> bool" where
  "adds ops fs vs st tabs kvs r \<longleftrightarrow> (\<exists>st' tabs'. r = (Status_OK, st') \<and> work_inv ops fs vs st' tabs' \<and>
     concat (map snd tabs') = concat (map snd tabs) @ kvs \<and> length tabs' \<le> length tabs + length kvs \<and> same_rest st st')"

definition no_output_failures :: output_env where
  "no_output_failures = \<lparr>out_new = \<lambda>_. Status_OK, out_finish = \<lambda>_. Status_OK\<rparr>"

lemma Finish_inv:
  assumes inv: "work_inv ops fs vs st tabs" and b: "builder st = Some es"
  shows "\<exists>st'. FinishCompactionOutputFile ops no_output_failures st = (Status_OK, st') \<and> work_inv ops fs vs st' tabs \<and>
    builder st' = None \<and> same_rest st st'"
proof -
  note inv = inv [unfolded work_inv_def b option.case]
  obtain init t where tabs: "tabs = init @ [t]" using inv by (metis append_butlast_last_id)
  define st' where "st' = snd (FinishCompactionOutputFile ops no_output_failures st)"
  have fin: "FinishCompactionOutputFile ops no_output_failures st = (Status_OK, st')"
    by (simp add: st'_def FinishCompactionOutputFile_def no_output_failures_def Let_def)
  have st': "st' = st\<lparr>outputs := map (out_of ops) tabs, total_bytes := total_bytes st + word_of_nat (length (tb_Finish ops es)),
      builder := None, cfiles := AList.update (TableFileName (vs_dbname vs) (fst t)) (tb_Finish ops es) (cfiles st)\<rparr>"
    using inv tabs b by (simp add: st'_def FinishCompactionOutputFile_def Let_def out_of_def)
  have "distinct (map fst tabs)" using inv distinct_table_numbers [of vs "length tabs"] by simp
  then have "fst t \<notin> fst ` set init" unfolding tabs by auto
  then have other: "fst u \<noteq> fst t" if "u \<in> set init" for u using that by (metis imageI)
  have "stored ops (vs_dbname vs) (cfiles st') tabs"
    using inv tabs by (auto simp: stored_def st' dest: other)
  then have "work_inv ops fs vs st' tabs" using inv tabs by (auto simp: work_inv_def st')
  then show ?thesis using fin by (simp add: st' same_rest_def)
qed

text \<open>The state with one more entry in the open table, before the test of its size.\<close>

definition extended :: "bytes \<Rightarrow> bytes \<Rightarrow> CompactionState \<Rightarrow> CompactionState" where
  "extended key val st =
     (let es = (case builder st of None \<Rightarrow> [] | Some es \<Rightarrow> es);
          out = last (outputs st);
          out = (if es = [] then out\<lparr>out_smallest := key\<rparr> else out)
      in st\<lparr>outputs := butlast (outputs st) @ [out\<lparr>out_largest := key\<rparr>], builder := Some (es @ [(key, val)])\<rparr>)"

lemma extended_open:
  assumes inv: "work_inv ops fs vs st tabs" and b: "builder st = Some es"
  shows "work_inv ops fs vs (extended k x st) (butlast tabs @ [(fst (last tabs), es @ [(k, x)])])"
proof -
  note inv = inv [unfolded work_inv_def b option.case]
  obtain init t where tabs: "tabs = init @ [t]" using inv by (metis append_butlast_last_id)
  then have t: "snd t = es" "es \<noteq> []" using inv by auto
  let ?tabs = "init @ [(fst t, es @ [(k, x)])]"
  have nums: "map fst ?tabs = map fst tabs" "length ?tabs = length tabs" using tabs by simp_all
  have "work_inv ops fs vs (extended k x st) ?tabs"
    unfolding work_inv_def nums using inv tabs b t by (auto simp: extended_def out_of_def)
  then show ?thesis using tabs by simp
qed

lemma extended_new:
  assumes inv: "work_inv ops fs vs st tabs" and b: "builder st = None"
    and room: "unat (vs_next_file vs) + length tabs + 1 < 2 ^ 64"
  shows "\<exists>st1. OpenCompactionOutputFile no_output_failures st = (Status_OK, st1) \<and> builder st1 = Some [] \<and> same_rest st st1 \<and>
    work_inv ops fs vs (extended k x st1) (tabs @ [(vs_next_file vs + word_of_nat (length tabs), [(k, x)])])"
proof -
  note inv = inv [unfolded work_inv_def b option.case]
  let ?n = "vs_next_file vs + word_of_nat (length tabs)"
  have nums: "table_numbers vs (Suc (length tabs)) = table_numbers vs (length tabs) @ [?n]" by (simp add: table_numbers_def)
  have new: "?n \<notin> fst ` set tabs"
    using distinct_table_numbers [of vs "Suc (length tabs)"] room inv
    unfolding nums by (metis add_Suc_right distinct_append distinct.simps(2) disjoint_iff list.set_intros(1) list.set_map Suc_eq_plus1)
  then have "fst t \<noteq> ?n" if "t \<in> set tabs" for t using that by (metis imageI)
  then have "stored ops (vs_dbname vs) (AList.update (TableFileName (vs_dbname vs) ?n) [] (cfiles st)) tabs"
    using inv by (auto simp: stored_def)
  then show ?thesis
    using inv room nums
    by (auto simp: OpenCompactionOutputFile_def no_output_failures_def NewFileNumber_def work_inv_def extended_def same_rest_def
        out_of_def Let_def b add.assoc)
qed

lemma AddEntry_adds:
  assumes inv: "work_inv ops fs vs st tabs" and room: "unat (vs_next_file vs) + length tabs + 1 < 2 ^ 64"
  shows "adds ops fs vs st tabs [(k, x)] (AddEntry ops no_output_failures k x st)"
proof -
  obtain st1 tabs' es where st1: "AddEntry ops no_output_failures k x st =
      (if tb_FileSize ops es \<ge> max_output_file_size (compaction st1)
       then FinishCompactionOutputFile ops no_output_failures st1 else (Status_OK, st1))"
    "work_inv ops fs vs st1 tabs'" "builder st1 = Some es" "concat (map snd tabs') = concat (map snd tabs) @ [(k, x)]"
    "length tabs' \<le> length tabs + 1" "same_rest st st1"
  proof (cases "builder st")
    case None
    from extended_new [OF inv None room, of k x] obtain st1 where st1: "OpenCompactionOutputFile no_output_failures st = (Status_OK, st1)"
      "builder st1 = Some []" "same_rest st st1"
      "work_inv ops fs vs (extended k x st1) (tabs @ [(vs_next_file vs + word_of_nat (length tabs), [(k, x)])])" by blast
    show ?thesis
      by (rule that [OF _ st1(4), of "[(k, x)]"])
        (use None st1 in \<open>simp_all add: AddEntry_def extended_def same_rest_def Let_def\<close>)
  next
    case (Some es)
    obtain init t where tabs: "tabs = init @ [t]" "snd t = es"
    proof -
      have "tabs \<noteq> []" "snd (last tabs) = es" using inv Some by (simp_all add: work_inv_def)
      then show ?thesis using that [of "butlast tabs" "last tabs"] by simp
    qed
    show ?thesis
      by (rule that [OF _ extended_open [OF inv Some, of k x], of "es @ [(k, x)]"])
        (use Some tabs in \<open>simp_all add: AddEntry_def extended_def same_rest_def Let_def\<close>)
  qed
  show ?thesis
  proof (cases "tb_FileSize ops es \<ge> max_output_file_size (compaction st1)")
    case True
    from Finish_inv [OF st1(2,3)] obtain st2 where "FinishCompactionOutputFile ops no_output_failures st1 = (Status_OK, st2)"
      "work_inv ops fs vs st2 tabs'" "same_rest st1 st2" by blast
    then show ?thesis
      using st1 True unfolding adds_def by (intro exI [of _ st2] exI [of _ tabs']) (simp add: same_rest_def)
  next
    case False
    then show ?thesis using st1 unfolding adds_def by (intro exI [of _ st1] exI [of _ tabs']) simp
  qed
qed

text \<open>What the loop keeps of the compaction it works on.\<close>

definition work_on :: "Compaction \<Rightarrow> u64 \<Rightarrow> bytes \<Rightarrow> CompactionState \<Rightarrow> bool" where
  "work_on c snap uk st \<longleftrightarrow> clevel (compaction st) = clevel c \<and> input_version (compaction st) = input_version c \<and>
     cedit (compaction st) = cedit c \<and> inputs0 (compaction st) = inputs0 c \<and> inputs1 (compaction st) = inputs1 c \<and>
     smallest_snapshot st = snap \<and> ptrs_ok (input_version c) (clevel c) uk (level_ptrs (compaction st))"

lemma work_on_same: "work_on c snap uk st \<Longrightarrow> same_rest st st' \<Longrightarrow> work_on c snap uk st'"
  by (simp add: work_on_def same_rest_def)

lemma work_on_mono: "work_on c snap uk st \<Longrightarrow> uk \<le> uk' \<Longrightarrow> work_on c snap uk' st"
  using ptrs_ok_mono by (auto simp: work_on_def)

lemma seen_same: "seen p st \<Longrightarrow> same_rest st st' \<Longrightarrow> seen p st'"
  by (cases p) (simp_all add: seen_def same_rest_def)

lemma work_inv_compaction [simp]:
  "work_inv ops fs vs (st\<lparr>compaction := c\<rparr>) tabs = work_inv ops fs vs st tabs"
  "work_inv ops fs vs (st\<lparr>current_user_key := k\<rparr>) tabs = work_inv ops fs vs st tabs"
  "work_inv ops fs vs (st\<lparr>last_sequence_for_key := n\<rparr>) tabs = work_inv ops fs vs st tabs"
  by (simp_all add: work_inv_def split: option.split)

lemma CompactEntry_step:
  assumes inv: "work_inv ops fs vs st tabs" and c: "work_on c snap uk st" and p: "seen p st"
    and e: "entry_ok e" "uk \<le> user_key (fst e)" and snap: "snap < kMaxSequenceNumber" and lay: "layout T (input_version c)"
    and room: "unat (vs_next_file vs) + length tabs + 1 < 2 ^ 64"
  obtains st' tabs' where "CompactEntry ops no_output_failures (ikey e) (snd e) st = (Status_OK, st')"
    "work_inv ops fs vs st' tabs'" "work_on c snap (user_key (fst e)) st'" "seen (Some e) st'" "length tabs' \<le> length tabs + 1"
    "concat (map snd tabs') = concat (map snd tabs) @
       (if hidden_by snap p e \<or> obsolete_deletion snap (base_level (input_version c) (clevel c)) e then [] else [raw_entry e])"
proof -
  obtain stop c1 where stop: "ShouldStopBefore (compaction st) (ikey e) = (stop, c1)" by fastforce
  then have c1: "level_ptrs c1 = level_ptrs (compaction st)" "clevel c1 = clevel (compaction st)"
      "input_version c1 = input_version (compaction st)" "cedit c1 = cedit (compaction st)"
      "inputs0 c1 = inputs0 (compaction st)" "inputs1 c1 = inputs1 (compaction st)"
    by (auto simp: ShouldStopBefore_def Let_def split: prod.splits if_splits)
  let ?st1 = "st\<lparr>compaction := c1\<rparr>"
  have st1: "work_inv ops fs vs ?st1 tabs" "work_on c snap (user_key (fst e)) ?st1" "seen p ?st1"
    using inv c p c1 work_on_mono [OF c e(2)] by (cases p; simp add: work_on_def seen_def)+
  obtain st2 where st2: "(if stop \<and> builder ?st1 \<noteq> None then FinishCompactionOutputFile ops no_output_failures ?st1
      else (Status_OK, ?st1)) = (Status_OK, st2)" "work_inv ops fs vs st2 tabs" "same_rest ?st1 st2"
  proof (cases "stop \<and> builder ?st1 \<noteq> None")
    case True
    then show ?thesis using Finish_inv [OF st1(1)] that by (auto split: if_splits)
  next
    case False
    show ?thesis by (rule that [OF _ st1(1)]) (use False in \<open>auto simp: same_rest_def\<close>)
  qed
  have on: "work_on c snap (user_key (fst e)) st2" "seen p st2" using st1 st2(3) work_on_same seen_same by blast+
  obtain ptrs where drop: "DropEntry (ikey e) st2 =
      (hidden_by snap p e \<or> obsolete_deletion snap (base_level (input_version c) (clevel c)) e,
       st2\<lparr>compaction := (compaction st2)\<lparr>level_ptrs := ptrs\<rparr>, current_user_key := Some (user_key (fst e)),
         last_sequence_for_key := sequence (fst e)\<rparr>)" (is "_ = (?dropped, ?st3)")
    "ptrs_ok (input_version c) (clevel c) (user_key (fst e)) ptrs"
    using DropEntry_spec [OF e(1) on(2), of T] on(1) snap lay by (simp add: work_on_def) blast
  have st3: "work_inv ops fs vs ?st3 tabs" "work_on c snap (user_key (fst e)) ?st3" "seen (Some e) ?st3"
    using st2(2) on(1) drop(2) by (simp_all add: work_on_def seen_def)
  have step: "CompactEntry ops no_output_failures (ikey e) (snd e) st =
      (if ?dropped then (Status_OK, ?st3) else AddEntry ops no_output_failures (ikey e) (snd e) ?st3)"
    unfolding CompactEntry_def stop Let_def prod.case st2(1) drop(1) by simp
  show ?thesis
  proof (cases ?dropped)
    case True
    show ?thesis by (rule that [OF _ st3]) (use True step in simp_all)
  next
    case False
    from AddEntry_adds [OF st3(1) room, of "ikey e" "snd e"] obtain st' tabs' where
      "AddEntry ops no_output_failures (ikey e) (snd e) ?st3 = (Status_OK, st')" "work_inv ops fs vs st' tabs'"
      "concat (map snd tabs') = concat (map snd tabs) @ [raw_entry e]" "length tabs' \<le> length tabs + 1" "same_rest ?st3 st'"
      unfolding adds_def by auto
    then show ?thesis
      using that [of st' tabs'] False step work_on_same [OF st3(2)] seen_same [OF st3(3)] by simp
  qed
qed

lemma CompactionWork_loop_spec:
  assumes "work_inv ops fs vs st tabs" "work_on c snap uk st" "seen p st" "snap < kMaxSequenceNumber" "layout T (input_version c)"
    and "\<And>e. e \<in> set es \<Longrightarrow> entry_ok e \<and> uk \<le> user_key (fst e)" "sorted_wrt entry_less es"
    and "unat (vs_next_file vs) + length tabs + length es < 2 ^ 64"
  shows "\<exists>st' tabs' uk'. CompactionWork_loop ops no_output_failures (map raw_entry es) st = (Status_OK, st') \<and>
    work_inv ops fs vs st' tabs' \<and> work_on c snap uk' st' \<and> concat (map snd tabs') = concat (map snd tabs) @
      map raw_entry (keep snap (base_level (input_version c) (clevel c)) p es)"
  using assms(1-3,6-)
proof (induction es arbitrary: st tabs uk p)
  case Nil
  then show ?case by auto
next
  case (Cons e es)
  obtain st1 tabs1 where st1: "CompactEntry ops no_output_failures (ikey e) (snd e) st = (Status_OK, st1)"
    "work_inv ops fs vs st1 tabs1" "work_on c snap (user_key (fst e)) st1" "seen (Some e) st1" "length tabs1 \<le> length tabs + 1"
    "concat (map snd tabs1) = concat (map snd tabs) @
       (if hidden_by snap p e \<or> obsolete_deletion snap (base_level (input_version c) (clevel c)) e then [] else [raw_entry e])"
    using CompactEntry_step [OF Cons.prems(1-3) _ _ assms(4,5), of e] Cons.prems(4,6) by (auto simp: add.assoc)
  have "entry_ok x \<and> user_key (fst e) \<le> user_key (fst x)" if "x \<in> set es" for x
    using Cons.prems(4,5) that entry_less_key [of e x] by simp
  from Cons.IH [OF st1(2-4) this] Cons.prems(5,6) st1(5) obtain st' tabs' uk' where
    "CompactionWork_loop ops no_output_failures (map raw_entry es) st1 = (Status_OK, st')" "work_inv ops fs vs st' tabs'"
    "work_on c snap uk' st'" "concat (map snd tabs') = concat (map snd tabs1) @
      map raw_entry (keep snap (base_level (input_version c) (clevel c)) (Some e) es)" by auto
  then show ?case by (intro exI [of _ st'] exI [of _ tabs'] exI [of _ uk']) (simp add: st1(1,6))
qed

section \<open>The tables\<close>

text \<open>When every entry is visible at the snapshot, one entry of each user key is kept.\<close>

lemma kept_keys:
  assumes "sorted_wrt entry_less es" "\<And>x. x \<in> set es \<Longrightarrow> sequence (fst x) \<le> snap"
  shows "sorted_wrt (\<lambda>x y. user_key (fst x) < user_key (fst y)) (keep snap isbase None es)"
proof -
  have "user_key (fst x) < user_key (fst y)"
    if xy: "x \<in> set (keep snap isbase None es)" "y \<in> set (keep snap isbase None es)" "entry_less x y" for x y
  proof -
    have "x \<in> set es" using xy(1) set_keep by blast
    moreover from this have "\<not> snap < sequence (fst x)" using assms(2) by (simp add: leD)
    ultimately have "user_key (fst x) \<noteq> user_key (fst y)"
      using kept_not_hidden [of None es y snap isbase x, simplified, OF assms(1) xy(2) _ _ xy(3)] by blast
    then show ?thesis using entry_less_key [OF xy(3)] by simp
  qed
  from sorted_wrt_mono_rel [OF this sorted_keep [OF assms(1)]] show ?thesis .
qed

lemma concat_map_split: "concat xss = map f ys \<Longrightarrow> \<exists>yss. xss = map (map f) yss \<and> concat yss = ys"
proof (induction xss arbitrary: ys)
  case (Cons xs xss)
  then obtain us vs where ys: "ys = us @ vs" "xs = map f us" "concat xss = map f vs"
    by (metis concat.simps(2) append_eq_map_conv)
  obtain yss where "xss = map (map f) yss" "concat yss = vs" using Cons.IH [OF ys(3)] by blast
  then show ?case using ys by (intro exI [of _ "us # yss"]) simp
qed simp

text \<open>The state before the results are installed.\<close>

lemma DoCompactionWork_tables:
  assumes es: "wf_entries es" and lay: "layout T (input_version c)" and ptrs: "level_ptrs c = replicate kNumLevels 0"
    and snap: "vs_last_sequence vs < kMaxSequenceNumber" and room: "unat (vs_next_file vs) + length es < 2 ^ 64"
  obtains st tabs uk where
    "DoCompactionWork ops no_output_failures menv (map raw_entry es) Status_OK None [] fs vs c = InstallCompactionResults menv st"
    "work_inv ops fs vs st tabs" "builder st = None" "work_on c (vs_last_sequence vs) uk st"
    "concat (map snd tabs) =
       map raw_entry (keep (vs_last_sequence vs) (base_level (input_version c) (clevel c)) None es)"
proof -
  let ?st = "\<lparr>compaction = c, smallest_snapshot = vs_last_sequence vs, outputs = [], builder = None, total_bytes = 0,
    current_user_key = None, last_sequence_for_key = kMaxSequenceNumber, cfiles = fs, cversions = vs\<rparr>"
  have inv: "work_inv ops fs vs ?st []" using room by (simp add: work_inv_def table_numbers_def stored_def)
  have on: "work_on c (vs_last_sequence vs) [] ?st" using ptrs by (simp add: work_on_def ptrs_ok_def kNumLevels_def)
  have seen: "seen None ?st" by (simp add: seen_def)
  have "entry_ok e \<and> [] \<le> user_key (fst e)" if "e \<in> set es" for e
    using es that by (simp add: wf_entries_def list_all_iff)
  then obtain st1 tabs uk where st1: "CompactionWork_loop ops no_output_failures (map raw_entry es) ?st = (Status_OK, st1)"
    "work_inv ops fs vs st1 tabs" "work_on c (vs_last_sequence vs) uk st1"
    "concat (map snd tabs) = map raw_entry (keep (vs_last_sequence vs) (base_level (input_version c) (clevel c)) None es)"
    using CompactionWork_loop_spec [OF inv on seen snap lay, of es] es room by (auto simp: wf_entries_def)
  show ?thesis
  proof (cases "builder st1")
    case None
    show ?thesis by (rule that [OF _ st1(2) None st1(3,4)]) (simp add: DoCompactionWork_def st1(1) None)
  next
    case (Some b)
    obtain st2 where st2: "FinishCompactionOutputFile ops no_output_failures st1 = (Status_OK, st2)" "work_inv ops fs vs st2 tabs"
      "builder st2 = None" "same_rest st1 st2" using Finish_inv [OF st1(2) Some] by blast
    show ?thesis
      by (rule that [OF _ st2(2,3) work_on_same [OF st1(3) st2(4)] st1(4)]) (simp add: DoCompactionWork_def st1(1) Some st2(1))
  qed
qed

section \<open>Properties\<close>

text \<open>
  C26: the loop of \<^verbatim>\<open>DoCompactionWork\<close>, with its flags for the current user key, its pointers into the
  levels below and its output files that are opened and closed on the way, writes exactly the
  entries that the reference function \<open>keep\<close> keeps, in order and cut into non-empty tables with
  consecutive new numbers; each table is on disk and described by its first and last key. No
  snapshot is held, no call fails and the database is not being closed.
\<close>

theorem compaction_writes_kept:
  assumes "wf_entries es" "layout T (input_version c)" "level_ptrs c = replicate kNumLevels 0"
    and "vs_last_sequence vs < kMaxSequenceNumber" "unat (vs_next_file vs) + length es < 2 ^ 64"
  shows "\<exists>st tabs. DoCompactionWork ops no_output_failures menv (map raw_entry es) Status_OK None [] fs vs c =
      InstallCompactionResults menv st \<and>
    concat (map snd tabs) = map raw_entry (keep (vs_last_sequence vs) (base_level (input_version c) (clevel c)) None es) \<and>
    (\<forall>t \<in> set tabs. snd t \<noteq> []) \<and> map fst tabs = table_numbers vs (length tabs) \<and>
    outputs st = map (out_of ops) tabs \<and> stored ops (vs_dbname vs) (cfiles st) tabs"
proof -
  obtain st tabs uk where
    "DoCompactionWork ops no_output_failures menv (map raw_entry es) Status_OK None [] fs vs c = InstallCompactionResults menv st"
    "work_inv ops fs vs st tabs" "builder st = None"
    "concat (map snd tabs) = map raw_entry (keep (vs_last_sequence vs) (base_level (input_version c) (clevel c)) None es)"
    by (rule DoCompactionWork_tables [OF assms, of ops menv fs])
  then show ?thesis by (intro exI [of _ st] exI [of _ tabs]) (simp add: work_inv_def)
qed

definition example_ops :: table_ops where
  "example_ops = \<lparr>tb_FileSize = \<lambda>kvs. word_of_nat (\<Sum>(k, x) \<leftarrow> kvs. length k + length x),
     tb_Finish = \<lambda>kvs. concat (map (\<lambda>(k, x). k @ x) kvs), tb_Entries = \<lambda>_. [example_entry]\<rparr>"

theorem compaction_writes_kept_witness:
  "\<exists>st tabs. DoCompactionWork example_ops no_output_failures no_manifest_failures [raw_entry example_entry] Status_OK None [] []
      ((VersionSet_new [])\<lparr>vs_last_sequence := 3\<rparr>) (Compaction_new 0 example_version) =
      InstallCompactionResults no_manifest_failures st \<and>
    concat (map snd tabs) = [raw_entry example_entry] \<and> stored example_ops [] (cfiles st) tabs"
proof -
  let ?vs = "(VersionSet_new [])\<lparr>vs_last_sequence := 3\<rparr>" and ?c = "Compaction_new 0 example_version"
  have keep: "keep 3 (base_level example_version 0) None [example_entry] = [example_entry]"
    by (simp add: hidden_by_def obsolete_deletion_def example_entry_def)
  have lay: "layout (\<lambda>_. [example_entry]) (input_version ?c)" "level_ptrs ?c = replicate kNumLevels 0"
    using example_layout by (simp_all add: Compaction_new_def)
  have c: "input_version ?c = example_version" "clevel ?c = 0" "vs_last_sequence ?vs = 3" "vs_dbname ?vs = []" "vs_next_file ?vs = 2"
    by (simp_all add: Compaction_new_def VersionSet_new_def)
  obtain st tabs where "DoCompactionWork example_ops no_output_failures no_manifest_failures (map raw_entry [example_entry]) Status_OK None [] [] ?vs ?c =
      InstallCompactionResults no_manifest_failures st"
    "concat (map snd tabs) = map raw_entry (keep (vs_last_sequence ?vs) (base_level (input_version ?c) (clevel ?c)) None [example_entry])"
    "stored example_ops (vs_dbname ?vs) (cfiles st) tabs"
    using compaction_writes_kept [OF example_entry_ok lay, of ?vs example_ops no_manifest_failures "[]"] c(3,5)
    by (auto simp: kMaxSequenceNumber_def)
  then show ?thesis using c keep by (intro exI [of _ st] exI [of _ tabs]) simp
qed

end
