(* ===== verification/Stores.thy ===== *)
theory Stores
  imports Compaction_Inputs Compaction_Work
begin

text \<open>
  The tables of a database on disk: the version set, the manifest and the table files together. The
  invariant \<open>store_ok\<close> is kept by the changes of the version that \<^verbatim>\<open>db/db_impl.cc\<close> makes: a table
  written from a memtable, a table moved to the next level, and a compaction.
\<close>

section \<open>The table files\<close>

definition tables :: "table_ops \<Rightarrow> bytes \<Rightarrow> file_system \<Rightarrow> u64 \<Rightarrow> entry list" where
  "tables ops db fs n = (case map_of fs (TableFileName db n) of None \<Rightarrow> [] | Some data \<Rightarrow> tb_Entries ops data)"

text \<open>An upper bound of the bytes that some entries take in a table.\<close>

definition entries_size :: "entry list \<Rightarrow> nat" where
  "entries_size es = (\<Sum>e \<leftarrow> es. length (ikey e) + length (snd e) + 64)"

text \<open>What the table code promises: an iterator over a finished table goes through what was added.\<close>

definition table_law :: "table_ops \<Rightarrow> bool" where
  "table_law ops \<longleftrightarrow> (\<forall>es. wf_entries es \<and> es \<noteq> [] \<and> entries_size es < 2 ^ 31 \<longrightarrow>
     tb_Entries ops (tb_Finish ops (map raw_entry es)) = es)"

lemma tables_cong: "map_of fs (TableFileName db n) = map_of fs' (TableFileName db n) \<Longrightarrow> tables ops db fs n = tables ops db fs' n"
  by (simp add: tables_def)

section \<open>The invariant\<close>

definition numbers_ok :: "VersionSet \<Rightarrow> VersionEdit list \<Rightarrow> bool" where
  "numbers_ok vs es \<longleftrightarrow> vs_manifest vs < vs_next_file vs \<and>
     (\<forall>l < kNumLevels. \<forall>n \<in> used_numbers es l. n < vs_next_file vs) \<and>
     (\<forall>l < kNumLevels. \<forall>l' < l. \<forall>f \<in> files_at (vs_current vs) l'. number f \<notin> used_numbers es l)"

definition sequences_ok :: "(u64 \<Rightarrow> entry list) \<Rightarrow> VersionSet \<Rightarrow> bool" where
  "sequences_ok T vs \<longleftrightarrow> (\<forall>x \<in> version_entries T (vs_current vs). sequence (fst x) \<le> vs_last_sequence vs) \<and>
     vs_last_sequence vs < kMaxSequenceNumber"

text \<open>The file of a table is what the builder made of some entries, and has the size noted for it.\<close>

definition sound_file :: "table_ops \<Rightarrow> bytes \<Rightarrow> file_system \<Rightarrow> FileMetaData \<Rightarrow> bool" where
  "sound_file ops db fs f \<longleftrightarrow> (\<exists>es. wf_entries es \<and> es \<noteq> [] \<and> entries_size es < 2 ^ 31 \<and>
     map_of fs (TableFileName db (number f)) = Some (tb_Finish ops (map raw_entry es)) \<and>
     file_size f = word_of_nat (length (tb_Finish ops (map raw_entry es))))"

definition sound :: "table_ops \<Rightarrow> bytes \<Rightarrow> file_system \<Rightarrow> Version \<Rightarrow> bool" where
  "sound ops db fs v \<longleftrightarrow> (\<forall>l < kNumLevels. \<forall>f \<in> files_at v l. sound_file ops db fs f)"

lemma sound_file_refresh [simp]: "sound_file ops db fs (refresh f) = sound_file ops db fs f"
  by (simp add: sound_file_def refresh_def)

lemma sound_file_cong:
  "map_of fs (TableFileName db (number f)) = map_of fs' (TableFileName db (number f)) \<Longrightarrow> sound_file ops db fs f = sound_file ops db fs' f"
  by (simp add: sound_file_def)

lemma sound_Finalize [simp]: "sound ops db fs (Finalize v) = sound ops db fs v"
  by (simp add: sound_def)

text \<open>What the last edit of the manifest says about the files and their entries.\<close>

definition recorded :: "(u64 \<Rightarrow> entry list) \<Rightarrow> Version \<Rightarrow> VersionEdit list \<Rightarrow> bool" where
  "recorded T v es \<longleftrightarrow> (\<forall>l < kNumLevels. \<forall>n \<in> used_numbers es l. n < next_file_number (last es)) \<and>
     (\<forall>x \<in> version_entries T v. sequence (fst x) \<le> last_sequence (last es))"

definition store_ok :: "table_ops \<Rightarrow> file_system \<Rightarrow> VersionSet \<Rightarrow> VersionEdit list \<Rightarrow> bool" where
  "store_ok ops fs vs es \<longleftrightarrow> manifest_ok fs vs es \<and> layout (tables ops (vs_dbname vs) fs) (vs_current vs) \<and>
     numbers_ok vs es \<and> sequences_ok (tables ops (vs_dbname vs) fs) vs \<and> sound ops (vs_dbname vs) fs (vs_current vs) \<and>
     recorded (tables ops (vs_dbname vs) fs) (vs_current vs) es"

lemma files_used:
  assumes "levels_ok v es" "l < kNumLevels" "f \<in> files_at v l"
  shows "number f \<in> used_numbers es l"
proof -
  have "refresh f \<in> set (level_result (levels (replay es) ! l))"
  proof -
    have "map refresh (level_files v l) = level_result (levels (replay es) ! l)" using assms(1,2) by (simp add: levels_ok_def)
    then show ?thesis using assms(3) by (metis imageI list.set_map)
  qed
  then have "refresh f \<in> set (level_added (levels (replay es) ! l))" by (auto simp: level_result_def)
  then show ?thesis unfolding used_numbers_def by (metis imageI refresh_simps(1))
qed

lemma layout_Finalize [simp]: "layout T (Finalize v) = layout T v"
  by (simp add: layout_def)

lemma version_entries_Finalize [simp]: "version_entries T (Finalize v) = version_entries T v"
  by (simp add: version_entries_def)

text \<open>The compaction pointers that an edit sets may be set before.\<close>

lemma LogAndApply_pointers:
  "LogAndApply env fs (vs\<lparr>vs_compact_pointer := set_pointers e (vs_compact_pointer vs)\<rparr>) e = LogAndApply env fs vs e"
proof -
  have "Builder_Apply (CompleteEdit vs e) b (set_pointers e cps) = Builder_Apply (CompleteEdit vs e) b cps" for b cps
    using set_pointers_twice [of e cps] by (simp add: Builder_Apply_def Let_def set_pointers_def)
  moreover have "CompleteEdit (vs\<lparr>vs_compact_pointer := x\<rparr>) e = CompleteEdit vs e" for x by (simp add: CompleteEdit_def Let_def)
  ultimately show ?thesis by (simp add: LogAndApply_def)
qed

section \<open>Installing an edit\<close>

text \<open>\<open>fs\<close> and \<open>fs'\<close> differ in the tables with new numbers only.\<close>

definition new_tables_only :: "VersionSet \<Rightarrow> file_system \<Rightarrow> file_system \<Rightarrow> bool" where
  "new_tables_only vs fs fs' \<longleftrightarrow>
     (\<forall>f. (\<forall>n. f = TableFileName (vs_dbname vs) n \<longrightarrow> n < vs_next_file vs) \<longrightarrow> map_of fs' f = map_of fs f)"

lemma manifest_ok_new_tables:
  assumes "manifest_ok fs vs es" "new_tables_only vs fs fs1" "vs_next_file vs \<le> next" "vs_last_sequence vs \<le> last_seq"
  shows "manifest_ok fs1 (vs\<lparr>vs_next_file := next, vs_last_sequence := last_seq\<rparr>) es"
proof -
  have "map_of fs1 (DescriptorFileName (vs_dbname vs) n) = map_of fs (DescriptorFileName (vs_dbname vs) n)"
    "map_of fs1 (CurrentFileName (vs_dbname vs)) = map_of fs (CurrentFileName (vs_dbname vs))" for n
    using assms(2) by (simp_all add: new_tables_only_def)
  then show ?thesis
    using assms(1,3,4) by (auto simp: manifest_ok_def current_names_def logged_def)
qed

text \<open>The rest of the state after an edit.\<close>

definition installed :: "VersionSet \<Rightarrow> VersionEdit \<Rightarrow> file_system \<Rightarrow> VersionSet \<Rightarrow> file_system \<Rightarrow> bool" where
  "installed vs e fs vs' fs' \<longleftrightarrow> vs_dbname vs' = vs_dbname vs \<and> vs_next_file vs' = vs_next_file vs \<and>
     vs_manifest vs' = vs_manifest vs \<and> vs_last_sequence vs' = vs_last_sequence vs \<and>
     vs_log_number vs' = log_number (CompleteEdit vs e) \<and> vs_prev_log vs' = prev_log_number (CompleteEdit vs e) \<and>
     (\<forall>f. f \<noteq> DescriptorFileName (vs_dbname vs) (vs_manifest vs) \<longrightarrow> map_of fs' f = map_of fs f)"

lemma install:
  assumes ok: "store_ok ops fs vs es" and fs1: "new_tables_only vs fs fs1"
    and vs1: "vs1 = vs\<lparr>vs_next_file := next, vs_last_sequence := last_seq\<rparr>" "vs_next_file vs \<le> next" "vs_last_sequence vs \<le> last_seq"
    and e: "edit_ok e" "fresh_edit es e" "\<And>l f. (l, f) \<in> set (new_files e) \<Longrightarrow> number f < next"
    and cross: "\<And>l l' f. l < kNumLevels \<Longrightarrow> l' < l \<Longrightarrow> f \<in> files_at (apply_edit e (vs_current vs)) l' \<Longrightarrow>
      number f \<notin> used_numbers es l \<union> number ` set (at_level l (new_files e))"
    and lay: "layout (tables ops (vs_dbname vs) fs1) (apply_edit e (vs_current vs))"
    and seq: "\<And>x. x \<in> version_entries (tables ops (vs_dbname vs) fs1) (apply_edit e (vs_current vs)) \<Longrightarrow> sequence (fst x) \<le> last_seq"
      "last_seq < kMaxSequenceNumber"
    and snd: "sound ops (vs_dbname vs) fs1 (apply_edit e (vs_current vs))"
    and r: "LogAndApply env fs1 vs1 e = (s, vs', fs')" "manifest_outcomes env = []" "Status_ok s"
  shows "store_ok ops fs' vs' (es @ [CompleteEdit vs1 e])"
    and "vs_current vs' = Finalize (apply_edit e (vs_current vs))"
    and "tables ops (vs_dbname vs) fs' = tables ops (vs_dbname vs) fs1"
    and "installed vs1 e fs1 vs' fs'"
proof -
  have man: "manifest_ok fs1 vs1 es"
    unfolding vs1(1) by (rule manifest_ok_new_tables [OF _ fs1 vs1(2,3)]) (use ok in \<open>simp add: store_ok_def\<close>)
  note res = LogAndApply_open [OF man r(2) e(1,2) r(1)]
  have man': "manifest_ok fs' vs' (es @ [CompleteEdit vs1 e])" by (rule LogAndApply_keeps [OF man r(2) e(1,2) r(1,3)])
  show cur: "vs_current vs' = Finalize (apply_edit e (vs_current vs))" using res r(3) vs1 by simp
  show tabs: "tables ops (vs_dbname vs) fs' = tables ops (vs_dbname vs) fs1"
    using res vs1(1) by (intro ext tables_cong) simp
  show "installed vs1 e fs1 vs' fs'" using res r(3) by (simp add: installed_def)
  have old: "numbers_ok vs es" "levels_ok (vs_current vs) es" using ok by (simp_all add: store_ok_def manifest_ok_def)
  have vs': "vs_dbname vs' = vs_dbname vs" "vs_next_file vs' = next" "vs_manifest vs' = vs_manifest vs" "vs_last_sequence vs' = last_seq"
    using res vs1 by simp_all
  have "fresh_edit es (CompleteEdit vs1 e)" using e(2) by (simp add: fresh_edit_def)
  then have used: "used_numbers (es @ [CompleteEdit vs1 e]) l = number ` set (at_level l (new_files e)) \<union> used_numbers es l"
    if "l < kNumLevels" for l
    using used_numbers_snoc [OF old(2), of "CompleteEdit vs1 e" l] that by simp
  have "numbers_ok vs' (es @ [CompleteEdit vs1 e])"
    unfolding numbers_ok_def
  proof (intro conjI allI impI ballI)
    show "vs_manifest vs' < vs_next_file vs'" using old(1) vs1 by (auto simp: numbers_ok_def vs')
    show "n < vs_next_file vs'" if "l < kNumLevels" "n \<in> used_numbers (es @ [CompleteEdit vs1 e]) l" for l n
      using that(2) old(1) that(1) e(3) vs1(2) unfolding used [OF that(1)] numbers_ok_def vs'
      by (auto simp: at_level_def) (metis less_le_trans)
    show "number f \<notin> used_numbers (es @ [CompleteEdit vs1 e]) l"
      if "l < kNumLevels" "l' < l" "f \<in> files_at (vs_current vs') l'" for l l' f
      using cross [OF that(1,2)] that(3) cur used [OF that(1)] by simp
  qed
  moreover have "sound_file ops (vs_dbname vs) fs' f = sound_file ops (vs_dbname vs) fs1 f" for f
    by (rule sound_file_cong) (use res vs1(1) in simp)
  then have "sound ops (vs_dbname vs) fs' (vs_current vs')" using snd cur by (simp add: sound_def)
  moreover have "recorded (tables ops (vs_dbname vs) fs') (vs_current vs') (es @ [CompleteEdit vs1 e])"
  proof -
    have "vs_next_file vs1 = next" "vs_last_sequence vs1 = last_seq" using vs1(1) by simp_all
    then show ?thesis using calculation(1) seq(1) cur tabs vs' by (simp add: recorded_def numbers_ok_def)
  qed
  ultimately show "store_ok ops fs' vs' (es @ [CompleteEdit vs1 e])"
    using man' cur tabs lay seq by (simp add: store_ok_def vs' sequences_ok_def)
qed

section \<open>The inputs of a compaction\<close>

lemma wf_merge_disjoint:
  assumes "list_all wf_entries rs" "sorted_wrt (\<lambda>r r'. \<forall>x \<in> set r. \<forall>y \<in> set r'. fst x \<noteq> fst y) rs"
  shows "wf_entries (merge_runs rs)"
proof -
  have "distinct (map fst (concat rs))"
    using assms
  proof (induction rs)
    case (Cons r rs)
    have "distinct (map fst r)" using Cons.prems(1) by (simp add: wf_entries_def sorted_entries_distinct)
    moreover have "fst ` set r \<inter> fst ` set (concat rs) = {}"
    proof -
      have "fst x \<noteq> fst y" if x: "x \<in> set r" and y: "y \<in> set (concat rs)" for x y
      proof -
        from y obtain r' where "r' \<in> set rs" "y \<in> set r'" by auto
        then show ?thesis using Cons.prems(2) x unfolding sorted_wrt.simps by blast
      qed
      then have "False" if "k \<in> fst ` set r" "k \<in> fst ` set (concat rs)" for k
        using that by (elim imageE) simp
      then show ?thesis unfolding disjoint_iff by blast
    qed
    ultimately show ?case using Cons by simp
  qed simp
  then show ?thesis
    using sorted_foldr_insert [of "concat rs" "[]"] assms(1)
    by (auto simp: wf_entries_def set_merge_runs list_all_iff merge_runs_def set_foldr_insert)
qed

lemma layout_disjoint:
  assumes lay: "layout T v" and l: "l < kNumLevels" "l' < kNumLevels" and f: "f \<in> files_at v l" "g \<in> files_at v l'"
    and ne: "l \<noteq> l' \<or> number f \<noteq> number g" and xy: "x \<in> set (T (number f))" "y \<in> set (T (number g))"
  shows "fst x \<noteq> fst y"
proof
  assume eq: "fst x = fst y"
  note lay' = layoutD [OF lay]
  have nn: "\<not> newer A B" if "x \<in> A \<and> y \<in> B \<or> y \<in> A \<and> x \<in> B" for A B using that eq unfolding newer_def by (metis less_irrefl)
  have mem: "x \<in> file_entries T (files_at v l)" "y \<in> file_entries T (files_at v l')"
    using f xy by (auto simp: file_entries_def)
  consider "l < l'" | "l' < l" | "l = l'" "l = 0" "number f \<noteq> number g" | "l = l'" "0 < l" "number f \<noteq> number g" using ne by linarith
  then show False
  proof cases
    case 1
    then show ?thesis using lay'(6) [OF l(2)] nn mem by blast
  next
    case 2
    then show ?thesis using lay'(6) [OF l(1)] nn mem by blast
  next
    case 3
    then have "newer (set (T (number f))) (set (T (number g))) \<or> newer (set (T (number g))) (set (T (number f)))"
      using lay'(5) [of f g] lay'(5) [of g f] f by (metis linorder_neqE)
    then show ?thesis using nn xy by blast
  next
    case 4
    then have "apart f g" using lay'(7) l f by blast
    then show ?thesis using apart_keys [OF _ _ _ xy] lay'(4) l f eq by metis
  qed
qed

lemma compaction_input:
  assumes lay: "layout T v" and L: "Suc (clevel c) < kNumLevels" and c: "closed_compaction v (clevel c) (inputs0 c) (inputs1 c)"
  shows "wf_entries (merge_runs (MakeInputIterator T c))"
    and "set (merge_runs (MakeInputIterator T c)) = file_entries T (set (inputs0 c)) \<union> file_entries T (set (inputs1 c))"
proof -
  let ?L = "clevel c" and ?disj = "\<lambda>r r'. \<forall>x \<in> set r. \<forall>y \<in> set r'. fst x \<noteq> fst y"
  note lay' = layoutD [OF lay]
  have in0: "set (inputs0 c) \<subseteq> files_at v ?L" "sorted_wrt BySmallestKey (inputs0 c)"
    and in1: "set (inputs1 c) \<subseteq> files_at v (Suc ?L)" "sorted_wrt BySmallestKey (inputs1 c)"
    using c by (simp_all add: closed_compaction_def isolated_def)
  have L': "?L < kNumLevels" using L by simp
  have inj: "inj_on number (files_at v l)" if "l < kNumLevels" for l using lay'(3) [OF that] by (simp add: distinct_map)
  have run: "wf_entries (run_of T fs)" if "set fs \<subseteq> files_at v l" "sorted_wrt BySmallestKey fs" "0 < l" "l < kNumLevels" for fs l
  proof (rule run_of_sorted)
    have "distinct fs" using that(2) by (auto simp: BySmallestKey_rank sorted_wrt_iff_nth_less distinct_conv_nth) (metis less_irrefl nat_neq_iff)
    then show "distinct (map number fs)" using inj [OF that(4)] that(1) inj_on_subset by (auto simp: distinct_map)
  qed (use that lay'(4,7) in blast)+
  have files0: "sorted_wrt ?disj (map (\<lambda>f. T (number f)) (inputs0 c))" 
    unfolding sorted_wrt_map
  proof (rule sorted_wrt_mono_rel [OF _ in0(2)])
    fix f g assume fg: "f \<in> set (inputs0 c)" "g \<in> set (inputs0 c)" "BySmallestKey f g"
    then have "f \<noteq> g" by (auto simp: BySmallestKey_rank)
    then have "number f \<noteq> number g" using inj [OF L'] fg in0(1) unfolding inj_on_def by blast
    then show "?disj (T (number f)) (T (number g))" using layout_disjoint [OF lay L' L'] fg in0(1) by blast
  qed
  have cross: "fst x \<noteq> fst y" if "f \<in> set (inputs0 c)" "x \<in> set (T (number f))" "y \<in> set (run_of T (inputs1 c))" for f x y
  proof -
    from that(3) obtain g where g: "g \<in> set (inputs1 c)" "y \<in> set (T (number g))" unfolding set_run_of by blast
    have "f \<in> files_at v ?L" "g \<in> files_at v (Suc ?L)" using that(1) g(1) in0(1) in1(1) by blast+
    then show ?thesis using layout_disjoint [OF lay L' L _ _ _ that(2) g(2)] by simp
  qed
  then have crossing: "?disj (run_of T (inputs0 c)) (run_of T (inputs1 c))"
      "\<forall>r \<in> set (map (\<lambda>f. T (number f)) (inputs0 c)). ?disj r (run_of T (inputs1 c))"
    unfolding set_run_of [of T "inputs0 c"] set_map by blast+
  have wf0: "wf_entries (T (number f))" if "f \<in> set (inputs0 c)" for f
    using lay'(4) [OF L'] that in0(1) by (auto simp: file_ok_def)
  show "wf_entries (merge_runs (MakeInputIterator T c))"
  proof (rule wf_merge_disjoint)
    show "list_all wf_entries (MakeInputIterator T c)"
      using wf0 run [OF in0] run [OF in1 _ L] L' by (auto simp: MakeInputIterator_def list_all_iff)
    show "sorted_wrt ?disj (MakeInputIterator T c)"
      using files0 crossing by (simp add: MakeInputIterator_def sorted_wrt_append)
  qed
  show "set (merge_runs (MakeInputIterator T c)) = file_entries T (set (inputs0 c)) \<union> file_entries T (set (inputs1 c))"
    by (auto simp: set_merge_runs MakeInputIterator_def set_run_of file_entries_def)
qed

section \<open>Merges\<close>

text \<open>The edit of a compaction: its inputs are deleted and its outputs are new files of the next level.\<close>

definition merge_edit :: "VersionEdit \<Rightarrow> nat \<Rightarrow> files \<Rightarrow> files \<Rightarrow> files \<Rightarrow> bool" where
  "merge_edit e l in0 in1 outs \<longleftrightarrow>
     set (deleted_files e) = Pair l ` number ` set in0 \<union> Pair (Suc l) ` number ` set in1 \<and> new_files e = map (Pair (Suc l)) outs"

lemma merge_edit_levels:
  assumes "merge_edit e l in0 in1 outs"
  shows "at_level k (new_files e) = (if k = Suc l then outs else [])"
    and "set (at_level k (deleted_files e)) = (if k = l then number ` set in0 else if k = Suc l then number ` set in1 else {})"
proof -
  show "at_level k (new_files e) = (if k = Suc l then outs else [])"
    using assms by (simp add: merge_edit_def at_level_def filter_map comp_def)
  have "set (at_level k (deleted_files e)) = {n. (k, n) \<in> set (deleted_files e)}" by (force simp: at_level_def)
  then show "set (at_level k (deleted_files e)) = (if k = l then number ` set in0 else if k = Suc l then number ` set in1 else {})"
    using assms by (auto simp: merge_edit_def)
qed

lemma merge_edit_files:
  assumes lay: "layout T v" and e: "merge_edit e l in0 in1 outs" and l: "Suc l < kNumLevels"
    and in01: "set in0 \<subseteq> files_at v l" "set in1 \<subseteq> files_at v (Suc l)"
    and fresh: "distinct (map number outs)" "number ` set outs \<inter> number ` files_at v (Suc l) = {}" and k: "k < kNumLevels"
  shows "files_at (apply_edit e v) k = (if k = l then files_at v l - set in0
      else if k = Suc l then (files_at v (Suc l) - set in1) \<union> refresh ` set outs else files_at v k)"
    and "sorted_wrt BySmallestKey (level_files (apply_edit e v) k)"
    and "distinct (map number (level_files (apply_edit e v) k))"
proof -
  note lay' = layoutD [OF lay]
  have f: "fresh_at e k (number ` files_at v k)" using fresh by (simp add: fresh_at_def merge_edit_levels [OF e])
  note app = apply_edit_files [OF k f lay'(2) [OF k] lay'(3) [OF k]]
  have inj: "inj_on number (files_at v j)" if "j < kNumLevels" for j using lay'(3) [OF that] by (simp add: distinct_map)
  have minus: "{f \<in> files_at v j. number f \<notin> number ` set fs} = files_at v j - set fs" if "j < kNumLevels" "set fs \<subseteq> files_at v j" for j fs
    using inj [OF that(1)] that(2) by (auto simp: inj_on_def)
  show "files_at (apply_edit e v) k = (if k = l then files_at v l - set in0
      else if k = Suc l then (files_at v (Suc l) - set in1) \<union> refresh ` set outs else files_at v k)"
    using app(1) minus [of l in0] minus [of "Suc l" in1] in01 l by (simp add: merge_edit_levels [OF e])
  show "sorted_wrt BySmallestKey (level_files (apply_edit e v) k)" "distinct (map number (level_files (apply_edit e v) k))"
    using app(2,3) .
qed

lemma merge_layout:
  assumes lay: "layout T v" and e: "merge_edit e l in0 in1 outs" and l: "Suc l < kNumLevels"
    and closed: "closed_compaction v l in0 in1"
    and fresh: "distinct (map number outs)" "number ` set outs \<inter> number ` files_at v (Suc l) = {}"
    and T': "\<And>k f. k < kNumLevels \<Longrightarrow> f \<in> files_at v k \<Longrightarrow> T' (number f) = T (number f)"
    and ok: "\<And>f. f \<in> set outs \<Longrightarrow> file_ok T' f"
    and sub: "file_entries T' (set outs) \<subseteq> file_entries T (set in0) \<union> file_entries T (set in1)"
    and apart_outs: "\<And>f g. f \<in> set outs \<Longrightarrow> g \<in> set outs \<Longrightarrow> number f \<noteq> number g \<Longrightarrow> apart f g"
  shows "layout T' (apply_edit e v)"
proof -
  have in01: "set in0 \<subseteq> files_at v l" "set in1 \<subseteq> files_at v (Suc l)"
    and iso: "\<And>f g. f \<in> files_at v l - set in0 \<Longrightarrow> g \<in> set in0 \<Longrightarrow> apart f g"
    and bes: "\<And>f. f \<in> files_at v (Suc l) - set in1 \<Longrightarrow> beside f (set in0 \<union> set in1)"
    using closed by (simp_all add: closed_compaction_def isolated_def)
  note files = merge_edit_files [OF lay e l in01 fresh]
  have input: "\<exists>h \<in> set in0 \<union> set in1. low_key h \<le> user_key (fst x) \<and> user_key (fst x) \<le> high_key h"
    if "f \<in> set outs" "x \<in> set (T' (number f))" for f x
  proof -
    have "x \<in> file_entries T (set in0) \<union> file_entries T (set in1)" using sub that by (auto simp: file_entries_def)
    then obtain h where hx: "h \<in> set in0 \<union> set in1" "x \<in> set (T (number h))" unfolding file_entries_def by blast
    then have "h \<in> files_at v l \<or> h \<in> files_at v (Suc l)" using in01 by blast
    then obtain k where h: "h \<in> set in0 \<union> set in1" "x \<in> set (T (number h))" "k < kNumLevels" "h \<in> files_at v k"
      using l hx Suc_lessD by blast
    then have "low_key h \<le> user_key (fst x) \<and> user_key (fst x) \<le> high_key h"
      using file_keys(2) [OF layoutD(4) [OF lay h(3,4)] h(2)] by simp
    then show ?thesis using h(1) by blast
  qed
  have "apart f g" if f: "f \<in> files_at v (Suc l) - set in1" and g: "g \<in> set outs" for f g
  proof -
    have "T' (number g) \<noteq> []" using ok [OF g] by (simp add: file_ok_def)
    then obtain h h' where "h \<in> set in0 \<union> set in1" "low_key h \<le> low_key g" "h' \<in> set in0 \<union> set in1" "high_key g \<le> high_key h'"
      using input [OF g, of "hd (T' (number g))"] input [OF g, of "last (T' (number g))"] file_keys(3,4) [OF ok [OF g]] by auto
    then show ?thesis using bes [OF f] unfolding beside_def apart_def by (meson less_le_trans le_less_trans)
  qed
  then show ?thesis
    using files T' l in01 sub iso apart_outs ok
    by (intro layout_merge [OF lay l, where ?I0.0 = "set in0" and ?I1.0 = "set in1" and Out = "refresh ` set outs"]) auto
qed

text \<open>The entries of a version, those of the inputs apart.\<close>

definition other_entries :: "(u64 \<Rightarrow> entry list) \<Rightarrow> Version \<Rightarrow> nat \<Rightarrow> files \<Rightarrow> files \<Rightarrow> entry set" where
  "other_entries T v l in0 in1 = (\<Union>k < kNumLevels. file_entries T (files_at v k -
     (if k = l then set in0 else if k = Suc l then set in1 else {})))"

lemma UN_one_level: "j < n \<Longrightarrow> (\<Union>k < n. if k = j then A else {}) = A" for n :: nat
  by (auto split: if_splits)

lemma version_entries_split:
  assumes "Suc l < kNumLevels" "set in0 \<subseteq> files_at v l" "set in1 \<subseteq> files_at v (Suc l)"
  shows "version_entries T v = other_entries T v l in0 in1 \<union> (file_entries T (set in0) \<union> file_entries T (set in1))"
proof -
  have "file_entries T (files_at v k) = file_entries T (files_at v k - (if k = l then set in0 else if k = Suc l then set in1 else {})) \<union>
      file_entries T (if k = l then set in0 else if k = Suc l then set in1 else {})" for k
    using assms(2,3) unfolding file_entries_Un [symmetric] by (intro arg_cong [where f = "file_entries T"]) auto
  then have "version_entries T v = other_entries T v l in0 in1 \<union>
      (\<Union>k < kNumLevels. file_entries T (if k = l then set in0 else if k = Suc l then set in1 else {}))"
    unfolding version_entries_def other_entries_def by blast
  also have "(\<Union>k < kNumLevels. file_entries T (if k = l then set in0 else if k = Suc l then set in1 else {})) =
      file_entries T (set in0) \<union> file_entries T (set in1)"
  proof -
    have "file_entries T (if k = l then set in0 else if k = Suc l then set in1 else {}) =
        (if k = l then file_entries T (set in0) else {}) \<union> (if k = Suc l then file_entries T (set in1) else {})" for k
      by (simp add: file_entries_def)
    then show ?thesis using assms(1) by (simp add: UN_Un_distrib UN_one_level)
  qed
  finally show ?thesis .
qed

lemma other_entries_disjoint:
  assumes lay: "layout T v" and l: "Suc l < kNumLevels" and in01: "set in0 \<subseteq> files_at v l" "set in1 \<subseteq> files_at v (Suc l)"
  shows "other_entries T v l in0 in1 \<inter> (file_entries T (set in0) \<union> file_entries T (set in1)) = {}"
proof -
  have False if "x \<in> other_entries T v l in0 in1" "x \<in> file_entries T (set in0) \<union> file_entries T (set in1)" for x
  proof -
    from that(1) obtain k f where f: "k < kNumLevels" "f \<in> files_at v k" "f \<notin> (if k = l then set in0 else if k = Suc l then set in1 else {})"
      "x \<in> set (T (number f))" unfolding other_entries_def file_entries_def by auto
    from that(2) obtain j g where g: "j = l \<and> g \<in> set in0 \<or> j = Suc l \<and> g \<in> set in1" "x \<in> set (T (number g))"
      unfolding file_entries_def by blast
    then have j: "j < kNumLevels" "g \<in> files_at v j" using l in01 by auto
    have "inj_on number (files_at v k)" using layoutD(3) [OF lay f(1)] by (simp add: distinct_map)
    then have "k \<noteq> j \<or> number f \<noteq> number g" using f g(1) j unfolding inj_on_def by (metis n_not_Suc_n)
    then show False using layout_disjoint [OF lay f(1) j(1) f(2) j(2) _ f(4) g(2)] by blast
  qed
  then show ?thesis by blast
qed

lemma merged_entries:
  assumes lay: "layout T v" and e: "merge_edit e l in0 in1 outs" and l: "Suc l < kNumLevels"
    and in01: "set in0 \<subseteq> files_at v l" "set in1 \<subseteq> files_at v (Suc l)"
    and fresh: "distinct (map number outs)" "number ` set outs \<inter> number ` files_at v (Suc l) = {}"
    and T': "\<And>k f. k < kNumLevels \<Longrightarrow> f \<in> files_at v k \<Longrightarrow> T' (number f) = T (number f)"
  shows "version_entries T' (apply_edit e v) = other_entries T v l in0 in1 \<union> file_entries T' (set outs)"
proof -
  note files = merge_edit_files(1) [OF lay e l in01 fresh]
  let ?in = "\<lambda>k. if k = l then set in0 else if k = Suc l then set in1 else {}"
  have "file_entries T' (files_at (apply_edit e v) k) =
      file_entries T (files_at v k - ?in k) \<union> (if k = Suc l then file_entries T' (set outs) else {})" if k: "k < kNumLevels" for k
  proof -
    have "file_entries T' (files_at v k - ?in k) = file_entries T (files_at v k - ?in k)"
      using T' [OF k] by (intro file_entries_cong) auto
    then show ?thesis using files [OF k] by (auto simp: file_entries_Un split: if_splits)
  qed
  then have "version_entries T' (apply_edit e v) = (\<Union>k < kNumLevels. file_entries T (files_at v k - ?in k) \<union>
      (if k = Suc l then file_entries T' (set outs) else {}))"
    unfolding version_entries_def by (intro SUP_cong) auto
  then show ?thesis using l unfolding other_entries_def by (simp add: UN_Un_distrib UN_one_level)
qed

text \<open>When the levels below hold no file around a key, every other entry of the key is newer.\<close>

lemma other_newer:
  assumes lay: "layout T v" and l: "Suc l < kNumLevels" and closed: "closed_compaction v l in0 in1"
    and y: "y \<in> other_entries T v l in0 in1" and x: "x \<in> file_entries T (set in0) \<union> file_entries T (set in1)"
    and key: "user_key (fst y) = user_key (fst x)" and base_lvl: "base_level v l (user_key (fst x))"
  shows "sequence (fst x) < sequence (fst y)"
proof -
  have in01: "set in0 \<subseteq> files_at v l" "set in1 \<subseteq> files_at v (Suc l)"
    and iso: "\<And>f g. f \<in> files_at v l - set in0 \<Longrightarrow> g \<in> set in0 \<Longrightarrow> apart f g"
    and bes: "\<And>f. f \<in> files_at v (Suc l) - set in1 \<Longrightarrow> beside f (set in0 \<union> set in1)"
    using closed by (simp_all add: closed_compaction_def isolated_def)
  from y obtain k f where f: "k < kNumLevels" "f \<in> files_at v k" "f \<notin> (if k = l then set in0 else if k = Suc l then set in1 else {})"
    "y \<in> set (T (number f))" unfolding other_entries_def file_entries_def by auto
  from x obtain j g where g: "j = l \<and> g \<in> set in0 \<or> j = Suc l \<and> g \<in> set in1" "x \<in> set (T (number g))"
    unfolding file_entries_def by blast
  then have j: "j < kNumLevels" "g \<in> files_at v j" using l in01 by auto
  note ok = layoutD(4) [OF lay f(1,2)] layoutD(4) [OF lay j]
  note keys = file_keys(2) [OF ok(1) f(4)] file_keys(2) [OF ok(2) g(2)]
  consider "k < j" | "k = l" "j = l" | "k = Suc l" | "l + 2 \<le> k" using g(1) by linarith
  then show ?thesis
  proof cases
    case 1
    have "newer (file_entries T (files_at v k)) (file_entries T (files_at v j))" using layoutD(6) [OF lay j(1) 1] .
    moreover have "y \<in> file_entries T (files_at v k)" "x \<in> file_entries T (files_at v j)"
      using f g(2) j(2) unfolding file_entries_def by blast+
    ultimately show ?thesis using key unfolding newer_def by blast
  next
    case 2
    then have "apart f g" using iso f g(1) by auto
    then show ?thesis using apart_keys [OF _ ok f(4) g(2)] key by blast
  next
    case 3
    then have "beside f (set in0 \<union> set in1)" using bes f by auto
    then have "apart f g" using g(1) by (auto simp: beside_def apart_def)
    then show ?thesis using apart_keys [OF _ ok f(4) g(2)] key by blast
  next
    case 4
    then show ?thesis using base_lvl f(1,2) keys(1) key by (auto simp: base_level_def)
  qed
qed

text \<open>
  Runs of tables that give the same contents to every reader at \<open>snap\<close> or later. The runs \<open>pre\<close>
  before those of the tables are the memtables.
\<close>

definition preserves :: "u64 \<Rightarrow> entry list list \<Rightarrow> entry list list \<Rightarrow> bool" where
  "preserves snap rs rs' \<longleftrightarrow> (\<forall>pre. runs_ok (pre @ rs) \<longrightarrow> runs_ok (pre @ rs') \<and>
     (\<forall>S uk. snap \<le> S \<longrightarrow> visible (merge_runs (pre @ rs')) S uk = visible (merge_runs (pre @ rs)) S uk))"

lemma preservesD:
  assumes "preserves snap rs rs'" "runs_ok (pre @ rs)"
  shows "runs_ok (pre @ rs')" "snap \<le> S \<Longrightarrow> visible (merge_runs (pre @ rs')) S uk = visible (merge_runs (pre @ rs)) S uk"
  using assms by (auto simp: preserves_def)

definition store_runs :: "table_ops \<Rightarrow> file_system \<Rightarrow> VersionSet \<Rightarrow> entry list list" where
  "store_runs ops fs vs = version_runs (tables ops (vs_dbname vs) fs) (vs_current vs)"

text \<open>The same entries in other runs give the same contents.\<close>

lemma preserves_same:
  assumes "\<Union> (set ` set rs') = \<Union> (set ` set rs)" "runs_ok rs'"
  shows "preserves snap rs rs'"
  unfolding preserves_def
proof (intro allI impI conjI)
  fix pre assume pre: "runs_ok (pre @ rs)"
  have "newer_run r r'" if "r \<in> set pre" "r' \<in> set rs'" for r r'
  proof -
    have "newer (set r) (\<Union> (set ` set rs))" using pre that(1) by (auto simp: runs_ok_append newer_newer_run newer_def)
    moreover have "set r' \<subseteq> \<Union> (set ` set rs)" using assms(1) that(2) by blast
    ultimately show ?thesis unfolding newer_newer_run using newer_mono by blast
  qed
  then show runs': "runs_ok (pre @ rs')" using pre assms(2) by (simp add: runs_ok_append)
  show "visible (merge_runs (pre @ rs')) S uk = visible (merge_runs (pre @ rs)) S uk" if "snap \<le> S" for S uk
    by (rule visible_keep [OF pre runs', of "[]" snap "\<lambda>_. False"]) (use assms(1) that in \<open>simp_all add: wf_entries_def\<close>)
qed

text \<open>What a compaction does to the contents.\<close>

lemma merge_contents:
  assumes lay: "layout T v" and e: "merge_edit e l in0 in1 outs" and l: "Suc l < kNumLevels"
    and closed: "closed_compaction v l in0 in1"
    and fresh: "distinct (map number outs)" "number ` set outs \<inter> number ` files_at v (Suc l) = {}"
    and T': "\<And>k f. k < kNumLevels \<Longrightarrow> f \<in> files_at v k \<Longrightarrow> T' (number f) = T (number f)"
    and lay': "layout T' (apply_edit e v)"
    and es: "wf_entries es" "set es = file_entries T (set in0) \<union> file_entries T (set in1)"
    and outs: "file_entries T' (set outs) = set (keep snap (base_level v l) None es)"
  shows "preserves snap (version_runs T v) (version_runs T' (apply_edit e v))"
  unfolding preserves_def
proof (intro allI impI conjI)
  fix pre assume pre: "runs_ok (pre @ version_runs T v)"
  let ?v' = "apply_edit e v" and ?O = "other_entries T v l in0 in1"
  have in01: "set in0 \<subseteq> files_at v l" "set in1 \<subseteq> files_at v (Suc l)"
    and iso: "\<And>f g. f \<in> files_at v l - set in0 \<Longrightarrow> g \<in> set in0 \<Longrightarrow> apart f g"
    and bes: "\<And>f. f \<in> files_at v (Suc l) - set in1 \<Longrightarrow> beside f (set in0 \<union> set in1)"
    using closed by (simp_all add: closed_compaction_def isolated_def)
  have len: "length (vfiles v) = kNumLevels" "length (vfiles ?v') = kNumLevels" using layoutD(1) [OF lay] layoutD(1) [OF lay'] by simp_all
  have V: "version_entries T v = ?O \<union> set es" using version_entries_split [OF l in01] es(2) by simp
  have V': "version_entries T' ?v' = ?O \<union> set (keep snap (base_level v l) None es)"
    using merged_entries [OF lay e l in01 fresh T'] outs by simp
  have disj: "?O \<inter> set es = {}" using other_entries_disjoint [OF lay l in01] es(2) by simp
  have runs: "\<Union> (set ` set (version_runs T v)) = ?O \<union> set es" "\<Union> (set ` set (version_runs T' ?v')) = ?O \<union> set (keep snap (base_level v l) None es)"
    using set_version_runs [OF len(1)] set_version_runs [OF len(2)] V V' by simp_all
  have newer_pre: "newer (set r) (?O \<union> set es)" if "r \<in> set pre" for r
    using pre that unfolding runs(1) [symmetric] by (auto simp: runs_ok_append newer_newer_run newer_def)
  have "runs_ok (version_runs T' ?v')" using layout_version_ok [OF lay'] by (simp add: version_ok_def)
  moreover have "newer_run r r'" if "r \<in> set pre" "r' \<in> set (version_runs T' ?v')" for r r'
  proof -
    have "set r' \<subseteq> ?O \<union> set es" using runs(2) that(2) set_keep [of snap "base_level v l" None es] by blast
    then show ?thesis using newer_pre [OF that(1)] newer_mono unfolding newer_newer_run by blast
  qed
  ultimately show runs': "runs_ok (pre @ version_runs T' ?v')" using pre by (simp add: runs_ok_append)
  fix S uk assume S: "snap \<le> S"
  show "visible (merge_runs (pre @ version_runs T' ?v')) S uk = visible (merge_runs (pre @ version_runs T v)) S uk"
  proof (rule visible_keep [OF pre runs' es(1) _ _ S])
    show "set es \<subseteq> \<Union> (set ` set (pre @ version_runs T v))" using runs(1) by auto
    have dpre: "set r \<inter> set es = {}" if "r \<in> set pre" for r using newer_pre [OF that] by (auto simp: newer_def)
    show "\<Union> (set ` set (pre @ version_runs T' ?v')) =
        \<Union> (set ` set (pre @ version_runs T v)) - set es \<union> set (keep snap (base_level v l) None es)"
      using runs disj dpre by (simp add: Un_Diff) blast
    fix x y assume x: "x \<in> set es" "base_level v l (user_key (fst x))"
      and y: "y \<in> \<Union> (set ` set (pre @ version_runs T v)) - set es" "user_key (fst y) = user_key (fst x)"
    from y(1) consider r where "r \<in> set pre" "y \<in> set r" | "y \<in> ?O" using runs(1) by auto
    then show "sequence (fst x) < sequence (fst y)"
    proof cases
      case 1
      then show ?thesis using newer_pre [of r] x(1) y(2) by (auto simp: newer_def)
    next
      case 2
      then show ?thesis using other_newer [OF lay l closed _ _ y(2) x(2)] x(1) es(2) by simp
    qed
  qed
qed

section \<open>The results of a compaction\<close>

definition out_file :: "Output \<Rightarrow> FileMetaData" where
  "out_file out = new_FileMetaData (out_number out) (out_size out) (out_smallest out) (out_largest out)"

definition results_edit :: "Compaction \<Rightarrow> Output list \<Rightarrow> VersionEdit" where
  "results_edit c outs =
     fold (\<lambda>out. AddFile (clevel c + 1) (out_number out) (out_size out) (out_smallest out) (out_largest out)) outs
       (AddInputDeletions c (cedit c))"

lemma fold_AddFile:
  "fold (\<lambda>out. AddFile l (out_number out) (out_size out) (out_smallest out) (out_largest out)) outs e =
   e\<lparr>new_files := new_files e @ map (\<lambda>out. (l, out_file out)) outs\<rparr>"
  by (induction outs arbitrary: e) (simp_all add: AddFile_def out_file_def)

lemma fold_DeleteFile:
  "fold (\<lambda>f. DeleteFile l (number f)) fs e = e\<lparr>deleted_files := fold set_insert (map (\<lambda>f. (l, number f)) fs) (deleted_files e)\<rparr>"
  by (induction fs arbitrary: e) (simp_all add: DeleteFile_def)

lemma sorted_fold_set_insert: "sorted_wrt (<) xs \<Longrightarrow> sorted_wrt (<) (fold set_insert ys xs)" for xs :: "'a::linorder list"
  by (induction ys arbitrary: xs) (simp_all add: sorted_set_insert)

lemma results_edit_fields:
  assumes "cedit c = SetCompactPointer (clevel c) large VersionEdit_new"
  shows "merge_edit (results_edit c outs) (clevel c) (inputs0 c) (inputs1 c) (map out_file outs)"
    and "results_edit c outs = VersionEdit_new\<lparr>compact_pointers := [(clevel c, large)],
      deleted_files := deleted_files (results_edit c outs), new_files := map (\<lambda>out. (Suc (clevel c), out_file out)) outs\<rparr>"
    and "sorted_wrt (<) (deleted_files (results_edit c outs))"
    and "set_pointers (results_edit c outs) cps = cps[clevel c := large]"
proof -
  define D where "D = fold set_insert (map (\<lambda>f. (clevel c + 1, number f)) (inputs1 c))
    (fold set_insert (map (\<lambda>f. (clevel c, number f)) (inputs0 c)) [])"
  have eq: "results_edit c outs = VersionEdit_new\<lparr>compact_pointers := [(clevel c, large)], deleted_files := D,
      new_files := map (\<lambda>out. (Suc (clevel c), out_file out)) outs\<rparr>"
    using assms by (simp add: results_edit_def AddInputDeletions_def fold_AddFile fold_DeleteFile SetCompactPointer_def
        VersionEdit_new_def D_def)
  then show "results_edit c outs = VersionEdit_new\<lparr>compact_pointers := [(clevel c, large)],
      deleted_files := deleted_files (results_edit c outs), new_files := map (\<lambda>out. (Suc (clevel c), out_file out)) outs\<rparr>"
    by simp
  have "set D = Pair (clevel c) ` number ` set (inputs0 c) \<union> Pair (Suc (clevel c)) ` number ` set (inputs1 c)"
    using fold_set_insert [of "[]" "map (\<lambda>f. (clevel c, number f)) (inputs0 c)"]
      fold_set_insert [of "fold set_insert (map (\<lambda>f. (clevel c, number f)) (inputs0 c)) []" "map (\<lambda>f. (clevel c + 1, number f)) (inputs1 c)"]
    by (auto simp: D_def image_image)
  then show "merge_edit (results_edit c outs) (clevel c) (inputs0 c) (inputs1 c) (map out_file outs)"
    by (simp add: merge_edit_def eq)
  show "sorted_wrt (<) (deleted_files (results_edit c outs))" by (simp add: eq D_def sorted_fold_set_insert)
  show "set_pointers (results_edit c outs) cps = cps[clevel c := large]" by (simp add: eq set_pointers_def)
qed

lemma results_edit_ok:
  assumes c: "cedit c = SetCompactPointer (clevel c) large VersionEdit_new" "Suc (clevel c) < kNumLevels" "length large < 2 ^ 32"
    and outs: "\<And>out. out \<in> set outs \<Longrightarrow> length (out_smallest out) < 2 ^ 32 \<and> length (out_largest out) < 2 ^ 32"
  shows "edit_ok (results_edit c outs)"
proof -
  have "list_all (\<lambda>(l, n). l < kNumLevels) (deleted_files (results_edit c outs))"
    using results_edit_fields(1) [OF c(1), of outs] c(2) by (auto simp: merge_edit_def list_all_iff)
  then show ?thesis
    using c outs results_edit_fields(3) [OF c(1), of outs]
    by (subst results_edit_fields(2) [OF c(1)])
      (auto simp: edit_ok_def encodable_def VersionEdit_new_def list_all_iff out_file_def new_FileMetaData_def)
qed

lemma table_numbers_range:
  assumes "unat (vs_next_file vs) + n < 2 ^ 64" "k \<in> set (table_numbers vs n)"
  shows "vs_next_file vs \<le> k" "k < vs_next_file vs + word_of_nat n"
proof -
  obtain i where i: "i < n" "k = vs_next_file vs + word_of_nat i" using assms(2) by (auto simp: table_numbers_def)
  have un: "unat (vs_next_file vs + word_of_nat j) = unat (vs_next_file vs) + j" if "j \<le> n" for j
    using that assms(1) by (simp add: unat_word_ariths unat_of_nat)
  show "vs_next_file vs \<le> k" "k < vs_next_file vs + word_of_nat n"
    using un [of i] un [of n] i by (simp_all add: word_le_nat_alt word_less_nat_alt)
qed

lemma entries_size_concat: "t \<in> set ts \<Longrightarrow> entries_size t \<le> entries_size (concat ts)"
  by (induction ts) (auto simp: entries_size_def)

lemma length_concat_nonempty: "\<forall>t \<in> set ts. snd t \<noteq> [] \<Longrightarrow> length ts \<le> length (concat (map snd ts))"
proof (induction ts)
  case (Cons t ts)
  then have "0 < length (snd t)" "length ts \<le> length (concat (map snd ts))" by simp_all
  then show ?case unfolding list.map concat.simps length_append list.size by linarith
qed simp

lemma length_keep: "length (keep snap isbase p es) \<le> length es"
  by (induction es arbitrary: p) (simp_all add: le_SucI)

lemma entries_size_keep: "entries_size (keep snap isbase p es) \<le> entries_size es"
  by (induction es arbitrary: p) (simp_all add: entries_size_def trans_le_add2)

lemma wf_entries_concat: "wf_entries (concat ts) \<Longrightarrow> t \<in> set ts \<Longrightarrow> wf_entries t"
  by (induction ts) (auto simp: wf_entries_def sorted_wrt_append)

text \<open>The tables that the loop has written, when it has gone through all entries.\<close>

lemma compaction_outputs:
  assumes inv: "work_inv ops fs vs st tabs" and b: "builder st = None" and law: "table_law ops"
    and kept: "concat (map snd tabs) = map raw_entry kept" "wf_entries kept" "entries_size kept < 2 ^ 31"
    and keys: "sorted_wrt (\<lambda>x y. user_key (fst x) < user_key (fst y)) kept"
  defines "outs \<equiv> map out_file (outputs st)" and "T' \<equiv> tables ops (vs_dbname vs) (cfiles st)"
  shows "map number outs = table_numbers vs (length tabs)" and "f \<in> set outs \<Longrightarrow> file_ok T' f"
    and "f \<in> set outs \<Longrightarrow> sound_file ops (vs_dbname vs) (cfiles st) f"
    and "file_entries T' (set outs) = set kept"
    and "f \<in> set outs \<Longrightarrow> g \<in> set outs \<Longrightarrow> number f \<noteq> number g \<Longrightarrow> apart f g"
    and "new_tables_only vs fs (cfiles st)"
    and "out \<in> set (outputs st) \<Longrightarrow> length (out_smallest out) < 2 ^ 32 \<and> length (out_largest out) < 2 ^ 32"
proof -
  note inv = inv [unfolded work_inv_def b option.case]
  obtain ts where ts: "map snd tabs = map (map raw_entry) ts" "concat ts = kept" using concat_map_split [OF kept(1)] by blast
  have len: "length ts = length tabs" using map_eq_imp_length_eq [OF ts(1)] by simp
  have tab: "snd (tabs ! i) = map raw_entry (ts ! i)" if "i < length tabs" for i
    using arg_cong [OF ts(1), of "\<lambda>xs. xs ! i"] that len by simp
  have ne: "ts ! i \<noteq> []" if "i < length tabs" for i
    using inv nth_mem [OF that] tab [OF that] by force
  have outs_nth: "outs ! i = new_FileMetaData (fst (tabs ! i)) (word_of_nat (length (tb_Finish ops (snd (tabs ! i)))))
      (ikey (hd (ts ! i))) (ikey (last (ts ! i)))" if "i < length tabs" for i
    using that inv ne [OF that] tab [OF that] by (simp add: outs_def out_file_def out_of_def hd_map last_map)
  have len_outs: "length outs = length tabs" using inv by (simp add: outs_def)
  have wf: "wf_entries (ts ! i)" "entries_size (ts ! i) < 2 ^ 31" if "i < length tabs" for i
    using that len ts(2) kept(2,3) wf_entries_concat [of ts "ts ! i"] entries_size_concat [of "ts ! i" ts] by auto
  have data: "map_of (cfiles st) (TableFileName (vs_dbname vs) (fst (tabs ! i))) = Some (tb_Finish ops (snd (tabs ! i)))"
    if "i < length tabs" for i using inv that by (auto simp: stored_def)
  have T': "T' (number (outs ! i)) = ts ! i" if i: "i < length tabs" for i
    using data [OF i] law tab [OF i] wf [OF i] ne [OF i]
    by (simp add: T'_def tables_def outs_nth [OF i] new_FileMetaData_def table_law_def)
  show nums: "map number outs = table_numbers vs (length tabs)"
    using inv by (simp add: outs_def out_file_def out_of_def new_FileMetaData_def comp_def)
  have mem: "\<exists>i < length tabs. f = outs ! i" if "f \<in> set outs" for f
    using that len_outs unfolding in_set_conv_nth by metis
  have fok: "file_ok T' (outs ! i)" if i: "i < length tabs" for i
    using wf [OF i] ne [OF i] T' [OF i] by (simp add: file_ok_def outs_nth [OF i] new_FileMetaData_def)
  then show "f \<in> set outs \<Longrightarrow> file_ok T' f" using mem by blast
  have "sound_file ops (vs_dbname vs) (cfiles st) (outs ! i)" if i: "i < length tabs" for i
    unfolding sound_file_def using wf [OF i] ne [OF i] data [OF i] tab [OF i]
    by (intro exI [of _ "ts ! i"]) (simp add: outs_nth [OF i] new_FileMetaData_def)
  then show "f \<in> set outs \<Longrightarrow> sound_file ops (vs_dbname vs) (cfiles st) f" using mem by blast
  show "file_entries T' (set outs) = set kept"
  proof -
    have "file_entries T' (set outs) = (\<Union>i < length tabs. set (ts ! i))"
    proof -
      have "file_entries T' (set outs) = (\<Union>i < length tabs. set (T' (number (outs ! i))))"
        unfolding file_entries_def set_conv_nth [of outs] len_outs by blast
      then show ?thesis using T' by simp
    qed
    also have "\<dots> = set (concat ts)" unfolding set_concat set_conv_nth [of ts] len by blast
    finally show ?thesis using ts(2) by simp
  qed
  have before: "apart (outs ! i) (outs ! j)" if ij: "i < j" "j < length tabs" for i j
  proof -
    have "sorted_wrt (\<lambda>t u. \<forall>x \<in> set t. \<forall>y \<in> set u. user_key (fst x) < user_key (fst y)) ts"
      using keys unfolding ts(2) [symmetric] by (induction ts) (auto simp: sorted_wrt_append)
    then have "\<forall>x \<in> set (ts ! i). \<forall>y \<in> set (ts ! j). user_key (fst x) < user_key (fst y)"
      using ij len by (simp add: sorted_wrt_iff_nth_less)
    then show ?thesis
      using file_keys(4) [OF fok [of i]] file_keys(3) [OF fok [of j]] ne [of i] ne [of j] T' [of i] T' [of j] ij
      by (auto simp: apart_def)
  qed
  show "f \<in> set outs \<Longrightarrow> g \<in> set outs \<Longrightarrow> number f \<noteq> number g \<Longrightarrow> apart f g"
    using mem before apart_sym by (metis nat_neq_iff)
  show "new_tables_only vs fs (cfiles st)"
    unfolding new_tables_only_def
  proof (intro allI impI)
    fix f assume f: "\<forall>n. f = TableFileName (vs_dbname vs) n \<longrightarrow> n < vs_next_file vs"
    have "f \<noteq> TableFileName (vs_dbname vs) (fst t)" if "t \<in> set tabs" for t
    proof -
      have "fst t \<in> set (table_numbers vs (length tabs))" using inv that by (metis imageI list.set_map)
      then have "vs_next_file vs \<le> fst t" using table_numbers_range(1) inv by blast
      then show ?thesis using f by (metis leD)
    qed
    then show "map_of (cfiles st) f = map_of fs f" using inv by blast
  qed
  show "length (out_smallest out) < 2 ^ 32 \<and> length (out_largest out) < 2 ^ 32" if "out \<in> set (outputs st)"
  proof -
    have "out \<in> set (map (out_of ops) tabs)" using that inv by simp
    then obtain i where i: "i < length tabs" "out = out_of ops (tabs ! i)" by (metis in_set_conv_nth length_map nth_map)
    then have "out_smallest out = ikey (hd (ts ! i))" "out_largest out = ikey (last (ts ! i))"
      using tab [OF i(1)] ne [OF i(1)] by (simp_all add: out_of_def hd_map last_map)
    moreover have "entry_ok (hd (ts ! i))" "entry_ok (last (ts ! i))"
      using wf(1) [OF i(1)] ne [OF i(1)] by (simp_all add: wf_entries_def list_all_iff)
    ultimately show ?thesis by (simp add: entry_ok_def)
  qed
qed

lemma merge_store:
  assumes ok: "store_ok ops fs vs es" and fs1: "new_tables_only vs fs fs1"
    and vs1: "vs1 = vs\<lparr>vs_next_file := next\<rparr>" "vs_next_file vs \<le> next"
    and e: "edit_ok e" "merge_edit e l in0 in1 outs" and l: "Suc l < kNumLevels"
    and closed: "closed_compaction (vs_current vs) l in0 in1"
    and outs: "distinct (map number outs)" "\<And>f. f \<in> set outs \<Longrightarrow> number f < next"
      "\<And>f k. f \<in> set outs \<Longrightarrow> Suc l \<le> k \<Longrightarrow> k < kNumLevels \<Longrightarrow> number f \<notin> used_numbers es k"
      "\<And>f. f \<in> set outs \<Longrightarrow> number f \<notin> number ` ((\<Union>k \<le> l. files_at (vs_current vs) k) - set in0)"
    and fok: "\<And>f. f \<in> set outs \<Longrightarrow> file_ok (tables ops (vs_dbname vs) fs1) f"
    and sub: "file_entries (tables ops (vs_dbname vs) fs1) (set outs) \<subseteq>
      file_entries (tables ops (vs_dbname vs) fs) (set in0) \<union> file_entries (tables ops (vs_dbname vs) fs) (set in1)"
    and snd: "\<And>f. f \<in> set outs \<Longrightarrow> sound_file ops (vs_dbname vs) fs1 f"
    and apart_outs: "\<And>f g. f \<in> set outs \<Longrightarrow> g \<in> set outs \<Longrightarrow> number f \<noteq> number g \<Longrightarrow> apart f g"
    and r: "LogAndApply no_manifest_failures fs1 vs1 e = (s, vs', fs')"
  shows "Status_ok s" and "store_ok ops fs' vs' (es @ [CompleteEdit vs1 e])"
    and "layout (tables ops (vs_dbname vs) fs1) (apply_edit e (vs_current vs))"
    and "tables ops (vs_dbname vs) fs' = tables ops (vs_dbname vs) fs1"
    and "vs_current vs' = Finalize (apply_edit e (vs_current vs))" and "installed vs1 e fs1 vs' fs'"
proof -
  let ?v = "vs_current vs" and ?T = "tables ops (vs_dbname vs) fs" and ?T' = "tables ops (vs_dbname vs) fs1"
  have man: "manifest_ok fs vs es" and lay: "layout ?T ?v" and nums: "numbers_ok vs es" and seqs: "sequences_ok ?T vs"
    using ok by (simp_all add: store_ok_def)
  have used: "number f \<in> used_numbers es k" if "k < kNumLevels" "f \<in> files_at ?v k" for k f
    using files_used [OF _ that] man by (simp add: manifest_ok_def)
  have T': "?T' (number f) = ?T (number f)" if "k < kNumLevels" "f \<in> files_at ?v k" for k f
    using used [OF that] nums that(1) fs1 by (intro tables_cong) (auto simp: numbers_ok_def new_tables_only_def)
  have in01: "set in0 \<subseteq> files_at ?v l" "set in1 \<subseteq> files_at ?v (Suc l)" using closed by (simp_all add: closed_compaction_def isolated_def)
  have fresh: "number ` set outs \<inter> number ` files_at ?v (Suc l) = {}"
  proof -
    have "number f \<noteq> number g" if "f \<in> set outs" "g \<in> files_at ?v (Suc l)" for f g
      using outs(3) [OF that(1), of "Suc l"] used [OF l that(2)] l by auto
    then show ?thesis by blast
  qed
  show lay': "layout ?T' (apply_edit e ?v)"
    by (rule merge_layout [OF lay e(2) l closed outs(1) fresh T' fok sub apart_outs])
  have entries: "version_entries ?T' (apply_edit e ?v) \<subseteq> version_entries ?T ?v"
    using merged_entries [OF lay e(2) l in01 outs(1) fresh T'] version_entries_split [OF l in01, of ?T] sub by auto
  have fe: "fresh_edit es e"
    using outs(1,3) l by (auto simp: fresh_edit_def fresh_at_def merge_edit_levels [OF e(2)])
  have man1: "manifest_ok fs1 vs1 es" using manifest_ok_new_tables [OF man fs1 vs1(2) order_refl] vs1(1) by simp
  show s: "Status_ok s" using LogAndApply_open_succeeds [OF man1 e(1) fe] r by simp
  have cross: "number f \<notin> used_numbers es k \<union> number ` set (at_level k (new_files e))"
    if k: "k < kNumLevels" "k' < k" and f: "f \<in> files_at (apply_edit e ?v) k'" for k k' f
  proof -
    have k': "k' < kNumLevels" using k by simp
    note files = f [unfolded merge_edit_files(1) [OF lay e(2) l in01 outs(1) fresh k']]
    have old: "number f \<notin> used_numbers es k" if "f \<in> files_at ?v k'" using nums k that by (auto simp: numbers_ok_def)
    show ?thesis
    proof (cases "f \<in> files_at ?v k'")
      case True
      have "number f \<notin> number ` set outs" if "k = Suc l"
      proof -
        have "f \<notin> set in0"
        proof (cases "k' = l")
          case False
          then have "k' < l" "l < kNumLevels" using k that l by simp_all
          then have "number f \<notin> used_numbers es l" using nums True unfolding numbers_ok_def by blast
          then show ?thesis using used [of l f] in01(1) l by auto
        qed (use files in simp)
        moreover have "k' \<le> l" using k that by simp
        ultimately have "f \<in> (\<Union>k \<le> l. files_at ?v k) - set in0" using True by blast
        then show ?thesis using outs(4) by (metis imageE imageI)
      qed
      then show ?thesis using old [OF True] by (cases "k = Suc l") (simp_all add: merge_edit_levels [OF e(2)])
    next
      case False
      then obtain g where "g \<in> set outs" "f = refresh g" "k' = Suc l" using files by (auto split: if_splits)
      then show ?thesis using outs(3) [of g k] k by (simp add: merge_edit_levels [OF e(2)])
    qed
  qed
  have vs1': "vs1 = vs\<lparr>vs_next_file := next, vs_last_sequence := vs_last_sequence vs\<rparr>" using vs1(1) by simp
  have new: "number f < next" if "(k, f) \<in> set (new_files e)" for k f using that outs(2) e(2) by (auto simp: merge_edit_def)
  have sq: "sequence (fst x) \<le> vs_last_sequence vs" if "x \<in> version_entries ?T' (apply_edit e ?v)" for x
    using seqs that entries by (auto simp: sequences_ok_def)
  have last_ok: "vs_last_sequence vs < kMaxSequenceNumber" using seqs by (simp add: sequences_ok_def)
  have "sound ops (vs_dbname vs) fs1 (apply_edit e ?v)"
    unfolding sound_def
  proof (intro allI impI ballI)
    fix k f assume k: "k < kNumLevels" and f: "f \<in> files_at (apply_edit e ?v) k"
    have old: "sound_file ops (vs_dbname vs) fs1 g" if "g \<in> files_at ?v k" for g
    proof -
      have "map_of fs1 (TableFileName (vs_dbname vs) (number g)) = map_of fs (TableFileName (vs_dbname vs) (number g))"
        using used [OF k that] nums k fs1 by (auto simp: numbers_ok_def new_tables_only_def)
      then show ?thesis using ok k that sound_file_cong unfolding store_ok_def sound_def by blast
    qed
    show "sound_file ops (vs_dbname vs) fs1 f"
      using f old snd unfolding merge_edit_files(1) [OF lay e(2) l in01 outs(1) fresh k] by (auto split: if_splits)
  qed
  note inst = install [OF ok fs1 vs1' vs1(2) order_refl e(1) fe new cross lay' sq last_ok this r _ s]
  show "store_ok ops fs' vs' (es @ [CompleteEdit vs1 e])" "tables ops (vs_dbname vs) fs' = tables ops (vs_dbname vs) fs1"
    "vs_current vs' = Finalize (apply_edit e ?v)" "installed vs1 e fs1 vs' fs'"
    using inst by (simp_all add: no_manifest_failures_def)
qed

text \<open>Entries count the more the higher up they are; a merge makes the sum smaller.\<close>

definition weight :: "(u64 \<Rightarrow> entry list) \<Rightarrow> Version \<Rightarrow> nat" where
  "weight T v = (\<Sum>l < kNumLevels. (kNumLevels - l) * card (file_entries T (files_at v l)))"

lemma finite_file_entries [simp]: "finite F \<Longrightarrow> finite (file_entries T F)"
  by (simp add: file_entries_def)

lemma weight_Finalize [simp]: "weight T (Finalize v) = weight T v"
  by (simp add: weight_def)

lemma card_file_entries_split:
  assumes lay: "layout T v" and l: "l < kNumLevels" and F: "F \<subseteq> files_at v l"
  shows "card (file_entries T (files_at v l)) = card (file_entries T F) + card (file_entries T (files_at v l - F))"
proof -
  have "file_entries T F \<inter> file_entries T (files_at v l - F) = {}"
  proof -
    have "fst x \<noteq> fst y" if "f \<in> F" "g \<in> files_at v l - F" "x \<in> set (T (number f))" "y \<in> set (T (number g))" for f g x y
    proof -
      have "inj_on number (files_at v l)" using layoutD(3) [OF lay l] by (simp add: distinct_map)
      then have "number f \<noteq> number g" using that(1,2) F by (auto simp: inj_on_def)
      then show ?thesis using layout_disjoint [OF lay l l] that F by blast
    qed
    then show ?thesis unfolding file_entries_def by blast
  qed
  moreover have "file_entries T (files_at v l) = file_entries T F \<union> file_entries T (files_at v l - F)"
    using F file_entries_Un [of T F "files_at v l - F"] by (simp add: Un_absorb1)
  moreover have "finite F" using F finite_subset by blast
  ultimately show ?thesis by (simp add: card_Un_disjoint)
qed

lemma merge_weight:
  assumes lay: "layout T v" and e: "merge_edit e l in0 in1 outs" and l: "Suc l < kNumLevels"
    and closed: "closed_compaction v l in0 in1"
    and fresh: "distinct (map number outs)" "number ` set outs \<inter> number ` files_at v (Suc l) = {}"
    and T': "\<And>k f. k < kNumLevels \<Longrightarrow> f \<in> files_at v k \<Longrightarrow> T' (number f) = T (number f)"
    and sub: "file_entries T' (set outs) \<subseteq> file_entries T (set in0) \<union> file_entries T (set in1)"
  shows "weight T' (apply_edit e v) < weight T v"
proof -
  let ?c = "\<lambda>F. card (file_entries T F)" and ?v' = "apply_edit e v"
  have in01: "set in0 \<subseteq> files_at v l" "set in1 \<subseteq> files_at v (Suc l)" "in0 \<noteq> []"
    using closed by (simp_all add: closed_compaction_def isolated_def)
  note files = merge_edit_files(1) [OF lay e l in01(1,2) fresh]
  have l': "l < kNumLevels" using l by simp
  have ent: "file_entries T' F = file_entries T F" if "k < kNumLevels" "F \<subseteq> files_at v k" for k F
    using T' that by (intro file_entries_cong) blast
  have at_l: "card (file_entries T' (files_at ?v' l)) = ?c (files_at v l - set in0)"
    using files [OF l'] ent [OF l', of "files_at v l - set in0"] by simp
  have at_Suc: "card (file_entries T' (files_at ?v' (Suc l))) \<le> ?c (files_at v (Suc l) - set in1) + (?c (set in0) + ?c (set in1))"
  proof -
    have "file_entries T' (files_at ?v' (Suc l)) = file_entries T (files_at v (Suc l) - set in1) \<union> file_entries T' (set outs)"
      using files [OF l] ent [OF l, of "files_at v (Suc l) - set in1"] by (simp add: file_entries_Un)
    then have "card (file_entries T' (files_at ?v' (Suc l))) \<le> card (file_entries T (files_at v (Suc l) - set in1)) + card (file_entries T' (set outs))"
      by (simp add: card_Un_le)
    moreover have "card (file_entries T' (set outs)) \<le> ?c (set in0) + ?c (set in1)"
      by (rule order_trans [OF card_mono [OF _ sub] card_Un_le]) simp
    ultimately show ?thesis by linarith
  qed
  have other: "card (file_entries T' (files_at ?v' k)) = ?c (files_at v k)" if "k < kNumLevels" "k \<noteq> l" "k \<noteq> Suc l" for k
    using files [OF that(1)] ent [OF that(1), of "files_at v k"] that(2,3) by simp
  have pos: "0 < ?c (set in0)"
  proof -
    obtain f where f: "f \<in> set in0" using in01(3) by (meson hd_in_set)
    then have "file_ok T f" using in01(1) layoutD(4) [OF lay l'] by blast
    then have "T (number f) \<noteq> []" by (simp add: file_ok_def)
    then have "file_entries T (set in0) \<noteq> {}" using f by (auto simp: file_entries_def)
    then show ?thesis by (simp add: card_gt_0_iff)
  qed
  note split = card_file_entries_split [OF lay l' in01(1)] card_file_entries_split [OF lay l in01(2)]
  let ?w = "\<lambda>g. \<Sum>k < kNumLevels. (kNumLevels - k) * g k"
  have sum: "?w g = (\<Sum>k \<in> {..<kNumLevels} - {l, Suc l}. (kNumLevels - k) * g k) + (kNumLevels - l) * g l + (kNumLevels - Suc l) * g (Suc l)" for g
  proof -
    have "?w g = (\<Sum>k \<in> {..<kNumLevels} - {l, Suc l}. (kNumLevels - k) * g k) + (\<Sum>k \<in> {l, Suc l}. (kNumLevels - k) * g k)"
      using l by (intro sum.subset_diff) auto
    then show ?thesis by simp
  qed
  have rest: "(\<Sum>k \<in> {..<kNumLevels} - {l, Suc l}. (kNumLevels - k) * card (file_entries T' (files_at ?v' k))) =
      (\<Sum>k \<in> {..<kNumLevels} - {l, Suc l}. (kNumLevels - k) * ?c (files_at v k))"
    using other by (intro sum.cong) auto
  obtain d where d: "kNumLevels - l = Suc d" "kNumLevels - Suc l = d" using l' by (metis Suc_diff_Suc)
  have "d * card (file_entries T' (files_at ?v' (Suc l))) \<le> d * (?c (files_at v (Suc l) - set in1) + (?c (set in0) + ?c (set in1)))"
    using at_Suc by (rule mult_le_mono2)
  then show ?thesis
    unfolding weight_def sum rest d at_l split using pos by (simp add: algebra_simps)
qed

text \<open>A compaction without failures keeps the invariant and the contents.\<close>

lemma compaction_store:
  assumes law: "table_law ops" and ok: "store_ok ops fs vs es" and c: "compaction_of vs c vs1" "Suc (clevel c) < kNumLevels"
    and input: "input = merge_runs (MakeInputIterator (tables ops (vs_dbname vs) fs) c)" "entries_size input < 2 ^ 31"
    and room: "unat (vs_next_file vs) + length input < 2 ^ 64"
    and r: "DoCompactionWork ops no_output_failures no_manifest_failures (map raw_entry input) Status_OK None [] fs vs1 c = (s, st)"
  obtains es' where "Status_ok s" "store_ok ops (cfiles st) (cversions st) es'"
    "preserves (vs_last_sequence vs) (store_runs ops fs vs) (store_runs ops (cfiles st) (cversions st))"
    "vs_dbname (cversions st) = vs_dbname vs" "vs_last_sequence (cversions st) = vs_last_sequence vs"
    "vs_log_number (cversions st) = vs_log_number vs" "\<exists>e. vs_current (cversions st) = Finalize (apply_edit e (vs_current vs))"
    "\<And>f. f \<noteq> DescriptorFileName (vs_dbname vs) (vs_manifest vs) \<Longrightarrow> \<forall>n. f \<noteq> TableFileName (vs_dbname vs) n \<Longrightarrow> map_of (cfiles st) f = map_of fs f"
    "vs_prev_log (cversions st) = vs_prev_log vs"
    "vs_next_file vs \<le> vs_next_file (cversions st)" "unat (vs_next_file (cversions st)) \<le> unat (vs_next_file vs) + length input"
    "\<Union> (set ` set (store_runs ops (cfiles st) (cversions st))) \<subseteq> \<Union> (set ` set (store_runs ops fs vs))"
    "weight (tables ops (vs_dbname vs) (cfiles st)) (vs_current (cversions st)) < weight (tables ops (vs_dbname vs) fs) (vs_current vs)"
proof -
  let ?db = "vs_dbname vs" and ?v = "vs_current vs" and ?l = "clevel c"
  let ?T = "tables ops ?db fs"
  have man: "manifest_ok fs vs es" and lay: "layout ?T ?v" and nums: "numbers_ok vs es" and seqs: "sequences_ok ?T vs"
    using ok by (simp_all add: store_ok_def)
  obtain large where large: "input_version c = ?v" "closed_compaction ?v ?l (inputs0 c) (inputs1 c)" "large \<in> largest ` set (inputs0 c)"
    "cedit c = SetCompactPointer ?l large VersionEdit_new" "level_ptrs c = replicate kNumLevels 0"
    "vs1 = vs\<lparr>vs_compact_pointer := (vs_compact_pointer vs)[?l := large]\<rparr>" using c(1) by (auto simp: compaction_of_def)
  have in01: "set (inputs0 c) \<subseteq> files_at ?v ?l" "set (inputs1 c) \<subseteq> files_at ?v (Suc ?l)"
    using large(2) by (simp_all add: closed_compaction_def isolated_def)
  note inp = compaction_input [OF lay c(2) large(2), folded input(1)]
  let ?kept = "keep (vs_last_sequence vs) (base_level ?v ?l) None input"
  obtain st0 tabs uk where st0: "DoCompactionWork ops no_output_failures no_manifest_failures (map raw_entry input) Status_OK None [] fs vs1 c =
      InstallCompactionResults no_manifest_failures st0" "work_inv ops fs vs1 st0 tabs" "builder st0 = None"
      "work_on c (vs_last_sequence vs) uk st0" "concat (map snd tabs) = map raw_entry ?kept"
    using DoCompactionWork_tables [OF inp(1), of ?T c vs1 ops no_manifest_failures fs] lay large room seqs
    by (auto simp: sequences_ok_def)
  have seq: "sequence (fst x) \<le> vs_last_sequence vs" if "x \<in> set input" for x
    using seqs that inp(2) version_entries_split [OF c(2) in01, of ?T] by (simp add: sequences_ok_def)
  have wf: "wf_entries ?kept" "entries_size ?kept < 2 ^ 31"
    using inp(1) sorted_keep [of input] set_keep [of "vs_last_sequence vs" "base_level ?v ?l" None input] input(2)
      entries_size_keep [of "vs_last_sequence vs" "base_level ?v ?l" None input]
    by (auto simp: wf_entries_def list_all_iff)
  have keys: "sorted_wrt (\<lambda>x y. user_key (fst x) < user_key (fst y)) ?kept"
    using kept_keys seq inp(1) by (simp add: wf_entries_def)
  note outs = compaction_outputs [OF st0(2,3) law st0(5) wf keys]
  define e where "e = results_edit (compaction st0) (outputs st0)"
  define next' where "next' = vs_next_file vs + word_of_nat (length tabs)"
  have comp: "clevel (compaction st0) = ?l" "inputs0 (compaction st0) = inputs0 c" "inputs1 (compaction st0) = inputs1 c"
      "cedit (compaction st0) = SetCompactPointer (clevel (compaction st0)) large VersionEdit_new"
    using st0(4) large(4) by (simp_all add: work_on_def)
  have vs0: "cversions st0 = vs1\<lparr>vs_next_file := next'\<rparr>" "unat (vs_next_file vs) + length tabs < 2 ^ 64"
    using st0(2) large(6) by (simp_all add: work_inv_def next'_def)
  note edit = results_edit_fields [OF comp(4), of "outputs st0", folded e_def, unfolded comp]
  have "LogAndApply no_manifest_failures (cfiles st0) (cversions st0) e =
      LogAndApply no_manifest_failures (cfiles st0) (vs\<lparr>vs_next_file := next'\<rparr>) e"
  proof -
    have "cversions st0 = vs\<lparr>vs_next_file := next', vs_compact_pointer := (vs_compact_pointer vs)[?l := large]\<rparr>"
      using vs0(1) large(6) by (cases vs) simp
    then show ?thesis
      using LogAndApply_pointers [where env = no_manifest_failures and fs = "cfiles st0" and e = e and
          vs = "vs\<lparr>vs_next_file := next'\<rparr>"] edit(4) by simp
  qed
  moreover obtain s' vs' fs' where log': "LogAndApply no_manifest_failures (cfiles st0) (vs\<lparr>vs_next_file := next'\<rparr>) e = (s', vs', fs')"
    by (metis prod_cases3)
  ultimately have res: "s = s'" "cversions st = vs'" "cfiles st = fs'"
    using r st0(1) by (auto simp: InstallCompactionResults_def Let_def e_def results_edit_def)
  have "length large < 2 ^ 32"
  proof -
    obtain f where f: "f \<in> files_at ?v ?l" "large = largest f" using large(3) in01(1) by auto
    then have "file_ok ?T f" using layoutD(4) [OF lay Suc_lessD [OF c(2)] f(1)] by simp
    then have "large = ikey (last (?T (number f)))" "entry_ok (last (?T (number f)))"
      using f(2) file_ok_last(1) [OF \<open>file_ok ?T f\<close>] by (auto simp: file_ok_def wf_entries_def list_all_iff)
    then show ?thesis by (simp add: entry_ok_def)
  qed
  then have eok: "edit_ok e" unfolding e_def using comp c(2) outs(7) by (intro results_edit_ok [OF comp(4)]) simp_all
  have n1: "vs_next_file vs1 = vs_next_file vs" "vs_dbname vs1 = ?db" using large(6) by simp_all
  have range: "vs_next_file vs \<le> number f \<and> number f < next'" if "f \<in> set (map out_file (outputs st0))" for f
  proof -
    have "number f \<in> set (table_numbers vs1 (length tabs))" using that outs(1) by (metis imageI list.set_map)
    then show ?thesis using table_numbers_range [of vs1 "length tabs" "number f"] vs0(2) n1 by (simp add: next'_def)
  qed
  have nxt: "vs_next_file vs \<le> next'" 
    using vs0(2) by (simp add: next'_def word_le_nat_alt unat_word_ariths unat_of_nat)
  have dist: "distinct (map number (map out_file (outputs st0)))"
    unfolding outs(1) using distinct_table_numbers [of vs1 "length tabs"] vs0(2) n1 by simp
  have fresh: "number f \<notin> used_numbers es k" if "f \<in> set (map out_file (outputs st0))" "k < kNumLevels" for f k
    using range [OF that(1)] nums that(2) unfolding numbers_ok_def by (meson leD)
  have used: "number f \<in> used_numbers es k" if "k < kNumLevels" "f \<in> files_at ?v k" for k f
    using files_used [OF _ that] man by (simp add: manifest_ok_def)
  have new: "new_tables_only vs fs (cfiles st0)" using outs(6) n1 by (simp add: new_tables_only_def)
  have sub: "set ?kept \<subseteq> file_entries ?T (set (inputs0 c)) \<union> file_entries ?T (set (inputs1 c))" using set_keep inp(2) by blast
  have old: "number f \<notin> number ` ((\<Union>k \<le> ?l. files_at ?v k) - set (inputs0 c))" if "f \<in> set (map out_file (outputs st0))" for f
  proof -
    have "number f \<noteq> number g" if "k \<le> ?l" "g \<in> files_at ?v k" for k g
      using fresh [OF \<open>f \<in> _\<close>, of k] used [OF _ that(2)] that(1) c(2) by auto
    then show ?thesis by blast
  qed
  have merge: "Status_ok s'" "store_ok ops fs' vs' (es @ [CompleteEdit (vs\<lparr>vs_next_file := next'\<rparr>) e])"
    "layout (tables ops ?db (cfiles st0)) (apply_edit e ?v)" "tables ops ?db fs' = tables ops ?db (cfiles st0)"
    "vs_current vs' = Finalize (apply_edit e ?v)" "installed (vs\<lparr>vs_next_file := next'\<rparr>) e (cfiles st0) vs' fs'"
    by (rule merge_store [OF ok new refl nxt eok edit(1) c(2) large(2) dist conjunct2 [OF range] fresh old outs(2) [unfolded n1]
        ord_eq_le_trans [OF outs(4) [unfolded n1] sub] outs(3) [unfolded n1] outs(5) log']; assumption)+
  have db: "vs_dbname vs' = ?db" "vs_last_sequence vs' = vs_last_sequence vs" using merge(6) by (simp_all add: installed_def)
  have T': "tables ops ?db (cfiles st0) (number f) = ?T (number f)" if "k < kNumLevels" "f \<in> files_at ?v k" for k f
    using used [OF that] nums that(1) new by (intro tables_cong) (auto simp: numbers_ok_def new_tables_only_def)
  have fresh1: "number ` set (map out_file (outputs st0)) \<inter> number ` files_at ?v (Suc ?l) = {}"
  proof -
    have "number f \<noteq> number g" if "f \<in> set (map out_file (outputs st0))" "g \<in> files_at ?v (Suc ?l)" for f g
      using fresh [OF that(1) c(2)] used [OF c(2) that(2)] by auto
    then show ?thesis by blast
  qed
  have "preserves (vs_last_sequence vs) (store_runs ops fs vs) (store_runs ops fs' vs')"
  proof -
    have "preserves (vs_last_sequence vs) (version_runs ?T ?v) (version_runs (tables ops ?db (cfiles st0)) (apply_edit e ?v))"
      by (rule merge_contents [OF lay edit(1) c(2) large(2) dist fresh1 _ merge(3) inp outs(4) [unfolded n1]]) (erule (1) T')
    then show ?thesis by (simp add: store_runs_def db merge(4,5) version_runs_def)
  qed
  moreover have "vs_log_number vs' = vs_log_number vs" "vs_next_file vs' = next'" "vs_prev_log vs' = vs_prev_log vs"
    "\<And>f. f \<noteq> DescriptorFileName ?db (vs_manifest vs) \<Longrightarrow> \<forall>n. f \<noteq> TableFileName ?db n \<Longrightarrow> map_of fs' f = map_of fs f"
  proof -
    have "\<not> has_log_number e" "\<not> has_prev_log_number e" unfolding e_def by (subst results_edit_fields(2) [OF comp(4)], simp add: VersionEdit_new_def)+
    then show "vs_log_number vs' = vs_log_number vs" "vs_next_file vs' = next'" "vs_prev_log vs' = vs_prev_log vs"
      using merge(6) by (simp_all add: installed_def CompleteEdit_def SetLogNumber_def SetPrevLogNumber_def Let_def SetLastSequence_def SetNextFile_def)
    show "map_of fs' f = map_of fs f" if "f \<noteq> DescriptorFileName ?db (vs_manifest vs)" "\<forall>n. f \<noteq> TableFileName ?db n" for f
      using merge(6) new that by (simp add: installed_def new_tables_only_def)
  qed
  moreover have "unat next' \<le> unat (vs_next_file vs) + length input"
  proof -
    have "length tabs \<le> length (concat (map snd tabs))"
      by (rule length_concat_nonempty) (use st0(2,3) in \<open>auto simp: work_inv_def\<close>)
    also have "\<dots> \<le> length input" unfolding st0(5) using length_keep [of "vs_last_sequence vs" "base_level ?v ?l" None input] by simp
    finally show ?thesis using vs0(2) by (simp add: next'_def unat_word_ariths unat_of_nat)
  qed
  moreover have "\<Union> (set ` set (store_runs ops fs' vs')) \<subseteq> \<Union> (set ` set (store_runs ops fs vs))"
  proof -
    have "version_entries (tables ops ?db (cfiles st0)) (apply_edit e ?v) =
        other_entries ?T ?v ?l (inputs0 c) (inputs1 c) \<union> file_entries (tables ops ?db (cfiles st0)) (set (map out_file (outputs st0)))"
      by (rule merged_entries [OF lay edit(1) c(2) in01 dist fresh1]) (erule (1) T')
    then have "version_entries (tables ops ?db (cfiles st0)) (apply_edit e ?v) \<subseteq> version_entries ?T ?v"
      using version_entries_split [OF c(2) in01, of ?T] ord_eq_le_trans [OF outs(4) [unfolded n1] sub] by auto
    then show ?thesis
      using set_version_runs [of "Finalize (apply_edit e ?v)" "tables ops ?db (cfiles st0)"] set_version_runs [OF layoutD(1) [OF lay], of ?T]
      by (simp add: store_runs_def db merge(4,5))
  qed
  moreover have "weight (tables ops ?db fs') (vs_current vs') < weight ?T ?v"
    unfolding merge(4,5) weight_Finalize
    by (rule merge_weight [OF lay edit(1) c(2) large(2) dist fresh1 _ ord_eq_le_trans [OF outs(4) [unfolded n1] sub]]) (erule (1) T')
  ultimately show ?thesis using that [of "es @ [CompleteEdit (vs\<lparr>vs_next_file := next'\<rparr>) e]"] merge(1,2,5) res db nxt by blast
qed

end
