(* ===== verification/Table_Cache.thy ===== *)
theory Table_Cache
  imports Table_Reads Stores
begin

text \<open>
  The tables of a database: \<^verbatim>\<open>db/table_cache.cc\<close> over the table code, and the interface \<open>table_ops\<close> of the
  database filled with the table builder and the table iterator. An entry of the cache may be dropped at
  any time; the model takes every lookup of the cache as a miss. The file is mapped into memory or
  not (\<^verbatim>\<open>MmapLimiter\<close>), as \<open>mapped\<close> says.
\<close>

section \<open>Opening a table\<close>

definition NewRandomAccessFile :: "read_env \<Rightarrow> (bytes \<Rightarrow> bool) \<Rightarrow> file_system \<Rightarrow> bytes \<Rightarrow> Status + RandomAccessFile" where
  "NewRandomAccessFile env mapped fs fname =
     (case map_of fs fname of
        None \<Rightarrow> Inl (Status_IOError fname (cstr ''No such file or directory''))
      | Some data \<Rightarrow>
          if Status_ok (open_status env fname)
          then Inr (if mapped fname then PosixMmapReadableFile fname data else PosixRandomAccessFile data)
          else Inl (open_status env fname))"

definition FindTable ::
    "TableOptions \<Rightarrow> read_env \<Rightarrow> (bytes \<Rightarrow> bool) \<Rightarrow> file_system \<Rightarrow> bytes \<Rightarrow> u64 \<Rightarrow> u64 \<Rightarrow> (Status + Table) option" where
  "FindTable opts env mapped fs dbname file_number fsize =
     (let fname = TableFileName dbname file_number;
          old_fname = SSTTableFileName dbname file_number
      in (case NewRandomAccessFile env mapped fs fname of
            Inr file \<Rightarrow> Table_Open opts file fsize
          | Inl s \<Rightarrow>
              (case NewRandomAccessFile env mapped fs old_fname of
                 Inr file \<Rightarrow> Table_Open opts file fsize
               | Inl _ \<Rightarrow> Some (Inl s))))"

text \<open>An iterator, or the status of the error iterator.\<close>

definition TableCache_NewIterator ::
    "TableOptions \<Rightarrow> read_env \<Rightarrow> (bytes \<Rightarrow> bool) \<Rightarrow> file_system \<Rightarrow> bytes \<Rightarrow> u64 \<Rightarrow> u64 \<Rightarrow> (Status + TableIterator) option" where
  "TableCache_NewIterator opts env mapped fs dbname file_number fsize =
     map_option (map_sum id Table_NewIterator) (FindTable opts env mapped fs dbname file_number fsize)"

definition TableCache_Get ::
    "TableOptions \<Rightarrow> read_env \<Rightarrow> (bytes \<Rightarrow> bool) \<Rightarrow> file_system \<Rightarrow> bytes \<Rightarrow> u64 \<Rightarrow> u64 \<Rightarrow> bytes \<Rightarrow> (Status \<times> kv option) option" where
  "TableCache_Get opts env mapped fs dbname file_number fsize k =
     Option.bind (FindTable opts env mapped fs dbname file_number fsize) (\<lambda>r.
       case r of Inl s \<Rightarrow> Some (s, None) | Inr t \<Rightarrow> InternalGet t k)"

section \<open>The interface\<close>

definition parse_kv :: "kv \<Rightarrow> entry" where
  "parse_kv kv = (the (ParseInternalKey (fst kv)), snd kv)"

definition Table_kvs :: "TableOptions \<Rightarrow> bytes \<Rightarrow> kv list option" where
  "Table_kvs opts data =
     (case Table_Open opts (PosixRandomAccessFile data) (word_of_nat (length data)) of
        Some (Inr t) \<Rightarrow> Option.bind (op_SeekToFirst (table_iter_ops t) (Table_NewIterator t)) (op_rest (table_iter_ops t))
      | _ \<Rightarrow> None)"

definition leveldb_tables :: "TableOptions \<Rightarrow> table_ops" where
  "leveldb_tables opts =
     \<lparr>tb_FileSize = \<lambda>kvs. TableBuilder_FileSize
        (fold (\<lambda>(k, v). TableBuilder_Add k v) kvs (TableBuilder_new opts \<lparr>contents = [], outcomes = []\<rparr>)),
      tb_Finish = table_bytes opts,
      tb_Entries = \<lambda>data. (case Table_kvs opts data of None \<Rightarrow> [] | Some kvs \<Rightarrow> map parse_kv kvs)\<rparr>"

definition leveldb_get :: "TableOptions \<Rightarrow> read_env \<Rightarrow> (bytes \<Rightarrow> bool) \<Rightarrow> file_system \<Rightarrow> bytes \<Rightarrow> table_get" where
  "leveldb_get opts env mapped fs dbname n fsize k = the (TableCache_Get opts env mapped fs dbname n fsize k)"

section \<open>Entries and keys\<close>

lemma raw_keys_ok:
  assumes "wf_entries es" shows "keys_ok (leveldb_options n c u) valid_ikey (map raw_entry es)"
proof -
  have "sorted_wrt (\<lambda>x y. bytewise_ikc (ikey x) (ikey y) < 0) es"
    by (rule sorted_wrt_mono_rel [of _ entry_less])
      (use assms in \<open>auto simp: wf_entries_def list_all_iff entry_ok_def entry_less_def bytewise_ikc_less\<close>)
  then show ?thesis
    by (auto simp: keys_ok_def leveldb_options_def sorted_wrt_map valid_ikey_def AppendInternalKey_eq)
qed

lemma kvs_size_raw: "kvs_size (map raw_entry es) = entries_size es"
  by (simp add: kvs_size_def entries_size_def comp_def)

lemma parse_raw: "list_all entry_ok es \<Longrightarrow> map parse_kv (map raw_entry es) = es"
  by (induction es) (auto simp: parse_kv_def entry_ok_def ParseInternalKey_AppendInternalKey)

text \<open>A separator of two internal keys is the first one, or has a smaller user key than the second one.\<close>

lemma isep_user_key:
  assumes "bytewise_ikc a b < 0" "bytewise_isep a b \<noteq> a"
  shows "ExtractUserKey (bytewise_isep a b) < ExtractUserKey b"
proof -
  let ?a = "ExtractUserKey a" and ?b = "ExtractUserKey b"
  let ?t = "Bytewise_FindShortestSeparator ?a ?b"
  have t: "Bytewise_Compare ?a ?t < 0" "bytewise_isep a b = PutFixed64 ?t (PackSequenceAndType kMaxSequenceNumber kValueTypeForSeek)"
    using assms(2) by (auto simp: InternalKeyComparator_FindShortestSeparator_def Let_def split: if_splits)
  have "?a \<noteq> ?b" using t(1) bytewise_user.sep_self [of ?a] bytewise.cmp_refl [of ?a] by auto
  then have "Bytewise_Compare ?a ?b < 0" using assms(1) by (auto simp: InternalKeyComparator_Compare_less bytewise.cmp_eq)
  then have "Bytewise_Compare ?t ?b < 0" by (rule bytewise.sep_less [OF TrueI TrueI])
  then show ?thesis using t(2) by (simp add: PutFixed64_def Bytewise_Compare_def Slice_compare_order)
qed

lemma newest_after_gap:
  assumes ord: "wf_entries es" "valid_seq S" and kvs: "map raw_entry es = concat bs" and k: "k = AppendInternalKey [] (seek_key uk S)"
    and ix: "index_keys (leveldb_options n c u) bs hs ix" "\<forall>j < length bs. bs ! j \<noteq> []" and j: "j < length bs"
    and at: "\<not> bytewise_ikc (fst (ix ! j)) k < 0" "\<And>i. i < j \<Longrightarrow> bytewise_ikc (fst (ix ! i)) k < 0"
    and all: "\<forall>x \<in> set (bs ! j). bytewise_ikc (fst x) k < 0"
  shows "newest es S uk = None"
proof -
  let ?opts = "leveldb_options n c u"
  note ks = raw_keys_ok [OF ord(1), of n c u, unfolded kvs]
  have cmp: "to_cmp ?opts = bytewise_ikc" by (simp add: leveldb_options_def)
  have "\<not> (user_key (fst e) = uk \<and> sequence (fst e) \<le> S)" if e: "e \<in> set es" for e
  proof
    assume hit: "user_key (fst e) = uk \<and> sequence (fst e) \<le> S"
    have eok: "valid_seq (sequence (fst e))" using ord(1) e by (auto simp: wf_entries_def list_all_iff entry_ok_def)
    have not_less: "\<not> bytewise_ikc (ikey e) k < 0" using hit eok ord(2) unfolding k by (simp add: bytewise_ikc_less before_seek_key not_less)
    have "raw_entry e \<in> set (concat bs)" using e unfolding kvs [symmetric] by simp
    then obtain i where i: "i < length bs" "raw_entry e \<in> set (bs ! i)" unfolding set_concat UN_iff by (metis in_set_conv_nth)
    consider "i < j" | "i = j" | "j < i" by linarith
    then show False
    proof cases
      case 1
      have "bytewise_ikc (ikey e) (fst (ix ! i)) \<le> 0"
        using index_between(2) [OF leveldb_key_order ks ix i(1) i(2)] cmp by simp
      then show False using key_orderD(3) [OF leveldb_key_order [of n c u]] at(2) [OF 1] not_less cmp
          index_between(1) [OF leveldb_key_order ks ix i(1)] by (simp add: valid_ikey_def AppendInternalKey_eq)
    next
      case 2
      then show False using all i(2) not_less by force
    next
      case 3
      then have j': "Suc j < length bs" using i(1) by simp
      let ?a = "fst (last (bs ! j))" and ?b = "fst (hd (bs ! Suc j))"
      have sep: "fst (ix ! j) = bytewise_isep ?a ?b" using ix(1) j j' by (simp add: index_keys_def leveldb_options_def)
      have mem: "last (bs ! j) \<in> set (bs ! j)" "hd (bs ! Suc j) \<in> set (bs ! Suc j)" using ix(2) j j' by simp_all
      have "bytewise_ikc ?a ?b < 0" using keys_ok_blocks(2) [OF ks lessI j' mem] cmp by simp
      moreover have "bytewise_isep ?a ?b \<noteq> ?a" using all mem(1) at(1) sep by auto
      ultimately have u: "ExtractUserKey (fst (ix ! j)) < ExtractUserKey ?b" using isep_user_key sep by simp
      have le: "ExtractUserKey x \<le> ExtractUserKey y" if "bytewise_ikc x y \<le> 0" for x y
        using that by (auto simp: InternalKeyComparator_Compare_def Let_def Bytewise_Compare_def Slice_compare_order not_less split: if_splits)
      have "ExtractUserKey ?b \<le> uk"
      proof (cases "i = Suc j")
        case True
        then show ?thesis
          using le [of ?b "ikey e"] keys_ok_last(2) [OF leveldb_key_order keys_ok_blocks(1) [OF ks i(1)] i(2)] hit cmp
          by (simp add: AppendInternalKey_eq)
      next
        case False
        then have "bytewise_ikc ?b (ikey e) < 0" using keys_ok_blocks(2) [OF ks _ i(1) mem(2) i(2)] 3 cmp by simp
        then show ?thesis using le [of ?b "ikey e"] hit by (auto simp: AppendInternalKey_eq)
      qed
      moreover have "uk \<le> ExtractUserKey (fst (ix ! j))"
        using at(1) by (auto simp: k AppendInternalKey_eq InternalKeyComparator_Compare_less Bytewise_Compare_def Slice_compare_order not_less)
      ultimately show False using u by simp
    qed
  qed
  then show ?thesis by (auto simp: newest_def find_None_iff)
qed

section \<open>What the table code promises\<close>

definition snappy_inverse :: "(bytes \<Rightarrow> bytes option) \<Rightarrow> (bytes \<Rightarrow> bytes option) \<Rightarrow> bool" where
  "snappy_inverse compress uncompress \<longleftrightarrow> (\<forall>x y. compress x = Some y \<longrightarrow> uncompress y = Some x)"

lemma snappy_options: "snappy_inverse c u \<Longrightarrow> options_ok (leveldb_options n c u)"
  by (rule leveldb_options_ok) (simp add: snappy_inverse_def)

lemma leveldb_no_filter: "to_filter (leveldb_options n c u) = None"
  by (simp add: leveldb_options_def)

lemma Table_Open_no_filter: "Table_Open opts rf n = Some (Inr tbl) \<Longrightarrow> to_filter opts = None \<Longrightarrow> tab_filter tbl = None"
  by (auto simp: Table_Open_def ReadMeta_def split: if_splits sum.splits option.splits)

lemma find_seek_pos: "find (\<lambda>x. \<not> lt (fst x)) kvs = (if seek_pos lt kvs < length kvs then Some (kvs ! seek_pos lt kvs) else None)"
  by (induction kvs) (auto simp: seek_pos_def)

lemma table_seek_raw:
  assumes "wf_entries es" "valid_seq S" and k: "k = AppendInternalKey [] (seek_key uk S)"
  shows "map_option raw_entry (table_seek es S uk) = find (\<lambda>x. \<not> bytewise_ikc (fst x) k < 0) (map raw_entry es)"
proof -
  have "bytewise_ikc (ikey e) k < 0 \<longleftrightarrow> ikey_less (fst e) (seek_key uk S)" if "e \<in> set es" for e
    using assms that by (simp add: bytewise_ikc_less wf_entries_def list_all_iff entry_ok_def)
  then show ?thesis unfolding table_seek_def by (induction es) auto
qed

lemma leveldb_opens:
  assumes su: "snappy_inverse c u" and es: "wf_entries es" "es \<noteq> []" "entries_size es < 2 ^ 31"
    and rf: "file_bytes rf = table_bytes (leveldb_options n c u) (map raw_entry es)"
  obtains tbl bs hs ix where
    "Table_Open (leveldb_options n c u) rf (TableBuilder_FileSize (Table_build (leveldb_options n c u) (map raw_entry es))) = Some (Inr tbl)"
    "open_table (leveldb_options n c u) tbl bs hs ix" "concat bs = map raw_entry es"
    "TableBuilder_FileSize (Table_build (leveldb_options n c u) (map raw_entry es)) =
      word_of_nat (length (table_bytes (leveldb_options n c u) (map raw_entry es)))"
proof -
  have kvs: "map raw_entry es \<noteq> []" "kvs_size (map raw_entry es) < 2 ^ 31" using es(2,3) kvs_size_raw by simp_all
  show ?thesis
    by (rule table_opens [OF snappy_options [OF su] leveldb_key_order raw_keys_ok [OF es(1)] kvs disjI1 [OF leveldb_no_filter] rf])
      (rule that; assumption)
qed

lemma InternalGet_entries:
  assumes su: "snappy_inverse c u" and es: "wf_entries es" "es \<noteq> []" "entries_size es < 2 ^ 31" and S: "valid_seq S"
    and rf: "file_bytes rf = table_bytes (leveldb_options n c u) (map raw_entry es)"
  obtains tbl where "Table_Open (leveldb_options n c u) rf (word_of_nat (length (file_bytes rf))) = Some (Inr tbl)"
    "InternalGet tbl (AppendInternalKey [] (seek_key uk S)) = Some (Status_OK, map_option raw_entry (table_seek es S uk)) \<or>
     InternalGet tbl (AppendInternalKey [] (seek_key uk S)) = Some (Status_OK, None) \<and> newest es S uk = None"
proof -
  let ?opts = "leveldb_options n c u" and ?kvs = "map raw_entry es" and ?k = "AppendInternalKey [] (seek_key uk S)"
  let ?lt = "before bytewise_ikc ?k"
  have cmp: "to_cmp ?opts = bytewise_ikc" by (simp add: leveldb_options_def)
  note ks = raw_keys_ok [OF es(1), of n c u]
  obtain tbl bs hs ix where t: "Table_Open ?opts rf (TableBuilder_FileSize (Table_build ?opts ?kvs)) = Some (Inr tbl)"
    "open_table ?opts tbl bs hs ix" "concat bs = ?kvs" "TableBuilder_FileSize (Table_build ?opts ?kvs) = word_of_nat (length (table_bytes ?opts ?kvs))"
    by (rule leveldb_opens [OF su es rf])
  have seek: "map_option raw_entry (table_seek es S uk) =
      (if seek_pos ?lt ?kvs < length ?kvs then Some (?kvs ! seek_pos ?lt ?kvs) else None)"
    using table_seek_raw [OF es(1) S refl, of uk] find_seek_pos [of ?lt ?kvs] by (simp add: before_def)
  have ks': "keys_ok ?opts valid_ikey (concat bs)" using ks t(3) by simp
  have "InternalGet tbl ?k = Some (Status_OK, map_option raw_entry (table_seek es S uk)) \<or>
     InternalGet tbl ?k = Some (Status_OK, None) \<and> newest es S uk = None"
  proof (rule InternalGet_ok [OF t(2) leveldb_key_order ks', of ?k, unfolded cmp])
    fix j
    assume f: "InternalGet tbl ?k = Some (Status_OK, Some (bs ! j ! seek_pos ?lt (bs ! j)))" "j < length bs"
      "seek_pos ?lt (bs ! j) < length (bs ! j)" "seek_pos ?lt (concat bs) = length (concat (take j bs)) + seek_pos ?lt (bs ! j)"
    have split: "concat bs = concat (take j bs) @ bs ! j @ concat (drop (Suc j) bs)"
      using f(2) by (metis concat.simps(2) concat_append id_take_nth_drop)
    have "?kvs ! seek_pos ?lt ?kvs = bs ! j ! seek_pos ?lt (bs ! j)"
      unfolding t(3) [symmetric] f(4) using f(3) by (simp add: split nth_append)
    moreover have "seek_pos ?lt ?kvs < length ?kvs"
      unfolding t(3) [symmetric] f(4) using f(3) by (subst split) simp
    ultimately show ?thesis using f(1) unfolding seek by presburger
  next
    assume none: "InternalGet tbl ?k = Some (Status_OK, None)" "\<And>x. x \<in> set (concat bs) \<Longrightarrow> bytewise_ikc (fst x) ?k < 0"
    have "find (\<lambda>x. \<not> bytewise_ikc (fst x) ?k < 0) ?kvs = None" using none(2) unfolding t(3) find_None_iff by blast
    then show ?thesis using none(1) table_seek_raw [OF es(1) S refl, of uk] by simp
  next
    fix j
    assume g: "InternalGet tbl ?k = Some (Status_OK, None)" "j < length bs" "\<not> bytewise_ikc (fst (ix ! j)) ?k < 0"
      "\<And>i. i < j \<Longrightarrow> bytewise_ikc (fst (ix ! i)) ?k < 0"
      "(\<forall>x \<in> set (bs ! j). bytewise_ikc (fst x) ?k < 0) \<or> (\<exists>filt. tab_filter tbl = Some filt \<and> filter_covers ?opts filt bs hs \<and>
         \<not> FilterBlock_KeyMayMatch (policy_of ?opts) filt (bh_offset (hs ! j)) ?k)"
    have nofilt: "tab_filter tbl = None" using Table_Open_no_filter [OF t(1) leveldb_no_filter] .
    have "index_keys ?opts bs hs ix" "\<forall>j < length bs. bs ! j \<noteq> []" using t(2) by (simp_all add: open_table_def)
    from newest_after_gap [OF es(1) S t(3) [symmetric] refl this g(2-4)] show ?thesis using g(1,5) nofilt by simp
  qed
  then show ?thesis using that [of tbl] t(1,4) rf by simp
qed

lemma Table_kvs_entries:
  assumes "snappy_inverse c u" "wf_entries es" "es \<noteq> []" "entries_size es < 2 ^ 31"
  shows "Table_kvs (leveldb_options n c u) (table_bytes (leveldb_options n c u) (map raw_entry es)) = Some (map raw_entry es)"
proof -
  let ?opts = "leveldb_options n c u" and ?kvs = "map raw_entry es"
  let ?rf = "PosixRandomAccessFile (table_bytes ?opts ?kvs)"
  have rf: "file_bytes ?rf = table_bytes ?opts ?kvs" by simp
  note ks = raw_keys_ok [OF assms(2), of n c u]
  obtain tbl bs hs ix where t: "Table_Open ?opts ?rf (TableBuilder_FileSize (Table_build ?opts ?kvs)) = Some (Inr tbl)"
    "open_table ?opts tbl bs hs ix" "concat bs = ?kvs" "TableBuilder_FileSize (Table_build ?opts ?kvs) = word_of_nat (length (table_bytes ?opts ?kvs))"
    by (rule leveldb_opens [OF assms rf])
  have ks': "keys_ok ?opts valid_ikey (concat bs)" using ks t(3) by simp
  have "table_iter_ops tbl = TwoLevel_ops (block_ops (to_cmp ?opts)) (block_ops (to_cmp ?opts)) (BlockReader tbl)"
    using t(2) by (simp add: table_iter_ops_def open_table_def Let_def)
  then show ?thesis
    using table.loops(1) [OF table_iterator_rep [OF t(2) leveldb_key_order ks']] t(1,3,4) by (simp add: Table_kvs_def)
qed

lemma leveldb_table_law: "snappy_inverse c u \<Longrightarrow> table_law (leveldb_tables (leveldb_options n c u))"
  unfolding table_law_def
proof (intro allI impI)
  fix es assume su: "snappy_inverse c u" and es: "wf_entries es \<and> es \<noteq> [] \<and> entries_size es < 2 ^ 31"
  show "tb_Entries (leveldb_tables (leveldb_options n c u)) (tb_Finish (leveldb_tables (leveldb_options n c u)) (map raw_entry es)) = es"
    using Table_kvs_entries [OF su, of es] es parse_raw [of es] by (simp add: leveldb_tables_def wf_entries_def)
qed

text \<open>On the sound files of a version the lookup in the tables keeps its promise.\<close>

lemma leveldb_tget_file_ok:
  assumes su: "snappy_inverse c u" and f: "sound_file (leveldb_tables (leveldb_options n c u)) db fs f"
    and env: "Status_ok (open_status env (TableFileName db (number f)))"
  shows "tget_file_ok (tables (leveldb_tables (leveldb_options n c u)) db fs) (leveldb_get (leveldb_options n c u) env mapped fs db) f"
  unfolding tget_file_ok_def
proof (intro allI impI)
  fix uk S assume S: "valid_seq S"
  let ?opts = "leveldb_options n c u"
  let ?ops = "leveldb_tables ?opts" and ?k = "AppendInternalKey [] (seek_key uk S)"
  obtain es where es: "wf_entries es" "es \<noteq> []" "entries_size es < 2 ^ 31"
    and data: "map_of fs (TableFileName db (number f)) = Some (table_bytes ?opts (map raw_entry es))"
    and size: "file_size f = word_of_nat (length (table_bytes ?opts (map raw_entry es)))"
    using f by (auto simp: sound_file_def leveldb_tables_def)
  have T: "tables ?ops db fs (number f) = es"
    using leveldb_table_law [OF su] es data by (simp add: tables_def table_law_def) (simp add: leveldb_tables_def)
  obtain rf where rf: "NewRandomAccessFile env mapped fs (TableFileName db (number f)) = Inr rf" "file_bytes rf = table_bytes ?opts (map raw_entry es)"
    using data env by (cases "mapped (TableFileName db (number f))") (simp_all add: NewRandomAccessFile_def)
  obtain tbl where tbl: "Table_Open ?opts rf (word_of_nat (length (file_bytes rf))) = Some (Inr tbl)"
    "InternalGet tbl ?k = Some (Status_OK, map_option raw_entry (table_seek es S uk)) \<or>
     InternalGet tbl ?k = Some (Status_OK, None) \<and> newest es S uk = None"
    by (rule InternalGet_entries [OF su es S rf(2)])
  have get: "leveldb_get ?opts env mapped fs db (number f) (file_size f) ?k = the (InternalGet tbl ?k)"
    using rf(1) tbl(1) size rf(2) by (simp add: leveldb_get_def TableCache_Get_def FindTable_def Let_def)
  show "leveldb_get ?opts env mapped fs db (number f) (file_size f) ?k =
      (Status_OK, map_option (\<lambda>e. (ikey e, snd e)) (table_seek (tables ?ops db fs (number f)) S uk)) \<or>
      leveldb_get ?opts env mapped fs db (number f) (file_size f) ?k = (Status_OK, None) \<and> newest (tables ?ops db fs (number f)) S uk = None"
    using tbl(2) unfolding get T by auto
qed

end
