(* ===== verification/DB_Iter.thy ===== *)
theory DB_Iter
  imports Mem_Table
begin

text \<open>
  The iterator of the database over the internal keys: \<^verbatim>\<open>db/db_iter.cc\<close>. The internal iterator is
  taken by the contract of \<^verbatim>\<open>leveldb/iterator.h\<close>: the entries in the order of the internal
  comparator and a position, where a position past the last entry is one that is not valid.
  The read sampling that \<^verbatim>\<open>ParseKey\<close> does along the way only asks for compactions and is left
  out.
\<close>

section \<open>The internal iterator\<close>

record InternalIterator =
  ientries :: "(bytes \<times> bytes) list"
  ipos :: nat

definition iter_Valid :: "InternalIterator \<Rightarrow> bool" where
  "iter_Valid i \<longleftrightarrow> ipos i < length (ientries i)"

definition iter_key :: "InternalIterator \<Rightarrow> bytes" where
  "iter_key i = fst (ientries i ! ipos i)"

definition iter_value :: "InternalIterator \<Rightarrow> bytes" where
  "iter_value i = snd (ientries i ! ipos i)"

definition iter_SeekToFirst :: "InternalIterator \<Rightarrow> InternalIterator" where
  "iter_SeekToFirst i = i\<lparr>ipos := 0\<rparr>"

definition iter_SeekToLast :: "InternalIterator \<Rightarrow> InternalIterator" where
  "iter_SeekToLast i = i\<lparr>ipos := length (ientries i) - 1\<rparr>"

definition iter_Seek :: "(bytes \<Rightarrow> bytes \<Rightarrow> int) \<Rightarrow> InternalIterator \<Rightarrow> bytes \<Rightarrow> InternalIterator" where
  "iter_Seek ucmp i target =
     i\<lparr>ipos := length (takeWhile (\<lambda>e. InternalKeyComparator_Compare ucmp (fst e) target < 0) (ientries i))\<rparr>"

definition iter_Next :: "InternalIterator \<Rightarrow> InternalIterator" where
  "iter_Next i = i\<lparr>ipos := ipos i + 1\<rparr>"

definition iter_Prev :: "InternalIterator \<Rightarrow> InternalIterator" where
  "iter_Prev i = i\<lparr>ipos := (if ipos i = 0 then length (ientries i) else ipos i - 1)\<rparr>"

lemmas iter_defs = iter_Valid_def iter_key_def iter_value_def iter_SeekToFirst_def iter_SeekToLast_def
  iter_Seek_def iter_Next_def iter_Prev_def

section \<open>The iterator of the database\<close>

datatype Direction = kForward | kReverse

record DBIter =
  user_comparator :: "bytes \<Rightarrow> bytes \<Rightarrow> int"
  iter :: InternalIterator
  iter_sequence :: u64
  iter_status :: Status
  saved_key :: bytes
  saved_value :: bytes
  direction :: Direction
  dvalid :: bool

definition NewDBIterator :: "(bytes \<Rightarrow> bytes \<Rightarrow> int) \<Rightarrow> InternalIterator \<Rightarrow> u64 \<Rightarrow> DBIter" where
  "NewDBIterator cmp it s = \<lparr>user_comparator = cmp, iter = it, iter_sequence = s, iter_status = Status_OK,
     saved_key = [], saved_value = [], direction = kForward, dvalid = False\<rparr>"

definition DBIter_Valid :: "DBIter \<Rightarrow> bool" where
  "DBIter_Valid d = dvalid d"

definition DBIter_key :: "DBIter \<Rightarrow> bytes" where
  "DBIter_key d = (if direction d = kForward then ExtractUserKey (iter_key (iter d)) else saved_key d)"

definition DBIter_value :: "DBIter \<Rightarrow> bytes" where
  "DBIter_value d = (if direction d = kForward then iter_value (iter d) else saved_value d)"

definition SaveKey :: "bytes \<Rightarrow> DBIter \<Rightarrow> DBIter" where
  "SaveKey k d = d\<lparr>saved_key := k\<rparr>"

definition ClearSavedValue :: "DBIter \<Rightarrow> DBIter" where
  "ClearSavedValue d = d\<lparr>saved_value := []\<rparr>"

definition DBIter_ParseKey :: "DBIter \<Rightarrow> ParsedInternalKey option \<times> DBIter" where
  "DBIter_ParseKey d =
     (case ParseInternalKey (iter_key (iter d)) of
        None \<Rightarrow> (None, d\<lparr>iter_status := Status_Corruption (cstr ''corrupted internal key in DBIter'') []\<rparr>)
      | Some ikey \<Rightarrow> (Some ikey, d))"

lemma DBIter_ParseKey_iter: "DBIter_ParseKey d = (k, d') \<Longrightarrow> iter d' = iter d"
  by (auto simp: DBIter_ParseKey_def split: option.splits)

text \<open>
  The argument \<^verbatim>\<open>skip\<close> of \<^verbatim>\<open>FindNextUserEntry\<close> is always \<^verbatim>\<open>saved_key_\<close>. The body of the loop either
  stops at the entry (\<open>True\<close>) or goes on, with the new value of \<^verbatim>\<open>skipping\<close>.
\<close>

definition FindNext_body :: "DBIter \<Rightarrow> bool \<Rightarrow> bool \<times> DBIter \<times> bool" where
  "FindNext_body d skipping =
     (case DBIter_ParseKey d of
        (Some ikey, d) \<Rightarrow>
          if sequence ikey \<le> iter_sequence d then
            (case vtype ikey of
               kTypeDeletion \<Rightarrow> (False, SaveKey (user_key ikey) d, True)
             | kTypeValue \<Rightarrow>
                 if skipping \<and> user_comparator d (user_key ikey) (saved_key d) \<le> 0
                 then (False, d, skipping)
                 else (True, d\<lparr>dvalid := True, saved_key := []\<rparr>, skipping))
          else (False, d, skipping)
      | (None, d) \<Rightarrow> (False, d, skipping))"

lemma FindNext_body_iter: "FindNext_body d skipping = (b, d', sk) \<Longrightarrow> iter d' = iter d"
  by (auto simp: FindNext_body_def SaveKey_def dest: DBIter_ParseKey_iter
      split: prod.splits option.splits ValueType.splits if_splits)

function FindNextUserEntry :: "DBIter \<Rightarrow> bool \<Rightarrow> DBIter" where
  "FindNextUserEntry d skipping =
     (case FindNext_body d skipping of (found, d, skipping) \<Rightarrow>
        if found then d
        else
          let d = d\<lparr>iter := iter_Next (iter d)\<rparr> in
          if iter_Valid (iter d) then FindNextUserEntry d skipping
          else d\<lparr>saved_key := [], dvalid := False\<rparr>)"
  by pat_completeness auto
termination
  by (relation "measure (\<lambda>(d, skipping). length (ientries (iter d)) - ipos (iter d))")
    (auto simp: iter_defs dest!: FindNext_body_iter [OF sym])

declare FindNextUserEntry.simps [simp del]

definition DBIter_Next :: "DBIter \<Rightarrow> DBIter" where
  "DBIter_Next d =
     (if direction d = kReverse then
        let d = d\<lparr>direction := kForward,
                  iter := (if \<not> iter_Valid (iter d) then iter_SeekToFirst (iter d) else iter_Next (iter d))\<rparr>
        in if \<not> iter_Valid (iter d) then d\<lparr>dvalid := False, saved_key := []\<rparr>
           else FindNextUserEntry d True
      else FindNextUserEntry (SaveKey (ExtractUserKey (iter_key (iter d))) d) True)"

text \<open>The body of the loop of \<^verbatim>\<open>FindPrevUserEntry\<close>: \<open>True\<close> for the \<^verbatim>\<open>break\<close>.\<close>

definition FindPrev_body :: "DBIter \<Rightarrow> ValueType \<Rightarrow> bool \<times> DBIter \<times> ValueType" where
  "FindPrev_body d value_type =
     (case DBIter_ParseKey d of
        (Some ikey, d) \<Rightarrow>
          if sequence ikey \<le> iter_sequence d then
            if value_type \<noteq> kTypeDeletion \<and> user_comparator d (user_key ikey) (saved_key d) < 0
            then (True, d, value_type)
            else if vtype ikey = kTypeDeletion
            then (False, ClearSavedValue (d\<lparr>saved_key := []\<rparr>), vtype ikey)
            else (False, (SaveKey (ExtractUserKey (iter_key (iter d))) d)\<lparr>saved_value := iter_value (iter d)\<rparr>,
                  vtype ikey)
          else (False, d, value_type)
      | (None, d) \<Rightarrow> (False, d, value_type))"

lemma FindPrev_body_iter: "FindPrev_body d t = (b, d', t') \<Longrightarrow> iter d' = iter d"
  by (auto simp: FindPrev_body_def SaveKey_def ClearSavedValue_def dest: DBIter_ParseKey_iter
      split: prod.splits option.splits if_splits)

function FindPrev_loop :: "DBIter \<Rightarrow> ValueType \<Rightarrow> DBIter \<times> ValueType" where
  "FindPrev_loop d value_type =
     (case FindPrev_body d value_type of (found, d, value_type) \<Rightarrow>
        if found then (d, value_type)
        else
          let d = d\<lparr>iter := iter_Prev (iter d)\<rparr> in
          if iter_Valid (iter d) then FindPrev_loop d value_type else (d, value_type))"
  by pat_completeness auto
termination
  by (relation "measure (\<lambda>(d, t). ipos (iter d))")
    (auto simp: iter_defs dest!: FindPrev_body_iter [OF sym] split: if_splits)

declare FindPrev_loop.simps [simp del]

definition FindPrevUserEntry :: "DBIter \<Rightarrow> DBIter" where
  "FindPrevUserEntry d =
     (case (if iter_Valid (iter d) then FindPrev_loop d kTypeDeletion else (d, kTypeDeletion)) of
        (d, value_type) \<Rightarrow>
          if value_type = kTypeDeletion
          then (ClearSavedValue (d\<lparr>dvalid := False, saved_key := []\<rparr>))\<lparr>direction := kForward\<rparr>
          else d\<lparr>dvalid := True\<rparr>)"

text \<open>
  The scan of \<^verbatim>\<open>Prev\<close> back to a smaller key: the position found, one that is not valid where
  there is none.
\<close>

function PrevKey_loop :: "(bytes \<Rightarrow> bytes \<Rightarrow> int) \<Rightarrow> bytes \<Rightarrow> InternalIterator \<Rightarrow> InternalIterator" where
  "PrevKey_loop ucmp skey i =
     (let j = iter_Prev i in
      if \<not> iter_Valid j then j
      else if ucmp (ExtractUserKey (iter_key j)) skey < 0 then j
      else PrevKey_loop ucmp skey j)"
  by pat_completeness auto
termination
  by (relation "measure (\<lambda>(ucmp, skey, i). ipos i)") (auto simp: iter_defs split: if_splits)

declare PrevKey_loop.simps [simp del]

definition DBIter_Prev :: "DBIter \<Rightarrow> DBIter" where
  "DBIter_Prev d =
     (if direction d = kForward then
        let d = SaveKey (ExtractUserKey (iter_key (iter d))) d;
            d = d\<lparr>iter := PrevKey_loop (user_comparator d) (saved_key d) (iter d)\<rparr>
        in if \<not> iter_Valid (iter d) then ClearSavedValue (d\<lparr>dvalid := False, saved_key := []\<rparr>)
           else FindPrevUserEntry (d\<lparr>direction := kReverse\<rparr>)
      else FindPrevUserEntry d)"

definition DBIter_Seek :: "DBIter \<Rightarrow> bytes \<Rightarrow> DBIter" where
  "DBIter_Seek d target =
     (let d = ClearSavedValue (d\<lparr>direction := kForward\<rparr>);
          d = d\<lparr>saved_key := AppendInternalKey []
                 \<lparr>user_key = target, sequence = iter_sequence d, vtype = kValueTypeForSeek\<rparr>\<rparr>;
          d = d\<lparr>iter := iter_Seek (user_comparator d) (iter d) (saved_key d)\<rparr>
      in if iter_Valid (iter d) then FindNextUserEntry d False else d\<lparr>dvalid := False\<rparr>)"

definition DBIter_SeekToFirst :: "DBIter \<Rightarrow> DBIter" where
  "DBIter_SeekToFirst d =
     (let d = ClearSavedValue (d\<lparr>direction := kForward\<rparr>);
          d = d\<lparr>iter := iter_SeekToFirst (iter d)\<rparr>
      in if iter_Valid (iter d) then FindNextUserEntry d False else d\<lparr>dvalid := False\<rparr>)"

definition DBIter_SeekToLast :: "DBIter \<Rightarrow> DBIter" where
  "DBIter_SeekToLast d =
     (let d = ClearSavedValue (d\<lparr>direction := kReverse\<rparr>);
          d = d\<lparr>iter := iter_SeekToLast (iter d)\<rparr>
      in FindPrevUserEntry d)"

section \<open>What the iterator goes through\<close>

abbreviation ukey :: "entry list \<Rightarrow> nat \<Rightarrow> bytes" where
  "ukey es i \<equiv> user_key (fst (es ! i))"

abbreviation useq :: "entry list \<Rightarrow> nat \<Rightarrow> u64" where
  "useq es i \<equiv> sequence (fst (es ! i))"

text \<open>
  The entries an iterator at sequence number \<open>S\<close> shows: the first of its user key among
  those not newer than \<open>S\<close>, if it is a value.
\<close>

definition visible_at :: "entry list \<Rightarrow> u64 \<Rightarrow> nat \<Rightarrow> bool" where
  "visible_at es S i \<longleftrightarrow> i < length es \<and> useq es i \<le> S \<and> vtype (fst (es ! i)) = kTypeValue \<and>
     (\<forall>j < i. \<not> (ukey es j = ukey es i \<and> useq es j \<le> S))"

definition shown :: "entry list \<Rightarrow> u64 \<Rightarrow> nat list" where
  "shown es S = filter (visible_at es S) [0..<length es]"

text \<open>The iterator \<open>d\<close> is one over the entries \<open>es\<close> at \<open>S\<close>, with the bytewise comparator.\<close>

definition iter_over :: "entry list \<Rightarrow> u64 \<Rightarrow> DBIter \<Rightarrow> bool" where
  "iter_over es S d \<longleftrightarrow> wf_entries es \<and> valid_seq S \<and> user_comparator d = Bytewise_Compare \<and> iter_sequence d = S \<and>
     ientries (iter d) = map (\<lambda>e. (AppendInternalKey [] (fst e), snd e)) es"

definition iter_placed :: "DBIter \<Rightarrow> nat \<Rightarrow> bool \<Rightarrow> DBIter" where
  "iter_placed d i b = d\<lparr>iter := (iter d)\<lparr>ipos := i\<rparr>, saved_key := [], dvalid := b\<rparr>"

lemma ukey_mono:
  assumes "wf_entries es" "i \<le> j" "j < length es" shows "ukey es i \<le> ukey es j"
proof (cases "i = j")
  case False
  then have "entry_less (es ! i) (es ! j)"
    using assms sorted_wrt_nth_less [of entry_less es i j] by (simp add: wf_entries_def)
  then show ?thesis by (auto simp: entry_less_def ikey_less_def)
qed simp

lemma iter_over_at:
  assumes "iter_over es S d" "ipos (iter d) < length es"
  shows "iter_Valid (iter d)" "ParseInternalKey (iter_key (iter d)) = Some (fst (es ! ipos (iter d)))"
    "ExtractUserKey (iter_key (iter d)) = ukey es (ipos (iter d))" "iter_value (iter d) = snd (es ! ipos (iter d))"
proof -
  have "entry_ok (es ! ipos (iter d))" using assms by (simp add: iter_over_def wf_entries_def list_all_length)
  then show "iter_Valid (iter d)" "ParseInternalKey (iter_key (iter d)) = Some (fst (es ! ipos (iter d)))"
    "ExtractUserKey (iter_key (iter d)) = ukey es (ipos (iter d))" "iter_value (iter d) = snd (es ! ipos (iter d))"
    using assms by (simp_all add: iter_over_def iter_defs entry_ok_def ParseInternalKey_AppendInternalKey)
      (simp_all add: AppendInternalKey_eq)
qed

lemma bytewise_le: "Bytewise_Compare a b \<le> 0 \<longleftrightarrow> a \<le> b"
  by (simp add: Bytewise_Compare_def Slice_compare_order le_less)

lemma bytewise_less: "Bytewise_Compare a b < 0 \<longleftrightarrow> a < b"
  by (simp add: Bytewise_Compare_def Slice_compare_order)

lemma FindNext_body_eq:
  assumes "iter_over es S d" "ipos (iter d) = p" "p < length es"
  shows "FindNext_body d skipping =
    (if useq es p \<le> S then
       (case vtype (fst (es ! p)) of
          kTypeDeletion \<Rightarrow> (False, d\<lparr>saved_key := ukey es p\<rparr>, True)
        | kTypeValue \<Rightarrow>
            if skipping \<and> ukey es p \<le> saved_key d then (False, d, skipping)
            else (True, d\<lparr>dvalid := True, saved_key := []\<rparr>, skipping))
     else (False, d, skipping))"
  using assms iter_over_at [OF assms(1)]
  by (cases "vtype (fst (es ! p))")
    (auto simp: FindNext_body_def DBIter_ParseKey_def SaveKey_def iter_over_def bytewise_le)

section \<open>Forward\<close>

definition target :: "entry list \<Rightarrow> u64 \<Rightarrow> nat \<Rightarrow> bool \<Rightarrow> bytes \<Rightarrow> nat \<Rightarrow> bool" where
  "target es S p skipping key i \<longleftrightarrow> visible_at es S i \<and> p \<le> i \<and> (skipping \<longrightarrow> key < ukey es i)"

definition landed :: "(nat \<Rightarrow> bool) \<Rightarrow> nat \<Rightarrow> DBIter \<Rightarrow> DBIter \<Rightarrow> bool" where
  "landed P n d r \<longleftrightarrow>
     (\<exists>m. P m \<and> (\<forall>i < m. \<not> P i) \<and> r = iter_placed d m True) \<or> (\<forall>i. \<not> P i) \<and> r = iter_placed d n False"

text \<open>
  What holds while \<^verbatim>\<open>FindNextUserEntry\<close> runs: an entry at or after the position whose key has
  been passed is hidden by the skip key, and no entry to be seen is before the skip key.
\<close>

definition skip_ok :: "entry list \<Rightarrow> u64 \<Rightarrow> nat \<Rightarrow> bool \<Rightarrow> bytes \<Rightarrow> bool" where
  "skip_ok es S p skipping key \<longleftrightarrow>
     (\<forall>i < p. \<forall>j. p \<le> j \<and> j < length es \<and> useq es i \<le> S \<and> ukey es i = ukey es j \<longrightarrow> skipping \<and> ukey es j \<le> key) \<and>
     (skipping \<longrightarrow> (\<forall>j. p \<le> j \<and> j < length es \<and> useq es j \<le> S \<longrightarrow> key \<le> ukey es j))"

lemma skip_step:
  assumes ok: "skip_ok es S p sk key" and hidden: "useq es p \<le> S \<longrightarrow> sk \<and> ukey es p \<le> key"
  shows "skip_ok es S (Suc p) sk key" "target es S p sk key = target es S (Suc p) sk key"
proof -
  show "skip_ok es S (Suc p) sk key"
    unfolding skip_ok_def
  proof (intro conjI allI impI)
    fix i j assume "i < Suc p" and j: "Suc p \<le> j \<and> j < length es \<and> useq es i \<le> S \<and> ukey es i = ukey es j"
    then consider "i = p" | "i < p" by linarith
    then have "sk \<and> ukey es j \<le> key"
    proof cases
      case 1 then show ?thesis using j hidden by simp
    next
      case 2
      moreover have "p \<le> j" using j by simp
      ultimately show ?thesis using j ok unfolding skip_ok_def by blast
    qed
    then show sk "ukey es j \<le> key" by simp_all
  next
    fix j assume sk "Suc p \<le> j \<and> j < length es \<and> useq es j \<le> S"
    then show "key \<le> ukey es j" using ok unfolding skip_ok_def by (meson Suc_leD)
  qed
  have "\<not> target es S p sk key p" using hidden by (auto simp: target_def visible_at_def)
  then have "target es S p sk key i = target es S (Suc p) sk key i" for i
    by (cases "i = p") (auto simp: target_def)
  then show "target es S p sk key = target es S (Suc p) sk key" by blast
qed

lemma skip_step_deletion:
  assumes "wf_entries es" "skip_ok es S p sk key" "useq es p \<le> S" "vtype (fst (es ! p)) = kTypeDeletion" "p < length es"
  shows "skip_ok es S (Suc p) True (ukey es p)" "target es S p sk key = target es S (Suc p) True (ukey es p)"
proof -
  have mono: "ukey es p \<le> ukey es j" if "p \<le> j" "j < length es" for j using ukey_mono assms(1) that by blast
  show "skip_ok es S (Suc p) True (ukey es p)"
    unfolding skip_ok_def
  proof (intro conjI allI impI)
    fix i j assume i: "i < Suc p" and j: "Suc p \<le> j \<and> j < length es \<and> useq es i \<le> S \<and> ukey es i = ukey es j"
    then have "ukey es i \<le> ukey es p" using ukey_mono [OF assms(1), of i p] assms(5) by simp
    with j show "ukey es j \<le> ukey es p" by simp
  qed (use mono in auto)
  have "target es S p sk key i = target es S (Suc p) True (ukey es p) i" for i
  proof (cases "visible_at es S i \<and> p < i")
    case True
    then have "ukey es p \<noteq> ukey es i" "i < length es" using assms(3) by (auto simp: visible_at_def)
    moreover have "sk \<longrightarrow> key \<le> ukey es p" using assms(2,3,5) by (simp add: skip_ok_def)
    moreover have "ukey es p \<le> ukey es i" using mono True by (simp add: visible_at_def)
    ultimately show ?thesis using True by (auto simp: target_def)
  next
    case False
    have "\<not> visible_at es S p" using assms(4) by (simp add: visible_at_def)
    with False show ?thesis by (auto simp: target_def le_less)
  qed
  then show "target es S p sk key = target es S (Suc p) True (ukey es p)" by blast
qed

lemma skip_stop:
  assumes "skip_ok es S p sk key" "useq es p \<le> S" "vtype (fst (es ! p)) = kTypeValue" "p < length es"
    "\<not> (sk \<and> ukey es p \<le> key)"
  shows "target es S p sk key p"
proof -
  have "\<not> (ukey es j = ukey es p \<and> useq es j \<le> S)" if "j < p" for j
    using assms(1,4,5) that unfolding skip_ok_def by blast
  with assms show ?thesis by (auto simp: target_def visible_at_def not_le)
qed

lemma iter_placed_simps [simp]:
  "iter_placed (d\<lparr>saved_key := k\<rparr>) = iter_placed d" "iter_placed (d\<lparr>iter := (iter d)\<lparr>ipos := i\<rparr>\<rparr>) = iter_placed d"
  "iter_placed (d\<lparr>iter := (iter d)\<lparr>ipos := i\<rparr>, saved_key := k\<rparr>) = iter_placed d"
  by (simp_all add: iter_placed_def fun_eq_iff)

lemma iter_over_upd [simp]:
  "iter_over es S (d\<lparr>saved_key := k\<rparr>) = iter_over es S d" "iter_over es S (d\<lparr>saved_value := v\<rparr>) = iter_over es S d"
  "iter_over es S (d\<lparr>direction := dir\<rparr>) = iter_over es S d" "iter_over es S (d\<lparr>dvalid := b\<rparr>) = iter_over es S d"
  "iter_over es S (d\<lparr>iter := (iter d)\<lparr>ipos := i\<rparr>\<rparr>) = iter_over es S d"
  by (simp_all add: iter_over_def)

lemma FindNextUserEntry_landed:
  "iter_over es S d \<Longrightarrow> ipos (iter d) = p \<Longrightarrow> p < length es \<Longrightarrow> skip_ok es S p sk (saved_key d) \<Longrightarrow>
   landed (target es S p sk (saved_key d)) (length es) d (FindNextUserEntry d sk)"
proof (induction "length es - p" arbitrary: d p sk rule: less_induct)
  case less
  note body = FindNext_body_eq [OF less(2-4), of sk]
  have wf: "wf_entries es" using less(2) by (simp add: iter_over_def)
  have go: ?case
    if b: "FindNext_body d sk = (False, d\<lparr>saved_key := k\<rparr>, sk')" and ok: "skip_ok es S (Suc p) sk' k"
      and same: "target es S p sk (saved_key d) = target es S (Suc p) sk' k" for k sk'
  proof -
    let ?d = "d\<lparr>saved_key := k, iter := (iter d)\<lparr>ipos := Suc p\<rparr>\<rparr>"
    have len: "length (ientries (iter d)) = length es" using less(2) by (simp add: iter_over_def)
    show ?thesis
    proof (cases "Suc p < length es")
      case True
      have "landed (target es S (Suc p) sk' k) (length es) ?d (FindNextUserEntry ?d sk')"
        using less(1) [of "Suc p" ?d sk'] less(2,4) ok True by (simp add: iter_over_def)
      moreover have "FindNextUserEntry d sk = FindNextUserEntry ?d sk'"
        using True len less(3) by (subst FindNextUserEntry.simps) (simp add: b iter_defs)
      moreover have "iter_placed ?d = iter_placed d" by (simp add: iter_placed_def fun_eq_iff)
      ultimately show ?thesis by (simp add: same landed_def)
    next
      case False
      then have "Suc p = length es" using less(4) by simp
      moreover have "FindNextUserEntry d sk = iter_placed d (Suc p) False"
        using False len less(3) by (subst FindNextUserEntry.simps) (simp add: b iter_defs iter_placed_def)
      moreover have "\<not> target es S (Suc p) sk' k i" for i using False by (simp add: target_def visible_at_def)
      ultimately show ?thesis by (simp add: same landed_def)
    qed
  qed
  consider (unseen) "\<not> useq es p \<le> S" | (del) "useq es p \<le> S" "vtype (fst (es ! p)) = kTypeDeletion"
    | (hidden) "useq es p \<le> S" "vtype (fst (es ! p)) = kTypeValue" "sk" "ukey es p \<le> saved_key d"
    | (stop) "useq es p \<le> S" "vtype (fst (es ! p)) = kTypeValue" "\<not> (sk \<and> ukey es p \<le> saved_key d)"
    by (cases "vtype (fst (es ! p))") auto
  then show ?case
  proof cases
    case unseen
    then show ?thesis using go [of "saved_key d" sk] body skip_step [OF less(5)] by simp
  next
    case del
    then show ?thesis
      using go [of "ukey es p" True] body skip_step_deletion [OF wf less(5) del less(4)] by simp
  next
    case hidden
    then show ?thesis using go [of "saved_key d" sk] body skip_step [OF less(5)] by simp
  next
    case stop
    then have "FindNext_body d sk = (True, d\<lparr>dvalid := True, saved_key := []\<rparr>, sk)"
      unfolding body by auto
    moreover have "(iter d)\<lparr>ipos := p\<rparr> = iter d" using less(3) by (cases "iter d") simp
    ultimately have "FindNextUserEntry d sk = iter_placed d p True"
      by (subst FindNextUserEntry.simps) (simp add: iter_placed_def)
    moreover have "target es S p sk (saved_key d) p" using skip_stop [OF less(5) stop(1,2) less(4) stop(3)] .
    moreover have "\<forall>i < p. \<not> target es S p sk (saved_key d) i" by (simp add: target_def)
    ultimately show ?thesis unfolding landed_def by blast
  qed
qed

section \<open>Backward\<close>

text \<open>
  Moving backwards, the iterator shows the entry \<open>c\<close> whose key and value it saved, and the
  internal iterator is before all entries of that key that are not too new.
\<close>

definition rev_at :: "entry list \<Rightarrow> u64 \<Rightarrow> DBIter \<Rightarrow> nat \<Rightarrow> bool" where
  "rev_at es S d c \<longleftrightarrow> saved_key d = ukey es c \<and> saved_value d = snd (es ! c) \<and>
     (\<forall>i < c. (ipos (iter d) < length es \<longrightarrow> ipos (iter d) < i) \<longrightarrow> S < useq es i) \<and>
     (ipos (iter d) < length es \<longrightarrow> ipos (iter d) < c \<and> ukey es (ipos (iter d)) < ukey es c)"

text \<open>The loop of \<^verbatim>\<open>FindPrevUserEntry\<close>, started at \<open>p\<close>, has gone through all entries from \<open>r\<close> on.\<close>

definition walked :: "entry list \<Rightarrow> u64 \<Rightarrow> nat \<Rightarrow> nat \<Rightarrow> DBIter \<Rightarrow> ValueType \<Rightarrow> bool" where
  "walked es S r p d t \<longleftrightarrow>
     (case t of
        kTypeDeletion \<Rightarrow> \<forall>i. visible_at es S i \<and> r \<le> i \<longrightarrow> p < i
      | kTypeValue \<Rightarrow> \<exists>c. r \<le> c \<and> c \<le> p \<and> c < length es \<and> useq es c \<le> S \<and> vtype (fst (es ! c)) = kTypeValue \<and>
          saved_key d = ukey es c \<and> saved_value d = snd (es ! c) \<and> (\<forall>i. r \<le> i \<and> i < c \<longrightarrow> S < useq es i) \<and>
          (\<forall>i. visible_at es S i \<and> r \<le> i \<and> i \<le> p \<longrightarrow> i = c))"

definition walked_done :: "entry list \<Rightarrow> u64 \<Rightarrow> nat \<Rightarrow> DBIter \<Rightarrow> ValueType \<Rightarrow> bool" where
  "walked_done es S p d t \<longleftrightarrow> iter_over es S d \<and>
     (case t of
        kTypeDeletion \<Rightarrow> \<forall>i. visible_at es S i \<longrightarrow> p < i
      | kTypeValue \<Rightarrow> \<exists>c. visible_at es S c \<and> c \<le> p \<and> (\<forall>i. visible_at es S i \<and> i \<le> p \<longrightarrow> i \<le> c) \<and> rev_at es S d c)"

lemma FindPrev_body_eq:
  assumes "iter_over es S d" "ipos (iter d) = q" "q < length es"
  shows "FindPrev_body d t =
    (if useq es q \<le> S then
       if t \<noteq> kTypeDeletion \<and> ukey es q < saved_key d then (True, d, t)
       else if vtype (fst (es ! q)) = kTypeDeletion
       then (False, d\<lparr>saved_key := [], saved_value := []\<rparr>, kTypeDeletion)
       else (False, d\<lparr>saved_key := ukey es q, saved_value := snd (es ! q)\<rparr>, kTypeValue)
     else (False, d, t))"
  using assms iter_over_at [OF assms(1)]
  by (cases "vtype (fst (es ! q))")
    (auto simp: FindPrev_body_def DBIter_ParseKey_def SaveKey_def ClearSavedValue_def iter_over_def bytewise_less)

lemma walked_unseen: "walked es S (Suc q) p d t \<Longrightarrow> S < useq es q \<Longrightarrow> walked es S q p d t"
proof -
  assume b: "walked es S (Suc q) p d t" and q: "S < useq es q"
  then have *: "visible_at es S i \<and> q \<le> i \<longleftrightarrow> visible_at es S i \<and> Suc q \<le> i" for i
    by (cases "i = q") (auto simp: visible_at_def)
  have **: "q \<le> i \<and> i < c \<longrightarrow> S < useq es i" if "\<forall>i. Suc q \<le> i \<and> i < c \<longrightarrow> S < useq es i" for i c
    using that q by (cases "i = q") auto
  show ?thesis
  proof (cases t)
    case kTypeDeletion
    then show ?thesis using b * by (simp add: walked_def)
  next
    case kTypeValue
    then obtain c where c: "Suc q \<le> c" "c \<le> p" "c < length es" "useq es c \<le> S" "vtype (fst (es ! c)) = kTypeValue"
        "saved_key d = ukey es c" "saved_value d = snd (es ! c)" "\<forall>i. Suc q \<le> i \<and> i < c \<longrightarrow> S < useq es i"
        "\<forall>i. visible_at es S i \<and> Suc q \<le> i \<and> i \<le> p \<longrightarrow> i = c"
      using b by (auto simp: walked_def)
    show ?thesis
      unfolding walked_def kTypeValue ValueType.case
      using c ** [OF c(8)] * by (intro exI [of _ c]) (metis Suc_leD)
  qed
qed

text \<open>An entry of the same key before \<open>c\<close> hides it.\<close>

lemma walked_same_key:
  assumes "wf_entries es" "walked es S (Suc q) p d t" "useq es q \<le> S" "q < length es"
    and keep: "\<not> (t \<noteq> kTypeDeletion \<and> ukey es q < saved_key d)"
  shows "visible_at es S i \<Longrightarrow> Suc q \<le> i \<Longrightarrow> p < i"
proof -
  assume i: "visible_at es S i" "Suc q \<le> i"
  show "p < i"
  proof (cases t)
    case kTypeDeletion
    with assms(2) i show ?thesis by (simp add: walked_def)
  next
    case kTypeValue
    then obtain c where c: "Suc q \<le> c" "c < length es" "saved_key d = ukey es c"
        "\<forall>i. visible_at es S i \<and> Suc q \<le> i \<and> i \<le> p \<longrightarrow> i = c"
      using assms(2) by (auto simp: walked_def)
    then have "ukey es q = ukey es c"
      using keep kTypeValue ukey_mono [OF assms(1), of q c] by (simp add: not_less)
    then have "\<not> visible_at es S c" using c(1) assms(3) unfolding visible_at_def by (metis Suc_le_eq)
    then show ?thesis using i c(4) by (metis not_le)
  qed
qed

lemma walked_end:
  assumes "iter_over es S d" "\<not> ipos (iter d) < length es" "walked es S 0 p d t"
  shows "walked_done es S p d t"
proof (cases t)
  case kTypeDeletion
  then show ?thesis using assms by (simp add: walked_done_def walked_def)
next
  case kTypeValue
  then obtain c where c: "c \<le> p" "c < length es" "useq es c \<le> S" "vtype (fst (es ! c)) = kTypeValue"
      "saved_key d = ukey es c" "saved_value d = snd (es ! c)" "\<forall>i < c. S < useq es i"
      "\<forall>i. visible_at es S i \<and> i \<le> p \<longrightarrow> i = c"
    using assms(3) by (auto simp: walked_def)
  have "visible_at es S c" using c(2-4,7) by (auto simp: visible_at_def not_le)
  moreover have "rev_at es S d c" using c(5-7) assms(2) by (simp add: rev_at_def)
  moreover have "i \<le> c" if "visible_at es S i" "i \<le> p" for i using c(8) that by simp
  ultimately show ?thesis using c(1) assms(1) kTypeValue unfolding walked_done_def by auto
qed

lemma walked_break:
  assumes "iter_over es S d" "ipos (iter d) = q" "q < length es" "walked es S (Suc q) p d t"
    "t \<noteq> kTypeDeletion" "ukey es q < saved_key d"
  shows "walked_done es S p d t"
proof -
  have t: "t = kTypeValue" using assms(5) by (cases t) auto
  have wf: "wf_entries es" using assms(1) by (simp add: iter_over_def)
  obtain c where c: "Suc q \<le> c" "c \<le> p" "c < length es" "useq es c \<le> S" "vtype (fst (es ! c)) = kTypeValue"
      "saved_key d = ukey es c" "saved_value d = snd (es ! c)" "\<forall>i. Suc q \<le> i \<and> i < c \<longrightarrow> S < useq es i"
      "\<forall>i. visible_at es S i \<and> Suc q \<le> i \<and> i \<le> p \<longrightarrow> i = c"
    using assms(4) t by (auto simp: walked_def)
  have "\<not> (ukey es j = ukey es c \<and> useq es j \<le> S)" if "j < c" for j
  proof (cases "j \<le> q")
    case True
    then show ?thesis using ukey_mono [OF wf True assms(3)] assms(6) c(6) by auto
  next
    case False
    then show ?thesis using c(8) that by (auto simp: not_le)
  qed
  then have "visible_at es S c" using c(3-5) by (simp add: visible_at_def)
  moreover have "rev_at es S d c" using c(1,6-8) assms(2,3,6) by (simp add: rev_at_def)
  moreover have "i \<le> c" if "visible_at es S i" "i \<le> p" for i
    using c(1,9) that by (cases "Suc q \<le> i") auto
  ultimately show ?thesis unfolding walked_done_def t using c(2) assms(1) by auto
qed

lemma walked_step:
  assumes "iter_over es S d" "ipos (iter d) = q" "q < length es" "walked es S (Suc q) p d t" "q \<le> p"
    "FindPrev_body d t = (False, d', t')"
  shows "walked es S q p d' t' \<and> (\<exists>k v. d' = d\<lparr>saved_key := k, saved_value := v\<rparr>)"
proof (cases "useq es q \<le> S")
  case False
  then have "d' = d" "t' = t" using FindPrev_body_eq [OF assms(1-3), of t] assms(6) by simp_all
  moreover have "d = d\<lparr>saved_key := saved_key d, saved_value := saved_value d\<rparr>" by simp
  ultimately show ?thesis using walked_unseen [OF assms(4)] False by (metis not_le)
next
  case True
  have wf: "wf_entries es" using assms(1) by (simp add: iter_over_def)
  from True have keep: "\<not> (t \<noteq> kTypeDeletion \<and> ukey es q < saved_key d)"
    using FindPrev_body_eq [OF assms(1-3), of t] assms(6) by auto
  note past = walked_same_key [OF wf assms(4) True assms(3) keep]
  show ?thesis
  proof (cases "vtype (fst (es ! q))")
    case kTypeDeletion
    then have "d' = d\<lparr>saved_key := [], saved_value := []\<rparr>" "t' = kTypeDeletion"
      using FindPrev_body_eq [OF assms(1-3), of t] assms(6) True keep by auto
    moreover have "p < i" if "visible_at es S i" "q \<le> i" for i
      using past [of i] that kTypeDeletion by (cases "i = q") (auto simp: visible_at_def)
    ultimately show ?thesis by (auto simp: walked_def)
  next
    case kTypeValue
    then have d': "d' = d\<lparr>saved_key := ukey es q, saved_value := snd (es ! q)\<rparr>" "t' = kTypeValue"
      using FindPrev_body_eq [OF assms(1-3), of t] assms(6) True keep by auto
    have "i = q" if "visible_at es S i" "q \<le> i" "i \<le> p" for i
      using past [of i] that by (cases "i = q") auto
    then have "walked es S q p d' t'"
      unfolding walked_def d' ValueType.case
      using True kTypeValue assms(3,5) by (intro exI [of _ q]) auto
    with d' show ?thesis by blast
  qed
qed

lemma FindPrev_loop_done:
  "iter_over es S d \<Longrightarrow> ipos (iter d) = q \<Longrightarrow> q < length es \<Longrightarrow> q \<le> p \<Longrightarrow> walked es S (Suc q) p d t \<Longrightarrow>
   FindPrev_loop d t = (d', t') \<Longrightarrow> walked_done es S p d' t' \<and> direction d' = direction d"
proof (induction q arbitrary: d t rule: less_induct)
  case (less q d t)
  obtain b d1 t1 where body: "FindPrev_body d t = (b, d1, t1)" by (metis prod_cases3)
  show ?case
  proof (cases b)
    case True
    then have "d1 = d" "t1 = t" "t \<noteq> kTypeDeletion" "ukey es q < saved_key d"
      using FindPrev_body_eq [OF less(2-4), of t] body by (auto split: if_splits)
    moreover have "d' = d1" "t' = t1" using less(7) True body by (simp_all add: FindPrev_loop.simps [of d])
    ultimately show ?thesis using walked_break [OF less(2-4,6)] by simp
  next
    case False
    have walk: "walked es S q p d1 t1" and ex: "\<exists>k v. d1 = d\<lparr>saved_key := k, saved_value := v\<rparr>"
      using walked_step [OF less(2-4,6,5), of d1 t1] body False by simp_all
    then obtain k v where d1: "d1 = d\<lparr>saved_key := k, saved_value := v\<rparr>" by blast
    have len: "length (ientries (iter d)) = length es" using less(2) by (simp add: iter_over_def)
    let ?d = "d1\<lparr>iter := iter_Prev (iter d1)\<rparr>"
    have over: "iter_over es S ?d" using less(2) by (simp add: d1 iter_over_def iter_Prev_def)
    have walk': "walked es S q p ?d t1" using walk by (cases t1) (simp_all add: walked_def)
    show ?thesis
    proof (cases q)
      case 0
      have "d' = ?d \<and> t' = t1"
        using less(7) body False 0 less(3) len by (auto simp: FindPrev_loop.simps [of d] d1 iter_defs)
      moreover have "\<not> ipos (iter ?d) < length es" using 0 less(3) len by (simp add: d1 iter_defs)
      ultimately show ?thesis using walked_end [OF over] walk' 0 d1 by simp
    next
      case (Suc m)
      have "FindPrev_loop ?d t1 = (d', t')"
        using less(7) body False Suc less(3,4) len by (simp add: FindPrev_loop.simps [of d] d1 iter_defs)
      moreover have "ipos (iter ?d) = m" using Suc less(3) by (simp add: d1 iter_defs)
      ultimately have "walked_done es S p d' t' \<and> direction d' = direction ?d"
        using less(1) [of m ?d t1] over walk' Suc less(4,5) by simp
      then show ?thesis by (simp add: d1)
    qed
  qed
qed

section \<open>The operations\<close>

definition current :: "entry list \<Rightarrow> u64 \<Rightarrow> DBIter \<Rightarrow> nat \<Rightarrow> bool" where
  "current es S d m \<longleftrightarrow> visible_at es S m \<and> dvalid d \<and>
     (case direction d of kForward \<Rightarrow> ipos (iter d) = m | kReverse \<Rightarrow> rev_at es S d m)"

text \<open>The iterator is at the first, or the last, of the entries it shows that satisfy \<open>P\<close>.\<close>

definition at_first :: "entry list \<Rightarrow> u64 \<Rightarrow> (nat \<Rightarrow> bool) \<Rightarrow> DBIter \<Rightarrow> bool" where
  "at_first es S P r \<longleftrightarrow> iter_over es S r \<and>
     (if dvalid r then \<exists>m. current es S r m \<and> P m \<and> (\<forall>i. visible_at es S i \<and> P i \<longrightarrow> m \<le> i)
      else \<forall>i. visible_at es S i \<longrightarrow> \<not> P i)"

definition at_last :: "entry list \<Rightarrow> u64 \<Rightarrow> (nat \<Rightarrow> bool) \<Rightarrow> DBIter \<Rightarrow> bool" where
  "at_last es S P r \<longleftrightarrow> iter_over es S r \<and>
     (if dvalid r then \<exists>m. current es S r m \<and> P m \<and> (\<forall>i. visible_at es S i \<and> P i \<longrightarrow> i \<le> m)
      else \<forall>i. visible_at es S i \<longrightarrow> \<not> P i)"

lemma FindNextUserEntry_at_first:
  assumes "iter_over es S d" "ipos (iter d) < length es" "skip_ok es S (ipos (iter d)) sk (saved_key d)"
    and "direction d = kForward"
    and P: "\<And>i. visible_at es S i \<Longrightarrow> P i \<longleftrightarrow> ipos (iter d) \<le> i \<and> (sk \<longrightarrow> saved_key d < ukey es i)"
  shows "at_first es S P (FindNextUserEntry d sk)"
proof -
  have T: "target es S (ipos (iter d)) sk (saved_key d) i \<longleftrightarrow> visible_at es S i \<and> P i" for i
    using P by (auto simp: target_def)
  have over: "iter_over es S (iter_placed d m b)" for m b using assms(1) by (simp add: iter_placed_def iter_over_def)
  from FindNextUserEntry_landed [OF assms(1) refl assms(2,3)]
  consider (found) m where "visible_at es S m \<and> P m" "\<forall>i < m. \<not> (visible_at es S i \<and> P i)"
      "FindNextUserEntry d sk = iter_placed d m True"
    | (none) "\<forall>i. \<not> (visible_at es S i \<and> P i)" "FindNextUserEntry d sk = iter_placed d (length es) False"
    unfolding landed_def T by blast
  then show ?thesis
  proof cases
    case found
    moreover from found have "current es S (iter_placed d m True) m"
      using assms(4) by (simp add: current_def iter_placed_def)
    moreover have "dvalid (iter_placed d m True)" by (simp add: iter_placed_def)
    ultimately show ?thesis unfolding at_first_def using over by (auto simp: not_less [symmetric])
  next
    case none
    then show ?thesis using over by (simp add: at_first_def) (simp add: iter_placed_def)
  qed
qed

lemma FindPrevUserEntry_at_last:
  assumes "iter_over es S d" "ipos (iter d) = p" "p < length es" "direction d = kReverse"
  shows "at_last es S (\<lambda>i. i \<le> p) (FindPrevUserEntry d)"
proof -
  obtain d' t where loop: "FindPrev_loop d kTypeDeletion = (d', t)" by fastforce
  have "walked es S (Suc p) p d kTypeDeletion" by (simp add: walked_def)
  from FindPrev_loop_done [OF assms(1-3) order_refl this loop]
  have w: "walked_done es S p d' t" "direction d' = kReverse" using assms(4) by simp_all
  have eq: "FindPrevUserEntry d = (if t = kTypeDeletion
      then (ClearSavedValue (d'\<lparr>dvalid := False, saved_key := []\<rparr>))\<lparr>direction := kForward\<rparr> else d'\<lparr>dvalid := True\<rparr>)"
    using iter_over_at(1) [OF assms(1)] assms(2,3) loop by (simp add: FindPrevUserEntry_def)
  show ?thesis
  proof (cases t)
    case kTypeDeletion
    then show ?thesis
      using w(1) by (auto simp: eq at_last_def walked_done_def ClearSavedValue_def)
  next
    case kTypeValue
    then obtain c where c: "visible_at es S c" "c \<le> p" "\<forall>i. visible_at es S i \<and> i \<le> p \<longrightarrow> i \<le> c" "rev_at es S d' c"
      "iter_over es S d'"
      using w(1) by (auto simp: walked_done_def)
    have "current es S (d'\<lparr>dvalid := True\<rparr>) c" using c(1,4) w(2) by (simp add: current_def rev_at_def)
    with c kTypeValue show ?thesis by (auto simp: eq at_last_def)
  qed
qed

lemma FindPrevUserEntry_none:
  assumes "iter_over es S d" "\<not> ipos (iter d) < length es"
  shows "iter_over es S (FindPrevUserEntry d)" "\<not> dvalid (FindPrevUserEntry d)"
proof -
  have "\<not> iter_Valid (iter d)" using assms by (simp add: iter_Valid_def iter_over_def)
  then show "iter_over es S (FindPrevUserEntry d)" "\<not> dvalid (FindPrevUserEntry d)"
    using assms(1) by (simp_all add: FindPrevUserEntry_def ClearSavedValue_def)
qed

lemma PrevKey_loop_eq:
  assumes "ientries i = map (\<lambda>e. (AppendInternalKey [] (fst e), snd e)) es" "ipos i < length es"
  shows "\<exists>q. PrevKey_loop Bytewise_Compare k i = i\<lparr>ipos := q\<rparr> \<and>
    (if q < length es then q < ipos i \<and> ukey es q < k \<and> (\<forall>j. q < j \<and> j < ipos i \<longrightarrow> k \<le> ukey es j)
     else q = length es \<and> (\<forall>j < ipos i. k \<le> ukey es j))"
  using assms
proof (induction "ipos i" arbitrary: i)
  case 0
  then show ?case
    by (subst PrevKey_loop.simps) (auto simp: iter_defs simp flip: 0(1))
next
  case (Suc m)
  let ?j = "iter_Prev i"
  have j: "ientries ?j = ientries i" "ipos ?j = m" "iter_Valid ?j"
    using Suc(2-4) by (auto simp: iter_defs simp flip: Suc(2))
  have key: "ExtractUserKey (iter_key ?j) = ukey es m"
    using Suc(2-4) by (simp add: iter_key_def j AppendInternalKey_eq)
  show ?case
  proof (cases "ukey es m < k")
    case True
    then have "PrevKey_loop Bytewise_Compare k i = ?j"
      by (subst PrevKey_loop.simps) (simp add: j key bytewise_less)
    moreover have "?j = i\<lparr>ipos := m\<rparr>" using Suc(2) by (simp add: iter_Prev_def flip: Suc(2))
    ultimately show ?thesis using True Suc(2,4) by (intro exI [of _ m]) (auto simp flip: Suc(2))
  next
    case False
    then have eq: "PrevKey_loop Bytewise_Compare k i = PrevKey_loop Bytewise_Compare k ?j"
      by (subst PrevKey_loop.simps) (simp add: j key bytewise_less)
    obtain q where q: "PrevKey_loop Bytewise_Compare k ?j = ?j\<lparr>ipos := q\<rparr>"
      "if q < length es then q < m \<and> ukey es q < k \<and> (\<forall>j. q < j \<and> j < m \<longrightarrow> k \<le> ukey es j)
       else q = length es \<and> (\<forall>j < m. k \<le> ukey es j)"
      using Suc(1) [of ?j] Suc(2-4) j by auto
    have "?j\<lparr>ipos := q\<rparr> = i\<lparr>ipos := q\<rparr>" by (simp add: iter_Prev_def)
    then show ?thesis
      using q False eq Suc(2) by (intro exI [of _ q]) (auto simp: less_Suc_eq not_less simp flip: Suc(2) split: if_splits)
  qed
qed

lemma visible_at_less:
  assumes "wf_entries es" "visible_at es S i" "visible_at es S j"
  shows "ukey es i < ukey es j \<longleftrightarrow> i < j"
proof -
  have "ukey es a < ukey es b" if "visible_at es S a" "visible_at es S b" "a < b" for a b
  proof -
    have "ukey es a \<noteq> ukey es b" using that by (auto simp: visible_at_def)
    moreover have "ukey es a \<le> ukey es b" using ukey_mono [OF assms(1), of a b] that by (simp add: visible_at_def)
    ultimately show ?thesis by simp
  qed
  then show ?thesis using assms(2,3) by (metis linorder_neqE_nat less_asym less_irrefl)
qed

lemma current_length: "current es S d m \<Longrightarrow> m < length es"
  by (simp add: current_def visible_at_def)

lemma DBIter_SeekToFirst_at:
  assumes "iter_over es S d"
  shows "at_first es S (\<lambda>_. True) (DBIter_SeekToFirst d)"
proof -
  let ?d = "(ClearSavedValue (d\<lparr>direction := kForward\<rparr>))\<lparr>iter := (iter d)\<lparr>ipos := 0\<rparr>\<rparr>"
  have over: "iter_over es S ?d" using assms by (simp add: ClearSavedValue_def iter_over_def)
  have eq: "DBIter_SeekToFirst d = (if es = [] then ?d\<lparr>dvalid := False\<rparr> else FindNextUserEntry ?d False)"
    using assms by (simp add: DBIter_SeekToFirst_def ClearSavedValue_def iter_defs iter_over_def)
  show ?thesis
  proof (cases "es = []")
    case True
    then show ?thesis using over by (simp add: eq at_first_def visible_at_def)
  next
    case False
    moreover have "at_first es S (\<lambda>_. True) (FindNextUserEntry ?d False)"
      using FindNextUserEntry_at_first [OF over, of False] False
      by (simp add: skip_ok_def ClearSavedValue_def)
    ultimately show ?thesis by (simp add: eq)
  qed
qed

lemma DBIter_SeekToLast_at:
  assumes "iter_over es S d"
  shows "at_last es S (\<lambda>_. True) (DBIter_SeekToLast d)"
proof -
  let ?d = "(ClearSavedValue (d\<lparr>direction := kReverse\<rparr>))\<lparr>iter := (iter d)\<lparr>ipos := length es - 1\<rparr>\<rparr>"
  have over: "iter_over es S ?d" using assms by (simp add: ClearSavedValue_def iter_over_def)
  have eq: "DBIter_SeekToLast d = FindPrevUserEntry ?d"
    using assms by (simp add: DBIter_SeekToLast_def ClearSavedValue_def iter_defs iter_over_def)
  show ?thesis
  proof (cases "es = []")
    case True
    then show ?thesis
      using FindPrevUserEntry_none [OF over] by (simp add: eq at_last_def visible_at_def)
  next
    case False
    have "at_last es S (\<lambda>i. i \<le> length es - 1) (FindPrevUserEntry ?d)"
      using FindPrevUserEntry_at_last [OF over] False by (simp add: ClearSavedValue_def)
    moreover have "visible_at es S i \<Longrightarrow> i \<le> length es - 1" for i by (auto simp: visible_at_def)
    ultimately show ?thesis unfolding eq at_last_def by (auto split: if_splits)
  qed
qed

lemma DBIter_Seek_at:
  assumes "iter_over es S d"
  shows "at_first es S (\<lambda>i. t \<le> ukey es i) (DBIter_Seek d t)"
proof -
  have wf: "wf_entries es" and S: "valid_seq S" using assms by (simp_all add: iter_over_def)
  define p where "p = length (takeWhile (\<lambda>e. ikey_less (fst e) (seek_key t S)) es)"
  let ?k = "AppendInternalKey [] (seek_key t S)"
  let ?d = "(ClearSavedValue (d\<lparr>direction := kForward\<rparr>))\<lparr>saved_key := ?k, iter := (iter d)\<lparr>ipos := p\<rparr>\<rparr>"
  have less: "bytewise_ikc (AppendInternalKey [] (fst e)) ?k < 0 \<longleftrightarrow> ikey_less (fst e) (seek_key t S)"
    if "e \<in> set es" for e
    using wf S that bytewise_ikc_less [of "fst e" "seek_key t S"] by (auto simp: wf_entries_def list_all_iff entry_ok_def)
  have "takeWhile (\<lambda>e. bytewise_ikc (fst e) ?k < 0) (map (\<lambda>e. (AppendInternalKey [] (fst e), snd e)) es) =
      map (\<lambda>e. (AppendInternalKey [] (fst e), snd e)) (takeWhile (\<lambda>e. ikey_less (fst e) (seek_key t S)) es)"
    using less by (intro takeWhile_map_cong) simp
  then have "iter_Seek Bytewise_Compare (iter d) ?k = (iter d)\<lparr>ipos := p\<rparr>"
    using assms by (simp add: iter_Seek_def iter_over_def p_def)
  then have eq: "DBIter_Seek d t = (if p < length es then FindNextUserEntry ?d False else ?d\<lparr>dvalid := False\<rparr>)"
    using assms by (simp add: DBIter_Seek_def ClearSavedValue_def iter_Valid_def iter_over_def kValueTypeForSeek_def Let_def)
  have over: "iter_over es S ?d" using assms by (simp add: ClearSavedValue_def iter_over_def)
  have before: "ukey es i < t \<or> ukey es i = t \<and> S < useq es i" if "i < p" for i
    using that nth_mem [of i "takeWhile (\<lambda>e. ikey_less (fst e) (seek_key t S)) es"] set_takeWhileD
    by (fastforce simp: p_def takeWhile_nth before_seek_key)
  have after: "t \<le> ukey es j" if "p \<le> j" "j < length es" for j
  proof -
    have "\<not> ikey_less (fst (es ! p)) (seek_key t S)" using nth_length_takeWhile [of "\<lambda>e. ikey_less (fst e) (seek_key t S)" es] that
      by (simp add: p_def)
    then have "t \<le> ukey es p" by (auto simp: before_seek_key not_less)
    then show ?thesis using ukey_mono [OF wf that] by simp
  qed
  have vis: "t \<le> ukey es i \<longleftrightarrow> p \<le> i" if "visible_at es S i" for i
    using before [of i] after [of i] that by (cases "p \<le> i") (auto simp: visible_at_def not_le)
  show ?thesis
  proof (cases "p < length es")
    case True
    have "skip_ok es S p False k" for k
      using before after by (auto simp: skip_ok_def) (metis leD not_le)
    then have "at_first es S (\<lambda>i. t \<le> ukey es i) (FindNextUserEntry ?d False)"
      using FindNextUserEntry_at_first [OF over, of False] True vis by (simp add: ClearSavedValue_def)
    then show ?thesis using True by (simp add: eq)
  next
    case False
    then have "\<forall>i. visible_at es S i \<longrightarrow> \<not> t \<le> ukey es i" using vis by (auto simp: visible_at_def)
    then show ?thesis using False over by (simp add: eq at_first_def)
  qed
qed

lemma DBIter_Next_at:
  assumes "iter_over es S d" "current es S d m"
  shows "at_first es S (\<lambda>i. m < i) (DBIter_Next d)"
proof -
  have wf: "wf_entries es" using assms(1) by (simp add: iter_over_def)
  have m: "visible_at es S m" "m < length es" using assms(2) by (simp_all add: current_def visible_at_def)
  have key: "ukey es m < ukey es i \<longleftrightarrow> m < i" if "visible_at es S i" for i
    using visible_at_less [OF wf m(1) that] .
  show ?thesis
  proof (cases "direction d")
    case kForward
    then have p: "ipos (iter d) = m" using assms(2) by (simp add: current_def)
    let ?d = "d\<lparr>saved_key := ukey es m\<rparr>"
    have eq: "DBIter_Next d = FindNextUserEntry ?d True"
      using kForward iter_over_at(3) [OF assms(1)] p m(2) by (simp add: DBIter_Next_def SaveKey_def)
    have "skip_ok es S m True (ukey es m)"
      using ukey_mono [OF wf] m(2) unfolding skip_ok_def by (metis less_imp_le)
    then show ?thesis
      unfolding eq using assms(1) p m(2) kForward key
      by (intro FindNextUserEntry_at_first) auto
  next
    case kReverse
    then have r: "rev_at es S d m" using assms(2) by (simp add: current_def)
    let ?q = "ipos (iter d)"
    define p where "p = (if ?q < length es then Suc ?q else 0)"
    let ?d = "d\<lparr>direction := kForward, iter := (iter d)\<lparr>ipos := p\<rparr>\<rparr>"
    have p: "p \<le> m" using r by (auto simp: p_def rev_at_def)
    have eq: "DBIter_Next d = FindNextUserEntry ?d True"
      using kReverse assms(1) p m(2) by (auto simp: DBIter_Next_def Let_def iter_defs iter_over_def p_def)
    have unseen: "S < useq es i" if "p \<le> i" "i < m" for i using r that by (auto simp: rev_at_def p_def split: if_splits)
    have small: "ukey es i < ukey es m" if "i < p" for i
      using that r ukey_mono [OF wf, of i ?q] by (fastforce simp: rev_at_def p_def split: if_splits)
    have "skip_ok es S p True (ukey es m)"
      unfolding skip_ok_def
    proof (intro conjI allI impI)
      fix j assume "p \<le> j \<and> j < length es \<and> useq es j \<le> S"
      then have "m \<le> j" "j < length es" using unseen [of j] by (auto simp: not_le [symmetric])
      then show "ukey es m \<le> ukey es j" using ukey_mono [OF wf] by blast
    next
      fix i j assume "i < p" "p \<le> j \<and> j < length es \<and> useq es i \<le> S \<and> ukey es i = ukey es j"
      then show "ukey es j \<le> ukey es m" using small [of i] by simp
    qed simp
    moreover have "saved_key d = ukey es m" using r by (simp add: rev_at_def)
    moreover have "m < i \<longleftrightarrow> p \<le> i \<and> ukey es m < ukey es i" if "visible_at es S i" for i
      using key [OF that] p by auto
    ultimately show ?thesis
      unfolding eq using FindNextUserEntry_at_first [of es S ?d True] assms(1) p m(2) by (simp add: iter_over_def)
  qed
qed

lemma DBIter_Prev_at:
  assumes "iter_over es S d" "current es S d m"
  shows "at_last es S (\<lambda>i. i < m) (DBIter_Prev d)"
proof -
  have m: "visible_at es S m" "m < length es" using assms(2) by (simp_all add: current_def visible_at_def)
  have to: "at_last es S (\<lambda>i. i < m) r"
    if "at_last es S (\<lambda>i. i \<le> q) r" "q < m" "\<forall>i. q < i \<and> i < m \<longrightarrow> S < useq es i" for q r
  proof -
    have "visible_at es S i \<Longrightarrow> i \<le> q \<longleftrightarrow> i < m" for i
      using that(2,3) by (cases "i \<le> q") (auto simp: visible_at_def not_le)
    then show ?thesis using that(1) unfolding at_last_def current_def by (auto split: if_splits)
  qed
  show ?thesis
  proof (cases "direction d")
    case kReverse
    then have r: "rev_at es S d m" using assms(2) by (simp add: current_def)
    have eq: "DBIter_Prev d = FindPrevUserEntry d" using kReverse by (simp add: DBIter_Prev_def)
    show ?thesis
    proof (cases "ipos (iter d) < length es")
      case True
      then show ?thesis
        using to [of "ipos (iter d)"] FindPrevUserEntry_at_last [OF assms(1) refl True kReverse] r
        by (simp add: eq rev_at_def)
    next
      case False
      then have "\<forall>i < m. S < useq es i" using r by (simp add: rev_at_def)
      then show ?thesis
        using FindPrevUserEntry_none [OF assms(1) False] by (auto simp: eq at_last_def visible_at_def not_le)
    qed
  next
    case kForward
    then have p: "ipos (iter d) = m" using assms(2) by (simp add: current_def)
    have it: "ientries (iter d) = map (\<lambda>e. (AppendInternalKey [] (fst e), snd e)) es" "user_comparator d = Bytewise_Compare"
      using assms(1) by (simp_all add: iter_over_def)
    have unseen: "S < useq es j" if "j < m" "ukey es m \<le> ukey es j" for j
    proof -
      have "ukey es j = ukey es m"
        using that m(2) ukey_mono [of es j m] assms(1) by (simp add: iter_over_def)
      then show ?thesis using m(1) that(1) by (auto simp: visible_at_def not_le)
    qed
    obtain q where q: "PrevKey_loop Bytewise_Compare (ukey es m) (iter d) = (iter d)\<lparr>ipos := q\<rparr>"
      "if q < length es then q < m \<and> ukey es q < ukey es m \<and> (\<forall>j. q < j \<and> j < m \<longrightarrow> ukey es m \<le> ukey es j)
       else q = length es \<and> (\<forall>j < m. ukey es m \<le> ukey es j)"
      using PrevKey_loop_eq [OF it(1), of "ukey es m"] p m(2) by auto
    let ?d = "d\<lparr>saved_key := ukey es m, iter := (iter d)\<lparr>ipos := q\<rparr>\<rparr>"
    have eq: "DBIter_Prev d = (if q < length es then FindPrevUserEntry (?d\<lparr>direction := kReverse\<rparr>)
        else ClearSavedValue (?d\<lparr>dvalid := False, saved_key := []\<rparr>))"
      using kForward iter_over_at(3) [OF assms(1)] p m(2) q(1) it
      by (simp add: DBIter_Prev_def SaveKey_def Let_def iter_Valid_def)
    show ?thesis
    proof (cases "q < length es")
      case True
      have "iter_over es S (?d\<lparr>direction := kReverse\<rparr>)" using assms(1) by (simp add: iter_over_def)
      then have "at_last es S (\<lambda>i. i \<le> q) (FindPrevUserEntry (?d\<lparr>direction := kReverse\<rparr>))"
        using FindPrevUserEntry_at_last [of es S "?d\<lparr>direction := kReverse\<rparr>" q] True by simp
      then show ?thesis using to [of q] q(2) True unseen by (simp add: eq)
    next
      case False
      then have "\<forall>i < m. S < useq es i" using q(2) unseen by simp
      then show ?thesis
        using False assms(1) by (auto simp: eq at_last_def ClearSavedValue_def visible_at_def not_le iter_over_def)
    qed
  qed
qed

section \<open>The iterator as a position in the sorted keys\<close>

text \<open>The entries and the keys an iterator shows, and its position among them.\<close>

definition entries_of :: "DBIter \<Rightarrow> entry list" where
  "entries_of d = map (\<lambda>(k, v). (the (ParseInternalKey k), v)) (ientries (iter d))"

definition shown_keys :: "DBIter \<Rightarrow> bytes list" where
  "shown_keys d = map (ukey (entries_of d)) (shown (entries_of d) (iter_sequence d))"

definition shown_pos :: "DBIter \<Rightarrow> nat" where
  "shown_pos d = (if dvalid d then length (takeWhile (\<lambda>k. k < DBIter_key d) (shown_keys d)) else length (shown_keys d))"

definition dbiter_ok :: "DBIter \<Rightarrow> bool" where
  "dbiter_ok d \<longleftrightarrow> iter_over (entries_of d) (iter_sequence d) d \<and>
     (dvalid d \<longrightarrow> (\<exists>m. current (entries_of d) (iter_sequence d) d m))"

lemma entries_of_eq: "iter_over es S d \<Longrightarrow> entries_of d = es"
proof -
  assume over: "iter_over es S d"
  then have "entries_of d = map (\<lambda>e. (the (ParseInternalKey (AppendInternalKey [] (fst e))), snd e)) es"
    by (simp add: entries_of_def iter_over_def)
  also have "\<dots> = map (\<lambda>e. e) es"
    using over
    by (intro map_cong) (auto simp: iter_over_def wf_entries_def list_all_iff entry_ok_def ParseInternalKey_AppendInternalKey)
  finally show ?thesis by simp
qed

lemma iter_over_sequence: "iter_over es S d \<Longrightarrow> iter_sequence d = S"
  by (simp add: iter_over_def)

lemma shown_keys_eq: "iter_over es S d \<Longrightarrow> shown_keys d = map (ukey es) (shown es S)"
  by (simp add: shown_keys_def entries_of_eq iter_over_sequence)

lemma set_shown [simp]: "set (shown es S) = {i. visible_at es S i}"
  by (auto simp: shown_def visible_at_def)

lemma finite_visible_at [simp]: "finite {i. visible_at es S i \<and> P i}" "finite {i. visible_at es S i}"
  by (rule finite_subset [of _ "{..<length es}"]; auto simp: visible_at_def)+

lemma distinct_shown [simp]: "distinct (shown es S)"
  by (simp add: shown_def)

lemma sorted_shown: "sorted_wrt (<) (shown es S)"
  by (simp add: shown_def sorted_wrt_filter)

lemma sorted_shown_keys:
  assumes "wf_entries es" shows "sorted_wrt (<) (map (ukey es) (shown es S))"
  unfolding sorted_wrt_map
  by (rule sorted_wrt_mono_rel [OF _ sorted_shown]) (use visible_at_less [OF assms] in auto)

lemma takeWhile_sorted_filter:
  assumes "sorted_wrt (<) xs" "\<And>x y. x \<in> set xs \<Longrightarrow> y \<in> set xs \<Longrightarrow> x < y \<Longrightarrow> P y \<Longrightarrow> P x"
  shows "takeWhile P xs = filter P xs"
  using assms
proof (induction xs)
  case (Cons x xs)
  show ?case
  proof (cases "P x")
    case True
    moreover have "takeWhile P xs = filter P xs"
      using Cons.prems(1) by (intro Cons.IH) (auto intro: Cons.prems(2))
    ultimately show ?thesis by simp
  next
    case False
    then have "filter P xs = []" using Cons.prems by (auto simp: filter_empty_conv)
    with False show ?thesis by simp
  qed
qed simp

lemma shown_before:
  assumes "wf_entries es"
  shows "length (takeWhile (\<lambda>k. k < t) (map (ukey es) (shown es S))) = card {i. visible_at es S i \<and> ukey es i < t}"
proof -
  have "takeWhile (\<lambda>k. k < t) (map (ukey es) (shown es S)) = filter (\<lambda>k. k < t) (map (ukey es) (shown es S))"
    using sorted_shown_keys [OF assms] by (rule takeWhile_sorted_filter) (auto intro: less_trans)
  also have "length \<dots> = length (filter (\<lambda>i. ukey es i < t) (shown es S))" by (simp add: filter_map o_def)
  also have "\<dots> = card {i. visible_at es S i \<and> ukey es i < t}"
    using distinct_card [of "filter (\<lambda>i. ukey es i < t) (shown es S)"] by simp
  finally show ?thesis .
qed

lemma length_shown: "length (shown es S) = card {i. visible_at es S i}"
  using distinct_card [of "shown es S"] by simp

lemma current_key:
  assumes "iter_over es S d" "current es S d m"
  shows "DBIter_key d = ukey es m" "DBIter_value d = snd (es ! m)"
  using assms iter_over_at(3,4) [OF assms(1)] current_length [OF assms(2)]
  by (auto simp: DBIter_key_def DBIter_value_def current_def rev_at_def split: Direction.splits)

lemma current_pos:
  assumes "iter_over es S d" "current es S d m"
  shows "shown_pos d = card {i. visible_at es S i \<and> i < m}"
proof -
  have wf: "wf_entries es" using assms(1) by (simp add: iter_over_def)
  have "dvalid d" "visible_at es S m" using assms(2) by (simp_all add: current_def)
  moreover from this(2) have "{i. visible_at es S i \<and> ukey es i < ukey es m} = {i. visible_at es S i \<and> i < m}"
    using visible_at_less [OF wf] by blast
  ultimately show ?thesis
    using assms shown_before [OF wf] by (simp add: shown_pos_def shown_keys_eq current_key)
qed

lemma at_first_pos:
  assumes "at_first es S P r" "\<And>i j. visible_at es S i \<Longrightarrow> visible_at es S j \<Longrightarrow> i \<le> j \<Longrightarrow> P i \<Longrightarrow> P j"
  shows "dbiter_ok r \<and> shown_keys r = map (ukey es) (shown es S) \<and> shown_pos r = card {i. visible_at es S i \<and> \<not> P i}"
proof -
  have over: "iter_over es S r" using assms(1) by (simp add: at_first_def)
  note eqs = entries_of_eq [OF over] iter_over_sequence [OF over]
  show ?thesis
  proof (cases "dvalid r")
    case True
    then obtain m where m: "current es S r m" "P m" "\<forall>i. visible_at es S i \<and> P i \<longrightarrow> m \<le> i"
      using assms(1) by (auto simp: at_first_def)
    have "{i. visible_at es S i \<and> i < m} = {i. visible_at es S i \<and> \<not> P i}"
      using m assms(2) by (auto simp: current_def not_le [symmetric])
    then show ?thesis
      using current_pos [OF over m(1)] m(1) over by (auto simp: dbiter_ok_def eqs shown_keys_eq)
  next
    case False
    then have "{i. visible_at es S i \<and> \<not> P i} = {i. visible_at es S i}" using assms(1) by (auto simp: at_first_def)
    then show ?thesis
      using False over by (simp add: dbiter_ok_def eqs shown_keys_eq [OF over] shown_pos_def length_shown)
  qed
qed

lemma at_last_pos:
  assumes "at_last es S P r" "\<And>i j. visible_at es S i \<Longrightarrow> visible_at es S j \<Longrightarrow> i \<le> j \<Longrightarrow> P j \<Longrightarrow> P i"
  shows "dbiter_ok r \<and> shown_keys r = map (ukey es) (shown es S) \<and>
    shown_pos r = (let n = card {i. visible_at es S i \<and> P i} in if n = 0 then length (shown es S) else n - 1)"
proof -
  have over: "iter_over es S r" using assms(1) by (simp add: at_last_def)
  note eqs = entries_of_eq [OF over] iter_over_sequence [OF over]
  show ?thesis
  proof (cases "dvalid r")
    case True
    then obtain m where m: "current es S r m" "P m" "\<forall>i. visible_at es S i \<and> P i \<longrightarrow> i \<le> m"
      using assms(1) by (auto simp: at_last_def)
    have vm: "visible_at es S m" using m(1) by (simp add: current_def)
    have eq: "{i. visible_at es S i \<and> P i} = insert m {i. visible_at es S i \<and> i < m}"
      using m(2,3) vm assms(2) [of _ m] by (auto simp: le_less)
    have "card {i. visible_at es S i \<and> P i} = Suc (card {i. visible_at es S i \<and> i < m})"
      unfolding eq by simp
    then show ?thesis
      using current_pos [OF over m(1)] m(1) over by (auto simp: dbiter_ok_def eqs shown_keys_eq Let_def)
  next
    case False
    then have none: "{i. visible_at es S i \<and> P i} = {}" using assms(1) by (auto simp: at_last_def)
    have "shown_pos r = length (shown es S)" using False by (simp add: shown_pos_def shown_keys_eq [OF over])
    then show ?thesis
      using False over by (simp only: none) (simp add: dbiter_ok_def eqs shown_keys_eq [OF over])
  qed
qed

lemma visible_at_newest:
  assumes "visible_at es S i" shows "visible es S (ukey es i) = Some (snd (es ! i))"
proof -
  have "newest es S (ukey es i) = Some (es ! i)"
    unfolding newest_def find_Some_iff using assms by (intro exI [of _ i]) (simp add: visible_at_def)
  then show ?thesis using assms by (simp add: visible_def entry_value_def visible_at_def)
qed

lemma dom_visible: "dom (visible es S) = ukey es ` {i. visible_at es S i}"
proof (intro equalityI subsetI)
  fix k assume "k \<in> dom (visible es S)"
  then obtain e where e: "newest es S k = Some e" "entry_value e \<noteq> None"
    by (auto simp: visible_def bind_eq_Some_conv)
  then have e: "newest es S k = Some e" "vtype (fst e) = kTypeValue"
    by (cases "vtype (fst e)"; simp add: entry_value_def)+
  then obtain i where "i < length es" "ukey es i = k" "useq es i \<le> S" "e = es ! i"
      "\<forall>j < i. \<not> (ukey es j = k \<and> useq es j \<le> S)"
    unfolding newest_def find_Some_iff by blast
  then have "visible_at es S i" "k = ukey es i" using e(2) by (auto simp: visible_at_def)
  then show "k \<in> ukey es ` {i. visible_at es S i}" by blast
qed (use visible_at_newest in auto)

lemma finite_dom_visible: "finite (dom (visible es S))"
  by (simp add: dom_visible)

lemma shown_keys_sorted_list:
  assumes "wf_entries es"
  shows "map (ukey es) (shown es S) = sorted_list_of_set (dom (visible es S))"
proof -
  have "set (map (ukey es) (shown es S)) = dom (visible es S)" by (simp add: dom_visible)
  then show ?thesis
    using sorted_shown_keys [OF assms] by (metis strict_sorted_equal strict_sorted_list_of_set set_sorted_list_of_set finite_dom_visible)
qed

lemma dbiter_okD:
  assumes "dbiter_ok d"
  obtains es S where "iter_over es S d" "shown_keys d = map (ukey es) (shown es S)" "wf_entries es"
    "dvalid d \<longrightarrow> (\<exists>m. current es S d m)"
  using assms shown_keys_eq by (auto simp: dbiter_ok_def iter_over_def intro: that)

lemma dbiter_valid:
  assumes "dbiter_ok d"
  shows "dvalid d \<longleftrightarrow> shown_pos d < length (shown_keys d)"
    and "dvalid d \<Longrightarrow> DBIter_key d = shown_keys d ! shown_pos d"
    and "dvalid d \<Longrightarrow> visible (entries_of d) (iter_sequence d) (DBIter_key d) = Some (DBIter_value d)"
proof -
  obtain es S where over: "iter_over es S d" and keys: "shown_keys d = map (ukey es) (shown es S)" and wf: "wf_entries es"
    and cur: "dvalid d \<longrightarrow> (\<exists>m. current es S d m)" using assms by (rule dbiter_okD)
  have at: "shown_pos d < length (shown_keys d) \<and> DBIter_key d = shown_keys d ! shown_pos d" if v: "dvalid d"
  proof -
    obtain m where m: "current es S d m" using cur v by blast
    then have vm: "visible_at es S m" by (simp add: current_def)
    let ?k = "ukey es m"
    have "?k \<in> set (shown_keys d)" using vm by (simp add: keys)
    then obtain xs ys where split: "shown_keys d = xs @ ?k # ys" by (metis split_list)
    then have "\<forall>x \<in> set xs. x < ?k" using sorted_shown_keys [OF wf, of S] by (simp add: keys sorted_wrt_append)
    then have "takeWhile (\<lambda>k. k < ?k) (shown_keys d) = xs" by (simp add: split takeWhile_append)
    then have "shown_pos d = length xs" using v current_key(1) [OF over m] by (simp add: shown_pos_def)
    then show ?thesis using split current_key(1) [OF over m] by simp
  qed
  show "dvalid d \<longleftrightarrow> shown_pos d < length (shown_keys d)"
    using at by (cases "dvalid d") (auto simp: shown_pos_def)
  show "dvalid d \<Longrightarrow> DBIter_key d = shown_keys d ! shown_pos d" using at by blast
  show "visible (entries_of d) (iter_sequence d) (DBIter_key d) = Some (DBIter_value d)" if v: "dvalid d"
  proof -
    obtain m where m: "current es S d m" using cur v by blast
    then have "visible_at es S m" by (simp add: current_def)
    from visible_at_newest [OF this] show ?thesis
      using current_key [OF over m] entries_of_eq [OF over] iter_over_sequence [OF over] by simp
  qed
qed

lemma dbiter_Seek:
  assumes "dbiter_ok d"
  shows "dbiter_ok (DBIter_Seek d t) \<and> shown_keys (DBIter_Seek d t) = shown_keys d \<and>
    shown_pos (DBIter_Seek d t) = length (takeWhile (\<lambda>k. k < t) (shown_keys d))"
proof -
  obtain es S where over: "iter_over es S d" and keys: "shown_keys d = map (ukey es) (shown es S)" and wf: "wf_entries es"
    using assms by (rule dbiter_okD)
  from at_first_pos [OF DBIter_Seek_at [OF over, of t]] show ?thesis
    using ukey_mono [OF wf] shown_before [OF wf, of t S]
    by (simp add: keys not_le visible_at_def) (meson order_trans)
qed

lemma dbiter_SeekToFirst:
  assumes "dbiter_ok d"
  shows "dbiter_ok (DBIter_SeekToFirst d) \<and> shown_keys (DBIter_SeekToFirst d) = shown_keys d \<and>
    shown_pos (DBIter_SeekToFirst d) = 0"
proof -
  obtain es S where over: "iter_over es S d" and keys: "shown_keys d = map (ukey es) (shown es S)"
    using assms by (rule dbiter_okD)
  from at_first_pos [OF DBIter_SeekToFirst_at [OF over]] show ?thesis by (simp add: keys)
qed

lemma dbiter_SeekToLast:
  assumes "dbiter_ok d"
  shows "dbiter_ok (DBIter_SeekToLast d) \<and> shown_keys (DBIter_SeekToLast d) = shown_keys d \<and>
    shown_pos (DBIter_SeekToLast d) = length (shown_keys d) - 1"
proof -
  obtain es S where over: "iter_over es S d" and keys: "shown_keys d = map (ukey es) (shown es S)"
    using assms by (rule dbiter_okD)
  have "length (shown es S) = card {i. visible_at es S i \<and> True}" by (simp add: length_shown)
  with at_last_pos [OF DBIter_SeekToLast_at [OF over]] show ?thesis
    unfolding Let_def keys length_map by (cases "length (shown es S) = 0") auto
qed

lemma dbiter_Next:
  assumes "dbiter_ok d" "dvalid d"
  shows "dbiter_ok (DBIter_Next d) \<and> shown_keys (DBIter_Next d) = shown_keys d \<and>
    shown_pos (DBIter_Next d) = Suc (shown_pos d)"
proof -
  obtain es S where over: "iter_over es S d" and keys: "shown_keys d = map (ukey es) (shown es S)"
    and cur: "dvalid d \<longrightarrow> (\<exists>m. current es S d m)" using assms(1) by (rule dbiter_okD)
  then obtain m where m: "current es S d m" using assms(2) by blast
  have "{i. visible_at es S i \<and> \<not> m < i} = insert m {i. visible_at es S i \<and> i < m}"
    using m by (auto simp: current_def not_less le_less)
  then have "card {i. visible_at es S i \<and> \<not> m < i} = Suc (shown_pos d)" by (simp add: current_pos [OF over m])
  with at_first_pos [OF DBIter_Next_at [OF over m]] show ?thesis by (simp add: keys)
qed

lemma dbiter_Prev:
  assumes "dbiter_ok d" "dvalid d"
  shows "dbiter_ok (DBIter_Prev d) \<and> shown_keys (DBIter_Prev d) = shown_keys d \<and>
    shown_pos (DBIter_Prev d) = (if shown_pos d = 0 then length (shown_keys d) else shown_pos d - 1)"
proof -
  obtain es S where over: "iter_over es S d" and keys: "shown_keys d = map (ukey es) (shown es S)"
    and cur: "dvalid d \<longrightarrow> (\<exists>m. current es S d m)" using assms(1) by (rule dbiter_okD)
  then obtain m where m: "current es S d m" using assms(2) by blast
  from at_last_pos [OF DBIter_Prev_at [OF over m]] current_pos [OF over m] show ?thesis
    by (auto simp: keys Let_def)
qed

lemma dbiter_new:
  assumes "wf_entries es" "valid_seq S"
  shows "dbiter_ok (NewDBIterator Bytewise_Compare \<lparr>ientries = map (\<lambda>e. (AppendInternalKey [] (fst e), snd e)) es, ipos = p\<rparr> S) \<and>
    shown_keys (NewDBIterator Bytewise_Compare \<lparr>ientries = map (\<lambda>e. (AppendInternalKey [] (fst e), snd e)) es, ipos = p\<rparr> S) =
      sorted_list_of_set (dom (visible es S))"
proof -
  let ?d = "NewDBIterator Bytewise_Compare \<lparr>ientries = map (\<lambda>e. (AppendInternalKey [] (fst e), snd e)) es, ipos = p\<rparr> S"
  have over: "iter_over es S ?d" using assms by (simp add: iter_over_def NewDBIterator_def)
  show ?thesis
    using over entries_of_eq [OF over] iter_over_sequence [OF over] shown_keys_eq [OF over] shown_keys_sorted_list [OF assms(1)]
    by (simp add: dbiter_ok_def NewDBIterator_def)
qed

section \<open>Properties\<close>

abbreviation new_dbiter :: "entry list \<Rightarrow> u64 \<Rightarrow> DBIter" where
  "new_dbiter es S \<equiv> NewDBIterator Bytewise_Compare
     \<lparr>ientries = map (\<lambda>e. (AppendInternalKey [] (fst e), snd e)) es, ipos = length es\<rparr> S"

text \<open>
  C17: a new iterator of the database goes through the sorted list of the keys that have a
  value at its sequence number, each once, whatever versions and deletions of them the
  entries hold; and from any state the iterator can be in, \<^verbatim>\<open>Seek\<close>, \<^verbatim>\<open>SeekToFirst\<close> and
  \<^verbatim>\<open>SeekToLast\<close> go to the first key at or after the target, the first and the last key.
\<close>

theorem DBIter_seeks:
  assumes "wf_entries es" "valid_seq S"
  shows "shown_keys (new_dbiter es S) = sorted_list_of_set (dom (visible es S)) \<and> dbiter_ok (new_dbiter es S) \<and>
    (\<forall>d t. dbiter_ok d \<longrightarrow>
      (dbiter_ok (DBIter_Seek d t) \<and> shown_keys (DBIter_Seek d t) = shown_keys d \<and>
       shown_pos (DBIter_Seek d t) = length (takeWhile (\<lambda>k. k < t) (shown_keys d))) \<and>
      (dbiter_ok (DBIter_SeekToFirst d) \<and> shown_keys (DBIter_SeekToFirst d) = shown_keys d \<and>
       shown_pos (DBIter_SeekToFirst d) = 0) \<and>
      (dbiter_ok (DBIter_SeekToLast d) \<and> shown_keys (DBIter_SeekToLast d) = shown_keys d \<and>
       shown_pos (DBIter_SeekToLast d) = length (shown_keys d) - 1))"
  using dbiter_new [OF assms] dbiter_Seek dbiter_SeekToFirst dbiter_SeekToLast by blast

theorem DBIter_seeks_witness:
  "shown_keys (new_dbiter [] 3) = sorted_list_of_set (dom (visible [] 3)) \<and>
   shown_pos (DBIter_SeekToFirst (new_dbiter [] 3)) = 0"
proof -
  have "wf_entries []" "valid_seq 3" by (simp_all add: wf_entries_def valid_seq_iff)
  from DBIter_seeks [OF this] show ?thesis by blast
qed

text \<open>
  C16: in every state it can reach, the iterator is valid exactly while it is at one of its
  keys, shows that key with the value the key has at its sequence number, and \<^verbatim>\<open>Next\<close> and \<^verbatim>\<open>Prev\<close>
  go to the following and the preceding key, also when the direction changes; \<^verbatim>\<open>Next\<close> from
  the last key and \<^verbatim>\<open>Prev\<close> from the first make it not valid.
\<close>

theorem DBIter_steps:
  assumes "dbiter_ok d"
  shows "(DBIter_Valid d \<longleftrightarrow> shown_pos d < length (shown_keys d)) \<and>
    (DBIter_Valid d \<longrightarrow>
      DBIter_key d = shown_keys d ! shown_pos d \<and>
      visible (entries_of d) (iter_sequence d) (DBIter_key d) = Some (DBIter_value d) \<and>
      (dbiter_ok (DBIter_Next d) \<and> shown_keys (DBIter_Next d) = shown_keys d \<and>
       shown_pos (DBIter_Next d) = Suc (shown_pos d)) \<and>
      (dbiter_ok (DBIter_Prev d) \<and> shown_keys (DBIter_Prev d) = shown_keys d \<and>
       shown_pos (DBIter_Prev d) = (if shown_pos d = 0 then length (shown_keys d) else shown_pos d - 1)))"
  using dbiter_valid [OF assms] dbiter_Next [OF assms] dbiter_Prev [OF assms] unfolding DBIter_Valid_def by blast

theorem DBIter_steps_witness:
  "shown_pos (DBIter_Next (DBIter_SeekToFirst (new_dbiter [(\<lparr>user_key = [5], sequence = 2, vtype = kTypeValue\<rparr>, [9])] 3))) =
   Suc (shown_pos (DBIter_SeekToFirst (new_dbiter [(\<lparr>user_key = [5], sequence = 2, vtype = kTypeValue\<rparr>, [9])] 3)))"
proof -
  let ?es = "[(\<lparr>user_key = [5], sequence = 2, vtype = kTypeValue\<rparr>, [9])] :: entry list"
  let ?d = "DBIter_SeekToFirst (new_dbiter ?es 3)"
  have wf: "wf_entries ?es" "valid_seq 3" by (simp_all add: wf_entries_def valid_seq_iff entry_ok_def)
  have ok: "dbiter_ok ?d" "shown_keys ?d = shown_keys (new_dbiter ?es 3)" "shown_pos ?d = 0"
    using dbiter_SeekToFirst dbiter_new [OF wf] by blast+
  have "visible ?es 3 [5] = Some [9]" by (simp add: visible_def newest_def entry_value_def)
  then have "[5] \<in> set (shown_keys (new_dbiter ?es 3))"
    using dbiter_new [OF wf] finite_dom_visible by (auto simp del: visible_def)
  then have "shown_pos ?d < length (shown_keys ?d)" using ok by (auto simp: in_set_conv_nth)
  with DBIter_steps [OF ok(1)] show ?thesis by blast
qed

end
