(* ===== verification/DB_Impl.thy ===== *)
theory DB_Impl
  imports Table_Cache DB_Iter
begin

text \<open>
  The database: \<^verbatim>\<open>db/db_impl.h\<close>, \<^verbatim>\<open>db/db_impl.cc\<close> and \<^verbatim>\<open>db/builder.cc\<close>, over the bytewise comparator.
  A call runs without interruption: a compaction does not see writes that come while it works, so it
  never finds a memtable to compact between two entries, and a writer that waits is the only one to
  do so. An iterator reads what its sources held when it was made. \<^verbatim>\<open>GetProperty\<close>,
  \<^verbatim>\<open>GetApproximateSizes\<close>, the info log and the statistics are left out; the lock file and the directories
  are not among the files of the model.
\<close>

section \<open>Options and environment\<close>

text \<open>The bounds are of type \<^verbatim>\<open>int\<close>, and the value is converted to it in the comparisons only.\<close>

definition as_int :: "int \<Rightarrow> int" where
  "as_int x = sint (word_of_int x :: u32)"

definition ClipToRange :: "int \<Rightarrow> int \<Rightarrow> int \<Rightarrow> int" where
  "ClipToRange x minvalue maxvalue =
     (let x = (if as_int x > maxvalue then maxvalue else x) in if as_int x < minvalue then minvalue else x)"

record Options =
  max_open_files :: int
  write_buffer_size :: int
  block_size :: int
  paranoid_checks :: bool
  create_if_missing :: bool
  error_if_exists :: bool

definition Options_new :: Options where
  "Options_new = \<lparr>max_open_files = 1000, write_buffer_size = 4 * 2 ^ 20, block_size = 4096, paranoid_checks = False,
     create_if_missing = False, error_if_exists = False\<rparr>"

definition kNumNonTableCacheFiles :: int where
  "kNumNonTableCacheFiles = 10"

definition SanitizeOptions :: "Options \<Rightarrow> Options" where
  "SanitizeOptions src = src
     \<lparr>max_open_files := ClipToRange (max_open_files src) (64 + kNumNonTableCacheFiles) 50000,
      write_buffer_size := ClipToRange (write_buffer_size src) (64 * 1024) (2 ^ 30),
      block_size := ClipToRange (block_size src) 1024 (4 * 2 ^ 20)\<rparr>"

text \<open>
  The outcomes of the calls of the environment. \<open>env_table\<close> is the first error of finishing, syncing,
  closing and checking a table file; \<open>env_append\<close> are the outcomes of the appends to a log file;
  \<open>env_usage\<close> is the memory that a memtable takes, which depends on the random heights of its skip
  list; \<open>env_input\<close> is the status of the iterator over the inputs of a compaction; \<open>env_mapped\<close> tells which
  files are mapped into memory; \<open>env_compress\<close> and \<open>env_uncompress\<close> are the Snappy compressor.
\<close>

record db_env =
  env_new :: "bytes \<Rightarrow> Status"
  env_table :: "u64 \<Rightarrow> Status"
  env_append :: "u64 \<Rightarrow> (Status \<times> nat) list"
  env_sync :: "u64 \<Rightarrow> Status"
  env_close :: "bytes \<Rightarrow> Status"
  env_manifest :: manifest_env
  env_read :: read_env
  env_lock :: Status
  env_children :: Status
  env_delete :: "bytes \<Rightarrow> Status"
  env_usage :: "MemTable \<Rightarrow> int"
  env_input :: Status
  env_mapped :: "bytes \<Rightarrow> bool"
  env_compress :: "bytes \<Rightarrow> bytes option"
  env_uncompress :: "bytes \<Rightarrow> bytes option"

definition table_options :: "db_env \<Rightarrow> Options \<Rightarrow> TableOptions" where
  "table_options env options = leveldb_options (nat (block_size options)) (env_compress env) (env_uncompress env)"

definition env_tables :: "db_env \<Rightarrow> Options \<Rightarrow> table_ops" where
  "env_tables env options = leveldb_tables (table_options env options)"

section \<open>State\<close>

record ManualCompaction =
  manual_level :: nat
  manual_done :: bool
  manual_begin :: "bytes option"
  manual_end :: "bytes option"

record DBImpl =
  db_options :: Options
  db_name :: bytes
  shutting_down :: bool
  db_mem :: MemTable
  db_imm :: "MemTable option"
  db_log :: "Writer option"
  logfile_number :: u64
  db_snapshots :: "u64 list"
  pending_outputs :: "u64 set"
  bg_compaction_scheduled :: bool
  manual_compaction :: "ManualCompaction option"
  db_versions :: VersionSet
  bg_error :: Status
  readers :: "Version list"
  files :: file_system

definition DBImpl_new :: "Options \<Rightarrow> bytes \<Rightarrow> file_system \<Rightarrow> DBImpl" where
  "DBImpl_new raw_options dbname fs =
     \<lparr>db_options = SanitizeOptions raw_options, db_name = dbname, shutting_down = False, db_mem = MemTable_new, db_imm = None,
      db_log = None, logfile_number = 0, db_snapshots = [], pending_outputs = {}, bg_compaction_scheduled = False,
      manual_compaction = None, db_versions = VersionSet_new dbname, bg_error = Status_OK, readers = [], files = fs\<rparr>"

section \<open>Housekeeping\<close>

definition MaybeIgnoreError :: "DBImpl \<Rightarrow> Status \<Rightarrow> Status" where
  "MaybeIgnoreError db s = (if Status_ok s \<or> paranoid_checks (db_options db) then s else Status_OK)"

definition KeepFile :: "DBImpl \<Rightarrow> u64 set \<Rightarrow> u64 \<Rightarrow> FileType \<Rightarrow> bool" where
  "KeepFile db live n type =
     (case type of
        kLogFile \<Rightarrow> n \<ge> vs_log_number (db_versions db) \<or> n = vs_prev_log (db_versions db)
      | kDescriptorFile \<Rightarrow> n \<ge> vs_manifest (db_versions db)
      | kTableFile \<Rightarrow> n \<in> live
      | kTempFile \<Rightarrow> n \<in> live
      | _ \<Rightarrow> True)"

definition DeleteObsoleteFiles :: "db_env \<Rightarrow> DBImpl \<Rightarrow> DBImpl" where
  "DeleteObsoleteFiles env db =
     (let live = AddLiveFiles (readers db) (db_versions db) (pending_outputs db)
      in db\<lparr>files := fold (\<lambda>name fs.
             case ParseFileName name of
               None \<Rightarrow> fs
             | Some (n, type) \<Rightarrow>
                 let fname = db_name db @ cstr ''/'' @ name
                 in if KeepFile db live n type \<or> \<not> Status_ok (env_delete env fname) then fs else AList.delete fname fs)
           (GetChildren (files db) (db_name db)) (files db)\<rparr>)"

definition NeedsCompaction :: "VersionSet \<Rightarrow> bool" where
  "NeedsCompaction vs \<longleftrightarrow> compaction_score (vs_current vs) \<ge> 1 \<or> file_to_compact (vs_current vs) \<noteq> None"

definition MaybeScheduleCompaction :: "DBImpl \<Rightarrow> DBImpl" where
  "MaybeScheduleCompaction db =
     (if bg_compaction_scheduled db then db
      else if shutting_down db then db
      else if db_imm db = None \<and> manual_compaction db = None \<and> \<not> NeedsCompaction (db_versions db) then db
      else db\<lparr>bg_compaction_scheduled := True\<rparr>)"

section \<open>Tables from memtables\<close>

definition mem_raw :: "MemTable \<Rightarrow> raw list" where
  "mem_raw mem = map (\<lambda>i. (MemTableIterator_key mem i, MemTableIterator_value mem i)) [0..<length mem]"

text \<open>
  \<open>BuildTable\<close> of the entries \<open>kvs\<close> of an iterator that does not fail: the metadata and the files. \<open>env_table\<close> is the first
  error of \<^verbatim>\<open>Finish\<close>, \<^verbatim>\<open>Sync\<close>, \<^verbatim>\<open>Close\<close> and the check that the table can be opened; after any of them the file is deleted.
\<close>

definition BuildTable :: "db_env \<Rightarrow> Options \<Rightarrow> bytes \<Rightarrow> file_system \<Rightarrow> raw list \<Rightarrow> u64 \<Rightarrow> Status \<times> FileMetaData \<times> file_system" where
  "BuildTable env options dbname fs kvs n =
     (let fname = TableFileName dbname n;
          meta = new_FileMetaData n 0 [] []
      in if kvs = [] then (Status_OK, meta, AList.delete fname fs)
         else if \<not> Status_ok (env_new env fname) then (env_new env fname, meta, fs)
         else
           let data = tb_Finish (env_tables env options) kvs;
               s = env_table env n;
               meta = meta\<lparr>smallest := fst (hd kvs), largest := fst (last kvs), file_size := word_of_nat (length data)\<rparr>;
               fs = AList.update fname data fs
           in if Status_ok s \<and> file_size meta > 0 then (s, meta, fs) else (s, meta, AList.delete fname fs))"

definition WriteLevel0Table ::
    "db_env \<Rightarrow> DBImpl \<Rightarrow> MemTable \<Rightarrow> VersionEdit \<Rightarrow> Version option \<Rightarrow> Status \<times> DBImpl \<times> VersionEdit" where
  "WriteLevel0Table env db mem edit base_version =
     (let (n, vs) = NewFileNumber (db_versions db);
          db = db\<lparr>db_versions := vs, pending_outputs := insert n (pending_outputs db)\<rparr>;
          (s, meta, fs) = BuildTable env (db_options db) (db_name db) (files db) (mem_raw mem) n;
          db = db\<lparr>files := fs, pending_outputs := pending_outputs db - {n}\<rparr>;
          edit = (if Status_ok s \<and> file_size meta > 0 then
                    let level = (case base_version of
                                   None \<Rightarrow> 0
                                 | Some v \<Rightarrow> PickLevelForMemTableOutput v (ExtractUserKey (smallest meta)) (ExtractUserKey (largest meta)))
                    in AddFile level n (file_size meta) (smallest meta) (largest meta) edit
                  else edit)
      in (s, db, edit))"

definition CompactMemTable :: "db_env \<Rightarrow> DBImpl \<Rightarrow> Status \<times> DBImpl" where
  "CompactMemTable env db =
     (case db_imm db of
        None \<Rightarrow> (Status_OK, db)
      | Some imm \<Rightarrow>
          let (s, db, edit) = WriteLevel0Table env db imm VersionEdit_new (Some (vs_current (db_versions db)));
              s = (if Status_ok s \<and> shutting_down db then Status_IOError (cstr ''Deleting DB during memtable compaction'') [] else s)
          in if Status_ok s then
               let edit = SetLogNumber (logfile_number db) (SetPrevLogNumber 0 edit);
                   (s, vs, fs) = LogAndApply (env_manifest env) (files db) (db_versions db) edit;
                   db = db\<lparr>db_versions := vs, files := fs\<rparr>
               in if Status_ok s then (s, DeleteObsoleteFiles env (db\<lparr>db_imm := None\<rparr>)) else (s, db)
             else (s, db))"

section \<open>Background work\<close>

definition table_entries :: "db_env \<Rightarrow> DBImpl \<Rightarrow> u64 \<Rightarrow> entry list" where
  "table_entries env db = tables (env_tables env (db_options db)) (db_name db) (files db)"

definition output_env_of :: "db_env \<Rightarrow> bytes \<Rightarrow> output_env" where
  "output_env_of env dbname = \<lparr>out_new = \<lambda>n. env_new env (TableFileName dbname n), out_finish = env_table env\<rparr>"

text \<open>A file that moves to the next level as it is.\<close>

definition TrivialMove :: "db_env \<Rightarrow> DBImpl \<Rightarrow> Compaction \<Rightarrow> Status \<times> DBImpl" where
  "TrivialMove env db c =
     (let f = hd (inputs0 c);
          edit = AddFile (clevel c + 1) (number f) (file_size f) (smallest f) (largest f) (DeleteFile (clevel c) (number f) (cedit c));
          (s, vs, fs) = LogAndApply (env_manifest env) (files db) (db_versions db) edit
      in (s, db\<lparr>db_versions := vs, files := fs\<rparr>))"

definition RunCompaction :: "db_env \<Rightarrow> DBImpl \<Rightarrow> Compaction \<Rightarrow> Status \<times> DBImpl" where
  "RunCompaction env db c =
     (let (s, st) = DoCompactionWork (env_tables env (db_options db)) (output_env_of env (db_name db)) (env_manifest env)
            (map raw_entry (merge_runs (MakeInputIterator (table_entries env db) c))) (env_input env) None
            (db_snapshots db) (files db) (db_versions db) c
      in (s, DeleteObsoleteFiles env (db\<lparr>db_versions := cversions st, files := cfiles st\<rparr>)))"

text \<open>What is left of a manual compaction after one round.\<close>

definition ManualCompaction_left :: "Compaction option \<Rightarrow> Status \<Rightarrow> ManualCompaction \<Rightarrow> ManualCompaction" where
  "ManualCompaction_left c s m =
     (case c of
        None \<Rightarrow> m\<lparr>manual_done := True\<rparr>
      | Some c \<Rightarrow> if Status_ok s then m\<lparr>manual_done := False, manual_begin := Some (largest (last (inputs0 c)))\<rparr>
                  else m\<lparr>manual_done := True\<rparr>)"

text \<open>The last result is the manual compaction that has had its round, with what is left of it.\<close>

definition BackgroundCompaction :: "db_env \<Rightarrow> DBImpl \<Rightarrow> Status \<times> DBImpl \<times> ManualCompaction option" where
  "BackgroundCompaction env db =
     (if db_imm db \<noteq> None then (case CompactMemTable env db of (s, db) \<Rightarrow> (s, db, None))
      else
        let manual = manual_compaction db;
            (c, vs) = (case manual of
                         Some m \<Rightarrow> CompactRange (db_versions db) (manual_level m) (manual_begin m) (manual_end m)
                       | None \<Rightarrow> PickCompaction (db_versions db));
            db = db\<lparr>db_versions := vs\<rparr>;
            (s, db) = (case c of
                         None \<Rightarrow> (Status_OK, db)
                       | Some c \<Rightarrow> if manual = None \<and> IsTrivialMove c then TrivialMove env db c else RunCompaction env db c);
            db = (if Status_ok s \<or> shutting_down db then db
                  else if paranoid_checks (db_options db) \<and> Status_ok (bg_error db) then db\<lparr>bg_error := s\<rparr> else db)
        in (s, db\<lparr>manual_compaction := None\<rparr>, map_option (ManualCompaction_left c s) manual))"

definition BackgroundCall :: "db_env \<Rightarrow> DBImpl \<Rightarrow> DBImpl \<times> ManualCompaction option" where
  "BackgroundCall env db =
     (let (db, m) = (if shutting_down db then (db, None) else snd (BackgroundCompaction env db))
      in (MaybeScheduleCompaction (db\<lparr>bg_compaction_scheduled := False\<rparr>), m))"

text \<open>
  Waiting on the condition variable: the background call that is scheduled signals it; when none is
  scheduled the wait never ends.
\<close>

definition bg_cv_Wait :: "db_env \<Rightarrow> DBImpl \<Rightarrow> (DBImpl \<times> ManualCompaction option) option" where
  "bg_cv_Wait env db = (if bg_compaction_scheduled db then Some (BackgroundCall env db) else None)"

section \<open>Writing\<close>

text \<open>The new log file when the memtable is full.\<close>

definition SwitchMemTable :: "db_env \<Rightarrow> DBImpl \<Rightarrow> Status \<times> DBImpl" where
  "SwitchMemTable env db =
     (let (n, vs) = NewFileNumber (db_versions db);
          fname = LogFileName (db_name db) n;
          s = env_new env fname
      in if \<not> Status_ok s then (s, db\<lparr>db_versions := ReuseFileNumber n vs\<rparr>)
         else (s, MaybeScheduleCompaction
                (db\<lparr>db_versions := vs, files := AList.update fname [] (files db), logfile_number := n,
                    db_log := Some (Writer_new \<lparr>contents = [], outcomes = env_append env n\<rparr>),
                    db_imm := Some (db_mem db), db_mem := MemTable_new\<rparr>)))"

text \<open>A loop that never ends has no result.\<close>

partial_function (option) MakeRoom_loop :: "db_env \<Rightarrow> bool \<Rightarrow> bool \<Rightarrow> DBImpl \<Rightarrow> (Status \<times> DBImpl) option" where
  "MakeRoom_loop env force allow_delay db =
     (if \<not> Status_ok (bg_error db) then Some (bg_error db, db)
      else if allow_delay \<and> NumLevelFiles (vs_current (db_versions db)) 0 \<ge> kL0_SlowdownWritesTrigger
      then MakeRoom_loop env force False db
      else if \<not> force \<and> env_usage env (db_mem db) \<le> write_buffer_size (db_options db) then Some (Status_OK, db)
      else if db_imm db \<noteq> None \<or> NumLevelFiles (vs_current (db_versions db)) 0 \<ge> kL0_StopWritesTrigger
      then (case bg_cv_Wait env db of
              None \<Rightarrow> None
            | Some (db, _) \<Rightarrow> MakeRoom_loop env force allow_delay db)
      else (case SwitchMemTable env db of
              (s, db) \<Rightarrow> if \<not> Status_ok s then Some (s, db) else MakeRoom_loop env False allow_delay db))"

definition MakeRoomForWrite :: "db_env \<Rightarrow> bool \<Rightarrow> DBImpl \<Rightarrow> (Status \<times> DBImpl) option" where
  "MakeRoomForWrite env force db = MakeRoom_loop env force (\<not> force) db"

text \<open>
  The queue of writers: a batch, or none for a writer that only waits, and the sync flag.
  \<open>BatchGroup_loop\<close> is given the batch collected so far, in the temporary batch or still the first
  one; it counts the writers served.
\<close>

type_synonym writer = "WriteBatch option \<times> bool"

fun BatchGroup_loop :: "bool \<Rightarrow> nat \<Rightarrow> WriteBatch \<Rightarrow> nat \<Rightarrow> WriteBatch option \<Rightarrow> nat \<Rightarrow> writer list \<Rightarrow> WriteBatch \<times> nat" where
  "BatchGroup_loop fsync max_size first bsize tmp served [] = (case tmp of None \<Rightarrow> first | Some b \<Rightarrow> b, served)"
| "BatchGroup_loop fsync max_size first bsize tmp served ((wb, sync) # ws) =
     (let res = (case tmp of None \<Rightarrow> first | Some b \<Rightarrow> b) in
      if sync \<and> \<not> fsync then (res, served)
      else (case wb of
              None \<Rightarrow> BatchGroup_loop fsync max_size first bsize tmp (served + 1) ws
            | Some b \<Rightarrow>
                let bsize = bsize + WriteBatch_ByteSize b in
                if bsize > max_size then (res, served)
                else
                  let t = (case tmp of None \<Rightarrow> WriteBatch_Append WriteBatch_new first | Some t \<Rightarrow> t)
                  in BatchGroup_loop fsync max_size first bsize (Some (WriteBatch_Append t b)) (served + 1) ws))"

definition BuildBatchGroup :: "WriteBatch \<Rightarrow> bool \<Rightarrow> writer list \<Rightarrow> WriteBatch \<times> nat" where
  "BuildBatchGroup first fsync ws =
     (let bsize = WriteBatch_ByteSize first;
          max_size = (if bsize \<le> 128 * 1024 then bsize + 128 * 1024 else 2 ^ 20)
      in BatchGroup_loop fsync max_size first bsize None 1 ws)"

text \<open>\<open>Write\<close> by the writer at the front of the queue \<open>w # ws\<close>; the last result is the number of writers served.\<close>

definition LogWrite :: "db_env \<Rightarrow> DBImpl \<Rightarrow> bool \<Rightarrow> WriteBatch \<Rightarrow> Status \<times> DBImpl" where
  "LogWrite env db sync updates =
     (case db_log db of
        None \<Rightarrow> (Status_OK, db)
      | Some w \<Rightarrow>
          let (s, w) = AddRecord w updates;
              db = db\<lparr>db_log := Some w, files := AList.update (LogFileName (db_name db) (logfile_number db)) (written w) (files db)\<rparr>;
              s = (if Status_ok s \<and> sync then env_sync env (logfile_number db) else s)
          in if Status_ok s
             then (case InsertInto Bytewise_Compare updates (db_mem db) of (s, mem) \<Rightarrow> (s, db\<lparr>db_mem := mem\<rparr>))
             else (s, db))"

definition Write :: "db_env \<Rightarrow> DBImpl \<Rightarrow> writer \<Rightarrow> writer list \<Rightarrow> (Status \<times> DBImpl \<times> nat) option" where
  "Write env db w ws =
     (case MakeRoomForWrite env (fst w = None) db of
        None \<Rightarrow> None
      | Some (s, db) \<Rightarrow>
          (case fst w of
             None \<Rightarrow> Some (s, db, 1)
           | Some batch \<Rightarrow>
               if \<not> Status_ok s then Some (s, db, 1)
               else
                 let last_sequence = vs_last_sequence (db_versions db);
                     (updates, served) = BuildBatchGroup batch (snd w) ws;
                     updates = WriteBatch_SetSequence updates (last_sequence + 1);
                     last_sequence = last_sequence + scast (WriteBatch_Count updates);
                     (s, db) = LogWrite env db (snd w) updates
                 in Some (s, db\<lparr>db_versions := (db_versions db)\<lparr>vs_last_sequence := last_sequence\<rparr>\<rparr>, served)))"

definition DB_Put :: "db_env \<Rightarrow> DBImpl \<Rightarrow> bool \<Rightarrow> bytes \<Rightarrow> bytes \<Rightarrow> (Status \<times> DBImpl \<times> nat) option" where
  "DB_Put env db sync key val = Write env db (Some (WriteBatch_Put WriteBatch_new key val), sync) []"

definition DB_Delete :: "db_env \<Rightarrow> DBImpl \<Rightarrow> bool \<Rightarrow> bytes \<Rightarrow> (Status \<times> DBImpl \<times> nat) option" where
  "DB_Delete env db sync key = Write env db (Some (WriteBatch_Delete WriteBatch_new key), sync) []"

section \<open>Reading\<close>

definition table_lookup :: "db_env \<Rightarrow> DBImpl \<Rightarrow> table_get" where
  "table_lookup env db = leveldb_get (table_options env (db_options db)) (env_read env) (env_mapped env) (files db) (db_name db)"

definition DB_Get :: "db_env \<Rightarrow> DBImpl \<Rightarrow> u64 option \<Rightarrow> bytes \<Rightarrow> Status \<times> bytes \<times> DBImpl" where
  "DB_Get env db snapshot key =
     (let snap = (case snapshot of Some n \<Rightarrow> n | None \<Rightarrow> vs_last_sequence (db_versions db));
          lkey = LookupKey_new key snap
      in (case MemTable_Get Bytewise_Compare lkey (db_mem db) of
            Some (Inr v) \<Rightarrow> (Status_OK, v, db)
          | Some (Inl s) \<Rightarrow> (s, [], db)
          | None \<Rightarrow>
              (case Option.bind (db_imm db) (MemTable_Get Bytewise_Compare lkey) of
                 Some (Inr v) \<Rightarrow> (Status_OK, v, db)
               | Some (Inl s) \<Rightarrow> (s, [], db)
               | None \<Rightarrow>
                   (case Version_Get (table_lookup env db) Bytewise_Compare (vs_current (db_versions db)) lkey of
                      ((s, v), stats) \<Rightarrow>
                        (case UpdateStats (vs_current (db_versions db)) stats of
                           (b, ver) \<Rightarrow>
                             let db = db\<lparr>db_versions := (db_versions db)\<lparr>vs_current := ver\<rparr>\<rparr>
                             in (s, v, if b then MaybeScheduleCompaction db else db))))))"

definition AddIterators :: "(u64 \<Rightarrow> entry list) \<Rightarrow> Version \<Rightarrow> entry list list" where
  "AddIterators T v = map (\<lambda>f. T (number f)) (level_files v 0) @
     map (\<lambda>l. run_of T (level_files v l)) (filter (\<lambda>l. level_files v l \<noteq> []) [1..<kNumLevels])"

text \<open>The entries of a memtable, as its iterator gives them.\<close>

definition mem_entries :: "MemTable \<Rightarrow> entry list" where
  "mem_entries mem = map (\<lambda>(k, v). (the (ParseInternalKey k), v)) (mem_raw mem)"

definition NewInternalIterator :: "db_env \<Rightarrow> DBImpl \<Rightarrow> InternalIterator \<times> u64" where
  "NewInternalIterator env db =
     (let list = [mem_entries (db_mem db)] @ (case db_imm db of None \<Rightarrow> [] | Some m \<Rightarrow> [mem_entries m]) @
            AddIterators (table_entries env db) (vs_current (db_versions db));
          es = merge_runs list
      in (\<lparr>ientries = map raw_entry es, ipos = length es\<rparr>, vs_last_sequence (db_versions db)))"

definition DB_NewIterator :: "db_env \<Rightarrow> DBImpl \<Rightarrow> u64 option \<Rightarrow> DBIter \<times> DBImpl" where
  "DB_NewIterator env db snapshot =
     (case NewInternalIterator env db of
        (it, latest) \<Rightarrow>
          (NewDBIterator Bytewise_Compare it (case snapshot of Some n \<Rightarrow> n | None \<Rightarrow> latest),
           db\<lparr>readers := readers db @ [vs_current (db_versions db)]\<rparr>))"

definition CleanupIteratorState :: "DBImpl \<Rightarrow> Version \<Rightarrow> DBImpl" where
  "CleanupIteratorState db v = db\<lparr>readers := remove1 v (readers db)\<rparr>"

definition DB_RecordReadSample :: "DBImpl \<Rightarrow> bytes \<Rightarrow> DBImpl" where
  "DB_RecordReadSample db key =
     (case RecordReadSample Bytewise_Compare (vs_current (db_versions db)) key of
        (b, ver) \<Rightarrow>
          let db = db\<lparr>db_versions := (db_versions db)\<lparr>vs_current := ver\<rparr>\<rparr>
          in if b then MaybeScheduleCompaction db else db)"

definition GetSnapshot :: "DBImpl \<Rightarrow> u64 \<times> DBImpl" where
  "GetSnapshot db = (vs_last_sequence (db_versions db), db\<lparr>db_snapshots := db_snapshots db @ [vs_last_sequence (db_versions db)]\<rparr>)"

definition ReleaseSnapshot :: "DBImpl \<Rightarrow> u64 \<Rightarrow> DBImpl" where
  "ReleaseSnapshot db s = db\<lparr>db_snapshots := remove1 s (db_snapshots db)\<rparr>"

section \<open>Compacting on demand\<close>

partial_function (option) WaitForImm :: "db_env \<Rightarrow> DBImpl \<Rightarrow> DBImpl option" where
  "WaitForImm env db =
     (if db_imm db \<noteq> None \<and> Status_ok (bg_error db)
      then (case bg_cv_Wait env db of
              None \<Rightarrow> None
            | Some (db, _) \<Rightarrow> WaitForImm env db)
      else Some db)"

definition TEST_CompactMemTable :: "db_env \<Rightarrow> DBImpl \<Rightarrow> (Status \<times> DBImpl) option" where
  "TEST_CompactMemTable env db =
     (case Write env db (None, False) [] of
        None \<Rightarrow> None
      | Some (s, db, _) \<Rightarrow>
          if Status_ok s
          then (case WaitForImm env db of
                  None \<Rightarrow> None
                | Some db \<Rightarrow> Some (if db_imm db \<noteq> None then bg_error db else s, db))
          else Some (s, db))"

text \<open>
  Waiting while another caller's manual compaction is pending (what is left of it is handed back to
  that caller, whose own loop is not run here), waiting until the own one has had its round, and the
  rounds until it is done.
\<close>

partial_function (option) WaitManual :: "db_env \<Rightarrow> DBImpl \<Rightarrow> DBImpl option" where
  "WaitManual env db =
     (if manual_compaction db = None then Some db
      else (case bg_cv_Wait env db of
              None \<Rightarrow> None
            | Some (db, _) \<Rightarrow> WaitManual env db))"

partial_function (option) ManualRound :: "db_env \<Rightarrow> ManualCompaction \<Rightarrow> DBImpl \<Rightarrow> (ManualCompaction \<times> DBImpl) option" where
  "ManualRound env m db =
     (if manual_compaction db = None then Some (m, db)
      else (case bg_cv_Wait env db of
              None \<Rightarrow> None
            | Some (db, left) \<Rightarrow> ManualRound env (case left of None \<Rightarrow> m | Some m' \<Rightarrow> m') db))"

partial_function (option) CompactRange_loop :: "db_env \<Rightarrow> ManualCompaction \<Rightarrow> DBImpl \<Rightarrow> DBImpl option" where
  "CompactRange_loop env m db =
     (if manual_done m then Some db
      else (case WaitManual env db of
              None \<Rightarrow> None
            | Some db \<Rightarrow>
                (case ManualRound env m (MaybeScheduleCompaction (db\<lparr>manual_compaction := Some m\<rparr>)) of
                   None \<Rightarrow> None
                 | Some (m, db) \<Rightarrow> CompactRange_loop env m db)))"

definition TEST_CompactRange :: "db_env \<Rightarrow> nat \<Rightarrow> bytes option \<Rightarrow> bytes option \<Rightarrow> DBImpl \<Rightarrow> DBImpl option" where
  "TEST_CompactRange env level begins ends db =
     CompactRange_loop env
       \<lparr>manual_level = level, manual_done = False,
        manual_begin = map_option (\<lambda>k. InternalKey_new k kMaxSequenceNumber kValueTypeForSeek) begins,
        manual_end = map_option (\<lambda>k. InternalKey_new k 0 kTypeDeletion) ends\<rparr> db"

definition DB_CompactRange :: "db_env \<Rightarrow> bytes option \<Rightarrow> bytes option \<Rightarrow> DBImpl \<Rightarrow> DBImpl option" where
  "DB_CompactRange env begins ends db =
     (let v = vs_current (db_versions db);
          max_level_with_files = fold (\<lambda>l m. if OverlapInLevel Bytewise_Compare v l begins ends then l else m) [1..<kNumLevels] 1
      in (case TEST_CompactMemTable env db of
            None \<Rightarrow> None
          | Some (s, db) \<Rightarrow>
              fold (\<lambda>l d. Option.bind d (TEST_CompactRange env l begins ends)) [0..<max_level_with_files] (Some db)))"

section \<open>Recovery\<close>

definition NewDB :: "db_env \<Rightarrow> DBImpl \<Rightarrow> Status \<times> DBImpl" where
  "NewDB env db =
     (let new_db = SetLastSequence 0 (SetNextFile 2 (SetLogNumber 0 (SetComparatorName comparator_Name VersionEdit_new)));
          manifest = DescriptorFileName (db_name db) 1
      in if \<not> Status_ok (env_new env manifest) then (env_new env manifest, db)
         else
           let (s, w) = AddRecord (Writer_new \<lparr>contents = [], outcomes = env_append env 1\<rparr>) (VersionEdit_EncodeTo new_db []);
               fs = AList.update manifest (written w) (files db);
               s = (if Status_ok s then env_close env manifest else s)
           in if Status_ok s
              then (case SetCurrentFile (current_env (env_manifest env)) fs (db_name db) 1 of (s, fs) \<Rightarrow> (s, db\<lparr>files := fs\<rparr>))
              else (s, db\<lparr>files := AList.delete manifest fs\<rparr>))"

text \<open>The state of \<open>RecoverLogFile\<close>: the memtable being filled, the edit, the largest sequence number.\<close>

record LogState =
  ls_db :: DBImpl
  ls_mem :: "MemTable option"
  ls_edit :: VersionEdit
  ls_max :: u64

text \<open>
  One record of the log, and the status after it. The loop ends at the next round when it is an
  error, as it does in the code after a \<^verbatim>\<open>break\<close>.
\<close>

definition RecoverRecord :: "db_env \<Rightarrow> bytes \<Rightarrow> Status \<Rightarrow> LogState \<Rightarrow> Status \<times> LogState" where
  "RecoverRecord env rec status st =
     (if length rec < 12 then
        (if paranoid_checks (db_options (ls_db st)) \<and> Status_ok status
         then Status_Corruption (cstr ''log record too small'') [] else status, st)
      else
        let batch = WriteBatch_SetContents WriteBatch_new rec;
            mem = (case ls_mem st of None \<Rightarrow> MemTable_new | Some m \<Rightarrow> m);
            (s, mem) = InsertInto Bytewise_Compare batch mem;
            s = MaybeIgnoreError (ls_db st) s;
            st = st\<lparr>ls_mem := Some mem\<rparr>
        in if \<not> Status_ok s then (s, st)
           else
             let last_seq = WriteBatch_Sequence batch + scast (WriteBatch_Count batch) - 1;
                 st = (if last_seq > ls_max st then st\<lparr>ls_max := last_seq\<rparr> else st)
             in if env_usage env mem > write_buffer_size (db_options (ls_db st))
                then (case WriteLevel0Table env (ls_db st) mem (ls_edit st) None of
                        (s, db, edit) \<Rightarrow>
                          let st = st\<lparr>ls_db := db, ls_edit := edit\<rparr>
                          in (s, if Status_ok s then st\<lparr>ls_mem := None\<rparr> else st))
                else (s, st))"

function RecoverLog_loop :: "db_env \<Rightarrow> Reader \<Rightarrow> Status \<Rightarrow> LogState \<Rightarrow> Status \<times> LogState" where
  "RecoverLog_loop env r status st =
     (case ReadRecord r of (rec, r') \<Rightarrow>
        let status = (if paranoid_checks (db_options (ls_db st))
                      then LogReporter status (drop (length (reports r)) (reports r')) else status) in
        case rec of
          None \<Rightarrow> (status, st)
        | Some x \<Rightarrow>
            if Status_ok status
            then (case RecoverRecord env x status st of (s, st) \<Rightarrow> RecoverLog_loop env r' s st)
            else (status, st))"
  by pat_completeness auto
termination
  by (relation "measure (\<lambda>(env, r, s, st). reader_left r)") (auto intro: ReadRecord_left [OF sym])

declare RecoverLog_loop.simps [simp del]

definition RecoverLogFile :: "db_env \<Rightarrow> DBImpl \<Rightarrow> u64 \<Rightarrow> VersionEdit \<Rightarrow> u64 \<Rightarrow> Status \<times> DBImpl \<times> VersionEdit \<times> u64" where
  "RecoverLogFile env db n edit max_sequence =
     (case NewSequentialFile (env_read env) (files db) (LogFileName (db_name db) n) of
        Inl s \<Rightarrow> (MaybeIgnoreError db s, db, edit, max_sequence)
      | Inr file \<Rightarrow>
          let (s, st) = RecoverLog_loop env (Reader_new file True True 0) Status_OK
                \<lparr>ls_db = db, ls_mem = None, ls_edit = edit, ls_max = max_sequence\<rparr>
          in (case ls_mem st of
                None \<Rightarrow> (s, ls_db st, ls_edit st, ls_max st)
              | Some mem \<Rightarrow>
                  if Status_ok s
                  then (case WriteLevel0Table env (ls_db st) mem (ls_edit st) None of
                          (s, db, edit) \<Rightarrow> (s, db, edit, ls_max st))
                  else (s, ls_db st, ls_edit st, ls_max st)))"

text \<open>All logs in the order of their numbers; the status is that of the last one.\<close>

fun RecoverLogs :: "db_env \<Rightarrow> Status \<Rightarrow> DBImpl \<Rightarrow> VersionEdit \<Rightarrow> u64 \<Rightarrow> u64 list \<Rightarrow> Status \<times> DBImpl \<times> VersionEdit \<times> u64" where
  "RecoverLogs env s db edit m [] = (s, db, edit, m)"
| "RecoverLogs env s db edit m (n # ns) =
     (case RecoverLogFile env db n edit m of
        (s, db, edit, m) \<Rightarrow>
          RecoverLogs env s (db\<lparr>db_versions := MarkFileNumberUsed n (db_versions db)\<rparr>) edit m ns)"

definition LogNumbers :: "VersionSet \<Rightarrow> bytes list \<Rightarrow> u64 list" where
  "LogNumbers vs names =
     concat (map (\<lambda>name. case ParseFileName name of
                           Some (n, kLogFile) \<Rightarrow> if n \<ge> vs_log_number vs \<or> n = vs_prev_log vs then [n] else []
                         | _ \<Rightarrow> []) names)"

definition MissingFiles :: "VersionSet \<Rightarrow> bytes list \<Rightarrow> u64 set" where
  "MissingFiles vs names =
     AddLiveFiles [] vs {} - set (List.map_filter (\<lambda>name. map_option fst (ParseFileName name)) names)"

definition CheckCurrent :: "db_env \<Rightarrow> DBImpl \<Rightarrow> Status \<times> DBImpl" where
  "CheckCurrent env db =
     (if map_of (files db) (CurrentFileName (db_name db)) = None then
        if create_if_missing (db_options db) then NewDB env db
        else (Status_InvalidArgument (db_name db) (cstr ''does not exist (create_if_missing is false)''), db)
      else if error_if_exists (db_options db)
      then (Status_InvalidArgument (db_name db) (cstr ''exists (error_if_exists is true)''), db)
      else (Status_OK, db))"

definition DB_Recover :: "db_env \<Rightarrow> DBImpl \<Rightarrow> VersionEdit \<Rightarrow> Status \<times> DBImpl \<times> VersionEdit" where
  "DB_Recover env db edit =
     (if \<not> Status_ok (env_lock env) then (env_lock env, db, edit)
      else
        let (s, db) = CheckCurrent env db
        in if \<not> Status_ok s then (s, db, edit)
           else
             (case Recover (env_read env) (files db) (db_versions db) of
                (s, vs) \<Rightarrow>
                  let db = db\<lparr>db_versions := vs\<rparr> in
                  if \<not> Status_ok s then (s, db, edit)
                  else if \<not> Status_ok (env_children env) then (env_children env, db, edit)
                  else
                    let names = GetChildren (files db) (db_name db);
                        missing = MissingFiles vs names
                    in if missing \<noteq> {} then
                         (Status_Corruption (NumberToString (word_of_nat (card missing)) @ cstr '' missing files; e.g.'')
                            (TableFileName (db_name db) (Min missing)), db, edit)
                       else
                         (case RecoverLogs env s db edit 0 (sort (LogNumbers vs names)) of
                            (s, db, edit, m) \<Rightarrow>
                              let db = (if Status_ok s \<and> vs_last_sequence (db_versions db) < m
                                        then db\<lparr>db_versions := (db_versions db)\<lparr>vs_last_sequence := m\<rparr>\<rparr> else db)
                              in (s, db, edit))))"

definition DB_Open :: "db_env \<Rightarrow> Options \<Rightarrow> bytes \<Rightarrow> file_system \<Rightarrow> (Status \<times> file_system) + DBImpl" where
  "DB_Open env options dbname fs =
     (let (s, db, edit) = DB_Recover env (DBImpl_new options dbname fs) VersionEdit_new
      in if \<not> Status_ok s then Inl (s, files db)
         else
           let (n, vs) = NewFileNumber (db_versions db);
               db = db\<lparr>db_versions := vs\<rparr>;
               fname = LogFileName dbname n
           in if \<not> Status_ok (env_new env fname) then Inl (env_new env fname, files db)
              else
                let edit = SetLogNumber n edit;
                    db = db\<lparr>files := AList.update fname [] (files db), logfile_number := n,
                            db_log := Some (Writer_new \<lparr>contents = [], outcomes = env_append env n\<rparr>)\<rparr>;
                    (s, vs, fs) = LogAndApply (env_manifest env) (files db) (db_versions db) edit;
                    db = db\<lparr>db_versions := vs, files := fs\<rparr>
                in if Status_ok s then Inr (MaybeScheduleCompaction (DeleteObsoleteFiles env db)) else Inl (s, files db))"

text \<open>The destructor leaves the files as they are; a scheduled compaction sees the flag and does nothing.\<close>

definition DB_Close :: "DBImpl \<Rightarrow> file_system" where
  "DB_Close db = files (db\<lparr>shutting_down := True\<rparr>)"

definition DestroyDB :: "db_env \<Rightarrow> bytes \<Rightarrow> file_system \<Rightarrow> Status \<times> file_system" where
  "DestroyDB env dbname fs =
     (let filenames = GetChildren fs dbname
      in if filenames = [] then (Status_OK, fs)
         else if \<not> Status_ok (env_lock env) then (env_lock env, fs)
         else
           let (s, fs) = fold (\<lambda>name (s, fs).
                 case ParseFileName name of
                   None \<Rightarrow> (s, fs)
                 | Some (n, type) \<Rightarrow>
                     if type = kDBLockFile then (s, fs)
                     else
                       let fname = dbname @ cstr ''/'' @ name;
                           del = env_delete env fname
                       in (if Status_ok s \<and> \<not> Status_ok del then del else s,
                           if Status_ok del then AList.delete fname fs else fs)) filenames (Status_OK, fs)
           in (s, AList.delete (LockFileName dbname) fs))"

end
