(* ===== verification/DB_Contents.thy ===== *)
theory DB_Contents
  imports DB_Impl "HOL-Library.Multiset"
begin

text \<open>
  What a database holds: the runs of entries in the memtables and the tables, newest first, and the value
  that each key has at a sequence number. \<open>db_ok\<close> is the invariant of an open database. \<^verbatim>\<open>DBImpl::Get\<close>
  and the iterators of the database show these contents.
\<close>

section \<open>Memtables\<close>

definition mem_ok :: "MemTable \<Rightarrow> bool" where
  "mem_ok mem \<longleftrightarrow> mem = map entry_bytes (mem_entries mem) \<and> wf_entries (mem_entries mem)"

lemma mem_raw_entries:
  assumes "list_all entry_ok es" shows "mem_raw (map entry_bytes es) = map raw_entry es"
proof (rule nth_equalityI)
  show "length (mem_raw (map entry_bytes es)) = length (map raw_entry es)" by (simp add: mem_raw_def)
  fix i assume "i < length (mem_raw (map entry_bytes es))"
  then have i: "i < length es" by (simp add: mem_raw_def)
  then have e: "entry_ok (es ! i)" using assms by (simp add: list_all_length)
  have "MemGetLengthPrefixedSlice (entry_bytes (es ! i)) = ikey (es ! i)"
    unfolding entry_bytes_def by (rule MemGet_prefixed) (use e in \<open>simp add: entry_ok_def\<close>)
  moreover have "(case MemVarint32 (entry_bytes (es ! i)) of None \<Rightarrow> [] | Some (len, p) \<Rightarrow> MemGetLengthPrefixedSlice (drop (unat len) p)) = snd (es ! i)"
    using entry_fields [OF e] by (metis (no_types, lifting) case_prod_conv option.simps(5))
  ultimately show "mem_raw (map entry_bytes es) ! i = map raw_entry es ! i"
    using i by (simp add: mem_raw_def MemTableIterator_key_def MemTableIterator_value_def)
qed

lemma mem_entries_bytes: "list_all entry_ok es \<Longrightarrow> mem_entries (map entry_bytes es) = es"
proof -
  assume es: "list_all entry_ok es"
  have "(\<lambda>(k, v). (the (ParseInternalKey k), v)) = parse_kv" by (auto simp: parse_kv_def fun_eq_iff)
  then show ?thesis using parse_raw [OF es] unfolding mem_entries_def mem_raw_entries [OF es] by simp
qed

lemma mem_ok_bytes: "wf_entries es \<Longrightarrow> mem_ok (map entry_bytes es)"
  by (simp add: mem_ok_def mem_entries_bytes wf_entries_def)

lemma mem_ok_new [simp]: "mem_ok MemTable_new" "mem_entries MemTable_new = []"
  by (simp_all add: mem_ok_def mem_entries_def mem_raw_def MemTable_new_def wf_entries_def)

lemma mem_okD:
  assumes "mem_ok mem"
  shows "mem = map entry_bytes (mem_entries mem)" "wf_entries (mem_entries mem)" "mem_raw mem = map raw_entry (mem_entries mem)"
  using assms mem_raw_entries [of "mem_entries mem"] by (auto simp: mem_ok_def wf_entries_def)

section \<open>The invariant\<close>

definition db_ops :: "db_env \<Rightarrow> DBImpl \<Rightarrow> table_ops" where
  "db_ops env db = env_tables env (db_options db)"

definition imm_runs :: "DBImpl \<Rightarrow> entry list list" where
  "imm_runs db = (case db_imm db of None \<Rightarrow> [] | Some m \<Rightarrow> [mem_entries m])"

definition db_runs :: "db_env \<Rightarrow> DBImpl \<Rightarrow> entry list list" where
  "db_runs env db = mem_entries (db_mem db) # imm_runs db @ store_runs (db_ops env db) (files db) (db_versions db)"

text \<open>The value of a key at a sequence number.\<close>

definition contents_at :: "db_env \<Rightarrow> DBImpl \<Rightarrow> u64 \<Rightarrow> bytes \<rightharpoonup> bytes" where
  "contents_at env db S = visible (merge_runs (db_runs env db)) S"

definition contents_of :: "db_env \<Rightarrow> DBImpl \<Rightarrow> bytes \<rightharpoonup> bytes" where
  "contents_of env db = contents_at env db (vs_last_sequence (db_versions db))"

text \<open>A full level 0 shows in the score of a version.\<close>

definition scored :: "Version \<Rightarrow> bool" where
  "scored v \<longleftrightarrow> level_score v 0 \<le> compaction_score v"

definition db_ok :: "db_env \<Rightarrow> DBImpl \<Rightarrow> VersionEdit list \<Rightarrow> bool" where
  "db_ok env db es \<longleftrightarrow> vs_dbname (db_versions db) = db_name db \<and>
     store_ok (db_ops env db) (files db) (db_versions db) es \<and> pickable (vs_current (db_versions db)) \<and> scored (vs_current (db_versions db)) \<and>
     mem_ok (db_mem db) \<and> (\<forall>m. db_imm db = Some m \<longrightarrow> mem_ok m) \<and> runs_ok (db_runs env db) \<and>
     (\<forall>r \<in> set (mem_entries (db_mem db) # imm_runs db). \<forall>x \<in> set r. sequence (fst x) \<le> vs_last_sequence (db_versions db))"

lemma db_okD:
  assumes "db_ok env db es"
  shows "vs_dbname (db_versions db) = db_name db" "store_ok (db_ops env db) (files db) (db_versions db) es"
    "pickable (vs_current (db_versions db))" "mem_ok (db_mem db)" "\<And>m. db_imm db = Some m \<Longrightarrow> mem_ok m" "runs_ok (db_runs env db)"
    "layout (tables (db_ops env db) (db_name db) (files db)) (vs_current (db_versions db))"
    "\<And>x. x \<in> set (mem_entries (db_mem db)) \<Longrightarrow> sequence (fst x) \<le> vs_last_sequence (db_versions db)"
    "\<And>m x. db_imm db = Some m \<Longrightarrow> x \<in> set (mem_entries m) \<Longrightarrow> sequence (fst x) \<le> vs_last_sequence (db_versions db)"
    "vs_last_sequence (db_versions db) < kMaxSequenceNumber" "valid_seq (vs_last_sequence (db_versions db))"
    "scored (vs_current (db_versions db))"
  using assms unfolding db_ok_def store_ok_def sequences_ok_def imm_runs_def valid_seq_def by auto

lemma db_seq:
  assumes "db_ok env db es" "r \<in> set (db_runs env db)" "x \<in> set r"
  shows "sequence (fst x) \<le> vs_last_sequence (db_versions db)"
proof (cases "r \<in> set (store_runs (db_ops env db) (files db) (db_versions db))")
  case True
  then have "x \<in> version_entries (tables (db_ops env db) (db_name db) (files db)) (vs_current (db_versions db))"
    using set_version_runs [OF layoutD(1) [OF db_okD(7) [OF assms(1)]]] assms(3) db_okD(1) [OF assms(1)] by (auto simp: store_runs_def)
  then show ?thesis using db_okD(1,2) [OF assms(1)] by (simp add: store_ok_def sequences_ok_def)
next
  case False
  then show ?thesis using assms unfolding db_ok_def db_runs_def by auto
qed

section \<open>Reading a key\<close>

definition reads_ok :: "db_env \<Rightarrow> bool" where
  "reads_ok env \<longleftrightarrow> open_status (env_read env) = (\<lambda>_. Status_OK) \<and> snappy_inverse (env_compress env) (env_uncompress env)"

lemma table_lookup_ok:
  assumes "db_ok env db es" "reads_ok env"
  shows "tget_ok (tables (db_ops env db) (db_name db) (files db)) (table_lookup env db) (vs_current (db_versions db))"
  unfolding tget_ok_def list_all_length
proof (intro allI impI)
  let ?v = "vs_current (db_versions db)"
  fix l i assume l: "l < length (vfiles ?v)" "i < length (level_files ?v l)"
  have "l < kNumLevels" using l(1) layoutD(1) [OF db_okD(7) [OF assms(1)]] by simp
  then have "sound_file (db_ops env db) (db_name db) (files db) (level_files ?v l ! i)"
    using db_okD(1,2) [OF assms(1)] l(2) by (simp add: store_ok_def sound_def)
  then show "tget_file_ok (tables (db_ops env db) (db_name db) (files db)) (table_lookup env db) (level_files ?v l ! i)"
    using leveldb_tget_file_ok assms(2) unfolding db_ops_def env_tables_def table_lookup_def table_options_def reads_ok_def by auto
qed

lemma contents_at_run: "runs_ok (db_runs env db) \<Longrightarrow> contents_at env db S uk = Option.bind (newest_run (db_runs env db) S uk) entry_value"
  by (simp add: contents_at_def visible_def newest_merge_runs)

definition get_result :: "bytes option \<Rightarrow> Status \<times> bytes" where
  "get_result r = (case r of Some v \<Rightarrow> (Status_OK, v) | None \<Rightarrow> (Status_NotFound [] [], []))"

lemma DB_Get_result:
  assumes ok: "db_ok env db es" "reads_ok env" and key: "length key + 8 < 2 ^ 32"
    and S: "valid_seq S" "S = (case snapshot of Some n \<Rightarrow> n | None \<Rightarrow> vs_last_sequence (db_versions db))"
  shows "\<exists>db'. DB_Get env db snapshot key = (fst (get_result (contents_at env db S key)), snd (get_result (contents_at env db S key)), db')"
proof -
  let ?v = "vs_current (db_versions db)" and ?T = "tables (db_ops env db) (db_name db) (files db)"
  have mem: "MemTable_Get Bytewise_Compare (LookupKey_new key S) m =
      map_option (\<lambda>e. case entry_value e of Some v \<Rightarrow> Inr v | None \<Rightarrow> Inl (Status_NotFound [] [])) (newest (mem_entries m) S key)"
    if "mem_ok m" for m
    using MemTable_Get_newest [of "mem_entries m" key S] mem_okD(1,2) [OF that] key S(1) by (simp add: wf_entries_def)
  have ver: "fst (Version_Get (table_lookup env db) Bytewise_Compare ?v (LookupKey_new key S)) =
      (case newest_run (version_runs ?T ?v) S key of Some e \<Rightarrow> get_outcome e | None \<Rightarrow> (Status_NotFound [] [], []))"
    by (rule Version_Get_newest [OF layout_version_ok [OF db_okD(7) [OF ok(1)]] table_lookup_ok [OF ok] S(1)])
  have runs: "store_runs (db_ops env db) (files db) (db_versions db) = version_runs ?T ?v"
    using db_okD(1) [OF ok(1)] by (simp add: store_runs_def)
  note cont = contents_at_run [OF db_okD(6) [OF ok(1)], of S key, unfolded db_runs_def runs]
  obtain s v stats where vg: "Version_Get (table_lookup env db) Bytewise_Compare ?v (LookupKey_new key S) = ((s, v), stats)"
    by (metis prod.exhaust)
  note eqs = DB_Get_def S(2) [symmetric] mem [OF db_okD(4) [OF ok(1)]] cont get_result_def get_outcome_def
  show ?thesis
  proof (cases "newest (mem_entries (db_mem db)) S key")
    case (Some e)
    then show ?thesis by (cases "entry_value e") (simp_all add: eqs)
  next
    case None
    show ?thesis
    proof (cases "Option.bind (db_imm db) (\<lambda>m. newest (mem_entries m) S key)")
      case (Some e)
      then obtain m where m: "db_imm db = Some m" "newest (mem_entries m) S key = Some e" by (auto simp: bind_eq_Some_conv)
      then show ?thesis using None mem [OF db_okD(5) [OF ok(1) m(1)]] by (cases "entry_value e") (simp_all add: eqs imm_runs_def)
    next
      case none: None
      then have imm: "Option.bind (db_imm db) (MemTable_Get Bytewise_Compare (LookupKey_new key S)) = None"
        "newest_run (imm_runs db) S key = None"
        using mem [OF db_okD(5) [OF ok(1)]] by (cases "db_imm db"; simp add: imm_runs_def)+
      then show ?thesis
        using None ver vg by (cases "newest_run (version_runs ?T ?v) S key")
          (auto simp: eqs newest_run_append Let_def split: option.splits prod.splits)
    qed
  qed
qed

section \<open>Statistics of reads\<close>

text \<open>The counts of seeks do not matter to the invariant.\<close>

definition same_files :: "Version \<Rightarrow> Version \<Rightarrow> bool" where
  "same_files v v' \<longleftrightarrow> map (map refresh) (vfiles v) = map (map refresh) (vfiles v')"

lemma same_files_level:
  assumes "same_files v v'" "l < length (vfiles v)"
  shows "map refresh (level_files v l) = map refresh (level_files v' l)"
proof -
  have "length (vfiles v) = length (vfiles v')" using assms(1) map_eq_imp_length_eq unfolding same_files_def by blast
  then show ?thesis using assms unfolding same_files_def by (metis nth_map)
qed

lemma refresh_number: "map refresh fs = map refresh gs \<Longrightarrow> map (\<lambda>f. P (number f)) fs = map (\<lambda>f. P (number f)) gs"
proof (induction fs arbitrary: gs)
  case (Cons f fs)
  then obtain g gs' where "gs = g # gs'" "refresh f = refresh g" "map refresh fs = map refresh gs'" by auto
  moreover from this have "number f = number g" using refresh_simps(1) by metis
  ultimately show ?case using Cons.IH [of gs'] by simp
qed simp

lemma layout_cong: "vfiles v = vfiles v' \<Longrightarrow> layout T v = layout T v'"
  by (simp add: layout_def)

lemma layout_refresh: "layout T (v\<lparr>vfiles := map (map refresh) (vfiles v)\<rparr>) = layout T v"
proof (cases "length (vfiles v) = kNumLevels")
  case True
  have at: "files_at (v\<lparr>vfiles := map (map refresh) (vfiles v)\<rparr>) l = refresh ` files_at v l" if "l < kNumLevels" for l
    using True that by simp
  have z: "0 < kNumLevels" by (simp add: kNumLevels_def)
  have sorted: "sorted_wrt BySmallestKey (map refresh fs) = sorted_wrt BySmallestKey fs" "distinct (map number (map refresh fs)) = distinct (map number fs)" for fs
    by (simp_all add: sorted_wrt_map comp_def)
  show ?thesis
    unfolding layout_def using True z at by (simp add: sorted del: map_map)
next
  case False
  then show ?thesis by (simp add: layout_def)
qed

lemma same_files_layout:
  assumes "same_files v v'" "layout T v" shows "layout T v'"
proof -
  have "layout T (v\<lparr>vfiles := map (map refresh) (vfiles v')\<rparr>)" using assms layout_refresh [of T v] by (simp add: same_files_def)
  then have "layout T (v'\<lparr>vfiles := map (map refresh) (vfiles v')\<rparr>)"
    by (rule layout_cong [THEN iffD1, rotated]) simp
  then show ?thesis by (simp only: layout_refresh)
qed

lemma same_files_at:
  assumes "same_files v v'" "l < length (vfiles v)" "f \<in> files_at v' l"
  obtains g where "g \<in> files_at v l" "refresh g = refresh f"
proof -
  have "refresh f \<in> refresh ` files_at v l" using same_files_level [OF assms(1,2)] assms(3) by (metis imageI list.set_map)
  then show ?thesis using that by (metis imageE)
qed

lemma sort_key_refresh: "map refresh fs = map refresh gs \<Longrightarrow> map (\<lambda>f. P (number f)) (rev (sort_key number fs)) = map (\<lambda>f. P (number f)) (rev (sort_key number gs))"
proof -
  have ins: "map refresh (insort_key number x xs) = insort_key number (refresh x) (map refresh xs)" for x xs by (induction xs) auto
  have "map refresh (sort_key number xs) = sort_key number (map refresh xs)" for xs
    by (induction xs) (simp_all add: ins)
  then show "map refresh fs = map refresh gs \<Longrightarrow> ?thesis" unfolding rev_map [symmetric] using refresh_number by metis
qed

lemma same_files_runs:
  assumes "same_files v v'" "vfiles v \<noteq> []" shows "version_runs T v' = version_runs T v"
proof -
  obtain f fs where v: "vfiles v = f # fs" using assms(2) by (cases "vfiles v") auto
  then obtain g gs where v': "vfiles v' = g # gs" "map refresh f = map refresh g" "map (map refresh) fs = map (map refresh) gs"
    using assms(1) by (cases "vfiles v'") (auto simp: same_files_def)
  have "map (run_of T) fs = map (run_of T) gs"
    using v'(3)
  proof (induction fs arbitrary: gs)
    case (Cons a fs)
    then obtain b gs' where "gs = b # gs'" "map refresh a = map refresh b" "map (map refresh) fs = map (map refresh) gs'" by auto
    then show ?case using Cons.IH [of gs'] refresh_number [of a b T] by (simp add: run_of_def)
  qed simp
  then show ?thesis using v v' sort_key_refresh [OF v'(2), of T] by (simp add: version_runs_def level0_runs_def)
qed

lemma same_files_store:
  assumes "same_files (vs_current vs) v'" "store_ok ops fs vs es"
  shows "store_ok ops fs (vs\<lparr>vs_current := v'\<rparr>) es" "store_runs ops fs (vs\<lparr>vs_current := v'\<rparr>) = store_runs ops fs vs"
proof -
  let ?v = "vs_current vs" and ?T = "tables ops (vs_dbname vs) fs"
  have lay: "layout ?T ?v" "layout ?T v'" using assms(2) same_files_layout [OF assms(1)] by (simp_all add: store_ok_def)
  note len = layoutD(1) [OF lay(1)]
  have ne: "vfiles ?v \<noteq> []" using len by (auto simp: kNumLevels_def)
  show runs: "store_runs ops fs (vs\<lparr>vs_current := v'\<rparr>) = store_runs ops fs vs"
    using same_files_runs [OF assms(1) ne] by (simp add: store_runs_def)
  have "levels_ok v' es"
    using assms(2) same_files_level [OF assms(1)] len layoutD(1) [OF lay(2)] by (simp add: store_ok_def manifest_ok_def levels_ok_def)
  then have man: "manifest_ok fs (vs\<lparr>vs_current := v'\<rparr>) es"
    using assms(2) by (simp add: store_ok_def manifest_ok_def logged_def)
  have at: "\<exists>g \<in> files_at ?v l. number g = number f \<and> refresh g = refresh f" if "l < kNumLevels" "f \<in> files_at v' l" for l f
    using same_files_at [OF assms(1) _ that(2)] that(1) len by (metis refresh_simps(1))
  have "numbers_ok (vs\<lparr>vs_current := v'\<rparr>) es"
    unfolding numbers_ok_def
  proof (intro conjI allI impI ballI)
    fix l l' f assume l: "l < kNumLevels" "l' < l" "f \<in> files_at (vs_current (vs\<lparr>vs_current := v'\<rparr>)) l'"
    then obtain g where "g \<in> files_at ?v l'" "number g = number f" using at [of l' f] by auto
    then show "number f \<notin> used_numbers es l" using assms(2) l(1,2) unfolding store_ok_def numbers_ok_def by metis
  qed (use assms(2) in \<open>simp_all add: store_ok_def numbers_ok_def\<close>)
  moreover have "version_entries ?T v' = version_entries ?T ?v"
    using set_version_runs [OF layoutD(1) [OF lay(1)]] set_version_runs [OF layoutD(1) [OF lay(2)]] same_files_runs [OF assms(1) ne] by metis
  moreover have "sound ops (vs_dbname vs) fs v'"
    using assms(2) at sound_file_refresh unfolding store_ok_def sound_def by metis
  ultimately show "store_ok ops fs (vs\<lparr>vs_current := v'\<rparr>) es"
    using man lay(2) assms(2) by (simp add: store_ok_def sequences_ok_def recorded_def)
qed

text \<open>
  A file that is charged for a seek is one of the version and not in the last level, since a second file
  was read after it.
\<close>

definition file_of :: "Version \<Rightarrow> nat \<times> u64 \<Rightarrow> bool" where
  "file_of v fn \<longleftrightarrow> fst fn < kNumLevels \<and> (\<exists>f \<in> files_at v (fst fn). number f = snd fn)"

definition stats_ok :: "Version \<Rightarrow> nat \<Rightarrow> GetStats \<Rightarrow> bool" where
  "stats_ok v level st \<longleftrightarrow> (\<forall>fn. seek_file st = Some fn \<longrightarrow> file_of v fn \<and> Suc (fst fn) < kNumLevels) \<and>
     (\<forall>fn. last_file_read st = Some fn \<longrightarrow> file_of v fn \<and> (fst fn < level \<or> fst fn = 0))"

lemma stats_ok_Suc: "stats_ok v level st \<Longrightarrow> stats_ok v (Suc level) st"
  by (auto simp: stats_ok_def)

lemma Get_files_stats:
  assumes "stats_ok v level st" "set fs \<subseteq> files_at v level" "level < kNumLevels" "level = 0 \<or> length fs \<le> 1"
  shows "stats_ok v (Suc level) (snd (Get_files tget ucmp ik uk level fs st))"
  using assms
proof (induction fs arbitrary: st)
  case Nil
  then show ?case by (simp add: stats_ok_Suc)
next
  case (Cons f fs)
  define st1 where "st1 = (if last_file_read st \<noteq> None \<and> seek_file st = None then st\<lparr>seek_file := last_file_read st\<rparr> else st)
      \<lparr>last_file_read := Some (level, number f)\<rparr>"
  have "\<exists>g \<in> files_at v level. number g = number f" using Cons.prems(2) by auto
  then have f: "file_of v (level, number f)" using Cons.prems(3) by (simp add: file_of_def)
  have one: "Suc 0 < kNumLevels" by (simp add: kNumLevels_def)
  have suc: "stats_ok v (Suc level) st1"
    using Cons.prems(1,3) f one by (auto simp: stats_ok_def st1_def)
  have rest: "stats_ok v (Suc level) (snd (Get_files tget ucmp ik uk level fs st1))"
  proof (cases "level = 0")
    case True
    then have "stats_ok v level st1" using Cons.prems(1,3) f one by (auto simp: stats_ok_def st1_def)
    then show ?thesis using Cons.IH Cons.prems True by simp
  next
    case False
    then show ?thesis using suc Cons.prems(4) by simp
  qed
  obtain s found where t: "tget (number f) (file_size f) ik = (s, found)" by fastforce
  have "snd (Get_files tget ucmp ik uk level (f # fs) st) \<in> {st1, snd (Get_files tget ucmp ik uk level fs st1)}"
    using t by (auto simp: st1_def Let_def split: option.splits prod.splits SaverState.splits)
  then show ?case using suc rest by auto
qed

lemma Get_candidates_files:
  "set (Get_candidates ucmp ik uk level fs) \<subseteq> set fs \<and> (level = 0 \<or> length (Get_candidates ucmp ik uk level fs) \<le> 1)"
  by (auto simp: Get_candidates_def Let_def)

lemma Get_levels_stats:
  assumes "stats_ok v level st" "lvls = drop level (vfiles v)" "length (vfiles v) = kNumLevels" "level \<le> kNumLevels"
  shows "\<exists>l. stats_ok v l (snd (Get_levels tget ucmp ik uk level lvls st))"
  using assms
proof (induction lvls arbitrary: level st)
  case Nil
  then show ?case by auto
next
  case (Cons fs lvls)
  then have l: "level < kNumLevels" "fs = level_files v level" "lvls = drop (Suc level) (vfiles v)"
    by (metis drop_all list.distinct(1) not_le, metis hd_drop_conv_nth list.distinct(1) list.sel(1) drop_all not_le,
        metis drop_Suc list.sel(3) tl_drop)
  let ?c = "Get_candidates ucmp ik uk level fs"
  obtain r st1 where g: "Get_files tget ucmp ik uk level ?c st = (r, st1)" by fastforce
  have st1: "stats_ok v (Suc level) st1"
    using Get_files_stats [OF Cons.prems(1), of ?c tget ucmp ik uk] Get_candidates_files [of ucmp ik uk level fs] l g by auto
  show ?case using g st1 Cons.IH [OF st1 l(3) Cons.prems(3)] l(1) by (cases r) auto
qed

lemma Version_Get_stats:
  assumes "length (vfiles v) = kNumLevels" "seek_file (snd (Version_Get tget ucmp v k)) = Some (l, n)"
  shows "Suc l < kNumLevels" "\<exists>f \<in> files_at v l. number f = n"
proof -
  have "stats_ok v 0 \<lparr>seek_file = None, last_file_read = None\<rparr>" by (simp add: stats_ok_def)
  from Get_levels_stats [OF this _ assms(1) le0, of "vfiles v"] assms(2)
  show "Suc l < kNumLevels" "\<exists>f \<in> files_at v l. number f = n" by (auto simp: Version_Get_def stats_ok_def file_of_def)
qed

lemma UpdateStats_files:
  assumes "UpdateStats v st = (b, v')" "\<And>l n. seek_file st = Some (l, n) \<Longrightarrow> Suc l < kNumLevels \<and> (\<exists>f \<in> files_at v l. number f = n)"
    and "pickable v" "length (vfiles v) = kNumLevels"
  shows "same_files v v' \<and> pickable v' \<and> (scored v \<longrightarrow> scored v')"
proof (cases "seek_file st")
  case None
  then show ?thesis using assms by (simp add: UpdateStats_def same_files_def)
next
  case (Some fn)
  obtain l n where fn: "fn = (l, n)" by fastforce
  let ?dec = "\<lambda>f. if number f = n then f\<lparr>allowed_seeks := allowed_seeks f - 1\<rparr> else f"
  let ?fss = "(vfiles v)[l := map ?dec (level_files v l)]"
  have l: "Suc l < kNumLevels" "\<exists>f \<in> files_at v l. number f = n" using assms(2) Some fn by auto
  have v': "vfiles v' = ?fss" "compaction_score v' = compaction_score v" "compaction_level v' = compaction_level v"
      "file_to_compact v' = file_to_compact v \<or> file_to_compact v' = Some (l, n)"
    using assms(1) Some fn by (auto simp: UpdateStats_def Let_def split: if_splits)
  have dec: "refresh (?dec f) = refresh f" "number (?dec f) = number f" for f by (simp_all add: refresh_def)
  have "map refresh (map ?dec fs) = map refresh fs" for fs by (simp add: dec)
  moreover have "(map (map refresh) (vfiles v))[l := map refresh (level_files v l)] = map (map refresh) (vfiles v)"
    using l(1) assms(4) by (metis Suc_lessD list_update_id nth_map)
  ultimately have same: "same_files v v'"
    unfolding same_files_def v'(1) map_update by metis
  have at: "\<exists>g \<in> files_at v' k. number g = number f" if "f \<in> files_at v k" "k < kNumLevels" for f k
  proof -
    have "same_files v' v" "k < length (vfiles v')" using same that(2) assms(4) by (simp_all add: same_files_def v'(1))
    from same_files_at [OF this that(1)] show ?thesis by (metis refresh_simps(1))
  qed
  have ne: "level_files v' k \<noteq> []" if "level_files v k \<noteq> []" "k < kNumLevels" for k
    using same_files_level [OF same, of k] that assms(4) by auto
  have "pickable v'"
    unfolding pickable_def
  proof (intro conjI allI impI)
    fix l' n' assume "file_to_compact v' = Some (l', n')"
    then have "Suc l' < kNumLevels \<and> (\<exists>f \<in> files_at v l'. number f = n')" using v'(4) l assms(3) unfolding pickable_def by (metis option.inject prod.inject)
    then show "Suc l' < kNumLevels" "\<exists>f \<in> files_at v' l'. number f = n'" using at [of _ l'] by (auto dest: Suc_lessD)
  next
    assume "1 \<le> compaction_score v'"
    then have c: "compaction_level v \<ge> 0" "Suc (nat (compaction_level v)) < kNumLevels" "level_files v (nat (compaction_level v)) \<noteq> []"
      using assms(3) by (simp_all add: pickable_def v')
    then show "0 \<le> compaction_level v'" "Suc (nat (compaction_level v')) < kNumLevels" "level_files v' (nat (compaction_level v')) \<noteq> []"
      using ne [OF c(3)] by (simp_all add: v'(3) Suc_lessD)
  qed
  moreover have "scored v'" if "scored v"
  proof -
    have "0 < length (vfiles v)" using assms(4) by (simp add: kNumLevels_def)
    from same_files_level [OF same this] have "length (level_files v' 0) = length (level_files v 0)" by (metis length_map)
    then show ?thesis using that by (simp add: scored_def level_score_def v'(2))
  qed
  ultimately show ?thesis using same by simp
qed

lemma db_ok_stats:
  assumes ok: "db_ok env db es" and v: "same_files (vs_current (db_versions db)) v'" "pickable v'" "scored v'"
  defines "db' \<equiv> db\<lparr>db_versions := (db_versions db)\<lparr>vs_current := v'\<rparr>\<rparr>"
  shows "db_ok env db' es" "db_runs env db' = db_runs env db"
proof -
  have ops: "db_ops env db' = db_ops env db" "imm_runs db' = imm_runs db" by (simp_all add: db_ops_def imm_runs_def db'_def)
  note st = same_files_store [OF v(1) db_okD(2) [OF ok]]
  show runs: "db_runs env db' = db_runs env db" using st(2) ops by (simp add: db_runs_def) (simp add: db'_def)
  show "db_ok env db' es"
    using ok st(1) v(2,3) runs ops unfolding db_ok_def by (simp add: db'_def)
qed

lemma db_ok_schedule [simp]: "db_ok env (MaybeScheduleCompaction db) es = db_ok env db es"
  "db_runs env (MaybeScheduleCompaction db) = db_runs env db"
  by (simp_all add: MaybeScheduleCompaction_def db_ok_def db_runs_def imm_runs_def db_ops_def)

text \<open>A \<open>Get\<close> changes the statistics only.\<close>

text \<open>A read changes at most the statistics, and schedules a compaction when they ask for one.\<close>

lemma DB_Get_cases:
  assumes "db_ok env db es" "DB_Get env db snapshot key = (s, v, db')"
  obtains (same) "db' = db"
  | (stats) b ver where "same_files (vs_current (db_versions db)) ver" "pickable ver" "scored ver"
      "compaction_score ver = compaction_score (vs_current (db_versions db))" "b \<or> file_to_compact ver = file_to_compact (vs_current (db_versions db))"
      "db' = (if b then MaybeScheduleCompaction (db\<lparr>db_versions := (db_versions db)\<lparr>vs_current := ver\<rparr>\<rparr>)
              else db\<lparr>db_versions := (db_versions db)\<lparr>vs_current := ver\<rparr>\<rparr>)"
proof -
  let ?v = "vs_current (db_versions db)"
  let ?k = "LookupKey_new key (case snapshot of Some n \<Rightarrow> n | None \<Rightarrow> vs_last_sequence (db_versions db))"
  obtain s1 v1 st where g: "Version_Get (table_lookup env db) Bytewise_Compare ?v ?k = ((s1, v1), st)" by (metis prod.exhaust)
  obtain b ver where u: "UpdateStats ?v st = (b, ver)" by fastforce
  note len = layoutD(1) [OF db_okD(7) [OF assms(1)]]
  have u2: "same_files ?v ver \<and> pickable ver \<and> (scored ?v \<longrightarrow> scored ver)"
    by (rule UpdateStats_files [OF u _ db_okD(3) [OF assms(1)] len]) (use Version_Get_stats [OF len, of "table_lookup env db" Bytewise_Compare ?k] g in simp)
  have "compaction_score ver = compaction_score ?v" "b \<or> file_to_compact ver = file_to_compact ?v"
    using u by (auto simp: UpdateStats_def Let_def split: option.splits if_splits prod.splits)
  moreover let ?db = "db\<lparr>db_versions := (db_versions db)\<lparr>vs_current := ver\<rparr>\<rparr>"
  have "db' = db \<or> db' = (if b then MaybeScheduleCompaction ?db else ?db)"
    using assms(2) g u by (auto simp: DB_Get_def Let_def split: option.splits sum.splits if_splits)
  ultimately show thesis using u2 db_okD(12) [OF assms(1)] same stats by blast
qed

lemma DB_Get_keeps:
  assumes "db_ok env db es" "DB_Get env db snapshot key = (s, v, db')"
  shows "db_ok env db' es" "db_runs env db' = db_runs env db"
proof -
  have "db_ok env db' es \<and> db_runs env db' = db_runs env db"
    using assms
  proof (cases rule: DB_Get_cases)
    case (stats b ver)
    then show ?thesis using db_ok_stats [OF assms(1) stats(1-3)] by simp
  qed (use assms(1) in simp)
  then show "db_ok env db' es" "db_runs env db' = db_runs env db" by simp_all
qed

section \<open>Iterating\<close>

lemma sorted_entries_unique:
  assumes "sorted_wrt entry_less xs" "sorted_wrt entry_less ys" "set xs = set ys"
  shows "xs = ys"
  using assms
proof (induction xs arbitrary: ys)
  case (Cons x xs)
  then obtain y ys' where y: "ys = y # ys'" by (cases ys) auto
  have irr: "\<not> entry_less a a" for a by (simp add: entry_less_def ikey_less_irrefl)
  have "x = y"
  proof (rule ccontr)
    assume "x \<noteq> y"
    then have "entry_less x y" "entry_less y x" using Cons.prems y by auto
    then show False using entry_less_trans irr by blast
  qed
  moreover have "x \<notin> set xs" "y \<notin> set ys'" using Cons.prems(1,2) y irr by auto
  ultimately have "set xs = set ys'" using Cons.prems(3) y by auto
  then show ?case using Cons.IH [of ys'] Cons.prems(1,2) y \<open>x = y\<close> by simp
qed simp

text \<open>The order of the runs and empty runs do not matter to the merge.\<close>

lemma merge_runs_mset:
  assumes "runs_ok rs" "mset (concat rs') = mset (concat rs)"
  shows "merge_runs rs' = merge_runs rs"
proof (rule sorted_entries_unique)
  have "distinct (map fst (concat rs'))"
    using runs_distinct [OF assms(1)] assms(2) by (metis mset_eq_imp_distinct_iff mset_map)
  then show "sorted_wrt entry_less (merge_runs rs')" using sorted_foldr_insert [of "concat rs'" "[]"] by (simp add: merge_runs_def)
  show "sorted_wrt entry_less (merge_runs rs)" using wf_merge_runs [OF assms(1)] by (simp add: wf_entries_def)
  show "set (merge_runs rs') = set (merge_runs rs)"
    using mset_eq_setD [OF assms(2)] by (simp add: merge_runs_def set_foldr_insert)
qed

lemma mset_AddIterators:
  assumes "length (vfiles v) = kNumLevels"
  shows "mset (concat (AddIterators T v)) = mset (concat (version_runs T v))"
proof -
  obtain f0 fss where v: "vfiles v = f0 # fss" using assms by (cases "vfiles v") (auto simp: kNumLevels_def)
  have "mset (concat (map g (rev (sort_key number f0)))) = mset (concat (map g f0))" for g :: "FileMetaData \<Rightarrow> entry list"
  proof -
    have "mset (concat (map g xs)) = (\<Sum>x \<in># mset xs. mset (g x))" for xs by (induction xs) simp_all
    then show ?thesis by simp
  qed
  then have l0: "mset (concat (map (\<lambda>f. T (number f)) (level_files v 0))) = mset (concat (level0_runs T f0))"
    by (simp add: level0_runs_def v)
  have skip: "concat (map (\<lambda>l. run_of T (level_files v l)) (filter (\<lambda>l. level_files v l \<noteq> []) ls)) =
      concat (map (\<lambda>l. run_of T (level_files v l)) ls)" for ls
    by (induction ls) (simp_all add: run_of_def)
  have "map (\<lambda>l. run_of T (level_files v l)) [1..<kNumLevels] = map (run_of T) fss"
    using assms v by (intro nth_equalityI) (simp_all del: upt_Suc)
  then show ?thesis using l0 skip [of "[1..<kNumLevels]"] by (simp add: AddIterators_def version_runs_def v)
qed

lemma NewInternalIterator_entries:
  assumes "db_ok env db es"
  shows "NewInternalIterator env db =
    (\<lparr>ientries = map raw_entry (merge_runs (db_runs env db)), ipos = length (merge_runs (db_runs env db))\<rparr>, vs_last_sequence (db_versions db))"
proof -
  let ?rs = "[mem_entries (db_mem db)] @ imm_runs db @ AddIterators (table_entries env db) (vs_current (db_versions db))"
  have "mset (concat ?rs) = mset (concat (db_runs env db))"
    using mset_AddIterators [OF layoutD(1) [OF db_okD(7) [OF assms]], of "table_entries env db"] db_okD(1) [OF assms]
    by (simp add: db_runs_def store_runs_def table_entries_def db_ops_def)
  from merge_runs_mset [OF db_okD(6) [OF assms] this] show ?thesis
    by (simp add: NewInternalIterator_def Let_def imm_runs_def)
qed

end
