(* ===== verification/DB_Background.thy ===== *)
theory DB_Background
  imports DB_Contents
begin

text \<open>
  The background work of a database, when no call of the environment fails: writing the full memtable to a
  table, moving a table to the next level, compactions, and the removal of obsolete files. All of it keeps
  the invariant and the contents, and brings the levels nearer to a state that needs no more work.
\<close>

section \<open>Files\<close>

lemma layout_tables:
  assumes "layout T v" "\<And>l f. l < kNumLevels \<Longrightarrow> f \<in> files_at v l \<Longrightarrow> T' (number f) = T (number f)"
  shows "layout T' v"
proof -
  have z: "0 < kNumLevels" by (simp add: kNumLevels_def)
  have ent: "file_entries T' (files_at v l) = file_entries T (files_at v l)" if "l < kNumLevels" for l
    using assms(2) that by (intro file_entries_cong) auto
  note lay = layoutD [OF assms(1)]
  show ?thesis
    unfolding layout_def
  proof (intro conjI allI impI ballI)
    show "file_ok T' f" if "l < kNumLevels" "f \<in> files_at v l" for l f using lay(4) [OF that] assms(2) [OF that] file_ok_cong by metis
    show "newer (set (T' (number f))) (set (T' (number g)))" if "f \<in> files_at v 0" "g \<in> files_at v 0" "number g < number f" for f g
      using lay(5) [OF that] assms(2) [OF z that(1)] assms(2) [OF z that(2)] by simp
    show "newer (file_entries T' (files_at v l')) (file_entries T' (files_at v l))" if "l < kNumLevels" "l' < l" for l l'
      using lay(6) [OF that] ent [OF that(1)] ent [OF less_trans [OF that(2,1)]] by simp
  qed (use lay in auto)
qed

lemma version_runs_tables:
  assumes "length (vfiles v) = kNumLevels" "\<And>l f. l < kNumLevels \<Longrightarrow> f \<in> files_at v l \<Longrightarrow> T' (number f) = T (number f)"
  shows "version_runs T' v = version_runs T v"
proof -
  obtain f0 fss where v: "vfiles v = f0 # fss" using assms(1) by (cases "vfiles v") (auto simp: kNumLevels_def)
  have "T' (number f) = T (number f)" if f: "f \<in> set f0" for f using assms(2) [of 0 f] f by (simp add: v kNumLevels_def)
  moreover have "run_of T' fs = run_of T fs" if fs: "fs \<in> set fss" for fs
  proof -
    obtain i where i: "i < length fss" "fs = fss ! i" using fs by (metis in_set_conv_nth)
    have "T' (number f) = T (number f)" if "f \<in> set fs" for f
      using assms(2) [of "Suc i" f] assms(1) that i v by simp
    then show ?thesis by (simp add: run_of_def cong: map_cong)
  qed
  ultimately show ?thesis by (simp add: version_runs_def level0_runs_def v)
qed

lemma weight_tables:
  assumes "\<And>l f. l < kNumLevels \<Longrightarrow> f \<in> files_at v l \<Longrightarrow> map_of fs' (TableFileName db (number f)) = map_of fs (TableFileName db (number f))"
  shows "weight (tables ops db fs') v = weight (tables ops db fs) v"
proof -
  have "file_entries (tables ops db fs') (files_at v l) = file_entries (tables ops db fs) (files_at v l)" if "l < kNumLevels" for l
    by (rule file_entries_cong) (rule tables_cong [OF assms [OF that]])
  then show ?thesis by (simp add: weight_def)
qed

text \<open>The store depends on the files that it names only.\<close>

lemma store_ok_files:
  assumes ok: "store_ok ops fs vs es"
    and dsc: "map_of fs' (DescriptorFileName (vs_dbname vs) (vs_manifest vs)) = map_of fs (DescriptorFileName (vs_dbname vs) (vs_manifest vs))"
    and cur: "map_of fs' (CurrentFileName (vs_dbname vs)) = map_of fs (CurrentFileName (vs_dbname vs))"
    and tab: "\<And>l f. l < kNumLevels \<Longrightarrow> f \<in> files_at (vs_current vs) l \<Longrightarrow>
      map_of fs' (TableFileName (vs_dbname vs) (number f)) = map_of fs (TableFileName (vs_dbname vs) (number f))"
  shows "store_ok ops fs' vs es" "store_runs ops fs' vs = store_runs ops fs vs"
proof -
  let ?T = "tables ops (vs_dbname vs) fs" and ?T' = "tables ops (vs_dbname vs) fs'" and ?v = "vs_current vs"
  have T: "?T' (number f) = ?T (number f)" if "l < kNumLevels" "f \<in> files_at ?v l" for l f
    by (rule tables_cong [OF tab [OF that]])
  have lay: "layout ?T ?v" using ok by (simp add: store_ok_def)
  have lay': "layout ?T' ?v" by (rule layout_tables [OF lay]) (erule (1) T)
  have vr: "version_runs ?T' ?v = version_runs ?T ?v" by (rule version_runs_tables [OF layoutD(1) [OF lay]]) (erule (1) T)
  then show runs: "store_runs ops fs' vs = store_runs ops fs vs" by (simp add: store_runs_def)
  have "manifest_ok fs' vs es" using ok dsc cur by (simp add: store_ok_def manifest_ok_def current_names_def)
  moreover have "version_entries ?T' ?v = version_entries ?T ?v"
    using set_version_runs [OF layoutD(1) [OF lay]] vr by metis
  moreover have "sound ops (vs_dbname vs) fs' ?v"
    using ok sound_file_cong [OF tab] unfolding store_ok_def sound_def by blast
  ultimately show "store_ok ops fs' vs es" using ok lay' by (simp add: store_ok_def sequences_ok_def recorded_def)
qed

text \<open>Obsolete files are the ones that \<open>KeepFile\<close> does not keep.\<close>

lemma DeleteObsoleteFiles_keeps:
  assumes "\<And>name n type. f = db_name db @ cstr ''/'' @ name \<Longrightarrow> ParseFileName name = Some (n, type) \<Longrightarrow>
    KeepFile db (AddLiveFiles (readers db) (db_versions db) (pending_outputs db)) n type"
  shows "map_of (files (DeleteObsoleteFiles env db)) f = map_of (files db) f"
proof -
  let ?live = "AddLiveFiles (readers db) (db_versions db) (pending_outputs db)"
  let ?step = "\<lambda>name fs. case ParseFileName name of
               None \<Rightarrow> fs
             | Some (n, type) \<Rightarrow>
                 let fname = db_name db @ cstr ''/'' @ name
                 in if KeepFile db ?live n type \<or> \<not> Status_ok (env_delete env fname) then fs else AList.delete fname fs"
  have step: "map_of (?step name fs) f = map_of fs f" for name fs
    using assms by (cases "f = db_name db @ cstr ''/'' @ name") (auto simp: Let_def delete_conv split: option.splits)
  have "map_of (fold ?step names fs) f = map_of fs f" for names fs
    by (induction names arbitrary: fs) (simp_all add: step del: option.case_eq_if)
  then show ?thesis by (simp add: DeleteObsoleteFiles_def Let_def)
qed

text \<open>Names of log files.\<close>

definition log_name :: "bytes \<Rightarrow> bytes \<Rightarrow> u64 \<Rightarrow> bool" where
  "log_name db f n \<longleftrightarrow> ParseFileName (drop (length db + 1) f) = Some (n, kLogFile)"

lemma log_name_neq:
  assumes "log_name db f n"
  shows "f \<noteq> DescriptorFileName db m" "f \<noteq> TableFileName db m" "f \<noteq> CurrentFileName db" "f \<noteq> TempFileName db m"
  using assms file_names_parse [of db] unfolding log_name_def by (metis FileType.distinct option.inject prod.inject)+

lemma log_name_self [simp]: "log_name db (LogFileName db n) n"
  by (simp only: log_name_def file_names_parse)

lemma name_parts:
  "f = db @ cstr ''/'' @ name \<Longrightarrow> name = drop (length db + 1) f"
  by (simp add: cstr_def)

lemma DeleteObsoleteFiles_ok:
  assumes "db_ok env db es"
  shows "db_ok env (DeleteObsoleteFiles env db) es" "db_runs env (DeleteObsoleteFiles env db) = db_runs env db"
    and "log_name (db_name db) f n \<Longrightarrow> n \<ge> vs_log_number (db_versions db) \<or> n = vs_prev_log (db_versions db) \<Longrightarrow>
      map_of (files (DeleteObsoleteFiles env db)) f = map_of (files db) f"
    and "l < kNumLevels \<Longrightarrow> g \<in> files_at (vs_current (db_versions db)) l \<Longrightarrow>
      map_of (files (DeleteObsoleteFiles env db)) (TableFileName (db_name db) (number g)) = map_of (files db) (TableFileName (db_name db) (number g))"
proof -
  let ?db = "DeleteObsoleteFiles env db" and ?name = "db_name db" and ?vs = "db_versions db"
  have upd: "?db = db\<lparr>files := files ?db\<rparr>" by (simp add: DeleteObsoleteFiles_def)
  have keeps: "map_of (files ?db) f = map_of (files db) f"
    if "ParseFileName (drop (length ?name + 1) f) = Some (n, t)"
      "KeepFile db (AddLiveFiles (readers db) ?vs (pending_outputs db)) n t" for f n t
    using that name_parts by (intro DeleteObsoleteFiles_keeps) (metis option.inject prod.inject)
  note parse = file_names_parse [of ?name]
  have len: "length (vfiles (vs_current ?vs)) = kNumLevels" using layoutD(1) [OF db_okD(7) [OF assms]] .
  have live: "number f \<in> AddLiveFiles (readers db) ?vs (pending_outputs db)" if "l < kNumLevels" "f \<in> files_at (vs_current ?vs) l" for l f
  proof -
    have "f \<in> \<Union> (set ` set (vfiles (vs_current ?vs)))" using that len by (metis UN_I nth_mem)
    then show ?thesis using len by (simp add: AddLiveFiles_def)
  qed
  have name: "vs_dbname ?vs = ?name" by (rule db_okD(1) [OF assms])
  have st: "store_ok (db_ops env db) (files ?db) ?vs es" "store_runs (db_ops env db) (files ?db) ?vs = store_runs (db_ops env db) (files db) ?vs"
    by (rule store_ok_files [OF db_okD(2) [OF assms]];
        use name live parse in \<open>simp add: keeps [OF parse(5)] keeps [OF parse(6)] keeps [OF parse(2)] KeepFile_def\<close>)+
  have ops: "db_ops env ?db = db_ops env db" "imm_runs ?db = imm_runs db" "db_versions ?db = ?vs" "db_mem ?db = db_mem db" "db_name ?db = ?name"
      "db_imm ?db = db_imm db"
    by (subst upd, simp add: db_ops_def imm_runs_def)+
  show runs: "db_runs env ?db = db_runs env db" using st(2) ops by (simp add: db_runs_def)
  show "db_ok env ?db es" using assms st(1) runs ops unfolding db_ok_def by simp
  show "map_of (files ?db) (TableFileName ?name (number g)) = map_of (files db) (TableFileName ?name (number g))"
    if "l < kNumLevels" "g \<in> files_at (vs_current ?vs) l"
    using keeps [OF parse(2)] live [OF that] by (simp add: KeepFile_def)
  show "map_of (files ?db) f = map_of (files db) f" if "log_name ?name f n" "n \<ge> vs_log_number ?vs \<or> n = vs_prev_log ?vs"
    using keeps [OF that(1) [unfolded log_name_def]] that(2) by (simp add: KeepFile_def)
qed

section \<open>Adding a table\<close>

text \<open>A version set in which a table of entries newer than all others is installed.\<close>

lemma add_table_store:
  assumes ok: "store_ok ops fs vs es" and law: "table_law ops"
    and new: "wf_entries xs" "xs \<noteq> []" "entries_size xs < 2 ^ 31" "newer (set xs) (version_entries (tables ops (vs_dbname vs) fs) (vs_current vs))"
      "\<And>x. x \<in> set xs \<Longrightarrow> sequence (fst x) \<le> vs_last_sequence vs"
    and n: "n = vs_next_file vs" "n < n + 1" "fsize = word_of_nat (length (tb_Finish ops (map raw_entry xs)))"
    and fs1: "fs1 = AList.update (TableFileName (vs_dbname vs) n) (tb_Finish ops (map raw_entry xs)) fs"
    and e: "new_files e = [(l, new_FileMetaData n fsize (ikey (hd xs)) (ikey (last xs)))]" "deleted_files e = []" "edit_ok e"
    and l: "l < kNumLevels" "0 < l \<longrightarrow> (\<forall>k \<le> l. \<forall>f \<in> files_at (vs_current vs) k.
      apart f (new_FileMetaData n fsize (ikey (hd xs)) (ikey (last xs))))"
    and r: "LogAndApply no_manifest_failures fs1 (vs\<lparr>vs_next_file := n + 1\<rparr>) e = (s, vs', fs')"
  shows "Status_ok s" "store_ok ops fs' vs' (es @ [CompleteEdit (vs\<lparr>vs_next_file := n + 1\<rparr>) e])"
    "vs_current vs' = Finalize (apply_edit e (vs_current vs))"
    "\<Union> (set ` set (store_runs ops fs' vs')) = set xs \<union> \<Union> (set ` set (store_runs ops fs vs))"
    "installed (vs\<lparr>vs_next_file := n + 1\<rparr>) e fs1 vs' fs'"
    "weight (tables ops (vs_dbname vs) fs') (vs_current vs') \<le> weight (tables ops (vs_dbname vs) fs) (vs_current vs) + kNumLevels * length xs"
proof -
  let ?db = "vs_dbname vs" and ?v = "vs_current vs" and ?f = "new_FileMetaData n fsize (ikey (hd xs)) (ikey (last xs))"
  let ?T = "tables ops ?db fs" and ?T1 = "tables ops ?db fs1" and ?v' = "apply_edit e (vs_current vs)"
  have man: "manifest_ok fs vs es" and lay: "layout ?T ?v" and nums: "numbers_ok vs es" and seqs: "sequences_ok ?T vs"
    using ok by (simp_all add: store_ok_def)
  note lay' = layoutD [OF lay]
  have used: "number g \<in> used_numbers es k" "number g < n" if "k < kNumLevels" "g \<in> files_at ?v k" for k g
    using files_used [OF _ that] man nums that(1) n(1) by (auto simp: manifest_ok_def numbers_ok_def)
  have fresh: "n \<notin> used_numbers es k" if "k < kNumLevels" for k using nums that n(1) by (auto simp: numbers_ok_def)
  have fs1_other: "map_of fs1 f = map_of fs f" if "f \<noteq> TableFileName ?db n" for f using that by (simp add: fs1 update_conv)
  have fs1_n: "map_of fs1 (TableFileName ?db n) = Some (tb_Finish ops (map raw_entry xs))" by (simp add: fs1 update_conv)
  have nto: "new_tables_only vs fs fs1" unfolding new_tables_only_def using fs1_other n(1) by (metis less_irrefl)
  have T1: "?T1 (number g) = ?T (number g)" if "k < kNumLevels" "g \<in> files_at ?v k" for k g
    using used(2) [OF that] by (intro tables_cong fs1_other) auto
  have T1n: "?T1 n = xs" using fs1_n law new by (simp add: tables_def table_law_def)
  have fok: "file_ok ?T1 ?f" using new T1n by (simp add: file_ok_def new_FileMetaData_def)
  have lev: "at_level k (new_files e) = (if k = l then [?f] else [])" "at_level k (deleted_files e) = []" for k
    using e(1,2) by (simp_all add: at_level_def)
  have fe: "fresh_edit es e" using fresh by (simp add: fresh_edit_def fresh_at_def lev new_FileMetaData_def)
  have fa: "fresh_at e k (number ` files_at ?v k)" if "k < kNumLevels" for k
    using used(2) [OF that] by (auto simp: fresh_at_def lev new_FileMetaData_def)
  note app = apply_edit_files [OF _ fa lay'(2) lay'(3)]
  have at: "files_at ?v' k = (if k = l then insert (refresh ?f) (files_at ?v k) else files_at ?v k)" if "k < kNumLevels" for k
    using app(1) [OF that that that that] by (auto simp: lev)
  have lay1: "layout ?T1 ?v'"
  proof (rule layout_add [OF lay l(1), where f = "refresh ?f"])
    show "length (vfiles ?v') = kNumLevels" by simp
    show "sorted_wrt BySmallestKey (level_files ?v' k)" "distinct (map number (level_files ?v' k))" if "k < kNumLevels" for k
      using app(2,3) that by blast+
    show "files_at ?v' k = files_at ?v k" if "k < kNumLevels" "k \<noteq> l" for k using at [OF that(1)] that(2) by simp
    show "files_at ?v' l = insert (refresh ?f) (files_at ?v l)" using at [OF l(1)] by simp
    show "newer (set (?T1 (number (refresh ?f)))) (version_entries ?T ?v)" using new(4) T1n by (simp add: new_FileMetaData_def)
    show "number g < number (refresh ?f)" if "g \<in> files_at ?v 0" for g using used(2) [of 0 g] that by (simp add: new_FileMetaData_def kNumLevels_def)
  qed (use T1 fok l(2) in simp_all)
  have fent: "file_entries ?T1 (files_at ?v' k) = (if k = l then set xs else {}) \<union> file_entries ?T (files_at ?v k)" if k: "k < kNumLevels" for k
    using at [OF k] T1 [OF k] T1n by (auto simp: file_entries_def new_FileMetaData_def)
  then have ents: "version_entries ?T1 ?v' = set xs \<union> version_entries ?T ?v"
    unfolding version_entries_def using l(1) by (auto split: if_splits)
  have next1: "vs_next_file vs \<le> n + 1" using n by (simp add: order.strict_implies_order)
  have vs1: "vs\<lparr>vs_next_file := n + 1\<rparr> = vs\<lparr>vs_next_file := n + 1, vs_last_sequence := vs_last_sequence vs\<rparr>" by simp
  have man1: "manifest_ok fs1 (vs\<lparr>vs_next_file := n + 1\<rparr>) es" using manifest_ok_new_tables [OF man nto next1 order_refl] by simp
  show s: "Status_ok s" using LogAndApply_open_succeeds [OF man1 e(3) fe] r by simp
  have snd: "sound ops ?db fs1 ?v'"
    unfolding sound_def
  proof (intro allI impI ballI)
    fix k f assume k: "k < kNumLevels" and f: "f \<in> files_at ?v' k"
    have "sound_file ops ?db fs1 ?f" unfolding sound_file_def using new(1-3) fs1_n n(3) by (intro exI [of _ xs]) (simp add: new_FileMetaData_def)
    moreover have "sound_file ops ?db fs1 g" if g: "g \<in> files_at ?v k" for g
    proof -
      have "map_of fs1 (TableFileName ?db (number g)) = map_of fs (TableFileName ?db (number g))" using used(2) [OF k g] by (intro fs1_other) auto
      then show ?thesis using ok k g sound_file_cong unfolding store_ok_def sound_def by blast
    qed
    ultimately show "sound_file ops ?db fs1 f" using f at [OF k] by (auto split: if_splits)
  qed
  have num: "number f < n + 1" if "(k, f) \<in> set (new_files e)" for k f using that e(1) n(2) by (simp add: new_FileMetaData_def)
  have cross: "number f \<notin> used_numbers es k \<union> number ` set (at_level k (new_files e))"
    if "k < kNumLevels" "k' < k" "f \<in> files_at ?v' k'" for k k' f
    using that at [of k'] nums fresh [of k] used(2) [of k' f] l(1) unfolding numbers_ok_def lev
    by (auto simp: new_FileMetaData_def split: if_splits)
  have sq: "sequence (fst x) \<le> vs_last_sequence vs" if "x \<in> version_entries ?T1 ?v'" for x
    using that new(5) seqs unfolding ents sequences_ok_def by blast
  have last_ok: "vs_last_sequence vs < kMaxSequenceNumber" using seqs by (simp add: sequences_ok_def)
  have nf: "manifest_outcomes no_manifest_failures = []" by (simp add: no_manifest_failures_def)
  note inst = install [OF ok nto vs1 next1 order_refl e(3) fe num cross lay1 sq last_ok snd r nf s]
  show "store_ok ops fs' vs' (es @ [CompleteEdit (vs\<lparr>vs_next_file := n + 1\<rparr>) e])" "vs_current vs' = Finalize ?v'"
    "installed (vs\<lparr>vs_next_file := n + 1\<rparr>) e fs1 vs' fs'" using inst by simp_all
  have "weight ?T1 ?v' \<le> weight ?T ?v + kNumLevels * length xs"
  proof -
    have "(kNumLevels - k) * card (file_entries ?T1 (files_at ?v' k)) \<le>
        (kNumLevels - k) * card (file_entries ?T (files_at ?v k)) + (if k = l then kNumLevels * length xs else 0)" if k: "k < kNumLevels" for k
    proof (cases "k = l")
      case True
      have "card (file_entries ?T1 (files_at ?v' k)) \<le> card (file_entries ?T (files_at ?v k)) + length xs"
        unfolding fent [OF k] using True card_Un_le [of "set xs" "file_entries ?T (files_at ?v k)"] card_length [of xs] by simp
      then have "(kNumLevels - k) * card (file_entries ?T1 (files_at ?v' k)) \<le> (kNumLevels - k) * (card (file_entries ?T (files_at ?v k)) + length xs)"
        by (rule mult_le_mono2)
      moreover have "(kNumLevels - k) * length xs \<le> kNumLevels * length xs" by (intro mult_le_mono1) simp
      ultimately have "(kNumLevels - k) * card (file_entries ?T1 (files_at ?v' k)) \<le>
          (kNumLevels - k) * card (file_entries ?T (files_at ?v k)) + kNumLevels * length xs" unfolding distrib_left by linarith
      then show ?thesis using True by simp
    qed (simp add: fent [OF k])
    then have "weight ?T1 ?v' \<le> (\<Sum>k < kNumLevels. (kNumLevels - k) * card (file_entries ?T (files_at ?v k)) + (if k = l then kNumLevels * length xs else 0))"
      unfolding weight_def by (intro sum_mono) simp
    also have "\<dots> = weight ?T ?v + kNumLevels * length xs" using l(1) by (simp add: weight_def sum.distrib)
    finally show ?thesis .
  qed
  then show "weight (tables ops ?db fs') (vs_current vs') \<le> weight ?T ?v + kNumLevels * length xs" using inst(2,3) by simp
  have "vs_dbname vs' = ?db" using inst(4) by (simp add: installed_def)
  then show "\<Union> (set ` set (store_runs ops fs' vs')) = set xs \<union> \<Union> (set ` set (store_runs ops fs vs))"
    using ents inst(2,3) set_version_runs [of "Finalize ?v'" ?T1] set_version_runs [OF lay'(1), of ?T] by (simp add: store_runs_def)
qed

text \<open>An edit that changes no files.\<close>

lemma quiet_edit_store:
  assumes ok: "store_ok ops fs vs es" and e: "new_files e = []" "deleted_files e = []" "edit_ok e"
    and n: "vs_next_file vs \<le> n" and fs1: "new_tables_only vs fs fs1"
    and r: "LogAndApply no_manifest_failures fs1 (vs\<lparr>vs_next_file := n\<rparr>) e = (s, vs', fs')"
  shows "Status_ok s" "store_ok ops fs' vs' (es @ [CompleteEdit (vs\<lparr>vs_next_file := n\<rparr>) e])"
    "vs_current vs' = Finalize (apply_edit e (vs_current vs))"
    "\<Union> (set ` set (store_runs ops fs' vs')) = \<Union> (set ` set (store_runs ops fs vs))" "installed (vs\<lparr>vs_next_file := n\<rparr>) e fs1 vs' fs'"
    "weight (tables ops (vs_dbname vs) fs') (vs_current vs') = weight (tables ops (vs_dbname vs) fs) (vs_current vs)"
proof -
  let ?db = "vs_dbname vs" and ?v = "vs_current vs" and ?v' = "apply_edit e (vs_current vs)"
  let ?T = "tables ops ?db fs" and ?T1 = "tables ops ?db fs1"
  have man: "manifest_ok fs vs es" and lay: "layout ?T ?v" and nums: "numbers_ok vs es" and seqs: "sequences_ok ?T vs" and snd: "sound ops ?db fs ?v"
    using ok by (simp_all add: store_ok_def)
  note lay' = layoutD [OF lay]
  have lev: "at_level k (new_files e) = []" "at_level k (deleted_files e) = []" for k using e(1,2) by (simp_all add: at_level_def)
  have fe: "fresh_edit es e" "\<And>k. fresh_at e k (number ` files_at ?v k)" by (simp_all add: fresh_edit_def fresh_at_def lev)
  note app = apply_edit_files [OF _ fe(2) lay'(2) lay'(3)]
  have at: "files_at ?v' k = files_at ?v k" if "k < kNumLevels" for k using app(1) [OF that that that] by (simp add: lev)
  have same: "map_of fs1 (TableFileName ?db (number f)) = map_of fs (TableFileName ?db (number f))" if "k < kNumLevels" "f \<in> files_at ?v k" for k f
    using files_used [OF _ that] man nums that(1) fs1 by (auto simp: manifest_ok_def numbers_ok_def new_tables_only_def)
  have T1: "?T1 (number f) = ?T (number f)" if "k < kNumLevels" "f \<in> files_at ?v k" for k f by (rule tables_cong [OF same [OF that]])
  have fent: "file_entries ?T1 (files_at ?v' k) = file_entries ?T (files_at ?v k)" if "k < kNumLevels" for k
    using at [OF that] T1 [OF that] by (auto simp: file_entries_def)
  have z: "0 < kNumLevels" by (simp add: kNumLevels_def)
  have lay1: "layout ?T1 ?v'"
    unfolding layout_def
  proof (intro conjI allI impI ballI)
    show "sorted_wrt BySmallestKey (level_files ?v' k)" "distinct (map number (level_files ?v' k))" if "k < kNumLevels" for k
      using app(2,3) that by blast+
    show "file_ok ?T1 f" if "k < kNumLevels" "f \<in> files_at ?v' k" for k f
      using lay'(4) [OF that(1)] T1 [OF that(1)] that(2) at [OF that(1)] file_ok_cong by metis
    show "newer (set (?T1 (number f))) (set (?T1 (number g)))" if "f \<in> files_at ?v' 0" "g \<in> files_at ?v' 0" "number g < number f" for f g
      using lay'(5) [of f g] that T1 [OF z] at [OF z] by simp
    show "newer (file_entries ?T1 (files_at ?v' l')) (file_entries ?T1 (files_at ?v' l))" if "l < kNumLevels" "l' < l" for l l'
      using lay'(6) [OF that] fent [OF that(1)] fent [OF less_trans [OF that(2,1)]] by simp
    show "apart f g" if "l < kNumLevels" "0 < l" "f \<in> files_at ?v' l" "g \<in> files_at ?v' l" "number f \<noteq> number g" for l f g
      using lay'(7) [OF that(1,2)] that(3-5) at [OF that(1)] by simp
  qed simp
  have ents: "version_entries ?T1 ?v' = version_entries ?T ?v" using fent by (simp add: version_entries_def)
  have vs1: "vs\<lparr>vs_next_file := n\<rparr> = vs\<lparr>vs_next_file := n, vs_last_sequence := vs_last_sequence vs\<rparr>" by simp
  have man1: "manifest_ok fs1 (vs\<lparr>vs_next_file := n\<rparr>) es" using manifest_ok_new_tables [OF man fs1 n order_refl] by simp
  show s: "Status_ok s" using LogAndApply_open_succeeds [OF man1 e(3) fe(1)] r by simp
  have snd1: "sound ops ?db fs1 ?v'" using snd at same sound_file_cong unfolding sound_def by metis
  have num: "number f < n" if "(k, f) \<in> set (new_files e)" for k f using that e(1) by simp
  have cross: "number f \<notin> used_numbers es k \<union> number ` set (at_level k (new_files e))"
    if "k < kNumLevels" "k' < k" "f \<in> files_at ?v' k'" for k k' f
    using that at [of k'] nums unfolding numbers_ok_def lev by auto
  have sq: "sequence (fst x) \<le> vs_last_sequence vs" if "x \<in> version_entries ?T1 ?v'" for x
    using that seqs unfolding ents sequences_ok_def by blast
  have last_ok: "vs_last_sequence vs < kMaxSequenceNumber" using seqs by (simp add: sequences_ok_def)
  have nf: "manifest_outcomes no_manifest_failures = []" by (simp add: no_manifest_failures_def)
  note inst = install [OF ok fs1 vs1 n order_refl e(3) fe(1) num cross lay1 sq last_ok snd1 r nf s]
  show "store_ok ops fs' vs' (es @ [CompleteEdit (vs\<lparr>vs_next_file := n\<rparr>) e])" "vs_current vs' = Finalize ?v'"
    "installed (vs\<lparr>vs_next_file := n\<rparr>) e fs1 vs' fs'" using inst by simp_all
  have "weight ?T1 ?v' = weight ?T ?v" using fent by (simp add: weight_def)
  then show "weight (tables ops ?db fs') (vs_current vs') = weight ?T ?v" using inst(2,3) by simp
  have "vs_dbname vs' = ?db" using inst(4) by (simp add: installed_def)
  then show "\<Union> (set ` set (store_runs ops fs' vs')) = \<Union> (set ` set (store_runs ops fs vs))"
    using ents inst(2,3) set_version_runs [of "Finalize ?v'" ?T1] set_version_runs [OF lay'(1), of ?T] by (simp add: store_runs_def)
qed

section \<open>Versions that can be compacted\<close>

lemma Finalize_loop_best:
  "Finalize_loop v ls (b, s) = (b', s') \<Longrightarrow> (b', s') = (b, s) \<or> (\<exists>l \<in> set ls. b' = int l \<and> s' = level_score v l)"
  by (induction ls arbitrary: b s) (auto simp: Let_def split: if_splits)

lemma pickable_Finalize:
  assumes "file_to_compact v = None" shows "pickable (Finalize v)"
proof -
  obtain b s where r: "Finalize_loop v [0..<kNumLevels - 1] (-1, -1) = (b, s)" by fastforce
  have "b \<ge> 0 \<and> Suc (nat b) < kNumLevels \<and> level_files v (nat b) \<noteq> []" if s1: "s \<ge> 1"
  proof -
    obtain l where l: "l < kNumLevels - 1" "b = int l" "s = level_score v l" using Finalize_loop_best [OF r] s1 by fastforce
    then have "level_files v l \<noteq> []" using s1 by (auto simp: level_score_def split: if_splits)
    then show ?thesis using l by simp
  qed
  then show ?thesis using assms r by (simp add: pickable_def Finalize_def)
qed

lemma scored_Finalize: "scored (Finalize v)"
proof -
  have mono: "b \<le> snd (Finalize_loop v ls (x, b))" for ls x b
    by (induction ls arbitrary: x b) (auto simp: Let_def intro: order_trans less_imp_le)
  have "[0..<kNumLevels - 1] = 0 # [1..<kNumLevels - 1]" by (simp add: kNumLevels_def upt_rec)
  moreover have "level_score v 0 \<ge> 0" by (simp add: level_score_def)
  ultimately have "level_score v 0 \<le> snd (Finalize_loop v [0..<kNumLevels - 1] (-1, -1))"
    using mono [of "level_score v 0" "[1..<kNumLevels - 1]" 0] by simp
  moreover obtain b s where "Finalize_loop v [0..<kNumLevels - 1] (-1, -1) = (b, s)" by fastforce
  ultimately show ?thesis by (simp add: scored_def Finalize_def level_score_def)
qed

lemma file_to_compact_apply [simp]: "file_to_compact (apply_edit e v) = None"
  by (simp add: apply_edit_def SaveTo_def Version_new_def)

section \<open>Writing a memtable to a table\<close>

text \<open>No call of the environment fails.\<close>

definition env_ok :: "db_env \<Rightarrow> bool" where
  "env_ok env \<longleftrightarrow> env_new env = (\<lambda>_. Status_OK) \<and> env_table env = (\<lambda>_. Status_OK) \<and> env_append env = (\<lambda>_. []) \<and>
     env_sync env = (\<lambda>_. Status_OK) \<and> env_close env = (\<lambda>_. Status_OK) \<and> env_manifest env = no_manifest_failures \<and>
     env_read env = no_read_failures \<and> env_lock env = Status_OK \<and> env_children env = Status_OK \<and> env_input env = Status_OK \<and>
     snappy_inverse (env_compress env) (env_uncompress env)"

lemma env_ok_reads: "env_ok env \<Longrightarrow> reads_ok env"
  by (simp add: env_ok_def reads_ok_def no_read_failures_def)

lemma env_ok_law: "env_ok env \<Longrightarrow> table_law (db_ops env db)"
  using leveldb_table_law by (simp add: env_ok_def db_ops_def env_tables_def table_options_def)

text \<open>A finished table is not empty.\<close>

lemma table_file_size:
  assumes "env_ok env" "wf_entries xs" "xs \<noteq> []" "entries_size xs < 2 ^ 31"
  shows "(word_of_nat (length (tb_Finish (env_tables env o') (map raw_entry xs))) :: u64) > 0"
proof -
  let ?opts = "table_options env o'"
  let ?rf = "PosixRandomAccessFile (table_bytes ?opts (map raw_entry xs))"
  have su: "snappy_inverse (env_compress env) (env_uncompress env)" using assms(1) by (simp add: env_ok_def)
  obtain tbl where "Table_Open ?opts ?rf (word_of_nat (length (file_bytes ?rf))) = Some (Inr tbl)"
    unfolding table_options_def
    by (rule InternalGet_entries [OF su assms(2-4), of 0 "PosixRandomAccessFile (table_bytes ?opts (map raw_entry xs))" _ "[]"])
      (simp_all add: table_options_def valid_seq_def)
  then have "\<not> unat (word_of_nat (length (table_bytes ?opts (map raw_entry xs))) :: u64) < kEncodedLength"
    by (auto simp: Table_Open_def)
  then have "0 < unat (word_of_nat (length (table_bytes ?opts (map raw_entry xs))) :: u64)" by (simp add: kEncodedLength_def)
  then show ?thesis unfolding env_tables_def leveldb_tables_def by (simp add: word_less_nat_alt)
qed

lemma WriteLevel0Table_ok:
  assumes env: "env_ok env" and mem: "mem_ok mem" "entries_size (mem_entries mem) < 2 ^ 31"
    and r: "WriteLevel0Table env db mem edit bv = (s, db', edit')"
  defines "n \<equiv> vs_next_file (db_versions db)" and "xs \<equiv> mem_entries mem"
  defines "data \<equiv> tb_Finish (db_ops env db) (map raw_entry xs)"
  shows "xs = [] \<Longrightarrow> s = Status_OK" "xs = [] \<Longrightarrow> edit' = edit \<and> db' = db\<lparr>db_versions := (db_versions db)\<lparr>vs_next_file := n + 1\<rparr>,
      files := AList.delete (TableFileName (db_name db) n) (files db), pending_outputs := pending_outputs db - {n}\<rparr>"
    "xs \<noteq> [] \<Longrightarrow> s = Status_OK" "xs \<noteq> [] \<Longrightarrow> db' = db\<lparr>db_versions := (db_versions db)\<lparr>vs_next_file := n + 1\<rparr>,
      files := AList.update (TableFileName (db_name db) n) data (files db), pending_outputs := pending_outputs db - {n}\<rparr> \<and>
      edit' = AddFile (case bv of None \<Rightarrow> 0
          | Some v \<Rightarrow> PickLevelForMemTableOutput v (user_key (fst (hd xs))) (user_key (fst (last xs))))
        n (word_of_nat (length data)) (ikey (hd xs)) (ikey (last xs)) edit"
proof -
  have raw: "mem_raw mem = map raw_entry xs" "wf_entries xs" using mem_okD(2,3) [OF mem(1)] by (simp_all add: xs_def)
  have sz: "xs \<noteq> [] \<Longrightarrow> (word_of_nat (length data) :: u64) > 0"
    using table_file_size [OF env raw(2)] mem(2) by (simp add: data_def db_ops_def xs_def)
  have ends: "xs \<noteq> [] \<Longrightarrow> fst (hd (map raw_entry xs)) = ikey (hd xs) \<and> fst (last (map raw_entry xs)) = ikey (last xs)"
    by (simp add: hd_map last_map)
  have oks: "env_new env x = Status_OK" "env_table env y = Status_OK" for x y using env by (simp_all add: env_ok_def)
  have ok [simp]: "Status_ok Status_OK" by (simp add: Status_ok_def)
  have b0: "BuildTable env (db_options db) (db_name db) (files db) (mem_raw mem) n =
      (Status_OK, new_FileMetaData n 0 [] [], AList.delete (TableFileName (db_name db) n) (files db))" if "xs = []"
    using that by (simp add: BuildTable_def raw(1))
  have b1: "BuildTable env (db_options db) (db_name db) (files db) (mem_raw mem) n =
      (Status_OK, new_FileMetaData n (word_of_nat (length data)) (ikey (hd xs)) (ikey (last xs)),
       AList.update (TableFileName (db_name db) n) data (files db))" if ne: "xs \<noteq> []"
  proof -
    have "data = tb_Finish (env_tables env (db_options db)) (map raw_entry xs)" by (simp add: data_def db_ops_def)
    then show ?thesis
      using ne sz [OF ne] ends [OF ne] by (simp add: BuildTable_def raw(1) oks Let_def new_FileMetaData_def del: list.map_sel)
  qed
  note def = WriteLevel0Table_def NewFileNumber_def Let_def new_FileMetaData_def
  show "s = Status_OK" "edit' = edit \<and> db' = db\<lparr>db_versions := (db_versions db)\<lparr>vs_next_file := n + 1\<rparr>,
      files := AList.delete (TableFileName (db_name db) n) (files db), pending_outputs := pending_outputs db - {n}\<rparr>" if "xs = []"
    using r b0 [OF that] by (auto simp: def n_def [symmetric])
  show "s = Status_OK" "db' = db\<lparr>db_versions := (db_versions db)\<lparr>vs_next_file := n + 1\<rparr>,
      files := AList.update (TableFileName (db_name db) n) data (files db), pending_outputs := pending_outputs db - {n}\<rparr> \<and>
      edit' = AddFile (case bv of None \<Rightarrow> 0
          | Some v \<Rightarrow> PickLevelForMemTableOutput v (user_key (fst (hd xs))) (user_key (fst (last xs))))
        n (word_of_nat (length data)) (ikey (hd xs)) (ikey (last xs)) edit" if ne: "xs \<noteq> []"
    using r b1 [OF ne] sz [OF ne] by (cases bv; auto simp: def n_def [symmetric] AppendInternalKey_eq)+
qed

text \<open>What the background work leaves alone.\<close>

definition unchanged :: "DBImpl \<Rightarrow> DBImpl \<Rightarrow> bool" where
  "unchanged db db' \<longleftrightarrow> db_options db' = db_options db \<and> db_name db' = db_name db \<and> db_mem db' = db_mem db \<and>
     db_log db' = db_log db \<and> logfile_number db' = logfile_number db \<and> db_snapshots db' = db_snapshots db \<and>
     shutting_down db' = shutting_down db \<and> bg_error db' = bg_error db \<and>
     vs_next_file (db_versions db) \<le> vs_next_file (db_versions db') \<and>
     (vs_prev_log (db_versions db) = 0 \<longrightarrow> vs_prev_log (db_versions db') = 0) \<and>
     vs_last_sequence (db_versions db') = vs_last_sequence (db_versions db)"

definition logs_kept :: "DBImpl \<Rightarrow> DBImpl \<Rightarrow> bool" where
  "logs_kept db db' \<longleftrightarrow>
     (\<forall>f n. log_name (db_name db) f n \<longrightarrow> n \<ge> vs_log_number (db_versions db') \<or> n = vs_prev_log (db_versions db') \<longrightarrow>
        map_of (files db') f = map_of (files db) f) \<and>
     (db_imm db' = db_imm db \<and> vs_log_number (db_versions db') = vs_log_number (db_versions db) \<or>
      db_imm db' = None \<and> vs_log_number (db_versions db') = logfile_number db)"

lemma unchanged_trans: "unchanged db db' \<Longrightarrow> unchanged db' db'' \<Longrightarrow> unchanged db db''"
  by (auto simp: unchanged_def)

lemma DeleteObsoleteFiles_unchanged: "unchanged db (DeleteObsoleteFiles env db)" "db_imm (DeleteObsoleteFiles env db) = db_imm db"
  "db_versions (DeleteObsoleteFiles env db) = db_versions db" "manual_compaction (DeleteObsoleteFiles env db) = manual_compaction db"
  "bg_compaction_scheduled (DeleteObsoleteFiles env db) = bg_compaction_scheduled db"
  by (simp_all add: unchanged_def DeleteObsoleteFiles_def Let_def)

lemma hd_last_keys:
  assumes "wf_entries xs" "xs \<noteq> []" shows "user_key (fst (hd xs)) \<le> user_key (fst (last xs))"
proof (cases "tl xs = []")
  case True
  then show ?thesis using assms(2) by (cases xs) auto
next
  case False
  then have "entry_less (hd xs) (last xs)" using assms by (cases xs) (auto simp: wf_entries_def)
  then show ?thesis by (auto simp: entry_less_def ikey_less_def)
qed

lemma memtable_edit_ok:
  assumes "wf_entries xs" "xs \<noteq> []" "l < kNumLevels"
  shows "edit_ok (SetLogNumber g (SetPrevLogNumber 0 (AddFile l n sz (ikey (hd xs)) (ikey (last xs)) VersionEdit_new)))"
proof -
  have "entry_ok (hd xs)" "entry_ok (last xs)" using assms(1,2) by (simp_all add: wf_entries_def list_all_iff)
  then show ?thesis
    using assms(3) by (simp add: edit_ok_def encodable_def VersionEdit_new_def SetLogNumber_def SetPrevLogNumber_def AddFile_def new_FileMetaData_def entry_ok_def)
qed

text \<open>The table of a memtable is newer than all others and fits into the level chosen for it.\<close>

lemma PickLevel_apart:
  assumes lay: "layout T v" and xs: "wf_entries xs" "xs \<noteq> []"
    and l: "l = PickLevelForMemTableOutput v (user_key (fst (hd xs))) (user_key (fst (last xs)))"
  shows "l < kNumLevels" "0 < l \<longrightarrow> (\<forall>k \<le> l. \<forall>f \<in> files_at v k. apart f (new_FileMetaData n sz (ikey (hd xs)) (ikey (last xs))))"
proof -
  note pick = PickLevel_no_overlap [OF layout_version_ok [OF lay] hd_last_keys [OF xs] l]
  then show "l < kNumLevels" by (simp add: kMaxMemCompactLevel_def kNumLevels_def)
  have "apart f (new_FileMetaData n sz (ikey (hd xs)) (ikey (last xs)))" if "0 < l" "k \<le> l" "f \<in> files_at v k" for k f
  proof -
    have "\<not> overlaps T f (user_key (fst (hd xs))) (user_key (fst (last xs)))" using pick that by blast
    then show ?thesis by (auto simp: overlaps_def apart_def new_FileMetaData_def AppendInternalKey_eq not_le)
  qed
  then show "0 < l \<longrightarrow> (\<forall>k \<le> l. \<forall>f \<in> files_at v k. apart f (new_FileMetaData n sz (ikey (hd xs)) (ikey (last xs))))" by blast
qed

lemma CompactMemTable_ok:
  assumes ok: "db_ok env db es" and env: "env_ok env" and imm: "db_imm db = Some imm" "entries_size (mem_entries imm) < 2 ^ 31"
    and run: "\<not> shutting_down db" and room: "vs_next_file (db_versions db) < vs_next_file (db_versions db) + 1"
    and r: "CompactMemTable env db = (s, db')"
  shows "Status_ok s" "\<exists>es'. db_ok env db' es'" "contents_at env db' = contents_at env db" "unchanged db db'" "db_imm db' = None"
    "vs_log_number (db_versions db') = logfile_number db" "vs_next_file (db_versions db') = vs_next_file (db_versions db) + 1"
    "logs_kept db db'" "bg_compaction_scheduled db' = bg_compaction_scheduled db" "manual_compaction db' = manual_compaction db"
    "merge_runs (db_runs env db') = merge_runs (db_runs env db)"
    "weight (table_entries env db') (vs_current (db_versions db')) \<le>
       weight (table_entries env db) (vs_current (db_versions db)) + kNumLevels * length (mem_entries imm)"
proof -
  let ?vs = "db_versions db" and ?ops = "db_ops env db" and ?name = "db_name db" and ?xs = "mem_entries imm"
  let ?v = "vs_current ?vs" and ?n = "vs_next_file (db_versions db)"
  let ?T = "tables ?ops ?name (files db)" and ?sr = "store_runs (db_ops env db) (files db) (db_versions db)"
  define data where "data = tb_Finish ?ops (map raw_entry ?xs)"
  have name: "vs_dbname ?vs = ?name" by (rule db_okD(1) [OF ok])
  note st = db_okD(2) [OF ok] and lay = db_okD(7) [OF ok] and mem = db_okD(5) [OF ok imm(1)]
  obtain s1 db1 e1 where w: "WriteLevel0Table env db imm VersionEdit_new (Some ?v) = (s1, db1, e1)" by (metis prod_cases3)
  define e where "e = SetLogNumber (logfile_number db) (SetPrevLogNumber 0 e1)"
  note wl = WriteLevel0Table_ok [OF env mem imm(2) w]
  have s1: "Status_ok s1" using wl(1,3) by (cases "?xs = []") (simp_all add: Status_ok_def)
  have runs: "runs_ok (mem_entries (db_mem db) # ?xs # ?sr)" using db_okD(6) [OF ok] imm(1) by (simp add: db_runs_def imm_runs_def)
  have newer: "newer (set ?xs) (version_entries ?T ?v)"
  proof -
    have "newer (set ?xs) (set r)" if "r \<in> set ?sr" for r using runs that by (simp add: runs_ok_def newer_newer_run)
    then have "newer (set ?xs) (\<Union>r \<in> set ?sr. set r)" unfolding newer_def by blast
    then show ?thesis using set_version_runs [OF layoutD(1) [OF lay], of ?T] name by (simp add: store_runs_def)
  qed
  define fs1 where "fs1 = files db1"
  have db1: "db1 = db\<lparr>db_versions := ?vs\<lparr>vs_next_file := ?n + 1\<rparr>, files := fs1, pending_outputs := pending_outputs db - {?n}\<rparr>"
    unfolding fs1_def using wl(2,4) by (cases "?xs = []") simp_all
  have fs1: "map_of fs1 f = map_of (files db) f" if "f \<noteq> TableFileName ?name ?n" for f
    unfolding fs1_def using wl(2,4) that by (cases "?xs = []") (simp_all add: delete_conv update_conv)
  obtain s2 vs2 fs2 where log: "LogAndApply no_manifest_failures fs1 (?vs\<lparr>vs_next_file := ?n + 1\<rparr>) e = (s2, vs2, fs2)" by (metis prod_cases3)
  have all: "Status_ok s2 \<and> (\<exists>es'. store_ok ?ops fs2 vs2 es') \<and> vs_current vs2 = Finalize (apply_edit e ?v) \<and>
      \<Union> (set ` set (store_runs ?ops fs2 vs2)) = set ?xs \<union> \<Union> (set ` set ?sr) \<and> installed (?vs\<lparr>vs_next_file := ?n + 1\<rparr>) e fs1 vs2 fs2 \<and>
      weight (tables ?ops ?name fs2) (vs_current vs2) \<le> weight ?T ?v + kNumLevels * length ?xs"
  proof (cases "?xs = []")
    case True
    then have e1: "e1 = VersionEdit_new" "fs1 = AList.delete (TableFileName ?name ?n) (files db)" using wl(2) by (simp_all add: fs1_def)
    have e: "new_files e = []" "deleted_files e = []" "edit_ok e"
      by (simp_all add: e_def e1 SetLogNumber_def SetPrevLogNumber_def VersionEdit_new_def edit_ok_def encodable_def)
    have nto: "new_tables_only ?vs (files db) fs1" unfolding new_tables_only_def name using fs1 by (metis less_irrefl)
    note q = quiet_edit_store [OF st e order.strict_implies_order [OF room] nto log]
    then show ?thesis
      using True name by auto
  next
    case ne: False
    define l where "l = PickLevelForMemTableOutput ?v (user_key (fst (hd ?xs))) (user_key (fst (last ?xs)))"
    have wf: "wf_entries ?xs" by (rule mem_okD(2) [OF mem])
    have e1: "e1 = AddFile l ?n (word_of_nat (length data)) (ikey (hd ?xs)) (ikey (last ?xs)) VersionEdit_new"
        "fs1 = AList.update (TableFileName (vs_dbname ?vs) ?n) (tb_Finish ?ops (map raw_entry ?xs)) (files db)"
      using wl(4) [OF ne] name by (simp_all add: l_def data_def fs1_def)
    note pick = PickLevel_apart [OF lay wf ne l_def]
    have e: "new_files e = [(l, new_FileMetaData ?n (word_of_nat (length data)) (ikey (hd ?xs)) (ikey (last ?xs)))]" "deleted_files e = []"
      by (simp_all add: e_def e1 SetLogNumber_def SetPrevLogNumber_def AddFile_def VersionEdit_new_def)
    have eok: "edit_ok e" unfolding e_def e1(1) by (rule memtable_edit_ok [OF wf ne pick(1)])
    have sq: "sequence (fst x) \<le> vs_last_sequence ?vs" if "x \<in> set ?xs" for x by (rule db_okD(9) [OF ok imm(1) that])
    note q = add_table_store [OF st env_ok_law [OF env] wf ne imm(2) newer [folded name] sq refl room _ e1(2) e eok pick log]
    show ?thesis
      using q name by (auto simp: data_def)
  qed
  have store: "Status_ok s2" "\<exists>es'. store_ok ?ops fs2 vs2 es'" "vs_current vs2 = Finalize (apply_edit e ?v)"
    "\<Union> (set ` set (store_runs ?ops fs2 vs2)) = set ?xs \<union> \<Union> (set ` set ?sr)" "installed (?vs\<lparr>vs_next_file := ?n + 1\<rparr>) e fs1 vs2 fs2"
    "weight (tables ?ops ?name fs2) (vs_current vs2) \<le> weight ?T ?v + kNumLevels * length ?xs"
    using all by blast+
  obtain es' where es': "store_ok ?ops fs2 vs2 es'" using store(2) by blast
  define db2 where "db2 = db1\<lparr>db_versions := vs2, files := fs2, db_imm := None\<rparr>"
  have d2: "db_ops env db2 = ?ops" "imm_runs db2 = []" "db_versions db2 = vs2" "files db2 = fs2" "db_mem db2 = db_mem db" "db_name db2 = ?name" "db_imm db2 = None"
    by (simp_all add: db2_def db1 db_ops_def imm_runs_def)
  have inst: "vs_dbname vs2 = ?name" "vs_last_sequence vs2 = vs_last_sequence ?vs" "vs_next_file vs2 = ?n + 1" "vs_log_number vs2 = logfile_number db"
      "vs_prev_log vs2 = 0" "\<And>f. f \<noteq> DescriptorFileName ?name (vs_manifest ?vs) \<Longrightarrow> map_of fs2 f = map_of fs1 f"
    using store(5) name by (simp_all add: installed_def CompleteEdit_def e_def SetLogNumber_def SetPrevLogNumber_def Let_def SetLastSequence_def SetNextFile_def)
  have sr2: "runs_ok (store_runs ?ops fs2 vs2)"
    using layout_version_ok [of "tables ?ops (vs_dbname vs2) fs2" "vs_current vs2"] es' by (simp add: store_ok_def store_runs_def version_ok_def)
  have pres: "preserves 0 (?xs # ?sr) (store_runs ?ops fs2 vs2)" by (rule preserves_same) (use store(4) sr2 in simp_all)
  have runs2: "runs_ok (db_runs env db2)" using preservesD(1) [OF pres, of "[mem_entries (db_mem db)]"] runs by (simp add: db_runs_def d2)
  have ok2: "db_ok env db2 es'"
    unfolding db_ok_def d2 using inst es' store(3) pickable_Finalize scored_Finalize runs2 db_okD(4,8) [OF ok] by simp
  have merged: "merge_runs (db_runs env db2) = merge_runs (db_runs env db)"
    by (rule sorted_entries_unique)
      (use wf_merge_runs [OF runs2] wf_merge_runs [OF db_okD(6) [OF ok]] store(4) imm(1) in
        \<open>auto simp: wf_entries_def set_merge_runs db_runs_def d2 imm_runs_def\<close>)
  have res: "s = s2 \<and> db' = DeleteObsoleteFiles env db2"
  proof -
    have "env_manifest env = no_manifest_failures" using env by (simp add: env_ok_def)
    then show ?thesis
      using r imm(1) w s1 log store(1) run by (simp add: CompactMemTable_def Let_def db1 e_def [symmetric] db2_def)
  qed
  note del = DeleteObsoleteFiles_ok [OF ok2] and del' = DeleteObsoleteFiles_unchanged [where db = db2 and env = env]
  show "Status_ok s" "\<exists>es'. db_ok env db' es'" "db_imm db' = None" using res store(1) del(1) del'(2) d2(7) by auto
  show mr: "merge_runs (db_runs env db') = merge_runs (db_runs env db)" using res del(2) merged by simp
  then show "contents_at env db' = contents_at env db" by (simp add: contents_at_def fun_eq_iff)
  have "unchanged db db2" using inst(2,3,5) room by (simp add: unchanged_def db2_def db1)
  then show "unchanged db db'" using unchanged_trans del'(1) res by blast
  show "vs_log_number (db_versions db') = logfile_number db" "vs_next_file (db_versions db') = ?n + 1"
    "bg_compaction_scheduled db' = bg_compaction_scheduled db" "manual_compaction db' = manual_compaction db"
    using res del'(3-5) inst(3,4) by (simp_all add: d2 db2_def db1)
  have "weight (table_entries env db') (vs_current (db_versions db')) = weight (tables ?ops ?name fs2) (vs_current vs2)"
  proof -
    have "weight (tables ?ops ?name (files db')) (vs_current vs2) = weight (tables ?ops ?name fs2) (vs_current vs2)"
      using res del(4) by (intro weight_tables) (auto simp: d2)
    then show ?thesis using res del' by (simp add: table_entries_def d2 db_ops_def unchanged_def) (simp add: db2_def db1)
  qed
  then show "weight (table_entries env db') (vs_current (db_versions db')) \<le> weight (table_entries env db) ?v + kNumLevels * length ?xs"
    using store(6) by (simp add: table_entries_def db_ops_def)
  show "logs_kept db db'"
    using res del(3) del'(2,3) inst(4,6) fs1 log_name_neq unfolding logs_kept_def d2 by simp
qed

section \<open>Moving a table\<close>

lemma trivial_store:
  assumes ok: "store_ok ops fs vs es" and c: "compaction_of vs c vs1" "Suc (clevel c) < kNumLevels" and one: "inputs0 c = [f]" "inputs1 c = []"
    and e: "e = AddFile (clevel c + 1) (number f) (file_size f) (smallest f) (largest f) (DeleteFile (clevel c) (number f) (cedit c))"
    and r: "LogAndApply no_manifest_failures fs vs1 e = (s, vs', fs')"
  shows "Status_ok s" "\<exists>es'. store_ok ops fs' vs' es'" "vs_current vs' = Finalize (apply_edit e (vs_current vs))"
    "\<Union> (set ` set (store_runs ops fs' vs')) = \<Union> (set ` set (store_runs ops fs vs))"
    "vs_dbname vs' = vs_dbname vs" "vs_last_sequence vs' = vs_last_sequence vs" "vs_log_number vs' = vs_log_number vs" "vs_next_file vs' = vs_next_file vs"
    "\<And>f. f \<noteq> DescriptorFileName (vs_dbname vs) (vs_manifest vs) \<Longrightarrow> map_of fs' f = map_of fs f" "vs_prev_log vs' = vs_prev_log vs"
    "weight (tables ops (vs_dbname vs) fs') (vs_current vs') < weight (tables ops (vs_dbname vs) fs) (vs_current vs)"
proof -
  let ?db = "vs_dbname vs" and ?v = "vs_current vs" and ?l = "clevel c" and ?T = "tables ops (vs_dbname vs) fs"
  let ?g = "new_FileMetaData (number f) (file_size f) (smallest f) (largest f)"
  have man: "manifest_ok fs vs es" and lay: "layout ?T ?v" and nums: "numbers_ok vs es" and snd: "sound ops ?db fs ?v"
    using ok by (simp_all add: store_ok_def)
  obtain large where large: "closed_compaction ?v ?l [f] []" "large = largest f" "cedit c = SetCompactPointer ?l large VersionEdit_new"
    "vs1 = vs\<lparr>vs_compact_pointer := (vs_compact_pointer vs)[?l := large]\<rparr>" using c(1) one by (auto simp: compaction_of_def)
  have l: "?l < kNumLevels" using c(2) by simp
  have f: "f \<in> files_at ?v ?l" using large(1) by (simp add: closed_compaction_def isolated_def)
  have fok: "file_ok ?T f" by (rule layoutD(4) [OF lay l f])
  have g: "number ?g = number f" "file_ok ?T ?g" "sound_file ops ?db fs ?g" "file_entries ?T {?g} = file_entries ?T {f}"
    using fok snd l f by (auto simp: file_ok_def new_FileMetaData_def sound_def sound_file_def file_entries_def)
  have used: "number h \<in> used_numbers es k" if "k < kNumLevels" "h \<in> files_at ?v k" for k h
    using files_used [OF _ that] man by (simp add: manifest_ok_def)
  have fields: "e = VersionEdit_new\<lparr>compact_pointers := [(?l, large)], deleted_files := [(?l, number f)], new_files := [(Suc ?l, ?g)]\<rparr>"
    by (simp add: e large(3) SetCompactPointer_def AddFile_def DeleteFile_def VersionEdit_new_def set_insert_def)
  have me: "merge_edit e ?l [f] [] [?g]" by (simp add: merge_edit_def fields)
  have "length (smallest f) < 2 ^ 32" "length (largest f) < 2 ^ 32"
    using fok file_ok_last(1) [OF fok] by (auto simp: file_ok_def wf_entries_def list_all_iff entry_ok_def)
  then have eok: "edit_ok e" using l c(2) by (simp add: fields large(2) edit_ok_def encodable_def VersionEdit_new_def new_FileMetaData_def)
  have deep: "number f \<notin> used_numbers es k" if "Suc ?l \<le> k" "k < kNumLevels" for k
    using nums f that unfolding numbers_ok_def by (metis Suc_le_lessD)
  have high: "number f \<notin> number ` ((\<Union>k \<le> ?l. files_at ?v k) - {f})"
  proof
    assume "number f \<in> number ` ((\<Union>k \<le> ?l. files_at ?v k) - {f})"
    then obtain k h where h: "number f = number h" "k \<le> ?l" "h \<in> files_at ?v k" "h \<noteq> f" by auto
    show False
    proof (cases "k = ?l")
      case True
      then show False using layoutD(3) [OF lay l] f h by (auto simp: distinct_map inj_on_def)
    next
      case False
      then have "number h \<notin> used_numbers es ?l" using nums l h(2,3) unfolding numbers_ok_def by (metis le_neq_implies_less)
      then show False using used [OF l f] h(1) by simp
    qed
  qed
  have nto: "new_tables_only vs fs fs" by (simp add: new_tables_only_def)
  have num: "number f < vs_next_file vs" using used [OF l f] nums l unfolding numbers_ok_def by blast
  have ptr: "LogAndApply no_manifest_failures fs (vs\<lparr>vs_next_file := vs_next_file vs\<rparr>) e = (s, vs', fs')"
  proof -
    have "set_pointers e (vs_compact_pointer vs) = (vs_compact_pointer vs)[?l := large]" by (simp add: set_pointers_def fields)
    then show ?thesis using LogAndApply_pointers [where env = no_manifest_failures and fs = fs and vs = vs and e = e] r large(4) by simp
  qed
  have m: "Status_ok s" "store_ok ops fs' vs' (es @ [CompleteEdit (vs\<lparr>vs_next_file := vs_next_file vs\<rparr>) e])"
    "layout ?T (apply_edit e ?v)" "tables ops ?db fs' = ?T" "vs_current vs' = Finalize (apply_edit e ?v)"
    "installed (vs\<lparr>vs_next_file := vs_next_file vs\<rparr>) e fs vs' fs'"
    by (rule merge_store [OF ok nto refl order_refl eok me c(2) large(1) _ _ _ _ _ _ _ _ ptr];
        use g deep high num in \<open>auto simp: file_entries_def\<close>)+
  show "Status_ok s" "\<exists>es'. store_ok ops fs' vs' es'" "vs_current vs' = Finalize (apply_edit e ?v)" using m(1,2,5) by auto
  show inst: "vs_dbname vs' = ?db" "vs_last_sequence vs' = vs_last_sequence vs" "vs_log_number vs' = vs_log_number vs" "vs_next_file vs' = vs_next_file vs"
    "\<And>f. f \<noteq> DescriptorFileName ?db (vs_manifest vs) \<Longrightarrow> map_of fs' f = map_of fs f" "vs_prev_log vs' = vs_prev_log vs"
    using m(6) by (simp_all add: installed_def fields VersionEdit_new_def CompleteEdit_def SetLogNumber_def SetPrevLogNumber_def Let_def SetLastSequence_def SetNextFile_def)
  have fresh: "distinct (map number [?g])" "number ` set [?g] \<inter> number ` files_at ?v (Suc ?l) = {}"
    using deep [OF order_refl c(2)] used [OF c(2)] g(1) by auto
  have in01: "set [f] \<subseteq> files_at ?v ?l" "set [] \<subseteq> files_at ?v (Suc ?l)" using f by simp_all
  have sub: "file_entries ?T (set [?g]) \<subseteq> file_entries ?T (set [f]) \<union> file_entries ?T (set [])" using g(4) by simp
  show "weight (tables ops ?db fs') (vs_current vs') < weight ?T ?v"
    unfolding m(4,5) weight_Finalize by (rule merge_weight [OF lay me c(2) large(1) fresh refl sub])
  have "version_entries ?T (apply_edit e ?v) = version_entries ?T ?v"
    using merged_entries [OF lay me c(2) in01 fresh refl] version_entries_split [OF c(2) in01, of ?T] g(4) by (simp add: file_entries_def)
  then show "\<Union> (set ` set (store_runs ops fs' vs')) = \<Union> (set ` set (store_runs ops fs vs))"
    using m(4,5) inst(1) set_version_runs [of "Finalize (apply_edit e ?v)" ?T] set_version_runs [OF layoutD(1) [OF lay], of ?T] by (simp add: store_runs_def)
qed

section \<open>Background calls\<close>

text \<open>
  What a round of background work does: \<open>step_kept\<close> says that the invariant holds again, that nothing is
  lost for a reader of the latest state, and that only files and versions have changed.
\<close>

definition step_kept :: "db_env \<Rightarrow> DBImpl \<Rightarrow> DBImpl \<Rightarrow> bool" where
  "step_kept env db db' \<longleftrightarrow> (\<exists>es. db_ok env db' es) \<and> unchanged db db' \<and> logs_kept db db' \<and>
     (\<forall>S \<ge> vs_last_sequence (db_versions db). contents_at env db' S = contents_at env db S) \<and>
     set (merge_runs (db_runs env db')) \<subseteq> set (merge_runs (db_runs env db))"

definition db_entries :: "db_env \<Rightarrow> DBImpl \<Rightarrow> entry list" where
  "db_entries env db = merge_runs (db_runs env db)"

lemma entries_size_mono:
  assumes "wf_entries xs" "wf_entries ys" "set xs \<subseteq> set ys"
  shows "entries_size xs \<le> entries_size ys" "length xs \<le> length ys"
proof -
  have d: "distinct xs" "distinct ys" using assms(1,2) sorted_entries_distinct by (auto simp: wf_entries_def distinct_map)
  show "entries_size xs \<le> entries_size ys"
    using d assms(3) by (simp add: entries_size_def sum_list_distinct_conv_sum_set sum_mono2)
  show "length xs \<le> length ys" using d card_mono [OF _ assms(3)] by (simp add: distinct_card)
qed

lemma length_entries_size: "64 * length xs \<le> entries_size xs"
  by (induction xs) (simp_all add: entries_size_def)

lemma db_entries_wf: "db_ok env db es \<Longrightarrow> wf_entries (db_entries env db)"
  using wf_merge_runs [OF db_okD(6)] by (simp add: db_entries_def)

lemma table_entries_eq: "table_entries env db = tables (db_ops env db) (db_name db) (files db)"
  by (simp add: table_entries_def db_ops_def)

lemma db_entries_tables:
  assumes "db_ok env db es" shows "version_entries (table_entries env db) (vs_current (db_versions db)) \<subseteq> set (db_entries env db)"
  using set_version_runs [OF layoutD(1) [OF db_okD(7) [OF assms]], of "table_entries env db"] db_okD(1) [OF assms]
  by (auto simp: db_entries_def set_merge_runs db_runs_def store_runs_def table_entries_eq)

text \<open>From a store that keeps the contents to a database that does.\<close>

lemma step_keptI:
  assumes ok: "db_ok env db es" and imm: "db_imm db = None"
    and st: "store_ok (db_ops env db) fs' vs' es'" "vs_dbname vs' = db_name db" "vs_last_sequence vs' = vs_last_sequence (db_versions db)"
      "vs_current vs' = Finalize (apply_edit e v)"
    and pres: "preserves (vs_last_sequence (db_versions db)) (store_runs (db_ops env db) (files db) (db_versions db)) (store_runs (db_ops env db) fs' vs')"
    and sub: "\<Union> (set ` set (store_runs (db_ops env db) fs' vs')) \<subseteq> \<Union> (set ` set (store_runs (db_ops env db) (files db) (db_versions db)))"
    and logs: "vs_log_number vs' = vs_log_number (db_versions db)"
      "\<forall>f. f \<noteq> DescriptorFileName (db_name db) (vs_manifest (db_versions db)) \<longrightarrow> (\<forall>n. f \<noteq> TableFileName (db_name db) n) \<longrightarrow> map_of fs' f = map_of (files db) f"
      "vs_prev_log vs' = vs_prev_log (db_versions db)" "vs_next_file (db_versions db) \<le> vs_next_file vs'"
  shows "step_kept env db (db\<lparr>db_versions := vs', files := fs'\<rparr>)" "db_ok env (db\<lparr>db_versions := vs', files := fs'\<rparr>) es'"
proof -
  let ?db = "db\<lparr>db_versions := vs', files := fs'\<rparr>" and ?m = "[mem_entries (db_mem db)]"
  have runs: "db_runs env db = ?m @ store_runs (db_ops env db) (files db) (db_versions db)" "db_runs env ?db = ?m @ store_runs (db_ops env db) fs' vs'"
    using imm by (simp_all add: db_runs_def imm_runs_def db_ops_def)
  note p = preservesD [OF pres db_okD(6) [OF ok, unfolded runs(1)], folded runs]
  show ok': "db_ok env ?db es'"
    using st pickable_Finalize scored_Finalize p(1) db_okD(4,8) [OF ok] imm by (simp add: db_ok_def imm_runs_def db_ops_def)
  have "unchanged db ?db" using st(3) logs by (simp add: unchanged_def)
  moreover have "logs_kept db ?db" using logs(1,2) log_name_neq by (simp add: logs_kept_def)
  moreover have "contents_at env ?db S = contents_at env db S" if "vs_last_sequence (db_versions db) \<le> S" for S
    using p(2) [OF that] by (simp add: contents_at_def fun_eq_iff)
  moreover have "set (merge_runs (db_runs env ?db)) \<subseteq> set (merge_runs (db_runs env db))"
    using sub by (auto simp: set_merge_runs runs)
  ultimately show "step_kept env db ?db" using ok' unfolding step_kept_def by blast
qed

lemma step_kept_delete:
  assumes "step_kept env db db'" "db_ok env db' es"
  shows "step_kept env db (DeleteObsoleteFiles env db')" "db_ok env (DeleteObsoleteFiles env db') es"
proof -
  note del = DeleteObsoleteFiles_ok [OF assms(2)] and del' = DeleteObsoleteFiles_unchanged [where db = db' and env = env]
  have name: "db_name db' = db_name db" using assms(1) by (simp add: step_kept_def unchanged_def)
  have "contents_at env (DeleteObsoleteFiles env db') = contents_at env db'" using del(2) by (simp add: contents_at_def fun_eq_iff)
  moreover have "logs_kept db (DeleteObsoleteFiles env db')"
    using assms(1) del(3) del'(2,3) name by (simp add: step_kept_def logs_kept_def)
  ultimately show "step_kept env db (DeleteObsoleteFiles env db')"
    using assms(1) del(1,2) unchanged_trans [OF _ del'(1)] unfolding step_kept_def by (metis (no_types, lifting))
  show "db_ok env (DeleteObsoleteFiles env db') es" by (rule del(1))
qed

definition db_weight :: "db_env \<Rightarrow> DBImpl \<Rightarrow> nat" where
  "db_weight env db = (case db_imm db of None \<Rightarrow> 0 | Some m \<Rightarrow> Suc (kNumLevels * length (mem_entries m))) +
     weight (table_entries env db) (vs_current (db_versions db))"

lemma db_weight_delete:
  assumes "db_ok env db es" shows "db_weight env (DeleteObsoleteFiles env db) = db_weight env db"
proof -
  have "db_options (DeleteObsoleteFiles env db) = db_options db" "db_name (DeleteObsoleteFiles env db) = db_name db"
    by (simp_all add: DeleteObsoleteFiles_def Let_def)
  then show ?thesis
    using weight_tables [of "vs_current (db_versions db)" "files (DeleteObsoleteFiles env db)" "db_name db" "files db" "db_ops env db"]
      DeleteObsoleteFiles_ok(4) [OF assms] DeleteObsoleteFiles_unchanged(2,3) [where db = db and env = env]
    by (simp add: db_weight_def table_entries_def db_ops_def)
qed

lemma RunCompaction_ok:
  assumes ok: "db_ok env db es" and env: "env_ok env" and imm: "db_imm db = None" and snap: "db_snapshots db = []"
    and c: "compaction_of (db_versions db) c vs1" "Suc (clevel c) < kNumLevels"
    and size: "entries_size (db_entries env db) < 2 ^ 31" and room: "unat (vs_next_file (db_versions db)) + length (db_entries env db) < 2 ^ 64"
    and r: "RunCompaction env (db\<lparr>db_versions := vs1\<rparr>) c = (s, db')"
  shows "Status_ok s" "step_kept env db db'" "db_weight env db' < db_weight env db" "db_imm db' = None"
    "unat (vs_next_file (db_versions db')) \<le> unat (vs_next_file (db_versions db)) + length (db_entries env db)"
    "bg_compaction_scheduled db' = bg_compaction_scheduled db" "manual_compaction db' = manual_compaction db"
proof -
  let ?ops = "db_ops env db" and ?vs = "db_versions db" and ?name = "db_name db"
  let ?T = "tables ?ops ?name (files db)"
  let ?input = "merge_runs (MakeInputIterator ?T c)"
  have name: "vs_dbname ?vs = ?name" by (rule db_okD(1) [OF ok])
  have closed: "closed_compaction (vs_current ?vs) (clevel c) (inputs0 c) (inputs1 c)" "vs_last_sequence vs1 = vs_last_sequence ?vs"
    using c(1) by (auto simp: compaction_of_def)
  note inp = compaction_input [OF db_okD(7) [OF ok] c(2) closed(1)]
  have in01: "set (inputs0 c) \<subseteq> files_at (vs_current ?vs) (clevel c)" "set (inputs1 c) \<subseteq> files_at (vs_current ?vs) (Suc (clevel c))"
    using closed(1) by (simp_all add: closed_compaction_def isolated_def)
  have "set ?input \<subseteq> set (db_entries env db)"
    using inp(2) version_entries_split [OF c(2) in01, of ?T] db_entries_tables [OF ok] by (auto simp: table_entries_eq)
  note bound = entries_size_mono [OF inp(1) db_entries_wf [OF ok] this]
  obtain s1 st where w: "DoCompactionWork ?ops no_output_failures no_manifest_failures (map raw_entry ?input) Status_OK None [] (files db) vs1 c = (s1, st)"
    by fastforce
  obtain es' where es': "Status_ok s1" "store_ok ?ops (cfiles st) (cversions st) es'"
    "preserves (vs_last_sequence ?vs) (store_runs ?ops (files db) ?vs) (store_runs ?ops (cfiles st) (cversions st))"
    "vs_dbname (cversions st) = ?name" "vs_last_sequence (cversions st) = vs_last_sequence ?vs"
    "vs_log_number (cversions st) = vs_log_number ?vs" "\<exists>e. vs_current (cversions st) = Finalize (apply_edit e (vs_current ?vs))"
    "\<forall>f. f \<noteq> DescriptorFileName ?name (vs_manifest ?vs) \<longrightarrow> (\<forall>n. f \<noteq> TableFileName ?name n) \<longrightarrow> map_of (cfiles st) f = map_of (files db) f"
    "vs_prev_log (cversions st) = vs_prev_log ?vs"
    "vs_next_file ?vs \<le> vs_next_file (cversions st)" "unat (vs_next_file (cversions st)) \<le> unat (vs_next_file ?vs) + length ?input"
    "\<Union> (set ` set (store_runs ?ops (cfiles st) (cversions st))) \<subseteq> \<Union> (set ` set (store_runs ?ops (files db) ?vs))"
    "weight (tables ?ops ?name (cfiles st)) (vs_current (cversions st)) < weight ?T (vs_current ?vs)"
    using compaction_store [OF env_ok_law [OF env] db_okD(2) [OF ok] c _ _ _ w] name bound size room by auto
  let ?db = "db\<lparr>db_versions := cversions st, files := cfiles st\<rparr>"
  obtain e where e: "vs_current (cversions st) = Finalize (apply_edit e (vs_current ?vs))" using es'(7) by blast
  note kept = step_keptI [OF ok imm es'(2,4,5) e es'(3,12,6,8,9,10)]
  have res: "s = s1 \<and> db' = DeleteObsoleteFiles env ?db"
  proof -
    have "output_env_of env x = no_output_failures" "env_manifest env = no_manifest_failures" "env_input env = Status_OK" for x
      using env by (simp_all add: env_ok_def output_env_of_def no_output_failures_def)
    then show ?thesis using r w snap by (simp add: RunCompaction_def Let_def table_entries_def db_ops_def)
  qed
  note del' = DeleteObsoleteFiles_unchanged [where db = ?db and env = env]
  show "Status_ok s" "step_kept env db db'" using res es'(1) step_kept_delete(1) [OF kept] by simp_all
  show "db_weight env db' < db_weight env db"
    using res db_weight_delete [OF kept(2)] es'(13) imm by (simp add: db_weight_def table_entries_def db_ops_def)
  show "db_imm db' = None" "bg_compaction_scheduled db' = bg_compaction_scheduled db" "manual_compaction db' = manual_compaction db"
    using res del' imm by simp_all
  show "unat (vs_next_file (db_versions db')) \<le> unat (vs_next_file ?vs) + length (db_entries env db)" using res del'(3) es'(11) bound(2) by simp
qed

lemma TrivialMove_ok:
  assumes ok: "db_ok env db es" and env: "env_ok env" and imm: "db_imm db = None"
    and c: "compaction_of (db_versions db) c vs1" "Suc (clevel c) < kNumLevels" and triv: "IsTrivialMove c"
    and r: "TrivialMove env (db\<lparr>db_versions := vs1\<rparr>) c = (s, db')"
  shows "Status_ok s" "step_kept env db db'" "db_weight env db' < db_weight env db" "db_imm db' = None"
    "vs_next_file (db_versions db') = vs_next_file (db_versions db)"
    "bg_compaction_scheduled db' = bg_compaction_scheduled db" "manual_compaction db' = manual_compaction db"
proof -
  let ?ops = "db_ops env db" and ?vs = "db_versions db" and ?name = "db_name db"
  have name: "vs_dbname ?vs = ?name" by (rule db_okD(1) [OF ok])
  obtain f where f: "inputs0 c = [f]" "inputs1 c = []" using triv by (auto simp: IsTrivialMove_def length_Suc_conv)
  define e where "e = AddFile (clevel c + 1) (number f) (file_size f) (smallest f) (largest f) (DeleteFile (clevel c) (number f) (cedit c))"
  obtain s1 vs' fs' where w: "LogAndApply no_manifest_failures (files db) vs1 e = (s1, vs', fs')" by (metis prod_cases3)
  note t = trivial_store [OF db_okD(2) [OF ok] c f e_def w, unfolded name]
  obtain es' where es': "store_ok ?ops fs' vs' es'" using t(2) by blast
  have fk: "\<forall>f. f \<noteq> DescriptorFileName ?name (vs_manifest ?vs) \<longrightarrow> (\<forall>n. f \<noteq> TableFileName ?name n) \<longrightarrow> map_of fs' f = map_of (files db) f"
    using t(9) by blast
  have "runs_ok (store_runs ?ops fs' vs')"
    using layout_version_ok [of "tables ?ops (vs_dbname vs') fs'" "vs_current vs'"] es' by (simp add: store_ok_def store_runs_def version_ok_def)
  then have pres: "preserves (vs_last_sequence ?vs) (store_runs ?ops (files db) ?vs) (store_runs ?ops fs' vs')" by (rule preserves_same [OF t(4)])
  have "env_manifest env = no_manifest_failures" using env by (simp add: env_ok_def)
  then have res: "s = s1" "db' = db\<lparr>db_versions := vs', files := fs'\<rparr>"
    using r w f by (simp_all add: TrivialMove_def e_def Let_def)
  show "Status_ok s" "step_kept env db db'"
    using res t(1) step_keptI(1) [OF ok imm es' t(5,6,3) pres eq_refl [OF t(4)] t(7) fk t(10) eq_refl [OF t(8) [symmetric]]] by simp_all
  show "db_weight env db' < db_weight env db" using res t(11) imm by (simp add: db_weight_def table_entries_def db_ops_def)
  show "db_imm db' = None" "vs_next_file (db_versions db') = vs_next_file ?vs"
    "bg_compaction_scheduled db' = bg_compaction_scheduled db" "manual_compaction db' = manual_compaction db" using res imm t(8) by simp_all
qed

text \<open>
  A running database: the invariant, no error and no snapshot, bounds on the size and on the numbers of files
  that leave room for all compactions to come, and background work scheduled whenever there is any.
\<close>

definition needs_work :: "DBImpl \<Rightarrow> bool" where
  "needs_work db \<longleftrightarrow> db_imm db \<noteq> None \<or> manual_compaction db \<noteq> None \<or> NeedsCompaction (db_versions db)"

definition bounded :: "nat \<Rightarrow> db_env \<Rightarrow> DBImpl \<Rightarrow> bool" where
  "bounded k env db \<longleftrightarrow> entries_size (db_entries env db) < 2 ^ 31 \<and>
     unat (vs_next_file (db_versions db)) + (db_weight env db + kNumLevels * length (mem_entries (db_mem db)) + k) * 2 ^ 25 < 2 ^ 64"

definition active :: "nat \<Rightarrow> db_env \<Rightarrow> DBImpl \<Rightarrow> bool" where
  "active k env db \<longleftrightarrow> (\<exists>es. db_ok env db es) \<and> \<not> shutting_down db \<and> db_snapshots db = [] \<and> Status_ok (bg_error db) \<and>
     (\<forall>m. manual_compaction db = Some m \<longrightarrow> Suc (manual_level m) < kNumLevels) \<and> bounded k env db"

definition running :: "nat \<Rightarrow> db_env \<Rightarrow> DBImpl \<Rightarrow> bool" where
  "running k env db \<longleftrightarrow> active k env db \<and> (needs_work db \<longrightarrow> bg_compaction_scheduled db)"

definition work_left :: "db_env \<Rightarrow> DBImpl \<Rightarrow> nat" where
  "work_left env db = 2 * db_weight env db + (if manual_compaction db = None then 0 else 1)"

lemma PickCompaction_None: "PickCompaction vs = (None, vs') \<Longrightarrow> vs' = vs \<and> \<not> NeedsCompaction vs"
  by (auto simp: PickCompaction_def NeedsCompaction_def Let_def split: if_splits option.splits prod.splits)

lemma CompactRange_None: "CompactRange vs l b e = (None, vs') \<Longrightarrow> vs' = vs"
  by (auto simp: CompactRange_def Let_def split: if_splits prod.splits)

lemma step_kept_refl: "db_ok env db es \<Longrightarrow> step_kept env db db"
  by (auto simp: step_kept_def unchanged_def logs_kept_def)

lemma bounded_entries:
  assumes "bounded k env db" shows "length (db_entries env db) < 2 ^ 25"
  using assms length_entries_size [of "db_entries env db"] by (simp add: bounded_def)

text \<open>One round, and what it takes from the work that is left.\<close>

definition round_ok :: "db_env \<Rightarrow> DBImpl \<Rightarrow> DBImpl \<Rightarrow> bool" where
  "round_ok env db db' \<longleftrightarrow> step_kept env db db' \<and> bg_compaction_scheduled db' = bg_compaction_scheduled db \<and>
     (db_imm db' \<noteq> None \<longrightarrow> db_imm db' = db_imm db) \<and>
     (db' = db \<or> db_weight env db' < db_weight env db \<and>
       unat (vs_next_file (db_versions db')) \<le> unat (vs_next_file (db_versions db)) + 2 ^ 25)"

lemma compaction_round:
  assumes run: "running k env db" "env_ok env" and imm: "db_imm db = None"
    and c: "compaction_of (db_versions db) c vs1" "Suc (clevel c) < kNumLevels"
    and r: "(if triv \<and> IsTrivialMove c then TrivialMove env (db\<lparr>db_versions := vs1\<rparr>) c else RunCompaction env (db\<lparr>db_versions := vs1\<rparr>) c) = (s, db')"
  shows "Status_ok s" "round_ok env db db'" "db_weight env db' < db_weight env db" "db_imm db' = None" "manual_compaction db' = manual_compaction db"
proof -
  obtain es where ok: "db_ok env db es" using run(1) by (auto simp: running_def active_def)
  have b: "bounded k env db" "db_snapshots db = []" using run(1) by (simp_all add: running_def active_def)
  note n = bounded_entries [OF b(1)]
  have W: "0 < db_weight env db"
  proof -
    have closed: "closed_compaction (vs_current (db_versions db)) (clevel c) (inputs0 c) (inputs1 c)" using c(1) by (auto simp: compaction_of_def)
    let ?F = "files_at (vs_current (db_versions db)) (clevel c)" and ?T = "table_entries env db"
    have l: "clevel c < kNumLevels" using c(2) by simp
    obtain f where f: "f \<in> ?F" using closed by (auto simp: closed_compaction_def isolated_def) (meson hd_in_set subsetD)
    then have "?T (number f) \<noteq> []" using layoutD(4) [OF db_okD(7) [OF ok] l f] by (simp add: file_ok_def table_entries_eq)
    then have "file_entries ?T ?F \<noteq> {}" using f by (auto simp: file_entries_def)
    then have "0 < (kNumLevels - clevel c) * card (file_entries ?T ?F)" using l by (simp add: card_gt_0_iff)
    also have "\<dots> \<le> weight ?T (vs_current (db_versions db))"
      unfolding weight_def using l by (intro member_le_sum [where f = "\<lambda>l. (kNumLevels - l) * card (file_entries ?T (files_at _ l))"]) simp_all
    finally show ?thesis by (simp add: db_weight_def)
  qed
  have room: "unat (vs_next_file (db_versions db)) + length (db_entries env db) < 2 ^ 64"
  proof -
    have "2 ^ 25 \<le> db_weight env db * 2 ^ 25" using W by simp
    then show ?thesis using b(1) n unfolding bounded_def add_mult_distrib by linarith
  qed
  have size: "entries_size (db_entries env db) < 2 ^ 31" using b(1) by (simp add: bounded_def)
  show "Status_ok s" "round_ok env db db'" "db_weight env db' < db_weight env db" "db_imm db' = None" "manual_compaction db' = manual_compaction db"
    using r TrivialMove_ok [OF ok run(2) imm c, of s db'] RunCompaction_ok [OF ok run(2) imm b(2) c size room, of s db'] n
    by (auto simp: round_ok_def split: if_splits)
qed

lemma BackgroundCompaction_ok:
  assumes run: "running k env db" "env_ok env" and r: "BackgroundCompaction env db = (s, db', m)"
  shows "Status_ok s" "round_ok env (db\<lparr>manual_compaction := manual_compaction db'\<rparr>) db'"
    "needs_work db \<Longrightarrow> work_left env db' < work_left env db"
    "manual_compaction db' \<noteq> None \<Longrightarrow> manual_compaction db' = manual_compaction db"
    "db_imm db' = None"
proof -
  obtain es where ok: "db_ok env db es" using run(1) by (auto simp: running_def active_def)
  have same: "step_kept env (db\<lparr>manual_compaction := x\<rparr>) (db'\<lparr>manual_compaction := y\<rparr>) = step_kept env db db'" for db db' x y
    by (simp add: step_kept_def unchanged_def logs_kept_def contents_at_def db_runs_def db_ops_def imm_runs_def db_ok_def)
  have wt: "db_weight env (d\<lparr>manual_compaction := x\<rparr>) = db_weight env d" for d x
    by (simp add: db_weight_def table_entries_def)
  have "Status_ok s \<and> round_ok env (db\<lparr>manual_compaction := manual_compaction db'\<rparr>) db' \<and> (needs_work db \<longrightarrow> work_left env db' < work_left env db) \<and>
    (manual_compaction db' \<noteq> None \<longrightarrow> manual_compaction db' = manual_compaction db) \<and> db_imm db' = None"
  proof (cases "db_imm db")
    case (Some imm)
    have sz: "entries_size (mem_entries imm) < 2 ^ 31"
    proof -
      have "set (mem_entries imm) \<subseteq> set (db_entries env db)" using Some by (auto simp: db_entries_def set_merge_runs db_runs_def imm_runs_def)
      from entries_size_mono(1) [OF mem_okD(2) [OF db_okD(5) [OF ok Some]] db_entries_wf [OF ok] this]
      show ?thesis using run(1) by (simp add: running_def active_def bounded_def)
    qed
    have b: "unat (vs_next_file (db_versions db)) + db_weight env db * 2 ^ 25 < 2 ^ 64" "0 < db_weight env db"
      using run(1) Some by (simp_all add: running_def active_def bounded_def db_weight_def)
    then have "2 ^ 25 \<le> db_weight env db * 2 ^ 25" by simp
    then have nx: "unat (vs_next_file (db_versions db) + 1) = unat (vs_next_file (db_versions db)) + 1" using b(1) by (simp add: unat_word_ariths)
    then have room: "vs_next_file (db_versions db) < vs_next_file (db_versions db) + 1" by (simp add: word_less_nat_alt)
    obtain s1 db1 where w: "CompactMemTable env db = (s1, db1)" by fastforce
    have res: "s1 = s" "db1 = db'" using r Some w by (simp_all add: BackgroundCompaction_def)
    have "\<not> shutting_down db" using run(1) by (simp add: running_def active_def)
    note c = CompactMemTable_ok [OF ok run(2) Some sz this room w, unfolded res]
    have kept: "step_kept env db db'" unfolding step_kept_def using c(2-4,8,11) by simp
    have W: "db_weight env db' < db_weight env db" using c(5,12) Some by (simp add: db_weight_def)
    have id: "db\<lparr>manual_compaction := manual_compaction db'\<rparr> = db" using c(10) by simp
    show ?thesis using c(1,5,7,9,10) kept W nx unfolding id by (simp add: round_ok_def work_left_def)
  next
    case None
    define mc where "mc = manual_compaction db"
    obtain c vs1 where pick: "(case mc of Some m \<Rightarrow> CompactRange (db_versions db) (manual_level m) (manual_begin m) (manual_end m)
        | None \<Rightarrow> PickCompaction (db_versions db)) = (c, vs1)" by fastforce
    have none: "vs1 = db_versions db" "mc = None \<longrightarrow> \<not> NeedsCompaction (db_versions db)" if "c = None"
      using pick that PickCompaction_None CompactRange_None by (cases mc; simp; blast)+
    have of: "compaction_of (db_versions db) c' vs1 \<and> Suc (clevel c') < kNumLevels" if "c = Some c'" for c'
    proof (cases mc)
      case None
      then show ?thesis using pick that PickCompaction_of [OF db_okD(7) [OF ok] db_okD(3) [OF ok]] by simp
    next
      case (Some m)
      then have "Suc (manual_level m) < kNumLevels" using run(1) by (simp add: running_def active_def mc_def)
      then show ?thesis using pick that Some CompactRange_of [OF db_okD(7) [OF ok]] by fastforce
    qed
    define sdb where "sdb = (case c of None \<Rightarrow> (Status_OK, db\<lparr>db_versions := vs1\<rparr>)
      | Some c \<Rightarrow> if mc = None \<and> IsTrivialMove c then TrivialMove env (db\<lparr>db_versions := vs1\<rparr>) c else RunCompaction env (db\<lparr>db_versions := vs1\<rparr>) c)"
    obtain s1 db1 where w: "sdb = (s1, db1)" by fastforce
    have st: "Status_ok s1" "round_ok env db db1" "db_imm db1 = None" "c = None \<and> db1 = db \<or> db_weight env db1 < db_weight env db"
      "manual_compaction db1 = manual_compaction db"
    proof -
      have "Status_ok s1 \<and> round_ok env db db1 \<and> db_imm db1 = None \<and> (c = None \<and> db1 = db \<or> db_weight env db1 < db_weight env db) \<and>
        manual_compaction db1 = manual_compaction db"
      proof (cases c)
        case c: None
        then show ?thesis using w none(1) None step_kept_refl [OF ok] by (auto simp: sdb_def round_ok_def Status_ok_def)
      next
        case (Some c')
        then show ?thesis using w compaction_round [OF run None conjunct1 [OF of] conjunct2 [OF of], of c' "mc = None" s1 db1] by (simp add: sdb_def)
      qed
      then show "Status_ok s1" "round_ok env db db1" "db_imm db1 = None" "c = None \<and> db1 = db \<or> db_weight env db1 < db_weight env db"
        "manual_compaction db1 = manual_compaction db" by blast+
    qed
    have res: "s = s1" "db' = db1\<lparr>manual_compaction := None\<rparr>"
      using r None pick w st(1) unfolding BackgroundCompaction_def sdb_def mc_def by (simp_all add: Let_def)
    have "round_ok env (db\<lparr>manual_compaction := None\<rparr>) db'"
      using st(2) unfolding res(2) round_ok_def same wt by auto
    moreover have "work_left env db' < work_left env db" if "needs_work db"
      using that st(4) none(2) None unfolding work_left_def res(2) wt needs_work_def mc_def by auto
    ultimately show ?thesis using res st(1,3) by simp
  qed
  then show "Status_ok s" "round_ok env (db\<lparr>manual_compaction := manual_compaction db'\<rparr>) db'"
    "needs_work db \<Longrightarrow> work_left env db' < work_left env db"
    "manual_compaction db' \<noteq> None \<Longrightarrow> manual_compaction db' = manual_compaction db" "db_imm db' = None" by blast+
qed

text \<open>Scheduling.\<close>

lemma MaybeSchedule_cases: "MaybeScheduleCompaction db = db \<or> MaybeScheduleCompaction db = db\<lparr>bg_compaction_scheduled := True\<rparr>"
  by (simp add: MaybeScheduleCompaction_def)

lemma scheduled_simps [simp]:
  "db_ok env (db\<lparr>bg_compaction_scheduled := b\<rparr>) es = db_ok env db es" "active k env (db\<lparr>bg_compaction_scheduled := b\<rparr>) = active k env db"
  "needs_work (db\<lparr>bg_compaction_scheduled := b\<rparr>) = needs_work db" "work_left env (db\<lparr>bg_compaction_scheduled := b\<rparr>) = work_left env db"
  "step_kept env db (db'\<lparr>bg_compaction_scheduled := b\<rparr>) = step_kept env db db'" "contents_at env (db\<lparr>bg_compaction_scheduled := b\<rparr>) = contents_at env db"
  by (simp_all add: active_def bounded_def needs_work_def work_left_def step_kept_def unchanged_def logs_kept_def db_weight_def db_entries_def
      contents_at_def db_runs_def db_ops_def imm_runs_def db_ok_def table_entries_def fun_eq_iff)

lemma running_schedule:
  assumes "active k env db" shows "running k env (MaybeScheduleCompaction db)"
proof -
  have "\<not> shutting_down db" using assms by (simp add: active_def)
  then show ?thesis using assms by (auto simp: running_def MaybeScheduleCompaction_def needs_work_def)
qed

lemma BackgroundCall_ok:
  assumes run: "running k env db" "env_ok env" and r: "BackgroundCall env db = (db', m)"
  shows "running k env db'" "step_kept env db db'" "db_imm db' = None" "needs_work db \<Longrightarrow> work_left env db' < work_left env db"
proof -
  have live: "active k env db" "\<not> shutting_down db" using run(1) by (simp_all add: running_def active_def)
  obtain s db1 m1 where w: "BackgroundCompaction env db = (s, db1, m1)" by (metis prod_cases3)
  let ?db0 = "db\<lparr>manual_compaction := manual_compaction db1\<rparr>"
  note b = BackgroundCompaction_ok [OF run w]
  have res: "db' = MaybeScheduleCompaction (db1\<lparr>bg_compaction_scheduled := False\<rparr>)"
    using r w live(2) by (simp add: BackgroundCall_def)
  have kept: "step_kept env db db1"
  proof -
    have "step_kept env ?db0 db1 = step_kept env db db1"
      by (simp add: step_kept_def unchanged_def logs_kept_def contents_at_def db_runs_def db_ops_def imm_runs_def)
    then show ?thesis using b(2) by (simp add: round_ok_def)
  qed
  then have un: "unchanged db db1" "\<exists>es. db_ok env db1 es" "set (db_entries env db1) \<subseteq> set (db_entries env db)"
    by (simp_all add: step_kept_def db_entries_def)
  have wt: "db_weight env ?db0 = db_weight env db" by (simp add: db_weight_def table_entries_def)
  have "bounded k env db1"
  proof -
    obtain es es1 where "db_ok env db es" "db_ok env db1 es1" using un(2) live(1) by (auto simp: active_def)
    then have "entries_size (db_entries env db1) \<le> entries_size (db_entries env db)" using entries_size_mono(1) [OF _ _ un(3)] db_entries_wf by blast
    moreover have "unat (vs_next_file (db_versions db1)) + db_weight env db1 * 2 ^ 25 \<le> unat (vs_next_file (db_versions db)) + db_weight env db * 2 ^ 25"
    proof (cases "db1 = ?db0")
      case True
      from arg_cong [OF this, of "db_weight env"] arg_cong [OF this, of db_versions] show ?thesis using wt by simp
    next
      case False
      then have "db_weight env db1 < db_weight env db" "unat (vs_next_file (db_versions db1)) \<le> unat (vs_next_file (db_versions db)) + 2 ^ 25"
        using b(2) wt by (simp_all add: round_ok_def)
      moreover from this(1) have "(db_weight env db1 + 1) * 2 ^ 25 \<le> db_weight env db * 2 ^ 25" by (intro mult_le_mono1) simp
      ultimately show ?thesis by simp
    qed
    ultimately show ?thesis using live(1) un(1) by (simp add: active_def bounded_def unchanged_def add_mult_distrib)
  qed
  then have act: "active k env db1"
    using live un(1,2) b(4) unfolding active_def by (auto simp: unchanged_def)
  show "running k env db'" unfolding res by (rule running_schedule) (simp add: act)
  show "step_kept env db db'" "db_imm db' = None" "needs_work db \<Longrightarrow> work_left env db' < work_left env db"
    using MaybeSchedule_cases [of "db1\<lparr>bg_compaction_scheduled := False\<rparr>"] kept b(3,5) unfolding res by auto
qed

end
