(* ===== verification/DB_Writes.thy ===== *)
theory DB_Writes
  imports DB_Background
begin

text \<open>
  Writing to a database: \<^verbatim>\<open>DBImpl::MakeRoomForWrite\<close> always returns, with a memtable that has room, and
  \<^verbatim>\<open>DBImpl::Write\<close> applies the updates of the writers that it serves to the contents of the database.
\<close>

section \<open>Logs\<close>

text \<open>The batches in a log file, with their sequence numbers, and the entries that they make.\<close>

type_synonym batches = "(u64 \<times> update list) list"

definition log_writer :: "batches \<Rightarrow> Writer" where
  "log_writer bs = AddRecords (Writer_new new_log) (map (\<lambda>(sq, us). batch_rep sq us) bs)"

definition log_entries :: "batches \<Rightarrow> entry list" where
  "log_entries bs = fold (\<lambda>(sq, us). apply_updates sq us) bs []"

text \<open>
  The code reads the count of a batch as an \<^verbatim>\<open>int\<close> and extends its sign to 64 bits, which is the count
  below \<open>2 ^ 31\<close>.
\<close>

lemma scast_count: "n < 2 ^ 31 \<Longrightarrow> (scast (word_of_nat n :: u32) :: u64) = word_of_nat n"
  by (simp add: word_unat_eq_iff unsigned_of_nat signed_of_nat scast_eq sint_uint uint_nat unat_of_nat take_bit_nat_eq_self
      signed_take_bit_eq_if_positive bit_iff_odd take_bit_int_eq_self)

fun batches_ok :: "nat \<Rightarrow> batches \<Rightarrow> bool" where
  "batches_ok n [] \<longleftrightarrow> True"
| "batches_ok n ((sq, us) # bs) \<longleftrightarrow> n \<le> unat sq \<and> list_all update_fits us \<and> unat sq + length us < 2 ^ 56 \<and> length us < 2 ^ 31 \<and>
     batches_ok (unat sq + length us) bs"

fun batches_end :: "nat \<Rightarrow> batches \<Rightarrow> nat" where
  "batches_end n [] = n"
| "batches_end n ((sq, us) # bs) = batches_end (unat sq + length us) bs"

lemma batches_ok_append: "batches_ok n (bs @ bs') \<longleftrightarrow> batches_ok n bs \<and> batches_ok (batches_end n bs) bs'"
  by (induction n bs rule: batches_ok.induct) auto

lemma batches_end_append [simp]: "batches_end n (bs @ bs') = batches_end (batches_end n bs) bs'"
  by (induction n bs rule: batches_end.induct) auto

lemma log_writer_simps [simp]: "log_writer [] = Writer_new new_log" "log_writer (bs @ [(sq, us)]) = snd (AddRecord (log_writer bs) (batch_rep sq us))"
  by (simp_all add: log_writer_def AddRecords_snoc)

lemma log_entries_simps [simp]: "log_entries [] = []" "log_entries (bs @ [(sq, us)]) = apply_updates sq us (log_entries bs)"
  by (simp_all add: log_entries_def)

lemma wf_log_writer: "wf_writer (log_writer bs)"
  by (simp add: log_writer_def wf_AddRecords wf_new_log)

definition log_holds :: "DBImpl \<Rightarrow> u64 \<Rightarrow> MemTable \<Rightarrow> batches \<Rightarrow> bool" where
  "log_holds db n mem bs \<longleftrightarrow> map_of (files db) (LogFileName (db_name db) n) = Some (written (log_writer bs)) \<and>
     mem_entries mem = log_entries bs \<and> batches_ok 1 bs"

text \<open>
  What is in the memtables is in the log files: the current one has the updates of the memtable, the one before
  those of the memtable that is being written to a table. Neither has more than \<open>N\<close> records, and recovery would
  read no other log.
\<close>

definition log_logged :: "nat \<Rightarrow> DBImpl \<Rightarrow> bool" where
  "log_logged N db \<longleftrightarrow> (\<exists>bs. db_log db = Some (log_writer bs) \<and> log_holds db (logfile_number db) (db_mem db) bs \<and>
     batches_end 1 bs \<le> Suc (unat (vs_last_sequence (db_versions db))) \<and> length bs \<le> N)"

definition imm_logged :: "nat \<Rightarrow> DBImpl \<Rightarrow> bool" where
  "imm_logged N db \<longleftrightarrow> (case db_imm db of
       None \<Rightarrow> vs_log_number (db_versions db) = logfile_number db
     | Some m \<Rightarrow> vs_log_number (db_versions db) < logfile_number db \<and> (\<exists>bs. log_holds db (vs_log_number (db_versions db)) m bs \<and>
         batches_end 1 bs \<le> Suc (unat (vs_last_sequence (db_versions db))) \<and> length bs \<le> N))"

definition only_logs :: "DBImpl \<Rightarrow> bool" where
  "only_logs db \<longleftrightarrow> (\<forall>f n. log_name (db_name db) f n \<longrightarrow> prefix (db_name db @ cstr ''/'') f \<longrightarrow> map_of (files db) f \<noteq> None \<longrightarrow>
     n \<ge> vs_log_number (db_versions db) \<or> n = 0 \<longrightarrow>
     f = LogFileName (db_name db) n \<and> (n = logfile_number db \<or> db_imm db \<noteq> None \<and> n = vs_log_number (db_versions db)))"

definition durable :: "nat \<Rightarrow> DBImpl \<Rightarrow> bool" where
  "durable N db \<longleftrightarrow> vs_prev_log (db_versions db) = 0 \<and> 0 < vs_log_number (db_versions db) \<and>
     logfile_number db < vs_next_file (db_versions db) \<and> log_logged N db \<and> imm_logged N db \<and> only_logs db"

lemma durable_order: "imm_logged N db \<Longrightarrow> vs_log_number (db_versions db) \<le> logfile_number db"
  by (auto simp: imm_logged_def split: option.splits)

lemma durable_step:
  assumes "step_kept env db db'" "durable N db" shows "durable N db'"
proof -
  have un: "db_name db' = db_name db" "db_mem db' = db_mem db" "db_log db' = db_log db" "logfile_number db' = logfile_number db"
      "vs_last_sequence (db_versions db') = vs_last_sequence (db_versions db)" "vs_next_file (db_versions db) \<le> vs_next_file (db_versions db')"
      "vs_prev_log (db_versions db') = 0"
    using assms by (simp_all add: step_kept_def unchanged_def durable_def)
  have logs: "logs_kept db db'" using assms(1) by (simp add: step_kept_def)
  have d: "0 < vs_log_number (db_versions db)" "log_logged N db" "imm_logged N db" "only_logs db" "logfile_number db < vs_next_file (db_versions db)"
    using assms(2) by (simp_all add: durable_def)
  note ord = durable_order [OF d(3)]
  have files: "map_of (files db') f = map_of (files db) f"
    if "log_name (db_name db) f n" "n \<ge> vs_log_number (db_versions db') \<or> n = 0" for f n
    using logs un(7) that unfolding logs_kept_def by metis
  have adv: "db_imm db' = db_imm db \<and> vs_log_number (db_versions db') = vs_log_number (db_versions db) \<or>
      db_imm db' = None \<and> vs_log_number (db_versions db') = logfile_number db" using logs by (simp add: logs_kept_def)
  have le: "vs_log_number (db_versions db) \<le> vs_log_number (db_versions db')" using adv ord by auto
  have hold: "log_holds db' n m bs = log_holds db n m bs" if "n \<ge> vs_log_number (db_versions db')" for n m bs
    using files [OF log_name_self] that un(1) by (simp add: log_holds_def)
  have ge: "logfile_number db \<ge> vs_log_number (db_versions db')" using adv ord by auto
  have "log_logged N db'" using d(2) hold [OF ge] by (simp add: log_logged_def un)
  moreover have imm: "imm_logged N db'" using adv d(3) hold un(4,5) by (auto simp: imm_logged_def split: option.splits)
  moreover have "only_logs db'"
    unfolding only_logs_def
  proof (intro allI impI)
    fix f n assume f: "log_name (db_name db') f n" "prefix (db_name db' @ cstr ''/'') f" "map_of (files db') f \<noteq> None"
      and n: "n \<ge> vs_log_number (db_versions db') \<or> n = 0"
    have n0: "n \<ge> vs_log_number (db_versions db) \<or> n = 0" using n le by auto
    have "log_name (db_name db) f n" "prefix (db_name db @ cstr ''/'') f" "map_of (files db) f \<noteq> None"
      using f files [of f n] n un(1) by simp_all
    then have "f = LogFileName (db_name db) n \<and> (n = logfile_number db \<or> db_imm db \<noteq> None \<and> n = vs_log_number (db_versions db))"
      using d(4) n0 unfolding only_logs_def by blast
    moreover have "vs_log_number (db_versions db) < logfile_number db" if "db_imm db \<noteq> None" using d(3) that by (auto simp: imm_logged_def)
    moreover have "n \<noteq> 0" using calculation d(1) ord by auto
    ultimately show "f = LogFileName (db_name db') n \<and> (n = logfile_number db' \<or> db_imm db' \<noteq> None \<and> n = vs_log_number (db_versions db'))"
      using adv n un by auto
  qed
  ultimately show ?thesis using less_le_trans [OF d(1) le] less_le_trans [OF d(5) un(6)] un(4,7) by (simp add: durable_def)
qed

lemma durable_scheduled [simp]: "durable N (db\<lparr>bg_compaction_scheduled := b\<rparr>) = durable N db"
proof -
  have "log_holds (db\<lparr>bg_compaction_scheduled := b\<rparr>) = log_holds db" by (simp add: log_holds_def fun_eq_iff)
  then show ?thesis by (cases "db_imm db") (simp_all add: durable_def log_logged_def imm_logged_def only_logs_def)
qed

section \<open>Making room\<close>

lemma store_ok_next:
  assumes "store_ok ops fs vs es" "vs_next_file vs \<le> n"
  shows "store_ok ops fs (vs\<lparr>vs_next_file := n\<rparr>) es" "store_runs ops fs (vs\<lparr>vs_next_file := n\<rparr>) = store_runs ops fs vs"
proof -
  have "manifest_ok fs (vs\<lparr>vs_next_file := n\<rparr>) es"
    using manifest_ok_new_tables [of fs vs es fs n "vs_last_sequence vs"] assms by (simp add: store_ok_def new_tables_only_def)
  then show "store_ok ops fs (vs\<lparr>vs_next_file := n\<rparr>) es" "store_runs ops fs (vs\<lparr>vs_next_file := n\<rparr>) = store_runs ops fs vs"
    using assms by (auto simp: store_ok_def numbers_ok_def sequences_ok_def store_runs_def intro: less_le_trans)
qed

text \<open>Files other than the ones of the store may change.\<close>

lemma store_ok_log_file:
  assumes "store_ok ops fs vs es" "vs_dbname vs = name"
  shows "store_ok ops (AList.update (LogFileName name n) data fs) vs es"
    "store_runs ops (AList.update (LogFileName name n) data fs) vs = store_runs ops fs vs"
    "weight (tables ops name (AList.update (LogFileName name n) data fs)) v = weight (tables ops name fs) v"
  using assms(2) by (auto intro!: store_ok_files [OF assms(1)] weight_tables simp: update_conv)

lemma SwitchMemTable_ok:
  assumes act: "active (k + 2) env db" and env: "env_ok env" and imm: "db_imm db = None" and dur: "durable N db"
    and r: "SwitchMemTable env db = (s, db')"
  shows "s = Status_OK" "running k env db'" "db_mem db' = MemTable_new" "contents_at env db' = contents_at env db" "durable N db'"
    "db_options db' = db_options db" "vs_last_sequence (db_versions db') = vs_last_sequence (db_versions db)"
    "db_entries env db' = db_entries env db" "db_name db' = db_name db"
proof -
  let ?vs = "db_versions db" and ?ops = "db_ops env db" and ?n = "vs_next_file (db_versions db)"
  obtain es where ok: "db_ok env db es" using act by (auto simp: active_def)
  let ?fs = "AList.update (LogFileName (db_name db) ?n) [] (files db)" and ?vs1 = "?vs\<lparr>vs_next_file := ?n + 1\<rparr>"
  define db1 where "db1 = db\<lparr>db_versions := ?vs1, files := ?fs, logfile_number := ?n,
    db_log := Some (Writer_new \<lparr>contents = [], outcomes = []\<rparr>), db_imm := Some (db_mem db), db_mem := MemTable_new\<rparr>"
  have e: "env_new env f = Status_OK" "env_append env n = []" for f n using env by (simp_all add: env_ok_def)
  have res: "s = Status_OK" "db' = MaybeScheduleCompaction db1"
    using r by (simp_all add: SwitchMemTable_def NewFileNumber_def e db1_def Status_ok_def)
  have b: "bounded (k + 2) env db" using act by (simp add: active_def)
  then have nx: "unat (?n + 1) = unat ?n + 1" by (simp add: bounded_def unat_word_ariths)
  then have "?n \<le> ?n + 1" by (simp add: word_le_nat_alt)
  note next1 = store_ok_next [OF db_okD(2) [OF ok] this]
  have "vs_dbname ?vs1 = db_name db" using db_okD(1) [OF ok] by simp
  note log1 = store_ok_log_file [OF next1(1) this, where n = ?n and data = "[]"]
  have runs: "db_runs env db1 = [] # db_runs env db"
    using imm log1(2) next1(2) by (simp add: db_runs_def db1_def imm_runs_def db_ops_def)
  then have ents: "merge_runs (db_runs env db1) = merge_runs (db_runs env db)" by (simp add: merge_runs_def)
  have runs1: "runs_ok (db_runs env db1)" using db_okD(6) [OF ok] by (simp add: runs runs_ok_def wf_entries_def newer_run_def)
  have "mem_ok (db_mem db)" "mem_ok MemTable_new" using db_okD(4) [OF ok] by simp_all
  then have ok1: "db_ok env db1 es"
    using ok log1(1) runs1 unfolding db_ok_def by (simp add: db1_def imm_runs_def db_ops_def)
  have w: "db_weight env db1 = db_weight env db + Suc (kNumLevels * length (mem_entries (db_mem db)))"
    using imm log1(3) by (simp add: db_weight_def db1_def table_entries_def db_ops_def)
  have "bounded k env db1"
    using b nx ents unfolding bounded_def w db_entries_def by (simp add: db1_def add_mult_distrib)
  then have act1: "active k env db1" using act ok1 by (auto simp: active_def db1_def)
  show "s = Status_OK" "running k env db'" using res running_schedule [OF act1] by simp_all
  have dur1: "durable N db1"
  proof -
    have d: "vs_prev_log ?vs = 0" "0 < vs_log_number ?vs" "logfile_number db < ?n" "log_logged N db" "vs_log_number ?vs = logfile_number db" "only_logs db"
      using dur imm by (auto simp: durable_def imm_logged_def)
    have "log_holds db1 ?n MemTable_new []" by (simp add: log_holds_def db1_def Writer_new_def)
    then have "log_logged N db1" unfolding log_logged_def by (intro exI [of _ "[]"]) (simp add: db1_def)
    moreover have "imm_logged N db1"
    proof -
      obtain bs where "log_holds db (logfile_number db) (db_mem db) bs" "batches_end 1 bs \<le> Suc (unat (vs_last_sequence ?vs))" "length bs \<le> N"
        using d(4) by (auto simp: log_logged_def)
      then have "log_holds db1 (logfile_number db) (db_mem db) bs" "batches_end 1 bs \<le> Suc (unat (vs_last_sequence ?vs))" "length bs \<le> N"
        using d(3) by (auto simp: log_holds_def db1_def update_conv)
      then show ?thesis using d(3,5) by (auto simp: imm_logged_def db1_def)
    qed
    moreover have "only_logs db1"
      using d(5,6) imm log_name_self by (auto simp: only_logs_def db1_def update_conv log_name_def file_names_parse)
    ultimately show ?thesis using d nx by (simp add: durable_def db1_def word_less_nat_alt)
  qed
  have cont: "contents_at env db1 = contents_at env db" using ents by (simp add: contents_at_def fun_eq_iff)
  show "db_mem db' = MemTable_new" "contents_at env db' = contents_at env db" "durable N db'" "db_options db' = db_options db"
    "vs_last_sequence (db_versions db') = vs_last_sequence ?vs" "db_name db' = db_name db"
    using MaybeSchedule_cases [of db1] cont dur1 unfolding res(2) by auto (auto simp: db1_def)
  show "db_entries env db' = db_entries env db"
    using MaybeSchedule_cases [of db1] ents unfolding res(2) by (auto simp: db_entries_def db_runs_def imm_runs_def db_ops_def)
qed

text \<open>Writers wait only when there is work for the background thread.\<close>

lemma waits_for_work:
  assumes "db_ok env db es" "db_imm db \<noteq> None \<or> NumLevelFiles (vs_current (db_versions db)) 0 \<ge> kL0_StopWritesTrigger"
  shows "needs_work db"
proof (cases "db_imm db")
  case None
  let ?v = "vs_current (db_versions db)"
  have "12 \<le> length (level_files ?v 0)" using assms(2) None by (simp add: NumLevelFiles_def kL0_StopWritesTrigger_def)
  then have "(1 :: rat) \<le> of_nat (length (level_files ?v 0)) / 4" by simp
  also have "\<dots> \<le> compaction_score ?v"
    using db_okD(12) [OF assms(1)] by (simp add: scored_def level_score_def kL0_CompactionTrigger_def)
  finally show ?thesis by (simp add: needs_work_def NeedsCompaction_def)
qed (simp add: needs_work_def)

lemma MakeRoom_done:
  assumes "env_usage env (db_mem db) \<le> write_buffer_size (db_options db)" "Status_ok (bg_error db)"
  shows "MakeRoom_loop env False d db = Some (Status_OK, db)"
proof -
  have "MakeRoom_loop env False False db = Some (Status_OK, db)" using assms by (subst MakeRoom_loop.simps) simp
  then show ?thesis using assms by (subst MakeRoom_loop.simps) simp
qed

text \<open>What room for a write means.\<close>

definition room_made :: "nat \<Rightarrow> nat \<Rightarrow> db_env \<Rightarrow> DBImpl \<Rightarrow> DBImpl \<Rightarrow> bool" where
  "room_made N k env db db' \<longleftrightarrow> running k env db' \<and> durable N db' \<and> env_usage env (db_mem db') \<le> write_buffer_size (db_options db') \<and>
     (\<forall>S \<ge> vs_last_sequence (db_versions db). contents_at env db' S = contents_at env db S) \<and>
     vs_last_sequence (db_versions db') = vs_last_sequence (db_versions db) \<and> db_options db' = db_options db \<and> db_name db' = db_name db \<and>
     set (db_entries env db') \<subseteq> set (db_entries env db)"

lemma running_mono: "running k env db \<Longrightarrow> k' \<le> k \<Longrightarrow> running k' env db"
  by (auto simp: running_def active_def bounded_def elim: le_less_trans [rotated])

lemma room_made_step:
  assumes "step_kept env db db1" "room_made N k env db1 db'" shows "room_made N k env db db'"
  using assms by (auto simp: room_made_def step_kept_def unchanged_def db_entries_def)

lemma MakeRoom_loop_ok:
  assumes "running (k + 2) env db" "durable N db" "env_ok env" "env_usage env MemTable_new \<le> write_buffer_size (db_options db)"
  shows "\<exists>db'. MakeRoom_loop env force d db = Some (Status_OK, db') \<and> room_made N k env db db' \<and> (force \<longrightarrow> db_mem db' = MemTable_new)"
  using assms
proof (induction "2 * work_left env db + of_bool d" arbitrary: db d rule: less_induct)
  case less
  note run = less.prems(1) and env = less.prems(3)
  obtain es where ok: "db_ok env db es" using run by (auto simp: running_def active_def)
  have bg: "Status_ok (bg_error db)" "active (k + 2) env db" using run by (auto simp: running_def active_def)
  let ?delay = "d \<and> NumLevelFiles (vs_current (db_versions db)) 0 \<ge> kL0_SlowdownWritesTrigger"
  let ?fits = "\<not> force \<and> env_usage env (db_mem db) \<le> write_buffer_size (db_options db)"
  let ?wait = "db_imm db \<noteq> None \<or> NumLevelFiles (vs_current (db_versions db)) 0 \<ge> kL0_StopWritesTrigger"
  consider (delay) ?delay | (fits) "\<not> ?delay" ?fits | (wait) "\<not> ?delay" "\<not> ?fits" ?wait | (switch) "\<not> ?delay" "\<not> ?fits" "\<not> ?wait" by blast
  then show ?case
  proof cases
    case delay
    then have "MakeRoom_loop env force d db = MakeRoom_loop env force False db" using bg(1) by (subst MakeRoom_loop.simps) simp
    then show ?thesis using less.hyps [of db False] less.prems delay by simp
  next
    case fits
    then have "MakeRoom_loop env force d db = Some (Status_OK, db)" using bg(1) by (subst MakeRoom_loop.simps) auto
    moreover have "room_made N k env db db" using running_mono [OF run] less.prems(2) fits by (simp add: room_made_def)
    ultimately show ?thesis using fits by simp
  next
    case wait
    obtain db1 m where call: "BackgroundCall env db = (db1, m)" by fastforce
    note b = BackgroundCall_ok [OF run env call]
    have work: "needs_work db" by (rule waits_for_work [OF ok wait(3)])
    then have sched: "bg_cv_Wait env db = Some (db1, m)" using run call by (simp add: bg_cv_Wait_def running_def)
    have step: "MakeRoom_loop env force d db = MakeRoom_loop env force d db1"
      using bg(1) wait sched by (subst MakeRoom_loop.simps) auto
    have un: "durable N db1" "db_options db1 = db_options db" using b(2) durable_step [OF b(2) less.prems(2)] by (simp_all add: step_kept_def unchanged_def)
    have "2 * work_left env db1 + of_bool d < 2 * work_left env db + of_bool d" using b(4) [OF work] by simp
    from less.hyps [OF this b(1) un(1) env] obtain db' where
      "MakeRoom_loop env force d db1 = Some (Status_OK, db')" "room_made N k env db1 db'" "force \<longrightarrow> db_mem db' = MemTable_new"
      using less.prems(4) un(2) by auto
    then show ?thesis using step room_made_step [OF b(2)] by auto
  next
    case switch
    obtain s db1 where sw: "SwitchMemTable env db = (s, db1)" by fastforce
    then have imm: "db_imm db = None" using switch by blast
    note w = SwitchMemTable_ok [OF bg(2) env imm less.prems(2) sw]
    have fin: "MakeRoom_loop env False d db1 = Some (Status_OK, db1)"
      using w(2,3,6) less.prems(4) by (intro MakeRoom_done) (auto simp: running_def active_def)
    have ok1: "Status_ok Status_OK" by (simp add: Status_ok_def)
    have "MakeRoom_loop env force d db = Some (Status_OK, db1)"
      using bg(1) switch sw w(1) fin ok1 by (subst MakeRoom_loop.simps) auto
    moreover have "room_made N k env db db1" using w less.prems(4) by (simp add: room_made_def)
    ultimately show ?thesis using w(3) by simp
  qed
qed

section \<open>Groups of batches\<close>

text \<open>A writer with its updates, and the updates of a list of writers.\<close>

definition writer_rep :: "update list option \<times> bool \<Rightarrow> writer" where
  "writer_rep w = (map_option (batch_rep 0) (fst w), snd w)"

definition updates_of :: "(update list option \<times> bool) list \<Rightarrow> update list" where
  "updates_of ws = concat (map (\<lambda>w. case fst w of None \<Rightarrow> [] | Some us \<Rightarrow> us) ws)"

lemma BatchGroup_loop_updates:
  assumes "\<And>t. tmp = Some t \<Longrightarrow> t = batch_rep 0 us0" "tmp = None \<Longrightarrow> us0 = us"
  shows "\<exists>m. m \<le> length ws \<and> BatchGroup_loop fsync max_size (batch_rep 0 us) bsize tmp served (map writer_rep ws) =
      (batch_rep 0 (us0 @ updates_of (take m ws)), served + m) \<and> (\<forall>w \<in> set (take m ws). snd w \<longrightarrow> fsync)"
  using assms
proof (induction ws arbitrary: bsize tmp served us0)
  case Nil
  then show ?case by (cases tmp) (auto simp: updates_of_def)
next
  case (Cons w ws)
  have res: "(case tmp of None \<Rightarrow> batch_rep 0 us | Some b \<Rightarrow> b) = batch_rep 0 us0" using Cons.prems by (cases tmp) auto
  obtain wu sync where w: "w = (wu, sync)" by fastforce
  let ?loop = "\<lambda>bs t. BatchGroup_loop fsync max_size (batch_rep 0 us) bs t (served + 1) (map writer_rep ws)"
  have stop: ?case if "BatchGroup_loop fsync max_size (batch_rep 0 us) bsize tmp served (map writer_rep (w # ws)) = (batch_rep 0 us0, served)"
    using that by (intro exI [of _ 0]) (simp add: updates_of_def)
  have go: ?case if step: "BatchGroup_loop fsync max_size (batch_rep 0 us) bsize tmp served (map writer_rep (w # ws)) = ?loop bs t"
    and t: "\<And>x. t = Some x \<Longrightarrow> x = batch_rep 0 (us0 @ updates_of [w])" "t = None \<Longrightarrow> us0 @ updates_of [w] = us" and "sync \<longrightarrow> fsync" for bs t
  proof -
    obtain m where "m \<le> length ws" "?loop bs t = (batch_rep 0 ((us0 @ updates_of [w]) @ updates_of (take m ws)), (served + 1) + m)"
      "\<forall>w \<in> set (take m ws). snd w \<longrightarrow> fsync"
      using Cons.IH [OF t, where bsize = bs and served = "served + 1"] by auto
    then show ?thesis using step w that(4) by (intro exI [of _ "Suc m"]) (auto simp: updates_of_def)
  qed
  show ?case
  proof (cases "sync \<and> \<not> fsync")
    case True
    then show ?thesis using res by (intro stop) (simp add: w writer_rep_def)
  next
    case sync: False
    show ?thesis
    proof (cases wu)
      case None
      then have none: "updates_of [w] = []" by (simp add: w updates_of_def)
      have "BatchGroup_loop fsync max_size (batch_rep 0 us) bsize tmp served (map writer_rep (w # ws)) = ?loop bsize tmp"
        using sync None by (cases sync) (simp_all add: w writer_rep_def Let_def)
      then show ?thesis
      proof (rule go)
        show "x = batch_rep 0 (us0 @ updates_of [w])" if "tmp = Some x" for x using Cons.prems(1) [OF that] none by simp
        show "us0 @ updates_of [w] = us" if "tmp = None" using Cons.prems(2) [OF that] none by simp
      qed (use sync in simp)
    next
      case (Some ups)
      show ?thesis
      proof (cases "bsize + WriteBatch_ByteSize (batch_rep 0 ups) > max_size")
        case True
        then show ?thesis using sync res Some by (intro stop) (auto simp: w writer_rep_def Let_def)
      next
        case False
        let ?t = "WriteBatch_Append (case tmp of None \<Rightarrow> WriteBatch_Append WriteBatch_new (batch_rep 0 us) | Some t \<Rightarrow> t) (batch_rep 0 ups)"
        have t: "?t = batch_rep 0 (us0 @ updates_of [w])"
          using Cons.prems Some by (cases tmp) (auto simp: WriteBatch_refines w updates_of_def)
        show ?thesis
          using sync False Some t by (intro go [of "bsize + WriteBatch_ByteSize (batch_rep 0 ups)" "Some ?t"]) (auto simp: w writer_rep_def Let_def)
      qed
    qed
  qed
qed

lemma BuildBatchGroup_updates:
  obtains m where "m \<le> length ws" "BuildBatchGroup (batch_rep 0 us) fsync (map writer_rep ws) = (batch_rep 0 (us @ updates_of (take m ws)), Suc m)"
    "\<forall>w \<in> set (take m ws). snd w \<longrightarrow> fsync"
proof -
  let ?bsize = "WriteBatch_ByteSize (batch_rep 0 us)"
  let ?max = "if ?bsize \<le> 128 * 1024 then ?bsize + 128 * 1024 else 2 ^ 20"
  obtain m where "m \<le> length ws" "BatchGroup_loop fsync ?max (batch_rep 0 us) ?bsize None 1 (map writer_rep ws) =
      (batch_rep 0 (us @ updates_of (take m ws)), 1 + m)" "\<forall>w \<in> set (take m ws). snd w \<longrightarrow> fsync"
    using BatchGroup_loop_updates [where tmp = None and us0 = us and us = us and ws = ws and fsync = fsync and
        max_size = ?max and bsize = ?bsize and served = 1, OF _ refl] by auto
  then show ?thesis using that [of m] by (simp add: BuildBatchGroup_def Let_def)
qed

section \<open>Updates\<close>

lemma set_apply_updates: "set (apply_updates sq us es) = set es \<union> set (apply_updates sq us [])"
proof (induction us arbitrary: sq es)
  case (Cons u us)
  let ?ins = "insert_entry (update_entry sq u)"
  have "set (apply_updates (sq + 1) us (?ins es)) = set (?ins es) \<union> set (apply_updates (sq + 1) us [])"
    "set (apply_updates (sq + 1) us (?ins [])) = set (?ins []) \<union> set (apply_updates (sq + 1) us [])" by (rule Cons)+
  then show ?case by (simp only: apply_updates.simps set_insert_entry) simp
qed simp

lemma apply_updates_seqs:
  assumes "unat sq + length us \<le> 2 ^ 56" "x \<in> set (apply_updates sq us [])"
  shows "sq \<le> sequence (fst x)"
  using assms
proof (induction us arbitrary: sq)
  case (Cons u us)
  have sq: "unat (sq + 1) = unat sq + 1" using Cons.prems(1) by (simp add: unat_word_ariths)
  have "x \<in> set (insert_entry (update_entry sq u) []) \<union> set (apply_updates (sq + 1) us [])"
    using Cons.prems(2) unfolding apply_updates.simps by (subst (asm) set_apply_updates)
  then have "x = update_entry sq u \<or> x \<in> set (apply_updates (sq + 1) us [])" by simp
  moreover have "sq \<le> sq + 1" using sq by (simp add: word_le_nat_alt)
  ultimately show ?case using Cons.IH [of "sq + 1"] Cons.prems(1) sq by (auto intro: order_trans)
qed simp

lemma length_apply_updates [simp]: "length (apply_updates sq us es) = length es + length us"
proof (induction us arbitrary: sq es)
  case (Cons u us)
  have "length (takeWhile P es) + length (dropWhile P es) = length es" for P by (metis length_append takeWhile_dropWhile_id)
  then have "length (insert_entry e es) = Suc (length es)" for e by (simp add: insert_entry_def)
  then show ?case by (simp add: Cons)
qed simp

lemma find_append: "find P (xs @ ys) = (case find P xs of None \<Rightarrow> find P ys | Some x \<Rightarrow> Some x)"
  by (induction xs) simp_all

text \<open>Later updates do not show at an earlier sequence number.\<close>

lemma visible_apply_later:
  assumes "unat S < unat sq" "unat sq + length us \<le> 2 ^ 56"
  shows "visible (apply_updates sq us es) S = visible es S"
  using assms
proof (induction us arbitrary: sq es)
  case (Cons u us)
  have sq: "unat (sq + 1) = unat sq + 1" using Cons.prems(2) by (simp add: unat_word_ariths)
  have split: "es = takeWhile P es @ dropWhile P es" for P by simp
  have "newest (insert_entry (update_entry sq u) es) S uk = newest es S uk" for uk
    using Cons.prems(1) by (subst (2) split [of "\<lambda>x. entry_less x (update_entry sq u)"])
      (simp add: newest_def insert_entry_def find_append word_le_nat_alt del: takeWhile_dropWhile_id split: option.split)
  then have "visible (insert_entry (update_entry sq u) es) S = visible es S" by (simp add: visible_def fun_eq_iff)
  then show ?case using Cons.IH [of "sq + 1"] Cons.prems sq by simp
qed simp

fun update_size :: "update \<Rightarrow> nat" where
  "update_size (UPut k v) = length k + length v + 72"
| "update_size (UDelete k) = length k + 72"

lemma entries_size_apply: "entries_size (apply_updates sq us es) = entries_size es + sum_list (map update_size us)"
proof (induction us arbitrary: sq es)
  case (Cons u us)
  have "entries_size (xs @ e # ys) = entries_size [e] + entries_size (xs @ ys)" for xs ys e by (simp add: entries_size_def)
  moreover have "entries_size [update_entry sq u] = update_size u" by (cases u) (simp_all add: entries_size_def update_entry_def AppendInternalKey_eq)
  ultimately have "entries_size (insert_entry (update_entry sq u) es) = update_size u + entries_size es"
    by (simp add: insert_entry_def)
  then show ?case by (simp add: Cons)
qed simp

lemma length_updates: "72 * length us \<le> sum_list (map update_size us)"
proof (induction us)
  case (Cons u us)
  then show ?case by (cases u) simp_all
qed simp

lemma store_ok_last_sequence:
  assumes "store_ok ops fs vs es" "vs_last_sequence vs \<le> S" "S < kMaxSequenceNumber"
  shows "store_ok ops fs (vs\<lparr>vs_last_sequence := S\<rparr>) es" "store_runs ops fs (vs\<lparr>vs_last_sequence := S\<rparr>) = store_runs ops fs vs"
proof -
  have "manifest_ok fs (vs\<lparr>vs_last_sequence := S\<rparr>) es"
    using manifest_ok_new_tables [of fs vs es fs "vs_next_file vs" S] assms by (simp add: store_ok_def new_tables_only_def)
  then show "store_ok ops fs (vs\<lparr>vs_last_sequence := S\<rparr>) es" "store_runs ops fs (vs\<lparr>vs_last_sequence := S\<rparr>) = store_runs ops fs vs"
    using assms by (auto simp: store_ok_def numbers_ok_def sequences_ok_def store_runs_def intro: order_trans)
qed

text \<open>Adding updates to the memtable of a database adds them to all that it holds.\<close>

lemma updates_runs:
  assumes runs: "runs_ok (m # rs)" "\<And>x r. r \<in> set (m # rs) \<Longrightarrow> x \<in> set r \<Longrightarrow> sequence (fst x) < sq"
    and us: "list_all update_fits us" "unat sq + length us \<le> 2 ^ 56"
  shows "runs_ok (apply_updates sq us m # rs)" "merge_runs (apply_updates sq us m # rs) = apply_updates sq us (merge_runs (m # rs))"
    "seqs_below (unat sq) (merge_runs (m # rs))"
proof -
  have below: "seqs_below (unat sq) m" "seqs_below (unat sq) (merge_runs (m # rs))"
    using runs(2) by (auto simp: seqs_below_def set_merge_runs word_less_nat_alt)
  have wf: "wf_entries m" "wf_entries (merge_runs (m # rs))" using runs(1) wf_merge_runs by (auto simp: runs_ok_def)
  note ap = apply_updates_ok [OF wf(1) below(1) us] apply_updates_ok [OF wf(2) below(2) us]
  have newer: "newer_run (apply_updates sq us m) r" if "r \<in> set rs" for r
    unfolding newer_run_def
  proof (intro ballI impI)
    fix x y assume x: "x \<in> set (apply_updates sq us m)" and y: "y \<in> set r" and uk: "user_key (fst x) = user_key (fst y)"
    have "x \<in> set m \<or> sq \<le> sequence (fst x)" using x apply_updates_seqs [OF us(2), of x] by (subst (asm) set_apply_updates) auto
    moreover have "sequence (fst y) < sequence (fst x)" if "x \<in> set m"
      using runs(1) that y uk \<open>r \<in> set rs\<close> by (auto simp: runs_ok_def newer_run_def)
    ultimately show "sequence (fst y) < sequence (fst x)" using runs(2) [of r y] y that by auto
  qed
  then show runs': "runs_ok (apply_updates sq us m # rs)" using runs(1) ap(1) by (simp add: runs_ok_def)
  have "set (merge_runs (apply_updates sq us m # rs)) = set (apply_updates sq us (merge_runs (m # rs)))"
    using set_apply_updates [of sq us m] set_apply_updates [of sq us "merge_runs (m # rs)"] by (auto simp: set_merge_runs)
  then show "merge_runs (apply_updates sq us m # rs) = apply_updates sq us (merge_runs (m # rs))"
    using sorted_entries_unique wf_merge_runs [OF runs'] ap(2) by (simp add: wf_entries_def)
  show "seqs_below (unat sq) (merge_runs (m # rs))" by (rule below(2))
qed

text \<open>From the last sequence number on all entries are visible.\<close>

lemma visible_all:
  assumes "\<And>x. x \<in> set es \<Longrightarrow> sequence (fst x) \<le> S" "\<And>x. x \<in> set es \<Longrightarrow> sequence (fst x) \<le> S'"
  shows "visible es S = visible es S'"
proof
  fix uk
  have "newest es S uk = newest es S' uk" unfolding newest_def by (rule find_cong [OF refl]) (use assms in auto)
  then show "visible es S uk = visible es S' uk" by (simp add: visible_def)
qed

lemma db_entries_seq: "db_ok env db es \<Longrightarrow> x \<in> set (db_entries env db) \<Longrightarrow> sequence (fst x) \<le> vs_last_sequence (db_versions db)"
  using db_seq [of env db es _ x] by (auto simp: db_entries_def set_merge_runs)

text \<open>The database after the updates \<open>us\<close> are in its log and in its memtable.\<close>

lemma LogWrite_ok:
  assumes run: "running (k + kNumLevels * length us) env db" and log: "durable N db" and env: "env_ok env"
    and us: "list_all update_fits us" "unat (vs_last_sequence (db_versions db)) + length us < unat kMaxSequenceNumber"
      "entries_size (db_entries env db) + sum_list (map update_size us) < 2 ^ 31"
  defines "S \<equiv> vs_last_sequence (db_versions db) + word_of_nat (length us)"
  shows "\<exists>db1 db'. LogWrite env db sync (batch_rep (vs_last_sequence (db_versions db) + 1) us) = (Status_OK, db1) \<and>
    db' = db1\<lparr>db_versions := (db_versions db1)\<lparr>vs_last_sequence := S\<rparr>\<rparr> \<and> running k env db' \<and> durable (Suc N) db' \<and>
    contents_of env db' = foldl apply_update (contents_of env db) us \<and>
    contents_at env db' (vs_last_sequence (db_versions db)) = contents_of env db \<and> db_options db' = db_options db \<and>
    entries_size (db_entries env db') = entries_size (db_entries env db) + sum_list (map update_size us) \<and> db_name db' = db_name db"
proof -
  let ?vs = "db_versions db" and ?ops = "db_ops env db" and ?mem = "mem_entries (db_mem db)"
  let ?L = "vs_last_sequence (db_versions db)"
  define sq where "sq = ?L + 1"
  obtain es where ok: "db_ok env db es" using run by (auto simp: running_def active_def)
  obtain bs where bs: "db_log db = Some (log_writer bs)" "log_holds db (logfile_number db) (db_mem db) bs" "batches_end 1 bs \<le> Suc (unat ?L)" "length bs \<le> N"
    using log by (auto simp: durable_def log_logged_def)
  obtain s w' where add: "AddRecord (log_writer bs) (batch_rep sq us) = (s, w')" by fastforce
  note frag = AddRecord_fragments [OF wf_log_writer add]
  have w': "w' = log_writer (bs @ [(sq, us)])" using add by simp
  have max: "unat kMaxSequenceNumber = 2 ^ 56 - 1" by (simp add: kMaxSequenceNumber_def)
  have num: "unat sq = unat ?L + 1" "unat S = unat ?L + length us"
    using us(2) max unfolding sq_def S_def by (simp_all add: unat_word_ariths unat_of_nat take_bit_nat_def)
  have bnd: "unat sq + length us \<le> 2 ^ 56" using num us(2) max by simp
  have lt: "sequence (fst x) < sq" if "r \<in> set (db_runs env db)" "x \<in> set r" for x r
    using db_seq [OF ok that] num(1) by (simp add: word_less_nat_alt word_le_nat_alt)
  define rs where "rs = imm_runs db @ store_runs ?ops (files db) ?vs"
  have dr: "db_runs env db = ?mem # rs" by (simp add: db_runs_def rs_def)
  note up = updates_runs [OF db_okD(6) [OF ok, unfolded dr] lt [unfolded dr] us(1) bnd]
  have memwf: "wf_entries ?mem" "seqs_below (unat sq) ?mem"
    using mem_okD(2) [OF db_okD(4) [OF ok]] lt by (auto simp: seqs_below_def dr word_less_nat_alt)
  define mem' where "mem' = apply_updates sq us ?mem"
  have wf': "wf_entries mem'" using apply_updates_ok [OF memwf us(1) bnd] by (simp add: mem'_def)
  have ins: "InsertInto Bytewise_Compare (batch_rep sq us) (db_mem db) = (Status_OK, map entry_bytes mem')"
    using InsertInto_apply_updates [OF memwf us(1) bnd] mem_okD(1) [OF db_okD(4) [OF ok]] by (simp add: mem'_def)
  let ?fs = "AList.update (LogFileName (db_name db) (logfile_number db)) (written w') (files db)"
  define db1 where "db1 = db\<lparr>db_log := Some w', files := ?fs, db_mem := map entry_bytes mem'\<rparr>"
  define db' where "db' = db1\<lparr>db_versions := (db_versions db1)\<lparr>vs_last_sequence := S\<rparr>\<rparr>"
  have ok0: "Status_ok Status_OK" by (simp add: Status_ok_def)
  have "env_sync env n = Status_OK" for n using env by (simp add: env_ok_def)
  then have lw: "LogWrite env db sync (batch_rep sq us) = (Status_OK, db1)"
    using bs(1) add frag ins ok0 by (simp add: LogWrite_def db1_def Let_def)
  have le: "?L \<le> S" "S < kMaxSequenceNumber" using num us(2) by (simp_all add: word_le_nat_alt word_less_nat_alt)
  have name: "vs_dbname ?vs = db_name db" by (rule db_okD(1) [OF ok])
  note st1 = store_ok_log_file [OF db_okD(2) [OF ok] name, where n = "logfile_number db" and data = "written w'"]
  note st2 = store_ok_last_sequence [OF st1(1) le]
  have ents: "mem_entries (db_mem db') = mem'" using mem_entries_bytes wf' by (simp add: db'_def db1_def wf_entries_def)
  have d': "db_ops env db' = ?ops" "imm_runs db' = imm_runs db" "files db' = ?fs" "db_versions db' = ?vs\<lparr>vs_last_sequence := S\<rparr>"
    "db_name db' = db_name db" "db_imm db' = db_imm db" "db_options db' = db_options db"
    by (simp_all add: db'_def db1_def db_ops_def imm_runs_def)
  have runs: "db_runs env db' = mem' # rs" using st1(2) st2(2) d' ents by (simp add: db_runs_def rs_def)
  have merged: "db_entries env db' = apply_updates sq us (db_entries env db)"
    unfolding db_entries_def runs dr mem'_def by (rule up(2))
  have seqs: "seqs_below (unat sq + length us) (db_entries env db')"
    using apply_updates_ok [OF db_entries_wf [OF ok] _ us(1) bnd] up(3) merged by (simp add: db_entries_def dr)
  have seq': "sequence (fst x) \<le> S" if "x \<in> set mem' \<or> (\<exists>r \<in> set rs. x \<in> set r)" for x
  proof -
    have "x \<in> set (db_entries env db')" using that by (auto simp: db_entries_def set_merge_runs runs)
    then have "unat (sequence (fst x)) < unat sq + length us" using seqs by (simp add: seqs_below_def)
    then show ?thesis using num by (simp add: word_le_nat_alt)
  qed
  have "mem_ok (db_mem db')" using mem_ok_bytes [OF wf'] by (simp add: db'_def db1_def)
  then have ok': "db_ok env db' es"
    using ok st2(1) up(1) seq' unfolding db_ok_def d' runs ents mem'_def [symmetric] by (auto simp: rs_def)
  have W: "db_weight env db' = db_weight env db"
    using st1(3) d' by (simp add: db_weight_def table_entries_def db_ops_def)
  have len: "length (mem_entries (db_mem db')) = length ?mem + length us" by (simp add: ents mem'_def)
  have esz: "entries_size (db_entries env db') < 2 ^ 31" using us(3) by (simp add: merged entries_size_apply)
  have "bounded k env db'"
    using run esz unfolding running_def active_def bounded_def W len by (simp add: d' algebra_simps)
  then have run': "running k env db'"
    using run ok' unfolding running_def active_def needs_work_def by (auto simp: db'_def db1_def NeedsCompaction_def)
  have "durable (Suc N) db'"
  proof -
    have d: "vs_prev_log ?vs = 0" "0 < vs_log_number ?vs" "logfile_number db < vs_next_file ?vs" "imm_logged N db" "only_logs db"
      using log by (auto simp: durable_def)
    have "length us < 2 ^ 31" using length_updates [of us] us(3) by simp
    then have "batches_ok 1 (bs @ [(sq, us)])" "batches_end 1 (bs @ [(sq, us)]) \<le> Suc (unat S)"
      using bs(2,3) us(1) bnd us(2) max num by (auto simp: batches_ok_append log_holds_def)
    then have "log_logged (Suc N) db'"
      unfolding log_logged_def using bs(2,4) w' ents by (intro exI [of _ "bs @ [(sq, us)]"]) (simp add: log_holds_def d' mem'_def, simp add: db'_def db1_def)
    moreover have "imm_logged (Suc N) db'"
      using d(4) num(2) by (fastforce simp: imm_logged_def log_holds_def db'_def db1_def update_conv split: option.splits)
    moreover have "only_logs db'"
    proof -
      have "map_of (files db) (LogFileName (db_name db) (logfile_number db)) \<noteq> None" using bs(2) by (simp add: log_holds_def)
      then show ?thesis using d(5) unfolding only_logs_def by (simp add: db'_def db1_def update_conv)
    qed
    ultimately show ?thesis using d by (simp add: durable_def db'_def db1_def)
  qed
  moreover have "contents_of env db' = foldl apply_update (contents_of env db) us"
  proof -
    have "visible (db_entries env db) S = visible (db_entries env db) ?L"
      using db_entries_seq [OF ok] le(1) by (intro visible_all) (auto intro: order_trans)
    moreover have "visible (db_entries env db') S = foldl apply_update (visible (db_entries env db) S) us"
      using apply_updates_ok [OF db_entries_wf [OF ok] _ us(1) bnd] up(3) num unfolding merged by (simp add: db_entries_def dr)
    ultimately show ?thesis by (simp add: contents_of_def contents_at_def db_entries_def d')
  qed
  moreover have "contents_at env db' ?L = contents_of env db"
    using visible_apply_later [of ?L sq us "db_entries env db"] num(1) bnd merged
    by (simp add: contents_of_def contents_at_def db_entries_def)
  moreover have "entries_size (db_entries env db') = entries_size (db_entries env db) + sum_list (map update_size us)"
    by (simp add: merged entries_size_apply)
  ultimately show ?thesis using lw run' d'(5,7) unfolding sq_def db'_def by blast
qed

lemma sum_list_take: "sum_list (map f (take m xs)) \<le> sum_list (map f xs)" for f :: "'a \<Rightarrow> nat"
  by (metis append_take_drop_id le_add1 map_append sum_list_append)

lemma updates_of_take: "\<exists>rest. updates_of ws = updates_of (take m ws) @ rest"
  unfolding updates_of_def by (metis append_take_drop_id concat_append map_append)

lemma Write_ok:
  assumes run: "running (k + 2 + kNumLevels * length (us @ updates_of ws)) env db" and log: "durable N db" and env: "env_ok env"
    and usage: "env_usage env MemTable_new \<le> write_buffer_size (db_options db)"
    and fits: "list_all update_fits (us @ updates_of ws)"
      "unat (vs_last_sequence (db_versions db)) + length (us @ updates_of ws) < unat kMaxSequenceNumber"
      "entries_size (db_entries env db) + sum_list (map update_size (us @ updates_of ws)) < 2 ^ 31"
  shows "\<exists>db' m. Write env db (Some (batch_rep 0 us), sync) (map writer_rep ws) = Some (Status_OK, db', Suc m) \<and>
    m \<le> length ws \<and> (\<forall>w \<in> set (take m ws). snd w \<longrightarrow> sync) \<and> running k env db' \<and> durable (Suc N) db' \<and>
    contents_of env db' = foldl apply_update (contents_of env db) (us @ updates_of (take m ws)) \<and>
    contents_at env db' (vs_last_sequence (db_versions db)) = contents_of env db \<and> db_options db' = db_options db \<and> db_name db' = db_name db \<and>
    entries_size (db_entries env db') \<le> entries_size (db_entries env db) + sum_list (map update_size (us @ updates_of ws)) \<and>
    unat (vs_last_sequence (db_versions db')) \<le> unat (vs_last_sequence (db_versions db)) + length (us @ updates_of ws)"
proof -
  obtain m where m: "m \<le> length ws" "BuildBatchGroup (batch_rep 0 us) sync (map writer_rep ws) = (batch_rep 0 (us @ updates_of (take m ws)), Suc m)"
    "\<forall>w \<in> set (take m ws). snd w \<longrightarrow> sync" by (rule BuildBatchGroup_updates)
  define ups where "ups = us @ updates_of (take m ws)"
  obtain rest where rest: "us @ updates_of ws = ups @ rest" using updates_of_take [of ws m] by (auto simp: ups_def)
  have run2: "running ((k + kNumLevels * length ups) + 2) env db"
    by (rule running_mono [OF run]) (simp add: rest algebra_simps)
  obtain db1 where room: "MakeRoomForWrite env False db = Some (Status_OK, db1)" "room_made N (k + kNumLevels * length ups) env db db1"
    using MakeRoom_loop_ok [OF run2 log env usage, of False True] by (auto simp: MakeRoomForWrite_def)
  have run1: "running (k + kNumLevels * length ups) env db1" "durable N db1" and last: "vs_last_sequence (db_versions db1) = vs_last_sequence (db_versions db)"
    and cont: "contents_of env db1 = contents_of env db" and opts: "db_options db1 = db_options db" and name: "db_name db1 = db_name db"
    and sub: "set (db_entries env db1) \<subseteq> set (db_entries env db)"
    using room(2) by (auto simp: room_made_def contents_of_def)
  obtain es es1 where ok: "db_ok env db es" "db_ok env db1 es1" using run run1(1) by (auto simp: running_def active_def)
  have size: "entries_size (db_entries env db1) \<le> entries_size (db_entries env db)"
    by (rule entries_size_mono(1) [OF db_entries_wf [OF ok(2)] db_entries_wf [OF ok(1)] sub])
  let ?L = "vs_last_sequence (db_versions db)"
  have fits1: "list_all update_fits ups" "unat (vs_last_sequence (db_versions db1)) + length ups < unat kMaxSequenceNumber"
    "entries_size (db_entries env db1) + sum_list (map update_size ups) < 2 ^ 31"
    using fits size last unfolding rest by simp_all
  note lw = LogWrite_ok [OF run1 env fits1, of sync, unfolded last]
  then obtain db2 db' where w: "LogWrite env db1 sync (batch_rep (?L + 1) ups) = (Status_OK, db2)"
    "db' = db2\<lparr>db_versions := (db_versions db2)\<lparr>vs_last_sequence := ?L + word_of_nat (length ups)\<rparr>\<rparr>" "running k env db'" "durable (Suc N) db'"
    "contents_of env db' = foldl apply_update (contents_of env db1) ups" "contents_at env db' ?L = contents_of env db1" "db_options db' = db_options db1"
    "entries_size (db_entries env db') = entries_size (db_entries env db1) + sum_list (map update_size ups)" "db_name db' = db_name db1"
    by blast
  have "length ups < 2 ^ 31" using length_updates [of ups] fits1(3) by simp
  then have cnt: "scast (WriteBatch_Count (batch_rep sq ups)) = (word_of_nat (length ups) :: u64)" for sq
    by (simp add: scast_count)
  have "Write env db (Some (batch_rep 0 us), sync) (map writer_rep ws) = Some (Status_OK, db', Suc m)"
    using room(1) m(2) w(1,2) last cnt by (simp add: Write_def ups_def [symmetric] WriteBatch_refines Status_ok_def)
  moreover have "entries_size (db_entries env db') \<le> entries_size (db_entries env db) + sum_list (map update_size (us @ updates_of ws))"
    using w(8) size unfolding rest by simp
  moreover have "unat (vs_last_sequence (db_versions db')) \<le> unat ?L + length (us @ updates_of ws)"
    using fits1(2) last unfolding rest w(2) by (simp add: unat_word_ariths unat_of_nat take_bit_nat_def)
  ultimately show ?thesis using m w(3-7,9) cont opts name by (intro exI [of _ db'] exI [of _ m]) (simp add: ups_def)
qed

end
