(* ===== verification/DB_Recovery.thy ===== *)
theory DB_Recovery
  imports DB_Writes
begin

text \<open>
  Opening a database: \<^verbatim>\<open>DBImpl::Recover\<close> and \<^verbatim>\<open>DB::Open\<close>. Recovery reads the manifest and the logs, and the
  database that it gives has the contents that the files stand for. So nothing that was written is lost when
  a database is closed, or its process ends, and the database is opened again.
\<close>

section \<open>Tables made during recovery\<close>

text \<open>
  The tables \<open>ts\<close>, oldest first, that recovery has written from the state \<open>db0\<close> on, and their metadata \<open>fl\<close>.
\<close>

definition dumped_file :: "table_ops \<Rightarrow> DBImpl \<Rightarrow> DBImpl \<Rightarrow> FileMetaData \<Rightarrow> entry list \<Rightarrow> bool" where
  "dumped_file ops db0 db f xs \<longleftrightarrow> wf_entries xs \<and> xs \<noteq> [] \<and> entries_size xs < 2 ^ 31 \<and>
     file_size f = word_of_nat (length (tb_Finish ops (map raw_entry xs))) \<and> smallest f = ikey (hd xs) \<and> largest f = ikey (last xs) \<and>
     refs f = 0 \<and> allowed_seeks f = 2 ^ 30 \<and>
     map_of (files db) (TableFileName (db_name db0) (number f)) = Some (tb_Finish ops (map raw_entry xs)) \<and>
     vs_next_file (db_versions db0) \<le> number f \<and> number f < vs_next_file (db_versions db)"

definition moved_on :: "DBImpl \<Rightarrow> DBImpl \<Rightarrow> bool" where
  "moved_on db0 db \<longleftrightarrow> (\<exists>n fs. db = db0\<lparr>db_versions := (db_versions db0)\<lparr>vs_next_file := n\<rparr>, files := fs\<rparr>)"

definition dumped :: "table_ops \<Rightarrow> DBImpl \<Rightarrow> DBImpl \<Rightarrow> VersionEdit \<Rightarrow> FileMetaData list \<Rightarrow> entry list list \<Rightarrow> bool" where
  "dumped ops db0 db edit fl ts \<longleftrightarrow>
     moved_on db0 db \<and> edit = VersionEdit_new\<lparr>new_files := map (\<lambda>f. (0, f)) fl\<rparr> \<and> vs_next_file (db_versions db0) \<le> vs_next_file (db_versions db) \<and>
     list_all2 (dumped_file ops db0 db) fl ts \<and> sorted_wrt (<) (map number fl) \<and>
     new_tables_only (db_versions db0) (files db0) (files db) \<and> sorted_wrt (\<lambda>a b. newer (set b) (set a)) ts"

lemma dumped_start: "vs_dbname (db_versions db) = db_name db \<Longrightarrow> dumped ops db db VersionEdit_new [] []"
  by (auto simp: dumped_def moved_on_def new_tables_only_def VersionEdit_new_def intro!: exI [of _ "vs_next_file (db_versions db)"] exI [of _ "files db"])

lemma dump:
  assumes env: "env_ok env" and d: "dumped (db_ops env db0) db0 db edit fl ts" and db0: "vs_dbname (db_versions db0) = db_name db0" "pending_outputs db0 = {}"
    and mem: "mem_ok mem" "entries_size (mem_entries mem) < 2 ^ 31" "\<And>t. t \<in> set ts \<Longrightarrow> newer (set (mem_entries mem)) (set t)"
    and room: "vs_next_file (db_versions db) < vs_next_file (db_versions db) + 1"
    and r: "WriteLevel0Table env db mem edit None = (s, db', edit')"
  shows "s = Status_OK" "\<exists>fl'. dumped (db_ops env db0) db0 db' edit' fl' (ts @ (if mem_entries mem = [] then [] else [mem_entries mem]))"
    "vs_next_file (db_versions db') = vs_next_file (db_versions db) + 1"
proof -
  let ?ops = "db_ops env db0" and ?n = "vs_next_file (db_versions db)" and ?xs = "mem_entries mem" and ?name = "db_name db0"
  let ?data = "tb_Finish ?ops (map raw_entry ?xs)"
  obtain n0 fs0 where db: "db = db0\<lparr>db_versions := (db_versions db0)\<lparr>vs_next_file := n0\<rparr>, files := fs0\<rparr>"
    using d unfolding dumped_def moved_on_def by blast
  have f: "db_name db = ?name" "pending_outputs db = {}" "db_ops env db = ?ops" "vs_dbname (db_versions db) = ?name"
    using db0 by (simp_all add: db db_ops_def)
  note w = WriteLevel0Table_ok [OF env mem(1,2) r, unfolded f]
  show "s = Status_OK" using w(1,3) by (cases "?xs = []") simp_all
  define fs' where "fs' = files db'"
  have db': "db' = db\<lparr>db_versions := (db_versions db)\<lparr>vs_next_file := ?n + 1\<rparr>, files := fs'\<rparr>"
  proof -
    have same: "x\<lparr>pending_outputs := {}\<rparr> = x" if "pending_outputs x = {}" for x :: DBImpl using that by (cases x) simp
    have "db' = (db\<lparr>db_versions := (db_versions db)\<lparr>vs_next_file := ?n + 1\<rparr>, files := fs'\<rparr>)\<lparr>pending_outputs := {}\<rparr>"
      unfolding fs'_def using w(2,4) by (cases "?xs = []") simp_all
    then show ?thesis using same [of "db\<lparr>db_versions := (db_versions db)\<lparr>vs_next_file := ?n + 1\<rparr>, files := fs'\<rparr>"] f(2) by simp
  qed
  then show "vs_next_file (db_versions db') = ?n + 1" by simp
  have fs': "map_of fs' x = map_of (files db) x" if "x \<noteq> TableFileName ?name ?n" for x
    unfolding fs'_def using w(2,4) that by (cases "?xs = []") (simp_all add: delete_conv update_conv)
  have le0: "vs_next_file (db_versions db0) \<le> ?n" using d by (simp add: dumped_def)
  have old: "list_all2 (dumped_file ?ops db0 db') fl ts"
  proof -
    have "list_all2 (dumped_file ?ops db0 db) fl ts" using d by (simp add: dumped_def)
    then show ?thesis
    proof (rule list_all2_mono)
      fix g t assume "dumped_file ?ops db0 db g t"
      then show "dumped_file ?ops db0 db' g t" using room fs' by (auto simp: dumped_file_def db')
    qed
  qed
  have new: "new_tables_only (db_versions db0) (files db0) fs'"
    using d fs' le0 db0(1) unfolding dumped_def new_tables_only_def by (metis leD)
  have base: "moved_on db0 db'" unfolding moved_on_def by (intro exI [of _ "?n + 1"] exI [of _ fs']) (simp add: db' db)
  have le: "vs_next_file (db_versions db0) \<le> vs_next_file (db_versions db')"
    using le0 room by (simp add: db')
  show "\<exists>fl'. dumped ?ops db0 db' edit' fl' (ts @ (if ?xs = [] then [] else [?xs]))"
  proof (cases "?xs = []")
    case True
    then have "dumped ?ops db0 db' edit' fl ts"
      using d w(2) old new base le unfolding dumped_def fs'_def by simp
    then show ?thesis using True by auto
  next
    case False
    let ?f = "new_FileMetaData ?n (word_of_nat (length ?data)) (ikey (hd ?xs)) (ikey (last ?xs))"
    have "dumped_file ?ops db0 db' ?f ?xs"
      using mem False w(4) [OF False] room le0 mem_okD(2) [OF mem(1)] by (simp add: dumped_file_def new_FileMetaData_def update_conv)
    moreover have "edit' = VersionEdit_new\<lparr>new_files := map (\<lambda>f. (0, f)) (fl @ [?f])\<rparr>"
      using w(4) [OF False] d by (simp add: dumped_def AddFile_def)
    moreover have "sorted_wrt (<) (map number (fl @ [?f]))"
    proof -
      have "number g < ?n" if "g \<in> set fl" for g
        using d that by (fastforce simp: dumped_def dumped_file_def list_all2_conv_all_nth in_set_conv_nth)
      then show ?thesis using d by (auto simp: dumped_def sorted_wrt_append new_FileMetaData_def)
    qed
    moreover have "sorted_wrt (\<lambda>a b. newer (set b) (set a)) (ts @ [?xs])" using d mem(3) by (simp add: dumped_def sorted_wrt_append)
    ultimately have "dumped ?ops db0 db' edit' (fl @ [?f]) (ts @ [?xs])"
      using old new base le unfolding dumped_def fs'_def by (simp add: list_all2_appendI)
    then show ?thesis using False by auto
  qed
qed

section \<open>Reading a log\<close>

definition ls_entries :: "LogState \<Rightarrow> entry list" where
  "ls_entries st = (case ls_mem st of None \<Rightarrow> [] | Some m \<Rightarrow> mem_entries m)"

text \<open>
  After the entries \<open>P\<close> have been read: they are in the tables made so far and in the memtable, which has
  the last of them, and whose sequence numbers are below \<open>n\<close>.
\<close>

definition log_state :: "db_env \<Rightarrow> u64 \<Rightarrow> DBImpl \<Rightarrow> nat \<Rightarrow> entry set \<Rightarrow> LogState \<Rightarrow> bool" where
  "log_state env M db0 n P st \<longleftrightarrow> (\<exists>fl ts. dumped (db_ops env db0) db0 (ls_db st) (ls_edit st) fl ts \<and>
     (\<forall>t \<in> set ts. newer (set (ls_entries st)) (set t)) \<and> set (ls_entries st) \<union> \<Union> (set ` set ts) = P) \<and>
     (\<forall>m. ls_mem st = Some m \<longrightarrow> mem_ok m) \<and> seqs_below n (ls_entries st) \<and>
     (\<forall>x \<in> P. sequence (fst x) \<le> ls_max st) \<and> ls_max st \<le> M"

lemma seqs_below_mono: "seqs_below n es \<Longrightarrow> n \<le> m \<Longrightarrow> seqs_below m es"
  by (auto simp: seqs_below_def)

definition batch_entries :: "u64 \<times> update list \<Rightarrow> entry set" where
  "batch_entries b = set (apply_updates (fst b) (snd b) [])"

lemma RecoverRecord_ok:
  assumes env: "env_ok env" and db0: "vs_dbname (db_versions db0) = db_name db0" "pending_outputs db0 = {}"
    and st: "log_state env M db0 n P st" and b: "batches_ok n [(sq, us)]" "0 < unat sq" "newer (batch_entries (sq, us)) P"
    and all: "wf_entries whole" "entries_size whole < 2 ^ 31" "P \<union> batch_entries (sq, us) \<subseteq> set whole"
    and room: "vs_next_file (db_versions (ls_db st)) < vs_next_file (db_versions (ls_db st)) + 1" and M: "unat sq + length us \<le> Suc (unat M)"
  shows "\<exists>st'. RecoverRecord env (batch_rep sq us) Status_OK st = (Status_OK, st') \<and>
    log_state env M db0 (unat sq + length us) (P \<union> batch_entries (sq, us)) st' \<and>
    (vs_next_file (db_versions (ls_db st')) = vs_next_file (db_versions (ls_db st)) \<or>
     vs_next_file (db_versions (ls_db st')) = vs_next_file (db_versions (ls_db st)) + 1)"
proof -
  let ?B = "batch_entries (sq, us)"
  obtain fl ts where d: "dumped (db_ops env db0) db0 (ls_db st) (ls_edit st) fl ts" "\<forall>t \<in> set ts. newer (set (ls_entries st)) (set t)"
    "set (ls_entries st) \<union> \<Union> (set ` set ts) = P" using st by (auto simp: log_state_def)
  have s: "seqs_below n (ls_entries st)" "\<forall>x \<in> P. sequence (fst x) \<le> ls_max st" "ls_max st \<le> M"
    "\<And>m. ls_mem st = Some m \<Longrightarrow> mem_ok m" using st by (simp_all add: log_state_def)
  have bb: "n \<le> unat sq" "list_all update_fits us" "unat sq + length us < 2 ^ 56" "length us < 2 ^ 31" using b(1) by simp_all
  define m where "m = (case ls_mem st of None \<Rightarrow> MemTable_new | Some m \<Rightarrow> m)"
  have m: "mem_ok m" "mem_entries m = ls_entries st" using s(4) by (auto simp: m_def ls_entries_def split: option.splits)
  have wf: "wf_entries (ls_entries st)" using mem_okD(2) [OF m(1)] m(2) by simp
  have below: "seqs_below (unat sq) (ls_entries st)" using seqs_below_mono [OF s(1) bb(1)] .
  define es where "es = apply_updates sq us (ls_entries st)"
  have es: "wf_entries es" "seqs_below (unat sq + length us) es" using apply_updates_ok [OF wf below bb(2)] bb(3) by (simp_all add: es_def)
  have es_set: "set es = set (ls_entries st) \<union> ?B" unfolding es_def batch_entries_def by (subst set_apply_updates) simp
  have ins: "InsertInto Bytewise_Compare (batch_rep sq us) m = (Status_OK, map entry_bytes es)"
    using InsertInto_apply_updates [OF wf below bb(2)] bb(3) mem_okD(1) [OF m(1)] m(2) by (simp add: es_def)
  have mem': "mem_ok (map entry_bytes es)" "mem_entries (map entry_bytes es) = es"
    using mem_ok_bytes [OF es(1)] mem_entries_bytes es(1) by (simp_all add: wf_entries_def)
  have newer: "newer (set es) (set t)" if "t \<in> set ts" for t
  proof -
    have "newer (set (ls_entries st)) (set t)" "set t \<subseteq> P" using d that by auto
    then show ?thesis using b(3) unfolding es_set newer_def by blast
  qed
  define last where "last = sq + scast (WriteBatch_Count (batch_rep sq us)) - 1"
  have last: "unat last = unat sq + length us - 1"
  proof -
    have "unat (sq + scast (word_of_nat (length us) :: u32)) = unat sq + length us"
      using bb(3,4) by (simp add: scast_count unat_word_ariths unat_of_nat take_bit_nat_eq_self)
    then show ?thesis using b(2) unfolding last_def batch_fields by (subst unat_sub) (simp_all add: word_le_nat_alt)
  qed
  define mx where "mx = (if last > ls_max st then last else ls_max st)"
  have mx: "sequence (fst x) \<le> mx" if "x \<in> P \<union> ?B" for x
  proof (cases "x \<in> P")
    case True
    then show ?thesis using s(2) by (auto simp: mx_def)
  next
    case False
    then have "x \<in> set es" using that es_set by simp
    then have "unat (sequence (fst x)) < unat sq + length us" using es(2) by (simp add: seqs_below_def)
    then show ?thesis using last by (auto simp: mx_def word_le_nat_alt word_less_nat_alt)
  qed
  have mx_lt: "mx \<le> M" using s(3) last M by (auto simp: mx_def word_le_nat_alt)
  let ?st1 = "st\<lparr>ls_mem := Some (map entry_bytes es), ls_max := mx\<rparr>"
  have ok0: "Status_ok Status_OK" by (simp add: Status_ok_def)
  have mi: "MaybeIgnoreError x Status_OK = Status_OK" for x by (simp add: MaybeIgnoreError_def ok0)
  have step: "RecoverRecord env (batch_rep sq us) Status_OK st =
      (if env_usage env (map entry_bytes es) > write_buffer_size (db_options (ls_db st))
       then (case WriteLevel0Table env (ls_db st) (map entry_bytes es) (ls_edit st) None of
               (s, db, edit) \<Rightarrow> (s, if Status_ok s then ?st1\<lparr>ls_db := db, ls_edit := edit, ls_mem := None\<rparr> else ?st1\<lparr>ls_db := db, ls_edit := edit\<rparr>))
       else (Status_OK, ?st1))"
  proof -
    have len: "\<not> length (batch_rep sq us) < 12" unfolding not_less by (rule batch_fields(4))
    have l: "sq + scast (word_of_nat (length us) :: u32) - 1 = last" by (simp add: last_def)
    note defs = RecoverRecord_def WriteBatch_SetContents_def m_def [symmetric] mi Let_def l
    show ?thesis
    proof (cases "last > ls_max st")
      case True
      then have "mx = last" by (simp add: mx_def)
      then show ?thesis using len ins ok0 True unfolding \<open>mx = last\<close> by (simp add: defs)
    next
      case False
      then have st1: "?st1 = st\<lparr>ls_mem := Some (map entry_bytes es)\<rparr>" by (cases st) (simp add: mx_def)
      show ?thesis unfolding st1 using len ins ok0 False by (simp add: defs)
    qed
  qed
  show ?thesis
  proof (cases "env_usage env (map entry_bytes es) > write_buffer_size (db_options (ls_db st))")
    case False
    have "log_state env M db0 (unat sq + length us) (P \<union> ?B) ?st1"
      unfolding log_state_def using d newer es_set es(2) mem' mx mx_lt by (intro conjI exI [of _ fl] exI [of _ ts]) (auto simp: ls_entries_def)
    then show ?thesis using step False by (intro exI [of _ ?st1]) simp
  next
    case True
    obtain s1 db1 edit1 where w: "WriteLevel0Table env (ls_db st) (map entry_bytes es) (ls_edit st) None = (s1, db1, edit1)" by (metis prod_cases3)
    have "set es \<subseteq> set whole" using all(3) es_set d(3) by auto
    then have "entries_size es < 2 ^ 31" using entries_size_mono(1) [OF es(1) all(1)] all(2) by simp
    note dm = dump [OF env d(1) db0 mem'(1), unfolded mem'(2), OF this newer room w]
    let ?st2 = "?st1\<lparr>ls_db := db1, ls_edit := edit1, ls_mem := None\<rparr>"
    obtain fl' where "dumped (db_ops env db0) db0 db1 edit1 fl' (ts @ (if es = [] then [] else [es]))" using dm(2) by blast
    moreover have "\<Union> (set ` set (ts @ (if es = [] then [] else [es]))) = P \<union> ?B"
      using es_set d(3) by (cases "es = []") auto
    ultimately have "log_state env M db0 (unat sq + length us) (P \<union> ?B) ?st2"
      unfolding log_state_def using mx mx_lt
      by (intro conjI exI [of _ fl'] exI [of _ "ts @ (if es = [] then [] else [es])"]) (auto simp: ls_entries_def newer_def seqs_below_def)
    then show ?thesis using step True w dm(1,3) ok0 by (intro exI [of _ ?st2]) simp
  qed
qed

fun newer_batches :: "entry set \<Rightarrow> batches \<Rightarrow> bool" where
  "newer_batches P [] \<longleftrightarrow> True"
| "newer_batches P (b # bs) \<longleftrightarrow> newer (batch_entries b) P \<and> newer_batches (P \<union> batch_entries b) bs"

lemma newer_batches_append:
  "newer_batches P (bs @ bs') \<longleftrightarrow> newer_batches P bs \<and> newer_batches (P \<union> \<Union> (batch_entries ` set bs)) bs'"
  by (induction P bs rule: newer_batches.induct) (auto simp: Un_assoc)

lemma RecoverLog_loop_ok:
  assumes env: "env_ok env" and db0: "vs_dbname (db_versions db0) = db_name db0" "pending_outputs db0 = {}"
    and "wf_writer w" "reader_at r (written (AddRecords w (map (\<lambda>(sq, us). batch_rep sq us) bs))) (length (written w))"
    and "log_state env M db0 n P st" "batches_ok n bs" "0 < n" "newer_batches P bs"
    and all: "wf_entries whole" "entries_size whole < 2 ^ 31" and "P \<union> \<Union> (batch_entries ` set bs) \<subseteq> set whole"
    and "unat (vs_next_file (db_versions (ls_db st))) + length bs < 2 ^ 64" "\<forall>(sq, us) \<in> set bs. unat sq + length us \<le> Suc (unat M)"
  shows "\<exists>st'. RecoverLog_loop env r Status_OK st = (Status_OK, st') \<and>
    log_state env M db0 (batches_end n bs) (P \<union> \<Union> (batch_entries ` set bs)) st' \<and>
    unat (vs_next_file (db_versions (ls_db st'))) \<le> unat (vs_next_file (db_versions (ls_db st))) + length bs \<and>
    vs_next_file (db_versions (ls_db st)) \<le> vs_next_file (db_versions (ls_db st'))"
  using assms(4-9,12-)
proof (induction bs arbitrary: w r n P st)
  case Nil
  then obtain r' where "ReadRecord r = (None, r')" "reports r' = reports r"
    using ReadRecord_end [of r "written w"] by auto
  then have "RecoverLog_loop env r Status_OK st = (Status_OK, st)" by (subst RecoverLog_loop.simps) (simp add: LogReporter_def)
  then show ?case using Nil.prems by simp
next
  case (Cons b bs)
  obtain sq us where b: "b = (sq, us)" by fastforce
  let ?next = "vs_next_file (db_versions (ls_db st))" and ?recs = "map (\<lambda>(sq, us). batch_rep sq us) bs"
  obtain s w' where w': "AddRecord w (batch_rep sq us) = (s, w')" by fastforce
  note fr = AddRecord_fragments [OF Cons.prems(1) w']
  then obtain rest where "written (AddRecords w' ?recs) = written w' @ rest" using AddRecords_extends by blast
  with ReadRecord_after [OF Cons.prems(1) w'] Cons.prems(2) w' b
  obtain r' where r': "ReadRecord r = (Some (batch_rep sq us), r')" "reader_at r' (written (AddRecords w' ?recs)) (length (written w'))" "reports r' = reports r"
    by auto
  have bo: "batches_ok n [(sq, us)]" "batches_ok (unat sq + length us) bs" "0 < unat sq" using Cons.prems(4,5) b by auto
  have nb: "newer (batch_entries (sq, us)) P" "newer_batches (P \<union> batch_entries (sq, us)) bs" using Cons.prems(6) b by simp_all
  have sub: "P \<union> batch_entries (sq, us) \<subseteq> set whole" using Cons.prems(7) b by auto
  have nx: "unat (?next + 1) = unat ?next + 1" using Cons.prems(8) by (simp add: unat_word_ariths)
  then have room: "?next < ?next + 1" by (simp add: word_less_nat_alt)
  obtain st1 where st1: "RecoverRecord env (batch_rep sq us) Status_OK st = (Status_OK, st1)"
    "log_state env M db0 (unat sq + length us) (P \<union> batch_entries (sq, us)) st1" "unat (vs_next_file (db_versions (ls_db st1))) \<le> unat ?next + 1"
    "?next \<le> vs_next_file (db_versions (ls_db st1))"
    using RecoverRecord_ok [OF env db0 Cons.prems(3) bo(1,3) nb(1) all sub room] Cons.prems(9) b nx room by (auto simp: less_imp_le)
  have "\<exists>st'. RecoverLog_loop env r' Status_OK st1 = (Status_OK, st') \<and>
      log_state env M db0 (batches_end (unat sq + length us) bs) ((P \<union> batch_entries (sq, us)) \<union> \<Union> (batch_entries ` set bs)) st' \<and>
      unat (vs_next_file (db_versions (ls_db st'))) \<le> unat (vs_next_file (db_versions (ls_db st1))) + length bs \<and>
      vs_next_file (db_versions (ls_db st1)) \<le> vs_next_file (db_versions (ls_db st'))"
    using fr r'(2) st1 bo nb(2) Cons.prems(7-9) b by (intro Cons.IH) auto
  moreover have "RecoverLog_loop env r Status_OK st = RecoverLog_loop env r' Status_OK st1"
    using r' st1(1) by (subst RecoverLog_loop.simps) (simp add: LogReporter_def Status_ok_def)
  ultimately show ?case using st1(3,4) b by (fastforce simp: Un_assoc intro: order_trans)
qed

text \<open>Between two logs there is no memtable.\<close>

definition recovering :: "db_env \<Rightarrow> u64 \<Rightarrow> DBImpl \<Rightarrow> entry set \<Rightarrow> DBImpl \<Rightarrow> VersionEdit \<Rightarrow> u64 \<Rightarrow> bool" where
  "recovering env M db0 P db edit m \<longleftrightarrow> (\<exists>fl ts. dumped (db_ops env db0) db0 db edit fl ts \<and> \<Union> (set ` set ts) = P) \<and>
     (\<forall>x \<in> P. sequence (fst x) \<le> m) \<and> m \<le> M"

lemma recovering_log_state:
  "recovering env M db0 P db edit m \<longleftrightarrow> log_state env M db0 n P \<lparr>ls_db = db, ls_mem = None, ls_edit = edit, ls_max = m\<rparr>"
  by (auto simp: recovering_def log_state_def ls_entries_def newer_def seqs_below_def)

lemma RecoverLogFile_ok:
  assumes env: "env_ok env" and db0: "vs_dbname (db_versions db0) = db_name db0" "pending_outputs db0 = {}"
    and rec: "recovering env M db0 P db edit m" and lfile: "map_of (files db0) (LogFileName (db_name db0) n) = Some (written (log_writer bs))"
    and bs: "batches_ok 1 bs" "newer_batches P bs"
    and all: "wf_entries whole" "entries_size whole < 2 ^ 31" "P \<union> \<Union> (batch_entries ` set bs) \<subseteq> set whole"
    and room: "unat (vs_next_file (db_versions db)) + length bs + 1 < 2 ^ 64" and M: "\<forall>(sq, us) \<in> set bs. unat sq + length us \<le> Suc (unat M)"
  shows "\<exists>db' edit' m'. RecoverLogFile env db n edit m = (Status_OK, db', edit', m') \<and>
    recovering env M db0 (P \<union> \<Union> (batch_entries ` set bs)) db' edit' m' \<and>
    unat (vs_next_file (db_versions db')) \<le> unat (vs_next_file (db_versions db)) + length bs + 1 \<and>
    vs_next_file (db_versions db) \<le> vs_next_file (db_versions db')"
proof -
  let ?B = "P \<union> \<Union> (batch_entries ` set bs)" and ?st = "\<lparr>ls_db = db, ls_mem = None, ls_edit = edit, ls_max = m\<rparr>"
  obtain fl ts where d: "dumped (db_ops env db0) db0 db edit fl ts" using rec by (auto simp: recovering_def)
  have name: "db_name db = db_name db0" using d by (auto simp: dumped_def moved_on_def)
  have "map_of (files db) (LogFileName (db_name db0) n) = map_of (files db0) (LogFileName (db_name db0) n)"
    using d db0(1) by (simp add: dumped_def new_tables_only_def)
  then have opn: "NewSequentialFile (env_read env) (files db) (LogFileName (db_name db) n) =
      Inr \<lparr>unread = written (log_writer bs), read_outcomes = [], skip_status = Status_OK\<rparr>"
    using env lfile name by (simp add: NewSequentialFile_def env_ok_def no_read_failures_def)
  have rd: "reader_at (open_log (written (log_writer bs)) True True) (written (AddRecords (Writer_new new_log) (map (\<lambda>(sq, us). batch_rep sq us) bs)))
      (length (written (Writer_new new_log)))"
    by (simp add: log_writer_def Writer_new_def reader_at_new)
  have st: "log_state env M db0 1 P ?st" using rec recovering_log_state by blast
  have "unat (vs_next_file (db_versions (ls_db ?st))) + length bs < 2 ^ 64" using room by simp
  from RecoverLog_loop_ok [OF env db0 wf_new_log rd st bs(1) _ bs(2) all this M]
  obtain st' where loop: "RecoverLog_loop env (open_log (written (log_writer bs)) True True) Status_OK ?st = (Status_OK, st')"
    "log_state env M db0 (batches_end 1 bs) ?B st'" "unat (vs_next_file (db_versions (ls_db st'))) \<le> unat (vs_next_file (db_versions db)) + length bs"
    "vs_next_file (db_versions db) \<le> vs_next_file (db_versions (ls_db st'))"
    by auto
  show ?thesis
  proof (cases "ls_mem st'")
    case None
    then have "st' = \<lparr>ls_db = ls_db st', ls_mem = None, ls_edit = ls_edit st', ls_max = ls_max st'\<rparr>" by (cases st') simp
    then have "recovering env M db0 ?B (ls_db st') (ls_edit st') (ls_max st')" using loop(2) recovering_log_state by metis
    then show ?thesis using opn loop None by (auto simp: RecoverLogFile_def)
  next
    case (Some mem)
    obtain fl ts where d: "dumped (db_ops env db0) db0 (ls_db st') (ls_edit st') fl ts" "\<forall>t \<in> set ts. newer (set (mem_entries mem)) (set t)"
      "set (mem_entries mem) \<union> \<Union> (set ` set ts) = ?B" "mem_ok mem" "\<forall>x \<in> ?B. sequence (fst x) \<le> ls_max st'" "ls_max st' \<le> M"
      using loop(2) Some by (auto simp: log_state_def ls_entries_def)
    have "set (mem_entries mem) \<subseteq> set whole" using d(3) all(3) by blast
    then have "entries_size (mem_entries mem) < 2 ^ 31" using entries_size_mono(1) [OF mem_okD(2) [OF d(4)] all(1)] all(2) by simp
    moreover have nx: "unat (vs_next_file (db_versions (ls_db st')) + 1) = unat (vs_next_file (db_versions (ls_db st'))) + 1"
      using loop(3) room by (simp add: unat_word_ariths)
    ultimately have dm: "s = Status_OK \<and> (\<exists>fl'. dumped (db_ops env db0) db0 db' edit' fl' (ts @ (if mem_entries mem = [] then [] else [mem_entries mem]))) \<and>
        vs_next_file (db_versions db') = vs_next_file (db_versions (ls_db st')) + 1"
      if "WriteLevel0Table env (ls_db st') mem (ls_edit st') None = (s, db', edit')" for s db' edit'
      using dump [OF env d(1) db0 d(4) _ _ _ that] d(2) by (simp add: word_less_nat_alt)
    obtain s db' edit' where w: "WriteLevel0Table env (ls_db st') mem (ls_edit st') None = (s, db', edit')" by (metis prod_cases3)
    have "\<Union> (set ` set (ts @ (if mem_entries mem = [] then [] else [mem_entries mem]))) = ?B"
      using d(3) by (cases "mem_entries mem = []") auto
    then have "recovering env M db0 ?B db' edit' (ls_max st')" using dm [OF w] d(5,6) unfolding recovering_def by blast
    moreover have "RecoverLogFile env db n edit m = (Status_OK, db', edit', ls_max st')"
      using opn loop(1) Some w dm [OF w] by (simp add: RecoverLogFile_def Status_ok_def)
    moreover have "vs_next_file (db_versions db) \<le> vs_next_file (db_versions db')" using dm [OF w] nx loop(4) by (simp add: word_le_nat_alt)
    ultimately show ?thesis using dm [OF w] nx loop(3) by auto
  qed
qed

section \<open>All logs\<close>

lemma recovering_mark:
  assumes "recovering env M db0 P db edit m" and n: "unat (n + 1) = unat n + 1"
  shows "recovering env M db0 P (db\<lparr>db_versions := MarkFileNumberUsed n (db_versions db)\<rparr>) edit m"
    "unat (vs_next_file (MarkFileNumberUsed n vs)) \<le> max (unat (vs_next_file vs)) (unat n + 1)"
    "n < vs_next_file (MarkFileNumberUsed n vs)" "vs_next_file vs \<le> vs_next_file (MarkFileNumberUsed n vs)"
proof -
  let ?db = "db\<lparr>db_versions := MarkFileNumberUsed n (db_versions db)\<rparr>"
  show "unat (vs_next_file (MarkFileNumberUsed n vs)) \<le> max (unat (vs_next_file vs)) (unat n + 1)"
    "n < vs_next_file (MarkFileNumberUsed n vs)" "vs_next_file vs \<le> vs_next_file (MarkFileNumberUsed n vs)"
    using n by (auto simp: MarkFileNumberUsed_def word_le_nat_alt word_less_nat_alt)
  have le: "vs_next_file (db_versions db) \<le> vs_next_file (db_versions ?db)"
    using n by (auto simp: MarkFileNumberUsed_def word_le_nat_alt)
  obtain fl ts where d: "dumped (db_ops env db0) db0 db edit fl ts" "\<Union> (set ` set ts) = P" using assms(1) by (auto simp: recovering_def)
  obtain k fs where db: "db = db0\<lparr>db_versions := (db_versions db0)\<lparr>vs_next_file := k\<rparr>, files := fs\<rparr>"
    using d(1) unfolding dumped_def moved_on_def by blast
  have "moved_on db0 ?db"
    unfolding moved_on_def by (intro exI [of _ "vs_next_file (MarkFileNumberUsed n (db_versions db))"] exI [of _ fs]) (simp add: db MarkFileNumberUsed_def)
  moreover have "dumped_file (db_ops env db0) db0 ?db f t" if "dumped_file (db_ops env db0) db0 db f t" for f t
    using that le by (auto simp: dumped_file_def)
  then have "list_all2 (dumped_file (db_ops env db0) db0 ?db) fl ts" using d(1) list_all2_mono unfolding dumped_def by blast
  ultimately have "dumped (db_ops env db0) db0 ?db edit fl ts" using d(1) le by (auto simp: dumped_def)
  then show "recovering env M db0 P ?db edit m" using assms(1) d(2) unfolding recovering_def by blast
qed

lemma RecoverLogs_ok:
  assumes env: "env_ok env" and db0: "vs_dbname (db_versions db0) = db_name db0" "pending_outputs db0 = {}"
    and "recovering env M db0 P db edit m"
    and "\<forall>(n, bs) \<in> set logs. map_of (files db0) (LogFileName (db_name db0) n) = Some (written (log_writer bs)) \<and> batches_ok 1 bs \<and> unat n < K"
    and "newer_batches P (concat (map snd logs))"
    and all: "wf_entries whole" "entries_size whole < 2 ^ 31" and "P \<union> \<Union> (batch_entries ` set (concat (map snd logs))) \<subseteq> set whole"
    and "unat (vs_next_file (db_versions db)) \<le> K" "K + (\<Sum>(n, bs) \<leftarrow> logs. length bs + 1) < 2 ^ 64"
    and "\<forall>(sq, us) \<in> set (concat (map snd logs)). unat sq + length us \<le> Suc (unat M)"
  shows "\<exists>db' edit' m'. RecoverLogs env Status_OK db edit m (map fst logs) = (Status_OK, db', edit', m') \<and>
    recovering env M db0 (P \<union> \<Union> (batch_entries ` set (concat (map snd logs)))) db' edit' m' \<and>
    unat (vs_next_file (db_versions db')) \<le> K + (\<Sum>(n, bs) \<leftarrow> logs. length bs + 1) \<and>
    vs_next_file (db_versions db) \<le> vs_next_file (db_versions db') \<and> (\<forall>n \<in> fst ` set logs. n < vs_next_file (db_versions db'))"
  using assms(4-6,9-)
proof (induction logs arbitrary: P db edit m K)
  case (Cons nb logs)
  obtain n bs where nb: "nb = (n, bs)" by fastforce
  have c: "map_of (files db0) (LogFileName (db_name db0) n) = Some (written (log_writer bs))" "batches_ok 1 bs" "unat n < K"
    "newer_batches P bs" "newer_batches (P \<union> \<Union> (batch_entries ` set bs)) (concat (map snd logs))"
    "P \<union> \<Union> (batch_entries ` set bs) \<subseteq> set whole" "unat (vs_next_file (db_versions db)) + length bs + 1 < 2 ^ 64"
    "\<forall>(sq, us) \<in> set bs. unat sq + length us \<le> Suc (unat M)"
    using Cons.prems nb by (auto simp: newer_batches_append)
  obtain db1 edit1 m1 where f: "RecoverLogFile env db n edit m = (Status_OK, db1, edit1, m1)"
    "recovering env M db0 (P \<union> \<Union> (batch_entries ` set bs)) db1 edit1 m1"
    "unat (vs_next_file (db_versions db1)) \<le> unat (vs_next_file (db_versions db)) + length bs + 1"
    "vs_next_file (db_versions db) \<le> vs_next_file (db_versions db1)"
    using RecoverLogFile_ok [OF env db0 Cons.prems(1) c(1,2,4) all c(6-8)] by blast
  have n: "unat (n + 1) = unat n + 1" using c(3) Cons.prems(6) by (simp add: unat_word_ariths)
  note mark = recovering_mark(1) [OF f(2) n] recovering_mark(2-4) [OF f(2) n, of "db_versions db1"]
  let ?db = "db1\<lparr>db_versions := MarkFileNumberUsed n (db_versions db1)\<rparr>" and ?P = "P \<union> \<Union> (batch_entries ` set bs)"
  have "\<exists>db' edit' m'. RecoverLogs env Status_OK ?db edit1 m1 (map fst logs) = (Status_OK, db', edit', m') \<and>
      recovering env M db0 (?P \<union> \<Union> (batch_entries ` set (concat (map snd logs)))) db' edit' m' \<and>
      unat (vs_next_file (db_versions db')) \<le> (K + length bs + 1) + (\<Sum>(n, bs) \<leftarrow> logs. length bs + 1) \<and>
      vs_next_file (db_versions ?db) \<le> vs_next_file (db_versions db') \<and> (\<forall>n \<in> fst ` set logs. n < vs_next_file (db_versions db'))"
    using mark f(3) c(3,5) Cons.prems nb by (intro Cons.IH) auto
  then obtain db' edit' m' where IH: "RecoverLogs env Status_OK ?db edit1 m1 (map fst logs) = (Status_OK, db', edit', m')"
      "recovering env M db0 (?P \<union> \<Union> (batch_entries ` set (concat (map snd logs)))) db' edit' m'"
      "unat (vs_next_file (db_versions db')) \<le> (K + length bs + 1) + (\<Sum>(n, bs) \<leftarrow> logs. length bs + 1)"
      "vs_next_file (db_versions ?db) \<le> vs_next_file (db_versions db')" "\<forall>n \<in> fst ` set logs. n < vs_next_file (db_versions db')"
    by blast
  have "vs_next_file (db_versions db) \<le> vs_next_file (db_versions db')" "n < vs_next_file (db_versions db')"
    using f(4) mark(3,4) IH(4) by (auto intro: order_trans less_le_trans)
  then show ?case using f(1) nb IH by (auto simp: Un_assoc)
qed simp

end
