(* ===== verification/DB_Reopen.thy ===== *)
theory DB_Reopen
  imports DB_Recovery
begin

text \<open>
  What is on disk: a manifest, the tables of its version and the logs that are newer. Opening a database
  with these files gives their contents; creating one gives an empty database; and a database that is closed
  and opened again has the contents that it had.
\<close>

section \<open>Directories\<close>

lemma set_GetChildren:
  "name \<in> set (GetChildren fs dir) \<longleftrightarrow> (\<exists>f. map_of fs f \<noteq> None \<and> prefix (dir @ cstr ''/'') f \<and> name = drop (length dir + 1) f)"
proof -
  have "x \<in> set (map fst fs) \<longleftrightarrow> map_of fs x \<noteq> None" for x by (simp add: map_of_eq_None_iff)
  then show ?thesis by (auto simp: GetChildren_def)
qed

lemma distinct_GetChildren: "distinct (GetChildren fs dir)"
proof -
  have "inj_on (drop (length dir + 1)) {f. prefix (dir @ cstr ''/'') f}"
    by (rule inj_onI) (auto simp: prefix_def)
  then show ?thesis by (auto simp: GetChildren_def distinct_map intro: inj_on_subset)
qed

lemma child_names:
  assumes "map_of fs f \<noteq> None" "f \<in> {TableFileName dir n, LogFileName dir n}"
  shows "drop (length dir + 1) f \<in> set (GetChildren fs dir)"
proof -
  have "prefix (dir @ cstr ''/'') f" using assms(2) by (auto simp: TableFileName_def LogFileName_def MakeFileName_def)
  then show ?thesis using assms(1) set_GetChildren by blast
qed

lemma distinct_concat_option:
  assumes "distinct xs" "\<And>x y n. x \<in> set xs \<Longrightarrow> y \<in> set xs \<Longrightarrow> g x = Some n \<Longrightarrow> g y = Some n \<Longrightarrow> x = y"
  shows "distinct (concat (map (\<lambda>x. case g x of None \<Rightarrow> [] | Some n \<Rightarrow> [n]) xs))"
  using assms
proof (induction xs)
  case (Cons x xs)
  have IH: "distinct (concat (map (\<lambda>x. case g x of None \<Rightarrow> [] | Some n \<Rightarrow> [n]) xs))" using Cons by auto
  show ?case
  proof (cases "g x")
    case (Some n)
    have "n \<notin> set (concat (map (\<lambda>x. case g x of None \<Rightarrow> [] | Some n \<Rightarrow> [n]) xs))"
    proof
      assume "n \<in> set (concat (map (\<lambda>x. case g x of None \<Rightarrow> [] | Some n \<Rightarrow> [n]) xs))"
      then obtain y where "y \<in> set xs" "g y = Some n" by (auto split: option.splits)
      then show False using Cons.prems(2) [of x y n] Cons.prems(1) Some by simp
    qed
    then show ?thesis using IH Some by simp
  qed (use IH in simp)
qed simp

text \<open>The logs that recovery reads.\<close>

lemma LogNumbers_logs:
  assumes only: "\<And>f n. log_name dir f n \<Longrightarrow> prefix (dir @ cstr ''/'') f \<Longrightarrow> map_of fs f \<noteq> None \<Longrightarrow>
      n \<ge> vs_log_number vs \<or> n = vs_prev_log vs \<Longrightarrow> f = LogFileName dir n \<and> n \<in> set ns"
    and ns: "sorted_wrt (<) ns" "\<And>n. n \<in> set ns \<Longrightarrow> n \<ge> vs_log_number vs \<and> map_of fs (LogFileName dir n) \<noteq> None"
  shows "sort (LogNumbers vs (GetChildren fs dir)) = ns"
proof -
  let ?names = "GetChildren fs dir"
  define g where "g name = (case ParseFileName name of
      Some (n, kLogFile) \<Rightarrow> if n \<ge> vs_log_number vs \<or> n = vs_prev_log vs then Some n else None | _ \<Rightarrow> None)" for name
  have eq: "LogNumbers vs ?names = concat (map (\<lambda>x. case g x of None \<Rightarrow> [] | Some n \<Rightarrow> [n]) ?names)"
    unfolding LogNumbers_def g_def by (intro arg_cong [of _ _ concat] map_cong refl) (auto split: option.splits prod.splits FileType.splits)
  have gD: "ParseFileName x = Some (n, kLogFile) \<and> (n \<ge> vs_log_number vs \<or> n = vs_prev_log vs)" if "g x = Some n" for x n
    using that by (auto simp: g_def split: option.splits prod.splits FileType.splits if_splits)
  have gI: "x = drop (length dir + 1) (LogFileName dir n) \<and> n \<in> set ns" if x: "x \<in> set ?names" "g x = Some n" for x n
  proof -
    obtain f where f: "map_of fs f \<noteq> None" "prefix (dir @ cstr ''/'') f" "x = drop (length dir + 1) f" using x(1) set_GetChildren by blast
    then have "f = LogFileName dir n \<and> n \<in> set ns" using only [of f n] gD [OF x(2)] by (simp add: log_name_def)
    then show ?thesis using f(3) by simp
  qed
  have "distinct (LogNumbers vs ?names)"
    unfolding eq using distinct_GetChildren gI by (intro distinct_concat_option) blast+
  moreover have "set (LogNumbers vs ?names) = set ns"
  proof
    show "set (LogNumbers vs ?names) \<subseteq> set ns" unfolding eq using gI by (auto split: option.splits)
    have "n \<in> set (LogNumbers vs ?names)" if n: "n \<in> set ns" for n
    proof -
      let ?x = "drop (length dir + 1) (LogFileName dir n)"
      have "?x \<in> set ?names" using ns(2) [OF n] by (intro child_names) auto
      moreover have "g ?x = Some n" using ns(2) [OF n] by (simp only: g_def file_names_parse) simp
      ultimately show ?thesis unfolding eq by force
    qed
    then show "set ns \<subseteq> set (LogNumbers vs ?names)" by blast
  qed
  moreover have "sorted ns \<and> distinct ns" using ns(1) by (simp add: strict_sorted_iff)
  ultimately show ?thesis by (intro sorted_distinct_set_unique) simp_all
qed

lemma MissingFiles_none:
  assumes "length (vfiles (vs_current vs)) = kNumLevels"
    and "\<And>l f. l < kNumLevels \<Longrightarrow> f \<in> files_at (vs_current vs) l \<Longrightarrow> map_of fs (TableFileName dir (number f)) \<noteq> None"
  shows "MissingFiles vs (GetChildren fs dir) = {}"
proof -
  have "n \<in> set (List.map_filter (\<lambda>name. map_option fst (ParseFileName name)) (GetChildren fs dir))" if n: "n \<in> AddLiveFiles [] vs {}" for n
  proof -
    obtain l f where "l < kNumLevels" "f \<in> files_at (vs_current vs) l" "n = number f"
    proof -
      obtain fs f where "fs \<in> set (vfiles (vs_current vs))" "f \<in> set fs" "n = number f" using n assms(1) by (auto simp: AddLiveFiles_def)
      then show ?thesis using that assms(1) by (metis in_set_conv_nth)
    qed
    then have "drop (length dir + 1) (TableFileName dir n) \<in> set (GetChildren fs dir)" using assms(2) by (intro child_names) auto
    moreover have "map_option fst (ParseFileName (drop (length dir + 1) (TableFileName dir n))) = Some n" by (simp only: file_names_parse) simp
    ultimately show ?thesis by (auto simp: List.map_filter_def image_iff intro!: bexI)
  qed
  then show ?thesis by (auto simp: MissingFiles_def)
qed

section \<open>Installing what was recovered\<close>

lemma layout_add_level0:
  assumes lay: "layout T v" and len: "length (vfiles v') = kNumLevels"
    and sorted: "\<And>k. k < kNumLevels \<Longrightarrow> sorted_wrt BySmallestKey (level_files v' k)"
    and dist: "\<And>k. k < kNumLevels \<Longrightarrow> distinct (map number (level_files v' k))"
    and at: "\<And>k. k < kNumLevels \<Longrightarrow> files_at v' k = (if k = 0 then refresh ` F else {}) \<union> files_at v k"
    and T': "\<And>k g. k < kNumLevels \<Longrightarrow> g \<in> files_at v k \<Longrightarrow> T' (number g) = T (number g)"
    and ok: "\<And>f. f \<in> F \<Longrightarrow> file_ok T' f" and new: "newer (file_entries T' F) (version_entries T v)"
    and num: "\<And>f g. f \<in> F \<Longrightarrow> g \<in> files_at v 0 \<Longrightarrow> number g < number f"
    and ord: "\<And>f g. f \<in> F \<Longrightarrow> g \<in> F \<Longrightarrow> number g < number f \<Longrightarrow> newer (set (T' (number f))) (set (T' (number g)))"
  shows "layout T' v'" "version_entries T' v' = file_entries T' F \<union> version_entries T v"
proof -
  note lay = layoutD [OF lay]
  have z: "0 < kNumLevels" by (simp add: kNumLevels_def)
  have ent: "file_entries T' (files_at v' k) = (if k = 0 then file_entries T' F else {}) \<union> file_entries T (files_at v k)" if "k < kNumLevels" for k
    using at [OF that] T' [OF that] by (auto simp: file_entries_def)
  then show "version_entries T' v' = file_entries T' F \<union> version_entries T v"
    unfolding version_entries_def using z by (auto split: if_splits)
  have sub: "set (T (number g)) \<subseteq> version_entries T v" "file_entries T (files_at v k) \<subseteq> version_entries T v" if "k < kNumLevels" "g \<in> files_at v k" for g k
    using that by (auto simp: version_entries_def file_entries_def)
  show "layout T' v'"
    unfolding layout_def
  proof (intro conjI allI impI ballI)
    show "file_ok T' f" if f: "k < kNumLevels" "f \<in> files_at v' k" for k f
    proof (cases "f \<in> files_at v k")
      case True
      then show ?thesis using lay(4) [OF f(1)] file_ok_cong [of T f T'] T' [OF f(1)] by simp
    next
      case False
      then show ?thesis using f(2) at [OF f(1)] ok by (auto split: if_splits)
    qed
    show "newer (set (T' (number f))) (set (T' (number g)))" if fg: "f \<in> files_at v' 0" "g \<in> files_at v' 0" "number g < number f" for f g
    proof -
      consider (nn) f' g' where "f = refresh f'" "g = refresh g'" "f' \<in> F" "g' \<in> F" | (no) f' where "f = refresh f'" "f' \<in> F" "g \<in> files_at v 0"
        | (on) g' where "f \<in> files_at v 0" "g = refresh g'" "g' \<in> F" | (oo) "f \<in> files_at v 0" "g \<in> files_at v 0"
        using fg(1,2) at [OF z] by auto
      then show ?thesis
      proof cases
        case nn
        then show ?thesis using ord fg(3) by simp
      next
        case no
        then have "set (T' (number f)) \<subseteq> file_entries T' F" by (auto simp: file_entries_def)
        then show ?thesis using new sub(1) [OF z no(3)] T' [OF z no(3)] newer_mono by metis
      next
        case on
        then show ?thesis using num [of g' f] fg(3) by simp
      next
        case oo
        then show ?thesis using lay(5) fg(3) T' [OF z] by simp
      qed
    qed
    show "newer (file_entries T' (files_at v' l')) (file_entries T' (files_at v' l))" if l: "l < kNumLevels" "l' < l" for l l'
    proof -
      have l': "l' < kNumLevels" using l by simp
      have old: "newer (file_entries T (files_at v l')) (file_entries T (files_at v l))" by (rule lay(6) [OF l])
      have "newer (file_entries T' F) (file_entries T (files_at v l))"
        using new l(1) by (auto simp: newer_def version_entries_def)
      then show ?thesis using old l unfolding ent [OF l(1)] ent [OF l'] by (auto simp: newer_def)
    qed
    show "apart f g" if "l < kNumLevels" "0 < l" "f \<in> files_at v' l" "g \<in> files_at v' l" "number f \<noteq> number g" for l f g
      using lay(7) [OF that(1,2)] that(2-5) at [OF that(1)] by simp
  qed (use len sorted dist in auto)
qed

text \<open>The version set that recovery finds before it writes a new manifest.\<close>

definition found_ok :: "table_ops \<Rightarrow> file_system \<Rightarrow> VersionSet \<Rightarrow> bool" where
  "found_ok ops fs vs \<longleftrightarrow> vs_descriptor_log vs = None \<and> pointers_storable (vs_compact_pointer vs) \<and>
     layout (tables ops (vs_dbname vs) fs) (vs_current vs) \<and> sound ops (vs_dbname vs) fs (vs_current vs) \<and>
     vs_manifest vs < vs_next_file vs \<and> vs_prev_log vs = 0 \<and>
     (\<forall>l < kNumLevels. \<forall>f \<in> files_at (vs_current vs) l. number f < vs_next_file vs \<and> (\<forall>l' < l. number f \<notin> number ` files_at (vs_current vs) l'))"

lemma version_storable_layout:
  assumes "layout T v" shows "version_storable v"
proof -
  note lay = layoutD [OF assms]
  have "sorted_wrt BySmallestKey fs \<and> distinct (map number fs) \<and> list_all (\<lambda>f. length (smallest f) < 2 ^ 32 \<and> length (largest f) < 2 ^ 32) fs"
    if fs: "fs \<in> set (vfiles v)" for fs
  proof -
    obtain l where l: "l < kNumLevels" "fs = level_files v l" using fs lay(1) by (metis in_set_conv_nth)
    have "length (smallest f) < 2 ^ 32" "length (largest f) < 2 ^ 32" if "f \<in> set fs" for f
    proof -
      have f: "file_ok T f" using lay(4) [OF l(1)] that l(2) by simp
      then show "length (smallest f) < 2 ^ 32" "length (largest f) < 2 ^ 32"
        using file_ok_last(2,4) [OF f] by (simp_all add: file_ok_def entry_ok_def)
    qed
    then show ?thesis using lay(2,3) [OF l(1)] l(2) by (simp add: list_all_iff)
  qed
  then show ?thesis using lay(1) by (simp add: version_storable_def)
qed

lemma dumped_edit_ok:
  assumes "dumped ops db0 db edit fl ts"
  shows "edit_ok (SetLogNumber n edit)" "at_level 0 (new_files (SetLogNumber n edit)) = fl"
    "l \<noteq> 0 \<Longrightarrow> at_level l (new_files (SetLogNumber n edit)) = []" "at_level l (deleted_files (SetLogNumber n edit)) = []"
proof -
  have e: "edit = VersionEdit_new\<lparr>new_files := map (\<lambda>f. (0, f)) fl\<rparr>" and all: "list_all2 (dumped_file ops db0 db) fl ts"
    using assms by (auto simp: dumped_def)
  have "length (smallest f) < 2 ^ 32 \<and> length (largest f) < 2 ^ 32 \<and> refs f = 0 \<and> allowed_seeks f = 2 ^ 30" if f: "f \<in> set fl" for f
  proof -
    obtain i where i: "i < length fl" "f = fl ! i" using f by (metis in_set_conv_nth)
    then have d: "dumped_file ops db0 db f (ts ! i)" using all by (simp add: list_all2_conv_all_nth)
    then have "entry_ok (hd (ts ! i))" "entry_ok (last (ts ! i))" by (auto simp: dumped_file_def wf_entries_def list_all_iff)
    then show ?thesis using d by (simp add: dumped_file_def entry_ok_def)
  qed
  then show "edit_ok (SetLogNumber n edit)"
    by (auto simp: e edit_ok_def encodable_def SetLogNumber_def VersionEdit_new_def list_all_iff kNumLevels_def)
  show "at_level 0 (new_files (SetLogNumber n edit)) = fl" "l \<noteq> 0 \<Longrightarrow> at_level l (new_files (SetLogNumber n edit)) = []"
    "at_level l (deleted_files (SetLogNumber n edit)) = []"
    by (simp_all add: e at_level_def SetLogNumber_def VersionEdit_new_def comp_def)
qed

text \<open>The tables that recovery made hold their entries.\<close>

lemma dumped_tables:
  assumes d: "dumped ops db0 db edit fl ts" and law: "table_law ops"
  defines "T \<equiv> tables ops (db_name db0) (files db)"
  shows "map (\<lambda>f. T (number f)) fl = ts" "\<And>f. f \<in> set fl \<Longrightarrow> file_ok T f" "\<And>f. f \<in> set fl \<Longrightarrow> sound_file ops (db_name db0) (files db) f"
    "\<And>f g. f \<in> set fl \<Longrightarrow> g \<in> set fl \<Longrightarrow> number g < number f \<Longrightarrow> newer (set (T (number f))) (set (T (number g)))"
    "file_entries T (set fl) = \<Union> (set ` set ts)"
proof -
  have all: "list_all2 (dumped_file ops db0 db) fl ts" and so: "sorted_wrt (<) (map number fl)" and nw: "sorted_wrt (\<lambda>a b. newer (set b) (set a)) ts"
    using d by (auto simp: dumped_def)
  have len: "length fl = length ts" using all by (rule list_all2_lengthD)
  have at: "dumped_file ops db0 db (fl ! i) (ts ! i)" if "i < length fl" for i using all that by (simp add: list_all2_conv_all_nth)
  have T: "T (number (fl ! i)) = ts ! i" if "i < length fl" for i
    using at [OF that] law by (simp add: T_def tables_def dumped_file_def table_law_def)
  then show map: "map (\<lambda>f. T (number f)) fl = ts" using len by (intro nth_equalityI) simp_all
  show "file_ok T f" "sound_file ops (db_name db0) (files db) f" if f: "f \<in> set fl" for f
  proof -
    obtain i where i: "i < length fl" "f = fl ! i" using f by (metis in_set_conv_nth)
    note a = at [OF i(1), folded i(2)]
    show "file_ok T f" "sound_file ops (db_name db0) (files db) f"
      using a T [OF i(1)] i(2) by (auto simp: file_ok_def sound_file_def dumped_file_def)
  qed
  show "newer (set (T (number f))) (set (T (number g)))" if fg: "f \<in> set fl" "g \<in> set fl" "number g < number f" for f g
  proof -
    obtain i j where ij: "i < length fl" "f = fl ! i" "j < length fl" "g = fl ! j" using fg by (metis in_set_conv_nth)
    have "\<not> i \<le> j"
    proof
      assume "i \<le> j"
      then have "number f \<le> number g" using so ij by (cases "i = j") (auto simp: sorted_wrt_iff_nth_less less_imp_le)
      then show False using fg(3) by simp
    qed
    then show ?thesis using nw ij T len by (simp add: sorted_wrt_iff_nth_less)
  qed
  show "file_entries T (set fl) = \<Union> (set ` set ts)" unfolding map [symmetric] by (simp add: file_entries_def image_image)
qed

lemma install_recovered:
  assumes found: "found_ok ops (files db0) (db_versions db0)" and name: "vs_dbname (db_versions db0) = db_name db0" and law: "table_law ops"
    and d: "dumped ops db0 db edit fl ts" and n: "n = vs_next_file (db_versions db)" "unat (n + 1) = unat n + 1"
    and new: "newer (\<Union> (set ` set ts)) (version_entries (tables ops (db_name db0) (files db0)) (vs_current (db_versions db0)))"
    and seq: "\<forall>x \<in> \<Union> (set ` set ts) \<union> version_entries (tables ops (db_name db0) (files db0)) (vs_current (db_versions db0)). sequence (fst x) \<le> L"
      "L < kMaxSequenceNumber"
    and r: "LogAndApply no_manifest_failures (AList.update (LogFileName (db_name db0) n) [] (files db))
      ((db_versions db0)\<lparr>vs_next_file := n + 1, vs_last_sequence := L\<rparr>) (SetLogNumber n edit) = (s, vs', fs')"
  shows "Status_ok s" "\<exists>es. store_ok ops fs' vs' es" "vs_current vs' = Finalize (apply_edit (SetLogNumber n edit) (vs_current (db_versions db0)))"
    "version_entries (tables ops (db_name db0) fs') (vs_current vs') =
       \<Union> (set ` set ts) \<union> version_entries (tables ops (db_name db0) (files db0)) (vs_current (db_versions db0))"
    "vs_dbname vs' = db_name db0" "vs_next_file vs' = n + 1" "vs_last_sequence vs' = L" "vs_log_number vs' = n" "vs_prev_log vs' = 0"
    "\<And>f m. log_name (db_name db0) f m \<Longrightarrow> map_of fs' f = (if f = LogFileName (db_name db0) n then Some [] else map_of (files db0) f)"
proof -
  let ?name = "db_name db0" and ?v = "vs_current (db_versions db0)" and ?e = "SetLogNumber n edit"
  let ?vs1 = "(db_versions db0)\<lparr>vs_next_file := n + 1, vs_last_sequence := L\<rparr>" and ?fs1 = "AList.update (LogFileName ?name n) [] (files db)"
  let ?T = "tables ops ?name (files db0)" and ?T1 = "tables ops ?name (files db)" and ?v' = "apply_edit ?e ?v"
  have lay: "layout ?T ?v" and snd: "sound ops ?name (files db0) ?v" and none: "vs_descriptor_log ?vs1 = None" and ptr: "pointers_storable (vs_compact_pointer ?vs1)"
    and low: "\<And>l f. l < kNumLevels \<Longrightarrow> f \<in> files_at ?v l \<Longrightarrow> number f < vs_next_file (db_versions db0)"
    and cross: "\<And>l l' f. l < kNumLevels \<Longrightarrow> l' < l \<Longrightarrow> f \<in> files_at ?v l \<Longrightarrow> number f \<notin> number ` files_at ?v l'"
    and man: "vs_manifest (db_versions db0) < vs_next_file (db_versions db0)" and prev: "vs_prev_log (db_versions db0) = 0"
    using found name unfolding found_ok_def by auto
  note lay' = layoutD [OF lay] and tab = dumped_tables [OF d law] and lev = dumped_edit_ok [OF d]
  have nf: "manifest_outcomes no_manifest_failures = []" by (simp add: no_manifest_failures_def)
  have le: "vs_next_file (db_versions db0) \<le> n" using d n(1) by (simp add: dumped_def)
  have lt: "n < n + 1" using n(2) by (simp add: word_less_nat_alt)
  have high: "vs_next_file (db_versions db0) \<le> number f" "number f < n" if "f \<in> set fl" for f
    using d n(1) that by (fastforce simp: dumped_def dumped_file_def list_all2_conv_all_nth in_set_conv_nth)+
  have apart_num: "number f \<notin> number ` files_at ?v l" if "f \<in> set fl" "l < kNumLevels" for f l
    using high(1) [OF that(1)] low [OF that(2)] by (metis (no_types, lifting) imageE leD)
  have fresh: "fresh_at ?e l (number ` files_at ?v l)" if "l < kNumLevels" for l
  proof (cases "l = 0")
    case True
    have "distinct (map number fl)" using d by (auto simp: dumped_def strict_sorted_iff)
    then show ?thesis using lev(2) apart_num that True by (auto simp: fresh_at_def)
  qed (simp add: fresh_at_def lev(3))
  show s: "Status_ok s" using LogAndApply_create_succeeds [OF none, of ?fs1 ?e] r by simp
  have cur: "vs_current ?vs1 = ?v" "vs_dbname ?vs1 = ?name" "vs_manifest ?vs1 = vs_manifest (db_versions db0)" "vs_next_file ?vs1 = n + 1"
    "vs_last_sequence ?vs1 = L" "vs_prev_log ?vs1 = 0" using name prev by simp_all
  have ce: "log_number (CompleteEdit ?vs1 ?e) = n" "prev_log_number (CompleteEdit ?vs1 ?e) = 0"
    using d prev by (auto simp: CompleteEdit_def SetLogNumber_def SetPrevLogNumber_def SetLastSequence_def SetNextFile_def Let_def dumped_def VersionEdit_new_def)
  obtain es where es: "manifest_ok fs' vs' es" "vs_current vs' = Finalize ?v'" "vs_dbname vs' = ?name" "vs_next_file vs' = n + 1"
    "vs_manifest vs' = vs_manifest (db_versions db0)" "vs_last_sequence vs' = L" "vs_log_number vs' = n" "vs_prev_log vs' = 0"
    "\<forall>l < kNumLevels. used_numbers es l = number ` set (at_level l (new_files ?e)) \<union> number ` files_at ?v l"
    "\<forall>f. f \<notin> {DescriptorFileName ?name (vs_manifest (db_versions db0)), CurrentFileName ?name, TempFileName ?name (vs_manifest (db_versions db0))} \<longrightarrow>
       map_of fs' f = map_of ?fs1 f"
    "next_file_number (last es) = n + 1" "last_sequence (last es) = L"
    using LogAndApply_create [OF none nf _ ptr lev(1) _ r s, unfolded cur ce] version_storable_layout [OF lay] fresh by blast
  show "vs_current vs' = Finalize ?v'" "vs_dbname vs' = ?name" "vs_next_file vs' = n + 1" "vs_last_sequence vs' = L" "vs_log_number vs' = n" "vs_prev_log vs' = 0"
    using es by simp_all
  have tfile: "map_of fs' (TableFileName ?name m) = map_of (files db) (TableFileName ?name m)" for m
    using es(10) by (simp add: update_conv)
  have T': "tables ops ?name fs' = ?T1" by (intro ext tables_cong tfile)
  have old: "map_of (files db) (TableFileName ?name (number f)) = map_of (files db0) (TableFileName ?name (number f))" if "l < kNumLevels" "f \<in> files_at ?v l" for l f
    using d low [OF that] name by (simp add: dumped_def new_tables_only_def)
  have T1: "?T1 (number f) = ?T (number f)" if "l < kNumLevels" "f \<in> files_at ?v l" for l f by (rule tables_cong [OF old [OF that]])
  note app = apply_edit_files [OF _ fresh lay'(2) lay'(3)]
  have at: "files_at ?v' l = (if l = 0 then refresh ` set fl else {}) \<union> files_at ?v l" if "l < kNumLevels" for l
    using app(1) [OF that that that that] by (auto simp: lev)
  have ents: "newer (file_entries ?T1 (set fl)) (version_entries ?T ?v)" using new unfolding tab(5) .
  have num0: "number g < number f" if "f \<in> set fl" "g \<in> files_at ?v 0" for f g
    using high(1) [OF that(1)] low [of 0 g] that(2) by (simp add: kNumLevels_def)
  have L: "layout ?T1 ?v'" "version_entries ?T1 ?v' = file_entries ?T1 (set fl) \<union> version_entries ?T ?v"
    by (rule layout_add_level0 [OF lay _ _ _ at T1 tab(2) ents num0 tab(4)]; use app(2,3) in \<open>simp; fail\<close>)+
  show ve: "version_entries (tables ops ?name fs') (vs_current vs') = \<Union> (set ` set ts) \<union> version_entries ?T ?v"
    unfolding T' es(2) version_entries_Finalize L(2) tab(5) ..
  have "numbers_ok vs' es"
    unfolding numbers_ok_def
  proof (intro conjI allI impI ballI)
    show "vs_manifest vs' < vs_next_file vs'" using man le lt es(4,5) by simp
    have small: "m < n + 1" if "l < kNumLevels" "m \<in> used_numbers es l" for l m
    proof -
      have "m \<in> number ` set (at_level l (new_files ?e)) \<or> m \<in> number ` files_at ?v l" using es(9) that by blast
      then show ?thesis using high(2) low [OF that(1)] le lt lev(2,3) by (cases "l = 0") (auto intro: less_trans dest: less_le_trans)
    qed
    show "m < vs_next_file vs'" if "l < kNumLevels" "m \<in> used_numbers es l" for l m using small [OF that] es(4) by simp
    show "number f \<notin> used_numbers es l" if l: "l < kNumLevels" "l' < l" "f \<in> files_at (vs_current vs') l'" for l l' f
    proof -
      have used: "used_numbers es l = number ` files_at ?v l" using es(9) l lev(3) [of l] by simp
      have "f \<in> (if l' = 0 then refresh ` set fl else {}) \<union> files_at ?v l'" using l at [of l'] es(2) by simp
      then consider g where "g \<in> set fl" "f = refresh g" | "f \<in> files_at ?v l'" by (auto split: if_splits)
      then show ?thesis
      proof cases
        case 1
        then show ?thesis using apart_num [OF 1(1) l(1)] used by simp
      next
        case 2
        have False if g: "g \<in> files_at ?v l" "number f = number g" for g
        proof -
          have "number f \<in> number ` files_at ?v l'" using 2 by (rule imageI)
          then show False using cross [OF l(1,2) g(1)] unfolding g(2) by blast
        qed
        then show ?thesis unfolding used by blast
      qed
    qed
  qed
  moreover have "recorded (tables ops ?name fs') (vs_current vs') es"
    using calculation seq(1) es(4,11,12) ve unfolding recorded_def numbers_ok_def by simp
  moreover have "sequences_ok (tables ops ?name fs') vs'" using seq ve es(6) unfolding sequences_ok_def by simp
  moreover have "sound ops ?name fs' (vs_current vs')"
    unfolding sound_def
  proof (intro allI impI ballI)
    fix l f assume l: "l < kNumLevels" and f: "f \<in> files_at (vs_current vs') l"
    have "sound_file ops ?name fs' g" if "g \<in> set fl" for g
      using tab(3) [OF that] sound_file_cong [OF tfile, of ops] by simp
    moreover have "sound_file ops ?name fs' g" if "g \<in> files_at ?v l" for g
      using snd l that sound_file_cong [OF trans [OF tfile old [OF l that]], of ops] by (simp add: sound_def)
    ultimately show "sound_file ops ?name fs' f" using f at [OF l] es(2) by (auto split: if_splits)
  qed
  ultimately show "\<exists>es. store_ok ops fs' vs' es"
    using es(1,2,3) L(1) T' by (intro exI [of _ es]) (simp add: store_ok_def)
  show "map_of fs' f = (if f = LogFileName ?name n then Some [] else map_of (files db0) f)" if "log_name ?name f m" for f m
    using es(10) log_name_neq [OF that] d name by (simp add: update_conv dumped_def new_tables_only_def)
qed

section \<open>The files of a database\<close>

text \<open>
  A manifest with the edits \<open>es\<close>, the tables of the version \<open>v\<close> that they make, and the newer logs.
\<close>

definition manifest_on_disk :: "bytes \<Rightarrow> file_system \<Rightarrow> VersionEdit list \<Rightarrow> Version \<Rightarrow> bool" where
  "manifest_on_disk name fs es v \<longleftrightarrow> (\<exists>n. map_of fs (DescriptorFileName name n) = Some (written (manifest_log es)) \<and> current_names fs name n) \<and>
     list_all edit_ok es \<and> es \<noteq> [] \<and> has_log_number (last es) \<and> (has_prev_log_number (last es) \<or> length es = 1) \<and> prev_log_number (last es) = 0 \<and>
     has_next_file_number (last es) \<and> has_last_sequence (last es) \<and> last_sequence (last es) < kMaxSequenceNumber \<and> levels_ok v es"

definition tables_on_disk :: "table_ops \<Rightarrow> bytes \<Rightarrow> file_system \<Rightarrow> VersionEdit list \<Rightarrow> Version \<Rightarrow> bool" where
  "tables_on_disk ops name fs es v \<longleftrightarrow> layout (tables ops name fs) v \<and> sound ops name fs v \<and> recorded (tables ops name fs) v es \<and>
     (\<forall>l < kNumLevels. \<forall>f \<in> files_at v l. \<forall>l' < l. number f \<notin> number ` files_at v l')"

definition logs_on_disk :: "table_ops \<Rightarrow> bytes \<Rightarrow> file_system \<Rightarrow> VersionEdit list \<Rightarrow> Version \<Rightarrow> (u64 \<times> batches) list \<Rightarrow> bool" where
  "logs_on_disk ops name fs es v logs \<longleftrightarrow> sorted_wrt (<) (map fst logs) \<and> (logs = [] \<longrightarrow> log_number (last es) = 0) \<and>
     (\<forall>(n, bs) \<in> set logs. 0 < n \<and> log_number (last es) \<le> n \<and> map_of fs (LogFileName name n) = Some (written (log_writer bs)) \<and> batches_ok 1 bs) \<and>
     (\<forall>f n. log_name name f n \<longrightarrow> prefix (name @ cstr ''/'') f \<longrightarrow> map_of fs f \<noteq> None \<longrightarrow> n \<ge> log_number (last es) \<or> n = 0 \<longrightarrow>
        f = LogFileName name n \<and> n \<in> fst ` set logs) \<and>
     newer_batches (version_entries (tables ops name fs) v) (concat (map snd logs))"

definition on_disk :: "table_ops \<Rightarrow> bytes \<Rightarrow> file_system \<Rightarrow> VersionEdit list \<Rightarrow> Version \<Rightarrow> (u64 \<times> batches) list \<Rightarrow> entry list \<Rightarrow> bool" where
  "on_disk ops name fs es v logs E \<longleftrightarrow> manifest_on_disk name fs es v \<and> tables_on_disk ops name fs es v \<and> logs_on_disk ops name fs es v logs \<and>
     wf_entries E \<and> entries_size E < 2 ^ 31 \<and>
     set E = version_entries (tables ops name fs) v \<union> \<Union> (batch_entries ` set (concat (map snd logs)))"

lemma pointers_storable_replay: "list_all edit_ok es \<Longrightarrow> pointers_storable (replay_pointers es)"
proof (induction es rule: rev_induct)
  case Nil
  show ?case by (simp add: replay_pointers_def pointers_storable_def list_all_iff)
next
  case (snoc e es)
  then show ?case using pointers_storable_set [of "replay_pointers es" e] by (simp add: replay_pointers_snoc edit_ok_def)
qed

text \<open>The version set that \<open>VersionSet::Recover\<close> finds.\<close>

lemma found_on_disk:
  assumes "manifest_on_disk name fs es v" "tables_on_disk ops name fs es v" "unat (next_file_number (last es) + 1) = unat (next_file_number (last es)) + 1"
  defines "vs \<equiv> recovered name es (map (map refresh) (vfiles v))"
  shows "Recover no_read_failures fs (VersionSet_new name) = (Status_OK, vs)" "found_ok ops fs vs"
    "version_entries T (vs_current vs) = version_entries T v" "length (vfiles (vs_current vs)) = kNumLevels"
proof -
  have m: "list_all edit_ok es" "es \<noteq> []" "levels_ok v es" using assms(1) by (simp_all add: manifest_on_disk_def)
  obtain n where n: "map_of fs (DescriptorFileName name n) = Some (written (manifest_log es))" "current_names fs name n"
    using assms(1) by (auto simp: manifest_on_disk_def)
  show "Recover no_read_failures fs (VersionSet_new name) = (Status_OK, vs)"
    unfolding vs_def by (rule Recover_edits [OF n m(1,2) _ _ _ _ m(3)]) (use assms(1) in \<open>auto simp: manifest_on_disk_def\<close>)
  have t: "layout (tables ops name fs) v" "sound ops name fs v" "recorded (tables ops name fs) v es"
    "\<forall>l < kNumLevels. \<forall>f \<in> files_at v l. \<forall>l' < l. number f \<notin> number ` files_at v l'" using assms(2) by (simp_all add: tables_on_disk_def)
  have len: "length (vfiles v) = kNumLevels" by (rule layoutD(1) [OF t(1)])
  have files: "vfiles (vs_current vs) = map (map refresh) (vfiles v)" by (simp add: vs_def recovered_def)
  then show len': "length (vfiles (vs_current vs)) = kNumLevels" using len by simp
  have at: "files_at (vs_current vs) l = refresh ` files_at v l" if "l < kNumLevels" for l using files len that by simp
  then show "version_entries T (vs_current vs) = version_entries T v" by (simp add: version_entries_def file_entries_def)
  have lay: "layout (tables ops name fs) (vs_current vs)"
    using t(1) layout_cong [of "vs_current vs" "v\<lparr>vfiles := map (map refresh) (vfiles v)\<rparr>"] files layout_refresh by simp
  have "number f < next_file_number (last es)" if "l < kNumLevels" "f \<in> files_at v l" for l f
    using files_used [OF m(3) that] t(3) that(1) by (simp add: recorded_def)
  moreover have lt: "next_file_number (last es) < next_file_number (last es) + 1" using assms(3) by (simp add: word_less_nat_alt)
  ultimately have "number f < next_file_number (last es) + 1" if "l < kNumLevels" "f \<in> files_at v l" for l f
    using that less_trans by blast
  then show "found_ok ops fs vs"
    using lay t(2,4) at lt pointers_storable_replay [OF m(1)] assms(1) unfolding found_ok_def sound_def
    by (auto simp: vs_def recovered_def manifest_on_disk_def) (metis imageI)+
qed

lemma newer_batches_mono: "newer_batches P bs \<Longrightarrow> P' \<subseteq> P \<Longrightarrow> newer_batches P' bs"
proof (induction P bs arbitrary: P' rule: newer_batches.induct)
  case (2 P b bs)
  have "P' \<union> batch_entries b \<subseteq> P \<union> batch_entries b" using 2(3) by blast
  then show ?case using 2 newer_mono [of "batch_entries b" P "batch_entries b" P'] by simp
qed simp

lemma newer_batches_all: "newer_batches P bs \<Longrightarrow> newer (\<Union> (batch_entries ` set bs)) P"
  by (induction P bs rule: newer_batches.induct) (auto simp: newer_def)

definition log_room :: "VersionEdit list \<Rightarrow> (u64 \<times> batches) list \<Rightarrow> nat \<Rightarrow> bool" where
  "log_room es logs K \<longleftrightarrow> unat (next_file_number (last es)) + 1 \<le> K \<and> (\<forall>(n, bs) \<in> set logs. unat n < K) \<and>
     K + (\<Sum>(n, bs) \<leftarrow> logs. length bs + 1) + 1 < 2 ^ 64"

lemma DB_Recover_disk:
  assumes env: "env_ok env" and disk: "on_disk (env_tables env (SanitizeOptions opts)) name fs es v logs E" and room: "log_room es logs K"
    and M: "last_sequence (last es) \<le> M" "M < kMaxSequenceNumber" "\<forall>(sq, us) \<in> set (concat (map snd logs)). unat sq + length us \<le> Suc (unat M)"
    and cur: "CheckCurrent env (DBImpl_new opts name fs0) = (Status_OK, DBImpl_new opts name fs)"
  defines "db0 \<equiv> (DBImpl_new opts name fs)\<lparr>db_versions := recovered name es (map (map refresh) (vfiles v))\<rparr>"
  shows "\<exists>db edit m L. DB_Recover env (DBImpl_new opts name fs0) VersionEdit_new = (Status_OK, db\<lparr>db_versions := (db_versions db)\<lparr>vs_last_sequence := L\<rparr>\<rparr>, edit) \<and>
    recovering env M db0 (\<Union> (batch_entries ` set (concat (map snd logs)))) db edit m \<and> last_sequence (last es) \<le> L \<and> m \<le> L \<and> L \<le> M \<and>
    unat (vs_next_file (db_versions db)) \<le> K + (\<Sum>(n, bs) \<leftarrow> logs. length bs + 1) \<and>
    (\<forall>n \<in> fst ` set logs. n < vs_next_file (db_versions db))"
proof -
  let ?vs = "recovered name es (map (map refresh) (vfiles v))" and ?B = "\<Union> (batch_entries ` set (concat (map snd logs)))"
  have parts: "manifest_on_disk name fs es v" "tables_on_disk (env_tables env (SanitizeOptions opts)) name fs es v"
      "logs_on_disk (env_tables env (SanitizeOptions opts)) name fs es v logs" "wf_entries E" "entries_size E < 2 ^ 31" "?B \<subseteq> set E"
    using disk by (auto simp: on_disk_def)
  have K: "unat (next_file_number (last es)) + 1 \<le> K" "\<And>n bs. (n, bs) \<in> set logs \<Longrightarrow> unat n < K" "K + (\<Sum>(n, bs) \<leftarrow> logs. length bs + 1) + 1 < 2 ^ 64"
    using room by (auto simp: log_room_def)
  have nx: "unat (next_file_number (last es) + 1) = unat (next_file_number (last es)) + 1" using K(1,3) by (simp add: unat_word_ariths)
  note found = found_on_disk [OF parts(1,2) nx]
  have db0: "db_versions db0 = ?vs" "db_name db0 = name" "files db0 = fs" "pending_outputs db0 = {}" "vs_dbname ?vs = name"
    by (simp_all add: db0_def DBImpl_new_def recovered_def)
  have present: "map_of fs (TableFileName name (number f)) \<noteq> None" if "l < kNumLevels" "f \<in> files_at (vs_current ?vs) l" for l f
  proof -
    have "sound_file (env_tables env (SanitizeOptions opts)) name fs f" using found(2) that unfolding found_ok_def sound_def db0(5) by blast
    then show ?thesis by (auto simp: sound_file_def)
  qed
  have missing: "MissingFiles ?vs (GetChildren fs name) = {}" by (rule MissingFiles_none [OF found(4) present])
  have lg: "log_number (last es) \<le> n" "map_of fs (LogFileName name n) = Some (written (log_writer bs))" "batches_ok 1 bs" if "(n, bs) \<in> set logs" for n bs
    using parts(3) that by (auto simp: logs_on_disk_def)
  have lp: "vs_log_number ?vs = log_number (last es)" "vs_prev_log ?vs = 0" using parts(1) by (simp_all add: recovered_def manifest_on_disk_def)
  have numbers: "sort (LogNumbers ?vs (GetChildren fs name)) = map fst logs"
    by (rule LogNumbers_logs) (use parts(3) lg lp in \<open>auto simp: logs_on_disk_def\<close>)
  have "recovering env M db0 {} db0 VersionEdit_new 0"
    unfolding recovering_def using dumped_start [of db0 "db_ops env db0"] db0
    by (intro conjI exI [of _ "[]"]) simp_all
  moreover have "newer_batches {} (concat (map snd logs))" using parts(3) newer_batches_mono by (auto simp: logs_on_disk_def)
  moreover have "unat (vs_next_file (db_versions db0)) \<le> K" using K(1) nx db0(1) by (simp add: recovered_def)
  moreover have "\<forall>(n, bs) \<in> set logs. map_of (files db0) (LogFileName (db_name db0) n) = Some (written (log_writer bs)) \<and> batches_ok 1 bs \<and> unat n < K"
    using lg K(2) db0 by auto
  ultimately obtain db edit m where logs: "RecoverLogs env Status_OK db0 VersionEdit_new 0 (map fst logs) = (Status_OK, db, edit, m)"
    "recovering env M db0 ({} \<union> ?B) db edit m" "unat (vs_next_file (db_versions db)) \<le> K + (\<Sum>(n, bs) \<leftarrow> logs. length bs + 1)"
    "\<forall>n \<in> fst ` set logs. n < vs_next_file (db_versions db)"
    using RecoverLogs_ok [OF env, of db0 M "{}" db0 VersionEdit_new 0 logs K E] db0 parts(4-6) K(3) M(3) by auto
  define L where "L = (if vs_last_sequence (db_versions db) < m then m else vs_last_sequence (db_versions db))"
  have last: "vs_last_sequence (db_versions db) = last_sequence (last es)"
    using logs(2) db0(1) by (auto simp: recovering_def dumped_def moved_on_def recovered_def)
  have Lp: "last_sequence (last es) \<le> L" "m \<le> L" "L \<le> M"
    using last logs(2) M(1) by (auto simp: L_def recovering_def)
  have upd: "(if vs_last_sequence (db_versions db) < m then db\<lparr>db_versions := (db_versions db)\<lparr>vs_last_sequence := m\<rparr>\<rparr> else db) =
      db\<lparr>db_versions := (db_versions db)\<lparr>vs_last_sequence := L\<rparr>\<rparr>" by (simp add: L_def)
  have ok0: "Status_ok Status_OK" by (simp add: Status_ok_def)
  have e: "env_lock env = Status_OK" "env_children env = Status_OK" "env_read env = no_read_failures" using env by (simp_all add: env_ok_def)
  have start: "db_versions (DBImpl_new opts name fs) = VersionSet_new name" "files (DBImpl_new opts name fs) = fs" "db_name (DBImpl_new opts name fs) = name"
    by (simp_all add: DBImpl_new_def)
  have "DB_Recover env (DBImpl_new opts name fs0) VersionEdit_new =
      (Status_OK, if vs_last_sequence (db_versions db) < m then db\<lparr>db_versions := (db_versions db)\<lparr>vs_last_sequence := m\<rparr>\<rparr> else db, edit)"
    unfolding DB_Recover_def using cur found(1) missing numbers logs(1) ok0 e start
    by (simp add: db0_def [symmetric] Let_def)
  then show ?thesis using logs(2-4) Lp unfolding upd by auto
qed

section \<open>Opening\<close>

text \<open>A database that has just been opened, with the entries \<open>E\<close>.\<close>

definition opened :: "db_env \<Rightarrow> Options \<Rightarrow> bytes \<Rightarrow> entry list \<Rightarrow> DBImpl \<Rightarrow> bool" where
  "opened env opts name E db \<longleftrightarrow> (\<exists>es. db_ok env db es) \<and> durable 0 db \<and> db_entries env db = E \<and> db_mem db = MemTable_new \<and> db_imm db = None \<and>
     db_snapshots db = [] \<and> \<not> shutting_down db \<and> Status_ok (bg_error db) \<and> manual_compaction db = None \<and>
     db_options db = SanitizeOptions opts \<and> db_name db = name"

lemma opened_installed:
  assumes db: "db = (DBImpl_new opts name fs)\<lparr>db_versions := vs', files := fs', logfile_number := n, db_log := Some (Writer_new new_log)\<rparr>"
    and st: "store_ok (env_tables env (SanitizeOptions opts)) fs' vs' es" "vs_current vs' = Finalize v" "file_to_compact v = None"
    and vs: "vs_dbname vs' = name" "vs_next_file vs' = n + 1" "vs_log_number vs' = n" "vs_prev_log vs' = 0" "n < n + 1" "0 < n"
    and E: "wf_entries E" "version_entries (tables (env_tables env (SanitizeOptions opts)) name fs') (vs_current vs') = set E"
    and logs: "map_of fs' (LogFileName name n) = Some []"
      "\<And>f m. log_name name f m \<Longrightarrow> prefix (name @ cstr ''/'') f \<Longrightarrow> map_of fs' f \<noteq> None \<Longrightarrow> m \<ge> n \<or> m = 0 \<Longrightarrow> f = LogFileName name n"
  shows "opened env opts name E db" "db_ok env db es"
proof -
  let ?ops = "env_tables env (SanitizeOptions opts)"
  have d: "db_ops env db = ?ops" "db_imm db = None" "db_mem db = MemTable_new" "db_versions db = vs'" "files db = fs'" "db_name db = name"
    "db_options db = SanitizeOptions opts" "logfile_number db = n" "db_log db = Some (Writer_new new_log)"
    by (simp_all add: db DBImpl_new_def db_ops_def)
  have lay: "layout (tables ?ops name fs') (vs_current vs')" using st(1) vs(1) by (simp add: store_ok_def)
  have runs: "db_runs env db = [] # version_runs (tables ?ops name fs') (vs_current vs')"
    using vs(1) by (simp add: db_runs_def d imm_runs_def store_runs_def)
  have rok: "runs_ok (db_runs env db)"
    using layout_version_ok [OF lay] by (simp add: runs version_ok_def runs_ok_def wf_entries_def newer_run_def)
  show ok: "db_ok env db es"
    using st rok vs(1) pickable_Finalize [OF st(3)] scored_Finalize unfolding db_ok_def by (simp add: d imm_runs_def)
  have "set (db_entries env db) = set E"
    using E(2) set_version_runs [OF layoutD(1) [OF lay]] by (simp add: db_entries_def set_merge_runs runs)
  then have ents: "db_entries env db = E"
    using sorted_entries_unique db_entries_wf [OF ok] E(1) by (simp add: wf_entries_def)
  have "log_logged 0 db"
    unfolding log_logged_def by (intro exI [of _ "[]"]) (simp add: log_holds_def d logs(1), simp add: Writer_new_def)
  moreover have "imm_logged 0 db" by (simp add: imm_logged_def d vs(3))
  moreover have "only_logs db"
    unfolding only_logs_def d vs(3)
  proof (intro allI impI)
    fix f m assume f: "log_name name f m" "prefix (name @ cstr ''/'') f" "map_of fs' f \<noteq> None" "m \<ge> n \<or> m = 0"
    then have "f = LogFileName name n" by (rule logs(2))
    moreover from this have "m = n" using f(1) log_name_self [of name n] by (simp add: log_name_def)
    ultimately show "f = LogFileName name m \<and> (m = n \<or> None \<noteq> None \<and> m = n)" by simp
  qed
  ultimately have "durable 0 db" using vs by (simp add: durable_def d)
  then show "opened env opts name E db"
    using ok ents by (auto simp: opened_def d) (simp_all add: db DBImpl_new_def Status_ok_def)
qed

text \<open>The last steps of opening change none of this.\<close>

lemma opened_delete:
  assumes "opened env opts name E db"
  shows "opened env opts name E (DeleteObsoleteFiles env db)" "db_versions (DeleteObsoleteFiles env db) = db_versions db"
proof -
  obtain es where ok: "db_ok env db es" using assms by (auto simp: opened_def)
  note del = step_kept_delete [OF step_kept_refl [OF ok] ok] and un = DeleteObsoleteFiles_unchanged [where env = env and db = db]
  have "durable 0 (DeleteObsoleteFiles env db)" using durable_step [OF del(1)] assms by (simp add: opened_def)
  moreover have "db_entries env (DeleteObsoleteFiles env db) = db_entries env db" using DeleteObsoleteFiles_ok(2) [OF ok] by (simp add: db_entries_def)
  ultimately show "opened env opts name E (DeleteObsoleteFiles env db)"
    using assms del(2) un by (auto simp: opened_def unchanged_def)
  show "db_versions (DeleteObsoleteFiles env db) = db_versions db" by (rule un(3))
qed

lemma opened_scheduled [simp]: "opened env opts name E (db\<lparr>bg_compaction_scheduled := b\<rparr>) = opened env opts name E db"
  by (simp add: opened_def db_entries_def db_runs_def imm_runs_def db_ops_def)

lemma DB_Open_disk:
  assumes env: "env_ok env" and disk: "on_disk (env_tables env (SanitizeOptions opts)) name fs es v logs E" and room: "log_room es logs K"
    and M: "last_sequence (last es) \<le> M" "M < kMaxSequenceNumber" "\<forall>(sq, us) \<in> set (concat (map snd logs)). unat sq + length us \<le> Suc (unat M)"
    and cur: "CheckCurrent env (DBImpl_new opts name fs0) = (Status_OK, DBImpl_new opts name fs)"
  shows "\<exists>db. DB_Open env opts name fs0 = Inr db \<and> opened env opts name E db \<and> (needs_work db \<longrightarrow> bg_compaction_scheduled db) \<and>
    unat (vs_next_file (db_versions db)) \<le> K + (\<Sum>(n, bs) \<leftarrow> logs. length bs + 1) + 1 \<and>
    vs_last_sequence (db_versions db) \<le> M"
proof -
  let ?ops = "env_tables env (SanitizeOptions opts)" and ?vs = "recovered name es (map (map refresh) (vfiles v))"
  let ?db0 = "(DBImpl_new opts name fs)\<lparr>db_versions := ?vs\<rparr>" and ?B = "\<Union> (batch_entries ` set (concat (map snd logs)))" and ?T = "tables ?ops name fs"
  obtain db edit m L where rec: "DB_Recover env (DBImpl_new opts name fs0) VersionEdit_new = (Status_OK, db\<lparr>db_versions := (db_versions db)\<lparr>vs_last_sequence := L\<rparr>\<rparr>, edit)"
    "recovering env M ?db0 ?B db edit m" "last_sequence (last es) \<le> L" "m \<le> L" "L \<le> M"
    "unat (vs_next_file (db_versions db)) \<le> K + (\<Sum>(n, bs) \<leftarrow> logs. length bs + 1)" "\<forall>n \<in> fst ` set logs. n < vs_next_file (db_versions db)"
    using DB_Recover_disk [OF env disk room M cur] by blast
  have L: "L < kMaxSequenceNumber" using rec(5) M(2) by simp
  have parts: "manifest_on_disk name fs es v" "tables_on_disk ?ops name fs es v" "logs_on_disk ?ops name fs es v logs" "wf_entries E"
    "set E = version_entries ?T v \<union> ?B" using disk by (auto simp: on_disk_def)
  have K: "unat (next_file_number (last es)) + 1 \<le> K" "K + (\<Sum>(n, bs) \<leftarrow> logs. length bs + 1) + 1 < 2 ^ 64" using room by (auto simp: log_room_def)
  have nx: "unat (next_file_number (last es) + 1) = unat (next_file_number (last es)) + 1" using K by (simp add: unat_word_ariths)
  note found = found_on_disk [OF parts(1,2) nx]
  have db0: "db_versions ?db0 = ?vs" "db_name ?db0 = name" "files ?db0 = fs" "vs_dbname (db_versions ?db0) = db_name ?db0" "db_ops env ?db0 = ?ops"
    by (simp_all add: DBImpl_new_def recovered_def db_ops_def)
  obtain fl ts where d: "dumped ?ops ?db0 db edit fl ts" "\<Union> (set ` set ts) = ?B" using rec(2) db0(5) by (auto simp: recovering_def)
  define n where "n = vs_next_file (db_versions db)"
  have n1: "unat (n + 1) = unat n + 1" using rec(6) K(2) by (simp add: n_def unat_word_ariths)
  obtain k fs1 where dbk: "db = ?db0\<lparr>db_versions := (db_versions ?db0)\<lparr>vs_next_file := k\<rparr>, files := fs1\<rparr>" using d(1) unfolding dumped_def moved_on_def by blast
  have kn: "k = n" using dbk by (simp add: n_def)
  obtain s vs' fs' where w: "LogAndApply no_manifest_failures (AList.update (LogFileName name n) [] (files db))
      ((db_versions ?db0)\<lparr>vs_next_file := n + 1, vs_last_sequence := L\<rparr>) (SetLogNumber n edit) = (s, vs', fs')" by (metis prod_cases3)
  have seq: "sequence (fst x) \<le> L" if x: "x \<in> ?B \<union> version_entries ?T (vs_current ?vs)" for x
  proof (cases "x \<in> ?B")
    case True
    then show ?thesis using rec(2,4) by (auto simp: recovering_def intro: order_trans)
  next
    case False
    then have "sequence (fst x) \<le> last_sequence (last es)" using x parts(2) found(3) by (auto simp: tables_on_disk_def recorded_def)
    then show ?thesis using rec(3) by simp
  qed
  have new: "newer ?B (version_entries ?T (vs_current ?vs))" using newer_batches_all [of _ "concat (map snd logs)"] parts(3) unfolding found(3) logs_on_disk_def by blast
  have law: "table_law ?ops" using env_ok_law [OF env, of ?db0] db0(5) by simp
  have f0: "found_ok ?ops (files ?db0) (db_versions ?db0)" using found(2) db0 by simp
  have new': "newer (\<Union> (set ` set ts)) (version_entries (tables ?ops (db_name ?db0) (files ?db0)) (vs_current (db_versions ?db0)))"
    using new d(2) db0 by simp
  have seq': "\<forall>x \<in> \<Union> (set ` set ts) \<union> version_entries (tables ?ops (db_name ?db0) (files ?db0)) (vs_current (db_versions ?db0)). sequence (fst x) \<le> L"
    using seq d(2) db0 by simp
  have w': "LogAndApply no_manifest_failures (AList.update (LogFileName (db_name ?db0) n) [] (files db))
      ((db_versions ?db0)\<lparr>vs_next_file := n + 1, vs_last_sequence := L\<rparr>) (SetLogNumber n edit) = (s, vs', fs')" using w db0(2) by simp
  note inst = install_recovered [OF f0 db0(4) law d(1) n_def n1 new' seq' L w', unfolded db0(1-3) d(2)]
  obtain es' where es': "store_ok ?ops fs' vs' es'" using inst(2) by blast
  define db2 where "db2 = (DBImpl_new opts name fs)\<lparr>db_versions := vs', files := fs', logfile_number := n, db_log := Some (Writer_new new_log)\<rparr>"
  have E: "version_entries (tables ?ops name fs') (vs_current vs') = set E" using inst(4) found(3) parts(5) by auto
  have le0: "next_file_number (last es) + 1 \<le> n" using d(1) db0(1) by (simp add: dumped_def n_def recovered_def)
  have pos: "0 < n" using le0 nx by (simp add: word_le_nat_alt word_less_nat_alt)
  have lnum: "log_number (last es) \<le> n"
  proof (cases logs)
    case Nil
    then show ?thesis using parts(3) by (simp add: logs_on_disk_def)
  next
    case (Cons a logs')
    then have "log_number (last es) \<le> fst a" "fst a < n" using parts(3) rec(7) by (auto simp: logs_on_disk_def n_def)
    then show ?thesis by simp
  qed
  have logs: "f = LogFileName name n" if f: "log_name name f q" "prefix (name @ cstr ''/'') f" "map_of fs' f \<noteq> None" "q \<ge> n \<or> q = 0" for f q
  proof (rule ccontr)
    assume ne: "f \<noteq> LogFileName name n"
    then have "map_of fs f \<noteq> None" using inst(10) [OF f(1)] f(3) by simp
    moreover have "q \<ge> log_number (last es) \<or> q = 0" using f(4) lnum by auto
    ultimately have q: "q \<in> fst ` set logs" using parts(3) f(1,2) unfolding logs_on_disk_def by blast
    then have "q < n" "0 < q" using rec(7) parts(3) by (auto simp: n_def logs_on_disk_def)
    then show False using f(4) by auto
  qed
  have lfile: "map_of fs' (LogFileName name n) = Some []" using inst(10) [OF log_name_self, of n] by simp
  have lt: "n < n + 1" using n1 by (simp add: word_less_nat_alt)
  note op = opened_installed [OF db2_def es' inst(3) _ inst(5,6,8,9) lt pos parts(4) E lfile logs]
  have o2: "opened env opts name E db2" by (rule op(1)) simp_all
  have dbv: "(db_versions db)\<lparr>vs_last_sequence := L, vs_next_file := n + 1\<rparr> = (db_versions ?db0)\<lparr>vs_next_file := n + 1, vs_last_sequence := L\<rparr>"
    by (subst dbk) simp
  have e: "env_new env f = Status_OK" "env_append env q = []" "env_manifest env = no_manifest_failures" for f q using env by (simp_all add: env_ok_def)
  have ok0: "Status_ok Status_OK" by (simp add: Status_ok_def)
  have opn: "DB_Open env opts name fs0 = Inr (MaybeScheduleCompaction (DeleteObsoleteFiles env db2))"
  proof -
    have "db\<lparr>logfile_number := n, db_log := Some (Writer_new new_log), db_versions := vs', files := fs'\<rparr> = db2"
      by (subst dbk) (simp add: db2_def DBImpl_new_def)
    then show ?thesis
      using rec(1) e ok0 dbv w inst(1) by (simp add: DB_Open_def NewFileNumber_def n_def [symmetric])
  qed
  note del = opened_delete [OF o2]
  have "opened env opts name E (MaybeScheduleCompaction (DeleteObsoleteFiles env db2))"
    using MaybeSchedule_cases [of "DeleteObsoleteFiles env db2"] del(1) by auto
  moreover have "needs_work x \<longrightarrow> bg_compaction_scheduled x" if "x = MaybeScheduleCompaction (DeleteObsoleteFiles env db2)" for x
  proof -
    have "\<not> shutting_down (DeleteObsoleteFiles env db2)" using del(1) by (simp add: opened_def)
    then show ?thesis unfolding that by (auto simp: MaybeScheduleCompaction_def needs_work_def)
  qed
  moreover have "vs_next_file (db_versions (MaybeScheduleCompaction (DeleteObsoleteFiles env db2))) = n + 1"
    "vs_last_sequence (db_versions (MaybeScheduleCompaction (DeleteObsoleteFiles env db2))) = L"
    using MaybeSchedule_cases [of "DeleteObsoleteFiles env db2"] del(2) inst(6,7) by (auto simp: db2_def)
  ultimately show ?thesis using opn n1 rec(5,6) by (auto simp: n_def)
qed

text \<open>An opened database runs: it has room for the work to come.\<close>

lemma weight_le: "weight T v \<le> 28 * card (version_entries T v)"
proof -
  have "weight T v \<le> (\<Sum>l < kNumLevels. (kNumLevels - l) * card (version_entries T v))"
    unfolding weight_def
  proof (intro sum_mono mult_le_mono2 card_mono)
    show "finite (version_entries T v)" by (simp add: version_entries_def)
  qed (auto simp: version_entries_def)
  also have "\<dots> = 28 * card (version_entries T v)" by (simp add: kNumLevels_def eval_nat_numeral)
  finally show ?thesis .
qed

lemma opened_running:
  assumes op: "opened env opts name E db" "needs_work db \<longrightarrow> bg_compaction_scheduled db" and E: "entries_size E < 2 ^ 31"
    and b: "unat (vs_next_file (db_versions db)) + (28 * 2 ^ 25 + k) * 2 ^ 25 < 2 ^ 64"
  shows "running k env db"
proof -
  obtain es where ok: "db_ok env db es" using op(1) by (auto simp: opened_def)
  have ents: "db_entries env db = E" "db_mem db = MemTable_new" "db_imm db = None" using op(1) by (simp_all add: opened_def)
  have "card (version_entries (table_entries env db) (vs_current (db_versions db))) \<le> card (set E)"
    using db_entries_tables [OF ok] ents(1) by (intro card_mono) simp_all
  also have "\<dots> \<le> length E" by (rule card_length)
  finally have W: "db_weight env db \<le> 28 * length E"
    using weight_le [of "table_entries env db" "vs_current (db_versions db)"] ents(3) by (simp add: db_weight_def)
  have "length E \<le> 2 ^ 25" using length_entries_size [of E] E by simp
  then have "bounded k env db" using W E b ents unfolding bounded_def by (simp add: add_mult_distrib)
  then show ?thesis using op ok by (auto simp: running_def active_def opened_def)
qed

section \<open>Creating a database\<close>

definition new_db_edit :: VersionEdit where
  "new_db_edit = SetLastSequence 0 (SetNextFile 2 (SetLogNumber 0 (SetComparatorName comparator_Name VersionEdit_new)))"

lemma new_db_edit_fields [simp]: "new_files new_db_edit = []" "deleted_files new_db_edit = []" "next_file_number new_db_edit = 2" "log_number new_db_edit = 0"
  "prev_log_number new_db_edit = 0" "last_sequence new_db_edit = 0" "has_log_number new_db_edit" "has_next_file_number new_db_edit" "has_last_sequence new_db_edit"
  by (simp_all add: new_db_edit_def SetLastSequence_def SetNextFile_def SetLogNumber_def SetComparatorName_def VersionEdit_new_def)

lemma new_db_edit_ok: "edit_ok new_db_edit"
  by (simp add: edit_ok_def encodable_def new_db_edit_def SetLastSequence_def SetNextFile_def SetLogNumber_def SetComparatorName_def VersionEdit_new_def
      comparator_Name_def)

lemma levels_new_db: "levels_ok Version_new [new_db_edit]" "l < kNumLevels \<Longrightarrow> used_numbers [new_db_edit] l = {}"
proof -
  have lev: "levels (replay [new_db_edit]) ! l = \<lparr>level_deleted = [], level_added = []\<rparr>" if "l < kNumLevels" for l
    using replay_levels(3) [OF that, of "[new_db_edit]"] by (simp add: apply_level_def at_level_def)
  then show "levels_ok Version_new [new_db_edit]" "l < kNumLevels \<Longrightarrow> used_numbers [new_db_edit] l = {}"
    by (simp_all add: levels_ok_def level_state_ok_def level_result_def used_numbers_def Version_new_def)
qed

lemma empty_version: "layout T Version_new" "sound ops db fs Version_new" "version_entries T Version_new = {}"
proof -
  have "level_files Version_new 0 = []" by (simp add: Version_new_def kNumLevels_def)
  then show "layout T Version_new" "sound ops db fs Version_new" "version_entries T Version_new = {}"
    by (simp_all add: layout_def sound_def version_entries_def file_entries_def newer_def) (simp_all add: Version_new_def)
qed

lemma NewDB_ok:
  assumes env: "env_ok env" and empty: "GetChildren fs name = []" and opt: "create_if_missing opts"
  shows "\<exists>fs'. CheckCurrent env (DBImpl_new opts name fs) = (Status_OK, DBImpl_new opts name fs') \<and>
    on_disk ops name fs' [new_db_edit] Version_new [] []"
proof -
  have none: "map_of fs f = None" if "prefix (name @ cstr ''/'') f" for f
    using empty that set_GetChildren [of _ fs name] by (metis emptyE list.set(1))
  have e: "env_new env f = Status_OK" "env_append env q = []" "env_close env f = Status_OK" "current_env (env_manifest env) = no_env_failures" for f q
    using env by (simp_all add: env_ok_def no_manifest_failures_def)
  have ok0: "Status_ok Status_OK" by (simp add: Status_ok_def)
  define lg where "lg = manifest_log [new_db_edit]"
  let ?fs1 = "AList.update (DescriptorFileName name 1) (written lg) fs"
  obtain s fs' where cur: "SetCurrentFile no_env_failures ?fs1 name 1 = (s, fs')" by fastforce
  then have s: "s = Status_OK" using SetCurrentFile_succeeds [of ?fs1 name 1] by simp
  note at = SetCurrentFile_atomic [OF cur, unfolded s]
  have "map_of fs (CurrentFileName name) = None" by (rule none) (simp add: CurrentFileName_def)
  moreover have "AddRecord (Writer_new new_log) (encode_edit new_db_edit) = (Status_OK, lg)"
    using AddRecord_manifest [of "[]" new_db_edit] by (simp add: lg_def)
  ultimately have chk: "CheckCurrent env (DBImpl_new opts name fs) = (Status_OK, DBImpl_new opts name fs')"
    using e ok0 cur s opt by (simp add: CheckCurrent_def NewDB_def DBImpl_new_def SanitizeOptions_def new_db_edit_def [symmetric] Let_def)
  have dsc: "map_of fs' (DescriptorFileName name 1) = Some (written (manifest_log [new_db_edit]))" using at by (simp add: update_conv lg_def)
  have "current_names fs' name 1" using at ok0 by (simp add: current_names_def)
  then have man: "manifest_on_disk name fs' [new_db_edit] Version_new"
    using dsc new_db_edit_ok levels_new_db(1) by (auto simp: manifest_on_disk_def kMaxSequenceNumber_def)
  have "tables_on_disk ops name fs' [new_db_edit] Version_new"
    using empty_version levels_new_db(2) by (simp add: tables_on_disk_def recorded_def) (simp add: Version_new_def)
  moreover have "logs_on_disk ops name fs' [new_db_edit] Version_new []"
  proof -
    have "map_of fs' f = None" if "log_name name f n" "prefix (name @ cstr ''/'') f" for f n
      using at log_name_neq [OF that(1)] none [OF that(2)] by (simp add: update_conv)
    then show ?thesis by (simp add: logs_on_disk_def)
  qed
  ultimately show ?thesis
    using chk man empty_version(3) by (intro exI [of _ fs']) (simp add: on_disk_def wf_entries_def entries_size_def)
qed

lemma DB_Open_creates:
  assumes "env_ok env" "GetChildren fs name = []" "create_if_missing opts" "k \<le> 3 * 2 ^ 37"
  shows "\<exists>db. DB_Open env opts name fs = Inr db \<and> running k env db \<and> durable 0 db \<and> contents_of env db = Map.empty \<and>
    db_options db = SanitizeOptions opts \<and> db_entries env db = [] \<and> vs_last_sequence (db_versions db) = 0 \<and> db_name db = name"
proof -
  obtain fs' where "CheckCurrent env (DBImpl_new opts name fs) = (Status_OK, DBImpl_new opts name fs')"
    "on_disk (env_tables env (SanitizeOptions opts)) name fs' [new_db_edit] Version_new [] []" using NewDB_ok [OF assms(1-3)] by blast
  moreover have "log_room [new_db_edit] [] 3" by (simp add: log_room_def)
  ultimately obtain db where db: "DB_Open env opts name fs = Inr db" "opened env opts name [] db" "needs_work db \<longrightarrow> bg_compaction_scheduled db"
      "unat (vs_next_file (db_versions db)) \<le> 4" "vs_last_sequence (db_versions db) = 0"
    using DB_Open_disk [OF assms(1), where M = 0] by (fastforce simp: kMaxSequenceNumber_def)
  have "running k env db" by (rule opened_running [OF db(2,3)]) (use db(4) assms(4) in \<open>simp_all add: entries_size_def\<close>)
  then show ?thesis using db by (auto simp: opened_def contents_of_def contents_at_def db_entries_def visible_def newest_def)
qed

section \<open>Closing and opening again\<close>

lemma batch_entries_below:
  assumes "batches_ok n [(sq, us)]" "x \<in> batch_entries (sq, us)"
  shows "n \<le> unat (sequence (fst x))" "unat (sequence (fst x)) < unat sq + length us"
proof -
  have b: "n \<le> unat sq" "unat sq + length us \<le> 2 ^ 56" "list_all update_fits us" using assms(1) by simp_all
  show "n \<le> unat (sequence (fst x))" using apply_updates_seqs [OF b(2), of x] assms(2) b(1) by (simp add: batch_entries_def word_le_nat_alt)
  have "seqs_below (unat sq + length us) (apply_updates sq us [])"
    using apply_updates_ok [of "[]" sq us] b by (simp add: wf_entries_def seqs_below_def)
  then show "unat (sequence (fst x)) < unat sq + length us" using assms(2) by (simp add: seqs_below_def batch_entries_def)
qed

lemma set_log_entries: "set (log_entries bs) = \<Union> (batch_entries ` set bs)"
proof (induction bs rule: rev_induct)
  case (snoc b bs)
  obtain sq us where "b = (sq, us)" by fastforce
  then show ?case using snoc set_apply_updates [of sq us "log_entries bs"] by (auto simp: batch_entries_def)
qed simp

lemma newer_batches_log:
  assumes "batches_ok n bs" "newer (\<Union> (batch_entries ` set bs)) P" "\<And>x. x \<in> Q \<Longrightarrow> unat (sequence (fst x)) < n"
  shows "newer_batches (P \<union> Q) bs"
  using assms
proof (induction bs arbitrary: n Q)
  case (Cons b bs)
  obtain sq us where b: "b = (sq, us)" by fastforce
  have bo: "batches_ok n [(sq, us)]" "batches_ok (unat sq + length us) bs" using Cons.prems(1) b by simp_all
  have low: "unat (sequence (fst x)) < unat sq + length us" if "x \<in> Q \<union> batch_entries b" for x
    using that Cons.prems(3) batch_entries_below(2) [OF bo(1)] bo(1) b by fastforce
  have "newer (\<Union> (batch_entries ` set bs)) P" using Cons.prems(2) by (auto simp: newer_def)
  then have "newer_batches (P \<union> (Q \<union> batch_entries b)) bs" by (rule Cons.IH [OF bo(2) _ low])
  moreover have "sequence (fst y) < sequence (fst x)" if "x \<in> batch_entries b" "y \<in> Q" for x y
    using batch_entries_below(1) [OF bo(1), of x] Cons.prems(3) [OF that(2)] that(1) b by (simp add: word_less_nat_alt)
  then have "newer (batch_entries b) (P \<union> Q)" using Cons.prems(2) by (auto simp: newer_def)
  ultimately show ?case by (simp add: Un_assoc)
qed simp

lemma fragments_longer: "fragments C ptr b C' \<Longrightarrow> length C < length C'"
  by (induction rule: fragments.induct) auto

lemma length_log_writer: "length bs \<le> length (written (log_writer bs))"
proof (induction bs rule: rev_induct)
  case (snoc b bs)
  obtain sq us where b: "b = (sq, us)" by fastforce
  obtain s w' where w': "AddRecord (log_writer bs) (batch_rep sq us) = (s, w')" by fastforce
  then show ?case using snoc b fragments_longer AddRecord_fragments [OF wf_log_writer w'] by fastforce
qed simp

lemma batches_end_all:
  assumes "batches_ok n bs" "batches_end n bs \<le> M" "(sq, us) \<in> set bs" shows "unat sq + length us \<le> M"
  using assms
proof (induction n bs rule: batches_ok.induct)
  case (2 n sq us bs)
  have "n \<le> batches_end n bs" if "batches_ok n bs" for n bs using that by (induction n bs rule: batches_ok.induct) auto
  then have "unat sq + length us \<le> batches_end (unat sq + length us) bs" using 2(2) by simp
  then show ?case using 2 by auto
qed simp

text \<open>The files of a running database stand for its contents.\<close>

lemma db_on_disk:
  assumes ok: "db_ok env db es" and dur: "durable N db" and size: "entries_size (db_entries env db) < 2 ^ 31"
    and small: "unat (vs_next_file (db_versions db)) + 2 * N + 4 < 2 ^ 64"
  shows "\<exists>logs. on_disk (db_ops env db) (db_name db) (files db) es (vs_current (db_versions db)) logs (db_entries env db) \<and>
    log_room es logs (unat (vs_next_file (db_versions db)) + 1) \<and> (\<Sum>(n, bs) \<leftarrow> logs. length bs + 1) \<le> 2 * N + 2 \<and>
    last_sequence (last es) \<le> vs_last_sequence (db_versions db) \<and> vs_last_sequence (db_versions db) < kMaxSequenceNumber \<and>
    (\<forall>(sq, us) \<in> set (concat (map snd logs)). unat sq + length us \<le> Suc (unat (vs_last_sequence (db_versions db))))"
proof -
  let ?vs = "db_versions db" and ?ops = "db_ops env db" and ?name = "db_name db" and ?v = "vs_current (db_versions db)"
  let ?T = "tables ?ops ?name (files db)" and ?V = "version_entries (tables (db_ops env db) (db_name db) (files db)) (vs_current (db_versions db))"
  have name: "vs_dbname ?vs = ?name" by (rule db_okD(1) [OF ok])
  have st: "manifest_ok (files db) ?vs es" "layout ?T ?v" "numbers_ok ?vs es" "sequences_ok ?T ?vs" "sound ?ops ?name (files db) ?v" "recorded ?T ?v es"
    using db_okD(2) [OF ok] name by (simp_all add: store_ok_def)
  have lg: "logged ?vs (last es)" "levels_ok ?v es" using st(1) by (simp_all add: manifest_ok_def)
  have d: "vs_prev_log ?vs = 0" "0 < vs_log_number ?vs" "logfile_number db < vs_next_file ?vs" "log_logged N db" "imm_logged N db" "only_logs db"
    using dur by (simp_all add: durable_def)
  have man: "manifest_on_disk ?name (files db) es ?v"
    using st(1,4) lg d(1) name unfolding manifest_on_disk_def manifest_ok_def logged_def sequences_ok_def by auto
  have tab: "tables_on_disk ?ops ?name (files db) es ?v"
    unfolding tables_on_disk_def using st(2,5,6)
  proof (intro conjI allI impI ballI)
    fix l f l' assume l: "l < kNumLevels" "f \<in> files_at ?v l" "l' < l"
    have "number f \<in> used_numbers es l" by (rule files_used [OF lg(2) l(1,2)])
    moreover have "number g \<notin> used_numbers es l" if "g \<in> files_at ?v l'" for g using st(3) l(1,3) that unfolding numbers_ok_def by blast
    ultimately show "number f \<notin> number ` files_at ?v l'" by force
  qed
  obtain bs0 where b0: "log_holds db (logfile_number db) (db_mem db) bs0" "length bs0 \<le> N" "batches_end 1 bs0 \<le> Suc (unat (vs_last_sequence ?vs))"
    using d(4) by (auto simp: log_logged_def)
  obtain logs1 where logs1: "logs1 = [] \<and> db_imm db = None \<or>
      (\<exists>m bs1. logs1 = [(vs_log_number ?vs, bs1)] \<and> db_imm db = Some m \<and> log_holds db (vs_log_number ?vs) m bs1 \<and> vs_log_number ?vs < logfile_number db \<and> length bs1 \<le> N \<and>
        batches_end 1 bs1 \<le> Suc (unat (vs_last_sequence ?vs)))"
    using d(5) by (cases "db_imm db") (auto simp: imm_logged_def)
  let ?logs = "logs1 @ [(logfile_number db, bs0)]"
  have runs: "runs_ok (mem_entries (db_mem db) # imm_runs db @ store_runs ?ops (files db) ?vs)" using db_okD(6) [OF ok] by (simp add: db_runs_def)
  have V: "?V = (\<Union>r \<in> set (store_runs ?ops (files db) ?vs). set r)"
    using set_version_runs [OF layoutD(1) [OF st(2)], of ?T] name by (simp add: store_runs_def)
  have imm: "imm_runs db = map (\<lambda>l. log_entries (snd l)) logs1" using logs1 by (auto simp: imm_runs_def log_holds_def)
  have mem: "mem_entries (db_mem db) = log_entries bs0" "batches_ok 1 bs0" using b0(1) by (simp_all add: log_holds_def)
  have nb0: "newer (\<Union> (batch_entries ` set bs0)) (?V \<union> \<Union> (batch_entries ` set (concat (map snd logs1))))"
  proof -
    have "\<Union> (batch_entries ` set (concat (map snd logs1))) = (\<Union>r \<in> set (imm_runs db). set r)" by (simp add: imm set_log_entries)
    moreover have "newer (set (log_entries bs0)) (set r)" if "r \<in> set (imm_runs db) \<union> set (store_runs ?ops (files db) ?vs)" for r
      using runs that unfolding mem(1) runs_ok_def newer_newer_run [symmetric] by auto
    ultimately show ?thesis unfolding V set_log_entries [symmetric] newer_def by blast
  qed
  have nb1: "newer_batches ?V (concat (map snd logs1))"
  proof -
    consider "logs1 = []" | m bs1 where "logs1 = [(vs_log_number ?vs, bs1)]" "log_holds db (vs_log_number ?vs) m bs1" using logs1 by blast
    then show ?thesis
    proof cases
      case 2
      have "newer (\<Union> (batch_entries ` set bs1)) ?V"
        using runs unfolding V set_log_entries [symmetric] imm 2(1) runs_ok_def by (auto simp: newer_run_def newer_def)
      then show ?thesis using newer_batches_log [of 1 bs1 ?V "{}"] 2 by (simp add: log_holds_def)
    qed simp
  qed
  have nb: "newer_batches ?V (concat (map snd ?logs))"
    using nb1 newer_batches_log [OF mem(2) nb0, of "{}"] by (simp add: newer_batches_append)
  have ord: "vs_log_number ?vs \<le> logfile_number db" by (rule durable_order [OF d(5)])
  have ln: "log_number (last es) = vs_log_number ?vs" using lg(1) by (simp add: logged_def)
  have holds: "\<exists>m. log_holds db n m bs \<and> vs_log_number ?vs \<le> n \<and> n \<le> logfile_number db" if "(n, bs) \<in> set ?logs" for n bs
    using that logs1 b0(1) ord by auto
  have ld: "logs_on_disk ?ops ?name (files db) es ?v ?logs"
    unfolding logs_on_disk_def
  proof (intro conjI)
    show "sorted_wrt (<) (map fst ?logs)" using logs1 by auto
    show "\<forall>(n, bs) \<in> set ?logs. 0 < n \<and> log_number (last es) \<le> n \<and> map_of (files db) (LogFileName ?name n) = Some (written (log_writer bs)) \<and> batches_ok 1 bs"
      using holds d(2) ln by (auto simp: log_holds_def) (use less_le_trans in blast)+
    show "\<forall>f n. log_name ?name f n \<longrightarrow> prefix (?name @ cstr ''/'') f \<longrightarrow> map_of (files db) f \<noteq> None \<longrightarrow> n \<ge> log_number (last es) \<or> n = 0 \<longrightarrow>
        f = LogFileName ?name n \<and> n \<in> fst ` set ?logs"
      using d(6) logs1 unfolding only_logs_def ln by fastforce
    show "newer_batches ?V (concat (map snd ?logs))" by (rule nb)
  qed simp
  have E: "set (db_entries env db) = ?V \<union> \<Union> (batch_entries ` set (concat (map snd ?logs)))"
    unfolding V db_entries_def set_merge_runs db_runs_def imm mem(1) using set_log_entries by auto
  have len: "unat n < unat (vs_next_file ?vs) + 1" if "(n, bs) \<in> set ?logs" for n bs
    using holds [OF that] d(3) by (auto simp: word_le_nat_alt word_less_nat_alt)
  have sum: "(\<Sum>(n, bs) \<leftarrow> ?logs. length bs + 1) \<le> 2 * N + 2" using logs1 b0(2) by auto
  have nn: "unat (next_file_number (last es)) \<le> unat (vs_next_file ?vs)" using lg(1) by (simp add: logged_def word_le_nat_alt)
  have room: "log_room es ?logs (unat (vs_next_file ?vs) + 1)"
    unfolding log_room_def using nn sum len small by auto
  have ends: "\<forall>(sq, us) \<in> set (concat (map snd ?logs)). unat sq + length us \<le> Suc (unat (vs_last_sequence ?vs))"
    using logs1 b0 batches_end_all [of 1] by (fastforce simp: log_holds_def)
  have "last_sequence (last es) \<le> vs_last_sequence ?vs" "vs_last_sequence ?vs < kMaxSequenceNumber"
    using lg(1) st(4) by (simp_all add: logged_def sequences_ok_def)
  then show ?thesis
    using man tab ld E db_entries_wf [OF ok] size room sum ends by (intro exI [of _ ?logs]) (simp add: on_disk_def)
qed

lemma contents_of_entries:
  assumes "db_ok env db es" "db_ok env' db' es'" "db_entries env db = db_entries env' db'"
  shows "contents_of env db = contents_of env' db'"
  using visible_all [of "db_entries env db" "vs_last_sequence (db_versions db)" "vs_last_sequence (db_versions db')"]
    db_entries_seq [OF assms(1)] db_entries_seq [OF assms(2)] assms(3)
  by (simp add: contents_of_def contents_at_def db_entries_def)

lemma DB_reopens:
  assumes run: "running k env db" and dur: "durable N db" and env: "env_ok env"
    and small: "unat (vs_next_file (db_versions db)) + 2 * N + 4 + (28 * 2 ^ 25 + k') * 2 ^ 25 < 2 ^ 64"
    and opts: "SanitizeOptions opts = db_options db" "\<not> error_if_exists opts"
  shows "\<exists>db'. DB_Open env opts (db_name db) (DB_Close db) = Inr db' \<and> contents_of env db' = contents_of env db \<and>
    running k' env db' \<and> durable 0 db' \<and> db_options db' = db_options db \<and> db_name db' = db_name db \<and>
    db_entries env db' = db_entries env db \<and> vs_last_sequence (db_versions db') \<le> vs_last_sequence (db_versions db)"
proof -
  let ?name = "db_name db" and ?fs = "files db"
  obtain es where ok: "db_ok env db es" using run by (auto simp: running_def active_def)
  have size: "entries_size (db_entries env db) < 2 ^ 31" using run by (simp add: running_def active_def bounded_def)
  have left: "unat (vs_next_file (db_versions db)) + 2 * N + 4 < 2 ^ 64" using small by linarith
  obtain logs where logs: "on_disk (db_ops env db) ?name ?fs es (vs_current (db_versions db)) logs (db_entries env db)"
    "log_room es logs (unat (vs_next_file (db_versions db)) + 1)" "(\<Sum>(n, bs) \<leftarrow> logs. length bs + 1) \<le> 2 * N + 2"
    "last_sequence (last es) \<le> vs_last_sequence (db_versions db)" "vs_last_sequence (db_versions db) < kMaxSequenceNumber"
    "\<forall>(sq, us) \<in> set (concat (map snd logs)). unat sq + length us \<le> Suc (unat (vs_last_sequence (db_versions db)))"
    using db_on_disk [OF ok dur size left] by blast
  have ops: "db_ops env db = env_tables env (SanitizeOptions opts)" by (simp add: db_ops_def opts(1))
  obtain n where "current_names ?fs ?name n" using logs(1) by (auto simp: on_disk_def manifest_on_disk_def)
  then have cur: "CheckCurrent env (DBImpl_new opts ?name ?fs) = (Status_OK, DBImpl_new opts ?name ?fs)"
    using opts(2) by (simp add: CheckCurrent_def DBImpl_new_def SanitizeOptions_def current_names_def)
  obtain db' where db': "DB_Open env opts ?name ?fs = Inr db'" "opened env opts ?name (db_entries env db) db'" "needs_work db' \<longrightarrow> bg_compaction_scheduled db'"
      "unat (vs_next_file (db_versions db')) \<le> unat (vs_next_file (db_versions db)) + 1 + (\<Sum>(n, bs) \<leftarrow> logs. length bs + 1) + 1"
      "vs_last_sequence (db_versions db') \<le> vs_last_sequence (db_versions db)"
    using DB_Open_disk [OF env logs(1) [unfolded ops] logs(2,4-6) cur] by blast
  have "unat (vs_next_file (db_versions db')) + (28 * 2 ^ 25 + k') * 2 ^ 25 < 2 ^ 64"
    using db'(4) logs(3) small by linarith
  then have "running k' env db'" by (rule opened_running [OF db'(2,3) size])
  moreover obtain es' where "db_ok env db' es'" "db_entries env db' = db_entries env db" "durable 0 db'" "db_options db' = db_options db"
    "db_name db' = ?name" using db'(2) opts(1) by (auto simp: opened_def)
  moreover have "DB_Close db = ?fs" by (simp add: DB_Close_def)
  ultimately show ?thesis using db'(1,5) contents_of_entries [OF _ ok, of env db' es'] by auto
qed

end
