(* ===== verification/DB_Manual.thy ===== *)
theory DB_Manual
  imports DB_Writes
begin

text \<open>
  Compacting on demand: \<^verbatim>\<open>DBImpl::CompactRange\<close> and the loops that it waits in. They end, since every round of
  a manual compaction takes from the weight of the levels or is the last one.
\<close>

lemma BackgroundCompaction_manual:
  assumes run: "running k env db" "env_ok env" and r: "BackgroundCompaction env db = (s, db', left)" and m: "manual_compaction db = Some m"
  shows "db_imm db \<noteq> None \<Longrightarrow> left = None \<and> manual_compaction db' = Some m"
    "db_imm db = None \<Longrightarrow> manual_compaction db' = None \<and> (\<exists>m'. left = Some m' \<and> manual_level m' = manual_level m \<and>
       (manual_done m' \<or> db_weight env db' < db_weight env db))"
proof -
  obtain es where ok: "db_ok env db es" using run(1) by (auto simp: running_def active_def)
  note bc = BackgroundCompaction_ok [OF run r]
  show "left = None \<and> manual_compaction db' = Some m" if imm: "db_imm db \<noteq> None"
  proof -
    obtain s1 db1 where w: "CompactMemTable env db = (s1, db1)" by fastforce
    then have res: "db1 = db'" "left = None" using r imm by (simp_all add: BackgroundCompaction_def)
    have "manual_compaction db1 = manual_compaction db"
      using w imm by (auto simp: CompactMemTable_def WriteLevel0Table_def NewFileNumber_def Let_def DeleteObsoleteFiles_def
          split: option.splits prod.splits if_splits)
    then show ?thesis using res m by simp
  qed
  show "manual_compaction db' = None \<and> (\<exists>m'. left = Some m' \<and> manual_level m' = manual_level m \<and> (manual_done m' \<or> db_weight env db' < db_weight env db))"
    if imm: "db_imm db = None"
  proof -
    have lv: "Suc (manual_level m) < kNumLevels" using run(1) m by (simp add: running_def active_def)
    obtain c vs1 where pick: "CompactRange (db_versions db) (manual_level m) (manual_begin m) (manual_end m) = (c, vs1)" by fastforce
    show ?thesis
    proof (cases c)
      case None
      then show ?thesis using r imm m pick by (auto simp: BackgroundCompaction_def ManualCompaction_left_def Let_def Status_ok_def)
    next
      case (Some c')
      obtain s1 db1 where w: "RunCompaction env (db\<lparr>db_versions := vs1\<rparr>) c' = (s1, db1)" by fastforce
      have of: "compaction_of (db_versions db) c' vs1" "Suc (clevel c') < kNumLevels"
        using CompactRange_of [OF db_okD(7) [OF ok]] pick Some lv by fastforce+
      note cr = compaction_round [OF run imm of, of False s1 db1]
      have "Status_ok s1" "db_weight env db1 < db_weight env db" using cr(1,3) w by simp_all
      moreover have "db_weight env (db1\<lparr>manual_compaction := None\<rparr>) = db_weight env db1" by (simp add: db_weight_def table_entries_def)
      ultimately show ?thesis
        using r imm m pick Some w by (auto simp: BackgroundCompaction_def ManualCompaction_left_def Let_def)
    qed
  qed
qed

text \<open>A background call while a manual compaction waits.\<close>

lemma BackgroundCall_manual:
  assumes run: "running k env db" "env_ok env" and r: "BackgroundCall env db = (db', left)" and m: "manual_compaction db = Some m"
  shows "left = None \<and> manual_compaction db' = Some m \<and> db_weight env db' \<le> db_weight env db \<or>
    (\<exists>m'. left = Some m' \<and> manual_compaction db' = None \<and> manual_level m' = manual_level m \<and> db_weight env db' \<le> db_weight env db \<and>
       (manual_done m' \<or> db_weight env db' < db_weight env db))"
proof -
  obtain s db1 m1 where w: "BackgroundCompaction env db = (s, db1, m1)" by (metis prod_cases3)
  have "\<not> shutting_down db" using run(1) by (simp add: running_def active_def)
  then have res: "db' = MaybeScheduleCompaction (db1\<lparr>bg_compaction_scheduled := False\<rparr>)" "left = m1" using r w by (simp_all add: BackgroundCall_def)
  have wt: "db_weight env db' = db_weight env db1" "manual_compaction db' = manual_compaction db1"
    using MaybeSchedule_cases [of "db1\<lparr>bg_compaction_scheduled := False\<rparr>"] unfolding res(1) by (auto simp: db_weight_def table_entries_def)
  have "needs_work db" using m by (simp add: needs_work_def)
  from BackgroundCompaction_ok(3) [OF run w this]
  have "db_weight env db1 \<le> db_weight env db" using m by (auto simp: work_left_def split: if_splits)
  then show ?thesis using BackgroundCompaction_manual [OF run w m] res(2) wt by (cases "db_imm db") auto
qed

text \<open>What every one of these loops keeps.\<close>

definition steps_kept :: "nat \<Rightarrow> nat \<Rightarrow> db_env \<Rightarrow> DBImpl \<Rightarrow> DBImpl \<Rightarrow> bool" where
  "steps_kept N k env db db' \<longleftrightarrow> running k env db' \<and> durable N db' \<and> contents_of env db' = contents_of env db \<and> db_options db' = db_options db"

lemma steps_kept_step:
  assumes "step_kept env db db'" "running k env db'" "durable N db" shows "steps_kept N k env db db'"
  using assms durable_step [OF assms(1,3)] by (auto simp: steps_kept_def step_kept_def unchanged_def contents_of_def)

lemma steps_kept_trans: "steps_kept N k env db db' \<Longrightarrow> steps_kept N k' env db' db'' \<Longrightarrow> steps_kept N k' env db db''"
  by (simp add: steps_kept_def)

text \<open>The wait for the manual compaction of another caller ends.\<close>

lemma WaitManual_ok:
  assumes "running k env db" "durable N db" "env_ok env"
  shows "\<exists>db'. WaitManual env db = Some db' \<and> steps_kept N k env db db' \<and> db_weight env db' \<le> db_weight env db"
  using assms
proof (induction "work_left env db" arbitrary: db rule: less_induct)
  case less
  note run = less.prems(1) and env = less.prems(3)
  show ?case
  proof (cases "manual_compaction db")
    case None
    then show ?thesis using less.prems by (subst WaitManual.simps) (simp add: steps_kept_def)
  next
    case (Some m)
    then have work: "needs_work db" by (simp add: needs_work_def)
    obtain db1 left where call: "BackgroundCall env db = (db1, left)" by fastforce
    note b = BackgroundCall_ok [OF run env call]
    have wt: "db_weight env db1 \<le> db_weight env db" using BackgroundCall_manual [OF run env call Some] by blast
    have kept: "steps_kept N k env db db1" by (rule steps_kept_step [OF b(2,1) less.prems(2)])
    have "WaitManual env db = WaitManual env db1"
      using run work call Some by (subst WaitManual.simps) (simp add: bg_cv_Wait_def running_def)
    moreover obtain db' where "WaitManual env db1 = Some db'" "steps_kept N k env db1 db'" "db_weight env db' \<le> db_weight env db1"
      using less.hyps [OF b(4) [OF work] b(1) _ env] kept by (auto simp: steps_kept_def)
    ultimately show ?thesis using wt steps_kept_trans [OF kept] by auto
  qed
qed

lemma ManualRound_ok:
  assumes "running k env db" "durable N db" "env_ok env" "manual_compaction db = Some m"
  shows "\<exists>m' db'. ManualRound env m db = Some (m', db') \<and> steps_kept N k env db db' \<and> manual_compaction db' = None \<and>
    manual_level m' = manual_level m \<and> (manual_done m' \<or> db_weight env db' < db_weight env db)"
  using assms
proof (induction "work_left env db" arbitrary: db rule: less_induct)
  case less
  note run = less.prems(1) and env = less.prems(3) and m = less.prems(4)
  have work: "needs_work db" using m by (simp add: needs_work_def)
  obtain db1 left where call: "BackgroundCall env db = (db1, left)" by fastforce
  note b = BackgroundCall_ok [OF run env call] and man = BackgroundCall_manual [OF run env call m]
  have kept: "steps_kept N k env db db1" by (rule steps_kept_step [OF b(2,1) less.prems(2)])
  have step: "ManualRound env m db = ManualRound env (case left of None \<Rightarrow> m | Some m' \<Rightarrow> m') db1"
    using run work call m by (subst ManualRound.simps) (simp add: bg_cv_Wait_def running_def)
  show ?case
  proof (cases left)
    case None
    then have m1: "manual_compaction db1 = Some m" "db_weight env db1 \<le> db_weight env db" using man by auto
    obtain m' db' where "ManualRound env m db1 = Some (m', db')" "steps_kept N k env db1 db'" "manual_compaction db' = None"
      "manual_level m' = manual_level m" "manual_done m' \<or> db_weight env db' < db_weight env db1"
      using less.hyps [OF b(4) [OF work] b(1) _ env m1(1)] kept by (auto simp: steps_kept_def)
    then show ?thesis using step None m1(2) steps_kept_trans [OF kept] by (auto intro: less_le_trans)
  next
    case (Some m')
    then have m1: "manual_compaction db1 = None" "manual_level m' = manual_level m" "manual_done m' \<or> db_weight env db1 < db_weight env db" using man by auto
    then have "ManualRound env m' db1 = Some (m', db1)" by (subst ManualRound.simps) simp
    then show ?thesis using step Some m1 kept by auto
  qed
qed

lemma start_manual:
  assumes "running k env db" "durable N db" "Suc (manual_level m) < kNumLevels"
  shows "steps_kept N k env db (MaybeScheduleCompaction (db\<lparr>manual_compaction := Some m\<rparr>))"
    "manual_compaction (MaybeScheduleCompaction (db\<lparr>manual_compaction := Some m\<rparr>)) = Some m"
    "db_weight env (MaybeScheduleCompaction (db\<lparr>manual_compaction := Some m\<rparr>)) = db_weight env db"
proof -
  let ?db = "db\<lparr>manual_compaction := Some m\<rparr>"
  have holds: "log_holds ?db = log_holds db" by (simp add: log_holds_def fun_eq_iff)
  have same: "db_ok env ?db es = db_ok env db es" "db_entries env ?db = db_entries env db" "db_weight env ?db = db_weight env db"
    "contents_of env ?db = contents_of env db" for es
    by (simp_all add: db_ok_def db_entries_def db_runs_def db_ops_def imm_runs_def db_weight_def table_entries_def contents_of_def contents_at_def)
  have "durable N ?db = durable N db" using holds by (cases "db_imm db") (simp_all add: durable_def log_logged_def imm_logged_def only_logs_def)
  then have dur: "durable N ?db" using assms(2) by simp
  have "active k env ?db" using assms(1,3) same by (simp add: running_def active_def bounded_def)
  note run = running_schedule [OF this]
  show "steps_kept N k env db (MaybeScheduleCompaction ?db)"
    using MaybeSchedule_cases [of ?db] run dur same(4) by (auto simp: steps_kept_def contents_of_def)
  show "manual_compaction (MaybeScheduleCompaction ?db) = Some m" "db_weight env (MaybeScheduleCompaction ?db) = db_weight env db"
    using MaybeSchedule_cases [of ?db] same(3) by (auto simp: db_weight_def table_entries_def)
qed

lemma CompactRange_loop_ok:
  assumes "running k env db" "durable N db" "env_ok env" "Suc (manual_level m) < kNumLevels"
  shows "\<exists>db'. CompactRange_loop env m db = Some db' \<and> steps_kept N k env db db'"
  using assms
proof (induction "db_weight env db" arbitrary: db m rule: less_induct)
  case less
  obtain db0 where wait: "WaitManual env db = Some db0" "steps_kept N k env db db0" "db_weight env db0 \<le> db_weight env db"
    using WaitManual_ok [OF less.prems(1-3)] by blast
  then have run0: "running k env db0" "durable N db0" by (simp_all add: steps_kept_def)
  let ?db = "MaybeScheduleCompaction (db0\<lparr>manual_compaction := Some m\<rparr>)"
  show ?case
  proof (cases "manual_done m")
    case True
    then show ?thesis using less.prems by (subst CompactRange_loop.simps) (simp add: steps_kept_def)
  next
    case False
    note start = start_manual [OF run0 less.prems(4)]
    have s1: "running k env ?db" "durable N ?db" using start(1) by (simp_all add: steps_kept_def)
    obtain m1 db1 where r: "ManualRound env m ?db = Some (m1, db1)" "steps_kept N k env ?db db1"
      "manual_level m1 = manual_level m" "manual_done m1 \<or> db_weight env db1 < db_weight env ?db"
      using ManualRound_ok [OF s1 less.prems(3) start(2)] by blast
    have kept: "steps_kept N k env db db1" by (rule steps_kept_trans [OF wait(2) steps_kept_trans [OF start(1) r(2)]])
    have step: "CompactRange_loop env m db = CompactRange_loop env m1 db1" using False r(1) wait(1) by (subst CompactRange_loop.simps) simp
    show ?thesis
    proof (cases "manual_done m1")
      case True
      then show ?thesis using step kept by (subst (asm) CompactRange_loop.simps [of env m1]) simp
    next
      case False
      then have "db_weight env db1 < db_weight env db" using r(4) start(3) wait(3) by simp
      moreover have "running k env db1" "durable N db1" using r(2) by (simp_all add: steps_kept_def)
      ultimately obtain db' where "CompactRange_loop env m1 db1 = Some db'" "steps_kept N k env db1 db'"
        using less.hyps [of db1 m1] less.prems(3,4) r(3) by auto
      then show ?thesis using step steps_kept_trans [OF kept] by auto
    qed
  qed
qed

lemma WaitForImm_ok:
  assumes "running k env db" "durable N db" "env_ok env"
  shows "\<exists>db'. WaitForImm env db = Some db' \<and> steps_kept N k env db db' \<and> db_imm db' = None"
proof (cases "db_imm db")
  case None
  then show ?thesis using assms by (subst WaitForImm.simps) (simp add: steps_kept_def)
next
  case (Some imm)
  obtain db1 left where call: "BackgroundCall env db = (db1, left)" by fastforce
  note b = BackgroundCall_ok [OF assms(1,3) call]
  have "needs_work db" using Some by (simp add: needs_work_def)
  then have "bg_cv_Wait env db = Some (db1, left)" using assms(1) call by (simp add: bg_cv_Wait_def running_def)
  moreover have "WaitForImm env db1 = Some db1" using b(3) by (subst WaitForImm.simps) simp
  moreover have "Status_ok (bg_error db)" using assms(1) by (simp add: running_def active_def)
  ultimately have "WaitForImm env db = Some db1" using Some by (subst WaitForImm.simps) simp
  then show ?thesis using b(3) steps_kept_step [OF b(2,1) assms(2)] by blast
qed

lemma DB_CompactRange_ok:
  assumes run: "running (k + 2) env db" and dur: "durable N db" and env: "env_ok env" and usage: "env_usage env MemTable_new \<le> write_buffer_size (db_options db)"
  shows "\<exists>db'. DB_CompactRange env begins ends db = Some db' \<and> steps_kept N k env db db'"
proof -
  obtain db1 where room: "MakeRoomForWrite env True db = Some (Status_OK, db1)" "room_made N k env db db1"
    using MakeRoom_loop_ok [OF run dur env usage, of True False] by (auto simp: MakeRoomForWrite_def)
  have k1: "steps_kept N k env db db1" using room(2) by (auto simp: room_made_def steps_kept_def contents_of_def)
  obtain db2 where imm: "WaitForImm env db1 = Some db2" "steps_kept N k env db1 db2" "db_imm db2 = None"
    using WaitForImm_ok [of k env db1] k1 env by (auto simp: steps_kept_def)
  have mem: "TEST_CompactMemTable env db = Some (Status_OK, db2)"
    using room(1) imm by (simp add: TEST_CompactMemTable_def Write_def Status_ok_def)
  have k2: "steps_kept N k env db db2" by (rule steps_kept_trans [OF k1 imm(2)])
  have levels: "\<exists>db'. fold (\<lambda>l d. Option.bind d (TEST_CompactRange env l begins ends)) ls (Some d) = Some db' \<and> steps_kept N k env d db'"
    if "running k env d" "durable N d" "\<And>l. l \<in> set ls \<Longrightarrow> Suc l < kNumLevels" for ls d
    using that
  proof (induction ls arbitrary: d)
    case Nil
    then show ?case by (simp add: steps_kept_def)
  next
    case (Cons l ls)
    let ?m = "\<lparr>manual_level = l, manual_done = False, manual_begin = map_option (\<lambda>k. InternalKey_new k kMaxSequenceNumber kValueTypeForSeek) begins,
      manual_end = map_option (\<lambda>k. InternalKey_new k 0 kTypeDeletion) ends\<rparr>"
    have "Suc (manual_level ?m) < kNumLevels" using Cons.prems(3) [of l] by simp
    from CompactRange_loop_ok [OF Cons.prems(1,2) env this]
    obtain d1 where d1: "TEST_CompactRange env l begins ends d = Some d1" "steps_kept N k env d d1" unfolding TEST_CompactRange_def by blast
    then obtain d2 where "fold (\<lambda>l d. Option.bind d (TEST_CompactRange env l begins ends)) ls (Some d1) = Some d2" "steps_kept N k env d1 d2"
      using Cons.IH [of d1] Cons.prems(3) by (auto simp: steps_kept_def)
    then show ?case using d1 steps_kept_trans by fastforce
  qed
  define ml where "ml = fold (\<lambda>l m. if OverlapInLevel Bytewise_Compare (vs_current (db_versions db)) l begins ends then l else m) [1..<kNumLevels] 1"
  have "ml < kNumLevels"
  proof -
    have bound: "fold (\<lambda>l m. if P l then l else m) ls x < kNumLevels" if "x < kNumLevels" "\<And>l. l \<in> set ls \<Longrightarrow> l < kNumLevels" for P ls and x :: nat
      using that by (induction ls arbitrary: x) auto
    show ?thesis unfolding ml_def by (rule bound) (auto simp: kNumLevels_def)
  qed
  then obtain db' where "fold (\<lambda>l d. Option.bind d (TEST_CompactRange env l begins ends)) [0..<ml] (Some db2) = Some db'" "steps_kept N k env db2 db'"
    using levels [of db2 "[0..<ml]"] k2 by (auto simp: steps_kept_def)
  then have "DB_CompactRange env begins ends db = Some db'" using mem unfolding DB_CompactRange_def ml_def by simp
  then show ?thesis using steps_kept_trans [OF k2 \<open>steps_kept N k env db2 db'\<close>] by blast
qed

end
