(* ===== verification/DB_Properties.thy ===== *)
theory DB_Properties
  imports DB_Reopen DB_Manual
begin

text \<open>
  The properties of the database as a whole: creating, writing, reading, iterating, background work,
  compacting on demand, closing and opening again. Each holds of every state that the invariants
  \<^const>\<open>running\<close> and \<^const>\<open>durable\<close> allow, in an environment whose calls succeed; the examples start from an
  empty directory.
\<close>

section \<open>An environment and a database for the examples\<close>

definition quiet_env :: db_env where
  "quiet_env = \<lparr>env_new = \<lambda>_. Status_OK, env_table = \<lambda>_. Status_OK, env_append = \<lambda>_. [], env_sync = \<lambda>_. Status_OK, env_close = \<lambda>_. Status_OK,
     env_manifest = no_manifest_failures, env_read = no_read_failures, env_lock = Status_OK, env_children = Status_OK, env_delete = \<lambda>_. Status_OK,
     env_usage = \<lambda>mem. int (length mem), env_input = Status_OK, env_mapped = \<lambda>_. True, env_compress = \<lambda>_. None, env_uncompress = \<lambda>_. None\<rparr>"

definition default_options :: Options where
  "default_options = Options_new\<lparr>create_if_missing := True\<rparr>"

lemma quiet_env_ok: "env_ok quiet_env" "env_usage quiet_env MemTable_new \<le> write_buffer_size (SanitizeOptions default_options)"
  by (simp_all add: env_ok_def quiet_env_def snappy_inverse_def SanitizeOptions_def ClipToRange_def as_int_def default_options_def Options_new_def MemTable_new_def)

lemma GetChildren_Nil: "GetChildren [] name = []"
  by (simp add: GetChildren_def)

text \<open>The database that opening creates in an empty directory.\<close>

lemma fresh_db:
  obtains db es where "DB_Open quiet_env default_options (cstr ''db'') [] = Inr db" "running (3 * 2 ^ 37) quiet_env db" "durable 0 db"
    "contents_of quiet_env db = Map.empty" "db_options db = SanitizeOptions default_options" "db_entries quiet_env db = []"
    "vs_last_sequence (db_versions db) = 0" "db_name db = cstr ''db''" "db_ok quiet_env db es"
  using DB_Open_creates [OF quiet_env_ok(1) GetChildren_Nil, of default_options "3 * 2 ^ 37" "cstr ''db''"]
  by (auto simp: default_options_def running_def active_def)

section \<open>Opening\<close>

text \<open>
  C11: opening a directory without files with \<^verbatim>\<open>create_if_missing\<close> makes a new, empty database: \<^verbatim>\<open>NewDB\<close>
  writes a manifest and \<^verbatim>\<open>CURRENT\<close>, recovery reads them back and a first log file is there. The database
  runs: its invariants hold, with file numbers left for \<open>k\<close> steps to come.
\<close>

theorem DB_Open_creates_empty:
  assumes "env_ok env" "GetChildren fs name = []" "create_if_missing opts" "k \<le> 3 * 2 ^ 37"
  shows "\<exists>db. DB_Open env opts name fs = Inr db \<and> running k env db \<and> durable 0 db \<and> contents_of env db = Map.empty \<and>
    db_options db = SanitizeOptions opts"
  using DB_Open_creates [OF assms] by blast

theorem DB_Open_creates_empty_witness:
  "\<exists>db. DB_Open quiet_env default_options (cstr ''db'') [] = Inr db \<and> contents_of quiet_env db = Map.empty"
  using DB_Open_creates_empty [OF quiet_env_ok(1) GetChildren_Nil, of default_options 0 "cstr ''db''"] by (auto simp: default_options_def Options_new_def)

text \<open>
  C1: a database that is closed and opened again has the contents that it had: what was in its memtables is
  recovered from the log files and written to tables, what was in tables is found by the manifest. Opening
  succeeds, and the recovered database runs again. Recovery takes at most one file number per record of the
  logs for the tables it writes, so the numbers it needs are there when each log has at most \<open>2 ^ 60\<close> records.
\<close>

theorem DB_reopen_keeps_contents:
  assumes "running k env db" "durable N db" "env_ok env" "N \<le> 2 ^ 60" "unat (vs_next_file (db_versions db)) \<le> 2 ^ 62"
    and "SanitizeOptions opts = db_options db" "\<not> error_if_exists opts" "k' \<le> 2 ^ 36"
  shows "\<exists>db'. DB_Open env opts (db_name db) (DB_Close db) = Inr db' \<and> contents_of env db' = contents_of env db \<and>
    running k' env db' \<and> durable 0 db'"
proof -
  have "unat (vs_next_file (db_versions db)) + 2 * N + 4 + (28 * 2 ^ 25 + k') * 2 ^ 25 < 2 ^ 64"
    using assms(4,5,8) by (simp add: add_mult_distrib)
  from DB_reopens [OF assms(1-3) this assms(6,7)] show ?thesis by blast
qed

theorem DB_reopen_keeps_contents_witness:
  "\<exists>db db'. DB_Open quiet_env default_options (cstr ''db'') [] = Inr db \<and>
     DB_Open quiet_env default_options (cstr ''db'') (DB_Close db) = Inr db' \<and> contents_of quiet_env db' = contents_of quiet_env db"
proof -
  obtain db es where db: "DB_Open quiet_env default_options (cstr ''db'') [] = Inr db" "running (3 * 2 ^ 37) quiet_env db" "durable 0 db"
    "db_options db = SanitizeOptions default_options" "db_name db = cstr ''db''"
    using fresh_db by metis
  have "unat (vs_next_file (db_versions db)) \<le> 2 ^ 62"
    using db(2) by (simp add: running_def active_def bounded_def)
  then show ?thesis
    using DB_reopen_keeps_contents [OF db(2,3) quiet_env_ok(1) _ _ db(4) [symmetric], of 0] db(1,5)
    by (auto simp: default_options_def Options_new_def)
qed

section \<open>Writing\<close>

text \<open>
  C2: \<^verbatim>\<open>DBImpl::Write\<close> applies the updates of its batch, and of the batches of the waiting writers that it
  takes along, in their order. It makes room first, however often it has to wait, so it always returns; no write
  that asks for a sync is served by one that does not; and the updates are in the log before it returns. A read at
  the sequence number that was the last one before the write still gives the contents before it. The database holds
  no snapshot (\<^const>\<open>running\<close>), and there is room for the new entries and their sequence numbers.
\<close>

theorem DB_Write_applies:
  assumes "running (k + 2 + kNumLevels * length (us @ updates_of ws)) env db" "durable N db" "env_ok env"
    and "env_usage env MemTable_new \<le> write_buffer_size (db_options db)" "list_all update_fits (us @ updates_of ws)"
    and "unat (vs_last_sequence (db_versions db)) + length (us @ updates_of ws) < unat kMaxSequenceNumber"
    and "entries_size (db_entries env db) + sum_list (map update_size (us @ updates_of ws)) < 2 ^ 31"
  shows "\<exists>db' m. Write env db (Some (batch_rep 0 us), sync) (map writer_rep ws) = Some (Status_OK, db', Suc m) \<and>
    m \<le> length ws \<and> (\<forall>w \<in> set (take m ws). snd w \<longrightarrow> sync) \<and> running k env db' \<and> durable (Suc N) db' \<and>
    contents_of env db' = foldl apply_update (contents_of env db) (us @ updates_of (take m ws)) \<and>
    contents_at env db' (vs_last_sequence (db_versions db)) = contents_of env db"
  using Write_ok [OF assms] by blast

theorem DB_Write_applies_witness:
  "\<exists>db db' m. DB_Open quiet_env default_options (cstr ''db'') [] = Inr db \<and>
     Write quiet_env db (Some (batch_rep 0 [UPut [1] [2], UPut [3] [4]]), False) [writer_rep (Some [UDelete [1]], True)] = Some (Status_OK, db', Suc m) \<and>
     m = 0 \<and> contents_of quiet_env db' = [[1] \<mapsto> [2], [3] \<mapsto> [4]]"
proof -
  let ?us = "[UPut [1] [2], UPut [3] [4]]" and ?ws = "[(Some [UDelete [1]], True)]"
  obtain db es where db: "DB_Open quiet_env default_options (cstr ''db'') [] = Inr db" "running (3 * 2 ^ 37) quiet_env db" "durable 0 db"
    "contents_of quiet_env db = Map.empty" "db_options db = SanitizeOptions default_options" "db_entries quiet_env db = []"
    "vs_last_sequence (db_versions db) = 0"
    using fresh_db by metis
  have run: "running (0 + 2 + kNumLevels * length (?us @ updates_of ?ws)) quiet_env db"
    by (rule running_mono [OF db(2)]) (simp add: updates_of_def kNumLevels_def)
  have usage: "env_usage quiet_env MemTable_new \<le> write_buffer_size (db_options db)" using quiet_env_ok(2) db(5) by simp
  have sizes: "list_all update_fits (?us @ updates_of ?ws)"
    "unat (vs_last_sequence (db_versions db)) + length (?us @ updates_of ?ws) < unat kMaxSequenceNumber"
    "entries_size (db_entries quiet_env db) + sum_list (map update_size (?us @ updates_of ?ws)) < 2 ^ 31"
    using db(6,7) by (simp_all add: updates_of_def kMaxSequenceNumber_def entries_size_def)
  obtain db' m where w: "Write quiet_env db (Some (batch_rep 0 ?us), False) (map writer_rep ?ws) = Some (Status_OK, db', Suc m)"
    "\<forall>w \<in> set (take m ?ws). snd w \<longrightarrow> False" "m \<le> length ?ws"
    "contents_of quiet_env db' = foldl apply_update (contents_of quiet_env db) (?us @ updates_of (take m ?ws))"
    using DB_Write_applies [OF run db(3) quiet_env_ok(1) usage sizes, of False] by blast
  have "m = 0" using w(2) by (cases m) simp_all
  then show ?thesis using w(1,4) db(1,4) by (auto simp: updates_of_def)
qed

text \<open>
  C5: \<^verbatim>\<open>DBImpl::MakeRoomForWrite\<close> returns: each background call it waits for leaves less work to do, so the
  memtable being compacted and the files of level 0 are gone after finitely many of them. Then the memtable has
  room, it is a new one when that was asked for, and the contents are as before.
\<close>

theorem MakeRoomForWrite_returns:
  assumes "running (k + 2) env db" "durable N db" "env_ok env" "env_usage env MemTable_new \<le> write_buffer_size (db_options db)"
  shows "\<exists>db'. MakeRoomForWrite env force db = Some (Status_OK, db') \<and> running k env db' \<and> durable N db' \<and>
    env_usage env (db_mem db') \<le> write_buffer_size (db_options db') \<and> (force \<longrightarrow> db_mem db' = MemTable_new) \<and>
    contents_of env db' = contents_of env db"
proof -
  obtain db' where "MakeRoom_loop env force (\<not> force) db = Some (Status_OK, db')" "room_made N k env db db'" "force \<longrightarrow> db_mem db' = MemTable_new"
    using MakeRoom_loop_ok [OF assms] by blast
  then show ?thesis by (auto simp: MakeRoomForWrite_def room_made_def contents_of_def)
qed

theorem MakeRoomForWrite_returns_witness:
  "\<exists>db db'. DB_Open quiet_env default_options (cstr ''db'') [] = Inr db \<and> MakeRoomForWrite quiet_env True db = Some (Status_OK, db') \<and>
     db_mem db' = MemTable_new \<and> contents_of quiet_env db' = Map.empty"
proof -
  obtain db es where db: "DB_Open quiet_env default_options (cstr ''db'') [] = Inr db" "running (3 * 2 ^ 37) quiet_env db" "durable 0 db"
    "contents_of quiet_env db = Map.empty" "db_options db = SanitizeOptions default_options"
    using fresh_db by metis
  have run: "running (0 + 2) quiet_env db" by (rule running_mono [OF db(2)]) simp
  have usage: "env_usage quiet_env MemTable_new \<le> write_buffer_size (db_options db)" using quiet_env_ok(2) db(5) by simp
  show ?thesis using MakeRoomForWrite_returns [OF run db(3) quiet_env_ok(1) usage, of True] db(1,4) by auto
qed

section \<open>Background work\<close>

text \<open>
  C4: a background call, be it to write out a memtable, to move a file, to compact or to do a round of a manual
  compaction, keeps the invariants and the contents, leaves no memtable waiting, and when there was something to
  do there is less of it afterwards.
\<close>

theorem BackgroundCall_keeps:
  assumes "running k env db" "durable N db" "env_ok env"
  shows "case BackgroundCall env db of (db', m) \<Rightarrow> running k env db' \<and> durable N db' \<and> contents_of env db' = contents_of env db \<and>
    db_imm db' = None \<and> (needs_work db \<longrightarrow> work_left env db' < work_left env db)"
proof -
  obtain db' m where r: "BackgroundCall env db = (db', m)" by fastforce
  note b = BackgroundCall_ok [OF assms(1,3) r]
  show ?thesis using r b steps_kept_step [OF b(2,1) assms(2)] by (simp add: steps_kept_def)
qed

theorem BackgroundCall_keeps_witness:
  "\<exists>db. DB_Open quiet_env default_options (cstr ''db'') [] = Inr db \<and>
     contents_of quiet_env (fst (BackgroundCall quiet_env db)) = Map.empty \<and> db_imm (fst (BackgroundCall quiet_env db)) = None"
proof -
  obtain db es where db: "DB_Open quiet_env default_options (cstr ''db'') [] = Inr db" "running (3 * 2 ^ 37) quiet_env db" "durable 0 db"
    "contents_of quiet_env db = Map.empty"
    using fresh_db by metis
  show ?thesis using BackgroundCall_keeps [OF db(2,3) quiet_env_ok(1)] db(1,4) by (auto split: prod.splits)
qed

text \<open>
  C6: \<^verbatim>\<open>DBImpl::CompactRange\<close> ends: writing out the memtable ends, and so do, for each level, the wait for a manual
  compaction that is already pending and the rounds of the own one, since a round either is the last one or moves
  entries to a deeper level. The contents are as before.
\<close>

theorem DB_CompactRange_ends:
  assumes "running (k + 2) env db" "durable N db" "env_ok env" "env_usage env MemTable_new \<le> write_buffer_size (db_options db)"
  shows "\<exists>db'. DB_CompactRange env begins ends db = Some db' \<and> running k env db' \<and> durable N db' \<and> contents_of env db' = contents_of env db"
  using DB_CompactRange_ok [OF assms] unfolding steps_kept_def by blast

theorem DB_CompactRange_ends_witness:
  "\<exists>db db'. DB_Open quiet_env default_options (cstr ''db'') [] = Inr db \<and> DB_CompactRange quiet_env None (Some [7]) db = Some db' \<and>
     contents_of quiet_env db' = Map.empty"
proof -
  obtain db es where db: "DB_Open quiet_env default_options (cstr ''db'') [] = Inr db" "running (3 * 2 ^ 37) quiet_env db" "durable 0 db"
    "contents_of quiet_env db = Map.empty" "db_options db = SanitizeOptions default_options"
    using fresh_db by metis
  have run: "running (0 + 2) quiet_env db" by (rule running_mono [OF db(2)]) simp
  have usage: "env_usage quiet_env MemTable_new \<le> write_buffer_size (db_options db)" using quiet_env_ok(2) db(5) by simp
  show ?thesis using DB_CompactRange_ends [OF run db(3) quiet_env_ok(1) usage, of None "Some [7]"] db(1,4) by auto
qed

section \<open>Reading\<close>

text \<open>
  C3: \<^verbatim>\<open>DBImpl::Get\<close> returns the value that the key has at the sequence number of the snapshot, or of the
  last write when no snapshot is given: the newest entry that is not newer, over the memtable, the
  memtable being compacted and all tables, with \<^verbatim>\<open>NotFound\<close> for a deleted or absent key. It keeps the
  invariant and the contents, also when the statistics of the read schedule a compaction.
\<close>

theorem DB_Get_contents:
  assumes "db_ok env db es" "reads_ok env" "length key + 8 < 2 ^ 32" "\<forall>n. snapshot = Some n \<longrightarrow> valid_seq n"
    and "S = (case snapshot of Some n \<Rightarrow> n | None \<Rightarrow> vs_last_sequence (db_versions db))"
  shows "\<exists>db'. DB_Get env db snapshot key =
      (case contents_at env db S key of Some v \<Rightarrow> (Status_OK, v, db') | None \<Rightarrow> (Status_NotFound [] [], [], db')) \<and>
    db_ok env db' es \<and> contents_at env db' = contents_at env db"
proof -
  have "valid_seq S" using assms(4,5) db_okD(11) [OF assms(1)] by (cases snapshot) simp_all
  from DB_Get_result [OF assms(1-3) this assms(5)] obtain db' where
    r: "DB_Get env db snapshot key = (fst (get_result (contents_at env db S key)), snd (get_result (contents_at env db S key)), db')" by blast
  note keeps = DB_Get_keeps [OF assms(1) r]
  have "contents_at env db' = contents_at env db" using keeps(2) by (simp add: contents_at_def fun_eq_iff)
  then show ?thesis using r keeps(1) by (intro exI [of _ db']) (auto simp: get_result_def split: option.splits)
qed

theorem DB_Get_contents_witness:
  "\<exists>db. DB_Open quiet_env default_options (cstr ''db'') [] = Inr db \<and> fst (DB_Get quiet_env db None [7]) = Status_NotFound [] []"
proof -
  obtain db es where db: "DB_Open quiet_env default_options (cstr ''db'') [] = Inr db" "contents_of quiet_env db = Map.empty" "db_ok quiet_env db es"
    using fresh_db by metis
  show ?thesis
    using DB_Get_contents [OF db(3) env_ok_reads [OF quiet_env_ok(1)], of "[7]" None "vs_last_sequence (db_versions db)"] db(1,2)
    by (auto simp: contents_of_def)
qed

text \<open>
  C7: an iterator of the database goes through the keys that have a value at its sequence number, in
  order: the entries of the memtables and of the tables of all levels, merged, with the overwritten and
  deleted ones left out.
\<close>

theorem DB_NewIterator_contents:
  assumes "db_ok env db es" "\<forall>n. snapshot = Some n \<longrightarrow> valid_seq n"
    and "S = (case snapshot of Some n \<Rightarrow> n | None \<Rightarrow> vs_last_sequence (db_versions db))"
  shows "case DB_NewIterator env db snapshot of (d, db') \<Rightarrow>
    dbiter_ok d \<and> shown_keys d = sorted_list_of_set (dom (contents_at env db S)) \<and>
    visible (entries_of d) (iter_sequence d) = contents_at env db S \<and> db_ok env db' es \<and> contents_at env db' = contents_at env db"
proof -
  have S: "valid_seq S" using assms(2,3) db_okD(11) [OF assms(1)] by (cases snapshot) simp_all
  let ?es = "merge_runs (db_runs env db)"
  note new = dbiter_new [OF wf_merge_runs [OF db_okD(6) [OF assms(1)]] S]
  have "DB_NewIterator env db snapshot = (new_dbiter ?es S, db\<lparr>readers := readers db @ [vs_current (db_versions db)]\<rparr>)"
    using assms(3) by (simp add: DB_NewIterator_def NewInternalIterator_entries [OF assms(1)])
  moreover have "db_ok env (db\<lparr>readers := rd\<rparr>) es" "db_runs env (db\<lparr>readers := rd\<rparr>) = db_runs env db" for rd
    using assms(1) by (simp_all add: db_ok_def db_runs_def imm_runs_def db_ops_def)
  moreover have "iter_over ?es S (new_dbiter ?es S)"
    using wf_merge_runs [OF db_okD(6) [OF assms(1)]] S by (simp add: iter_over_def NewDBIterator_def)
  from entries_of_eq [OF this] iter_over_sequence [OF this]
  have "visible (entries_of (new_dbiter ?es S)) (iter_sequence (new_dbiter ?es S)) = contents_at env db S" by (simp add: contents_at_def)
  ultimately show ?thesis using new by (simp add: contents_at_def fun_eq_iff)
qed

theorem DB_NewIterator_contents_witness:
  "\<exists>db. DB_Open quiet_env default_options (cstr ''db'') [] = Inr db \<and> shown_keys (fst (DB_NewIterator quiet_env db None)) = []"
proof -
  obtain db es where db: "DB_Open quiet_env default_options (cstr ''db'') [] = Inr db" "contents_of quiet_env db = Map.empty" "db_ok quiet_env db es"
    using fresh_db by metis
  show ?thesis
    using DB_NewIterator_contents [OF db(3), of None "vs_last_sequence (db_versions db)"] db(1,2) by (auto simp: contents_of_def split: prod.splits)
qed

end
