(* ===== verification/DB_Sessions.thy ===== *)
theory DB_Sessions
  imports DB_Reopen DB_Manual
begin

text \<open>
  A database in use: what is left of its file numbers, sequence numbers and size limits, as budgets that the operations
  spend. \<open>R\<close> counts how often the database may still be opened, \<open>B\<close> bounds the bytes that may still be written.
\<close>

section \<open>Reading a running database\<close>

lemma same_files_weight:
  assumes "same_files v v'" "length (vfiles v) = kNumLevels" shows "weight T v' = weight T v"
proof -
  have "file_entries T (files_at v' l) = file_entries T (files_at v l)" if "l < kNumLevels" for l
  proof -
    have "map refresh (level_files v l) = map refresh (level_files v' l)" using same_files_level [OF assms(1)] assms(2) that by simp
    then have "refresh ` files_at v l = refresh ` files_at v' l" by (metis list.set_map)
    moreover have "file_entries T F = (\<Union>f \<in> refresh ` F. set (T (number f)))" for F by (simp add: file_entries_def)
    ultimately show ?thesis by metis
  qed
  then show ?thesis by (simp add: weight_def)
qed

lemma durable_cong:
  assumes "files db' = files db" "db_name db' = db_name db" "db_mem db' = db_mem db" "db_imm db' = db_imm db" "db_log db' = db_log db"
    "logfile_number db' = logfile_number db" "db_versions db' = (db_versions db)\<lparr>vs_current := v\<rparr>"
  shows "durable N db' = durable N db"
proof -
  have "log_holds db' = log_holds db" using assms by (simp add: log_holds_def fun_eq_iff)
  then show ?thesis using assms by (cases "db_imm db") (simp_all add: durable_def log_logged_def imm_logged_def only_logs_def)
qed

text \<open>What a read leaves as it was.\<close>

definition read_kept :: "db_env \<Rightarrow> DBImpl \<Rightarrow> DBImpl \<Rightarrow> bool" where
  "read_kept env db db' \<longleftrightarrow> (\<forall>k. running k env db \<longrightarrow> running k env db') \<and> (\<forall>N. durable N db \<longrightarrow> durable N db') \<and>
     db_entries env db' = db_entries env db \<and> vs_last_sequence (db_versions db') = vs_last_sequence (db_versions db) \<and>
     db_options db' = db_options db \<and> db_name db' = db_name db"

lemma DB_Get_read_kept:
  assumes ok: "db_ok env db es" and r: "DB_Get env db snapshot key = (s, v, db')"
  shows "read_kept env db db'"
  using assms
proof (cases rule: DB_Get_cases)
  case (stats b ver)
  let ?v = "vs_current (db_versions db)"
  define db1 where "db1 = db\<lparr>db_versions := (db_versions db)\<lparr>vs_current := ver\<rparr>\<rparr>"
  have db': "db' = (if b then MaybeScheduleCompaction db1 else db1)" using stats(6) by (simp add: db1_def)
  note st = db_ok_stats [OF ok stats(1-3), folded db1_def]
  have w: "db_weight env db1 = db_weight env db"
    using same_files_weight [OF stats(1) layoutD(1) [OF db_okD(7) [OF ok]]] by (simp add: db_weight_def db1_def table_entries_def)
  have ents: "db_entries env db1 = db_entries env db" using st(2) by (simp add: db_entries_def)
  have act: "active k env db1" if "running k env db" for k
    using that w ents st(1) by (auto simp: running_def active_def bounded_def) (simp_all add: db1_def)
  have run: "running k env db'" if "running k env db" for k
  proof (cases b)
    case True
    then show ?thesis using running_schedule [OF act [OF that]] db' by simp
  next
    case False
    then have "needs_work db1 = needs_work db" using stats(4,5) by (simp add: needs_work_def NeedsCompaction_def db1_def)
    then show ?thesis using act [OF that] that False db' by (simp add: running_def) (simp add: db1_def)
  qed
  have dur: "durable N db1 = durable N db" for N by (rule durable_cong [of db1 db ver]) (simp_all add: db1_def)
  show ?thesis
    using run dur ents MaybeSchedule_cases [of db1] unfolding db' read_kept_def by (auto simp: db_entries_def db_runs_def imm_runs_def db_ops_def) (auto simp: db1_def)
qed (simp add: read_kept_def)

lemma readers_read_kept: "read_kept env db (db\<lparr>readers := rs\<rparr>)"
proof -
  have same: "db_ok env (db\<lparr>readers := rs\<rparr>) es = db_ok env db es" "db_runs env (db\<lparr>readers := rs\<rparr>) = db_runs env db" for es
    by (simp_all add: db_ok_def db_runs_def imm_runs_def db_ops_def)
  have "durable N (db\<lparr>readers := rs\<rparr>) = durable N db" for N by (rule durable_cong [where v = "vs_current (db_versions db)"]) simp_all
  moreover have "db_weight env (db\<lparr>readers := rs\<rparr>) = db_weight env db" by (simp add: db_weight_def table_entries_def)
  ultimately show ?thesis
    using same by (simp add: read_kept_def running_def active_def bounded_def needs_work_def db_entries_def)
qed

section \<open>Budgets\<close>

definition ready :: "nat \<Rightarrow> nat \<Rightarrow> db_env \<Rightarrow> Options \<Rightarrow> bytes \<Rightarrow> DBImpl \<Rightarrow> bool" where
  "ready R B env opts name db \<longleftrightarrow> running (B + R * 2 ^ 30) env db \<and> (\<exists>N. durable N db \<and> N + B \<le> 2 ^ 36) \<and>
     unat (vs_last_sequence (db_versions db)) + B < unat kMaxSequenceNumber \<and> entries_size (db_entries env db) + B < 2 ^ 31 \<and>
     db_options db = SanitizeOptions opts \<and> db_name db = name"

lemma read_kept_ready: "read_kept env db db' \<Longrightarrow> ready R B env opts name db \<Longrightarrow> ready R B env opts name db'"
  by (auto simp: ready_def read_kept_def)

lemma read_kept_contents: "read_kept env db db' \<Longrightarrow> contents_of env db' = contents_of env db"
  by (simp add: read_kept_def contents_of_def contents_at_def db_entries_def)

lemma ready_ok: "ready R B env opts name db \<Longrightarrow> \<exists>es. db_ok env db es"
  by (auto simp: ready_def running_def active_def)

definition env_fits :: "db_env \<Rightarrow> Options \<Rightarrow> bool" where
  "env_fits env opts \<longleftrightarrow> env_ok env \<and> env_usage env MemTable_new \<le> write_buffer_size (SanitizeOptions opts)"

lemma ready_created:
  assumes "env_ok env" "GetChildren fs name = []" "create_if_missing opts" "R \<le> 64" "B < 2 ^ 31"
  shows "\<exists>db. DB_Open env opts name fs = Inr db \<and> ready R B env opts name db \<and> contents_of env db = Map.empty"
proof -
  have "B + R * 2 ^ 30 \<le> 3 * 2 ^ 37" using assms(4,5) by simp
  from DB_Open_creates [OF assms(1-3) this] obtain db where db: "DB_Open env opts name fs = Inr db" "running (B + R * 2 ^ 30) env db" "durable 0 db"
    "contents_of env db = Map.empty" "db_options db = SanitizeOptions opts" "db_entries env db = []" "vs_last_sequence (db_versions db) = 0" "db_name db = name"
    by blast
  have "ready R B env opts name db"
    unfolding ready_def using db assms(5) by (intro conjI exI [of _ 0]) (simp_all add: kMaxSequenceNumber_def entries_size_def)
  then show ?thesis using db by blast
qed

lemma ready_reopened:
  assumes "env_ok env" "ready (Suc R) B env opts name db" "\<not> error_if_exists opts"
  shows "\<exists>db'. DB_Open env opts name (DB_Close db) = Inr db' \<and> ready R B env opts name db' \<and> contents_of env db' = contents_of env db"
proof -
  obtain N where r: "running ((B + R * 2 ^ 30) + 2 ^ 30) env db" "durable N db" "N + B \<le> 2 ^ 36" "SanitizeOptions opts = db_options db" "db_name db = name"
    "unat (vs_last_sequence (db_versions db)) + B < unat kMaxSequenceNumber" "entries_size (db_entries env db) + B < 2 ^ 31"
    using assms(2) by (auto simp: ready_def algebra_simps)
  have "unat (vs_next_file (db_versions db)) + 2 * N + 4 + (28 * 2 ^ 25 + (B + R * 2 ^ 30)) * 2 ^ 25 < 2 ^ 64"
    using r(1,3) by (simp add: running_def active_def bounded_def add_mult_distrib)
  from DB_reopens [OF r(1,2) assms(1) this r(4) assms(3)] obtain db' where db': "DB_Open env opts name (DB_Close db) = Inr db'"
    "contents_of env db' = contents_of env db" "running (B + R * 2 ^ 30) env db'" "durable 0 db'" "db_options db' = db_options db" "db_name db' = name"
    "db_entries env db' = db_entries env db" "vs_last_sequence (db_versions db') \<le> vs_last_sequence (db_versions db)"
    using r(5) by blast
  have "ready R B env opts name db'"
    unfolding ready_def using db' r by (intro conjI exI [of _ 0]) (simp_all add: word_le_nat_alt)
  then show ?thesis using db' by blast
qed

text \<open>A write of one update.\<close>

lemma ready_write:
  assumes env: "env_fits env opts" and db: "ready R (B + update_size u) env opts name db" and u: "update_fits u"
  shows "\<exists>db'. Write env db (Some (batch_rep 0 [u]), sync) [] = Some (Status_OK, db', 1) \<and> ready R B env opts name db' \<and>
    contents_of env db' = apply_update (contents_of env db) u"
proof -
  have size: "72 \<le> update_size u" by (cases u) simp_all
  obtain N where r: "running (B + update_size u + R * 2 ^ 30) env db" "durable N db" "N + (B + update_size u) \<le> 2 ^ 36" "db_options db = SanitizeOptions opts"
    "db_name db = name" "unat (vs_last_sequence (db_versions db)) + (B + update_size u) < unat kMaxSequenceNumber"
    "entries_size (db_entries env db) + (B + update_size u) < 2 ^ 31"
    using db by (auto simp: ready_def)
  have run: "running ((B + R * 2 ^ 30) + 2 + kNumLevels * length ([u] @ updates_of [])) env db"
    by (rule running_mono [OF r(1)]) (use size in \<open>simp add: updates_of_def kNumLevels_def\<close>)
  have e: "env_ok env" "env_usage env MemTable_new \<le> write_buffer_size (db_options db)" using env r(4) by (simp_all add: env_fits_def)
  have fits: "list_all update_fits ([u] @ updates_of [])"
    "unat (vs_last_sequence (db_versions db)) + length ([u] @ updates_of []) < unat kMaxSequenceNumber"
    "entries_size (db_entries env db) + sum_list (map update_size ([u] @ updates_of [])) < 2 ^ 31"
    using u r(6,7) size by (simp_all add: updates_of_def)
  from Write_ok [OF run r(2) e fits, of sync] obtain db' m where w: "Write env db (Some (batch_rep 0 [u]), sync) (map writer_rep []) = Some (Status_OK, db', Suc m)"
    "m \<le> length ([] :: (update list option \<times> bool) list)" "running (B + R * 2 ^ 30) env db'" "durable (Suc N) db'"
    "contents_of env db' = foldl apply_update (contents_of env db) ([u] @ updates_of (take m []))" "db_options db' = db_options db" "db_name db' = db_name db"
    "entries_size (db_entries env db') \<le> entries_size (db_entries env db) + sum_list (map update_size ([u] @ updates_of []))"
    "unat (vs_last_sequence (db_versions db')) \<le> unat (vs_last_sequence (db_versions db)) + length ([u] @ updates_of [])"
    by blast
  have "ready R B env opts name db'"
    unfolding ready_def using w(3,4,6-9) r(3-7) size by (intro conjI exI [of _ "Suc N"]) (simp_all add: updates_of_def)
  then show ?thesis using w(1,2,5) by (auto simp: updates_of_def)
qed

lemma ready_put:
  assumes "env_fits env opts" "ready R (B + (length key + length val + 72)) env opts name db" "length key + 8 < 2 ^ 32" "length val < 2 ^ 32"
  shows "\<exists>db'. DB_Put env db sync key val = Some (Status_OK, db', 1) \<and> ready R B env opts name db' \<and>
    contents_of env db' = (contents_of env db)(key \<mapsto> val)"
  using ready_write [of env opts R B "UPut key val" name db sync] assms by (simp add: DB_Put_def WriteBatch_refines(1,3))

lemma ready_delete:
  assumes "env_fits env opts" "ready R (B + (length key + 72)) env opts name db" "length key + 8 < 2 ^ 32"
  shows "\<exists>db'. DB_Delete env db sync key = Some (Status_OK, db', 1) \<and> ready R B env opts name db' \<and>
    contents_of env db' = (contents_of env db)(key := None)"
  using ready_write [of env opts R B "UDelete key" name db sync] assms by (simp add: DB_Delete_def WriteBatch_refines(1,4))

lemma ready_get:
  assumes "env_ok env" "ready R B env opts name db" "length key + 8 < 2 ^ 32"
  shows "\<exists>db'. DB_Get env db None key = (case contents_of env db key of Some v \<Rightarrow> (Status_OK, v, db') | None \<Rightarrow> (Status_NotFound [] [], [], db')) \<and>
    ready R B env opts name db' \<and> contents_of env db' = contents_of env db"
proof -
  obtain es where ok: "db_ok env db es" using ready_ok [OF assms(2)] by blast
  obtain db' where r: "DB_Get env db None key = (fst (get_result (contents_of env db key)), snd (get_result (contents_of env db key)), db')"
    using DB_Get_result [OF ok env_ok_reads [OF assms(1)] assms(3) db_okD(11) [OF ok], of None] by (auto simp: contents_of_def)
  note kept = DB_Get_read_kept [OF ok r]
  show ?thesis
    using r read_kept_ready [OF kept assms(2)] read_kept_contents [OF kept] by (intro exI [of _ db']) (auto simp: get_result_def split: option.splits)
qed

end
