(* ===== verification/Snappy_JNI.thy ===== *)
theory Snappy_JNI
  imports Status_Codes
begin

text \<open>
  The native methods of SnappyDB: \<^verbatim>\<open>snappydb.cpp\<close>. The three globals of the file are fields of the
  record \<open>Native\<close>. \<^verbatim>\<open>leveldb::DB\<close> and \<^verbatim>\<open>leveldb::Iterator\<close> are abstract classes: the record \<open>DB_ops\<close>
  holds their virtual functions with \<^verbatim>\<open>DB::Open\<close>, \<^verbatim>\<open>DestroyDB\<close> and the destructors, over a state \<open>'e\<close>
  of all that the databases keep, in memory and on disk; an open database is known by its
  path. A method returns a value, throws a \<^verbatim>\<open>SnappydbException\<close> with a message, or has
  undefined behaviour (\<open>Crash\<close>: it uses a database or an iterator that was deleted). \<^verbatim>\<open>Put\<close> and \<^verbatim>\<open>Delete\<close> may have to wait:
  a call that does not return is \<open>None\<close>.

  Java strings are their modified UTF-8 bytes, and \<open>c_chars\<close> is what a C string keeps of them,
  the bytes up to the first zero (there is none in modified UTF-8). Handles of iterators are
  addresses; deleting the database ends the life of its iterators. Methods whose code
  depends on the sign of \<^verbatim>\<open>char\<close> get it as a parameter, and \<^verbatim>\<open>double\<close> and \<^verbatim>\<open>float\<close>, which pass through
  the decimal printing and parsing of the C++ library, are bit patterns with the printer
  and the parser as parameters.
\<close>

section \<open>Databases and iterators as the native methods see them\<close>

record ('e, 'i) DB_ops =
  op_Open :: "'e \<Rightarrow> bytes \<Rightarrow> Status \<times> 'e"
  op_Release :: "'e \<Rightarrow> bytes \<Rightarrow> 'e"
  op_Destroy :: "'e \<Rightarrow> bytes \<Rightarrow> Status \<times> 'e"
  op_Put :: "'e \<Rightarrow> bytes \<Rightarrow> bytes \<Rightarrow> bytes \<Rightarrow> (Status \<times> 'e) option"
  op_Delete :: "'e \<Rightarrow> bytes \<Rightarrow> bytes \<Rightarrow> (Status \<times> 'e) option"
  op_Get :: "'e \<Rightarrow> bytes \<Rightarrow> bytes \<Rightarrow> Status \<times> bytes \<times> 'e"
  op_NewIterator :: "'e \<Rightarrow> bytes \<Rightarrow> 'i \<times> 'e"
  op_DeleteIterator :: "'e \<Rightarrow> 'i \<Rightarrow> 'e"
  it_Valid :: "'i \<Rightarrow> bool"
  it_key :: "'i \<Rightarrow> bytes"
  it_Seek :: "'i \<Rightarrow> bytes \<Rightarrow> 'i"
  it_SeekToFirst :: "'i \<Rightarrow> 'i"
  it_SeekToLast :: "'i \<Rightarrow> 'i"
  it_Next :: "'i \<Rightarrow> 'i"
  it_Prev :: "'i \<Rightarrow> 'i"

datatype 'a outcome = Ret 'a | Throw bytes | Crash

datatype db_pointer = NullDB | LiveDB bytes | DeletedDB

record ('e, 'i) Native =
  env :: 'e
  db :: db_pointer
  isDBopen :: bool
  databasePath :: "bytes option"
  iters :: "nat \<rightharpoonup> 'i"
  next_iter :: nat

definition Native_init :: "'e \<Rightarrow> ('e, 'i) Native" where
  "Native_init e = \<lparr>env = e, db = NullDB, isDBopen = False, databasePath = None,
     iters = Map.empty, next_iter = 0\<rparr>"

definition c_chars :: "bytes \<Rightarrow> bytes" where
  "c_chars s = takeWhile (\<lambda>b. b \<noteq> 0) s"

text \<open>\<^verbatim>\<open>delete db\<close>: nothing for a null pointer, undefined for a pointer deleted before.\<close>

definition delete_db :: "('e, 'i) DB_ops \<Rightarrow> ('e, 'i) Native \<Rightarrow> ('e, 'i) Native option" where
  "delete_db ops s =
     (case db s of
        NullDB \<Rightarrow> Some s
      | LiveDB p \<Rightarrow> Some (s\<lparr>env := op_Release ops (env s) p, db := DeletedDB, iters := Map.empty\<rparr>)
      | DeletedDB \<Rightarrow> None)"

text \<open>The test every method but a few starts with.\<close>

definition when_open :: "('e, 'i) Native \<Rightarrow> (bytes \<Rightarrow> 'a outcome \<times> ('e, 'i) Native) \<Rightarrow> 'a outcome \<times> ('e, 'i) Native" where
  "when_open s f =
     (if \<not> isDBopen s then (Throw (cstr ''database is not open''), s)
      else (case db s of LiveDB p \<Rightarrow> f p | _ \<Rightarrow> (Crash, s)))"

text \<open>The same for a method that calls something that may not return; \<open>None\<close> stands for not returning.\<close>

definition when_open_wait ::
    "('e, 'i) Native \<Rightarrow> (bytes \<Rightarrow> ('a outcome \<times> ('e, 'i) Native) option) \<Rightarrow> ('a outcome \<times> ('e, 'i) Native) option" where
  "when_open_wait s f =
     (if \<not> isDBopen s then Some (Throw (cstr ''database is not open''), s)
      else (case db s of LiveDB p \<Rightarrow> f p | _ \<Rightarrow> Some (Crash, s)))"

section \<open>Opening and closing\<close>

definition JNI_OnLoad :: "('e, 'i) DB_ops \<Rightarrow> ('e, 'i) Native \<Rightarrow> int outcome \<times> ('e, 'i) Native" where
  "JNI_OnLoad ops s =
     (case delete_db ops s of
        None \<Rightarrow> (Crash, s)
      | Some s \<Rightarrow> (Ret 0x00010006, s\<lparr>isDBopen := False, databasePath := None\<rparr>))"

definition JNI_OnUnload :: "('e, 'i) DB_ops \<Rightarrow> ('e, 'i) Native \<Rightarrow> unit outcome \<times> ('e, 'i) Native" where
  "JNI_OnUnload ops s =
     (case delete_db ops s of
        None \<Rightarrow> (Crash, s)
      | Some s \<Rightarrow> (Ret (), s\<lparr>isDBopen := False, databasePath := None\<rparr>))"

definition jni_open :: "('e, 'i) DB_ops \<Rightarrow> bool \<Rightarrow> ('e, 'i) Native \<Rightarrow> bytes \<Rightarrow> unit outcome \<times> ('e, 'i) Native" where
  "jni_open ops strdup_ok s dbpath =
     (let path = c_chars dbpath in
      if isDBopen s then
        if databasePath s \<noteq> None \<and> databasePath s \<noteq> Some path
        then (Throw (cstr ''Your database is still open, please close it before''), s)
        else (Ret (), s)
      else
        (case op_Open ops (env s) path of (status, e) \<Rightarrow>
           if Status_ok status then
             let s = s\<lparr>env := e, db := LiveDB path, isDBopen := True\<rparr> in
             if strdup_ok then (Ret (), s\<lparr>databasePath := Some path\<rparr>)
             else (Throw (cstr ''OutOfMemory when saving the database name''), s\<lparr>databasePath := None\<rparr>)
           else
             (Throw (cstr ''Failed to open/create database: '' @ Status_ToString status),
              s\<lparr>env := e, db := NullDB, isDBopen := False, databasePath := None\<rparr>)))"

definition jni_close :: "('e, 'i) DB_ops \<Rightarrow> ('e, 'i) Native \<Rightarrow> unit outcome \<times> ('e, 'i) Native" where
  "jni_close ops s =
     (if isDBopen s then
        (case delete_db ops s of
           None \<Rightarrow> (Crash, s)
         | Some s \<Rightarrow> (Ret (), s\<lparr>isDBopen := False, databasePath := None\<rparr>))
      else (Throw (cstr ''Database was already closed''), s))"

definition jni_isOpen :: "('e, 'i) Native \<Rightarrow> bool outcome" where
  "jni_isOpen s = (if isDBopen s then Ret True else Ret False)"

definition jni_destroy :: "('e, 'i) DB_ops \<Rightarrow> ('e, 'i) Native \<Rightarrow> bytes \<Rightarrow> unit outcome \<times> ('e, 'i) Native" where
  "jni_destroy ops s dbpath =
     (let path = c_chars dbpath in
      case (if isDBopen s
            then (case delete_db ops s of
                    None \<Rightarrow> None
                  | Some s \<Rightarrow> Some (s\<lparr>isDBopen := False, databasePath := None\<rparr>))
            else Some s) of
        None \<Rightarrow> (Crash, s)
      | Some s \<Rightarrow>
          (case op_Destroy ops (env s) path of (status, e) \<Rightarrow>
             let s = s\<lparr>env := e\<rparr> in
             if Status_ok status
             then (Ret (), s\<lparr>databasePath := None, isDBopen := False\<rparr>)
             else (Throw (cstr ''Failed to destroy database: '' @ Status_ToString status),
                   s\<lparr>isDBopen := False\<rparr>)))"

section \<open>Writing\<close>

definition jni_del :: "('e, 'i) DB_ops \<Rightarrow> ('e, 'i) Native \<Rightarrow> bytes \<Rightarrow> (unit outcome \<times> ('e, 'i) Native) option" where
  "jni_del ops s jKey =
     when_open_wait s (\<lambda>p.
       case op_Delete ops (env s) p (c_chars jKey) of
         None \<Rightarrow> None
       | Some (status, e) \<Rightarrow>
           let s = s\<lparr>env := e\<rparr> in
           Some (if Status_ok status then Ret () else Throw (cstr ''Failed to delete: '' @ Status_ToString status), s))"

text \<open>The common end of the methods that put: the call of \<^verbatim>\<open>db->Put\<close> and the test of its status.\<close>

definition put_value ::
    "('e, 'i) DB_ops \<Rightarrow> ('e, 'i) Native \<Rightarrow> bytes \<Rightarrow> bytes \<Rightarrow> bytes \<Rightarrow> bytes \<Rightarrow> (unit outcome \<times> ('e, 'i) Native) option" where
  "put_value ops s p jKey value failed =
     (case op_Put ops (env s) p (c_chars jKey) value of
        None \<Rightarrow> None
      | Some (status, e) \<Rightarrow>
          let s = s\<lparr>env := e\<rparr> in
          Some (if Status_ok status then Ret () else Throw (failed @ Status_ToString status), s))"

definition jni_put_String :: "('e, 'i) DB_ops \<Rightarrow> ('e, 'i) Native \<Rightarrow> bytes \<Rightarrow> bytes \<Rightarrow> (unit outcome \<times> ('e, 'i) Native) option" where
  "jni_put_String ops s jKey jValue =
     when_open_wait s (\<lambda>p. put_value ops s p jKey (c_chars jValue) (cstr ''Failed to put a String: ''))"

definition jni_put_bytes ::
    "('e, 'i) DB_ops \<Rightarrow> bool \<Rightarrow> ('e, 'i) Native \<Rightarrow> bytes \<Rightarrow> bytes \<Rightarrow> (unit outcome \<times> ('e, 'i) Native) option" where
  "jni_put_bytes ops critical_ok s jKey arr =
     when_open_wait s (\<lambda>p.
       if \<not> critical_ok
       then Some (Throw (cstr ''OutOfMemory when trying to get bytes array for Serializable''), s)
       else put_value ops s p jKey arr (cstr ''Failed to put a Serializable: ''))"

definition jni_putLong :: "('e, 'i) DB_ops \<Rightarrow> ('e, 'i) Native \<Rightarrow> bytes \<Rightarrow> u64 \<Rightarrow> (unit outcome \<times> ('e, 'i) Native) option" where
  "jni_putLong ops s jKey jVal =
     when_open_wait s (\<lambda>p. put_value ops s p jKey (le_bytes 8 jVal) (cstr ''Failed to put a long: ''))"

definition jni_putInt :: "('e, 'i) DB_ops \<Rightarrow> ('e, 'i) Native \<Rightarrow> bytes \<Rightarrow> u32 \<Rightarrow> (unit outcome \<times> ('e, 'i) Native) option" where
  "jni_putInt ops s jKey jVal =
     when_open_wait s (\<lambda>p. put_value ops s p jKey (le_bytes 4 jVal) (cstr ''Failed to put an int: ''))"

definition jni_putShort :: "('e, 'i) DB_ops \<Rightarrow> ('e, 'i) Native \<Rightarrow> bytes \<Rightarrow> 16 word \<Rightarrow> (unit outcome \<times> ('e, 'i) Native) option" where
  "jni_putShort ops s jKey jValue =
     when_open_wait s (\<lambda>p. put_value ops s p jKey (le_bytes 2 jValue) (cstr ''Failed to put a short: ''))"

definition jni_putBoolean :: "('e, 'i) DB_ops \<Rightarrow> ('e, 'i) Native \<Rightarrow> bytes \<Rightarrow> byte \<Rightarrow> (unit outcome \<times> ('e, 'i) Native) option" where
  "jni_putBoolean ops s jKey jValue =
     when_open_wait s (\<lambda>p. put_value ops s p jKey (le_bytes 1 jValue) (cstr ''Failed to put a boolean: ''))"

definition jni_putDouble ::
    "(nat \<Rightarrow> u64 \<Rightarrow> bytes) \<Rightarrow> ('e, 'i) DB_ops \<Rightarrow> ('e, 'i) Native \<Rightarrow> bytes \<Rightarrow> u64 \<Rightarrow> (unit outcome \<times> ('e, 'i) Native) option" where
  "jni_putDouble print_double ops s jKey jVal =
     when_open_wait s (\<lambda>p. put_value ops s p jKey (print_double 17 jVal) (cstr ''Failed to put a double: ''))"

definition jni_putFloat ::
    "(nat \<Rightarrow> u32 \<Rightarrow> bytes) \<Rightarrow> ('e, 'i) DB_ops \<Rightarrow> ('e, 'i) Native \<Rightarrow> bytes \<Rightarrow> u32 \<Rightarrow> (unit outcome \<times> ('e, 'i) Native) option" where
  "jni_putFloat print_float ops s jKey jValue =
     when_open_wait s (\<lambda>p. put_value ops s p jKey (print_float 16 jValue) (cstr ''Failed to put a float: ''))"

section \<open>Reading\<close>

text \<open>The common part of the methods that get: the call of \<^verbatim>\<open>db->Get\<close> and the error case.\<close>

definition get_value ::
    "('e, 'i) DB_ops \<Rightarrow> ('e, 'i) Native \<Rightarrow> bytes \<Rightarrow> bytes \<Rightarrow> (bytes \<Rightarrow> 'a outcome) \<Rightarrow> 'a outcome \<times> ('e, 'i) Native" where
  "get_value ops s jKey failed ret =
     when_open s (\<lambda>p.
       case op_Get ops (env s) p (c_chars jKey) of (status, data, e) \<Rightarrow>
         let s = s\<lparr>env := e\<rparr> in
         if Status_ok status then (ret data, s)
         else (Throw (failed @ Status_ToString status), s))"

definition jni_getLong :: "bool \<Rightarrow> ('e, 'i) DB_ops \<Rightarrow> ('e, 'i) Native \<Rightarrow> bytes \<Rightarrow> u64 outcome \<times> ('e, 'i) Native" where
  "jni_getLong signed_char ops s jKey =
     get_value ops s jKey (cstr ''Failed to get a long: '') (\<lambda>data.
       if 8 = length data then
         let ret = (if signed_char then scast (data ! 7) else ucast (data ! 7));
             ret = push_bit 8 ret + ucast (data ! 6);
             ret = push_bit 8 ret + ucast (data ! 5);
             ret = push_bit 8 ret + ucast (data ! 4);
             ret = push_bit 8 ret + ucast (data ! 3);
             ret = push_bit 8 ret + ucast (data ! 2);
             ret = push_bit 8 ret + ucast (data ! 1);
             ret = push_bit 8 ret + ucast (data ! 0)
         in Ret ret
       else Throw (cstr ''Failed to get a long''))"

definition jni_getInt :: "('e, 'i) DB_ops \<Rightarrow> ('e, 'i) Native \<Rightarrow> bytes \<Rightarrow> u32 outcome \<times> ('e, 'i) Native" where
  "jni_getInt ops s jKey =
     get_value ops s jKey (cstr ''Failed to get an int: '') (\<lambda>data.
       if 4 = length data then
         let ret = ucast (data ! 3);
             ret = push_bit 8 ret + ucast (data ! 2);
             ret = push_bit 8 ret + ucast (data ! 1);
             ret = push_bit 8 ret + ucast (data ! 0)
         in Ret ret
       else Throw (cstr ''Failed to get an int''))"

definition jni_getDouble ::
    "(bytes \<Rightarrow> u64) \<Rightarrow> ('e, 'i) DB_ops \<Rightarrow> ('e, 'i) Native \<Rightarrow> bytes \<Rightarrow> u64 outcome \<times> ('e, 'i) Native" where
  "jni_getDouble atof ops s jKey =
     get_value ops s jKey (cstr ''Failed to get a double: '') (\<lambda>data. Ret (atof (c_chars data)))"

definition jni_getShort :: "bool \<Rightarrow> ('e, 'i) DB_ops \<Rightarrow> ('e, 'i) Native \<Rightarrow> bytes \<Rightarrow> 16 word outcome \<times> ('e, 'i) Native" where
  "jni_getShort signed_char ops s jKey =
     get_value ops s jKey (cstr ''Failed to get a short: '') (\<lambda>data.
       if 2 = length data then
         let ret = (if signed_char then scast (data ! 1) else ucast (data ! 1));
             ret = push_bit 8 ret + (if signed_char then scast (data ! 0) else ucast (data ! 0))
         in Ret ret
       else Throw (cstr ''Failed to get a short''))"

definition jni_getBoolean :: "('e, 'i) DB_ops \<Rightarrow> ('e, 'i) Native \<Rightarrow> bytes \<Rightarrow> byte outcome \<times> ('e, 'i) Native" where
  "jni_getBoolean ops s jKey =
     get_value ops s jKey (cstr ''Failed to get a boolean: '') (\<lambda>data.
       if 1 = length data then Ret (data ! 0) else Throw (cstr ''Failed to get a boolean''))"

definition jni_get :: "('e, 'i) DB_ops \<Rightarrow> ('e, 'i) Native \<Rightarrow> bytes \<Rightarrow> bytes outcome \<times> ('e, 'i) Native" where
  "jni_get ops s jKey =
     get_value ops s jKey (cstr ''Failed to get a String: '') (\<lambda>value. Ret (c_chars value))"

definition jni_getBytes :: "('e, 'i) DB_ops \<Rightarrow> ('e, 'i) Native \<Rightarrow> bytes \<Rightarrow> bytes outcome \<times> ('e, 'i) Native" where
  "jni_getBytes ops s jKey =
     get_value ops s jKey (cstr ''Failed to get a byte array: '') (\<lambda>data. Ret data)"

definition jni_getFloat ::
    "(bytes \<Rightarrow> u64) \<Rightarrow> (u64 \<Rightarrow> u32) \<Rightarrow> ('e, 'i) DB_ops \<Rightarrow> ('e, 'i) Native \<Rightarrow> bytes \<Rightarrow> u32 outcome \<times> ('e, 'i) Native" where
  "jni_getFloat atof to_float ops s jKey =
     get_value ops s jKey (cstr ''Failed to get a float: '') (\<lambda>data. Ret (to_float (atof (c_chars data))))"

definition jni_exists :: "('e, 'i) DB_ops \<Rightarrow> ('e, 'i) Native \<Rightarrow> bytes \<Rightarrow> bool outcome \<times> ('e, 'i) Native" where
  "jni_exists ops s jKey =
     when_open s (\<lambda>p.
       case op_Get ops (env s) p (c_chars jKey) of (status, value, e) \<Rightarrow>
         let s = s\<lparr>env := e\<rparr> in
         if Status_ok status then (Ret True, s)
         else if Status_IsNotFound status then (Ret False, s)
         else (Throw (cstr ''Failed to check if a key exists: '' @ Status_ToString status), s))"


section \<open>Keys\<close>

text \<open>
  The loops of \<open>findKeys\<close> and \<open>findKeysBetween\<close> differ in the test of the key, \<open>inside\<close>; \<^verbatim>\<open>int\<close> is a
  word read as signed, so that \<^verbatim>\<open>offset + limit\<close> wraps as the machine's addition does. \<open>None\<close> is
  a loop that never ends.
\<close>

partial_function (option) collect_keys ::
    "('e, 'i) DB_ops \<Rightarrow> (bytes \<Rightarrow> bool) \<Rightarrow> u32 \<Rightarrow> u32 \<Rightarrow> 'i \<Rightarrow> u32 \<Rightarrow> bytes list \<Rightarrow> (bytes list \<times> 'i) option" where
  "collect_keys ops inside offset limit it count result =
     (if sint count < sint (offset + limit) \<and> it_Valid ops it \<and> inside (it_key ops it)
      then collect_keys ops inside offset limit (it_Next ops it) (count + 1)
             (if sint count \<ge> sint offset then result @ [it_key ops it] else result)
      else Some (result, it))"

partial_function (option) count_keys ::
    "('e, 'i) DB_ops \<Rightarrow> (bytes \<Rightarrow> bool) \<Rightarrow> 'i \<Rightarrow> u32 \<Rightarrow> (u32 \<times> 'i) option" where
  "count_keys ops inside it count =
     (if it_Valid ops it \<and> inside (it_key ops it)
      then count_keys ops inside (it_Next ops it) (count + 1)
      else Some (count, it))"

definition jni_findKeys ::
    "('e, 'i) DB_ops \<Rightarrow> ('e, 'i) Native \<Rightarrow> bytes \<Rightarrow> u32 \<Rightarrow> u32 \<Rightarrow> (bytes list outcome \<times> ('e, 'i) Native) option" where
  "jni_findKeys ops s jPrefix offset limit =
     when_open_wait s (\<lambda>p.
       let pre = c_chars jPrefix; (it, e) = op_NewIterator ops (env s) p in
       (case collect_keys ops (\<lambda>key. Slice_starts_with key pre) offset limit (it_Seek ops it pre) 0 [] of
          None \<Rightarrow> None
        | Some (result, it) \<Rightarrow> Some (Ret (map c_chars result), s\<lparr>env := op_DeleteIterator ops e it\<rparr>)))"

definition jni_countKeys ::
    "('e, 'i) DB_ops \<Rightarrow> ('e, 'i) Native \<Rightarrow> bytes \<Rightarrow> (u32 outcome \<times> ('e, 'i) Native) option" where
  "jni_countKeys ops s jPrefix =
     when_open_wait s (\<lambda>p.
       let pre = c_chars jPrefix; (it, e) = op_NewIterator ops (env s) p in
       (case count_keys ops (\<lambda>key. Slice_starts_with key pre) (it_Seek ops it pre) 0 of
          None \<Rightarrow> None
        | Some (count, it) \<Rightarrow> Some (Ret count, s\<lparr>env := op_DeleteIterator ops e it\<rparr>)))"

definition jni_findKeysBetween ::
    "('e, 'i) DB_ops \<Rightarrow> ('e, 'i) Native \<Rightarrow> bytes \<Rightarrow> bytes \<Rightarrow> u32 \<Rightarrow> u32 \<Rightarrow>
     (bytes list outcome \<times> ('e, 'i) Native) option" where
  "jni_findKeysBetween ops s jStartPrefix jEndPrefix offset limit =
     when_open_wait s (\<lambda>p.
       let startPrefix = c_chars jStartPrefix; endPrefix = c_chars jEndPrefix;
           (it, e) = op_NewIterator ops (env s) p in
       (case collect_keys ops (\<lambda>key. Slice_compare key endPrefix \<le> 0) offset limit (it_Seek ops it startPrefix) 0 [] of
          None \<Rightarrow> None
        | Some (result, it) \<Rightarrow> Some (Ret (map c_chars result), s\<lparr>env := op_DeleteIterator ops e it\<rparr>)))"

definition jni_countKeysBetween ::
    "('e, 'i) DB_ops \<Rightarrow> ('e, 'i) Native \<Rightarrow> bytes \<Rightarrow> bytes \<Rightarrow> (u32 outcome \<times> ('e, 'i) Native) option" where
  "jni_countKeysBetween ops s jStartPrefix jEndPrefix =
     when_open_wait s (\<lambda>p.
       let startPrefix = c_chars jStartPrefix; endPrefix = c_chars jEndPrefix;
           (it, e) = op_NewIterator ops (env s) p in
       (case count_keys ops (\<lambda>key. Slice_compare key endPrefix \<le> 0) (it_Seek ops it startPrefix) 0 of
          None \<Rightarrow> None
        | Some (count, it) \<Rightarrow> Some (Ret count, s\<lparr>env := op_DeleteIterator ops e it\<rparr>)))"

section \<open>Iterators\<close>

definition start_iterator :: "('e, 'i) DB_ops \<Rightarrow> bytes option \<Rightarrow> bool \<Rightarrow> 'i \<Rightarrow> 'i" where
  "start_iterator ops jPrefix reverse it =
     (let it = (case jPrefix of
                  Some pre \<Rightarrow> it_Seek ops it (c_chars pre)
                | None \<Rightarrow> if reverse then it_SeekToLast ops it else it_SeekToFirst ops it)
      in if reverse then
           if \<not> it_Valid ops it then it_SeekToLast ops it
           else (case jPrefix of
                   Some pre \<Rightarrow>
                     if Slice_compare (it_key ops it) (c_chars pre) > 0 then it_Prev ops it else it
                 | None \<Rightarrow> it)
         else it)"

definition jni_findKeysIterator ::
    "('e, 'i) DB_ops \<Rightarrow> ('e, 'i) Native \<Rightarrow> bytes option \<Rightarrow> bool \<Rightarrow> nat outcome \<times> ('e, 'i) Native" where
  "jni_findKeysIterator ops s jPrefix reverse =
     when_open s (\<lambda>p.
       let (it, e) = op_NewIterator ops (env s) p;
           it = start_iterator ops jPrefix reverse it;
           ptr = next_iter s
       in (Ret ptr, s\<lparr>env := e, iters := (iters s)(ptr \<mapsto> it), next_iter := ptr + 1\<rparr>))"

definition before_end :: "bytes option \<Rightarrow> bool \<Rightarrow> bytes \<Rightarrow> bool" where
  "before_end endPrefix reverse key =
     (case endPrefix of
        None \<Rightarrow> True
      | Some e \<Rightarrow> (\<not> reverse \<and> Slice_compare key (c_chars e) \<le> 0) \<or> (reverse \<and> Slice_compare key (c_chars e) \<ge> 0))"

partial_function (option) next_array ::
    "('e, 'i) DB_ops \<Rightarrow> bytes option \<Rightarrow> bool \<Rightarrow> u32 \<Rightarrow> 'i \<Rightarrow> u32 \<Rightarrow> bytes list \<Rightarrow> (bytes list \<times> 'i) option" where
  "next_array ops endPrefix reverse max_count it count result =
     (if sint count < sint max_count \<and> it_Valid ops it \<and> before_end endPrefix reverse (it_key ops it)
      then next_array ops endPrefix reverse max_count
             (if reverse then it_Prev ops it else it_Next ops it) (count + 1) (result @ [it_key ops it])
      else Some (result, it))"

definition jni_iteratorNextArray ::
    "('e, 'i) DB_ops \<Rightarrow> ('e, 'i) Native \<Rightarrow> nat \<Rightarrow> bytes option \<Rightarrow> bool \<Rightarrow> u32 \<Rightarrow>
     (bytes list outcome \<times> ('e, 'i) Native) option" where
  "jni_iteratorNextArray ops s ptr jEndPrefix reverse max_count =
     (if \<not> isDBopen s then Some (Throw (cstr ''database is not open''), s)
      else (case iters s ptr of
          None \<Rightarrow> Some (Crash, s)
        | Some it \<Rightarrow>
            if \<not> it_Valid ops it then Some (Throw (cstr ''iterator is not valid''), s)
            else (case next_array ops jEndPrefix reverse max_count it 0 [] of
                    None \<Rightarrow> None
                  | Some (result, it) \<Rightarrow>
                      Some (Ret (map c_chars result), s\<lparr>iters := (iters s)(ptr \<mapsto> it)\<rparr>))))"

definition jni_iteratorIsValid ::
    "('e, 'i) DB_ops \<Rightarrow> ('e, 'i) Native \<Rightarrow> nat \<Rightarrow> bytes option \<Rightarrow> bool \<Rightarrow> bool outcome" where
  "jni_iteratorIsValid ops s ptr jEndPrefix reverse =
     (case iters s ptr of
        None \<Rightarrow> Crash
      | Some it \<Rightarrow>
          if \<not> it_Valid ops it then Ret False
          else (case jEndPrefix of
                  Some e \<Rightarrow>
                    if (\<not> reverse \<and> Slice_compare (it_key ops it) (c_chars e) > 0) \<or>
                       (reverse \<and> Slice_compare (it_key ops it) (c_chars e) < 0)
                    then Ret False else Ret True
                | None \<Rightarrow> Ret True))"

definition jni_iteratorClose :: "('e, 'i) DB_ops \<Rightarrow> ('e, 'i) Native \<Rightarrow> nat \<Rightarrow> unit outcome \<times> ('e, 'i) Native" where
  "jni_iteratorClose ops s ptr =
     (case iters s ptr of
        None \<Rightarrow> (Crash, s)
      | Some it \<Rightarrow> (Ret (), s\<lparr>env := op_DeleteIterator ops (env s) it, iters := (iters s)(ptr := None)\<rparr>))"

end
