(* ===== verification/JNI_Contract.thy ===== *)
theory JNI_Contract
  imports Snappy_JNI
begin

text \<open>
  The native methods over any database that keeps the contract of \<^verbatim>\<open>leveldb/db.h\<close> and \<^verbatim>\<open>leveldb/iterator.h\<close>, stated as
  the locales \<open>native_iterators\<close> and \<open>native_database\<close>: what a get returns after a put, which keys a query returns and in
  which order, what the iterators go through, and that the globals stay consistent.
\<close>

section \<open>Lists of keys\<close>

lemma sint_small:
  fixes w :: u32
  assumes "unat w < 2 ^ 31" shows "sint w = int (unat w)"
proof -
  have "int (unat w) < 2 ^ 31" using assms by (simp only: of_nat_less_numeral_power_cancel_iff)
  then have "uint w < 2 ^ 31" by simp
  then show ?thesis unfolding sint_uint by (simp add: signed_take_bit_int_eq_self uint_ge_0 order_trans [of _ 0])
qed

lemma unat_Suc_small: "unat w < 2 ^ 31 \<Longrightarrow> unat (w + 1) = Suc (unat w)" for w :: u32
  by (simp add: unat_word_ariths)

lemma drop_length_takeWhile: "drop (length (takeWhile P xs)) xs = dropWhile P xs"
  by (induction xs) auto

lemma prefix_between:
  "pre \<le> a \<Longrightarrow> a \<le> b \<Longrightarrow> prefix pre b \<Longrightarrow> prefix pre a" for a b :: bytes
proof (induction pre arbitrary: a b)
  case (Cons x pre)
  then show ?case by (cases a; cases b) auto
qed simp

lemma sorted_prefix_range:
  "sorted ks \<Longrightarrow> takeWhile (prefix pre) (dropWhile (\<lambda>k. k < pre) ks) = filter (prefix pre) ks" for ks :: "bytes list"
proof (induction ks)
  case (Cons k ks)
  show ?case
  proof (cases "k < pre")
    case True
    then have "\<not> prefix pre k" using prefix_imp_le leD by blast
    with Cons True show ?thesis by simp
  next
    case False
    show ?thesis
    proof (cases "prefix pre k")
      case True
      moreover have "dropWhile (\<lambda>k. k < pre) ks = ks" using Cons.prems False by (cases ks) auto
      ultimately show ?thesis using False Cons by simp
    next
      case no: False
      have "\<not> prefix pre x" if "x \<in> set ks" for x
        using that Cons.prems False no prefix_between [of pre k x] by (auto simp: not_less)
      then have "filter (prefix pre) ks = []" by (simp add: filter_empty_conv)
      with False no show ?thesis by simp
    qed
  qed
qed simp

lemma sorted_range:
  "sorted ks \<Longrightarrow> takeWhile (\<lambda>k. k \<le> e) (dropWhile (\<lambda>k. k < b) ks) = filter (\<lambda>k. b \<le> k \<and> k \<le> e) ks"
  for ks :: "bytes list"
proof (induction ks)
  case (Cons k ks)
  show ?case
  proof (cases "k < b")
    case True
    with Cons show ?thesis by (simp add: leD)
  next
    case False
    then have drop: "dropWhile (\<lambda>k. k < b) ks = ks" using Cons.prems by (cases ks) auto
    show ?thesis
    proof (cases "k \<le> e")
      case True
      with False drop Cons show ?thesis by (simp add: not_less)
    next
      case no: False
      have "filter (\<lambda>k. b \<le> k \<and> k \<le> e) ks = []"
        using Cons.prems no by (auto simp: filter_empty_conv)
      with False no show ?thesis by simp
    qed
  qed
qed simp

text \<open>What an iterator at position \<open>p\<close> still has to go through, in its direction.\<close>

definition remaining :: "bool \<Rightarrow> bytes list \<Rightarrow> nat \<Rightarrow> bytes list" where
  "remaining reverse ks p =
     (if reverse then if p < length ks then rev (take (Suc p) ks) else [] else drop p ks)"

lemma remaining_eq:
  "remaining reverse ks p =
     (if p < length ks
      then ks ! p # remaining reverse ks (if reverse then if p = 0 then length ks else p - 1 else Suc p)
      else [])"
  by (cases p) (auto simp: remaining_def Cons_nth_drop_Suc take_Suc_conv_app_nth)

lemma remaining_last: "remaining True ks (length ks - Suc 0) = rev ks"
  by (cases "ks = []") (auto simp: remaining_def)

lemma sint_add_small:
  fixes a b :: u32
  assumes "0 \<le> sint a" "0 \<le> sint b" "sint a + sint b < 2 ^ 31"
  shows "sint (a + b) = sint a + sint b"
  using assms by (simp add: sint_word_ariths signed_take_bit_int_eq_self)

lemma dropWhile_less_filter: "sorted ks \<Longrightarrow> dropWhile (\<lambda>k. k < t) ks = filter (\<lambda>k. t \<le> k) ks" for ks :: "bytes list"
proof (induction ks)
  case (Cons k ks)
  show ?case
  proof (cases "k < t")
    case True
    with Cons show ?thesis by (simp add: leD)
  next
    case False
    then have "filter (\<lambda>k. t \<le> k) (k # ks) = k # ks" using Cons.prems by (auto simp: filter_id_conv)
    with False show ?thesis by simp
  qed
qed simp

lemma sorted_split:
  assumes "sorted ks" "distinct ks" and q: "q = length (takeWhile (\<lambda>k. k < t) ks)"
  shows "filter (\<lambda>k. k \<le> t) ks = (if q < length ks \<and> ks ! q = t then take (Suc q) ks else take q ks)"
    and "q < length ks \<Longrightarrow> t \<le> ks ! q"
proof -
  show le: "t \<le> ks ! q" if "q < length ks"
    using nth_length_takeWhile [of "\<lambda>k. k < t" ks] that q by simp
  have small: "takeWhile (\<lambda>k. k < t) ks = take q ks" unfolding q by (rule takeWhile_eq_take)
  have "filter (\<lambda>k. k \<le> t) ks = take q ks @ filter (\<lambda>k. k \<le> t) (drop q ks)"
  proof -
    have "\<forall>k \<in> set (take q ks). k < t" unfolding small [symmetric] by (auto dest: set_takeWhileD)
    then have "filter (\<lambda>k. k \<le> t) (take q ks) = take q ks" by (auto simp: filter_id_conv)
    then show ?thesis by (metis append_take_drop_id filter_append)
  qed
  moreover have "filter (\<lambda>k. k \<le> t) (drop q ks) = (if q < length ks \<and> ks ! q = t then [t] else [])"
  proof (cases "q < length ks")
    case True
    have gt: "t < x" if "x \<in> set (drop (Suc q) ks)" for x
    proof -
      from that obtain j where j: "j < length ks" "q < j" "x = ks ! j"
        by (auto simp: in_set_conv_nth) (metis add_Suc less_add_Suc1 less_diff_conv add.commute)
      then have "ks ! q < ks ! j"
        using assms(1,2) True by (metis nth_eq_iff_index_eq order_le_imp_less_or_eq less_imp_le sorted_nth_mono less_irrefl)
      with le [OF True] j(3) show ?thesis by simp
    qed
    have d: "drop q ks = ks ! q # drop (Suc q) ks" using True by (simp add: Cons_nth_drop_Suc)
    have "filter (\<lambda>k. k \<le> t) (drop (Suc q) ks) = []" using gt by (fastforce simp: filter_empty_conv)
    with le [OF True] True show ?thesis by (auto simp: d)
  qed simp
  ultimately show "filter (\<lambda>k. k \<le> t) ks = (if q < length ks \<and> ks ! q = t then take (Suc q) ks else take q ks)"
    by (auto simp: take_Suc_conv_app_nth)
qed

text \<open>What a query with a start, in one of the two directions, goes through.\<close>

definition key_range :: "bytes option \<Rightarrow> bool \<Rightarrow> bytes list \<Rightarrow> bytes list" where
  "key_range jPrefix reverse ks =
     (case jPrefix of
        None \<Rightarrow> if reverse then rev ks else ks
      | Some t \<Rightarrow> if reverse then rev (filter (\<lambda>k. k \<le> c_chars t) ks) else filter (\<lambda>k. c_chars t \<le> k) ks)"

section \<open>Iterators\<close>

text \<open>
  The contract of \<^verbatim>\<open>leveldb/iterator.h\<close>: an iterator is a position in a sorted list of keys; a position past the end is
  not valid.
\<close>

locale native_iterators =
  fixes ops :: "('e, 'i) DB_ops" and wfi :: "'i \<Rightarrow> bool" and keys :: "'i \<Rightarrow> bytes list" and pos :: "'i \<Rightarrow> nat"
  assumes valid_law: "wfi i \<Longrightarrow> it_Valid ops i \<longleftrightarrow> pos i < length (keys i)"
    and key_law: "wfi i \<Longrightarrow> pos i < length (keys i) \<Longrightarrow> it_key ops i = keys i ! pos i"
    and seek_law: "wfi i \<Longrightarrow> wfi (it_Seek ops i t) \<and> keys (it_Seek ops i t) = keys i \<and>
      pos (it_Seek ops i t) = length (takeWhile (\<lambda>k. k < t) (keys i))"
    and first_law: "wfi i \<Longrightarrow> wfi (it_SeekToFirst ops i) \<and> keys (it_SeekToFirst ops i) = keys i \<and>
      pos (it_SeekToFirst ops i) = 0"
    and last_law: "wfi i \<Longrightarrow> wfi (it_SeekToLast ops i) \<and> keys (it_SeekToLast ops i) = keys i \<and>
      pos (it_SeekToLast ops i) = length (keys i) - 1"
    and next_law: "wfi i \<Longrightarrow> pos i < length (keys i) \<Longrightarrow> wfi (it_Next ops i) \<and> keys (it_Next ops i) = keys i \<and>
      pos (it_Next ops i) = Suc (pos i)"
    and prev_law: "wfi i \<Longrightarrow> pos i < length (keys i) \<Longrightarrow> wfi (it_Prev ops i) \<and> keys (it_Prev ops i) = keys i \<and>
      pos (it_Prev ops i) = (if pos i = 0 then length (keys i) else pos i - 1)"
begin

lemma at_pos: "wfi i \<Longrightarrow> drop (pos i) (keys i) = (if it_Valid ops i then it_key ops i # drop (Suc (pos i)) (keys i) else [])"
  by (simp add: valid_law key_law Cons_nth_drop_Suc)

lemma collect_keys_eq:
  assumes "wfi i" "unat count < 2 ^ 31" and off: "sint offset = int off" and bound: "sint (offset + limit) = int bd"
  shows "\<exists>i'. collect_keys ops inside offset limit i count result =
    Some (result @ drop (off - unat count) (take (bd - unat count) (takeWhile inside (drop (pos i) (keys i)))), i') \<and> wfi i'"
  using assms(1,2)
proof (induction "drop (pos i) (keys i)" arbitrary: i count result)
  case Nil
  then have "\<not> it_Valid ops i" using at_pos [of i] by (auto split: if_splits)
  with Nil show ?case by (subst collect_keys.simps) (simp flip: Nil(1))
next
  case (Cons k ks)
  from Cons(2,3) at_pos [of i] have v: "it_Valid ops i" "it_key ops i = k" "ks = drop (Suc (pos i)) (keys i)"
    by (auto split: if_splits)
  then have lt: "pos i < length (keys i)" using Cons(3) valid_law by blast
  note nxt = next_law [OF Cons(3) lt]
  define n where "n = unat count"
  have c: "sint count = int n" "unat (count + 1) = Suc n"
    using sint_small [OF Cons(4)] unat_Suc_small [OF Cons(4)] by (simp_all add: n_def)
  show ?case
  proof (cases "n < bd \<and> inside k")
    case True
    have "sint (offset + limit) < 2 ^ 31" using sint_lt [of "offset + limit"] by simp
    then have "bd < 2 ^ 31" unfolding bound by (simp only: of_nat_less_numeral_power_cancel_iff)
    with True have "unat (count + 1) < 2 ^ 31" unfolding c(2) by linarith
    with Cons(1) [of "it_Next ops i" "count + 1" "if off \<le> n then result @ [k] else result"] nxt v(3)
    obtain i' where "collect_keys ops inside offset limit (it_Next ops i) (count + 1) (if off \<le> n then result @ [k] else result) =
        Some ((if off \<le> n then result @ [k] else result) @ drop (off - Suc n) (take (bd - Suc n) (takeWhile inside ks)), i')" "wfi i'"
      by (auto simp: c(2))
    moreover obtain m where "bd - n = Suc m" "bd - Suc n = m" using True by (metis Suc_diff_Suc)
    moreover have "off - n = Suc (off - Suc n)" if "\<not> off \<le> n" using that by simp
    ultimately show ?thesis
      using True v Cons(2) by (intro exI [of _ i'], subst collect_keys.simps) (auto simp: c(1) off bound simp flip: Cons(2) n_def)
  next
    case False
    then have "collect_keys ops inside offset limit i count result = Some (result, i)"
      using v by (subst collect_keys.simps) (auto simp: c(1) bound)
    with False show ?thesis using Cons(2,3) by (auto simp flip: Cons(2) n_def)
  qed
qed

lemma count_keys_eq:
  assumes "wfi i"
  shows "\<exists>i'. count_keys ops inside i count = Some (count + word_of_nat (length (takeWhile inside (drop (pos i) (keys i)))), i') \<and> wfi i'"
  using assms
proof (induction "drop (pos i) (keys i)" arbitrary: i count)
  case Nil
  then have "\<not> it_Valid ops i" using at_pos [of i] by (auto split: if_splits)
  with Nil show ?case by (subst count_keys.simps) (simp flip: Nil(1))
next
  case (Cons k ks)
  from Cons(2,3) at_pos [of i] have v: "it_Valid ops i" "it_key ops i = k" "ks = drop (Suc (pos i)) (keys i)"
    by (auto split: if_splits)
  then have lt: "pos i < length (keys i)" using Cons(3) valid_law by blast
  note nxt = next_law [OF Cons(3) lt]
  have "\<exists>i'. count_keys ops inside (it_Next ops i) (count + 1) =
      Some (count + 1 + word_of_nat (length (takeWhile inside ks)), i') \<and> wfi i'"
    using Cons(1) [of "it_Next ops i" "count + 1"] nxt v(3) by simp
  then show ?case using v Cons(2,3) by (subst count_keys.simps) (auto simp flip: Cons(2))
qed

lemma next_array_eq:
  assumes "wfi i" "unat count < 2 ^ 31" and mx: "sint max_count = int mx"
  shows "\<exists>i'. next_array ops e reverse max_count i count result =
      Some (result @ take (mx - unat count) (takeWhile (before_end e reverse) (remaining reverse (keys i) (pos i))), i') \<and>
    wfi i' \<and> keys i' = keys i \<and>
    remaining reverse (keys i) (pos i') =
      drop (length (take (mx - unat count) (takeWhile (before_end e reverse) (remaining reverse (keys i) (pos i)))))
        (remaining reverse (keys i) (pos i))"
  using assms(1,2)
proof (induction "remaining reverse (keys i) (pos i)" arbitrary: i count result)
  case Nil
  then have "\<not> it_Valid ops i" using remaining_eq [of reverse "keys i" "pos i"] by (auto simp: valid_law split: if_splits)
  with Nil show ?case by (subst next_array.simps) (simp flip: Nil(1))
next
  case (Cons k ks)
  have lt: "pos i < length (keys i)"
    using Cons(2) remaining_eq [of reverse "keys i" "pos i"] by (auto split: if_splits)
  then have v: "it_Valid ops i" "it_key ops i = k"
    using Cons(2,3) remaining_eq [of reverse "keys i" "pos i"] by (auto simp: valid_law key_law)
  let ?i = "if reverse then it_Prev ops i else it_Next ops i"
  have i': "wfi ?i" "keys ?i = keys i" "remaining reverse (keys i) (pos ?i) = ks"
    using next_law [OF Cons(3) lt] prev_law [OF Cons(3) lt] Cons(2) remaining_eq [of reverse "keys i" "pos i"] lt
    by auto
  define n where "n = unat count"
  have c: "sint count = int n" "unat (count + 1) = Suc n"
    using sint_small [OF Cons(4)] unat_Suc_small [OF Cons(4)] by (simp_all add: n_def)
  show ?case
  proof (cases "n < mx \<and> before_end e reverse k")
    case True
    have "sint max_count < 2 ^ 31" using sint_lt [of max_count] by simp
    then have "mx < 2 ^ 31" unfolding mx by (simp only: of_nat_less_numeral_power_cancel_iff)
    with True have "unat (count + 1) < 2 ^ 31" unfolding c(2) by linarith
    from Cons(1) [of ?i "count + 1" "result @ [k]"] this i'
    obtain i2 where "next_array ops e reverse max_count ?i (count + 1) (result @ [k]) =
        Some (result @ [k] @ take (mx - Suc n) (takeWhile (before_end e reverse) ks), i2)"
      "wfi i2" "keys i2 = keys i"
      "remaining reverse (keys i) (pos i2) = drop (length (take (mx - Suc n) (takeWhile (before_end e reverse) ks))) ks"
      by (auto simp: c(2))
    moreover obtain m where "mx - n = Suc m" "mx - Suc n = m" using True by (metis Suc_diff_Suc)
    ultimately show ?thesis
      using True v by (intro exI [of _ i2], subst next_array.simps) (simp add: c(1) mx flip: Cons(2) n_def)
  next
    case False
    then have "next_array ops e reverse max_count i count result = Some (result, i)"
      using v by (subst next_array.simps) (auto simp: c(1) mx)
    with False Cons(3) show ?thesis by (auto simp flip: Cons(2) n_def)
  qed
qed

lemma start_iterator_eq:
  assumes "wfi i" "sorted (keys i)" "distinct (keys i)"
  shows "wfi (start_iterator ops jPrefix reverse i) \<and> keys (start_iterator ops jPrefix reverse i) = keys i \<and>
    remaining reverse (keys i) (pos (start_iterator ops jPrefix reverse i)) = key_range jPrefix reverse (keys i)"
proof (cases jPrefix)
  case None
  note l = last_law [OF assms(1)] and f = first_law [OF assms(1)]
  have "wfi (it_SeekToLast ops (it_SeekToLast ops i)) \<and> keys (it_SeekToLast ops (it_SeekToLast ops i)) = keys i \<and>
    pos (it_SeekToLast ops (it_SeekToLast ops i)) = length (keys i) - 1" using last_law l by simp
  moreover have "remaining False (keys i) 0 = keys i" by (simp add: remaining_def)
  ultimately show ?thesis using None l f
    by (cases reverse) (simp_all add: start_iterator_def key_range_def Let_def remaining_last)
next
  case (Some t)
  let ?t = "c_chars t" and ?i = "it_Seek ops i (c_chars t)"
  note sk = seek_law [OF assms(1), of ?t]
  define q where "q = pos ?i"
  note split = sorted_split [OF assms(2,3), of q ?t]
  have q: "q = length (takeWhile (\<lambda>k. k < ?t) (keys i))" using sk by (simp add: q_def)
  show ?thesis
  proof (cases reverse)
    case False
    then show ?thesis using Some sk assms(2)
      by (simp add: start_iterator_def key_range_def remaining_def drop_length_takeWhile dropWhile_less_filter)
  next
    case True
    show ?thesis
    proof (cases "q < length (keys i)")
      case True
      then have v: "it_Valid ops ?i" "it_key ops ?i = keys i ! q"
        using sk valid_law [of ?i] key_law [of ?i] by (simp_all add: q_def)
      have rem: "remaining True (keys i) (if q = 0 then length (keys i) else q - 1) = rev (take q (keys i))"
        "remaining True (keys i) q = rev (take (Suc q) (keys i))"
        using True by (auto simp: remaining_def)
      have pv: "wfi (it_Prev ops ?i)" "keys (it_Prev ops ?i) = keys i"
        "pos (it_Prev ops ?i) = (if q = 0 then length (keys i) else q - 1)"
        using prev_law [of ?i] sk True by (simp_all flip: q_def)
      show ?thesis
      proof (cases "keys i ! q = ?t")
        case eq: True
        then show ?thesis using v True \<open>reverse\<close> Some split(1) [OF q] sk rem(2)
          by (simp add: start_iterator_def key_range_def Slice_compare_order flip: q_def)
      next
        case ne: False
        then have "?t < keys i ! q" using split(2) [OF q True] by simp
        then show ?thesis using v True ne \<open>reverse\<close> Some split(1) [OF q] pv rem(1)
          by (simp add: start_iterator_def key_range_def Slice_compare_order flip: q_def)
      qed
    next
      case False
      then have "\<not> it_Valid ops ?i" using sk valid_law [of ?i] by (simp add: q_def)
      moreover have "filter (\<lambda>k. k \<le> ?t) (keys i) = keys i" using split(1) [OF q] False by simp
      ultimately show ?thesis
        using \<open>reverse\<close> Some sk last_law [of ?i] by (simp add: start_iterator_def key_range_def remaining_last)
    qed
  qed
qed

end

section \<open>The database\<close>

text \<open>
  The state of the globals: with the database at \<open>path\<close> open, the pointer refers to it, the environment knows it and its
  name is the saved one if saving it succeeded; without, no iterator is left.
\<close>

definition native_ok :: "('e \<Rightarrow> bool) \<Rightarrow> ('e \<Rightarrow> bool) \<Rightarrow> ('i \<Rightarrow> bool) \<Rightarrow> bytes \<Rightarrow> ('e, 'i) Native \<Rightarrow> bool" where
  "native_ok wfe live wfi path s \<longleftrightarrow> wfe (env s) \<and> (live (env s) \<longleftrightarrow> isDBopen s) \<and>
     (isDBopen s \<longrightarrow> db s = LiveDB path \<and> (databasePath s = None \<or> databasePath s = Some path)) \<and>
     (\<not> isDBopen s \<longrightarrow> databasePath s = None \<and> iters s = Map.empty) \<and> (\<forall>n i. iters s n = Some i \<longrightarrow> wfi i)"

text \<open>The database is open, has the contents \<open>m\<close> and may still be opened \<open>R\<close> times and take \<open>B\<close> bytes; the same, closed.\<close>

definition state_open ::
    "(nat \<Rightarrow> nat \<Rightarrow> 'e \<Rightarrow> bool) \<Rightarrow> ('e \<Rightarrow> bool) \<Rightarrow> ('i \<Rightarrow> bool) \<Rightarrow> ('e \<Rightarrow> bytes \<rightharpoonup> bytes) \<Rightarrow> bytes \<Rightarrow>
     nat \<Rightarrow> nat \<Rightarrow> (bytes \<rightharpoonup> bytes) \<Rightarrow> ('e, 'i) Native \<Rightarrow> bool" where
  "state_open wfe live wfi entries path R B m s \<longleftrightarrow> native_ok (wfe R B) live wfi path s \<and> isDBopen s \<and> entries (env s) = m"

definition state_closed ::
    "(nat \<Rightarrow> nat \<Rightarrow> 'e \<Rightarrow> bool) \<Rightarrow> ('e \<Rightarrow> bool) \<Rightarrow> ('i \<Rightarrow> bool) \<Rightarrow> ('e \<Rightarrow> bytes \<rightharpoonup> bytes) \<Rightarrow> bytes \<Rightarrow>
     nat \<Rightarrow> nat \<Rightarrow> (bytes \<rightharpoonup> bytes) \<Rightarrow> ('e, 'i) Native \<Rightarrow> bool" where
  "state_closed wfe live wfi entries path R B m s \<longleftrightarrow> native_ok (wfe R B) live wfi path s \<and> \<not> isDBopen s \<and> entries (env s) = m"

text \<open>What is left for the iterator \<open>ptr\<close> to go through.\<close>

definition iterator_left :: "('i \<Rightarrow> bytes list) \<Rightarrow> ('i \<Rightarrow> nat) \<Rightarrow> ('e, 'i) Native \<Rightarrow> nat \<Rightarrow> bool \<Rightarrow> bytes list \<Rightarrow> bool" where
  "iterator_left keys pos s ptr reverse ks \<longleftrightarrow> (\<exists>i. iters s ptr = Some i \<and> remaining reverse (keys i) (pos i) = ks)"

text \<open>
  The contract of \<^verbatim>\<open>leveldb/db.h\<close> for the database at one path: a finite map from keys to values, \<open>entries\<close>, that \<open>Put\<close> and
  \<open>Delete\<close> change, \<open>Get\<close> reads, and that closing and opening again keeps. \<open>wfe R B\<close> holds of the states in which the
  database may be opened \<open>R\<close> more times and in which \<open>B\<close> more bytes may be written.
\<close>

locale native_database = native_iterators ops wfi keys pos
  for ops :: "('e, 'i) DB_ops" and wfi :: "'i \<Rightarrow> bool" and keys :: "'i \<Rightarrow> bytes list" and pos :: "'i \<Rightarrow> nat" +
  fixes wfe :: "nat \<Rightarrow> nat \<Rightarrow> 'e \<Rightarrow> bool" and live :: "'e \<Rightarrow> bool" and entries :: "'e \<Rightarrow> bytes \<rightharpoonup> bytes" and path :: bytes
  assumes open_law: "wfe (Suc R) B e \<Longrightarrow> \<not> live e \<Longrightarrow>
      \<exists>e'. op_Open ops e path = (Status_OK, e') \<and> wfe R B e' \<and> live e' \<and> entries e' = entries e"
    and release_law: "wfe R B e \<Longrightarrow> live e \<Longrightarrow>
      wfe R B (op_Release ops e path) \<and> \<not> live (op_Release ops e path) \<and> entries (op_Release ops e path) = entries e"
    and put_law: "wfe R (B + (length k + length v + 72)) e \<Longrightarrow> live e \<Longrightarrow>
      \<exists>e'. op_Put ops e path k v = Some (Status_OK, e') \<and> wfe R B e' \<and> live e' \<and> entries e' = (entries e)(k \<mapsto> v)"
    and delete_law: "wfe R (B + (length k + 72)) e \<Longrightarrow> live e \<Longrightarrow>
      \<exists>e'. op_Delete ops e path k = Some (Status_OK, e') \<and> wfe R B e' \<and> live e' \<and> entries e' = (entries e)(k := None)"
    and get_law: "wfe R B e \<Longrightarrow> live e \<Longrightarrow> length k + 8 < 2 ^ 32 \<Longrightarrow>
      \<exists>e'. op_Get ops e path k = (case entries e k of Some v \<Rightarrow> (Status_OK, v, e') | None \<Rightarrow> (Status_NotFound [] [], [], e')) \<and>
        wfe R B e' \<and> live e' \<and> entries e' = entries e"
    and finite_entries: "wfe R B e \<Longrightarrow> live e \<Longrightarrow> finite (dom (entries e))"
    and new_iterator: "wfe R B e \<Longrightarrow> live e \<Longrightarrow>
      \<exists>i e'. op_NewIterator ops e path = (i, e') \<and> wfi i \<and> keys i = sorted_list_of_set (dom (entries e)) \<and>
        wfe R B e' \<and> live e' \<and> entries e' = entries e"
    and delete_iterator: "wfe R B e \<Longrightarrow> live e \<Longrightarrow> wfi i \<Longrightarrow>
      wfe R B (op_DeleteIterator ops e i) \<and> live (op_DeleteIterator ops e i) \<and> entries (op_DeleteIterator ops e i) = entries e"
begin

abbreviation opened_with :: "nat \<Rightarrow> nat \<Rightarrow> (bytes \<rightharpoonup> bytes) \<Rightarrow> ('e, 'i) Native \<Rightarrow> bool" where
  "opened_with \<equiv> state_open wfe live wfi entries path"

abbreviation closed_with :: "nat \<Rightarrow> nat \<Rightarrow> (bytes \<rightharpoonup> bytes) \<Rightarrow> ('e, 'i) Native \<Rightarrow> bool" where
  "closed_with \<equiv> state_closed wfe live wfi entries path"

lemma opened_withD:
  assumes "opened_with R B m s"
  shows "wfe R B (env s)" "live (env s)" "isDBopen s" "db s = LiveDB path" "entries (env s) = m" "\<And>n i. iters s n = Some i \<Longrightarrow> wfi i"
  using assms by (auto simp: state_open_def native_ok_def)

lemma opened_with_env:
  assumes "opened_with R B m s" "wfe R' B' e" "live e" "entries e = m'"
  shows "opened_with R' B' m' (s\<lparr>env := e\<rparr>)"
  using assms by (auto simp: state_open_def native_ok_def)

lemma put_value_ok:
  assumes "opened_with R (B + (length (c_chars jKey) + length val + 72)) m s"
  shows "\<exists>s'. put_value ops s path jKey val failed = Some (Ret (), s') \<and> opened_with R B (m(c_chars jKey \<mapsto> val)) s'"
proof -
  note o = opened_withD [OF assms]
  obtain e where "op_Put ops (env s) path (c_chars jKey) val = Some (Status_OK, e)" "wfe R B e" "live e" "entries e = m(c_chars jKey \<mapsto> val)"
    using put_law [OF o(1,2)] o(5) by blast
  then show ?thesis using opened_with_env [OF assms] by (auto simp: put_value_def Status_ok_def)
qed

lemma del_ok:
  assumes "opened_with R (B + (length (c_chars jKey) + 72)) m s"
  shows "\<exists>s'. jni_del ops s jKey = Some (Ret (), s') \<and> opened_with R B (m(c_chars jKey := None)) s'"
proof -
  note o = opened_withD [OF assms]
  obtain e where "op_Delete ops (env s) path (c_chars jKey) = Some (Status_OK, e)" "wfe R B e" "live e" "entries e = m(c_chars jKey := None)"
    using delete_law [OF o(1,2)] o(5) by blast
  then show ?thesis using opened_with_env [OF assms] o(3,4) by (auto simp: jni_del_def when_open_wait_def Status_ok_def)
qed

lemma get_value_ok:
  assumes "opened_with R B m s" "length (c_chars jKey) + 8 < 2 ^ 32"
  shows "\<exists>s'. get_value ops s jKey failed ret =
      (case m (c_chars jKey) of Some v \<Rightarrow> ret v | None \<Rightarrow> Throw (failed @ Status_ToString (Status_NotFound [] [])), s') \<and> opened_with R B m s'"
proof -
  note o = opened_withD [OF assms(1)]
  obtain e where e: "op_Get ops (env s) path (c_chars jKey) =
      (case m (c_chars jKey) of Some v \<Rightarrow> (Status_OK, v, e) | None \<Rightarrow> (Status_NotFound [] [], [], e))" "wfe R B e" "live e" "entries e = m"
    using get_law [OF o(1,2) assms(2)] o(5) by auto
  have nf: "\<not> Status_ok (Status_NotFound [] [])" by simp
  show ?thesis
    using e(1) nf o(3,4) opened_with_env [OF assms(1) e(2-4)]
    by (intro exI [of _ "s\<lparr>env := e\<rparr>"]) (auto simp: get_value_def when_open_def split: option.splits)
qed

lemma exists_ok:
  assumes "opened_with R B m s" "length (c_chars jKey) + 8 < 2 ^ 32"
  shows "\<exists>s'. jni_exists ops s jKey = (Ret (m (c_chars jKey) \<noteq> None), s') \<and> opened_with R B m s'"
proof -
  note o = opened_withD [OF assms(1)]
  obtain e where e: "op_Get ops (env s) path (c_chars jKey) =
      (case m (c_chars jKey) of Some v \<Rightarrow> (Status_OK, v, e) | None \<Rightarrow> (Status_NotFound [] [], [], e))" "wfe R B e" "live e" "entries e = m"
    using get_law [OF o(1,2) assms(2)] o(5) by auto
  have nf: "\<not> Status_ok (Status_NotFound [] [])" "Status_IsNotFound (Status_NotFound [] [])"
    by simp_all
  show ?thesis
    using e(1) nf o(3,4) opened_with_env [OF assms(1) e(2-4)]
    by (intro exI [of _ "s\<lparr>env := e\<rparr>"]) (auto simp: jni_exists_def when_open_def Let_def split: option.splits)
qed

subsection \<open>Opening and closing\<close>

lemma open_ok:
  assumes "closed_with (Suc R) B m s" "c_chars jPath = path"
  shows "\<exists>s'. jni_open ops True s jPath = (Ret (), s') \<and> opened_with R B m s'"
proof -
  have c: "wfe (Suc R) B (env s)" "\<not> live (env s)" "iters s = Map.empty" "\<not> isDBopen s" "entries (env s) = m"
    using assms by (auto simp: state_closed_def native_ok_def)
  obtain e where "op_Open ops (env s) path = (Status_OK, e)" "wfe R B e" "live e" "entries e = m" using open_law [OF c(1,2)] c(5) by auto
  then show ?thesis using c assms(2) by (auto simp: jni_open_def state_open_def native_ok_def Status_ok_def)
qed

lemma close_ok:
  assumes "opened_with R B m s"
  shows "\<exists>s'. jni_close ops s = (Ret (), s') \<and> closed_with R B m s'"
  using release_law [OF opened_withD(1,2) [OF assms]] opened_withD [OF assms] by (auto simp: jni_close_def delete_db_def state_closed_def native_ok_def)

subsection \<open>Queries\<close>

lemma new_iterator_seek:
  assumes "opened_with R B m s"
  obtains i e where "op_NewIterator ops (env s) path = (i, e)" "wfi (it_Seek ops i t)"
    "drop (pos (it_Seek ops i t)) (keys (it_Seek ops i t)) = dropWhile (\<lambda>k. k < t) (sorted_list_of_set (dom m))"
    "\<And>j. wfi j \<Longrightarrow> opened_with R B m (s\<lparr>env := op_DeleteIterator ops e j\<rparr>)"
proof -
  note o = opened_withD [OF assms]
  obtain i e where e: "op_NewIterator ops (env s) path = (i, e)" "wfi i" "keys i = sorted_list_of_set (dom m)" "wfe R B e" "live e" "entries e = m"
    using new_iterator [OF o(1,2)] o(5) by blast
  note sk = seek_law [OF e(2), of t]
  have "opened_with R B m (s\<lparr>env := op_DeleteIterator ops e j\<rparr>)" if "wfi j" for j
    using opened_with_env [OF assms] delete_iterator [OF e(4,5) that] e(6) by simp
  then show thesis using that [OF e(1)] sk e(3) by (simp add: drop_length_takeWhile)
qed

lemma findKeys_ok:
  assumes o: "opened_with R B m s" and b: "0 \<le> sint offset" "0 \<le> sint limit" "sint offset + sint limit < 2 ^ 31"
  shows "\<exists>s'. jni_findKeys ops s jPrefix offset limit =
    Some (Ret (map c_chars (take (nat (sint limit)) (drop (nat (sint offset)) (filter (prefix (c_chars jPrefix)) (sorted_list_of_set (dom m)))))), s') \<and>
    opened_with R B m s'"
proof -
  obtain i e where it: "op_NewIterator ops (env s) path = (i, e)" "wfi (it_Seek ops i (c_chars jPrefix))"
    "drop (pos (it_Seek ops i (c_chars jPrefix))) (keys (it_Seek ops i (c_chars jPrefix))) =
      dropWhile (\<lambda>k. k < c_chars jPrefix) (sorted_list_of_set (dom m))"
    "\<And>j. wfi j \<Longrightarrow> opened_with R B m (s\<lparr>env := op_DeleteIterator ops e j\<rparr>)"
    using new_iterator_seek [OF o, of "c_chars jPrefix"] by metis
  have inside: "(\<lambda>key. Slice_starts_with key (c_chars jPrefix)) = prefix (c_chars jPrefix)"
    by (simp add: Slice_starts_with_prefix fun_eq_iff)
  have off: "sint offset = int (nat (sint offset))" using b(1) by simp
  have bd: "sint (offset + limit) = int (nat (sint offset) + nat (sint limit))" using b by (simp add: sint_add_small)
  obtain j where "collect_keys ops (prefix (c_chars jPrefix)) offset limit (it_Seek ops i (c_chars jPrefix)) 0 [] =
      Some (drop (nat (sint offset)) (take (nat (sint offset) + nat (sint limit)) (filter (prefix (c_chars jPrefix)) (sorted_list_of_set (dom m)))), j)" "wfi j"
    using collect_keys_eq [OF it(2) _ off bd, of 0 "prefix (c_chars jPrefix)" "[]"] it(3) by (auto simp: sorted_prefix_range)
  then show ?thesis
    using it(1,4) opened_withD(3,4) [OF o] by (auto simp: jni_findKeys_def when_open_wait_def inside drop_take)
qed

lemma countKeys_ok:
  assumes o: "opened_with R B m s"
  shows "\<exists>s'. jni_countKeys ops s jPrefix = Some (Ret (word_of_nat (card {k \<in> dom m. prefix (c_chars jPrefix) k})), s') \<and> opened_with R B m s'"
proof -
  obtain i e where it: "op_NewIterator ops (env s) path = (i, e)" "wfi (it_Seek ops i (c_chars jPrefix))"
    "drop (pos (it_Seek ops i (c_chars jPrefix))) (keys (it_Seek ops i (c_chars jPrefix))) =
      dropWhile (\<lambda>k. k < c_chars jPrefix) (sorted_list_of_set (dom m))"
    "\<And>j. wfi j \<Longrightarrow> opened_with R B m (s\<lparr>env := op_DeleteIterator ops e j\<rparr>)"
    using new_iterator_seek [OF o, of "c_chars jPrefix"] by metis
  have fin: "finite (dom m)" using finite_entries opened_withD(1,2,5) [OF o] by blast
  have inside: "(\<lambda>key. Slice_starts_with key (c_chars jPrefix)) = prefix (c_chars jPrefix)"
    by (simp add: Slice_starts_with_prefix fun_eq_iff)
  have "card {k \<in> dom m. prefix (c_chars jPrefix) k} = length (filter (prefix (c_chars jPrefix)) (sorted_list_of_set (dom m)))"
    using fin by (subst distinct_length_filter) (auto intro!: arg_cong [where f = card])
  then obtain j where "count_keys ops (prefix (c_chars jPrefix)) (it_Seek ops i (c_chars jPrefix)) 0 =
      Some (word_of_nat (card {k \<in> dom m. prefix (c_chars jPrefix) k}), j)" "wfi j"
    using count_keys_eq [OF it(2), of "prefix (c_chars jPrefix)" 0] it(3) by (auto simp: sorted_prefix_range)
  then show ?thesis
    using it(1,4) opened_withD(3,4) [OF o] by (auto simp: jni_countKeys_def when_open_wait_def inside)
qed

lemma findKeysBetween_ok:
  assumes o: "opened_with R B m s" and b: "0 \<le> sint offset" "0 \<le> sint limit" "sint offset + sint limit < 2 ^ 31"
  shows "\<exists>s'. jni_findKeysBetween ops s jStart jEnd offset limit =
    Some (Ret (map c_chars (take (nat (sint limit)) (drop (nat (sint offset))
      (filter (\<lambda>k. c_chars jStart \<le> k \<and> k \<le> c_chars jEnd) (sorted_list_of_set (dom m)))))), s') \<and> opened_with R B m s'"
proof -
  obtain i e where it: "op_NewIterator ops (env s) path = (i, e)" "wfi (it_Seek ops i (c_chars jStart))"
    "drop (pos (it_Seek ops i (c_chars jStart))) (keys (it_Seek ops i (c_chars jStart))) =
      dropWhile (\<lambda>k. k < c_chars jStart) (sorted_list_of_set (dom m))"
    "\<And>j. wfi j \<Longrightarrow> opened_with R B m (s\<lparr>env := op_DeleteIterator ops e j\<rparr>)"
    using new_iterator_seek [OF o, of "c_chars jStart"] by metis
  have off: "sint offset = int (nat (sint offset))" using b(1) by simp
  have bd: "sint (offset + limit) = int (nat (sint offset) + nat (sint limit))" using b by (simp add: sint_add_small)
  obtain j where "collect_keys ops (\<lambda>k. k \<le> c_chars jEnd) offset limit (it_Seek ops i (c_chars jStart)) 0 [] =
      Some (drop (nat (sint offset)) (take (nat (sint offset) + nat (sint limit))
        (filter (\<lambda>k. c_chars jStart \<le> k \<and> k \<le> c_chars jEnd) (sorted_list_of_set (dom m)))), j)" "wfi j"
    using collect_keys_eq [OF it(2) _ off bd, of 0 "\<lambda>k. k \<le> c_chars jEnd" "[]"] it(3) by (auto simp: sorted_range)
  then show ?thesis
    using it(1,4) opened_withD(3,4) [OF o] by (auto simp: jni_findKeysBetween_def when_open_wait_def drop_take Slice_compare_order)
qed

lemma countKeysBetween_ok:
  assumes o: "opened_with R B m s"
  shows "\<exists>s'. jni_countKeysBetween ops s jStart jEnd =
    Some (Ret (word_of_nat (card {k \<in> dom m. c_chars jStart \<le> k \<and> k \<le> c_chars jEnd})), s') \<and> opened_with R B m s'"
proof -
  obtain i e where it: "op_NewIterator ops (env s) path = (i, e)" "wfi (it_Seek ops i (c_chars jStart))"
    "drop (pos (it_Seek ops i (c_chars jStart))) (keys (it_Seek ops i (c_chars jStart))) =
      dropWhile (\<lambda>k. k < c_chars jStart) (sorted_list_of_set (dom m))"
    "\<And>j. wfi j \<Longrightarrow> opened_with R B m (s\<lparr>env := op_DeleteIterator ops e j\<rparr>)"
    using new_iterator_seek [OF o, of "c_chars jStart"] by metis
  have fin: "finite (dom m)" using finite_entries opened_withD(1,2,5) [OF o] by blast
  have "card {k \<in> dom m. c_chars jStart \<le> k \<and> k \<le> c_chars jEnd} =
      length (filter (\<lambda>k. c_chars jStart \<le> k \<and> k \<le> c_chars jEnd) (sorted_list_of_set (dom m)))"
    using fin by (subst distinct_length_filter) (auto intro!: arg_cong [where f = card])
  then obtain j where "count_keys ops (\<lambda>k. k \<le> c_chars jEnd) (it_Seek ops i (c_chars jStart)) 0 =
      Some (word_of_nat (card {k \<in> dom m. c_chars jStart \<le> k \<and> k \<le> c_chars jEnd}), j)" "wfi j"
    using count_keys_eq [OF it(2), of "\<lambda>k. k \<le> c_chars jEnd" 0] it(3) by (auto simp: sorted_range)
  then show ?thesis
    using it(1,4) opened_withD(3,4) [OF o] by (auto simp: jni_countKeysBetween_def when_open_wait_def Slice_compare_order)
qed

subsection \<open>Iterators of the native layer\<close>

abbreviation iterator_at :: "('e, 'i) Native \<Rightarrow> nat \<Rightarrow> bool \<Rightarrow> bytes list \<Rightarrow> bool" where
  "iterator_at \<equiv> iterator_left keys pos"

lemma findKeysIterator_ok:
  assumes o: "opened_with R B m s"
  shows "\<exists>s'. jni_findKeysIterator ops s jPrefix reverse = (Ret (next_iter s), s') \<and> opened_with R B m s' \<and>
    iterator_at s' (next_iter s) reverse (key_range jPrefix reverse (sorted_list_of_set (dom m)))"
proof -
  note d = opened_withD [OF o]
  obtain i e where e: "op_NewIterator ops (env s) path = (i, e)" "wfi i" "keys i = sorted_list_of_set (dom m)" "wfe R B e" "live e" "entries e = m"
    using new_iterator [OF d(1,2)] d(5) by blast
  let ?i = "start_iterator ops jPrefix reverse i"
  let ?s = "s\<lparr>env := e, iters := (iters s)(next_iter s \<mapsto> ?i), next_iter := next_iter s + 1\<rparr>"
  have st: "wfi ?i" "keys ?i = keys i" "remaining reverse (keys i) (pos ?i) = key_range jPrefix reverse (keys i)"
    using start_iterator_eq [OF e(2), of jPrefix reverse] e(3) by simp_all
  have "jni_findKeysIterator ops s jPrefix reverse = (Ret (next_iter s), ?s)"
    using d(3,4) e(1) by (simp add: jni_findKeysIterator_def when_open_def Let_def)
  moreover have "opened_with R B m ?s" using o e(4-6) st(1) by (auto simp: state_open_def native_ok_def)
  moreover have "iterator_at ?s (next_iter s) reverse (key_range jPrefix reverse (sorted_list_of_set (dom m)))"
    using st(2,3) e(3) by (simp add: iterator_left_def)
  ultimately show ?thesis by blast
qed

lemma iteratorNextArray_ok:
  assumes o: "opened_with R B m s" and it: "iterator_at s ptr reverse ks" "ks \<noteq> []" and mx: "0 \<le> sint max_count"
    and page_def: "page = take (nat (sint max_count)) (takeWhile (before_end jEnd reverse) ks)"
  shows "\<exists>s'. jni_iteratorNextArray ops s ptr jEnd reverse max_count = Some (Ret (map c_chars page), s') \<and> opened_with R B m s' \<and>
    iterator_at s' ptr reverse (drop (length page) ks)"
proof -
  note d = opened_withD [OF o]
  obtain i where i: "iters s ptr = Some i" "remaining reverse (keys i) (pos i) = ks" using it(1) by (auto simp: iterator_left_def)
  have wf: "wfi i" by (rule d(6) [OF i(1)])
  have mx': "sint max_count = int (nat (sint max_count))" using mx by simp
  obtain i' where i': "next_array ops jEnd reverse max_count i 0 [] = Some (page, i')" "wfi i'" "keys i' = keys i"
      "remaining reverse (keys i) (pos i') = drop (length page) ks"
    using next_array_eq [OF wf _ mx', of 0 jEnd reverse "[]"] i(2) by (auto simp: page_def)
  have "it_Valid ops i" using remaining_eq [of reverse "keys i" "pos i"] i(2) it(2) valid_law [OF wf] by (auto split: if_splits)
  then have "jni_iteratorNextArray ops s ptr jEnd reverse max_count = Some (Ret (map c_chars page), s\<lparr>iters := (iters s)(ptr \<mapsto> i')\<rparr>)"
    using d(3) i(1) i'(1) by (simp add: jni_iteratorNextArray_def)
  moreover have "opened_with R B m (s\<lparr>iters := (iters s)(ptr \<mapsto> i')\<rparr>)" using o i'(2) by (auto simp: state_open_def native_ok_def)
  ultimately show ?thesis using i'(3,4) by (auto simp: iterator_left_def)
qed

lemma iteratorIsValid_ok:
  assumes "opened_with R B m s" "iterator_at s ptr reverse ks"
  shows "jni_iteratorIsValid ops s ptr jEnd reverse = Ret (takeWhile (before_end jEnd reverse) ks \<noteq> [])"
proof -
  obtain i where i: "iters s ptr = Some i" "remaining reverse (keys i) (pos i) = ks" using assms(2) by (auto simp: iterator_left_def)
  have wf: "wfi i" by (rule opened_withD(6) [OF assms(1) i(1)])
  show ?thesis
    using remaining_eq [of reverse "keys i" "pos i"] i valid_law [OF wf] key_law [OF wf]
    by (auto simp: jni_iteratorIsValid_def before_end_def Slice_compare_order not_less split: option.splits)
qed

lemma iteratorClose_ok:
  assumes "opened_with R B m s" "iterator_at s ptr reverse ks"
  shows "\<exists>s'. jni_iteratorClose ops s ptr = (Ret (), s') \<and> opened_with R B m s'"
proof -
  obtain i where i: "iters s ptr = Some i" using assms(2) by (auto simp: iterator_left_def)
  note d = opened_withD [OF assms(1)]
  have "opened_with R B m (s\<lparr>env := op_DeleteIterator ops (env s) i, iters := (iters s)(ptr := None)\<rparr>)"
    using delete_iterator [OF d(1,2) d(6) [OF i]] assms(1) by (auto simp: state_open_def native_ok_def)
  then show ?thesis using i by (simp add: jni_iteratorClose_def)
qed

end

end
