(* ===== verification/Native_DB.thy ===== *)
theory Native_DB
  imports DB_Sessions DB_Properties JNI_Contract
begin

text \<open>
  The native methods of \<^verbatim>\<open>snappydb.cpp\<close> over the database of \<^verbatim>\<open>db/db_impl.cc\<close>: the virtual functions are those of
  \<open>DB_Impl\<close> and \<open>DB_Iter\<close>, and they keep the contract that the native methods rely on. So the methods of SnappyDB work on
  a map from keys to values, which is still there when the database is closed and opened again.
\<close>

section \<open>The virtual functions\<close>

text \<open>
  SnappyDB has one database open at a time. An iterator comes with the version that it holds on to. The functions that
  take an open database are called only while it is open: what they give without one is never used.
\<close>

datatype world = Closed file_system | Opened DBImpl

type_synonym native_iterator = "DBIter \<times> Version"

definition native_options :: Options where
  "native_options = Options_new\<lparr>create_if_missing := True\<rparr>"

definition lock_error :: "bytes \<Rightarrow> Status" where
  "lock_error p = Status_IOError (cstr ''lock '' @ LockFileName p) (cstr ''already held by process'')"

definition written_db :: "(Status \<times> DBImpl \<times> nat) option \<Rightarrow> (Status \<times> world) option" where
  "written_db r = map_option (\<lambda>(s, d, n). (s, Opened d)) r"

definition no_iterator :: native_iterator where
  "no_iterator = (NewDBIterator Bytewise_Compare \<lparr>ientries = [], ipos = 0\<rparr> 0, Version_new)"

definition leveldb_ops :: "db_env \<Rightarrow> (world, native_iterator) DB_ops" where
  "leveldb_ops ev =
     \<lparr>op_Open = \<lambda>w p. (case w of
         Closed fs \<Rightarrow> (case DB_Open ev native_options p fs of Inl (s, fs) \<Rightarrow> (s, Closed fs) | Inr d \<Rightarrow> (Status_OK, Opened d))
       | Opened d \<Rightarrow> (lock_error p, w)),
      op_Release = \<lambda>w p. (case w of Closed fs \<Rightarrow> w | Opened d \<Rightarrow> Closed (DB_Close d)),
      op_Destroy = \<lambda>w p. (case w of
         Closed fs \<Rightarrow> (case DestroyDB ev p fs of (s, fs) \<Rightarrow> (s, Closed fs))
       | Opened d \<Rightarrow> (lock_error p, w)),
      op_Put = \<lambda>w p k v. (case w of Closed fs \<Rightarrow> None | Opened d \<Rightarrow> written_db (DB_Put ev d False k v)),
      op_Delete = \<lambda>w p k. (case w of Closed fs \<Rightarrow> None | Opened d \<Rightarrow> written_db (DB_Delete ev d False k)),
      op_Get = \<lambda>w p k. (case w of
         Closed fs \<Rightarrow> (Status_IOError [] [], [], w)
       | Opened d \<Rightarrow> (case DB_Get ev d None k of (s, v, d) \<Rightarrow> (s, v, Opened d))),
      op_NewIterator = \<lambda>w p. (case w of
         Closed fs \<Rightarrow> (no_iterator, w)
       | Opened d \<Rightarrow> (case DB_NewIterator ev d None of (it, d') \<Rightarrow> ((it, vs_current (db_versions d)), Opened d'))),
      op_DeleteIterator = \<lambda>w i. (case w of Closed fs \<Rightarrow> w | Opened d \<Rightarrow> Opened (CleanupIteratorState d (snd i))),
      it_Valid = DBIter_Valid \<circ> fst, it_key = DBIter_key \<circ> fst,
      it_Seek = \<lambda>i t. (DBIter_Seek (fst i) t, snd i), it_SeekToFirst = map_prod DBIter_SeekToFirst id,
      it_SeekToLast = map_prod DBIter_SeekToLast id, it_Next = map_prod DBIter_Next id, it_Prev = map_prod DBIter_Prev id\<rparr>"

section \<open>The contract\<close>

definition world_ok :: "db_env \<Rightarrow> bytes \<Rightarrow> nat \<Rightarrow> nat \<Rightarrow> world \<Rightarrow> bool" where
  "world_ok ev path R B w \<longleftrightarrow> env_fits ev native_options \<and>
     (case w of
        Opened d \<Rightarrow> ready (Suc R) B ev native_options path d
      | Closed fs \<Rightarrow> GetChildren fs path = [] \<and> R < 64 \<and> B < 2 ^ 31 \<or> (\<exists>d. fs = DB_Close d \<and> ready (Suc R) B ev native_options path d))"

definition is_open :: "world \<Rightarrow> bool" where
  "is_open w = (case w of Closed fs \<Rightarrow> False | Opened d \<Rightarrow> True)"

definition world_contents :: "db_env \<Rightarrow> bytes \<Rightarrow> world \<Rightarrow> bytes \<rightharpoonup> bytes" where
  "world_contents ev path w =
     (case w of
        Opened d \<Rightarrow> contents_of ev d
      | Closed fs \<Rightarrow> (case DB_Open ev native_options path fs of Inl _ \<Rightarrow> Map.empty | Inr d \<Rightarrow> contents_of ev d))"

lemma native_options_simps [simp]: "create_if_missing native_options" "\<not> error_if_exists native_options"
  by (simp_all add: native_options_def Options_new_def)

lemma finite_contents: "finite (dom (contents_of ev d))"
  using finite_dom_visible by (simp add: contents_of_def contents_at_def)

lemma new_iterator_ready:
  assumes "ready R B ev opts name d"
  shows "\<exists>it. DB_NewIterator ev d None = (it, d\<lparr>readers := readers d @ [vs_current (db_versions d)]\<rparr>) \<and> dbiter_ok it \<and>
    shown_keys it = sorted_list_of_set (dom (contents_of ev d))"
proof -
  obtain es where ok: "db_ok ev d es" using ready_ok [OF assms] by blast
  let ?es = "merge_runs (db_runs ev d)" and ?S = "vs_last_sequence (db_versions d)"
  have "DB_NewIterator ev d None = (new_dbiter ?es ?S, d\<lparr>readers := readers d @ [vs_current (db_versions d)]\<rparr>)"
    by (simp add: DB_NewIterator_def NewInternalIterator_entries [OF ok])
  then show ?thesis
    using dbiter_new [OF wf_merge_runs [OF db_okD(6) [OF ok]] db_okD(11) [OF ok], of "length ?es"]
    by (simp add: contents_of_def contents_at_def)
qed

lemma world_open:
  assumes "world_ok ev path (Suc R) B (Closed fs)"
  shows "\<exists>d. DB_Open ev native_options path fs = Inr d \<and> ready (Suc R) B ev native_options path d"
proof -
  have env: "env_ok ev" using assms by (simp add: world_ok_def env_fits_def)
  consider "GetChildren fs path = []" "Suc R < 64" "B < 2 ^ 31" | d where "fs = DB_Close d" "ready (Suc (Suc R)) B ev native_options path d"
    using assms by (auto simp: world_ok_def)
  then show ?thesis
  proof cases
    case 1
    then show ?thesis using ready_created [OF env 1(1), of native_options "Suc R" B] by auto
  next
    case 2
    then show ?thesis using ready_reopened [OF env 2(2)] by auto
  qed
qed

lemma ready_sizes: "ready R (B + n) ev opts name d \<Longrightarrow> n < 2 ^ 31"
  by (simp add: ready_def)

interpretation leveldb_iterators: native_iterators "leveldb_ops ev" "\<lambda>i. dbiter_ok (fst i)" "\<lambda>i. shown_keys (fst i)" "\<lambda>i. shown_pos (fst i)" for ev
  by unfold_locales
    (auto simp: leveldb_ops_def DBIter_Valid_def dbiter_valid dbiter_Seek dbiter_SeekToFirst dbiter_SeekToLast dbiter_Next dbiter_Prev)

lemmas world_defs = world_ok_def is_open_def world_contents_def leveldb_ops_def written_db_def

interpretation leveldb: native_database "leveldb_ops ev" "\<lambda>i. dbiter_ok (fst i)" "\<lambda>i. shown_keys (fst i)" "\<lambda>i. shown_pos (fst i)"
  "world_ok ev path" is_open "world_contents ev path" path for ev path
proof (unfold_locales, goal_cases)
  case (1 R B w)
  then obtain fs where w: "w = Closed fs" by (cases w) (auto simp: is_open_def)
  obtain d where "DB_Open ev native_options path fs = Inr d" "ready (Suc R) B ev native_options path d" using world_open 1(1) w by blast
  then show ?case using 1(1) w by (simp add: world_defs)
next
  case (2 R B w)
  then obtain d where w: "w = Opened d" "ready (Suc R) B ev native_options path d" "env_ok ev"
    by (cases w) (auto simp: is_open_def world_ok_def env_fits_def)
  then show ?case using 2(1) ready_reopened [OF w(3,2)] by (auto simp: world_defs)
next
  case (3 R B k v w)
  then obtain d where w: "w = Opened d" "env_fits ev native_options" "ready (Suc R) (B + (length k + length v + 72)) ev native_options path d"
    by (cases w) (auto simp: is_open_def world_ok_def)
  have "length k + 8 < 2 ^ 32" "length v < 2 ^ 32" using ready_sizes [OF w(3)] by simp_all
  from ready_put [OF w(2,3) this, of False] show ?case using w(1,2) by (auto simp: world_defs)
next
  case (4 R B k w)
  then obtain d where w: "w = Opened d" "env_fits ev native_options" "ready (Suc R) (B + (length k + 72)) ev native_options path d"
    by (cases w) (auto simp: is_open_def world_ok_def)
  have "length k + 8 < 2 ^ 32" using ready_sizes [OF w(3)] by simp
  from ready_delete [OF w(2,3) this, of False] show ?case using w(1,2) by (auto simp: world_defs)
next
  case (5 R B w k)
  then obtain d where w: "w = Opened d" "env_ok ev" "ready (Suc R) B ev native_options path d"
    by (cases w) (auto simp: is_open_def world_ok_def env_fits_def)
  from ready_get [OF w(2,3) 5(3)] obtain d' where "DB_Get ev d None k =
      (case contents_of ev d k of Some v \<Rightarrow> (Status_OK, v, d') | None \<Rightarrow> (Status_NotFound [] [], [], d'))"
    "ready (Suc R) B ev native_options path d'" "contents_of ev d' = contents_of ev d" by blast
  then show ?case using w(1) 5(1) by (intro exI [of _ "Opened d'"]) (auto simp: world_defs split: option.splits)
next
  case (6 R B w)
  then show ?case using finite_contents by (auto simp: is_open_def world_contents_def split: world.splits)
next
  case (7 R B w)
  then obtain d where w: "w = Opened d" "ready (Suc R) B ev native_options path d"
    by (cases w) (auto simp: is_open_def world_ok_def)
  note kept = readers_read_kept [where env = ev and db = d and rs = "readers d @ [vs_current (db_versions d)]"]
  show ?case
    using w(1) 7(1) new_iterator_ready [OF w(2)] read_kept_ready [OF kept w(2)] read_kept_contents [OF kept] by (auto simp: world_defs)
next
  case (8 R B w i)
  then obtain d where w: "w = Opened d" "ready (Suc R) B ev native_options path d"
    by (cases w) (auto simp: is_open_def world_ok_def)
  note kept = readers_read_kept [where env = ev and db = d and rs = "remove1 (snd i) (readers d)"]
  show ?case
    using w(1) 8(1) read_kept_ready [OF kept w(2)] read_kept_contents [OF kept] by (simp add: world_defs CleanupIteratorState_def)
qed

section \<open>States of the native layer\<close>

text \<open>
  The database at \<open>path\<close> is open (closed) with the contents \<open>m\<close>; it may be opened \<open>R\<close> more times and \<open>B\<close> more bytes
  may be written, where an update counts as its key, its value and 72 bytes.
\<close>

definition native_open :: "db_env \<Rightarrow> bytes \<Rightarrow> nat \<Rightarrow> nat \<Rightarrow> (bytes \<rightharpoonup> bytes) \<Rightarrow> (world, native_iterator) Native \<Rightarrow> bool" where
  "native_open ev path = state_open (world_ok ev path) is_open (\<lambda>i. dbiter_ok (fst i)) (world_contents ev path) path"

definition native_closed :: "db_env \<Rightarrow> bytes \<Rightarrow> nat \<Rightarrow> nat \<Rightarrow> (bytes \<rightharpoonup> bytes) \<Rightarrow> (world, native_iterator) Native \<Rightarrow> bool" where
  "native_closed ev path = state_closed (world_ok ev path) is_open (\<lambda>i. dbiter_ok (fst i)) (world_contents ev path) path"

lemmas native_put_value = leveldb.put_value_ok [folded native_open_def]
  and native_del = leveldb.del_ok [folded native_open_def]
  and native_get_value = leveldb.get_value_ok [folded native_open_def]
  and native_exists = leveldb.exists_ok [folded native_open_def]
  and native_open_ok = leveldb.open_ok [folded native_open_def native_closed_def]
  and native_close_ok = leveldb.close_ok [folded native_open_def native_closed_def]
  and native_findKeys = leveldb.findKeys_ok [folded native_open_def]
  and native_countKeys = leveldb.countKeys_ok [folded native_open_def]
  and native_findKeysBetween = leveldb.findKeysBetween_ok [folded native_open_def]
  and native_countKeysBetween = leveldb.countKeysBetween_ok [folded native_open_def]
  and native_findKeysIterator = leveldb.findKeysIterator_ok [folded native_open_def]
  and native_iteratorNextArray = leveldb.iteratorNextArray_ok [folded native_open_def]

lemma native_openD:
  assumes "native_open ev path R B m s"
  shows "isDBopen s" "db s = LiveDB path" "B < 2 ^ 31"
  using assms ready_sizes [of "Suc R" 0 B]
  by (auto simp: native_open_def state_open_def native_ok_def world_ok_def is_open_def split: world.splits)

lemma native_when_open:
  assumes "native_open ev path R B m s" shows "when_open_wait s f = f path" "when_open s g = g path"
  using native_openD [OF assms] by (simp_all add: when_open_wait_def when_open_def)

text \<open>A fresh library with no file below the path.\<close>

lemma native_start:
  assumes "env_fits ev native_options" "R < 64" "B < 2 ^ 31"
  shows "native_closed ev path R B Map.empty (Native_init (Closed []))"
proof -
  have "\<exists>d. DB_Open ev native_options path [] = Inr d \<and> contents_of ev d = Map.empty"
    using ready_created [OF _ GetChildren_Nil, of ev native_options 0 0 path] assms(1) by (auto simp: env_fits_def)
  then show ?thesis
    using assms by (auto simp: native_closed_def state_closed_def native_ok_def Native_init_def world_ok_def is_open_def
        world_contents_def GetChildren_Nil)
qed

lemma quiet_env_fits: "env_fits quiet_env native_options"
  using quiet_env_ok by (simp add: env_fits_def native_options_def default_options_def)

lemma native_started:
  assumes "R < 63" "B < 2 ^ 31"
  shows "\<exists>s. jni_open (leveldb_ops quiet_env) True (Native_init (Closed [])) (cstr ''db'') = (Ret (), s) \<and>
    native_open quiet_env (cstr ''db'') R B Map.empty s"
proof -
  have "native_closed quiet_env (cstr ''db'') (Suc R) B Map.empty (Native_init (Closed []))"
    using native_start [OF quiet_env_fits] assms by simp
  moreover have "c_chars (cstr ''db'') = cstr ''db''" by (simp add: c_chars_def)
  ultimately show ?thesis using native_open_ok by blast
qed

section \<open>Integers as bytes\<close>

lemma take_bit_byte_step:
  fixes x w :: "'a::len word"
  assumes "take_bit j x = take_bit j (drop_bit 8 w)" and "8 \<le> LENGTH('a)"
  shows "take_bit (j + 8) (push_bit 8 x + ucast (ucast w :: byte)) = take_bit (j + 8) w"
proof -
  have "push_bit 8 x + ucast (ucast w :: byte) = push_bit 8 x OR ucast (ucast w :: byte)"
    by (rule disjunctive_add_eq_or) (auto simp: bit_eq_iff bit_simps)
  moreover have "bit x n = bit w (n + 8)" if "n < j" "n + 8 < LENGTH('a)" for n
    using arg_cong [OF assms(1), of "\<lambda>y. bit y n"] that by (simp add: bit_simps add.commute)
  then have "bit (push_bit 8 x OR ucast (ucast w :: byte)) n = bit w n" if "n < j + 8" "n < LENGTH('a)" for n
    using that by (cases "n < 8") (auto simp: bit_simps)
  ultimately show ?thesis by (simp only:) (rule bit_word_eqI, simp only: bit_take_bit_iff, blast)
qed

lemma getInt_bytes:
  "(let ret = ucast (le_bytes 4 v ! 3); ret = push_bit 8 ret + ucast (le_bytes 4 v ! 2);
        ret = push_bit 8 ret + ucast (le_bytes 4 v ! 1); ret = push_bit 8 ret + ucast (le_bytes 4 v ! 0) in ret) = (v :: u32)"
proof -
  have "take_bit 8 (ucast (ucast (drop_bit 24 v) :: byte) :: u32) = take_bit 8 (drop_bit 24 v)"
    by (rule bit_word_eqI) (auto simp: bit_simps)
  note s3 = this
  show ?thesis
    using take_bit_byte_step [of 24 _ v] take_bit_byte_step [of 16 _ "drop_bit 8 v"] take_bit_byte_step [of 8 _ "drop_bit 16 v"] s3
    by (simp add: le_bytes_nth Let_def drop_bit_drop_bit take_bit_word_eq_self)
qed

lemma getLong_bytes:
  fixes v top :: u64
  assumes "top = scast (le_bytes 8 v ! 7) \<or> top = ucast (le_bytes 8 v ! 7)"
  shows "(let ret = push_bit 8 top + ucast (le_bytes 8 v ! 6); ret = push_bit 8 ret + ucast (le_bytes 8 v ! 5);
        ret = push_bit 8 ret + ucast (le_bytes 8 v ! 4); ret = push_bit 8 ret + ucast (le_bytes 8 v ! 3);
        ret = push_bit 8 ret + ucast (le_bytes 8 v ! 2); ret = push_bit 8 ret + ucast (le_bytes 8 v ! 1);
        ret = push_bit 8 ret + ucast (le_bytes 8 v ! 0) in ret) = v"
proof -
  have s7: "take_bit 8 top = take_bit 8 (drop_bit 56 v)"
    using assms by (auto simp: le_bytes_nth intro!: bit_word_eqI) (auto simp: bit_simps)
  show ?thesis
    using take_bit_byte_step [of 56 _ v] take_bit_byte_step [of 48 _ "drop_bit 8 v"] take_bit_byte_step [of 40 _ "drop_bit 16 v"]
      take_bit_byte_step [of 32 _ "drop_bit 24 v"] take_bit_byte_step [of 24 _ "drop_bit 32 v"] take_bit_byte_step [of 16 _ "drop_bit 40 v"]
      take_bit_byte_step [of 8 _ "drop_bit 48 v"] s7
    by (simp add: le_bytes_nth Let_def drop_bit_drop_bit take_bit_word_eq_self)
qed

lemma native_get_some:
  assumes "native_open ev path R B (m(c_chars jKey \<mapsto> d)) s" "length (c_chars jKey) + 8 < 2 ^ 32" "ret d = r"
  shows "\<exists>s'. get_value (leveldb_ops ev) s jKey failed ret = (r, s') \<and> native_open ev path R B (m(c_chars jKey \<mapsto> d)) s'"
  using native_get_value [OF assms(1,2), of failed ret] assms(3) by simp

lemma native_getInt:
  assumes "native_open ev path R B (m(c_chars jKey \<mapsto> le_bytes 4 v)) s" "length (c_chars jKey) + 8 < 2 ^ 32"
  shows "\<exists>s'. jni_getInt (leveldb_ops ev) s jKey = (Ret v, s') \<and> native_open ev path R B (m(c_chars jKey \<mapsto> le_bytes 4 v)) s'"
  unfolding jni_getInt_def by (rule native_get_some [OF assms]) (use getInt_bytes [of v] in \<open>simp add: Let_def\<close>)

lemma native_getLong:
  assumes "native_open ev path R B (m(c_chars jKey \<mapsto> le_bytes 8 v)) s" "length (c_chars jKey) + 8 < 2 ^ 32"
  shows "\<exists>s'. jni_getLong sc (leveldb_ops ev) s jKey = (Ret v, s') \<and> native_open ev path R B (m(c_chars jKey \<mapsto> le_bytes 8 v)) s'"
  unfolding jni_getLong_def
  by (rule native_get_some [OF assms])
    (use getLong_bytes [of "if sc then scast (le_bytes 8 v ! 7) else ucast (le_bytes 8 v ! 7)" v] in \<open>simp add: Let_def\<close>)

section \<open>Properties\<close>

text \<open>
  C9: on an open database the native methods of SnappyDB work on a map from keys to values: \<^verbatim>\<open>__put\<close> of a byte array and
  \<^verbatim>\<open>__del\<close> return and change the map at the key, \<^verbatim>\<open>__getBytes\<close> returns the value of a key and throws with the message of
  \<^verbatim>\<open>NotFound\<close> when it has none, \<^verbatim>\<open>__exists\<close> says whether it has one, and an int that \<^verbatim>\<open>__putInt\<close> stored is what \<^verbatim>\<open>__getInt\<close>
  returns. None of them throws otherwise, and the database stays open with its invariants.
\<close>

theorem native_methods_refine_map:
  assumes "native_open ev path R (B + (length (c_chars jKey) + length arr + 76)) m s"
  shows "(\<exists>s'. jni_put_bytes (leveldb_ops ev) True s jKey arr = Some (Ret (), s') \<and> native_open ev path R (B + 4) (m(c_chars jKey \<mapsto> arr)) s') \<and>
    (\<exists>s'. jni_del (leveldb_ops ev) s jKey = Some (Ret (), s') \<and> native_open ev path R (B + length arr + 4) (m(c_chars jKey := None)) s') \<and>
    (\<exists>s'. jni_getBytes (leveldb_ops ev) s jKey =
       (case m (c_chars jKey) of Some v \<Rightarrow> Ret v
        | None \<Rightarrow> Throw (cstr ''Failed to get a byte array: '' @ Status_ToString (Status_NotFound [] [])), s') \<and>
       native_open ev path R (B + (length (c_chars jKey) + length arr + 76)) m s') \<and>
    (\<exists>s'. jni_exists (leveldb_ops ev) s jKey = (Ret (m (c_chars jKey) \<noteq> None), s') \<and>
       native_open ev path R (B + (length (c_chars jKey) + length arr + 76)) m s') \<and>
    (\<exists>s1 s2. jni_putInt (leveldb_ops ev) s jKey i = Some (Ret (), s1) \<and> jni_getInt (leveldb_ops ev) s1 jKey = (Ret i, s2) \<and>
       native_open ev path R (B + length arr) (m(c_chars jKey \<mapsto> le_bytes 4 i)) s2)"
proof (intro conjI)
  let ?k = "c_chars jKey"
  have len: "length ?k + 8 < 2 ^ 32" using native_openD(3) [OF assms] by simp
  have o: "native_open ev path R ((B + 4) + (length ?k + length arr + 72)) m s"
    "native_open ev path R ((B + length arr + 4) + (length ?k + 72)) m s"
    "native_open ev path R ((B + length arr) + (length ?k + length (le_bytes 4 i) + 72)) m s"
    using assms by (simp_all add: algebra_simps)
  show "\<exists>s'. jni_put_bytes (leveldb_ops ev) True s jKey arr = Some (Ret (), s') \<and> native_open ev path R (B + 4) (m(?k \<mapsto> arr)) s'"
    using native_put_value [OF o(1)] by (simp add: jni_put_bytes_def native_when_open [OF assms])
  show "\<exists>s'. jni_del (leveldb_ops ev) s jKey = Some (Ret (), s') \<and> native_open ev path R (B + length arr + 4) (m(?k := None)) s'"
    by (rule native_del [OF o(2)])
  show "\<exists>s'. jni_getBytes (leveldb_ops ev) s jKey =
       (case m ?k of Some v \<Rightarrow> Ret v | None \<Rightarrow> Throw (cstr ''Failed to get a byte array: '' @ Status_ToString (Status_NotFound [] [])), s') \<and>
       native_open ev path R (B + (length ?k + length arr + 76)) m s'"
    unfolding jni_getBytes_def by (rule native_get_value [OF assms len])
  show "\<exists>s'. jni_exists (leveldb_ops ev) s jKey = (Ret (m ?k \<noteq> None), s') \<and>
       native_open ev path R (B + (length ?k + length arr + 76)) m s'"
    by (rule native_exists [OF assms len])
  obtain s1 where "jni_putInt (leveldb_ops ev) s jKey i = Some (Ret (), s1)" "native_open ev path R (B + length arr) (m(?k \<mapsto> le_bytes 4 i)) s1"
    using native_put_value [OF o(3)] by (auto simp: jni_putInt_def native_when_open [OF assms])
  then show "\<exists>s1 s2. jni_putInt (leveldb_ops ev) s jKey i = Some (Ret (), s1) \<and> jni_getInt (leveldb_ops ev) s1 jKey = (Ret i, s2) \<and>
       native_open ev path R (B + length arr) (m(?k \<mapsto> le_bytes 4 i)) s2"
    using native_getInt len by blast
qed

theorem native_methods_refine_map_witness:
  "\<exists>s s'. jni_open (leveldb_ops quiet_env) True (Native_init (Closed [])) (cstr ''db'') = (Ret (), s) \<and>
     jni_put_bytes (leveldb_ops quiet_env) True s [107] [1, 2] = Some (Ret (), s') \<and>
     native_open quiet_env (cstr ''db'') 3 1004 [[107] \<mapsto> [1, 2]] s' \<and> fst (jni_exists (leveldb_ops quiet_env) s [107]) = Ret False"
proof -
  have k: "c_chars [107] = [107]" by (simp add: c_chars_def)
  obtain s where s: "jni_open (leveldb_ops quiet_env) True (Native_init (Closed [])) (cstr ''db'') = (Ret (), s)"
    "native_open quiet_env (cstr ''db'') 3 (1000 + (length (c_chars [107]) + length [1 :: byte, 2] + 76)) Map.empty s"
    using native_started [of 3 1079] by (auto simp: k)
  note r = native_methods_refine_map [OF s(2)]
  obtain s' where "jni_put_bytes (leveldb_ops quiet_env) True s [107] [1, 2] = Some (Ret (), s')"
    "native_open quiet_env (cstr ''db'') 3 1004 [[107] \<mapsto> [1, 2]] s'"
    using conjunct1 [OF r] by (auto simp: k)
  moreover have "fst (jni_exists (leveldb_ops quiet_env) s [107]) = Ret False"
    using r [THEN conjunct2, THEN conjunct2, THEN conjunct2, THEN conjunct1] by (auto simp: k)
  ultimately show ?thesis using s(1) by blast
qed

text \<open>
  C8: what is stored is still there when the database is closed and opened again: after \<^verbatim>\<open>__putLong\<close>, \<^verbatim>\<open>__close\<close> and
  \<^verbatim>\<open>__open\<close> with the same path, \<^verbatim>\<open>__getLong\<close> returns the number, whatever the signedness of \<^verbatim>\<open>char\<close>, and all other keys have the
  values that they had. Each of the calls returns and none throws.
\<close>

theorem native_values_persist:
  assumes "native_open ev path (Suc R) (B + (length (c_chars jKey) + 80)) m s" "c_chars jPath = path"
  shows "\<exists>s1 s2 s3 s4. jni_putLong (leveldb_ops ev) s jKey v = Some (Ret (), s1) \<and> jni_close (leveldb_ops ev) s1 = (Ret (), s2) \<and>
    jni_isOpen s2 = Ret False \<and> jni_open (leveldb_ops ev) True s2 jPath = (Ret (), s3) \<and>
    jni_getLong signed_char (leveldb_ops ev) s3 jKey = (Ret v, s4) \<and> native_open ev path R B (m(c_chars jKey \<mapsto> le_bytes 8 v)) s4"
proof -
  let ?k = "c_chars jKey"
  have len: "length ?k + 8 < 2 ^ 32" using native_openD(3) [OF assms(1)] by simp
  have "native_open ev path (Suc R) (B + (length ?k + length (le_bytes 8 v) + 72)) m s" using assms(1) by (simp add: algebra_simps)
  from native_put_value [OF this] obtain s1 where s1: "jni_putLong (leveldb_ops ev) s jKey v = Some (Ret (), s1)"
    "native_open ev path (Suc R) B (m(?k \<mapsto> le_bytes 8 v)) s1" by (auto simp: jni_putLong_def native_when_open [OF assms(1)])
  obtain s2 where s2: "jni_close (leveldb_ops ev) s1 = (Ret (), s2)" "native_closed ev path (Suc R) B (m(?k \<mapsto> le_bytes 8 v)) s2"
    using native_close_ok [OF s1(2)] by blast
  obtain s3 where s3: "jni_open (leveldb_ops ev) True s2 jPath = (Ret (), s3)" "native_open ev path R B (m(?k \<mapsto> le_bytes 8 v)) s3"
    using native_open_ok [OF s2(2) assms(2)] by blast
  have "jni_isOpen s2 = Ret False" using s2(2) by (simp add: jni_isOpen_def native_closed_def state_closed_def)
  then show ?thesis using s1(1) s2(1) s3(1) native_getLong [OF s3(2) len, of signed_char] by blast
qed

theorem native_values_persist_witness:
  "\<exists>s s1 s2 s3 s4. jni_open (leveldb_ops quiet_env) True (Native_init (Closed [])) (cstr ''db'') = (Ret (), s) \<and>
     jni_putLong (leveldb_ops quiet_env) s [107] 500 = Some (Ret (), s1) \<and> jni_close (leveldb_ops quiet_env) s1 = (Ret (), s2) \<and>
     jni_open (leveldb_ops quiet_env) True s2 (cstr ''db'') = (Ret (), s3) \<and> jni_getLong True (leveldb_ops quiet_env) s3 [107] = (Ret 500, s4)"
proof -
  have k: "c_chars [107] = [107]" "c_chars (cstr ''db'') = cstr ''db''" by (simp_all add: c_chars_def)
  obtain s where s: "jni_open (leveldb_ops quiet_env) True (Native_init (Closed [])) (cstr ''db'') = (Ret (), s)"
    "native_open quiet_env (cstr ''db'') (Suc 0) (0 + (length (c_chars [107]) + 80)) Map.empty s"
    using native_started [of "Suc 0" 81] by (auto simp: k)
  show ?thesis using native_values_persist [OF s(2) k(2), of 500 True] s(1) by blast
qed



end
