(* ===== verification/Spec2Isabelle.thy ===== *)
theory Spec2Isabelle
  imports DB_Properties Filters Native_DB
begin

text \<open>
  A verification library for SnappyDB: the native part of the repository, that is the methods of
  \<^verbatim>\<open>snappydb.cpp\<close> and the copy of LevelDB below \<^verbatim>\<open>library/src/main/jni\<close> that they call. File names
  in these theories are relative to that directory.

  \<^bold>\<open>The parts and how they interact.\<close> A native method checks that the database is open and
  calls it. A write is packed into a batch (\<^verbatim>\<open>db/write_batch.cc\<close>), gets sequence numbers, is appended to
  the write-ahead log (\<^verbatim>\<open>db/log_writer.cc\<close>) and inserted into the memtable (\<^verbatim>\<open>db/memtable.cc\<close>) under
  internal keys (\<^verbatim>\<open>db/dbformat.cc\<close>). A full memtable becomes a sorted table file; table files live in
  seven levels, described by a version (\<^verbatim>\<open>db/version_set.cc\<close>). Compactions merge tables of one level
  into the next. Each change of the version is an edit (\<^verbatim>\<open>db/version_edit.cc\<close>) appended to the manifest,
  whose name is in the file CURRENT (\<^verbatim>\<open>db/filename.cc\<close>); opening the database replays them. A read
  looks for the newest entry at or before a sequence number in the memtable and then in the
  tables from new to old; \<^verbatim>\<open>db/db_iter.cc\<close> turns a sorted sequence of internal entries into an
  iterator over user keys.

  \<^bold>\<open>The theories.\<close>
  \<^item> \<open>Prelude\<close>: bytes, words, strings and the generic lemmas.
  \<^item> \<open>Coding\<close> (\<^verbatim>\<open>util/coding\<close>): fixed and variable length integers, length-prefixed slices; decoding is
    the inverse of encoding on every input with any rest, and fails where the code fails.
  \<^item> \<open>Slices\<close> (\<^verbatim>\<open>slice.h\<close>, \<^verbatim>\<open>util/comparator.cc\<close>): \<^verbatim>\<open>memcmp\<close> order is the lexicographic order (for slices below
    2 GB, see Bounds); separators and successors stay within their bounds. The locale \<open>comparator\<close> is the contract of a comparator and
    is interpreted for the bytewise one.
  \<^item> \<open>DBFormat\<close> (\<^verbatim>\<open>db/dbformat\<close>): packing and parsing internal keys, their order (user key up, sequence
    number down) and the internal comparator over any user comparator (a sublocale of \<open>comparator\<close>).
  \<^item> \<open>Crc32c\<close> (\<^verbatim>\<open>util/crc32c\<close>): the four-table routine is the bitwise CRC-32C, masking is reversible.
  \<^item> \<open>Logging\<close>, \<open>Status_Codes\<close>: numbers in text with overflow checks; the byte array of a status.
  \<^item> \<open>File_Names\<close>, \<open>Env_Files\<close>: names and their parsing, \<^verbatim>\<open>SetCurrentFile\<close> as all or nothing over an
    environment whose calls may fail, reading whole files.
  \<^item> \<open>Write_Batch\<close>, \<open>Mem_Table\<close>: a batch as bytes refines a list of updates; inserting it into a memtable
    makes exactly these updates visible at the next sequence numbers.
  \<^item> \<open>Log_Format\<close>: the log with its blocks, fragments, checksums and torn ends. Records come back
    unchanged and in order; of a log cut anywhere, a prefix of the records comes back.
  \<^item> \<open>Filters\<close>: bloom filters and filter blocks have no false negatives.
  \<^item> \<open>DB_Iter\<close>: the iterator in both directions shows the visible keys of its sequence number in order.
  \<^item> \<open>Versions\<close>: search in the tables. \<open>T\<close> gives the entries of a table by its number;
    \<open>Version_Get\<close> returns what the newest entry says.
  \<^item> \<open>Version_Edit\<close>, \<open>Version_Set\<close>: edits as bytes, the builder that applies them, \<open>LogAndApply\<close> and
    \<open>Recover\<close>. The manifest always recovers to the current version.
  \<^item> \<open>Version_Layout\<close>: the invariant \<open>layout\<close> of versions (newer entries above older ones, files of a level
    apart) and the two ways to change it.
  \<^item> \<open>Compactions\<close>, \<open>Compaction_Inputs\<close>, \<open>Compaction_Work\<close>: choosing the inputs, the merging loop as written
    and its reference function \<open>keep\<close>.
  \<^item> \<open>Stores\<close>: tables, version set and manifest together. The invariant \<open>store_ok\<close> is kept, and a compaction
    changes nothing that a reader at the last sequence number or later can see.
  \<^item> \<open>Iterators\<close>, \<open>Blocks\<close>, \<open>Tables\<close>, \<open>Table_Contents\<close>, \<open>Table_Reads\<close> (\<^verbatim>\<open>table/\<close>): the two-level iterator, blocks with
    shared prefixes and restarts, and tables byte by byte. What a builder was given comes back from the iterator and
    from \<open>InternalGet\<close>.
  \<^item> \<open>Table_Cache\<close> (\<^verbatim>\<open>db/table_cache.cc\<close>): opening tables by number; it shows that the table code has the laws of the
    interface \<open>table_ops\<close> that versions and compactions use.
  \<^item> \<open>DB_Impl\<close> (\<^verbatim>\<open>db/db_impl.cc\<close>, \<^verbatim>\<open>db/builder.cc\<close>): the database, one definition per method.
  \<^item> \<open>DB_Contents\<close>: the invariant \<open>db_ok\<close> of the memtables, the store and the manifest, and the map \<open>contents_at\<close> from keys
    to values that a database stands for at a sequence number.
  \<^item> \<open>DB_Background\<close>: memtables written to tables, moves, compactions and the deletion of files keep the invariant and
    the contents; the weight of the entries by level goes down with every background call that has something to do.
  \<^item> \<open>DB_Writes\<close>: writing, with the invariant \<open>durable\<close> that the log files hold what the memtables do.
  \<^item> \<open>DB_Recovery\<close>, \<open>DB_Reopen\<close>: reading the logs and the manifest back.
  \<^item> \<open>DB_Manual\<close>: compacting on demand. \<open>DB_Properties\<close>: the properties of the database as a whole.
  \<^item> \<open>DB_Sessions\<close>: a database over many calls and many openings; \<open>ready R B\<close> says that it can be opened \<open>R\<close> more times
    and that \<open>B\<close> more bytes can be written.
  \<^item> \<open>Snappy_JNI\<close> (\<^verbatim>\<open>snappydb.cpp\<close>): every native method over the virtual functions of the database.
  \<^item> \<open>JNI_Contract\<close>, \<open>Native_DB\<close>: the contract of \<^verbatim>\<open>leveldb/db.h\<close> and \<^verbatim>\<open>leveldb/iterator.h\<close> as the locales
    \<open>native_iterators\<close> and \<open>native_database\<close>, what the native methods do over it, and its interpretation on the database of
    \<open>DB_Impl\<close>: the methods of SnappyDB work on a map that survives closing and opening.

  \<^bold>\<open>State, errors, loops.\<close> Objects are records and methods return them updated; a file system is an
  association list of names and contents. A call of the environment that may fail takes its
  outcome from a parameter, so each error path of the code is a branch of the model. Loops are
  recursive functions with a termination proof, there is no fuel; the loops that wait for the background
  thread, or read a table with an arbitrary index, have no result when they do not end, and it is proved that
  they end. Machine integers are words where they can wrap. The operations that the code protects by its mutex are
  atomic, and a thread that waits for background work sees whole background calls.

  \<^bold>\<open>Bounds.\<close> The properties of the database ask that its entries take less than 2 GB in all, since a compaction
  adds up file sizes in 64 bits and tables have offsets below that; \<open>running k\<close> says that enough file
  numbers are left for the work that is to be done and for \<open>k\<close> more steps. They also ask that no snapshot is held,
  because this version of the code does not keep the entries of one user key in one file of a level. \<open>durable N\<close> bounds the
  records of a log file by \<open>N\<close>, since recovery may use up a file number for each. \<^verbatim>\<open>Slice::compare\<close> narrows the
  length it compares to an \<^verbatim>\<open>int\<close>; the order of keys used throughout does not, so the results are about
  the code for keys of which the shorter one is below 2 GB (\<open>Slice_compare_narrowed_eq\<close>). Counts of
  batches are below \<open>2 ^ 31\<close>, where the sign extension of the code does not matter.

  \<^bold>\<open>Not modelled.\<close> Reference counts and memory management (\<^verbatim>\<open>util/arena\<close>, \<^verbatim>\<open>util/cache.cc\<close>), the skip list's
  pointers (it is taken as the sorted list it represents), threads and locks, the POSIX calls
  behind \<^verbatim>\<open>util/env_posix.cc\<close>, the debugging output, the C bindings (\<^verbatim>\<open>db/c.cc\<close>), the vendored snappy
  compressor (a parameter, taken to undo itself) and the Java classes. The merging iterator (\<^verbatim>\<open>table/merger.cc\<close>) is
  taken by its result, the merge of its sources; \<^verbatim>\<open>db/repair.cc\<close> is not modelled.
\<close>

end
